(* ===== verification/OT_Prelude.thy ===== *)
theory OT_Prelude
  imports Complex_Main "HOL-Library.AList" "HOL-Library.Product_Lexorder" "HOL-Library.Multiset"
begin

text \<open>
  What every component of the development shares: the Python values the sources test with
  \<^verbatim>\<open>isinstance\<close>, the exceptions the modelled code can raise as values of a sum type,
  dictionaries with Python's insertion order, the first minimum that \<^verbatim>\<open>min(..., key=...)\<close>
  returns, and the collections of facts the component proofs are driven by.
\<close>

section \<open>Collections of facts\<close>

named_theorems wf_intros \<open>well-formedness of a state is kept by an operation\<close>
named_theorems res_simps \<open>elimination of the result type\<close>
named_theorems dict_simps \<open>lookup, keys and values of insertion-ordered dictionaries\<close>

section \<open>Exceptions as values\<close>

text \<open>
  An operation that can raise returns \<open>exn + 'a\<close>, with \<open>Inl\<close> for the exception.
  \<open>Stable\<close> is \<^verbatim>\<open>StableError\<close> and its kin: a stable code with a sentence.
\<close>

datatype exn =
    KeyError
  | IndexError
  | ValueError
  | TypeError
  | OSError
  | StructError
  | RuntimeError string
  | QueueFullError string
  | Stable string string

type_synonym 'a res = "exn + 'a"

text \<open>\<^verbatim>\<open>type(error).__name__\<close>.\<close>

fun exn_name :: "exn \<Rightarrow> string" where
  "exn_name KeyError = ''KeyError''"
| "exn_name IndexError = ''IndexError''"
| "exn_name ValueError = ''ValueError''"
| "exn_name TypeError = ''TypeError''"
| "exn_name OSError = ''OSError''"
| "exn_name StructError = ''error''"
| "exn_name (RuntimeError m) = ''RuntimeError''"
| "exn_name (QueueFullError m) = ''QueueFullError''"
| "exn_name (Stable c m) = ''StableError''"

definition bind_res :: "'a res \<Rightarrow> ('a \<Rightarrow> 'b res) \<Rightarrow> 'b res" where
  "bind_res r f = (case r of Inl e \<Rightarrow> Inl e | Inr x \<Rightarrow> f x)"

lemma bind_res_simps [simp, res_simps]:
  "bind_res (Inl e) f = Inl e"
  "bind_res (Inr x) f = f x"
  by (simp_all add: bind_res_def)

lemma bind_res_eq_Inr [res_simps]:
  "bind_res r f = Inr y \<longleftrightarrow> (\<exists>x. r = Inr x \<and> f x = Inr y)"
  by (cases r) auto

lemma bind_res_eq_Inl [res_simps]:
  "bind_res r f = Inl e \<longleftrightarrow> r = Inl e \<or> (\<exists>x. r = Inr x \<and> f x = Inl e)"
  by (cases r) auto

definition map_res :: "('a \<Rightarrow> 'b) \<Rightarrow> 'a res \<Rightarrow> 'b res" where
  "map_res f r = (case r of Inl e \<Rightarrow> Inl e | Inr x \<Rightarrow> Inr (f x))"

lemma map_res_simps [simp, res_simps]:
  "map_res f (Inl e) = Inl e"
  "map_res f (Inr x) = Inr (f x)"
  by (simp_all add: map_res_def)

lemma map_res_eq_Inr [res_simps]: "map_res f r = Inr y \<longleftrightarrow> (\<exists>x. r = Inr x \<and> f x = y)"
  by (cases r) auto

lemma map_res_eq_Inl [res_simps]: "map_res f r = Inl e \<longleftrightarrow> r = Inl e"
  by (cases r) auto

definition is_ok :: "'a res \<Rightarrow> bool" where
  "is_ok r = (case r of Inl _ \<Rightarrow> False | Inr _ \<Rightarrow> True)"

lemma is_ok_simps [simp]: "is_ok (Inl e) = False" "is_ok (Inr x) = True"
  by (simp_all add: is_ok_def)

lemma is_ok_iff: "is_ok r \<longleftrightarrow> (\<exists>x. r = Inr x)"
  by (cases r) auto

section \<open>Python values\<close>

text \<open>
  Finite floats are the rationals they denote: every finite double is a rational number.
  Rounding of float arithmetic is not modelled.  Integers are unbounded, a \<^verbatim>\<open>bool\<close> is kept
  apart from an \<^verbatim>\<open>int\<close> because the sources test for it first.
\<close>

datatype pyfloat = Fin rat | PosInf | NegInf | NaN

datatype pyval =
    PNone
  | PBool bool
  | PInt int
  | PFloat pyfloat
  | PStr string
  | PList "pyval list"
  | PDict "(string \<times> pyval) list"

definition is_dict :: "pyval \<Rightarrow> bool" where
  "is_dict v = (case v of PDict _ \<Rightarrow> True | _ \<Rightarrow> False)"

definition is_str :: "pyval \<Rightarrow> bool" where
  "is_str v = (case v of PStr _ \<Rightarrow> True | _ \<Rightarrow> False)"

lemma is_dict_simps [simp]:
  "is_dict (PDict d)" "\<not> is_dict PNone" "\<not> is_dict (PBool b)" "\<not> is_dict (PInt i)"
  "\<not> is_dict (PFloat x)" "\<not> is_dict (PStr s)" "\<not> is_dict (PList l)"
  by (simp_all add: is_dict_def)

lemma is_str_simps [simp]:
  "is_str (PStr s)" "\<not> is_str PNone" "\<not> is_str (PBool b)" "\<not> is_str (PInt i)"
  "\<not> is_str (PFloat x)" "\<not> is_str (PDict d)" "\<not> is_str (PList l)"
  by (simp_all add: is_str_def)

text \<open>\<^verbatim>\<open>v == n\<close>: Python's integers, floats and bools compare as numbers.\<close>

definition same_number :: "pyval \<Rightarrow> int \<Rightarrow> bool" where
  "same_number v n = (case v of PInt m \<Rightarrow> m = n | PFloat (Fin q) \<Rightarrow> q = of_int n
     | PBool b \<Rightarrow> (if b then 1 else 0) = n | _ \<Rightarrow> False)"

section \<open>Dictionaries in insertion order\<close>

text \<open>
  A Python \<^verbatim>\<open>dict\<close> is an association list in insertion order: assigning a present key keeps
  its place, a new key goes to the end, \<^verbatim>\<open>pop\<close> removes the key.
\<close>

type_synonym 'v dict = "(string \<times> 'v) list"

definition dget :: "('k \<times> 'v) list \<Rightarrow> 'k \<Rightarrow> 'v option" where
  "dget d k = map_of d k"

definition dset :: "'k \<Rightarrow> 'v \<Rightarrow> ('k \<times> 'v) list \<Rightarrow> ('k \<times> 'v) list" where
  "dset k v d = AList.update k v d"

definition dpop :: "'k \<Rightarrow> ('k \<times> 'v) list \<Rightarrow> ('k \<times> 'v) list" where
  "dpop k d = AList.delete k d"

definition dkeys :: "('k \<times> 'v) list \<Rightarrow> 'k list" where
  "dkeys d = map fst d"

definition dvals :: "('k \<times> 'v) list \<Rightarrow> 'v list" where
  "dvals d = map snd d"

definition dhas :: "('k \<times> 'v) list \<Rightarrow> 'k \<Rightarrow> bool" where
  "dhas d k = (k \<in> set (dkeys d))"

definition dict_ok :: "('k \<times> 'v) list \<Rightarrow> bool" where
  "dict_ok d = distinct (dkeys d)"

lemma dget_Nil [simp, dict_simps]: "dget [] k = None"
  by (simp add: dget_def)

lemma dget_Cons [dict_simps]: "dget (p # d) k = (if fst p = k then Some (snd p) else dget d k)"
  by (simp add: dget_def)

lemma dget_dset [simp, dict_simps]: "dget (dset k v d) k' = (if k' = k then Some v else dget d k')"
  by (simp add: dget_def dset_def update_conv')

lemma dget_dpop [simp, dict_simps]: "dget (dpop k d) k' = (if k' = k then None else dget d k')"
  by (simp add: dget_def dpop_def delete_conv')

lemma dget_None_iff [dict_simps]: "dget d k = None \<longleftrightarrow> \<not> dhas d k"
  by (simp add: dget_def dhas_def dkeys_def map_of_eq_None_iff)

lemma dhas_iff [dict_simps]: "dhas d k \<longleftrightarrow> (\<exists>v. dget d k = Some v)"
  using dget_None_iff [of d k] by (cases "dget d k") auto

lemma dhas_dset [simp, dict_simps]: "dhas (dset k v d) k' \<longleftrightarrow> k' = k \<or> dhas d k'"
  by (simp add: dhas_iff)

lemma dhas_dpop [simp, dict_simps]: "dhas (dpop k d) k' \<longleftrightarrow> k' \<noteq> k \<and> dhas d k'"
  by (simp add: dhas_iff)

lemma dkeys_dpop [dict_simps]: "dkeys (dpop k d) = filter (\<lambda>x. x \<noteq> k) (dkeys d)"
  by (induction d) (auto simp: dkeys_def dpop_def)

lemma dkeys_dset [dict_simps]:
  "dkeys (dset k v d) = (if dhas d k then dkeys d else dkeys d @ [k])"
  by (induction d) (auto simp: dkeys_def dset_def dhas_def)

lemma dpop_Nil [simp]: "dpop k [] = []"
  by (simp add: dpop_def)

lemma dkeys_Nil [simp]: "dkeys [] = []" "dvals [] = []"
  by (simp_all add: dkeys_def dvals_def)

lemma dset_same: "dget d k = Some v \<Longrightarrow> dset k v d = d"
  by (induction d) (auto simp: dget_def dset_def split: if_splits)

lemma dict_ok_Nil [simp]: "dict_ok []"
  by (simp add: dict_ok_def dkeys_def)

lemma dict_ok_dset [simp, wf_intros]: "dict_ok d \<Longrightarrow> dict_ok (dset k v d)"
  by (simp add: dict_ok_def dkeys_dset) (simp add: dhas_def)

lemma dict_ok_dpop [simp, wf_intros]: "dict_ok d \<Longrightarrow> dict_ok (dpop k d)"
  by (simp add: dict_ok_def dkeys_dpop)

lemma dget_in_set: "dget d k = Some v \<Longrightarrow> (k, v) \<in> set d"
  by (simp add: dget_def map_of_SomeD)

lemma in_set_dget: "dict_ok d \<Longrightarrow> (k, v) \<in> set d \<Longrightarrow> dget d k = Some v"
  by (simp add: dget_def dict_ok_def dkeys_def map_of_is_SomeI)

lemma set_dvals: "dict_ok d \<Longrightarrow> x \<in> set (dvals d) \<longleftrightarrow> (\<exists>k. dget d k = Some x)"
  by (auto simp: dvals_def) (blast intro: in_set_dget, metis dget_in_set snd_conv imageI)

lemma dget_append: "dget (d @ e) k = (case dget d k of None \<Rightarrow> dget e k | Some v \<Rightarrow> Some v)"
  by (induction d) (auto simp: dget_Cons)

lemma dget_map_snd: "dget (map (\<lambda>(k, v). (k, f v)) d) k = map_option f (dget d k)"
  by (induction d) (auto simp: dget_def)

lemma length_dset: "length (dset k v d) = (if dhas d k then length d else Suc (length d))"
  by (induction d) (auto simp: dset_def dhas_def dkeys_def)

lemma dpop_absent: "\<not> dhas d k \<Longrightarrow> dpop k d = d"
  by (induction d) (auto simp: dhas_def dkeys_def dpop_def)

lemma dpop_twice [simp]: "dpop k (dpop k d) = dpop k d"
  by (rule dpop_absent) simp

lemma length_dpop: "dict_ok d \<Longrightarrow> dget d k = Some v \<Longrightarrow> length d = Suc (length (dpop k d))"
proof (induction d)
  case (Cons p d)
  then have ok: "dict_ok d" "fst p \<notin> set (dkeys d)" by (simp_all add: dict_ok_def dkeys_def)
  show ?case
  proof (cases "fst p = k")
    case True
    with ok have "dpop k d = d" by (intro dpop_absent) (simp add: dhas_def)
    with True show ?thesis by (simp add: dpop_def)
  next
    case False
    with Cons ok show ?thesis by (auto simp: dpop_def dget_Cons)
  qed
qed simp

lemma length_dpop_le: "length (dpop k d) \<le> length d"
  by (simp add: dpop_def length_delete_le)

lemma empty_dict: "(\<And>k. dget d k = None) \<Longrightarrow> d = []"
  by (cases d) (auto simp: dget_Cons, metis option.discI)

text \<open>\<^verbatim>\<open>OrderedDict.move_to_end\<close>.\<close>

definition move_to_end :: "'k \<Rightarrow> ('k \<times> 'v) list \<Rightarrow> ('k \<times> 'v) list" where
  "move_to_end k d = (case dget d k of None \<Rightarrow> d | Some v \<Rightarrow> dpop k d @ [(k, v)])"

text \<open>\<^verbatim>\<open>sum(f(v) for v in d.values())\<close> follows the one entry that changes.\<close>

definition dsumf :: "('v \<Rightarrow> nat) \<Rightarrow> ('k \<times> 'v) list \<Rightarrow> nat" where
  "dsumf f d = sum_list (map f (dvals d))"

definition dweight :: "('v \<Rightarrow> nat) \<Rightarrow> ('k \<times> 'v) list \<Rightarrow> 'k \<Rightarrow> nat" where
  "dweight f d k = (case dget d k of None \<Rightarrow> 0 | Some v \<Rightarrow> f v)"

lemma dsumf_Nil [simp]: "dsumf f [] = 0"
  by (simp add: dsumf_def dvals_def)

lemma dsumf_dset: "dict_ok d \<Longrightarrow> dsumf f (dset k v d) + dweight f d k = dsumf f d + f v"
proof (induction d)
  case Nil
  then show ?case by (simp add: dsumf_def dset_def dweight_def dvals_def)
next
  case (Cons p d)
  obtain k' v' where p: "p = (k', v')" by force
  from Cons.prems have "dict_ok d" and "k' \<notin> set (dkeys d)"
    by (simp_all add: p dict_ok_def dkeys_def)
  with Cons.IH show ?case
    by (auto simp: p dsumf_def dset_def dweight_def dvals_def dget_def)
qed

lemma dsumf_dpop: "dict_ok d \<Longrightarrow> dsumf f (dpop k d) + dweight f d k = dsumf f d"
proof (induction d)
  case Nil
  then show ?case by (simp add: dsumf_def dpop_def dweight_def dvals_def)
next
  case (Cons p d)
  obtain k' v' where p: "p = (k', v')" by force
  from Cons.prems have ok: "dict_ok d" and new: "k' \<notin> set (dkeys d)"
    by (simp_all add: p dict_ok_def dkeys_def)
  from new have "dpop k' d = d" by (intro dpop_absent) (simp add: dhas_def)
  with Cons.IH [OF ok] show ?case
    by (auto simp: p dsumf_def dpop_def dweight_def dvals_def dget_def)
qed

definition dsum :: "('k \<times> nat) list \<Rightarrow> nat" where
  "dsum d = dsumf (\<lambda>n. n) d"

definition dcount :: "('k \<times> nat) list \<Rightarrow> 'k \<Rightarrow> nat" where
  "dcount d k = (case dget d k of None \<Rightarrow> 0 | Some n \<Rightarrow> n)"

lemma dsum_Nil [simp]: "dsum [] = 0"
  by (simp add: dsum_def)

lemma dcount_Nil [simp]: "dcount [] k = 0"
  by (simp add: dcount_def)

lemma dcount_dset [simp]: "dcount (dset k v d) k' = (if k' = k then v else dcount d k')"
  by (simp add: dcount_def)

lemma dcount_dpop [simp]: "dcount (dpop k d) k' = (if k' = k then 0 else dcount d k')"
  by (simp add: dcount_def)

lemma dsum_dset: "dict_ok d \<Longrightarrow> dsum (dset k v d) + dcount d k = dsum d + v"
  using dsumf_dset [of d "\<lambda>n. n" k v] by (simp add: dsum_def dcount_def dweight_def)

lemma dsum_dpop: "dict_ok d \<Longrightarrow> dsum (dpop k d) + dcount d k = dsum d"
  using dsumf_dpop [of d "\<lambda>n. n" k] by (simp add: dsum_def dcount_def dweight_def)

text \<open>Queued and running counts per profile, a key being present when it has either.\<close>

definition bump_stat :: "string \<Rightarrow> nat \<Rightarrow> nat \<Rightarrow> (nat \<times> nat) dict \<Rightarrow> (nat \<times> nat) dict" where
  "bump_stat k queued running stats =
     dset k (case dget stats k of None \<Rightarrow> (queued, running)
             | Some (a, b) \<Rightarrow> (a + queued, b + running)) stats"

lemma dget_bump_stat:
  "dget (bump_stat k a b d) k' =
     (if k' = k then Some (case dget d k of None \<Rightarrow> (a, b) | Some (x, y) \<Rightarrow> (x + a, y + b)) else dget d k')"
  by (simp add: bump_stat_def)

section \<open>The first minimum\<close>

text \<open>\<^verbatim>\<open>min(xs, key=f)\<close>: the leftmost element of least key; None stands for no element.\<close>

fun py_min :: "('a \<Rightarrow> 'b::linorder) \<Rightarrow> 'a list \<Rightarrow> 'a option" where
  "py_min f [] = None"
| "py_min f (x # xs) =
     (case py_min f xs of None \<Rightarrow> Some x | Some y \<Rightarrow> Some (if f x \<le> f y then x else y))"

lemma py_min_None_iff [simp]: "py_min f xs = None \<longleftrightarrow> xs = []"
  by (cases xs) (auto split: option.splits)

lemma py_min_least:
  "py_min f xs = Some y \<Longrightarrow> y \<in> set xs \<and> (\<forall>x \<in> set xs. f y \<le> f x)"
proof (induction xs arbitrary: y)
  case Nil
  then show ?case by simp
next
  case (Cons x xs)
  show ?case
  proof (cases "py_min f xs")
    case None
    with Cons.prems show ?thesis by auto
  next
    case (Some z)
    with Cons.IH have "z \<in> set xs" and "\<forall>u \<in> set xs. f z \<le> f u" by blast+
    with Some Cons.prems show ?thesis
      by (auto split: if_splits)
  qed
qed

lemma py_min_ex: "xs \<noteq> [] \<Longrightarrow> \<exists>y. py_min f xs = Some y"
  by (cases "py_min f xs") auto

text \<open>\<^verbatim>\<open>xs.index(x)\<close> for a present element: the position of its first occurrence.\<close>

fun index_of :: "'a list \<Rightarrow> 'a \<Rightarrow> nat" where
  "index_of [] x = 0"
| "index_of (y # ys) x = (if y = x then 0 else Suc (index_of ys x))"

lemma index_of_less: "x \<in> set xs \<Longrightarrow> index_of xs x < length xs"
  by (induction xs) auto

lemma nth_index_of: "x \<in> set xs \<Longrightarrow> xs ! index_of xs x = x"
  by (induction xs) auto

lemma index_of_inj: "x \<in> set xs \<Longrightarrow> y \<in> set xs \<Longrightarrow> index_of xs x = index_of xs y \<Longrightarrow> x = y"
  by (metis nth_index_of)

text \<open>A field that is known to be there.\<close>

definition at_field :: "pyval dict \<Rightarrow> string \<Rightarrow> pyval" where
  "at_field d k = (case dget d k of Some v \<Rightarrow> v | None \<Rightarrow> PNone)"

section \<open>Pieces of a list\<close>

text \<open>Consecutive pieces of \<open>n\<close> elements, the last one possibly shorter.\<close>

function split_chunks :: "nat \<Rightarrow> 'a list \<Rightarrow> 'a list list" where
  "split_chunks n bs = (if n = 0 \<or> bs = [] then [] else take n bs # split_chunks n (drop n bs))"
  by pat_completeness auto
termination by (relation "measure (\<lambda>(n, bs). length bs)") auto

declare split_chunks.simps [simp del]

lemma split_chunks_Nil [simp]: "split_chunks n [] = []"
  by (simp add: split_chunks.simps)

lemma split_chunks_step: "0 < n \<Longrightarrow> bs \<noteq> [] \<Longrightarrow> split_chunks n bs = take n bs # split_chunks n (drop n bs)"
  by (simp add: split_chunks.simps [of n bs])

lemma concat_split_chunks: "0 < n \<Longrightarrow> concat (split_chunks n bs) = bs"
proof (induction n bs rule: split_chunks.induct)
  case (1 n bs)
  then show ?case by (cases "bs = []") (simp_all add: split_chunks_step)
qed

section \<open>Numbers in messages\<close>

text \<open>The decimal digits of a number, as an f-string prints them.\<close>

definition digit_char :: "nat \<Rightarrow> char" where
  "digit_char d = char_of (48 + d)"

fun nat_str :: "nat \<Rightarrow> string" where
  "nat_str n = (if n < 10 then [digit_char n] else nat_str (n div 10) @ [digit_char (n mod 10)])"

declare nat_str.simps [simp del]

definition int_str :: "int \<Rightarrow> string" where
  "int_str i = (if i < 0 then ''-'' @ nat_str (nat (- i)) else nat_str (nat i))"

section \<open>Identifiers\<close>

definition lower_alnum :: "char \<Rightarrow> bool" where
  "lower_alnum ch = (let n = of_char ch :: nat in 48 \<le> n \<and> n \<le> 57 \<or> 97 \<le> n \<and> n \<le> 122)"

text \<open>Non-empty words over \<open>P\<close> joined by single separators: \<^verbatim>\<open>P+(?:sep P+)*\<close>.\<close>

fun words_by :: "(char \<Rightarrow> bool) \<Rightarrow> char \<Rightarrow> bool \<Rightarrow> string \<Rightarrow> bool" where
  "words_by P sep started [] = started"
| "words_by P sep started (ch # cs) =
     (if P ch then words_by P sep True cs else ch = sep \<and> started \<and> words_by P sep False cs)"

definition ascii_alnum :: "char \<Rightarrow> bool" where
  "ascii_alnum ch = (let n = of_char ch :: nat in
     48 \<le> n \<and> n \<le> 57 \<or> 65 \<le> n \<and> n \<le> 90 \<or> 97 \<le> n \<and> n \<le> 122)"

end
