(* ===== verification/Stride_Queue.thy ===== *)
theory Stride_Queue
  imports OT_Prelude
begin

text \<open>
  The stride scheduler of \<^verbatim>\<open>src/omnitensor/stride.py\<close>: one FIFO queue per key, the pending
  key of least pass is served next and its pass advances by the inverse of its weight.
  The operations come first, then the invariant every operation keeps, then the contract
  \<open>keyed_queue\<close> that the accelerator lanes and the plugin pool rely on, and its
  interpretation on these operations.
\<close>

section \<open>State and operations\<close>

record 'i stride_queue =
  sq_items :: "'i list dict"
  sq_order :: "string list"
  sq_passes :: "rat dict"

definition stride_init :: "'i stride_queue" where
  "stride_init = \<lparr>sq_items = [], sq_order = [], sq_passes = []\<rparr>"

definition MAX_STRIDE_WEIGHT :: int where
  "MAX_STRIDE_WEIGHT = 5"

definition stride_weight :: "pyval \<Rightarrow> int" where
  "stride_weight w = (case w of PInt n \<Rightarrow> max 1 (min MAX_STRIDE_WEIGHT n) | _ \<Rightarrow> 1)"

text \<open>\<^verbatim>\<open>min(values, default=d)\<close>.\<close>

definition min_default :: "rat \<Rightarrow> rat list \<Rightarrow> rat" where
  "min_default d xs = (case py_min (\<lambda>x. x) xs of None \<Rightarrow> d | Some x \<Rightarrow> x)"

definition stride_push :: "string \<Rightarrow> 'i \<Rightarrow> 'i stride_queue \<Rightarrow> 'i stride_queue" where
  "stride_push key item q =
     (let q1 = (if dhas (sq_items q) key then q
                else q\<lparr>sq_items := dset key [] (sq_items q),
                       sq_order := sq_order q @ [key],
                       sq_passes := dset key (min_default 0 (dvals (sq_passes q))) (sq_passes q)\<rparr>)
      in q1\<lparr>sq_items := dset key (case dget (sq_items q1) key of
                                     Some js \<Rightarrow> js @ [item] | None \<Rightarrow> [item]) (sq_items q1)\<rparr>)"

definition stride_depth :: "'i stride_queue \<Rightarrow> nat" where
  "stride_depth q = sum_list (map length (dvals (sq_items q)))"

definition admitted :: "(string \<Rightarrow> bool) option \<Rightarrow> string \<Rightarrow> bool" where
  "admitted admits key = (case admits of None \<Rightarrow> True | Some f \<Rightarrow> f key)"

definition waiting_key :: "'i stride_queue \<Rightarrow> string \<Rightarrow> bool" where
  "waiting_key q key = (case dget (sq_items q) key of None \<Rightarrow> False | Some js \<Rightarrow> js \<noteq> [])"

definition pass_of :: "'i stride_queue \<Rightarrow> string \<Rightarrow> rat" where
  "pass_of q key = (case dget (sq_passes q) key of None \<Rightarrow> 0 | Some p \<Rightarrow> p)"

definition raise_unless :: "bool \<Rightarrow> exn \<Rightarrow> 'a res \<Rightarrow> 'a res" where
  "raise_unless c e r = (if c then r else Inl e)"

definition clamp_held_out ::
    "(string \<Rightarrow> bool) option \<Rightarrow> 'i stride_queue \<Rightarrow> 'i stride_queue res" where
  "clamp_held_out admits q =
     (case admits of None \<Rightarrow> Inr q
      | Some adm \<Rightarrow>
         (let waiting = filter (waiting_key q) (dkeys (sq_items q));
              free = filter adm waiting;
              held = filter (\<lambda>k. \<not> adm k) waiting
          in case py_min (pass_of q) free of
               None \<Rightarrow> Inr q
             | Some least \<Rightarrow>
                 raise_unless (list_all (dhas (sq_passes q)) (free @ held)) KeyError
                   (Inr (q\<lparr>sq_passes :=
                      fold (\<lambda>k ps. dset k (max (pass_of q k) (pass_of q least)) ps) held
                           (sq_passes q)\<rparr>))))"

definition stride_choose ::
    "(string \<Rightarrow> pyval) \<Rightarrow> (string \<Rightarrow> bool) option \<Rightarrow> 'i stride_queue
       \<Rightarrow> (string option \<times> 'i stride_queue) res" where
  "stride_choose weight_of admits q =
     raise_unless (list_all (dhas (sq_items q)) (sq_order q)) KeyError
       (let pending = filter (\<lambda>k. waiting_key q k \<and> admitted admits k) (sq_order q)
        in case py_min (\<lambda>k. (pass_of q k, index_of (sq_order q) k)) pending of
             None \<Rightarrow> Inr (None, q)
           | Some chosen \<Rightarrow>
               raise_unless (list_all (dhas (sq_passes q)) pending) KeyError
                 (bind_res
                   (clamp_held_out admits
                     (q\<lparr>sq_passes := dset chosen
                         (pass_of q chosen + 1 / of_int (stride_weight (weight_of chosen)))
                         (sq_passes q)\<rparr>))
                   (\<lambda>q2. Inr (Some chosen, q2))))"

definition stride_prune :: "string \<Rightarrow> 'i stride_queue \<Rightarrow> 'i stride_queue" where
  "stride_prune key q =
     \<lparr>sq_items = dpop key (sq_items q),
      sq_order = remove1 key (sq_order q),
      sq_passes = dpop key (sq_passes q)\<rparr>"

definition stride_pop ::
    "(string \<Rightarrow> pyval) \<Rightarrow> (string \<Rightarrow> bool) option \<Rightarrow> 'i stride_queue
       \<Rightarrow> ((string \<times> 'i) option \<times> 'i stride_queue) res" where
  "stride_pop weight_of admits q =
     bind_res (stride_choose weight_of admits q)
       (\<lambda>(served, q1).
          case served of
            None \<Rightarrow> Inr (None, q1)
          | Some chosen \<Rightarrow>
              (case dget (sq_items q1) chosen of
                 None \<Rightarrow> Inl KeyError
               | Some [] \<Rightarrow> Inl IndexError
               | Some (item # rest) \<Rightarrow>
                   (let q2 = q1\<lparr>sq_items := dset chosen rest (sq_items q1)\<rparr>
                    in Inr (Some (chosen, item),
                            if rest = [] then stride_prune chosen q2 else q2))))"

definition stride_discard :: "string \<Rightarrow> 'i \<Rightarrow> 'i stride_queue \<Rightarrow> bool \<times> 'i stride_queue" where
  "stride_discard key item q =
     (case dget (sq_items q) key of
        None \<Rightarrow> (False, q)
      | Some js \<Rightarrow>
          if item \<notin> set js then (False, q)
          else let js' = remove1 item js;
                   q1 = q\<lparr>sq_items := dset key js' (sq_items q)\<rparr>
               in (True, if js' = [] then stride_prune key q1 else q1))"

section \<open>The invariant\<close>

text \<open>
  The three tables always hold the same keys in the same order, and a key is present only
  while it has work waiting.
\<close>

definition stride_wf :: "'i stride_queue \<Rightarrow> bool" where
  "stride_wf q \<longleftrightarrow>
     dkeys (sq_items q) = sq_order q \<and> dkeys (sq_passes q) = sq_order q \<and> distinct (sq_order q)"

definition stride_live :: "'i stride_queue \<Rightarrow> bool" where
  "stride_live q \<longleftrightarrow> stride_wf q \<and> (\<forall>k \<in> set (sq_order q). waiting_key q k)"

text \<open>No two keys are more than one whole stride apart.\<close>

definition pass_spread :: "'i stride_queue \<Rightarrow> bool" where
  "pass_spread q \<longleftrightarrow>
     (\<forall>k \<in> set (sq_order q). \<forall>k' \<in> set (sq_order q). pass_of q k \<le> pass_of q k' + 1)"

text \<open>The abstraction: the queue waiting under each key.\<close>

definition stride_abs :: "'i stride_queue \<Rightarrow> string \<Rightarrow> 'i list" where
  "stride_abs q k = (case dget (sq_items q) k of None \<Rightarrow> [] | Some js \<Rightarrow> js)"

lemma stride_weight_bounds: "1 \<le> stride_weight w \<and> stride_weight w \<le> MAX_STRIDE_WEIGHT"
  by (cases w) (auto simp: stride_weight_def MAX_STRIDE_WEIGHT_def)

lemma stride_inverse_bounds:
  "(1::rat) / 5 \<le> 1 / of_int (stride_weight w)" "1 / of_int (stride_weight w) \<le> (1::rat)"
  "0 < (1::rat) / of_int (stride_weight w)"
proof -
  have b: "1 \<le> stride_weight w" "stride_weight w \<le> 5"
    using stride_weight_bounds [of w] by (auto simp: MAX_STRIDE_WEIGHT_def)
  then have r: "(1::rat) \<le> of_int (stride_weight w)" "of_int (stride_weight w) \<le> (5::rat)"
    by (simp_all flip: of_int_le_iff)
  then show "(1::rat) / 5 \<le> 1 / of_int (stride_weight w)" "1 / of_int (stride_weight w) \<le> (1::rat)"
    "0 < (1::rat) / of_int (stride_weight w)"
    by (simp_all add: divide_simps)
qed

lemma raise_unless_simps [simp, res_simps]:
  "raise_unless True e r = r" "raise_unless False e r = Inl e"
  by (simp_all add: raise_unless_def)

lemma stride_wf_init [simp]: "stride_wf stride_init" "stride_live stride_init" "pass_spread stride_init"
  by (simp_all add: stride_wf_def stride_live_def pass_spread_def stride_init_def dkeys_def)

lemma stride_wf_dict_ok: "stride_wf q \<Longrightarrow> dict_ok (sq_items q)" "stride_wf q \<Longrightarrow> dict_ok (sq_passes q)"
  by (simp_all add: stride_wf_def dict_ok_def)

lemma stride_wf_has:
  assumes "stride_wf q"
  shows "dhas (sq_items q) k \<longleftrightarrow> k \<in> set (sq_order q)"
    and "dhas (sq_passes q) k \<longleftrightarrow> k \<in> set (sq_order q)"
  using assms by (simp_all add: stride_wf_def dhas_def)

lemma waiting_key_abs: "waiting_key q k \<longleftrightarrow> stride_abs q k \<noteq> []"
  by (auto simp: waiting_key_def stride_abs_def split: option.splits)

lemma min_default_le: "x \<in> set xs \<Longrightarrow> min_default d xs \<le> x"
  using py_min_least [of "\<lambda>x. x" xs] by (auto simp: min_default_def split: option.splits)

lemma min_default_in: "xs \<noteq> [] \<Longrightarrow> min_default d xs \<in> set xs"
  using py_min_least [of "\<lambda>x. x" xs] by (auto simp: min_default_def split: option.splits)

section \<open>Every operation keeps the invariant\<close>

lemma fold_dset_dget:
  "dget (fold (\<lambda>k ps. dset k (f k) ps) ks d) k' = (if k' \<in> set ks then Some (f k') else dget d k')"
  by (induction ks arbitrary: d) auto

lemma fold_dset_dkeys:
  "list_all (dhas d) ks \<Longrightarrow> dkeys (fold (\<lambda>k ps. dset k (f k) ps) ks d) = dkeys d"
  by (induction ks arbitrary: d) (auto simp: dkeys_dset list_all_iff)

lemma pass_of_passes_update:
  "pass_of (q\<lparr>sq_passes := d\<rparr>) k = (case dget d k of None \<Rightarrow> 0 | Some p \<Rightarrow> p)"
  "pass_of (q\<lparr>sq_items := i\<rparr>) k = pass_of q k"
  by (simp_all add: pass_of_def)

lemma order_pass:
  assumes "stride_wf q"
  shows "k \<in> set (sq_order q) \<longleftrightarrow> (\<exists>p. dget (sq_passes q) k = Some p)"
    and "k \<in> set (sq_order q) \<longleftrightarrow> (\<exists>js. dget (sq_items q) k = Some js)"
  using stride_wf_has [OF assms, of k] by (auto simp: dhas_iff)

lemma pass_of_in: "stride_wf q \<Longrightarrow> k \<in> set (sq_order q) \<Longrightarrow> pass_of q k \<in> set (dvals (sq_passes q))"
  by (auto simp: pass_of_def set_dvals stride_wf_dict_ok order_pass)

lemma dvals_pass_of:
  assumes wf: "stride_wf q" and p: "p \<in> set (dvals (sq_passes q))"
  shows "\<exists>k \<in> set (sq_order q). pass_of q k = p"
proof -
  from p obtain k where k: "dget (sq_passes q) k = Some p"
    using set_dvals [OF stride_wf_dict_ok(2) [OF wf]] by blast
  then have "k \<in> set (sq_order q)" using order_pass(1) [OF wf] by blast
  moreover from k have "pass_of q k = p" by (simp add: pass_of_def)
  ultimately show ?thesis by blast
qed

lemma stride_push_eq:
  assumes "stride_wf q"
  shows "sq_items (stride_push k x q) = dset k (stride_abs q k @ [x]) (sq_items q)"
    and "sq_order (stride_push k x q) =
           (if k \<in> set (sq_order q) then sq_order q else sq_order q @ [k])"
    and "sq_passes (stride_push k x q) =
           (if k \<in> set (sq_order q) then sq_passes q
            else dset k (min_default 0 (dvals (sq_passes q))) (sq_passes q))"
proof -
  have "dset k v (dset k u d) = dset k v d" for u v :: "'a list" and d :: "'a list dict"
    unfolding dset_def by (induction d) auto
  then show "sq_items (stride_push k x q) = dset k (stride_abs q k @ [x]) (sq_items q)"
    by (auto simp: stride_push_def stride_abs_def Let_def dhas_iff split: option.splits)
  show "sq_order (stride_push k x q) =
           (if k \<in> set (sq_order q) then sq_order q else sq_order q @ [k])"
    and "sq_passes (stride_push k x q) =
           (if k \<in> set (sq_order q) then sq_passes q
            else dset k (min_default 0 (dvals (sq_passes q))) (sq_passes q))"
    using assms by (auto simp: stride_push_def Let_def stride_wf_has)
qed

lemma stride_push_wf [wf_intros]: "stride_wf q \<Longrightarrow> stride_wf (stride_push k x q)"
  by (simp add: stride_wf_def [of "stride_push k x q"] stride_push_eq dkeys_dset stride_wf_has)
    (simp add: stride_wf_def)

lemma stride_push_abs: "stride_wf q \<Longrightarrow> stride_abs (stride_push k x q) = (stride_abs q)(k := stride_abs q k @ [x])"
  by (rule ext) (simp add: stride_abs_def [of "stride_push k x q"] stride_push_eq, simp add: stride_abs_def)

lemma stride_push_live [wf_intros]: "stride_live q \<Longrightarrow> stride_live (stride_push k x q)"
  by (auto simp: stride_live_def stride_push_wf waiting_key_abs stride_push_abs stride_push_eq)

lemma stride_push_pass_of:
  assumes "stride_wf q"
  shows "pass_of (stride_push k x q) k' =
           (if k' = k \<and> k \<notin> set (sq_order q) then min_default 0 (dvals (sq_passes q))
            else pass_of q k')"
  using assms by (simp add: pass_of_def stride_push_eq)

lemma stride_push_spread [wf_intros]:
  assumes wf: "stride_wf q" and sp: "pass_spread q"
  shows "pass_spread (stride_push k x q)"
proof (cases "k \<in> set (sq_order q)")
  case True
  with wf sp show ?thesis
    by (simp add: pass_spread_def stride_push_eq stride_push_pass_of)
next
  case False
  let ?m = "min_default 0 (dvals (sq_passes q))"
  have lo: "?m \<le> pass_of q j" if "j \<in> set (sq_order q)" for j
    using pass_of_in [OF wf that] by (rule min_default_le)
  have hi: "pass_of q j \<le> ?m + 1" if "j \<in> set (sq_order q)" for j
  proof -
    from that wf have "?m \<in> set (dvals (sq_passes q))"
      using pass_of_in [OF wf that] by (intro min_default_in) auto
    then obtain i where "i \<in> set (sq_order q)" "pass_of q i = ?m"
      using dvals_pass_of [OF wf] by blast
    with sp that show ?thesis unfolding pass_spread_def by metis
  qed
  from lo have lo': "?m \<le> pass_of q j + 1" if "j \<in> set (sq_order q)" for j
    using that by (meson add_increasing2 zero_le_one)
  show ?thesis
    using sp hi lo' False wf
    by (auto simp: pass_spread_def stride_push_eq stride_push_pass_of)
qed

text \<open>
  \<open>same_shape\<close>: an operation that only moves passes leaves the items, the order and the keys
  of the pass table as they were.
\<close>

definition same_shape :: "'i stride_queue \<Rightarrow> 'i stride_queue \<Rightarrow> bool" where
  "same_shape q q' \<longleftrightarrow>
     sq_items q' = sq_items q \<and> sq_order q' = sq_order q \<and> dkeys (sq_passes q') = dkeys (sq_passes q)"

lemma same_shape_keeps:
  assumes "same_shape q q'"
  shows "stride_wf q' = stride_wf q" "stride_live q' = stride_live q"
    "stride_abs q' = stride_abs q" "waiting_key q' = waiting_key q" "sq_order q' = sq_order q"
    "sq_items q' = sq_items q"
  using assms
  by (auto simp: same_shape_def stride_wf_def stride_live_def stride_abs_def waiting_key_def fun_eq_iff)

lemma same_shape_trans: "same_shape a b \<Longrightarrow> same_shape b c \<Longrightarrow> same_shape a c"
  by (simp add: same_shape_def)

text \<open>
  On a well-formed queue the clamp succeeds; a held key is raised to the least pass of the
  admitted waiting keys, every other key keeps its pass.
\<close>

definition virtual_time :: "(string \<Rightarrow> bool) \<Rightarrow> 'i stride_queue \<Rightarrow> rat \<Rightarrow> bool" where
  "virtual_time adm q t \<longleftrightarrow>
     (\<exists>k \<in> set (sq_order q). waiting_key q k \<and> adm k \<and> pass_of q k = t) \<and>
     (\<forall>k \<in> set (sq_order q). waiting_key q k \<longrightarrow> adm k \<longrightarrow> t \<le> pass_of q k)"

lemma clamp_none: "clamp_held_out None q = Inr q"
  by (simp add: clamp_held_out_def)

lemma clamp_idle:
  assumes "stride_wf q" and "\<forall>k \<in> set (sq_order q). waiting_key q k \<longrightarrow> \<not> adm k"
  shows "clamp_held_out (Some adm) q = Inr q"
proof -
  have "filter adm (filter (waiting_key q) (dkeys (sq_items q))) = []"
    using assms by (auto simp: filter_empty_conv stride_wf_def)
  then show ?thesis by (simp add: clamp_held_out_def Let_def)
qed

lemma clamp_busy:
  assumes wf: "stride_wf q" and vt: "virtual_time adm q t"
  shows "\<exists>q'. clamp_held_out (Some adm) q = Inr q' \<and> same_shape q q' \<and>
           (\<forall>k \<in> set (sq_order q). pass_of q' k =
              (if waiting_key q k \<and> \<not> adm k then max (pass_of q k) t else pass_of q k))"
proof -
  let ?w = "filter (waiting_key q) (dkeys (sq_items q))"
  let ?free = "filter adm ?w" and ?held = "filter (\<lambda>k. \<not> adm k) ?w"
  from wf have keys: "dkeys (sq_items q) = sq_order q" by (simp add: stride_wf_def)
  from vt keys have "?free \<noteq> []" by (auto simp: virtual_time_def filter_empty_conv)
  then obtain l where l: "py_min (pass_of q) ?free = Some l" using py_min_ex by blast
  from py_min_least [OF l] vt keys have lt: "pass_of q l = t"
    by (auto simp: virtual_time_def intro!: antisym)
  have has: "list_all (dhas (sq_passes q)) (?free @ ?held)"
    using keys by (auto simp: list_all_iff stride_wf_has [OF wf])
  let ?q' = "q\<lparr>sq_passes := fold (\<lambda>k ps. dset k (max (pass_of q k) t) ps) ?held (sq_passes q)\<rparr>"
  have "clamp_held_out (Some adm) q = Inr ?q'"
    using l lt has by (simp add: clamp_held_out_def Let_def)
  moreover from has have "same_shape q ?q'"
    by (simp add: same_shape_def fold_dset_dkeys)
  moreover have "\<forall>k \<in> set (sq_order q). pass_of ?q' k =
      (if waiting_key q k \<and> \<not> adm k then max (pass_of q k) t else pass_of q k)"
    using keys by (auto simp: pass_of_passes_update fold_dset_dget) (auto simp: pass_of_def)
  ultimately show ?thesis by blast
qed

lemma virtual_time_ex:
  assumes "k \<in> set (sq_order q)" "waiting_key q k" "adm k"
  shows "\<exists>t. virtual_time adm q t"
proof -
  let ?free = "filter (\<lambda>k. waiting_key q k \<and> adm k) (sq_order q)"
  from assms have "?free \<noteq> []" by (auto simp: filter_empty_conv)
  then obtain l where "py_min (pass_of q) ?free = Some l" using py_min_ex by blast
  from py_min_least [OF this] show ?thesis
    unfolding virtual_time_def by (intro exI [of _ "pass_of q l"]) auto
qed

text \<open>The advance of the chosen key alone.\<close>

definition advance :: "(string \<Rightarrow> pyval) \<Rightarrow> string \<Rightarrow> 'i stride_queue \<Rightarrow> 'i stride_queue" where
  "advance weight_of k q =
     q\<lparr>sq_passes := dset k (pass_of q k + 1 / of_int (stride_weight (weight_of k))) (sq_passes q)\<rparr>"

lemma advance_shape: "stride_wf q \<Longrightarrow> k \<in> set (sq_order q) \<Longrightarrow> same_shape q (advance w k q)"
  by (simp add: same_shape_def advance_def dkeys_dset stride_wf_has)

lemma advance_pass_of:
  "pass_of (advance w k q) k' =
     (if k' = k then pass_of q k + 1 / of_int (stride_weight (w k)) else pass_of q k')"
  by (simp add: advance_def pass_of_def)

definition least_pending :: "(string \<Rightarrow> bool) option \<Rightarrow> 'i stride_queue \<Rightarrow> string \<Rightarrow> bool" where
  "least_pending admits q k \<longleftrightarrow>
     k \<in> set (sq_order q) \<and> waiting_key q k \<and> admitted admits k \<and>
     (\<forall>j \<in> set (sq_order q). waiting_key q j \<longrightarrow> admitted admits j \<longrightarrow>
        (pass_of q k, index_of (sq_order q) k) \<le> (pass_of q j, index_of (sq_order q) j))"

lemma least_pending_unique: "least_pending a q k \<Longrightarrow> least_pending a q k' \<Longrightarrow> k = k'"
  unfolding least_pending_def by (metis antisym index_of_inj prod.inject)

text \<open>The choice: none when nothing admitted waits, else the least pending key, advanced.\<close>

lemma stride_choose_none:
  assumes "stride_wf q"
    and "\<forall>k \<in> set (sq_order q). \<not> (waiting_key q k \<and> admitted admits k)"
  shows "stride_choose w admits q = Inr (None, q)"
proof -
  have "list_all (dhas (sq_items q)) (sq_order q)"
    using stride_wf_has [OF assms(1)] by (simp add: list_all_iff)
  moreover have "filter (\<lambda>k. waiting_key q k \<and> admitted admits k) (sq_order q) = []"
    using assms(2) by (simp add: filter_empty_conv)
  ultimately show ?thesis by (simp add: stride_choose_def)
qed

lemma stride_choose_some:
  assumes wf: "stride_wf q"
    and j: "j \<in> set (sq_order q)" "waiting_key q j" "admitted admits j"
  shows "\<exists>k q'. stride_choose w admits q = Inr (Some k, q') \<and> least_pending admits q k \<and>
           same_shape q q' \<and> clamp_held_out admits (advance w k q) = Inr q'"
proof -
  let ?pend = "filter (\<lambda>k. waiting_key q k \<and> admitted admits k) (sq_order q)"
  from j have "?pend \<noteq> []" by (auto simp: filter_empty_conv)
  then obtain k where
    k: "py_min (\<lambda>k. (pass_of q k, index_of (sq_order q) k)) ?pend = Some k"
    using py_min_ex by blast
  from py_min_least [OF k] have lp: "least_pending admits q k"
    by (auto simp: least_pending_def)
  then have ko: "k \<in> set (sq_order q)" by (simp add: least_pending_def)
  note sh = advance_shape [OF wf ko, of w]
  have has: "list_all (dhas (sq_items q)) (sq_order q)" "list_all (dhas (sq_passes q)) ?pend"
    using stride_wf_has [OF wf] by (auto simp: list_all_iff)
  have "\<exists>q'. clamp_held_out admits (advance w k q) = Inr q' \<and> same_shape (advance w k q) q'"
  proof (cases admits)
    case None
    then show ?thesis by (simp add: clamp_none same_shape_def)
  next
    case (Some adm)
    with lp sh have "\<exists>t. virtual_time adm (advance w k q) t"
      by (intro virtual_time_ex [of k])
        (auto simp: least_pending_def admitted_def same_shape_keeps [OF sh])
    then obtain t where "virtual_time adm (advance w k q) t" ..
    from clamp_busy [OF _ this] wf sh Some show ?thesis
      by (auto simp: same_shape_keeps)
  qed
  then obtain q' where q': "clamp_held_out admits (advance w k q) = Inr q'"
    "same_shape (advance w k q) q'" by blast
  have "stride_choose w admits q = Inr (Some k, q')"
    using k has q'(1) by (simp add: stride_choose_def advance_def)
  with lp q' same_shape_trans [OF sh q'(2)] show ?thesis by blast
qed

lemma stride_choose_spread:
  assumes live: "stride_live q" and sp: "pass_spread q"
    and ch: "stride_choose w admits q = Inr (Some k, q')"
  shows "pass_spread q'"
proof -
  from live have wf: "stride_wf q" and all: "\<And>j. j \<in> set (sq_order q) \<Longrightarrow> waiting_key q j"
    by (simp_all add: stride_live_def)
  have ex: "\<exists>j \<in> set (sq_order q). waiting_key q j \<and> admitted admits j"
    using stride_choose_none [OF wf, of admits w] ch by auto
  then obtain q1 where lp: "least_pending admits q k" and sh: "same_shape q q'"
    and cl: "clamp_held_out admits (advance w k q) = Inr q'"
    using stride_choose_some [OF wf, of _ admits w] ch by auto
  from lp have ko: "k \<in> set (sq_order q)" by (simp add: least_pending_def)
  let ?a = "advance w k q" and ?m = "pass_of q k"
  note sha = advance_shape [OF wf ko, of w]
  have up: "pass_of q j \<le> ?m + 1" if "j \<in> set (sq_order q)" for j
    using sp ko that by (simp add: pass_spread_def)
  have upa: "pass_of ?a j \<le> ?m + 1" if "j \<in> set (sq_order q)" for j
    using up [OF that] stride_inverse_bounds(2) [of "w k"] by (simp add: advance_pass_of)
  have loa: "?m \<le> pass_of ?a j" if "j \<in> set (sq_order q)" "admitted admits j" for j
    using lp that all [OF that(1)] stride_inverse_bounds(3) [of "w k"]
    by (auto simp: least_pending_def advance_pass_of)
  have "?m \<le> pass_of q' j \<and> pass_of q' j \<le> ?m + 1" if j: "j \<in> set (sq_order q)" for j
  proof (cases admits)
    case None
    with cl loa [OF j] upa [OF j] show ?thesis by (auto simp: clamp_none admitted_def)
  next
    case (Some adm)
    with lp have "\<exists>t. virtual_time adm ?a t"
      by (intro virtual_time_ex [of k])
        (auto simp: least_pending_def admitted_def same_shape_keeps [OF sha])
    then obtain t where t: "virtual_time adm ?a t" ..
    then obtain i where i: "i \<in> set (sq_order q)" "adm i" "pass_of ?a i = t"
      by (auto simp: virtual_time_def same_shape_keeps [OF sha])
    have "?m \<le> t" "t \<le> ?m + 1" using loa [of i] upa [of i] i Some by (auto simp: admitted_def)
    moreover have "pass_of q' j = (if \<not> adm j then max (pass_of ?a j) t else pass_of ?a j)"
      using clamp_busy [OF _ t] cl Some all [OF j] j wf by (auto simp: same_shape_keeps [OF sha])
    ultimately show ?thesis
      using loa [OF j] upa [OF j] Some by (auto simp: admitted_def)
  qed
  then have "pass_of q' i \<le> pass_of q' j + 1"
    if "i \<in> set (sq_order q)" "j \<in> set (sq_order q)" for i j
    using that by (meson add_right_mono order_trans)
  then show ?thesis by (simp add: pass_spread_def same_shape_keeps [OF sh])
qed

lemma stride_prune_wf [wf_intros]: "stride_wf q \<Longrightarrow> stride_wf (stride_prune k q)"
  by (auto simp: stride_wf_def stride_prune_def dkeys_dpop distinct_remove1_removeAll removeAll_filter_not_eq)
    (simp_all add: eq_commute)

lemma stride_prune_abs: "stride_abs (stride_prune k q) = (stride_abs q)(k := [])"
  by (auto simp: stride_abs_def stride_prune_def)

lemma stride_prune_pass_of: "k' \<noteq> k \<Longrightarrow> pass_of (stride_prune k q) k' = pass_of q k'"
  by (simp add: pass_of_def stride_prune_def)

lemma stride_prune_order: "stride_wf q \<Longrightarrow> set (sq_order (stride_prune k q)) = set (sq_order q) - {k}"
  by (simp add: stride_prune_def stride_wf_def)

lemma stride_prune_spread [wf_intros]:
  "stride_wf q \<Longrightarrow> pass_spread q \<Longrightarrow> pass_spread (stride_prune k q)"
  by (auto simp: pass_spread_def stride_prune_order stride_prune_pass_of)

text \<open>Storing a shorter queue for a key and pruning the key when nothing is left.\<close>

definition shrink :: "string \<Rightarrow> 'i list \<Rightarrow> 'i stride_queue \<Rightarrow> 'i stride_queue" where
  "shrink k rest q =
     (let q1 = q\<lparr>sq_items := dset k rest (sq_items q)\<rparr>
      in if rest = [] then stride_prune k q1 else q1)"

lemma shrink_keeps:
  assumes wf: "stride_wf q" and k: "k \<in> set (sq_order q)"
  shows "stride_wf (shrink k rest q)"
    and "stride_abs (shrink k rest q) = (stride_abs q)(k := rest)"
    and "set (sq_order (shrink k rest q)) = (if rest = [] then set (sq_order q) - {k} else set (sq_order q))"
    and "k' \<in> set (sq_order (shrink k rest q)) \<Longrightarrow> pass_of (shrink k rest q) k' = pass_of q k'"
proof -
  let ?q1 = "q\<lparr>sq_items := dset k rest (sq_items q)\<rparr>"
  have w1: "stride_wf ?q1" using wf k by (simp add: stride_wf_def dkeys_dset dhas_def)
  have a1: "stride_abs ?q1 = (stride_abs q)(k := rest)" by (auto simp: stride_abs_def)
  show "stride_wf (shrink k rest q)"
    using w1 stride_prune_wf [OF w1, of k] by (cases "rest = []") (simp_all add: shrink_def)
  show "stride_abs (shrink k rest q) = (stride_abs q)(k := rest)"
    using a1 by (cases "rest = []") (simp_all add: shrink_def stride_prune_abs)
  show o: "set (sq_order (shrink k rest q)) = (if rest = [] then set (sq_order q) - {k} else set (sq_order q))"
    using stride_prune_order [OF w1, of k] by (cases "rest = []") (simp_all add: shrink_def)
  show "k' \<in> set (sq_order (shrink k rest q)) \<Longrightarrow> pass_of (shrink k rest q) k' = pass_of q k'"
    using o by (auto simp: shrink_def stride_prune_pass_of pass_of_passes_update split: if_splits)
qed

lemma shrink_live: "stride_live q \<Longrightarrow> k \<in> set (sq_order q) \<Longrightarrow> stride_live (shrink k rest q)"
  by (auto simp: stride_live_def shrink_keeps waiting_key_abs split: if_splits)

lemma shrink_spread: "stride_wf q \<Longrightarrow> k \<in> set (sq_order q) \<Longrightarrow> pass_spread q \<Longrightarrow> pass_spread (shrink k rest q)"
  by (simp add: pass_spread_def shrink_keeps)

text \<open>The shape of a successful pop.\<close>

lemma stride_pop_cases [consumes 1]:
  assumes wf: "stride_wf q"
  obtains
    (idle) "stride_pop w admits q = Inr (None, q)"
      "\<forall>k. stride_abs q k \<noteq> [] \<longrightarrow> \<not> admitted admits k"
  | (served) k x rest q1 where "stride_pop w admits q = Inr (Some (k, x), shrink k rest q1)"
      "stride_choose w admits q = Inr (Some k, q1)" "least_pending admits q k"
      "stride_abs q k = x # rest" "same_shape q q1"
      "clamp_held_out admits (advance w k q) = Inr q1"
proof (cases "\<exists>j \<in> set (sq_order q). waiting_key q j \<and> admitted admits j")
  case False
  have "stride_abs q k \<noteq> [] \<longrightarrow> \<not> admitted admits k" for k
    using False order_pass(2) [OF wf, of k] by (auto simp: waiting_key_abs stride_abs_def split: option.splits)
  moreover from False have "stride_pop w admits q = Inr (None, q)"
    by (simp add: stride_pop_def stride_choose_none [OF wf])
  ultimately show ?thesis using idle by blast
next
  case True
  then obtain k q1 where ch: "stride_choose w admits q = Inr (Some k, q1)"
    and lp: "least_pending admits q k" and sh: "same_shape q q1"
    and cl: "clamp_held_out admits (advance w k q) = Inr q1"
    using stride_choose_some [OF wf] by metis
  from lp obtain x rest where k: "dget (sq_items q) k = Some (x # rest)"
    by (auto simp: least_pending_def waiting_key_def neq_Nil_conv split: option.splits)
  then have "stride_pop w admits q = Inr (Some (k, x), shrink k rest q1)"
    using ch sh by (simp add: stride_pop_def same_shape_keeps shrink_def Let_def)
  moreover from k have "stride_abs q k = x # rest" by (simp add: stride_abs_def)
  ultimately show ?thesis using served ch lp sh cl by blast
qed

lemma least_pending_order: "least_pending a q k \<Longrightarrow> k \<in> set (sq_order q)"
  by (simp add: least_pending_def)

lemma stride_pop_live [wf_intros]:
  assumes live: "stride_live q" and "stride_pop w a q = Inr (r, q')"
  shows "stride_live q'"
proof -
  from live have wf: "stride_wf q" by (simp add: stride_live_def)
  from wf show ?thesis
  proof (cases rule: stride_pop_cases [where w = w and admits = a])
    case idle
    with assms show ?thesis by simp
  next
    case (served k x rest q1)
    with assms show ?thesis
      by (auto simp: same_shape_keeps intro!: shrink_live dest: least_pending_order)
  qed
qed

lemma stride_pop_spread [wf_intros]:
  assumes live: "stride_live q" and sp: "pass_spread q" and pop: "stride_pop w a q = Inr (r, q')"
  shows "pass_spread q'"
proof -
  from live have wf: "stride_wf q" by (simp add: stride_live_def)
  from wf show ?thesis
  proof (cases rule: stride_pop_cases [where w = w and admits = a])
    case idle
    with pop sp show ?thesis by simp
  next
    case (served k x rest q1)
    from stride_choose_spread [OF live sp served(2)] have "pass_spread q1" .
    with served pop wf show ?thesis
      by (auto intro!: shrink_spread simp: same_shape_keeps dest: least_pending_order)
  qed
qed

lemma stride_discard_eq:
  assumes wf: "stride_wf q"
  shows "stride_discard k x q =
     (if x \<in> set (stride_abs q k) then (True, shrink k (remove1 x (stride_abs q k)) q) else (False, q))"
  by (auto simp: stride_discard_def stride_abs_def shrink_def Let_def split: option.splits)

lemma abs_in_order: "stride_wf q \<Longrightarrow> stride_abs q k \<noteq> [] \<Longrightarrow> k \<in> set (sq_order q)"
  by (auto simp: stride_abs_def order_pass(2) split: option.splits)

lemma stride_discard_keeps [wf_intros]:
  assumes live: "stride_live q" and d: "stride_discard k x q = (b, q')"
  shows "stride_live q'" "pass_spread q \<Longrightarrow> pass_spread q'"
    "stride_abs q' = (stride_abs q)(k := remove1 x (stride_abs q k))"
    "b \<longleftrightarrow> x \<in> set (stride_abs q k)"
proof -
  from live have wf: "stride_wf q" by (simp add: stride_live_def)
  have ko: "k \<in> set (sq_order q)" if "x \<in> set (stride_abs q k)"
    using that by (intro abs_in_order [OF wf]) auto
  show "stride_live q'" using d live ko
    by (auto simp: stride_discard_eq [OF wf] shrink_live split: if_splits)
  show "pass_spread q \<Longrightarrow> pass_spread q'" using d wf ko
    by (auto simp: stride_discard_eq [OF wf] shrink_spread split: if_splits)
  show "stride_abs q' = (stride_abs q)(k := remove1 x (stride_abs q k))" using d wf ko
    by (auto simp: stride_discard_eq [OF wf] shrink_keeps remove1_idem split: if_splits)
  show "b \<longleftrightarrow> x \<in> set (stride_abs q k)" using d
    by (auto simp: stride_discard_eq [OF wf] split: if_splits)
qed

section \<open>Depth\<close>

lemma dict_sum_lengths:
  assumes "dict_ok d"
  shows "sum_list (map length (dvals d)) =
           (\<Sum>k \<in> set (dkeys d). length (case dget d k of None \<Rightarrow> [] | Some js \<Rightarrow> js))"
  using assms
proof (induction d)
  case Nil
  then show ?case by (simp add: dvals_def dkeys_def)
next
  case (Cons p d)
  obtain k js where p: "p = (k, js)" by force
  from Cons.prems have ok: "dict_ok d" and new: "k \<notin> set (dkeys d)"
    by (simp_all add: p dict_ok_def dkeys_def)
  have "(\<Sum>i \<in> set (dkeys d). length (case dget (p # d) i of None \<Rightarrow> [] | Some js \<Rightarrow> js)) =
        (\<Sum>i \<in> set (dkeys d). length (case dget d i of None \<Rightarrow> [] | Some js \<Rightarrow> js))"
    using new by (intro sum.cong) (auto simp: p dget_Cons)
  moreover have "set (dkeys (p # d)) = insert k (set (dkeys d))" by (simp add: p dkeys_def)
  moreover have "sum_list (map length (dvals (p # d))) = length js + sum_list (map length (dvals d))"
    by (simp add: p dvals_def)
  ultimately show ?case
    using Cons.IH [OF ok] new by (simp add: p dget_Cons)
qed

lemma stride_depth_abs:
  assumes wf: "stride_wf q"
  shows "finite {k. stride_abs q k \<noteq> []}"
    and "stride_depth q = (\<Sum>k | stride_abs q k \<noteq> []. length (stride_abs q k))"
proof -
  have sub: "{k. stride_abs q k \<noteq> []} \<subseteq> set (sq_order q)"
    using abs_in_order [OF wf] by blast
  then show "finite {k. stride_abs q k \<noteq> []}" by (rule finite_subset) simp
  have "stride_depth q = (\<Sum>k \<in> set (sq_order q). length (stride_abs q k))"
    using dict_sum_lengths [OF stride_wf_dict_ok(1) [OF wf]] wf
    by (simp add: stride_depth_def stride_wf_def stride_abs_def)
  also have "\<dots> = (\<Sum>k | stride_abs q k \<noteq> []. length (stride_abs q k))"
    by (rule sum.mono_neutral_right) (use sub in auto)
  finally show "stride_depth q = (\<Sum>k | stride_abs q k \<noteq> []. length (stride_abs q k))" .
qed

section \<open>The contract of a keyed queue\<close>

text \<open>The total length of a family of queues changes with the one queue that is replaced.\<close>

definition total_length :: "('k \<Rightarrow> 'i list) \<Rightarrow> nat" where
  "total_length f = (\<Sum>k | f k \<noteq> []. length (f k))"

lemma total_length_upd:
  assumes fin: "finite {k. f k \<noteq> []}"
  shows "total_length (f(k := v)) + length (f k) = total_length f + length v"
proof -
  let ?S = "insert k {j. f j \<noteq> []}"
  have S: "total_length g = (\<Sum>j \<in> ?S. length (g j))" if "{j. g j \<noteq> []} \<subseteq> ?S" for g :: "'a \<Rightarrow> 'b list"
    unfolding total_length_def by (rule sum.mono_neutral_left) (use fin that in auto)
  have f: "total_length f = length (f k) + (\<Sum>j \<in> ?S - {k}. length (f j))"
    using S [of f] fin by (simp add: sum.remove [of ?S k] subset_insertI)
  have sub: "{j. (f(k := v)) j \<noteq> []} \<subseteq> ?S" by auto
  have "(\<Sum>j \<in> ?S - {k}. length ((f(k := v)) j)) = (\<Sum>j \<in> ?S - {k}. length (f j))"
    by (rule sum.cong) auto
  then have "total_length (f(k := v)) = length v + (\<Sum>j \<in> ?S - {k}. length (f j))"
    using S [of "f(k := v)", OF sub] fin sum.remove [of ?S k "\<lambda>j. length ((f(k := v)) j)"] by simp
  with f show ?thesis by simp
qed

text \<open>
  What the accelerator lanes and the plugin pool rely on: the queue is a family of FIFO queues;
  a pop never raises, serves the head of one admitted queue and changes no other, and answers
  nothing only when no admitted key has work.
\<close>

locale keyed_queue =
  fixes empty :: 'q
    and push :: "string \<Rightarrow> 'i \<Rightarrow> 'q \<Rightarrow> 'q"
    and pop :: "(string \<Rightarrow> pyval) \<Rightarrow> (string \<Rightarrow> bool) option \<Rightarrow> 'q \<Rightarrow> ((string \<times> 'i) option \<times> 'q) res"
    and discard :: "string \<Rightarrow> 'i \<Rightarrow> 'q \<Rightarrow> bool \<times> 'q"
    and depth :: "'q \<Rightarrow> nat"
    and queues :: "'q \<Rightarrow> string \<Rightarrow> 'i list"
    and inv :: "'q \<Rightarrow> bool"
  assumes inv_empty: "inv empty"
    and queues_empty: "queues empty = (\<lambda>_. [])"
    and inv_push: "inv q \<Longrightarrow> inv (push k x q)"
    and queues_push: "inv q \<Longrightarrow> queues (push k x q) = (queues q)(k := queues q k @ [x])"
    and pop_total: "inv q \<Longrightarrow> \<exists>r q'. pop w a q = Inr (r, q')"
    and inv_pop: "inv q \<Longrightarrow> pop w a q = Inr (r, q') \<Longrightarrow> inv q'"
    and pop_none: "inv q \<Longrightarrow> pop w a q = Inr (None, q') \<Longrightarrow>
          q' = q \<and> (\<forall>k. queues q k \<noteq> [] \<longrightarrow> \<not> admitted a k)"
    and pop_some: "inv q \<Longrightarrow> pop w a q = Inr (Some (k, x), q') \<Longrightarrow>
          admitted a k \<and> (\<exists>rest. queues q k = x # rest \<and> queues q' = (queues q)(k := rest))"
    and inv_discard: "inv q \<Longrightarrow> inv (snd (discard k x q))"
    and queues_discard: "inv q \<Longrightarrow>
          queues (snd (discard k x q)) = (queues q)(k := remove1 x (queues q k))"
    and depth_queues: "inv q \<Longrightarrow> finite {k. queues q k \<noteq> []} \<and> depth q = total_length (queues q)"
begin

lemma depth_empty: "depth empty = 0"
  using depth_queues [OF inv_empty] by (simp add: queues_empty total_length_def)

lemma depth_push: "inv q \<Longrightarrow> depth (push k x q) = Suc (depth q)"
  using depth_queues [of q] depth_queues [OF inv_push, of q k x]
    total_length_upd [of "queues q" k "queues q k @ [x]"]
  by (simp add: queues_push)

lemma depth_pop_none: "inv q \<Longrightarrow> pop w a q = Inr (None, q') \<Longrightarrow> depth q' = depth q"
  using pop_none by blast

lemma depth_pop_some:
  assumes "inv q" "pop w a q = Inr (Some s, q')"
  shows "depth q = Suc (depth q')"
proof -
  obtain k x where s: "s = (k, x)" by force
  from pop_some [OF assms(1)] assms(2) s obtain rest
    where "queues q k = x # rest" "queues q' = (queues q)(k := rest)" by blast
  with depth_queues [OF assms(1)] depth_queues [OF inv_pop [OF assms]]
    total_length_upd [of "queues q" k rest]
  show ?thesis by simp
qed

lemma depth_discard: "inv q \<Longrightarrow> depth (snd (discard k x q)) \<le> depth q"
  using depth_queues [of q] depth_queues [OF inv_discard, of q k x]
    total_length_upd [of "queues q" k "remove1 x (queues q k)"] length_remove1 [of x "queues q k"]
  by (auto simp: queues_discard split: if_splits)

lemma pop_progress:
  assumes "inv q" "queues q k \<noteq> []" "admitted a k"
  shows "\<exists>s q'. pop w a q = Inr (Some s, q') \<and> depth q = Suc (depth q')"
proof -
  from pop_total [OF assms(1)] obtain r q' where r: "pop w a q = Inr (r, q')" by blast
  have "r \<noteq> None"
  proof
    assume "r = None"
    with pop_none [OF assms(1)] r assms(2,3) show False by blast
  qed
  then obtain s where s: "r = Some s" by blast
  with r depth_pop_some [OF assms(1)] show ?thesis by blast
qed

lemma depth_zero_iff: "inv q \<Longrightarrow> depth q = 0 \<longleftrightarrow> (\<forall>k. queues q k = [])"
  using depth_queues [of q] by (auto simp: total_length_def)

end

definition stride_ok :: "'i stride_queue \<Rightarrow> bool" where
  "stride_ok q \<longleftrightarrow> stride_live q \<and> pass_spread q"

lemma stride_ok_wf: "stride_ok q \<Longrightarrow> stride_wf q"
  by (simp add: stride_ok_def stride_live_def)

interpretation sq: keyed_queue stride_init stride_push stride_pop stride_discard stride_depth
  stride_abs stride_ok
proof (unfold_locales, goal_cases)
  case 1
  show ?case by (simp add: stride_ok_def)
next
  case 2
  show ?case by (simp add: stride_abs_def stride_init_def fun_eq_iff)
next
  case (3 q k x)
  then show ?case using stride_ok_wf [OF 3]
    by (simp add: stride_ok_def stride_push_live stride_push_spread)
next
  case (4 q k x)
  then show ?case by (rule stride_push_abs [OF stride_ok_wf])
next
  case (5 q w a)
  from stride_ok_wf [OF 5] show ?case
    by (cases rule: stride_pop_cases [where w = w and admits = a]) blast+
next
  case (6 q w a r q')
  then show ?case unfolding stride_ok_def by (blast intro: wf_intros)
next
  case (7 q w a q')
  from stride_ok_wf [OF 7(1)] 7(2) show ?case
    by (cases rule: stride_pop_cases [where w = w and admits = a]) auto
next
  case (8 q w a k x q')
  from stride_ok_wf [OF 8(1)] 8 show ?case
    by (cases rule: stride_pop_cases [where w = w and admits = a])
      (auto simp: least_pending_def shrink_keeps same_shape_keeps stride_ok_wf)
next
  case (9 q k x)
  then show ?case unfolding stride_ok_def by (metis prod.collapse stride_discard_keeps(1,2))
next
  case (10 q k x)
  then show ?case unfolding stride_ok_def by (metis prod.collapse stride_discard_keeps(3))
next
  case (11 q)
  then show ?case using stride_depth_abs [OF stride_ok_wf [OF 11]] by (simp add: total_length_def)
qed

section \<open>Sequences of operations\<close>

datatype 'i stride_op = Push string 'i | Pop

text \<open>
  A run of the queue with no policy predicate (\<^verbatim>\<open>admits=None\<close>): the keys in the order
  they were served, and the final state.
\<close>

fun stride_exec ::
    "(string \<Rightarrow> pyval) \<Rightarrow> 'i stride_op list \<Rightarrow> 'i stride_queue \<Rightarrow> (string list \<times> 'i stride_queue) res" where
  "stride_exec w [] q = Inr ([], q)"
| "stride_exec w (Push k x # ops) q = stride_exec w ops (stride_push k x q)"
| "stride_exec w (Pop # ops) q =
     bind_res (stride_pop w None q)
       (\<lambda>(r, q1). map_res (\<lambda>(ks, q2). (case r of None \<Rightarrow> ks | Some (k, x) \<Rightarrow> k # ks, q2))
                    (stride_exec w ops q1))"

text \<open>The key has work waiting before and after every operation of the run.\<close>

fun backlogged :: "(string \<Rightarrow> pyval) \<Rightarrow> string \<Rightarrow> 'i stride_op list \<Rightarrow> 'i stride_queue \<Rightarrow> bool" where
  "backlogged w i [] q \<longleftrightarrow> i \<in> set (sq_order q)"
| "backlogged w i (Push k x # ops) q \<longleftrightarrow>
     i \<in> set (sq_order q) \<and> backlogged w i ops (stride_push k x q)"
| "backlogged w i (Pop # ops) q \<longleftrightarrow>
     i \<in> set (sq_order q) \<and>
     (case stride_pop w None q of Inl _ \<Rightarrow> False | Inr (_, q1) \<Rightarrow> backlogged w i ops q1)"

lemma stride_ok_distance:
  assumes "stride_ok q" "i \<in> set (sq_order q)" "j \<in> set (sq_order q)"
  shows "\<bar>pass_of q i - pass_of q j\<bar> \<le> 1"
proof -
  have "pass_of q i \<le> pass_of q j + 1" "pass_of q j \<le> pass_of q i + 1"
    using assms unfolding stride_ok_def pass_spread_def by blast+
  then show ?thesis by linarith
qed

lemma backlogged_start: "backlogged w i ops q \<Longrightarrow> i \<in> set (sq_order q)"
  by (cases "(w, i, ops, q)" rule: backlogged.cases) auto

lemma stride_exec_ok: "stride_ok q \<Longrightarrow> \<exists>ks q'. stride_exec w ops q = Inr (ks, q') \<and> stride_ok q'"
proof (induction w ops q rule: stride_exec.induct)
  case (2 w k x ops q)
  then show ?case using sq.inv_push [OF "2.prems"] by simp
next
  case (3 w ops q)
  from sq.pop_total [OF "3.prems"] obtain r q1 where "stride_pop w None q = Inr (r, q1)" by blast
  with "3.IH" sq.inv_pop [OF "3.prems"] show ?case by fastforce
qed simp

lemma stride_pop_pass:
  assumes ok: "stride_ok q" and pop: "stride_pop w None q = Inr (r, q1)" and i: "i \<in> set (sq_order q1)"
  shows "pass_of q1 i = pass_of q i +
           (if \<exists>x. r = Some (i, x) then 1 / of_int (stride_weight (w i)) else 0)"
  using stride_ok_wf [OF ok]
proof (cases rule: stride_pop_cases [where w = w and admits = None])
  case idle
  with pop show ?thesis by simp
next
  case (served k x rest q2)
  then have q2: "q2 = advance w k q" by (simp add: clamp_none)
  have "k \<in> set (sq_order q)" "stride_wf q2"
    using served stride_ok_wf [OF ok] by (auto simp: same_shape_keeps dest: least_pending_order)
  then have "pass_of q1 i = pass_of q2 i"
    using served pop i by (auto simp: same_shape_keeps shrink_keeps)
  with served pop q2 show ?thesis by (simp add: advance_pass_of)
qed

lemma backlogged_pass:
  "stride_ok q \<Longrightarrow> backlogged w i ops q \<Longrightarrow> stride_exec w ops q = Inr (ks, q') \<Longrightarrow>
     pass_of q' i = pass_of q i + of_nat (count_list ks i) / of_int (stride_weight (w i)) \<and>
     i \<in> set (sq_order q')"
proof (induction w ops q arbitrary: ks rule: stride_exec.induct)
  case (2 w k x ops q)
  then show ?case
    using sq.inv_push [OF "2.prems"(1), of k x] stride_ok_wf [OF "2.prems"(1)]
    by (auto simp: stride_push_pass_of)
next
  case (3 w ops q)
  from "3.prems"(3) obtain r q1 ks1 where pop: "stride_pop w None q = Inr (r, q1)"
    and ex: "stride_exec w ops q1 = Inr (ks1, q')"
    and ks: "ks = (case r of None \<Rightarrow> ks1 | Some (k, x) \<Rightarrow> k # ks1)"
    by (auto simp: bind_res_eq_Inr map_res_eq_Inr)
  from "3.prems"(2) pop have bl: "backlogged w i ops q1" by simp
  have ok1: "stride_ok q1" by (rule sq.inv_pop [OF "3.prems"(1) pop])
  have "pass_of q' i = pass_of q1 i + of_nat (count_list ks1 i) / of_int (stride_weight (w i))
          \<and> i \<in> set (sq_order q')"
    using "3.IH" [OF ok1 bl ex] pop by auto
  with stride_pop_pass [OF "3.prems"(1) pop backlogged_start [OF bl]] ks show ?case
    by (auto simp: add_divide_distrib split: option.splits)
qed simp

section \<open>Properties\<close>

text \<open>C1. On any queue that satisfies the invariant (which every operation keeps) \<^verbatim>\<open>pop\<close> does
  not raise.  It answers nothing, and leaves the queue alone, only when no admitted key has
  work; otherwise it serves the head of the queue of an admitted key, no admitted waiting key
  has a smaller pass (ties go to the key queued first), it takes exactly that item away, and
  the invariant (the three tables agree, no drained key is kept, passes at most one stride
  apart) holds afterwards.\<close>

theorem stride_pop_correct:
  assumes "stride_ok q"
  shows "\<exists>r q'. stride_pop w admits q = Inr (r, q') \<and> stride_ok q' \<and>
    (case r of
       None \<Rightarrow> q' = q \<and> (\<forall>k. stride_abs q k \<noteq> [] \<longrightarrow> \<not> admitted admits k)
     | Some (k, x) \<Rightarrow>
         admitted admits k \<and>
         (\<exists>rest. stride_abs q k = x # rest \<and> stride_abs q' = (stride_abs q)(k := rest)) \<and>
         (\<forall>j. stride_abs q j \<noteq> [] \<longrightarrow> admitted admits j \<longrightarrow>
            pass_of q k < pass_of q j \<or>
            pass_of q k = pass_of q j \<and> index_of (sq_order q) k \<le> index_of (sq_order q) j))"
  using stride_ok_wf [OF assms]
proof (cases rule: stride_pop_cases [where w = w and admits = admits])
  case idle
  with assms show ?thesis by auto
next
  case (served k x rest q1)
  note ab = sq.pop_some [OF assms served(1)] and ok = sq.inv_pop [OF assms served(1)]
  have "pass_of q k < pass_of q j \<or>
      pass_of q k = pass_of q j \<and> index_of (sq_order q) k \<le> index_of (sq_order q) j"
    if "stride_abs q j \<noteq> []" "admitted admits j" for j
    using served(3) abs_in_order [OF stride_ok_wf [OF assms] that(1)] that
    by (auto simp: least_pending_def waiting_key_abs less_eq_prod_def)
  with ab ok served(1) show ?thesis by auto
qed

theorem stride_pop_correct_witness:
  "stride_ok (stride_push ''a'' (7::int) stride_init) \<and>
   (\<exists>r q'. stride_pop (\<lambda>_. PInt 1) None (stride_push ''a'' (7::int) stride_init) = Inr (r, q') \<and>
      stride_ok q')"
proof -
  have ok: "stride_ok (stride_push ''a'' (7::int) stride_init)"
    by (intro sq.inv_push sq.inv_empty)
  with stride_pop_correct [OF ok, of "\<lambda>_. PInt 1" None] show ?thesis by blast
qed



text \<open>A queue on which a waiting key is passed over for ever.\<close>

definition starving_state :: "unit stride_queue" where
  "starving_state =
     \<lparr>sq_items = [(''k'', [()]), (''j'', [()])],
      sq_order = [''k'', ''j''],
      sq_passes = [(''k'', 1 / 5), (''j'', 0)]\<rparr>"

definition starving_weights :: "string \<Rightarrow> pyval" where
  "starving_weights key = (if key = ''k'' then PInt 5 else PInt 1)"

definition starving_round :: "unit stride_op list" where
  "starving_round = [Push ''l'' (), Pop, Push ''j'' (), Pop]"

lemma starving_state_reached:
  "stride_exec starving_weights [Push ''k'' (), Push ''k'' (), Push ''j'' (), Pop] stride_init =
     Inr ([''k''], starving_state)"
  by code_simp

lemma starving_round_cycle:
  "stride_exec starving_weights starving_round starving_state = Inr ([''j'', ''l''], starving_state)"
  by code_simp

lemma stride_exec_append:
  "stride_exec w (xs @ ys) q =
     bind_res (stride_exec w xs q)
       (\<lambda>(ks, q1). map_res (\<lambda>(ks', q2). (ks @ ks', q2)) (stride_exec w ys q1))"
proof (induction w xs q rule: stride_exec.induct)
  case (1 w q)
  then show ?case by (cases "stride_exec w ys q") auto
next
  case (3 w ops q)
  show ?case
  proof (cases "stride_pop w None q")
    case (Inr p)
    obtain r q1 where p: "p = (r, q1)" by force
    have "stride_exec w (Pop # ops @ ys) q =
        map_res (\<lambda>(ks, q2). (case r of None \<Rightarrow> ks | Some (k, x) \<Rightarrow> k # ks, q2))
          (stride_exec w (ops @ ys) q1)"
      by (simp add: Inr p)
    also have "stride_exec w (ops @ ys) q1 =
        bind_res (stride_exec w ops q1)
          (\<lambda>(ks, q2). map_res (\<lambda>(ks', q3). (ks @ ks', q3)) (stride_exec w ys q2))"
      by (rule "3.IH")
    finally show ?thesis
      by (cases "stride_exec w ops q1"; cases "stride_exec w ys (snd (projr (stride_exec w ops q1)))")
        (auto simp: Inr p split: option.splits)
  qed simp
qed simp

lemma starving_rounds:
  "stride_exec starving_weights (concat (replicate n starving_round)) starving_state =
     Inr (concat (replicate n [''j'', ''l'']), starving_state)"
  by (induction n) (simp_all add: stride_exec_append starving_round_cycle)

text \<open>C3. A key that drains forgets its pass and rejoins at the least pass of the keys still
  waiting, so two keys of weight 1 that take turns (each submits its next item while the other
  waits) are served forever while a third key of weight 5 waits with a larger pass: after any
  number of rounds the queue is back in the same state and the third key has not been served.\<close>

theorem stride_rejoin_starves:
  "\<exists>ops. stride_exec starving_weights (ops @ concat (replicate n starving_round)) stride_init =
           Inr ([''k''] @ concat (replicate n [''j'', ''l'']), starving_state) \<and>
         stride_abs starving_state ''k'' = [()]"
proof -
  have "stride_abs starving_state ''k'' = [()]" by code_simp
  then show ?thesis
    by (intro exI [of _ "[Push ''k'' (), Push ''k'' (), Push ''j'' (), Pop]"])
      (simp only: stride_exec_append starving_state_reached, simp add: starving_rounds)
qed

end
