(* ===== verification/Plugin_Admission.thy ===== *)
theory Plugin_Admission
  imports Stride_Queue
begin

text \<open>
  The weighted pool in front of the plugin workers, \<^verbatim>\<open>src/omnitensor/plugin_admission.py\<close>.
  A waiter is an asyncio future, named by a number; the table of futures says which are
  pending, resolved (a slot was handed over) or cancelled.  The coroutine
  \<^verbatim>\<open>PluginAdmissionQueue.run\<close> is split at its awaits into the steps of \<open>pool_step\<close>, so that
  arrivals, cancellations, wake-ups and completions interleave freely.
\<close>

section \<open>State and operations\<close>

datatype fut = Pending | Resolved | Cancelled

record pool =
  pl_queue :: "nat stride_queue"
  pl_running :: "nat dict"
  pl_fut :: "nat \<Rightarrow> fut"

definition DEFAULT_MAX_CONCURRENT :: int where "DEFAULT_MAX_CONCURRENT = 4"
definition MAX_CONCURRENT_LIMIT :: int where "MAX_CONCURRENT_LIMIT = 32"
definition DEFAULT_MAX_WAITING :: int where "DEFAULT_MAX_WAITING = 64"
definition MAX_WAITING_LIMIT :: int where "MAX_WAITING_LIMIT = 1024"

definition bounded :: "pyval \<Rightarrow> int \<Rightarrow> int res" where
  "bounded v limit =
     (case v of PInt n \<Rightarrow> if 1 \<le> n \<and> n \<le> limit then Inr n else Inl ValueError
      | _ \<Rightarrow> Inl ValueError)"

text \<open>The constructor: the two bounds are checked, the pool starts empty.\<close>

definition pool_init :: "pyval \<Rightarrow> pyval \<Rightarrow> (nat \<times> nat \<times> pool) res" where
  "pool_init max_concurrent max_waiting =
     bind_res (bounded max_concurrent MAX_CONCURRENT_LIMIT) (\<lambda>mc.
     bind_res (bounded max_waiting MAX_WAITING_LIMIT) (\<lambda>mw.
       Inr (nat mc, nat mw, \<lparr>pl_queue = stride_init, pl_running = [], pl_fut = (\<lambda>_. Pending)\<rparr>)))"

definition pool_waiting :: "pool \<Rightarrow> nat" where
  "pool_waiting s = stride_depth (pl_queue s)"

definition pool_running :: "pool \<Rightarrow> nat" where
  "pool_running s = dsum (pl_running s)"

definition has_room :: "nat \<Rightarrow> pool \<Rightarrow> bool" where
  "has_room mw s = (pool_waiting s < mw)"

definition pool_profile_stats :: "pool \<Rightarrow> (nat \<times> nat) dict" where
  "pool_profile_stats s =
     fold (\<lambda>(k, n). bump_stat k 0 n) (pl_running s)
       (fold (\<lambda>(k, js). bump_stat k (length js) 0) (sq_items (pl_queue s)) [])"

text \<open>
  A reading of host pressure: no probe configured, a probe that raised, or a reading with its
  \<^verbatim>\<open>saturated\<close> flag.
\<close>

datatype probe = NoProbe | ProbeFailed | Reading bool

definition width :: "nat \<Rightarrow> probe \<Rightarrow> nat" where
  "width mc pr =
     (case pr of NoProbe \<Rightarrow> mc | ProbeFailed \<Rightarrow> mc | Reading saturated \<Rightarrow> if saturated then 1 else mc)"

text \<open>
  \<^verbatim>\<open>_pump\<close>: the probe is read again before every slot, so \<open>pr n\<close> is the n-th reading.  The fuel
  bounds the number of pops; \<open>None\<close> is running out of it.
\<close>

fun pump_loop ::
    "nat \<Rightarrow> nat \<Rightarrow> (string \<Rightarrow> pyval) \<Rightarrow> (string \<Rightarrow> bool) option \<Rightarrow> (nat \<Rightarrow> probe) \<Rightarrow> pool \<Rightarrow> pool res option" where
  "pump_loop 0 mc w a pr s = None"
| "pump_loop (Suc fuel) mc w a pr s =
     (if \<not> pool_running s < width mc (pr 0) then Some (Inr s)
      else case stride_pop w a (pl_queue s) of
             Inl e \<Rightarrow> Some (Inl e)
           | Inr (None, q) \<Rightarrow> Some (Inr (s\<lparr>pl_queue := q\<rparr>))
           | Inr (Some (profile, waiter), q) \<Rightarrow>
               (if pl_fut s waiter = Cancelled
                then pump_loop fuel mc w a (\<lambda>n. pr (Suc n)) (s\<lparr>pl_queue := q\<rparr>)
                else if pl_fut s waiter = Resolved then Some (Inl (RuntimeError ''InvalidStateError''))
                else pump_loop fuel mc w a (\<lambda>n. pr (Suc n))
                       (s\<lparr>pl_queue := q,
                          pl_running := dset profile (dcount (pl_running s) profile + 1) (pl_running s),
                          pl_fut := (pl_fut s)(waiter := Resolved)\<rparr>)))"

definition pump ::
    "nat \<Rightarrow> (string \<Rightarrow> pyval) \<Rightarrow> (string \<Rightarrow> bool) option \<Rightarrow> (nat \<Rightarrow> probe) \<Rightarrow> pool \<Rightarrow> pool res option" where
  "pump mc w a pr s = pump_loop (Suc (pool_waiting s)) mc w a pr s"

definition kick ::
    "nat \<Rightarrow> (string \<Rightarrow> pyval) \<Rightarrow> (string \<Rightarrow> bool) option \<Rightarrow> (nat \<Rightarrow> probe) \<Rightarrow> pool \<Rightarrow> pool res option" where
  "kick mc w a pr s = pump mc w a pr s"

definition plugin_queue_full :: exn where
  "plugin_queue_full =
     Stable ''plugin-queue-full'' ''Too many plugin jobs are waiting for a worker slot''"

definition pool_push :: "nat \<Rightarrow> string \<Rightarrow> nat \<Rightarrow> pool \<Rightarrow> pool res" where
  "pool_push mw profile waiter s =
     (if mw \<le> pool_waiting s then Inl plugin_queue_full
      else Inr (s\<lparr>pl_queue := stride_push profile waiter (pl_queue s)\<rparr>))"

text \<open>\<^verbatim>\<open>_acquire\<close> up to its await: a fresh future joins the queue and the pool is pumped.\<close>

definition acquire ::
    "nat \<Rightarrow> nat \<Rightarrow> (string \<Rightarrow> pyval) \<Rightarrow> (string \<Rightarrow> bool) option \<Rightarrow> (nat \<Rightarrow> probe)
       \<Rightarrow> string \<Rightarrow> nat \<Rightarrow> pool \<Rightarrow> pool res option" where
  "acquire mc mw w a pr profile waiter s =
     (case pool_push mw profile waiter (s\<lparr>pl_fut := (pl_fut s)(waiter := Pending)\<rparr>) of
        Inl e \<Rightarrow> Some (Inl e)
      | Inr s1 \<Rightarrow> pump mc w a pr s1)"

definition release ::
    "nat \<Rightarrow> (string \<Rightarrow> pyval) \<Rightarrow> (string \<Rightarrow> bool) option \<Rightarrow> (nat \<Rightarrow> probe)
       \<Rightarrow> string \<Rightarrow> pool \<Rightarrow> pool res option" where
  "release mc w a pr profile s =
     pump mc w a pr
       (s\<lparr>pl_running :=
            (let remaining = int (dcount (pl_running s) profile) - 1
             in if remaining > 0 then dset profile (nat remaining) (pl_running s)
                else dpop profile (pl_running s))\<rparr>)"

definition pool_discard :: "string \<Rightarrow> nat \<Rightarrow> pool \<Rightarrow> pool" where
  "pool_discard profile waiter s =
     s\<lparr>pl_queue := snd (stride_discard profile waiter (pl_queue s))\<rparr>"

text \<open>\<^verbatim>\<open>_acquire\<close> when its await raises \<^verbatim>\<open>CancelledError\<close>.\<close>

definition acquire_cancelled ::
    "nat \<Rightarrow> (string \<Rightarrow> pyval) \<Rightarrow> (string \<Rightarrow> bool) option \<Rightarrow> (nat \<Rightarrow> probe)
       \<Rightarrow> string \<Rightarrow> nat \<Rightarrow> pool \<Rightarrow> pool res option" where
  "acquire_cancelled mc w a pr profile waiter s =
     (let s1 = pool_discard profile waiter s
      in if pl_fut s1 waiter = Resolved then release mc w a pr profile s1 else Some (Inr s1))"

section \<open>Interleaving of jobs\<close>

text \<open>
  One job is one call of \<^verbatim>\<open>run\<close>: it awaits its future, holds its slot while its worker call
  runs, and is gone.  \<open>Awaiting True\<close> is a job whose task was cancelled and has not resumed yet.
\<close>

datatype phase = Absent | Awaiting bool | Holding | Gone

record pool_sys =
  ps_pool :: pool
  ps_profile :: "nat \<Rightarrow> string"
  ps_phase :: "nat \<Rightarrow> phase"
  ps_next :: nat

definition pool_sys_init :: pool_sys where
  "pool_sys_init =
     \<lparr>ps_pool = \<lparr>pl_queue = stride_init, pl_running = [], pl_fut = (\<lambda>_. Pending)\<rparr>,
      ps_profile = (\<lambda>_. []), ps_phase = (\<lambda>_. Absent), ps_next = 0\<rparr>"

text \<open>
  Cancelling a task cancels the future it awaits when that future is still pending; a future
  already resolved stays so, and the cancellation is delivered when the task resumes.
  Weights, admission and the probe readings may differ at every step.
\<close>

inductive pool_step :: "nat \<Rightarrow> nat \<Rightarrow> pool_sys \<Rightarrow> pool_sys \<Rightarrow> bool" for mc mw where
  arrive: "acquire mc mw w a pr profile (ps_next s) (ps_pool s) = Some (Inr p) \<Longrightarrow>
     pool_step mc mw s
       (s\<lparr>ps_pool := p, ps_profile := (ps_profile s)(ps_next s := profile),
          ps_phase := (ps_phase s)(ps_next s := Awaiting False), ps_next := Suc (ps_next s)\<rparr>)"
| cancel_pending: "ps_phase s i = Awaiting b \<Longrightarrow> pl_fut (ps_pool s) i = Pending \<Longrightarrow>
     pool_step mc mw s
       (s\<lparr>ps_pool := (ps_pool s)\<lparr>pl_fut := (pl_fut (ps_pool s))(i := Cancelled)\<rparr>,
          ps_phase := (ps_phase s)(i := Awaiting True)\<rparr>)"
| cancel_resolved: "ps_phase s i = Awaiting b \<Longrightarrow> pl_fut (ps_pool s) i = Resolved \<Longrightarrow>
     pool_step mc mw s (s\<lparr>ps_phase := (ps_phase s)(i := Awaiting True)\<rparr>)"
| resume: "ps_phase s i = Awaiting False \<Longrightarrow> pl_fut (ps_pool s) i = Resolved \<Longrightarrow>
     pool_step mc mw s (s\<lparr>ps_phase := (ps_phase s)(i := Holding)\<rparr>)"
| resume_cancelled: "ps_phase s i = Awaiting True \<Longrightarrow>
     acquire_cancelled mc w a pr (ps_profile s i) i (ps_pool s) = Some (Inr p) \<Longrightarrow>
     pool_step mc mw s (s\<lparr>ps_pool := p, ps_phase := (ps_phase s)(i := Gone)\<rparr>)"
| finish: "ps_phase s i = Holding \<Longrightarrow>
     release mc w a pr (ps_profile s i) (ps_pool s) = Some (Inr p) \<Longrightarrow>
     pool_step mc mw s (s\<lparr>ps_pool := p, ps_phase := (ps_phase s)(i := Gone)\<rparr>)"
| policy: "kick mc w a pr (ps_pool s) = Some (Inr p) \<Longrightarrow>
     pool_step mc mw s (s\<lparr>ps_pool := p\<rparr>)"

inductive pool_reachable :: "nat \<Rightarrow> nat \<Rightarrow> pool_sys \<Rightarrow> bool" for mc mw where
  start: "pool_reachable mc mw pool_sys_init"
| step: "pool_reachable mc mw s \<Longrightarrow> pool_step mc mw s t \<Longrightarrow> pool_reachable mc mw t"

section \<open>The invariant of the pool\<close>

text \<open>A job holds a slot from the moment its future is resolved until it releases it.\<close>

definition holder :: "(nat \<Rightarrow> phase) \<Rightarrow> pool \<Rightarrow> nat \<Rightarrow> bool" where
  "holder ph p i \<longleftrightarrow> ph i = Holding \<or> (\<exists>b. ph i = Awaiting b) \<and> pl_fut p i = Resolved"

definition run_ok :: "pool \<Rightarrow> bool" where
  "run_ok p \<longleftrightarrow> dict_ok (pl_running p) \<and> (\<forall>k n. dget (pl_running p) k = Some n \<longrightarrow> 0 < n)"

text \<open>
  The queue holds exactly the jobs whose future is pending (and cancelled ones not yet removed),
  each under its own profile and once; the running table counts exactly the slot holders.
\<close>

definition pool_inv :: "(nat \<Rightarrow> string) \<Rightarrow> (nat \<Rightarrow> phase) \<Rightarrow> pool \<Rightarrow> bool" where
  "pool_inv prof ph p \<longleftrightarrow>
     stride_ok (pl_queue p) \<and> run_ok p \<and> finite {i. ph i \<noteq> Absent} \<and>
     (\<forall>k. distinct (stride_abs (pl_queue p) k)) \<and>
     (\<forall>k. \<forall>i \<in> set (stride_abs (pl_queue p) k).
        prof i = k \<and> (\<exists>b. ph i = Awaiting b) \<and> pl_fut p i \<noteq> Resolved) \<and>
     (\<forall>i. (\<exists>b. ph i = Awaiting b) \<and> pl_fut p i = Pending \<longrightarrow>
        i \<in> set (stride_abs (pl_queue p) (prof i))) \<and>
     (\<forall>k. dcount (pl_running p) k = card {i. holder ph p i \<and> prof i = k})"

lemma pool_inv_finite_holders: "pool_inv prof ph p \<Longrightarrow> finite {i. holder ph p i \<and> prof i = k}"
  by (rule finite_subset [of _ "{i. ph i \<noteq> Absent}"]) (auto simp: holder_def pool_inv_def)

lemma pool_inv_queued:
  assumes "pool_inv prof ph p" "i \<in> set (stride_abs (pl_queue p) k)"
  shows "prof i = k" "\<exists>b. ph i = Awaiting b" "pl_fut p i \<noteq> Resolved"
  using assms unfolding pool_inv_def by blast+

text \<open>What a pop leaves behind: the served waiter is the head of its queue and is gone.\<close>

lemma pool_inv_popped:
  assumes inv: "pool_inv prof ph p" and pop: "stride_pop w a (pl_queue p) = Inr (Some (k, i), q)"
  shows "i \<in> set (stride_abs (pl_queue p) k)" "stride_ok q"
    "set (stride_abs q j) = set (stride_abs (pl_queue p) j) - {i}"
    "distinct (stride_abs q j)"
proof -
  have ok: "stride_ok (pl_queue p)" using inv by (simp add: pool_inv_def)
  from sq.pop_some [OF ok pop] obtain rest
    where k: "stride_abs (pl_queue p) k = i # rest" "stride_abs q = (stride_abs (pl_queue p))(k := rest)"
    by blast
  have dj: "distinct (stride_abs (pl_queue p) j)" for j using inv by (simp add: pool_inv_def)
  show i: "i \<in> set (stride_abs (pl_queue p) k)" using k by simp
  show "stride_ok q" by (rule sq.inv_pop [OF ok pop])
  have "i \<notin> set (stride_abs (pl_queue p) j)" if "j \<noteq> k"
    using pool_inv_queued(1) [OF inv i] pool_inv_queued(1) [OF inv, of i j] that by blast
  with k dj [of k] show "set (stride_abs q j) = set (stride_abs (pl_queue p) j) - {i}" by auto
  show "distinct (stride_abs q j)" using k dj [of j] dj [of k] by auto
qed

lemma width_bounds: "1 \<le> mc \<Longrightarrow> 1 \<le> width mc pr \<and> width mc pr \<le> mc"
  by (auto simp: width_def split: probe.splits)

text \<open>Serving a waiter whose future was cancelled only forgets it.\<close>

lemma pool_inv_skip:
  assumes inv: "pool_inv prof ph p" and pop: "stride_pop w a (pl_queue p) = Inr (Some (k, i), q)"
    and c: "pl_fut p i = Cancelled"
  shows "pool_inv prof ph (p\<lparr>pl_queue := q\<rparr>)" (is "pool_inv prof ph ?p")
proof -
  note q = pool_inv_popped [OF inv pop]
  have h: "holder ph ?p = holder ph p" by (simp add: holder_def fun_eq_iff)
  have "\<forall>j. (\<exists>b. ph j = Awaiting b) \<and> pl_fut p j = Pending \<longrightarrow> j \<in> set (stride_abs q (prof j))"
    using inv c unfolding pool_inv_def q(3) by force
  moreover have "\<forall>k. \<forall>j \<in> set (stride_abs q k). prof j = k \<and> (\<exists>b. ph j = Awaiting b) \<and> pl_fut p j \<noteq> Resolved"
    using pool_inv_queued [OF inv] unfolding q(3) by blast
  ultimately show ?thesis
    using inv q(2,4) by (simp add: pool_inv_def h run_ok_def)
qed

text \<open>Serving a pending waiter resolves its future and counts one more slot for its profile.\<close>

lemma pool_inv_grant:
  assumes inv: "pool_inv prof ph p" and pop: "stride_pop w a (pl_queue p) = Inr (Some (k, i), q)"
    and c: "pl_fut p i = Pending"
  shows "pool_inv prof ph (p\<lparr>pl_queue := q, pl_running := dset k (dcount (pl_running p) k + 1) (pl_running p),
           pl_fut := (pl_fut p)(i := Resolved)\<rparr>)" (is "pool_inv prof ph ?p")
proof -
  note q = pool_inv_popped [OF inv pop]
  note i = pool_inv_queued [OF inv q(1)]
  have nh: "\<not> holder ph p i" using c i(2) by (auto simp: holder_def)
  have h: "{j. holder ph ?p j \<and> prof j = k'} =
      (if k' = k then insert i {j. holder ph p j \<and> prof j = k'} else {j. holder ph p j \<and> prof j = k'})" for k'
    using i by (auto simp: holder_def split: if_splits)
  have "\<forall>k'. dcount (pl_running ?p) k' = card {j. holder ph ?p j \<and> prof j = k'}"
    using inv nh pool_inv_finite_holders [OF inv] unfolding h by (auto simp: pool_inv_def)
  moreover have "\<forall>j. (\<exists>b. ph j = Awaiting b) \<and> pl_fut ?p j = Pending \<longrightarrow>
      j \<in> set (stride_abs q (prof j))"
    using inv unfolding pool_inv_def q(3) by (auto split: if_splits)
  moreover have "\<forall>k. \<forall>j \<in> set (stride_abs q k). prof j = k \<and> (\<exists>b. ph j = Awaiting b) \<and> pl_fut ?p j \<noteq> Resolved"
    using pool_inv_queued [OF inv] unfolding q(3) by auto
  moreover have "run_ok ?p" using inv by (auto simp: pool_inv_def run_ok_def split: if_splits)
  ultimately show ?thesis
    using inv q(2,4) unfolding pool_inv_def by simp
qed

text \<open>
  The pump returns with the fuel it is given (the queue's depth), keeps the invariant and the
  two bounds, and stops only because the width is used up or no admitted profile waits.
\<close>

definition saturated_or_idle ::
    "nat \<Rightarrow> (string \<Rightarrow> bool) option \<Rightarrow> (nat \<Rightarrow> probe) \<Rightarrow> pool \<Rightarrow> bool" where
  "saturated_or_idle mc a pr p \<longleftrightarrow>
     (\<exists>n. width mc (pr n) \<le> pool_running p) \<or>
     (\<forall>k. stride_abs (pl_queue p) k \<noteq> [] \<longrightarrow> \<not> admitted a k)"

lemma pump_loop_spec:
  assumes "1 \<le> mc"
  shows "pool_inv prof ph p \<Longrightarrow> pool_waiting p < fuel \<Longrightarrow>
    \<exists>p'. pump_loop fuel mc w a pr p = Some (Inr p') \<and> pool_inv prof ph p' \<and>
      pool_waiting p' \<le> pool_waiting p \<and>
      (pool_running p \<le> mc \<longrightarrow> pool_running p' \<le> mc) \<and> pool_running p \<le> pool_running p' \<and>
      saturated_or_idle mc a pr p'"
proof (induction fuel arbitrary: pr p)
  case (Suc fuel)
  note inv = Suc.prems(1)
  have ok: "stride_ok (pl_queue p)" and rok: "dict_ok (pl_running p)"
    using inv by (simp_all add: pool_inv_def run_ok_def)
  show ?case
  proof (cases "pool_running p < width mc (pr 0)")
    case False
    then have "saturated_or_idle mc a pr p"
      unfolding saturated_or_idle_def by (meson not_less)
    with False inv show ?thesis by auto
  next
    case room: True
    obtain r q where pop: "stride_pop w a (pl_queue p) = Inr (r, q)" using sq.pop_total [OF ok] by blast
    show ?thesis
    proof (cases r)
      case None
      with sq.pop_none [OF ok] pop have "q = pl_queue p"
        and "\<forall>k. stride_abs (pl_queue p) k \<noteq> [] \<longrightarrow> \<not> admitted a k" by blast+
      with room pop None inv show ?thesis by (auto simp: saturated_or_idle_def)
    next
      case (Some ki)
      obtain k i where ki: "ki = (k, i)" by force
      have pop': "stride_pop w a (pl_queue p) = Inr (Some (k, i), q)" using pop Some ki by simp
      have dep: "stride_depth (pl_queue p) = Suc (stride_depth q)" by (rule sq.depth_pop_some [OF ok pop'])
      have nr: "pl_fut p i \<noteq> Resolved"
        by (rule pool_inv_queued(3) [OF inv pool_inv_popped(1) [OF inv pop']])
      define p1 where "p1 = (if pl_fut p i = Cancelled then p\<lparr>pl_queue := q\<rparr>
        else p\<lparr>pl_queue := q, pl_running := dset k (dcount (pl_running p) k + 1) (pl_running p),
               pl_fut := (pl_fut p)(i := Resolved)\<rparr>)"
      have st: "pump_loop (Suc fuel) mc w a pr p = pump_loop fuel mc w a (\<lambda>n. pr (Suc n)) p1"
        using room pop' nr by (simp add: p1_def)
      have inv1: "pool_inv prof ph p1"
        using pool_inv_skip [OF inv pop'] pool_inv_grant [OF inv pop'] nr
        by (cases "pl_fut p i") (auto simp: p1_def)
      have w1: "pool_waiting p1 = stride_depth q" by (simp add: p1_def pool_waiting_def)
      have r1: "pool_running p \<le> pool_running p1" "pool_running p1 \<le> Suc (pool_running p)"
        using dsum_dset [OF rok, of k "dcount (pl_running p) k + 1"]
        by (simp_all add: p1_def pool_running_def)
      have "pool_running p1 \<le> mc" using r1 room width_bounds [OF assms, of "pr 0"] by linarith
      moreover have "pool_waiting p1 < fuel" using Suc.prems(2) dep w1 by (simp add: pool_waiting_def)
      ultimately obtain p' where "pump_loop fuel mc w a (\<lambda>n. pr (Suc n)) p1 = Some (Inr p')"
        "pool_inv prof ph p'" "pool_waiting p' \<le> pool_waiting p1" "pool_running p' \<le> mc"
        "pool_running p1 \<le> pool_running p'" "saturated_or_idle mc a (\<lambda>n. pr (Suc n)) p'"
        using Suc.IH [OF inv1] by blast
      with st r1 dep w1 show ?thesis
        by (auto simp: pool_waiting_def saturated_or_idle_def)
    qed
  qed
qed simp

lemma pump_spec:
  assumes "1 \<le> mc" and "pool_inv prof ph p"
  shows "\<exists>p'. pump mc w a pr p = Some (Inr p') \<and> pool_inv prof ph p' \<and>
      pool_waiting p' \<le> pool_waiting p \<and>
      (pool_running p \<le> mc \<longrightarrow> pool_running p' \<le> mc) \<and> pool_running p \<le> pool_running p' \<and>
      saturated_or_idle mc a pr p'"
  unfolding pump_def by (rule pump_loop_spec [OF assms]) simp

text \<open>What each operation does to the invariant before it pumps.\<close>

lemma pool_inv_arrive:
  assumes inv: "pool_inv prof ph p" and new: "ph i = Absent"
  shows "pool_inv (prof(i := k)) (ph(i := Awaiting False))
           (p\<lparr>pl_fut := (pl_fut p)(i := Pending), pl_queue := stride_push k i (pl_queue p)\<rparr>)"
    (is "pool_inv ?prof ?ph ?p")
proof -
  have ok: "stride_ok (pl_queue p)" using inv by (simp add: pool_inv_def)
  note q = sq.queues_push [OF ok, of k i]
  have nq: "i \<notin> set (stride_abs (pl_queue p) j)" for j
    using pool_inv_queued(2) [OF inv, of i j] new by auto
  have h: "{j. holder ?ph ?p j \<and> ?prof j = k'} = {j. holder ph p j \<and> prof j = k'}" for k'
    using new by (auto simp: holder_def)
  have "finite {j. ?ph j \<noteq> Absent}"
    using inv by (auto simp: pool_inv_def intro: finite_subset [of _ "insert i {j. ph j \<noteq> Absent}"])
  moreover have "\<forall>k'. \<forall>j \<in> set (stride_abs (pl_queue ?p) k').
      ?prof j = k' \<and> (\<exists>b. ?ph j = Awaiting b) \<and> pl_fut ?p j \<noteq> Resolved"
    using pool_inv_queued [OF inv] nq by (auto simp: q split: if_splits)
  moreover have "\<forall>j. (\<exists>b. ?ph j = Awaiting b) \<and> pl_fut ?p j = Pending \<longrightarrow>
      j \<in> set (stride_abs (pl_queue ?p) (?prof j))"
    using inv by (auto simp: pool_inv_def q)
  moreover have "\<forall>j. distinct (stride_abs (pl_queue ?p) j)"
    using inv nq by (auto simp: pool_inv_def q)
  ultimately show ?thesis
    using inv sq.inv_push [OF ok, of k i] unfolding pool_inv_def h by (simp add: run_ok_def)
qed

lemma pool_inv_release:
  assumes inv: "pool_inv prof ph p" and i: "holder ph p i"
  shows "pool_inv prof (ph(i := Gone))
     (p\<lparr>pl_running := (let remaining = int (dcount (pl_running p) (prof i)) - 1
             in if remaining > 0 then dset (prof i) (nat remaining) (pl_running p)
                else dpop (prof i) (pl_running p))\<rparr>)" (is "pool_inv prof ?ph ?p")
proof -
  let ?H = "\<lambda>k. {j. holder ph p j \<and> prof j = k}"
  have h: "{j. holder ?ph ?p j \<and> prof j = k} = ?H k - {i}" for k
    by (auto simp: holder_def)
  have cnt: "dcount (pl_running p) k = card (?H k)" for k using inv by (simp add: pool_inv_def)
  have dec: "dcount (pl_running ?p) k = card (?H k - {i})" for k
    using cnt i pool_inv_finite_holders [OF inv, of k] by (auto simp: Let_def card_Diff_singleton)
  have nq: "i \<notin> set (stride_abs (pl_queue p) k)" for k
    using pool_inv_queued [OF inv, of i k] i by (auto simp: holder_def)
  have "run_ok ?p"
    using inv by (auto simp: pool_inv_def run_ok_def Let_def split: if_splits)
  moreover have "finite {j. ?ph j \<noteq> Absent}"
    using inv by (auto simp: pool_inv_def intro: finite_subset [of _ "insert i {j. ph j \<noteq> Absent}"])
  moreover have "\<forall>k. \<forall>j \<in> set (stride_abs (pl_queue p) k).
      prof j = k \<and> (\<exists>b. ?ph j = Awaiting b) \<and> pl_fut p j \<noteq> Resolved"
    using pool_inv_queued [OF inv] nq by (metis fun_upd_other)
  ultimately show ?thesis
    using inv dec unfolding pool_inv_def h by simp
qed

lemma pool_inv_discard:
  assumes inv: "pool_inv prof ph p" and i: "ph i = Awaiting b" and nr: "pl_fut p i \<noteq> Resolved"
  shows "pool_inv prof (ph(i := Gone)) (pool_discard (prof i) i p)" (is "pool_inv prof ?ph ?p")
proof -
  have ok: "stride_ok (pl_queue p)" using inv by (simp add: pool_inv_def)
  have d: "distinct (stride_abs (pl_queue p) k)" for k using inv by (simp add: pool_inv_def)
  have q: "stride_abs (pl_queue ?p) = (stride_abs (pl_queue p))(prof i := remove1 i (stride_abs (pl_queue p) (prof i)))"
    using sq.queues_discard [OF ok] by (simp add: pool_discard_def)
  have s: "set (stride_abs (pl_queue ?p) k) = set (stride_abs (pl_queue p) k) - {i}" for k
    using d pool_inv_queued(1) [OF inv, of i k] by (auto simp: q)
  have h: "holder ?ph ?p = holder ph p"
    using i nr by (auto simp: holder_def pool_discard_def fun_eq_iff)
  have "finite {j. ?ph j \<noteq> Absent}"
    using inv by (auto simp: pool_inv_def intro: finite_subset [of _ "insert i {j. ph j \<noteq> Absent}"])
  moreover have "\<forall>k. distinct (stride_abs (pl_queue ?p) k)" using d by (simp add: q)
  moreover have "stride_ok (pl_queue ?p)" using sq.inv_discard [OF ok] by (simp add: pool_discard_def)
  moreover have "\<forall>k. \<forall>j \<in> set (stride_abs (pl_queue ?p) k).
      prof j = k \<and> (\<exists>b. ?ph j = Awaiting b) \<and> pl_fut ?p j \<noteq> Resolved"
    using pool_inv_queued [OF inv] s by (auto simp: pool_discard_def)
  moreover have "\<forall>j. (\<exists>b. ?ph j = Awaiting b) \<and> pl_fut ?p j = Pending \<longrightarrow>
      j \<in> set (stride_abs (pl_queue ?p) (prof j))"
    using inv unfolding pool_inv_def s by (auto simp: pool_discard_def split: if_splits)
  ultimately show ?thesis
    using inv unfolding pool_inv_def h by (simp add: pool_discard_def run_ok_def)
qed

lemma pool_discard_resolved:
  assumes inv: "pool_inv prof ph p" and r: "pl_fut p i = Resolved"
  shows "pool_discard (prof i) i p = p"
proof -
  have "stride_wf (pl_queue p)" using inv by (simp add: pool_inv_def stride_ok_wf)
  moreover have "i \<notin> set (stride_abs (pl_queue p) (prof i))"
    using pool_inv_queued(3) [OF inv, of i] r by blast
  ultimately show ?thesis by (simp add: pool_discard_def stride_discard_eq)
qed

section \<open>Every step keeps the invariant\<close>

definition sys_ok :: "nat \<Rightarrow> nat \<Rightarrow> pool_sys \<Rightarrow> bool" where
  "sys_ok mc mw s \<longleftrightarrow>
     pool_inv (ps_profile s) (ps_phase s) (ps_pool s) \<and> pool_running (ps_pool s) \<le> mc \<and>
     pool_waiting (ps_pool s) \<le> mw \<and> (\<forall>i \<ge> ps_next s. ps_phase s i = Absent)"

lemma sys_ok_init: "sys_ok mc mw pool_sys_init"
proof -
  have "stride_abs (stride_init :: nat stride_queue) = (\<lambda>_. [])" by (rule sq.queues_empty)
  then show ?thesis
    using sq.inv_empty [where 'a = nat] sq.depth_empty [where 'a = nat]
    by (simp add: sys_ok_def pool_inv_def pool_sys_init_def run_ok_def holder_def pool_running_def
        pool_waiting_def dcount_def)
qed

lemma acquire_spec:
  assumes mc: "1 \<le> mc" and ok: "sys_ok mc mw s"
  shows "if mw \<le> pool_waiting (ps_pool s)
    then acquire mc mw w a pr k (ps_next s) (ps_pool s) = Some (Inl plugin_queue_full)
    else \<exists>p. acquire mc mw w a pr k (ps_next s) (ps_pool s) = Some (Inr p) \<and>
      pool_inv ((ps_profile s)(ps_next s := k)) ((ps_phase s)(ps_next s := Awaiting False)) p \<and>
      pool_running p \<le> mc \<and> pool_waiting p \<le> mw \<and> saturated_or_idle mc a pr p"
proof (cases "mw \<le> pool_waiting (ps_pool s)")
  case True
  then show ?thesis by (simp add: acquire_def pool_push_def pool_waiting_def)
next
  case False
  let ?p = "(ps_pool s)\<lparr>pl_fut := (pl_fut (ps_pool s))(ps_next s := Pending),
      pl_queue := stride_push k (ps_next s) (pl_queue (ps_pool s))\<rparr>"
  from ok have inv: "pool_inv ((ps_profile s)(ps_next s := k)) ((ps_phase s)(ps_next s := Awaiting False)) ?p"
    by (intro pool_inv_arrive) (auto simp: sys_ok_def)
  have "stride_ok (pl_queue (ps_pool s))" using ok by (simp add: sys_ok_def pool_inv_def)
  then have "pool_waiting ?p = Suc (pool_waiting (ps_pool s))"
    by (simp add: pool_waiting_def sq.depth_push)
  moreover have "pool_running ?p \<le> mc" using ok by (simp add: sys_ok_def pool_running_def)
  moreover have "acquire mc mw w a pr k (ps_next s) (ps_pool s) = pump mc w a pr ?p"
    using False by (simp add: acquire_def pool_push_def pool_waiting_def)
  ultimately show ?thesis
    using pump_spec [OF mc inv, of w a pr] False by force
qed

lemma release_spec:
  assumes mc: "1 \<le> mc" and inv: "pool_inv prof ph p" and i: "holder ph p i" and r: "pool_running p \<le> mc"
  shows "\<exists>p'. release mc w a pr (prof i) p = Some (Inr p') \<and> pool_inv prof (ph(i := Gone)) p' \<and>
      pool_running p' \<le> mc \<and> pool_waiting p' \<le> pool_waiting p \<and> saturated_or_idle mc a pr p'"
proof -
  let ?run = "let remaining = int (dcount (pl_running p) (prof i)) - 1
             in if remaining > 0 then dset (prof i) (nat remaining) (pl_running p)
                else dpop (prof i) (pl_running p)"
  have dok: "dict_ok (pl_running p)" using inv by (simp add: pool_inv_def run_ok_def)
  have "dsum ?run \<le> dsum (pl_running p)"
    using dsum_dset [OF dok, of "prof i" "nat (int (dcount (pl_running p) (prof i)) - 1)"]
      dsum_dpop [OF dok, of "prof i"] by (auto simp: Let_def)
  then have "pool_running (p\<lparr>pl_running := ?run\<rparr>) \<le> mc"
    using r by (simp add: pool_running_def)
  moreover have "pool_waiting (p\<lparr>pl_running := ?run\<rparr>) = pool_waiting p" by (simp add: pool_waiting_def)
  moreover have "release mc w a pr (prof i) p = pump mc w a pr (p\<lparr>pl_running := ?run\<rparr>)"
    by (simp add: release_def)
  ultimately show ?thesis
    using pump_spec [OF mc pool_inv_release [OF inv i], of w a pr] by force
qed

lemma acquire_cancelled_spec:
  assumes mc: "1 \<le> mc" and inv: "pool_inv prof ph p" and i: "ph i = Awaiting b" and r: "pool_running p \<le> mc"
  shows "\<exists>p'. acquire_cancelled mc w a pr (prof i) i p = Some (Inr p') \<and>
      pool_inv prof (ph(i := Gone)) p' \<and> pool_running p' \<le> mc \<and> pool_waiting p' \<le> pool_waiting p"
proof (cases "pl_fut p i = Resolved")
  case True
  with i have "holder ph p i" by (simp add: holder_def)
  from release_spec [OF mc inv this r, of w a pr] True show ?thesis
    by (auto simp: acquire_cancelled_def pool_discard_resolved [OF inv True])
next
  case False
  have "stride_ok (pl_queue p)" using inv by (simp add: pool_inv_def)
  with pool_inv_discard [OF inv i False] False r show ?thesis
    by (simp add: acquire_cancelled_def pool_discard_def pool_running_def pool_waiting_def sq.depth_discard)
qed

lemma pool_inv_mark:
  assumes inv: "pool_inv prof ph p" and i: "ph i = Awaiting b"
  shows "pool_inv prof (ph(i := Awaiting True)) p"
    and "pl_fut p i = Resolved \<Longrightarrow> pool_inv prof (ph(i := Holding)) p"
    and "pl_fut p i = Pending \<Longrightarrow>
      pool_inv prof (ph(i := Awaiting True)) (p\<lparr>pl_fut := (pl_fut p)(i := Cancelled)\<rparr>)"
proof -
  have fin: "finite {j. (ph(i := x)) j \<noteq> Absent}" for x
    using inv by (auto simp: pool_inv_def intro: finite_subset [of _ "insert i {j. ph j \<noteq> Absent}"])
  note qd = pool_inv_queued [OF inv]
  have h: "holder (ph(i := Awaiting True)) p = holder ph p"
    using i by (auto simp: holder_def fun_eq_iff)
  then show "pool_inv prof (ph(i := Awaiting True)) p"
    using inv i fin qd unfolding pool_inv_def h by (auto split: if_splits)
  { assume r: "pl_fut p i = Resolved"
    have "holder (ph(i := Holding)) p = holder ph p"
      using i r by (auto simp: holder_def fun_eq_iff)
    then show "pool_inv prof (ph(i := Holding)) p"
      using inv i r fin qd unfolding pool_inv_def by (auto split: if_splits) }
  { assume r: "pl_fut p i = Pending"
    let ?p = "p\<lparr>pl_fut := (pl_fut p)(i := Cancelled)\<rparr>"
    have "holder (ph(i := Awaiting True)) ?p = holder ph p"
      using i r by (auto simp: holder_def fun_eq_iff)
    then show "pool_inv prof (ph(i := Awaiting True)) ?p"
      using inv i fin qd unfolding pool_inv_def run_ok_def by (auto split: if_splits) }
qed

lemma pool_step_ok:
  assumes mc: "1 \<le> mc" and step: "pool_step mc mw s t" and ok: "sys_ok mc mw s"
  shows "sys_ok mc mw t"
proof -
  have inv: "pool_inv (ps_profile s) (ps_phase s) (ps_pool s)" and r: "pool_running (ps_pool s) \<le> mc"
    and wt: "pool_waiting (ps_pool s) \<le> mw" and fresh: "\<And>i. ps_next s \<le> i \<Longrightarrow> ps_phase s i = Absent"
    using ok by (simp_all add: sys_ok_def)
  have old: "i < ps_next s" if "ps_phase s i \<noteq> Absent" for i using fresh that not_less by blast
  from step show ?thesis
  proof cases
    case (arrive w a pr k p)
    with acquire_spec [OF mc ok, of w a pr k] fresh show ?thesis
      by (auto simp: sys_ok_def split: if_splits)
  next
    case (cancel_pending i b)
    with pool_inv_mark(3) [OF inv cancel_pending(2)] r wt fresh old [of i] show ?thesis
      by (auto simp: sys_ok_def pool_running_def pool_waiting_def)
  next
    case (cancel_resolved i b)
    with pool_inv_mark(1) [OF inv cancel_resolved(2)] r wt fresh old [of i] show ?thesis
      by (auto simp: sys_ok_def)
  next
    case (resume i)
    with pool_inv_mark(2) [OF inv resume(2)] r wt fresh old [of i] show ?thesis
      by (auto simp: sys_ok_def)
  next
    case (resume_cancelled i w a pr p)
    with acquire_cancelled_spec [OF mc inv resume_cancelled(2) r, of w a pr] wt fresh old [of i]
    show ?thesis by (auto simp: sys_ok_def)
  next
    case (finish i w a pr p)
    then have "holder (ps_phase s) (ps_pool s) i" by (simp add: holder_def)
    with release_spec [OF mc inv this r, of w a pr] finish wt fresh old [of i]
    show ?thesis by (auto simp: sys_ok_def)
  next
    case (policy w a pr p)
    with pump_spec [OF mc inv, of w a pr] r wt fresh show ?thesis
      by (auto simp: sys_ok_def kick_def)
  qed
qed

lemma pool_reachable_ok: "pool_reachable mc mw s \<Longrightarrow> 1 \<le> mc \<Longrightarrow> sys_ok mc mw s"
  by (induction rule: pool_reachable.induct) (auto intro: sys_ok_init pool_step_ok)

section \<open>Properties\<close>

text \<open>C4. However arrivals, cancellations (also of a job whose slot was handed over in the same
  tick), wake-ups, completions and policy changes interleave, in every reachable state the pool
  runs at most its configured width and queues at most its waiting bound, and the running
  table counts for every profile exactly the jobs that hold a slot: no slot is leaked and none
  is handed out twice.\<close>

theorem pool_no_slot_leak:
  assumes "pool_reachable mc mw s" and "1 \<le> mc"
  shows "pool_running (ps_pool s) \<le> mc \<and> pool_waiting (ps_pool s) \<le> mw \<and>
    (\<forall>k. dcount (pl_running (ps_pool s)) k =
           card {i. holder (ps_phase s) (ps_pool s) i \<and> ps_profile s i = k})"
  using pool_reachable_ok [OF assms] by (simp add: sys_ok_def pool_inv_def)

lemma pool_example_arrive:
  "acquire 4 64 (\<lambda>_. PInt 1) None (\<lambda>_. NoProbe) ''p'' 0 (ps_pool pool_sys_init) =
     Some (Inr \<lparr>pl_queue = stride_init, pl_running = [(''p'', 1)],
                pl_fut = ((\<lambda>_. Pending)(0 := Pending))(0 := Resolved)\<rparr>)"
proof -
  have p: "pump_loop 2 4 (\<lambda>_. PInt 1) None (\<lambda>_. NoProbe)
      \<lparr>pl_queue = stride_push ''p'' 0 stride_init, pl_running = [], pl_fut = f\<rparr> =
    (if f 0 = Pending then Some (Inr \<lparr>pl_queue = stride_init, pl_running = [(''p'', 1)], pl_fut = f(0 := Resolved)\<rparr>)
     else pump_loop 2 4 (\<lambda>_. PInt 1) None (\<lambda>_. NoProbe)
       \<lparr>pl_queue = stride_push ''p'' 0 stride_init, pl_running = [], pl_fut = f\<rparr>)" for f
  proof -
    have "stride_pop (\<lambda>_. PInt 1) None (stride_push ''p'' (0::nat) stride_init) =
        Inr (Some (''p'', 0), stride_init)" by code_simp
    moreover have "stride_pop (\<lambda>_. PInt 1) None (stride_init :: nat stride_queue) = Inr (None, stride_init)"
      by code_simp
    ultimately show ?thesis
      by (simp add: numeral_2_eq_2 pool_running_def width_def dset_def dcount_def dsum_def dsumf_def dvals_def)
  qed
  have "stride_depth (stride_init :: nat stride_queue) = 0"
    "stride_depth (stride_push ''p'' (0::nat) stride_init) = 1" by code_simp+
  then show ?thesis
    by (simp add: acquire_def pool_push_def pump_def pool_waiting_def pool_sys_init_def p
        numeral_2_eq_2 [symmetric])
qed

theorem pool_no_slot_leak_witness:
  "\<exists>s. pool_reachable 4 64 s \<and> ps_phase s 0 = Awaiting False \<and> pool_running (ps_pool s) \<le> 4 \<and>
     dcount (pl_running (ps_pool s)) ''p'' =
       card {i. holder (ps_phase s) (ps_pool s) i \<and> ps_profile s i = ''p''}"
proof -
  have n: "ps_next pool_sys_init = 0" by (simp add: pool_sys_init_def)
  have "pool_step 4 64 pool_sys_init
      (pool_sys_init\<lparr>ps_pool := \<lparr>pl_queue = stride_init, pl_running = [(''p'', 1)],
                pl_fut = ((\<lambda>_. Pending)(0 := Pending))(0 := Resolved)\<rparr>,
         ps_profile := (ps_profile pool_sys_init)(0 := ''p''),
         ps_phase := (ps_phase pool_sys_init)(0 := Awaiting False), ps_next := Suc 0\<rparr>)" (is "pool_step 4 64 _ ?t")
    using pool_step.arrive [where s = pool_sys_init, unfolded n, OF pool_example_arrive] by simp
  then have "pool_reachable 4 64 ?t" by (rule pool_reachable.step [OF pool_reachable.start])
  from pool_no_slot_leak [OF this] this show ?thesis by (intro exI [of _ ?t]) simp
qed

text \<open>In every reachable state no operation of the pool can raise anything but the full-queue
  refusal, and the pump always returns: an arrival is refused with \<^verbatim>\<open>plugin-queue-full\<close> exactly
  when the waiting bound is reached; a cancelled waiter always unwinds; a finished job always
  releases its slot, after which either the width is used up or nothing admitted waits.\<close>

theorem pool_operations_total:
  assumes "pool_reachable mc mw s" and "1 \<le> mc"
  shows "(if mw \<le> pool_waiting (ps_pool s)
          then acquire mc mw w a pr k (ps_next s) (ps_pool s) = Some (Inl plugin_queue_full)
          else \<exists>p. acquire mc mw w a pr k (ps_next s) (ps_pool s) = Some (Inr p) \<and>
                 saturated_or_idle mc a pr p) \<and>
         (ps_phase s i = Awaiting b \<longrightarrow>
          (\<exists>p. acquire_cancelled mc w a pr (ps_profile s i) i (ps_pool s) = Some (Inr p))) \<and>
         (ps_phase s i = Holding \<longrightarrow>
          (\<exists>p. release mc w a pr (ps_profile s i) (ps_pool s) = Some (Inr p) \<and>
             saturated_or_idle mc a pr p))"
proof (intro conjI)
  note ok = pool_reachable_ok [OF assms]
  then have inv: "pool_inv (ps_profile s) (ps_phase s) (ps_pool s)" and r: "pool_running (ps_pool s) \<le> mc"
    by (simp_all add: sys_ok_def)
  show "if mw \<le> pool_waiting (ps_pool s)
      then acquire mc mw w a pr k (ps_next s) (ps_pool s) = Some (Inl plugin_queue_full)
      else \<exists>p. acquire mc mw w a pr k (ps_next s) (ps_pool s) = Some (Inr p) \<and>
             saturated_or_idle mc a pr p"
    using acquire_spec [OF assms(2) ok, of w a pr k] by (auto split: if_splits)
  show "ps_phase s i = Awaiting b \<longrightarrow>
      (\<exists>p. acquire_cancelled mc w a pr (ps_profile s i) i (ps_pool s) = Some (Inr p))"
    using acquire_cancelled_spec [OF assms(2) inv _ r] by blast
  show "ps_phase s i = Holding \<longrightarrow>
      (\<exists>p. release mc w a pr (ps_profile s i) (ps_pool s) = Some (Inr p) \<and> saturated_or_idle mc a pr p)"
    using release_spec [OF assms(2) inv _ r, of i w a pr] by (auto simp: holder_def)
qed

theorem pool_operations_total_witness:
  "\<exists>p. acquire 4 64 (\<lambda>_. PInt 1) None (\<lambda>_. NoProbe) ''p'' (ps_next pool_sys_init) (ps_pool pool_sys_init)
       = Some (Inr p) \<and> saturated_or_idle 4 None (\<lambda>_. NoProbe) p"
proof -
  have "pool_waiting (ps_pool pool_sys_init) = 0" by code_simp
  then show ?thesis
    using pool_operations_total [OF pool_reachable.start, of 4 64 "\<lambda>_. PInt 1" None "\<lambda>_. NoProbe" "''p''"]
    by auto
qed

end
