(* ===== verification/Model_Cache.thy ===== *)
theory Model_Cache
  imports OT_Prelude
begin

text \<open>
  \<^verbatim>\<open>ModelCache\<close> and \<^verbatim>\<open>ModelStore\<close> of \<^verbatim>\<open>src/omnitensor/executors/base.py\<close>: a bounded cache of
  compiled models in least-recently-used order, revalidated on every lookup, whose evicted
  entries are handed to a releaser, at once when the store is idle and otherwise by the last
  job to leave.  A runtime object is a number; \<open>ms_released\<close> is the sequence of calls of the
  releaser.  What \<^verbatim>\<open>os.stat\<close> answers and what \<^verbatim>\<open>build\<close> returns are arguments.
\<close>

section \<open>State and operations\<close>

type_synonym revision = "(int \<times> int) list"

record store =
  ms_max :: nat
  ms_entries :: "(revision \<times> nat) dict"
  ms_in_flight :: nat
  ms_pending :: "nat list"
  ms_released :: "nat list"

definition DEFAULT_MAX_CACHED_MODELS :: int where "DEFAULT_MAX_CACHED_MODELS = 4"

definition store_init :: "int \<Rightarrow> store res" where
  "store_init max_entries =
     (if max_entries < 1 then Inl ValueError
      else Inr \<lparr>ms_max = nat max_entries, ms_entries = [], ms_in_flight = 0, ms_pending = [], ms_released = []\<rparr>)"

text \<open>The revision of a model: time and size of each file, or nothing when one is unreadable.\<close>

fun model_revision :: "(string \<Rightarrow> (int \<times> int) option) \<Rightarrow> string list \<Rightarrow> revision option" where
  "model_revision stat [] = Some []"
| "model_revision stat (p # ps) =
     (case stat p of None \<Rightarrow> None
      | Some r \<Rightarrow> (case model_revision stat ps of None \<Rightarrow> None | Some rs \<Rightarrow> Some (r # rs)))"

text \<open>\<^verbatim>\<open>ModelStore._releasing\<close>: parked while a job is in flight.\<close>

definition releasing :: "nat \<Rightarrow> store \<Rightarrow> store" where
  "releasing v s =
     (if 0 < ms_in_flight s then s\<lparr>ms_pending := ms_pending s @ [v]\<rparr>
      else s\<lparr>ms_released := ms_released s @ [v]\<rparr>)"

text \<open>\<^verbatim>\<open>popitem(last=False)\<close> while there are too many entries.\<close>

fun evict :: "nat \<Rightarrow> (revision \<times> nat) dict \<Rightarrow> nat list \<times> (revision \<times> nat) dict" where
  "evict m [] = ([], [])"
| "evict m (e # es) =
     (if m < length (e # es) then (case evict m es of (vs, kept) \<Rightarrow> (snd (snd e) # vs, kept))
      else ([], e # es))"

definition get_or_build ::
    "(string \<Rightarrow> (int \<times> int) option) \<Rightarrow> string \<Rightarrow> string list \<Rightarrow> nat res \<Rightarrow> store \<Rightarrow> nat res \<times> store" where
  "get_or_build stat path companions build s =
     (let revision = model_revision stat (path # companions);
          cached = dget (ms_entries s) path
      in case (revision, cached) of
           (Some r, Some (r', v)) \<Rightarrow>
             if r' = r then (Inr v, s\<lparr>ms_entries := move_to_end path (ms_entries s)\<rparr>)
             else (case build of
                     Inl e \<Rightarrow> (Inl e, s)
                   | Inr w \<Rightarrow>
                       (let s1 = releasing v (s\<lparr>ms_entries := move_to_end path (dset path (r, w) (ms_entries s))\<rparr>);
                            (vs, kept) = evict (ms_max s1) (ms_entries s1)
                        in (Inr w, fold releasing vs (s1\<lparr>ms_entries := kept\<rparr>))))
         | (Some r, None) \<Rightarrow>
             (case build of
                Inl e \<Rightarrow> (Inl e, s)
              | Inr w \<Rightarrow>
                  (let s1 = s\<lparr>ms_entries := move_to_end path (dset path (r, w) (ms_entries s))\<rparr>;
                       (vs, kept) = evict (ms_max s1) (ms_entries s1)
                   in (Inr w, fold releasing vs (s1\<lparr>ms_entries := kept\<rparr>))))
         | (None, _) \<Rightarrow>
             (case build of
                Inl e \<Rightarrow> (Inl e, s)
              | Inr w \<Rightarrow> (Inr w, s\<lparr>ms_entries := dpop path (ms_entries s)\<rparr>)))"

definition store_close :: "store \<Rightarrow> store" where
  "store_close s = fold releasing (map snd (dvals (ms_entries s))) (s\<lparr>ms_entries := []\<rparr>)"

definition running_enter :: "store \<Rightarrow> store" where
  "running_enter s = s\<lparr>ms_in_flight := Suc (ms_in_flight s)\<rparr>"

definition running_leave :: "store \<Rightarrow> store" where
  "running_leave s =
     (let n = ms_in_flight s - 1
      in if n = 0 then s\<lparr>ms_in_flight := 0, ms_pending := [], ms_released := ms_released s @ ms_pending s\<rparr>
         else s\<lparr>ms_in_flight := n\<rparr>)"

definition store_paths :: "store \<Rightarrow> string list" where
  "store_paths s = dkeys (ms_entries s)"

text \<open>
  The interleavings: lookups whose builds return objects never seen before, jobs entering and
  leaving, and closing.  The second component lists every object built so far.
\<close>

inductive store_reachable :: "store \<Rightarrow> nat list \<Rightarrow> bool" where
  init: "store_init m = Inr s \<Longrightarrow> store_reachable s []"
| lookup: "store_reachable s built \<Longrightarrow> w \<notin> set built \<Longrightarrow>
     get_or_build stat path companions (Inr w) s = (Inr v, t) \<Longrightarrow>
     store_reachable t (if v = w then w # built else built)"
| failed: "store_reachable s built \<Longrightarrow>
     get_or_build stat path companions (Inl e) s = (r, t) \<Longrightarrow> store_reachable t built"
| enter: "store_reachable s built \<Longrightarrow> store_reachable (running_enter s) built"
| leave: "store_reachable s built \<Longrightarrow> 0 < ms_in_flight s \<Longrightarrow> store_reachable (running_leave s) built"
| closed: "store_reachable s built \<Longrightarrow> store_reachable (store_close s) built"

section \<open>The invariant\<close>

text \<open>Where an object is: cached, parked or released, and it is in at most one of these places once.\<close>

definition held :: "store \<Rightarrow> nat list" where
  "held s = map snd (dvals (ms_entries s)) @ ms_pending s @ ms_released s"

definition store_inv :: "store \<Rightarrow> nat list \<Rightarrow> bool" where
  "store_inv s built \<longleftrightarrow>
     dict_ok (ms_entries s) \<and> 0 < ms_max s \<and> length (ms_entries s) \<le> ms_max s \<and>
     distinct (held s) \<and> set (held s) \<subseteq> set built \<and> (ms_in_flight s = 0 \<longrightarrow> ms_pending s = [])"

definition parked :: "store \<Rightarrow> nat list" where
  "parked s = ms_pending s @ ms_released s"

lemma mset_held: "mset (held s) = mset (map snd (dvals (ms_entries s))) + mset (parked s)"
  by (simp add: held_def parked_def)

lemma releasing_frame [simp]:
  "ms_entries (releasing v s) = ms_entries s" "ms_max (releasing v s) = ms_max s"
  "ms_in_flight (releasing v s) = ms_in_flight s"
  by (simp_all add: releasing_def)

lemma fold_releasing_frame [simp]:
  "ms_entries (fold releasing vs s) = ms_entries s" "ms_max (fold releasing vs s) = ms_max s"
  "ms_in_flight (fold releasing vs s) = ms_in_flight s"
  by (induction vs arbitrary: s) simp_all

lemma fold_releasing:
  "fold releasing vs s =
     (if 0 < ms_in_flight s then s\<lparr>ms_pending := ms_pending s @ vs\<rparr>
      else s\<lparr>ms_released := ms_released s @ vs\<rparr>)"
  by (induction vs arbitrary: s) (simp_all add: releasing_def)

lemma parked_releasing: "mset (parked (fold releasing vs s)) = mset (parked s) + mset vs"
  by (simp add: fold_releasing parked_def)

lemma evict_eq:
  "evict m es = (map (\<lambda>e. snd (snd e)) (take (length es - m) es), drop (length es - m) es)"
  by (induction es) (auto simp: Suc_diff_le less_Suc_eq_le)

lemma dpop_snd: "dict_ok d \<Longrightarrow> dget d k = Some v \<Longrightarrow> mset (dvals d) = add_mset v (mset (dvals (dpop k d)))"
proof (induction d)
  case (Cons p d)
  obtain k' v' where p: "p = (k', v')" by force
  from Cons.prems have ok: "dict_ok d" and "k' \<notin> set (dkeys d)" by (simp_all add: p dict_ok_def dkeys_def)
  then have "dpop k' d = d" by (intro dpop_absent) (simp add: dhas_def)
  with Cons p ok show ?case
    by (cases "k' = k") (auto simp: dget_def dpop_def dvals_def)
qed simp

lemma dict_ok_tail: "dict_ok (pre @ kept) \<Longrightarrow> dict_ok kept"
  by (simp add: dict_ok_def dkeys_def)

lemma dpop_dset: "dpop k (dset k v d) = dpop k d"
  by (induction d) (auto simp: dpop_def dset_def)

lemma move_to_end_dset: "move_to_end k (dset k v d) = dpop k d @ [(k, v)]"
  by (simp add: move_to_end_def dpop_dset)

lemma dict_ok_snoc: "dict_ok d \<Longrightarrow> dict_ok (dpop k d @ [(k, v)])"
proof -
  assume "dict_ok d"
  moreover have "dkeys (dpop k d @ [(k, v)]) = filter (\<lambda>x. x \<noteq> k) (dkeys d) @ [k]"
    using dkeys_dpop [of k d] by (simp add: dkeys_def)
  ultimately show ?thesis by (simp add: dict_ok_def)
qed

text \<open>Storing a freshly built object: it goes to the end, the replaced and the surplus ones are released.\<close>

definition store_put :: "string \<Rightarrow> revision \<Rightarrow> nat \<Rightarrow> store \<Rightarrow> store" where
  "store_put path r w s =
     (let s0 = (case dget (ms_entries s) path of None \<Rightarrow> s | Some (r', v) \<Rightarrow> releasing v s);
          es = dpop path (ms_entries s) @ [(path, (r, w))]
      in fold releasing (fst (evict (ms_max s) es)) (s0\<lparr>ms_entries := snd (evict (ms_max s) es)\<rparr>))"

lemma releasing_entries: "releasing v (s\<lparr>ms_entries := es\<rparr>) = (releasing v s)\<lparr>ms_entries := es\<rparr>"
  by (simp add: releasing_def)

lemma get_or_build_cases:
  "get_or_build stat path companions build s =
     (case model_revision stat (path # companions) of
        None \<Rightarrow> (build, case build of Inl e \<Rightarrow> s | Inr w \<Rightarrow> s\<lparr>ms_entries := dpop path (ms_entries s)\<rparr>)
      | Some r \<Rightarrow>
          (case dget (ms_entries s) path of
             Some (r', v) \<Rightarrow>
               if r' = r then (Inr v, s\<lparr>ms_entries := move_to_end path (ms_entries s)\<rparr>)
               else (build, case build of Inl e \<Rightarrow> s | Inr w \<Rightarrow> store_put path r w s)
           | None \<Rightarrow> (build, case build of Inl e \<Rightarrow> s | Inr w \<Rightarrow> store_put path r w s)))"
  by (simp add: get_or_build_def store_put_def Let_def move_to_end_dset releasing_entries
      del: model_revision.simps split: option.split prod.split sum.split)

lemma parked_entries [simp]: "parked (s\<lparr>ms_entries := es\<rparr>) = parked s"
  by (simp add: parked_def)

lemma store_put_inv:
  assumes inv: "store_inv s built" and w: "w \<notin> set built"
  shows "store_inv (store_put path r w s) (w # built)"
    and "(path, (r, w)) = last (ms_entries (store_put path r w s))"
proof -
  let ?t = "store_put path r w s"
  define es where "es = dpop path (ms_entries s) @ [(path, (r, w))]"
  define n where "n = length es - ms_max s"
  have ok: "dict_ok (ms_entries s)" and m: "0 < ms_max s" using inv by (simp_all add: store_inv_def)
  have e: "ms_entries ?t = drop n es" "ms_max ?t = ms_max s" "ms_in_flight ?t = ms_in_flight s"
    by (simp_all add: store_put_def Let_def evict_eq es_def n_def split: option.split)
  have n: "n < length es" using m by (simp add: n_def es_def)
  then show "(path, (r, w)) = last (ms_entries ?t)" by (simp add: e) (simp add: es_def)
  have des: "dict_ok es" unfolding es_def by (rule dict_ok_snoc [OF ok])
  then have "dict_ok (drop n es)" using dict_ok_tail [of "take n es"] by simp
  moreover have "length (drop n es) \<le> ms_max s" by (simp add: n_def)
  moreover have "mset (held ?t) = add_mset w (mset (held s))"
  proof -
    define vs where "vs = map (\<lambda>e. snd (snd e)) (take n es)"
    have vals: "map snd (dvals es) = vs @ map snd (dvals (drop n es))"
    proof -
      have "dvals es = map snd (take n es) @ map snd (drop n es)"
        by (simp add: dvals_def flip: map_append)
      then show ?thesis by (simp add: vs_def dvals_def comp_def)
    qed
    have t: "mset (parked ?t) = mset (parked s) + mset vs +
        (case dget (ms_entries s) path of None \<Rightarrow> {#} | Some (r', v) \<Rightarrow> {#v#})"
      using parked_releasing [of "[v]" s for v]
      by (auto simp: store_put_def Let_def evict_eq parked_releasing vs_def es_def n_def split: option.split)
    have "mset (map snd (dvals (ms_entries s))) = mset (map snd (dvals (dpop path (ms_entries s)))) +
        (case dget (ms_entries s) path of None \<Rightarrow> {#} | Some (r', v) \<Rightarrow> {#v#})"
      using dpop_snd [OF ok, of path] dpop_absent [of "ms_entries s" path]
      by (auto simp: dget_None_iff split: option.split)
    moreover have "mset (map snd (dvals es)) = add_mset w (mset (map snd (dvals (dpop path (ms_entries s)))))"
      by (simp add: es_def dvals_def)
    ultimately show ?thesis
      using arg_cong [OF vals, of mset] by (simp add: mset_held e t)
  qed
  then have "distinct (held ?t) \<longleftrightarrow> distinct (w # held s)" "set (held ?t) = set (w # held s)"
    by (metis mset.simps(2) mset_eq_imp_distinct_iff, metis mset.simps(2) mset_eq_setD)
  moreover have "ms_in_flight s = 0 \<Longrightarrow> ms_pending ?t = ms_pending s"
    by (simp add: store_put_def Let_def fold_releasing releasing_def split: option.split)
  ultimately show "store_inv ?t (w # built)"
    using inv w m by (auto simp: store_inv_def e)
qed

lemma move_to_end_hit:
  assumes "dict_ok d" "dget d k = Some v"
  shows "mset (dvals (move_to_end k d)) = mset (dvals d)" "dict_ok (move_to_end k d)"
    "length (move_to_end k d) = length d" "last (move_to_end k d) = (k, v)"
  using dpop_snd [OF assms] dict_ok_snoc [OF assms(1)] length_dpop [OF assms] assms(2)
  by (simp_all add: move_to_end_def dvals_def)

lemma store_inv_held_mset:
  assumes "store_inv s built" "mset (held t) = mset (held s)" "dict_ok (ms_entries t)"
    "length (ms_entries t) \<le> ms_max t" "ms_max t = ms_max s" "ms_in_flight t = 0 \<longrightarrow> ms_pending t = []"
  shows "store_inv t built"
  using assms mset_eq_setD [OF assms(2)] mset_eq_imp_distinct_iff [OF assms(2)]
  by (auto simp: store_inv_def)

lemma get_or_build_inv:
  assumes inv: "store_inv s built" and g: "get_or_build stat path cs build s = (r, t)"
    and fresh: "\<forall>w. build = Inr w \<longrightarrow> w \<notin> set built"
  shows "store_inv t (case r of Inl e \<Rightarrow> built | Inr v \<Rightarrow> if build = Inr v then v # built else built)"
proof -
  have ok: "dict_ok (ms_entries s)" using inv by (simp add: store_inv_def)
  have weak: "store_inv s (w # built)" for w using inv by (auto simp: store_inv_def)
  have pop: "store_inv (s\<lparr>ms_entries := dpop path (ms_entries s)\<rparr>) (w # built)" for w
  proof (cases "dget (ms_entries s) path")
    case None
    then show ?thesis using weak by (simp add: dpop_absent dget_None_iff)
  next
    case (Some x)
    from dpop_snd [OF ok Some] have "mset (held s) = add_mset (snd x)
        (mset (held (s\<lparr>ms_entries := dpop path (ms_entries s)\<rparr>)))" by (simp add: mset_held)
    from mset_eq_setD [of "held s" "snd x # held (s\<lparr>ms_entries := dpop path (ms_entries s)\<rparr>)"]
      mset_eq_imp_distinct_iff [of "held s" "snd x # held (s\<lparr>ms_entries := dpop path (ms_entries s)\<rparr>)"] this
    show ?thesis using weak [of w] length_dpop [OF ok Some] by (auto simp: store_inv_def)
  qed
  have hit: "store_inv (s\<lparr>ms_entries := move_to_end path (ms_entries s)\<rparr>) built"
    if "dget (ms_entries s) path = Some x" for x
    by (rule store_inv_held_mset [OF inv])
      (use inv move_to_end_hit [OF ok that] in \<open>auto simp: mset_held store_inv_def\<close>)
  have old: "dget (ms_entries s) path = Some (r', v) \<Longrightarrow> v \<in> set built" for r' v
    using inv set_dvals [OF ok, of "(r', v)"] by (force simp: store_inv_def held_def)
  show ?thesis
    using g inv pop hit fresh old store_put_inv(1) [OF inv]
    by (auto simp: get_or_build_cases split: option.splits prod.splits if_splits sum.splits)
qed

lemma store_close_inv: "store_inv s built \<Longrightarrow> store_inv (store_close s) built"
  by (rule store_inv_held_mset)
    (auto simp: store_close_def mset_held parked_releasing, auto simp: store_inv_def fold_releasing dvals_def)

lemma running_inv:
  "store_inv s built \<Longrightarrow> store_inv (running_enter s) built"
  "store_inv s built \<Longrightarrow> 0 < ms_in_flight s \<Longrightarrow> store_inv (running_leave s) built"
  by (auto simp: store_inv_def running_enter_def running_leave_def held_def Let_def)

lemma store_reachable_inv: "store_reachable s built \<Longrightarrow> store_inv s built"
proof (induction rule: store_reachable.induct)
  case (lookup s built w stat path companions v t)
  then show ?case using get_or_build_inv [of s built stat path companions "Inr w" "Inr v" t] by auto
next
  case (failed s built stat path companions e r t)
  then show ?case using get_or_build_inv [of s built stat path companions "Inl e" r t]
    by (auto split: sum.splits)
qed (auto simp: running_inv store_close_inv, auto simp: store_init_def store_inv_def held_def split: if_splits)

section \<open>Properties\<close>


text \<open>A lookup never serves a stale model: what \<^verbatim>\<open>get_or_build\<close> returns is the object it has
  just built, or the cached object of that path whose recorded revision equals the current one
  of the model and all its companion files; in both cases a model whose files can be read is
  afterwards the most recently used entry, recorded under its current revision.\<close>

theorem get_or_build_fresh:
  assumes "store_reachable s built" and "w \<notin> set built"
    and "get_or_build stat path cs (Inr w) s = (Inr v, t)"
  shows "(v = w \<or> (\<exists>r. model_revision stat (path # cs) = Some r \<and> dget (ms_entries s) path = Some (r, v))) \<and>
     (case model_revision stat (path # cs) of
        Some r \<Rightarrow> ms_entries t \<noteq> [] \<and> last (ms_entries t) = (path, (r, v))
      | None \<Rightarrow> v = w \<and> \<not> dhas (ms_entries t) path)"
proof -
  note inv = store_reachable_inv [OF assms(1)]
  then have ok: "dict_ok (ms_entries s)" and m: "0 < ms_max s" by (simp_all add: store_inv_def)
  have ne: "ms_entries (store_put path r w s) \<noteq> []" for r
    using m by (auto simp: store_put_def Let_def evict_eq split: option.split)
  show ?thesis
    using assms(3) store_put_inv(2) [OF inv assms(2), of path, symmetric] move_to_end_hit [OF ok, of path] ne
    by (auto simp: get_or_build_cases dhas_iff move_to_end_def split: option.splits prod.splits if_splits)
qed

text \<open>When the file of a cached model can no longer be read, the lookup drops the cached
  object without handing it to the releaser: it is neither cached, nor parked, nor released, so
  no later operation of the store will release it.\<close>

theorem unreadable_model_dropped_unreleased:
  assumes "store_reachable s built" and "dget (ms_entries s) path = Some (r, v)"
    and "model_revision stat (path # cs) = None"
  shows "v \<notin> set (held (snd (get_or_build stat path cs (Inr w) s)))"
proof -
  note inv = store_reachable_inv [OF assms(1)]
  then have ok: "dict_ok (ms_entries s)" by (simp add: store_inv_def)
  let ?t = "s\<lparr>ms_entries := dpop path (ms_entries s)\<rparr>"
  have "mset (held s) = mset (v # held ?t)"
    using dpop_snd [OF ok assms(2)] by (simp add: mset_held)
  from mset_eq_imp_distinct_iff [OF this] inv have "v \<notin> set (held ?t)" by (simp add: store_inv_def)
  with assms(3) show ?thesis by (simp add: get_or_build_cases del: model_revision.simps)
qed

section \<open>Witnesses\<close>

text \<open>A store of one model that has loaded one file while a job is in flight.\<close>

definition demo_stat :: "string \<Rightarrow> (int \<times> int) option" where
  "demo_stat p = (if p = ''m.onnx'' then Some (7, 100) else None)"

definition demo_empty :: store where
  "demo_empty = \<lparr>ms_max = 1, ms_entries = [], ms_in_flight = 0, ms_pending = [], ms_released = []\<rparr>"

definition demo_loaded :: store where
  "demo_loaded = snd (get_or_build demo_stat ''m.onnx'' [] (Inr 0) (running_enter demo_empty))"

lemma demo_loaded_reachable: "store_reachable demo_loaded [0]"
proof -
  have "store_reachable demo_empty []"
    by (rule store_reachable.init [of 1]) (simp add: store_init_def demo_empty_def)
  then have "store_reachable (running_enter demo_empty) []" by (rule store_reachable.enter)
  moreover have "get_or_build demo_stat ''m.onnx'' [] (Inr 0) (running_enter demo_empty) = (Inr 0, demo_loaded)"
    by code_simp
  ultimately show ?thesis using store_reachable.lookup [of "running_enter demo_empty" "[]" 0] by fastforce
qed

lemma demo_loaded_entries: "ms_entries demo_loaded = [(''m.onnx'', ([(7, 100)], 0))] \<and> ms_in_flight demo_loaded = 1"
  by code_simp


theorem get_or_build_fresh_witness:
  "\<exists>t. get_or_build demo_stat ''m.onnx'' [] (Inr 1) demo_loaded = (Inr 0, t) \<and>
     last (ms_entries t) = (''m.onnx'', ([(7, 100)], 0))"
proof -
  obtain t where t: "get_or_build demo_stat ''m.onnx'' [] (Inr 1) demo_loaded = (Inr 0, t)"
    using demo_loaded_entries by (simp add: get_or_build_cases demo_stat_def dget_def)
  from get_or_build_fresh [OF demo_loaded_reachable _ t] t show ?thesis by (auto simp: demo_stat_def)
qed

theorem unreadable_model_dropped_unreleased_witness:
  "store_reachable demo_loaded [0] \<and> dget (ms_entries demo_loaded) ''m.onnx'' = Some ([(7, 100)], 0) \<and>
   0 \<notin> set (held (snd (get_or_build (\<lambda>_. None) ''m.onnx'' [] (Inr 1) demo_loaded)))"
proof -
  have e: "dget (ms_entries demo_loaded) ''m.onnx'' = Some ([(7, 100)], 0)"
    using demo_loaded_entries by (simp add: dget_def)
  from unreadable_model_dropped_unreleased [OF demo_loaded_reachable e, of "\<lambda>_. None" "[]" 1]
    demo_loaded_reachable e show ?thesis by simp
qed

end
