(* ===== verification/Job_Results.thy ===== *)
theory Job_Results
  imports OT_Prelude
begin

text \<open>
  \<^verbatim>\<open>src/omnitensor/plugins/job_results.py\<close>: what is remembered of jobs, bounded by age and by
  count and scoped to the owner.  Records are kept in order of their last update.  The clock is
  read once per call here and passed in as \<open>now\<close>.  The contract the job service relies on is the
  locale \<open>job_store\<close>, interpreted on these operations at the end.
\<close>

section \<open>State and operations\<close>

datatype result_status = SUCCEEDED | CANCELLED | FAILED

fun status_str :: "result_status \<Rightarrow> string" where
  "status_str SUCCEEDED = ''succeeded''"
| "status_str CANCELLED = ''cancelled''"
| "status_str FAILED = ''failed''"

record progress =
  pg_job :: string
  pg_stage :: string
  pg_fraction :: rat
  pg_detail :: string
  pg_at :: int

record presult =
  pr_job :: string
  pr_status :: result_status
  pr_output :: "pyval"
  pr_detail :: string
  pr_at :: int

record job_record =
  jr_job :: string
  jr_progress :: "progress option"
  jr_result :: "presult option"
  jr_updated :: rat

definition terminal :: "job_record \<Rightarrow> bool" where
  "terminal r = (jr_result r \<noteq> None)"

record results =
  rs_max :: nat
  rs_ttl :: "rat option"
  rs_records :: "(string \<times> job_record) dict"

definition DEFAULT_MAX_RETAINED_JOBS :: int where "DEFAULT_MAX_RETAINED_JOBS = 256"
definition DEFAULT_RESULT_TTL_SECONDS :: rat where "DEFAULT_RESULT_TTL_SECONDS = 900"
definition MAX_RETAINED_JOBS_LIMIT :: int where "MAX_RETAINED_JOBS_LIMIT = 4096"

text \<open>
  A positive number is required: an infinite lifetime is accepted, and so is a NaN, which
  compares false with everything.  With either no record ever expires, which is \<open>rs_ttl = None\<close>.
\<close>

definition results_init :: "pyval \<Rightarrow> pyval \<Rightarrow> results res" where
  "results_init max_retained_jobs result_ttl_seconds =
     (case max_retained_jobs of
        PInt n \<Rightarrow>
          if \<not> (1 \<le> n \<and> n \<le> MAX_RETAINED_JOBS_LIMIT) then Inl ValueError
          else (case result_ttl_seconds of
                  PInt t \<Rightarrow> if t \<le> 0 then Inl ValueError
                            else Inr \<lparr>rs_max = nat n, rs_ttl = Some (of_int t), rs_records = []\<rparr>
                | PFloat (Fin t) \<Rightarrow> if t \<le> 0 then Inl ValueError
                            else Inr \<lparr>rs_max = nat n, rs_ttl = Some t, rs_records = []\<rparr>
                | PFloat PosInf \<Rightarrow> Inr \<lparr>rs_max = nat n, rs_ttl = None, rs_records = []\<rparr>
                | PFloat NaN \<Rightarrow> Inr \<lparr>rs_max = nat n, rs_ttl = None, rs_records = []\<rparr>
                | _ \<Rightarrow> Inl ValueError)
      | _ \<Rightarrow> Inl ValueError)"

definition validate_ids :: "string \<Rightarrow> string \<Rightarrow> unit res" where
  "validate_ids job_id owner =
     (if job_id = [] \<or> 120 < length job_id
      then Inl (Stable ''job-id-invalid'' ''job id must contain 1-120 characters'')
      else if owner = [] \<or> 200 < length owner
      then Inl (Stable ''owner-invalid'' ''owner must contain 1-200 characters'')
      else Inr ())"

text \<open>\<^verbatim>\<open>record.updated_at < self._clock() - self._result_ttl_seconds\<close>.\<close>

definition expired :: "rat \<Rightarrow> rat option \<Rightarrow> job_record \<Rightarrow> bool" where
  "expired now ttl r = (case ttl of None \<Rightarrow> False | Some t \<Rightarrow> jr_updated r < now - t)"

definition expire :: "rat \<Rightarrow> results \<Rightarrow> results" where
  "expire now s =
     s\<lparr>rs_records := filter (\<lambda>(j, (o', r)). \<not> expired now (rs_ttl s) r) (rs_records s)\<rparr>"

definition results_len :: "rat \<Rightarrow> results \<Rightarrow> nat \<times> results" where
  "results_len now s = (length (rs_records (expire now s)), expire now s)"

text \<open>Dropping the oldest record while there are too many.\<close>

definition store_record :: "rat \<Rightarrow> string \<Rightarrow> string \<Rightarrow> job_record \<Rightarrow> results \<Rightarrow> results" where
  "store_record now job_id owner record s =
     (let s1 = expire now s;
          rs = dpop job_id (rs_records s1) @ [(job_id, (owner, record))]
      in s1\<lparr>rs_records := drop (length rs - rs_max s1) rs\<rparr>)"

definition record_progress :: "rat \<Rightarrow> string \<Rightarrow> string \<Rightarrow> progress \<Rightarrow> results \<Rightarrow> results res" where
  "record_progress now job_id owner p s =
     bind_res (validate_ids job_id owner) (\<lambda>_.
       case dget (rs_records s) job_id of
         Some (o', r) \<Rightarrow>
           if terminal r then Inr s
           else Inr (store_record now job_id owner
                      \<lparr>jr_job = job_id, jr_progress = Some p, jr_result = None, jr_updated = now\<rparr> s)
       | None \<Rightarrow> Inr (store_record now job_id owner
                      \<lparr>jr_job = job_id, jr_progress = Some p, jr_result = None, jr_updated = now\<rparr> s))"

definition record_result :: "rat \<Rightarrow> string \<Rightarrow> string \<Rightarrow> presult \<Rightarrow> results \<Rightarrow> results res" where
  "record_result now job_id owner res s =
     bind_res (validate_ids job_id owner) (\<lambda>_.
       Inr (store_record now job_id owner
         \<lparr>jr_job = job_id,
          jr_progress = (case dget (rs_records s) job_id of Some (o', r) \<Rightarrow> jr_progress r | None \<Rightarrow> None),
          jr_result = Some res, jr_updated = now\<rparr> s))"

definition job_not_found :: "string \<Rightarrow> exn" where
  "job_not_found job_id = Stable ''job-not-found'' (''no such job: '' @ job_id)"

definition results_get :: "rat \<Rightarrow> string \<Rightarrow> string \<Rightarrow> results \<Rightarrow> job_record res \<times> results" where
  "results_get now job_id owner s =
     (case validate_ids job_id owner of
        Inl e \<Rightarrow> (Inl e, s)
      | Inr _ \<Rightarrow>
          (let s1 = expire now s
           in (case dget (rs_records s1) job_id of
                 None \<Rightarrow> Inl (job_not_found job_id)
               | Some (o', r) \<Rightarrow> if o' \<noteq> owner then Inl (job_not_found job_id) else Inr r, s1)))"

definition forget :: "string \<Rightarrow> string \<Rightarrow> results \<Rightarrow> bool res \<times> results" where
  "forget job_id owner s =
     (case validate_ids job_id owner of
        Inl e \<Rightarrow> (Inl e, s)
      | Inr _ \<Rightarrow>
          (case dget (rs_records s) job_id of
             None \<Rightarrow> (Inr False, s)
           | Some (o', r) \<Rightarrow>
               if o' \<noteq> owner then (Inr False, s)
               else (Inr True, s\<lparr>rs_records := dpop job_id (rs_records s)\<rparr>)))"

section \<open>The invariant\<close>

definition results_inv :: "results \<Rightarrow> bool" where
  "results_inv s \<longleftrightarrow>
     dict_ok (rs_records s) \<and> 0 < rs_max s \<and> (\<forall>t. rs_ttl s = Some t \<longrightarrow> 0 < t) \<and> length (rs_records s) \<le> rs_max s \<and>
     (\<forall>j o' r. dget (rs_records s) j = Some (o', r) \<longrightarrow> jr_job r = j)"

lemma dict_ok_filter: "dict_ok d \<Longrightarrow> dict_ok (filter P d)"
  by (simp add: dict_ok_def dkeys_def distinct_map_filter)

lemma dget_filter: "dict_ok d \<Longrightarrow> dget (filter P d) k = (case dget d k of None \<Rightarrow> None | Some v \<Rightarrow> if P (k, v) then Some v else None)"
proof (induction d)
  case (Cons p d)
  obtain k' v' where p: "p = (k', v')" by force
  from Cons.prems have "dict_ok d" "k' \<notin> set (dkeys d)" by (simp_all add: p dict_ok_def dkeys_def)
  then have "dget d k' = None" by (simp add: dget_None_iff dhas_def)
  with Cons.IH \<open>dict_ok d\<close> show ?case by (auto simp: p dget_Cons split: option.splits)
qed simp

lemma dict_ok_drop: "dict_ok d \<Longrightarrow> dict_ok (drop n d)"
  by (simp add: dict_ok_def dkeys_def drop_map flip: drop_map)

lemma dget_drop: "dict_ok d \<Longrightarrow> dget (drop n d) k = Some v \<Longrightarrow> dget d k = Some v"
  by (metis dict_ok_drop dget_in_set in_set_dget in_set_dropD)

lemma expire_inv: "results_inv s \<Longrightarrow> results_inv (expire now s)"
  by (auto intro: le_trans [OF length_filter_le] simp: results_inv_def expire_def dict_ok_filter dget_filter split: option.splits if_splits)

lemma expire_dget:
  "results_inv s \<Longrightarrow> dget (rs_records (expire now s)) j =
     (case dget (rs_records s) j of None \<Rightarrow> None
      | Some (o', r) \<Rightarrow> if expired now (rs_ttl s) r then None else Some (o', r))"
  by (auto simp: results_inv_def expire_def dget_filter split: option.splits)

lemma dict_ok_put: "dict_ok d \<Longrightarrow> dict_ok (dpop k d @ [(k, v)])"
proof -
  assume "dict_ok d"
  moreover have "dkeys (dpop k d @ [(k, v)]) = filter (\<lambda>x. x \<noteq> k) (dkeys d) @ [k]"
    using dkeys_dpop [of k d] by (simp add: dkeys_def)
  ultimately show ?thesis by (simp add: dict_ok_def)
qed

lemma store_record_spec:
  assumes inv: "results_inv s" and r: "jr_job r = j"
  shows "results_inv (store_record now j o' r s)"
    and "dget (rs_records (store_record now j o' r s)) j = Some (o', r)"
    and "k \<noteq> j \<Longrightarrow> dget (rs_records (store_record now j o' r s)) k = Some x \<Longrightarrow>
           dget (rs_records (expire now s)) k = Some x"
    and "rs_ttl (store_record now j o' r s) = rs_ttl s"
proof -
  let ?s1 = "expire now s" and ?t = "store_record now j o' r s"
  define rs where "rs = dpop j (rs_records ?s1) @ [(j, (o', r))]"
  have i1: "results_inv ?s1" by (rule expire_inv [OF inv])
  have ok: "dict_ok rs" unfolding rs_def by (rule dict_ok_put) (use i1 in \<open>simp add: results_inv_def\<close>)
  have t: "rs_records ?t = drop (length rs - rs_max s) rs" "rs_max ?t = rs_max s" "rs_ttl ?t = rs_ttl s"
    by (simp_all add: store_record_def Let_def rs_def expire_def)
  show "rs_ttl ?t = rs_ttl s" by (rule t)
  have m: "0 < rs_max s" using inv by (simp add: results_inv_def)
  have "(j, (o', r)) \<in> set (drop (length rs - rs_max s) rs)"
    using m by (auto simp: rs_def)
  then show jt: "dget (rs_records ?t) j = Some (o', r)"
    unfolding t(1) using in_set_dget [OF dict_ok_drop [OF ok]] by blast
  show other: "dget (rs_records ?s1) k = Some x" if "k \<noteq> j" "dget (rs_records ?t) k = Some x" for k x
    using dget_drop [OF ok that(2) [unfolded t(1)]] that(1)
    by (auto simp: rs_def dget_append dget_Cons split: option.splits)
  have "jr_job r' = k" if "dget (rs_records ?t) k = Some (o'', r')" for k o'' r'
    using that jt r other [of k "(o'', r')"] i1 by (cases "k = j") (auto simp: results_inv_def)
  then show "results_inv ?t"
    using inv dict_ok_drop [OF ok] by (auto simp: results_inv_def t)
qed

lemma record_progress_inv: "results_inv s \<Longrightarrow> record_progress now j o' p s = Inr t \<Longrightarrow> results_inv t"
  by (auto simp: record_progress_def bind_res_eq_Inr store_record_spec split: option.splits if_splits)

lemma record_result_inv: "results_inv s \<Longrightarrow> record_result now j o' p s = Inr t \<Longrightarrow> results_inv t"
  by (auto simp: record_result_def bind_res_eq_Inr store_record_spec split: option.splits if_splits)

lemma results_get_inv: "results_inv s \<Longrightarrow> results_inv (snd (results_get now j o' s))"
  by (auto simp: results_get_def Let_def expire_inv split: sum.split)

lemma forget_inv: "results_inv s \<Longrightarrow> results_inv (snd (forget j o' s))"
  by (auto simp: forget_def results_inv_def split: sum.split option.split)
    (metis (no_types, lifting) dpop_def le_trans length_delete_le)

lemma results_init_inv: "results_init m ttl = Inr s \<Longrightarrow> results_inv s"
  by (auto simp: results_init_def results_inv_def split: pyval.splits pyfloat.splits if_splits)

section \<open>The contract of the store\<close>

text \<open>
  What the job service relies on: the invariant is kept, a terminal result recorded for an owner
  is what that owner gets while it has not expired, everyone else is told the job does not
  exist, progress never replaces a terminal result, and other jobs' answers never change except
  to not found.
\<close>

definition valid_ids :: "string \<Rightarrow> string \<Rightarrow> bool" where
  "valid_ids job_id owner = is_ok (validate_ids job_id owner)"

locale job_store =
  fixes progress_op :: "rat \<Rightarrow> string \<Rightarrow> string \<Rightarrow> progress \<Rightarrow> 's \<Rightarrow> 's res"
    and result_op :: "rat \<Rightarrow> string \<Rightarrow> string \<Rightarrow> presult \<Rightarrow> 's \<Rightarrow> 's res"
    and get_op :: "rat \<Rightarrow> string \<Rightarrow> string \<Rightarrow> 's \<Rightarrow> job_record res \<times> 's"
    and inv :: "'s \<Rightarrow> bool"
  assumes inv_progress: "inv s \<Longrightarrow> progress_op now j ow p s = Inr t \<Longrightarrow> inv t"
    and inv_result: "inv s \<Longrightarrow> result_op now j ow r s = Inr t \<Longrightarrow> inv t"
    and inv_get: "inv s \<Longrightarrow> inv (snd (get_op now j ow s))"
    and result_total: "valid_ids j ow \<Longrightarrow> \<exists>t. result_op now j ow r s = Inr t"
    and progress_total: "valid_ids j ow \<Longrightarrow> \<exists>t. progress_op now j ow p s = Inr t"
    and result_visible: "inv s \<Longrightarrow> result_op now j ow r s = Inr t \<Longrightarrow>
          \<exists>rec. fst (get_op now j ow t) = Inr rec \<and> jr_result rec = Some r \<and> jr_job rec = j"
    and result_private: "inv s \<Longrightarrow> result_op now j ow r s = Inr t \<Longrightarrow> ow' \<noteq> ow \<Longrightarrow> valid_ids j ow' \<Longrightarrow>
          fst (get_op now' j ow' t) = Inl (job_not_found j)"
    and progress_keeps_result: "inv s \<Longrightarrow> fst (get_op now j ow s) = Inr rec \<Longrightarrow> jr_result rec = Some r \<Longrightarrow>
          progress_op now j ow p s = Inr t \<Longrightarrow> fst (get_op now j ow t) = Inr rec"
begin

text \<open>A result stays what it is through any number of late progress reports.\<close>

fun reports :: "rat \<Rightarrow> string \<Rightarrow> string \<Rightarrow> progress list \<Rightarrow> 's \<Rightarrow> 's res" where
  "reports now j ow [] s = Inr s"
| "reports now j ow (p # ps) s = bind_res (progress_op now j ow p s) (reports now j ow ps)"

lemma result_final:
  assumes "inv s" "result_op now j ow r s = Inr t" "reports now j ow ps t = Inr u"
  shows "\<exists>rec. fst (get_op now j ow u) = Inr rec \<and> jr_result rec = Some r"
proof -
  from result_visible [OF assms(1,2)] obtain rec where
    rec: "fst (get_op now j ow t) = Inr rec" "jr_result rec = Some r" by blast
  from inv_result [OF assms(1,2)] rec(1) assms(3) have "fst (get_op now j ow u) = Inr rec"
  proof (induction ps arbitrary: t)
    case (Cons p ps)
    then obtain t' where "progress_op now j ow p t = Inr t'" "reports now j ow ps t' = Inr u"
      by (auto simp: bind_res_eq_Inr)
    with Cons show ?case using inv_progress progress_keeps_result rec(2) by metis
  qed simp
  with rec(2) show ?thesis by blast
qed

end

lemma not_expired_now: "results_inv s \<Longrightarrow> \<not> expired now (rs_ttl s) (r\<lparr>jr_updated := now\<rparr>)"
  by (auto simp: expired_def results_inv_def split: option.splits)

lemma record_result_eq:
  assumes "results_inv s" "record_result now j ow res s = Inr t"
  shows "\<exists>r. dget (rs_records t) j = Some (ow, r) \<and> jr_result r = Some res \<and> jr_job r = j \<and> jr_updated r = now"
    and "rs_ttl t = rs_ttl s"
  using assms by (auto simp: record_result_def bind_res_eq_Inr store_record_spec)

lemma results_get_eq:
  assumes "results_inv s" "valid_ids j ow"
  shows "fst (results_get now j ow s) =
     (case dget (rs_records s) j of
        Some (o', r) \<Rightarrow> if o' = ow \<and> \<not> expired now (rs_ttl s) r then Inr r else Inl (job_not_found j)
      | None \<Rightarrow> Inl (job_not_found j))"
  using assms by (auto simp: results_get_def valid_ids_def is_ok_iff Let_def expire_dget split: option.splits)

lemma recorded_valid: "record_result now j ow res s = Inr t \<Longrightarrow> valid_ids j ow"
  by (auto simp: record_result_def bind_res_eq_Inr valid_ids_def)

interpretation jrs: job_store record_progress record_result results_get results_inv
proof (unfold_locales, goal_cases)
  case (6 s now j ow r t)
  from record_result_eq [OF 6] obtain rc where
    "dget (rs_records t) j = Some (ow, rc)" "jr_result rc = Some r" "jr_job rc = j" "jr_updated rc = now" "rs_ttl t = rs_ttl s"
    by blast
  moreover from this have "\<not> expired now (rs_ttl t) rc"
    using 6(1) by (auto simp: expired_def results_inv_def split: option.splits)
  ultimately show ?case
    using results_get_eq [OF record_result_inv [OF 6] recorded_valid [OF 6(2)]] by auto
next
  case (7 s now j ow r t ow' now')
  from record_result_eq [OF 7(1,2)] results_get_eq [OF record_result_inv [OF 7(1,2)] 7(4)] 7(3)
  show ?case by auto
next
  case (8 s now j ow rec r p t)
  then have v: "valid_ids j ow"
    by (auto simp: record_progress_def bind_res_eq_Inr valid_ids_def)
  from results_get_eq [OF 8(1) v, of now] 8 have "\<exists>o'. dget (rs_records s) j = Some (o', rec)"
    by (auto split: option.splits if_splits)
  with 8 have "t = s" by (auto simp: record_progress_def bind_res_eq_Inr terminal_def)
  with 8 show ?case by simp
qed (auto intro: record_progress_inv record_result_inv results_get_inv
    simp: valid_ids_def is_ok_iff record_result_def record_progress_def split: option.split)

section \<open>Properties\<close>

inductive results_reachable :: "results \<Rightarrow> bool" where
  init: "results_init m ttl = Inr s \<Longrightarrow> results_reachable s"
| progress: "results_reachable s \<Longrightarrow> record_progress now j ow p s = Inr t \<Longrightarrow> results_reachable t"
| result: "results_reachable s \<Longrightarrow> record_result now j ow r s = Inr t \<Longrightarrow> results_reachable t"
| get: "results_reachable s \<Longrightarrow> results_reachable (snd (results_get now j ow s))"
| forget: "results_reachable s \<Longrightarrow> results_reachable (snd (forget j ow s))"
| len: "results_reachable s \<Longrightarrow> results_reachable (snd (results_len now s))"

lemma results_reachable_inv: "results_reachable s \<Longrightarrow> results_inv s"
  by (induction rule: results_reachable.induct)
    (auto intro: results_init_inv record_progress_inv record_result_inv results_get_inv forget_inv
      simp: results_len_def expire_inv)

text \<open>Progress reported after the fact, one report after another.\<close>

fun late_reports :: "rat \<Rightarrow> string \<Rightarrow> string \<Rightarrow> progress list \<Rightarrow> results \<Rightarrow> results res" where
  "late_reports now j ow [] s = Inr s"
| "late_reports now j ow (p # ps) s = bind_res (record_progress now j ow p s) (late_reports now j ow ps)"

lemma late_reports_eq: "late_reports now j ow ps s = jrs.reports now j ow ps s"
  by (induction ps arbitrary: s) (simp_all add: bind_res_def split: sum.split)

text \<open>C8. The result store is bounded and private: starting from a valid configuration, every
  operation keeps at most the configured number of records, one per job, and a query about a
  job answers exactly the same not-found refusal whether the job never existed, has expired or
  belongs to someone else; only the owner of an unexpired record gets it.\<close>

theorem results_bounded_private:
  assumes "results_reachable s" "valid_ids j ow"
  shows "length (rs_records s) \<le> rs_max s \<and> distinct (dkeys (rs_records s)) \<and>
     fst (results_get now j ow s) =
       (if \<exists>r. dget (rs_records s) j = Some (ow, r) \<and> \<not> expired now (rs_ttl s) r
        then Inr (snd (the (dget (rs_records s) j))) else Inl (job_not_found j))"
  using results_reachable_inv [OF assms(1)] results_get_eq [OF _ assms(2), of s now]
  by (auto simp: results_inv_def dict_ok_def split: option.splits)

text \<open>A terminal result is final: once recorded, its owner reads exactly that result back,
  however many late progress reports arrive in between, and any other caller is refused as if
  the job did not exist.\<close>

theorem job_result_final:
  assumes "results_reachable s" "record_result now j ow r s = Inr t" "late_reports now j ow ps t = Inr u"
  shows "(\<exists>rec. fst (results_get now j ow u) = Inr rec \<and> jr_result rec = Some r) \<and>
     (\<forall>ow' now'. ow' \<noteq> ow \<longrightarrow> valid_ids j ow' \<longrightarrow> fst (results_get now' j ow' t) = Inl (job_not_found j))"
  using jrs.result_final [OF results_reachable_inv [OF assms(1)] assms(2) assms(3) [unfolded late_reports_eq]]
    jrs.result_private [OF results_reachable_inv [OF assms(1)] assms(2)] by blast

section \<open>Witnesses\<close>

definition demo_results :: results where
  "demo_results = \<lparr>rs_max = 2, rs_ttl = Some 900, rs_records = []\<rparr>"

definition demo_result :: presult where
  "demo_result = \<lparr>pr_job = ''j1'', pr_status = SUCCEEDED, pr_output = PDict [], pr_detail = ''done'', pr_at = 5\<rparr>"

definition demo_progress :: progress where
  "demo_progress = \<lparr>pg_job = ''j1'', pg_stage = ''late'', pg_fraction = 1, pg_detail = ''late'', pg_at = 6\<rparr>"

definition demo_recorded :: results where
  "demo_recorded = (case record_result 10 ''j1'' ''alice'' demo_result demo_results of Inr t \<Rightarrow> t | Inl e \<Rightarrow> demo_results)"

lemma demo_results_reachable: "results_reachable demo_results"
  by (rule results_reachable.init [of "PInt 2" "PInt 900"])
    (simp add: results_init_def demo_results_def MAX_RETAINED_JOBS_LIMIT_def)

lemma demo_recorded_eq: "record_result 10 ''j1'' ''alice'' demo_result demo_results = Inr demo_recorded"
  by (simp add: demo_recorded_def record_result_def validate_ids_def)

theorem results_bounded_private_witness:
  "valid_ids ''j1'' ''bob'' \<and> fst (results_get 11 ''j1'' ''bob'' demo_recorded) = Inl (job_not_found ''j1'')"
proof -
  have v: "valid_ids ''j1'' ''bob''" by (simp add: valid_ids_def validate_ids_def)
  have "rs_records demo_recorded = [(''j1'', (''alice'', \<lparr>jr_job = ''j1'', jr_progress = None,
      jr_result = Some demo_result, jr_updated = 10\<rparr>))]" by code_simp
  with results_bounded_private [OF results_reachable.result [OF demo_results_reachable demo_recorded_eq] v, of 11] v
  show ?thesis by (simp add: dget_def)
qed

theorem job_result_final_witness:
  "\<exists>u. late_reports 10 ''j1'' ''alice'' [demo_progress] demo_recorded = Inr u \<and>
     (\<exists>rec. fst (results_get 10 ''j1'' ''alice'' u) = Inr rec \<and> jr_result rec = Some demo_result)"
proof -
  have "is_ok (late_reports 10 ''j1'' ''alice'' [demo_progress] demo_recorded)" by code_simp
  then obtain u where u: "late_reports 10 ''j1'' ''alice'' [demo_progress] demo_recorded = Inr u"
    unfolding is_ok_iff by blast
  with job_result_final [OF demo_results_reachable demo_recorded_eq u] show ?thesis by blast
qed

end
