(* ===== verification/Job_Lifecycle.thy ===== *)
theory Job_Lifecycle
  imports Job_Results
begin

text \<open>
  \<^verbatim>\<open>src/omnitensor/job_lifecycle.py\<close> with the wire codec \<^verbatim>\<open>job_codec.py\<close> and the code check of
  \<^verbatim>\<open>job_ports.py\<close>: submission, cancellation, completion and retrieval of jobs.  What the sources
  call from outside is an argument: the JSON parser and printer and the schema validator are
  the record \<open>codec\<close>, and what the authorizer, the admission check, the dispatcher, the
  identifier factory, the observer and the clocks answer during one call is the record \<open>env\<close>.
  Replies are JSON documents.  A task is a number whose outcome is in \<open>sv_tasks\<close>; cancelling it
  is a request the task may still outrun, and its completion callback runs later, once.
\<close>

section \<open>The codec\<close>

text \<open>
  \<open>utf8_size\<close> is None for a text that cannot be encoded, \<open>loads\<close> for one that is not JSON;
  \<open>wire\<close> is what the printed document reads back as, None when it cannot be printed.
\<close>

record 't codec =
  utf8_size :: "'t \<Rightarrow> nat option"
  utf8_size_pass :: "'t \<Rightarrow> nat"
  loads :: "'t \<Rightarrow> pyval option"
  violations :: "string \<Rightarrow> pyval \<Rightarrow> string list"
  wire :: "pyval \<Rightarrow> pyval option"

definition JOB_API_VERSION :: int where "JOB_API_VERSION = 1"
definition DEFAULT_MAX_JOB_REQUEST_BYTES :: int where "DEFAULT_MAX_JOB_REQUEST_BYTES = 64 * 1024"
definition MAX_JOB_REQUEST_BYTES_LIMIT :: int where "MAX_JOB_REQUEST_BYTES_LIMIT = 1024 * 1024"
definition ANONYMOUS_OWNER :: string where "ANONYMOUS_OWNER = ''anonymous''"

definition valid_identifier :: "pyval \<Rightarrow> bool" where
  "valid_identifier v =
     (case v of PStr s \<Rightarrow> 1 \<le> length s \<and> length s \<le> 120 \<and>
                  list_all (\<lambda>ch. ascii_alnum ch \<or> ch \<in> set ''._-'') s
      | _ \<Rightarrow> False)"

definition request_id_of :: "pyval \<Rightarrow> string" where
  "request_id_of document =
     (case document of
        PDict d \<Rightarrow> (case dget d ''requestId'' of
                      Some (PStr s) \<Rightarrow> if valid_identifier (PStr s) then s else ''invalid''
                    | _ \<Rightarrow> ''invalid'')
      | _ \<Rightarrow> ''invalid'')"

type_synonym request_error = "string \<times> string \<times> string"

definition parse_request ::
    "'t codec \<Rightarrow> 't \<Rightarrow> string \<Rightarrow> nat \<Rightarrow> request_error + pyval dict" where
  "parse_request c text schema max_bytes =
     (case utf8_size c text of
        None \<Rightarrow> Inl (''invalid'', ''invalid-request'', ''Request is not valid UTF-8 text'')
      | Some n \<Rightarrow>
          if max_bytes < n
          then Inl (''invalid'', ''request-too-large'', ''Request exceeds '' @ nat_str max_bytes @ '' bytes'')
          else (case loads c text of
                  None \<Rightarrow> Inl (''invalid'', ''invalid-json'', ''Request is not valid JSON'')
                | Some document \<Rightarrow>
                    (case document of
                       PDict d \<Rightarrow>
                         if violations c schema document \<noteq> []
                         then Inl (request_id_of document, ''invalid-request'',
                                   ''Request does not match the version 1 contract'')
                         else Inr d
                     | _ \<Rightarrow> Inl (request_id_of document, ''invalid-request'', ''Request must be a JSON object''))))"

definition request_id_from_text :: "'t codec \<Rightarrow> 't \<Rightarrow> nat \<Rightarrow> string" where
  "request_id_from_text c text max_request_bytes =
     (if max_request_bytes < utf8_size_pass c text then ''invalid''
      else case loads c text of None \<Rightarrow> ''invalid'' | Some document \<Rightarrow> request_id_of document)"

text \<open>The stable code of a dispatch refusal: lower-case words joined by single hyphens.\<close>

definition code_char :: "char \<Rightarrow> bool" where
  "code_char ch = (ch \<in> set ''abcdefghijklmnopqrstuvwxyz0123456789-'')"

fun double_hyphen :: "string \<Rightarrow> bool" where
  "double_hyphen (a # b # s) = (a = CHR ''-'' \<and> b = CHR ''-'' \<or> double_hyphen (b # s))"
| "double_hyphen s = False"

definition strip :: "(char \<Rightarrow> bool) \<Rightarrow> string \<Rightarrow> string" where
  "strip P s = rev (dropWhile P (rev (dropWhile P s)))"

definition validate_code :: "pyval \<Rightarrow> unit res" where
  "validate_code v =
     (case v of
        PStr code \<Rightarrow>
          if \<not> (1 \<le> length code \<and> length code \<le> 80) \<or> strip code_char code \<noteq> [] \<or>
             hd code = CHR ''-'' \<or> last code = CHR ''-'' \<or> double_hyphen code
          then Inl ValueError else Inr ()
      | _ \<Rightarrow> Inl ValueError)"

definition opt_str :: "string option \<Rightarrow> pyval" where
  "opt_str x = (case x of None \<Rightarrow> PNone | Some s \<Rightarrow> PStr s)"

definition acknowledgement_reply ::
    "'t codec \<Rightarrow> string \<Rightarrow> string option \<Rightarrow> string \<Rightarrow> string \<Rightarrow> string \<Rightarrow> int \<Rightarrow> pyval res" where
  "acknowledgement_reply c request_id job_id status code message timestamp =
     (let document = PDict [(''version'', PInt JOB_API_VERSION), (''requestId'', PStr request_id),
                            (''jobId'', opt_str job_id), (''status'', PStr status), (''code'', PStr code),
                            (''message'', PStr message), (''timestamp'', PInt timestamp)]
      in if violations c ''runtime-job-acknowledgement.schema.json'' document \<noteq> []
         then Inl (RuntimeError ''job acknowledgement violates contract'')
         else Inr document)"

definition validated_result_reply :: "'t codec \<Rightarrow> pyval \<Rightarrow> pyval res" where
  "validated_result_reply c reply =
     (case wire c reply of
        None \<Rightarrow> Inl (RuntimeError ''job result reply is not valid JSON'')
      | Some document \<Rightarrow>
          if violations c ''runtime-job-result.schema.json'' document \<noteq> []
          then Inl (RuntimeError ''job result reply violates contract'') else Inr document)"

definition result_reply :: "string \<Rightarrow> string \<Rightarrow> string \<Rightarrow> string \<Rightarrow> string \<Rightarrow> int \<Rightarrow> pyval" where
  "result_reply request_id job_id state code message timestamp =
     PDict [(''version'', PInt 1), (''requestId'', PStr request_id),
            (''jobId'', PStr (if job_id = [] then ''unknown'' else job_id)), (''state'', PStr state),
            (''code'', PStr code), (''message'', PStr message), (''timestamp'', PInt timestamp),
            (''progress'', PNone), (''output'', PNone)]"

definition record_reply :: "string \<Rightarrow> job_record \<Rightarrow> int \<Rightarrow> pyval" where
  "record_reply request_id record timestamp =
     (case jr_result record of
        None \<Rightarrow>
          PDict [(''version'', PInt 1), (''requestId'', PStr request_id), (''jobId'', PStr (jr_job record)),
                 (''state'', PStr ''running''), (''code'', PStr ''job-running''),
                 (''message'', PStr (case jr_progress record of Some p \<Rightarrow> pg_detail p | None \<Rightarrow> ''Job is still running'')),
                 (''timestamp'', PInt timestamp),
                 (''progress'', case jr_progress record of None \<Rightarrow> PNone
                    | Some p \<Rightarrow> PDict [(''fraction'', PFloat (Fin (pg_fraction p))), (''detail'', PStr (pg_detail p))]),
                 (''output'', PNone)]
      | Some result \<Rightarrow>
          PDict [(''version'', PInt 1), (''requestId'', PStr request_id), (''jobId'', PStr (jr_job record)),
                 (''state'', PStr (status_str (pr_status result))),
                 (''code'', PStr (''job-'' @ status_str (pr_status result))),
                 (''message'', PStr (if pr_detail result = [] then ''Job finished'' else pr_detail result)),
                 (''timestamp'', PInt timestamp), (''progress'', PNone),
                 (''output'', if is_dict (pr_output result) then pr_output result else PNone)])"

section \<open>The service\<close>

datatype tstate = TRunning | TCancelled | TFailed exn string | TDone pyval

record active =
  ac_workload :: string
  ac_task :: nat
  ac_owner :: string

record service =
  sv_max_active :: nat
  sv_max_bytes :: nat
  sv_active :: "active dict"
  sv_results :: "results option"
  sv_accepting :: bool
  sv_tasks :: "nat \<Rightarrow> tstate"
  sv_next :: nat
  sv_cancels :: "nat list"
  sv_callbacks :: "(string \<times> nat) list"

text \<open>A call of injected code returns, refuses with a \<^verbatim>\<open>JobDispatchError\<close>, or raises something else.\<close>

datatype call = Returned | Refused string string | Raised

record env =
  en_allows :: "string \<Rightarrow> string \<Rightarrow> bool"
  en_admit :: "(string \<Rightarrow> pyval \<Rightarrow> call) option"
  en_dispatch :: "string \<Rightarrow> string \<Rightarrow> pyval \<Rightarrow> call"
  en_id :: "string res"
  en_observer :: bool
  en_ms :: int
  en_now :: rat

definition DEFAULT_MAX_ACTIVE_JOBS :: int where "DEFAULT_MAX_ACTIVE_JOBS = 128"
definition MAX_ACTIVE_JOBS_LIMIT :: int where "MAX_ACTIVE_JOBS_LIMIT = 1024"
definition MAX_JOB_CANCEL_TIMEOUT_SECONDS :: rat where "MAX_JOB_CANCEL_TIMEOUT_SECONDS = 30"

definition validate_integer_bound :: "pyval \<Rightarrow> int \<Rightarrow> int \<Rightarrow> unit res" where
  "validate_integer_bound v minimum maximum =
     (case v of PInt n \<Rightarrow> if minimum \<le> n \<and> n \<le> maximum then Inr () else Inl ValueError | _ \<Rightarrow> Inl ValueError)"

definition valid_timeout :: "pyval \<Rightarrow> bool" where
  "valid_timeout v =
     (case v of PInt n \<Rightarrow> 0 < n \<and> of_int n \<le> MAX_JOB_CANCEL_TIMEOUT_SECONDS
      | PFloat (Fin q) \<Rightarrow> 0 < q \<and> q \<le> MAX_JOB_CANCEL_TIMEOUT_SECONDS
      | _ \<Rightarrow> False)"

definition service_init :: "pyval \<Rightarrow> pyval \<Rightarrow> pyval \<Rightarrow> results option \<Rightarrow> service res" where
  "service_init max_active max_bytes cancel_timeout results =
     bind_res (validate_integer_bound max_active 1 MAX_ACTIVE_JOBS_LIMIT) (\<lambda>_.
     bind_res (validate_integer_bound max_bytes 1 MAX_JOB_REQUEST_BYTES_LIMIT) (\<lambda>_.
       if \<not> valid_timeout cancel_timeout then Inl ValueError
       else (case (max_active, max_bytes) of
               (PInt a, PInt b) \<Rightarrow>
                 Inr \<lparr>sv_max_active = nat a, sv_max_bytes = nat b, sv_active = [], sv_results = results,
                      sv_accepting = True, sv_tasks = (\<lambda>_. TRunning), sv_next = 0, sv_cancels = [],
                      sv_callbacks = []\<rparr>
             | _ \<Rightarrow> Inl ValueError)))"

definition clamped :: "pyval \<Rightarrow> rat" where
  "clamped fraction =
     (case fraction of
        PInt n \<Rightarrow> min (max (of_int n) 0) 1
      | PFloat (Fin q) \<Rightarrow> min (max q 0) 1
      | _ \<Rightarrow> 0)"

definition note_progress :: "rat \<Rightarrow> int \<Rightarrow> string \<Rightarrow> string \<Rightarrow> pyval \<Rightarrow> string \<Rightarrow> service \<Rightarrow> service" where
  "note_progress now ms job_id stage fraction detail s =
     (case (dget (sv_active s) job_id, sv_results s) of
        (Some a, Some rs) \<Rightarrow>
          (case record_progress now job_id (ac_owner a)
                  \<lparr>pg_job = job_id, pg_stage = stage, pg_fraction = clamped fraction,
                   pg_detail = detail, pg_at = ms\<rparr> rs of
             Inl _ \<Rightarrow> s
           | Inr rs' \<Rightarrow> s\<lparr>sv_results := Some rs'\<rparr>)
      | _ \<Rightarrow> s)"

definition reply_ms :: "env \<Rightarrow> int" where
  "reply_ms e = max 1 (en_ms e)"

definition reply ::
    "'t codec \<Rightarrow> env \<Rightarrow> string \<Rightarrow> string option \<Rightarrow> string \<Rightarrow> string \<Rightarrow> string \<Rightarrow> pyval res" where
  "reply c e request_id job_id status code message =
     acknowledgement_reply c request_id job_id status code message (reply_ms e)"

text \<open>
  \<^verbatim>\<open>_begin_job\<close>: the task and its callback are registered before the observer is told; an
  observer that fails is logged, and then no queued progress is recorded.
\<close>

datatype 'a begun = Begun 'a | BRefused string string | BRaised

definition begin_job :: "env \<Rightarrow> string \<Rightarrow> pyval \<Rightarrow> string \<Rightarrow> service \<Rightarrow> (string \<times> service) begun" where
  "begin_job e workload_id payload owner s =
     (case en_id e of
        Inl _ \<Rightarrow> BRaised
      | Inr job_id \<Rightarrow>
          if \<not> valid_identifier (PStr job_id) \<or> dhas (sv_active s) job_id then BRaised
          else (case en_dispatch e job_id workload_id payload of
                  Refused code message \<Rightarrow> BRefused code message
                | Raised \<Rightarrow> BRaised
                | Returned \<Rightarrow>
                    (let task = sv_next s;
                         s1 = s\<lparr>sv_active := dset job_id \<lparr>ac_workload = workload_id, ac_task = task, ac_owner = owner\<rparr>
                                  (sv_active s),
                                sv_next := Suc task, sv_tasks := (sv_tasks s)(task := TRunning),
                                sv_callbacks := sv_callbacks s @ [(job_id, task)]\<rparr>;
                         s2 = (if en_observer e
                               then note_progress (en_now e) (en_ms e) job_id ''queued'' (PFloat (Fin 0))
                                      ''Job accepted and queued'' s1
                               else s1)
                     in Begun (job_id, s2))))"

definition abandon_job :: "string option \<Rightarrow> service \<Rightarrow> service" where
  "abandon_job job_id s =
     (case job_id of None \<Rightarrow> s
      | Some j \<Rightarrow> (case dget (sv_active s) j of
                     None \<Rightarrow> s
                   | Some a \<Rightarrow> s\<lparr>sv_active := dpop j (sv_active s), sv_cancels := sv_cancels s @ [ac_task a]\<rparr>))"

definition STOPPING_MESSAGE :: string where
  "STOPPING_MESSAGE = ''The runtime is shutting down; the job was not started''"

definition internal_error :: "'t codec \<Rightarrow> env \<Rightarrow> 't \<Rightarrow> string \<Rightarrow> service \<Rightarrow> pyval res" where
  "internal_error c e text message s =
     reply c e (request_id_from_text c text (sv_max_bytes s)) None ''rejected'' ''internal-error'' message"

definition submit_message :: string where
  "submit_message = ''Internal error while submitting the job''"

text \<open>
  The schemas make the identifiers of a request strings; a document without one of its fields
  raises a \<^verbatim>\<open>KeyError\<close>.  A reply inside the \<^verbatim>\<open>try\<close> that violates its own contract raises, and is caught by the last
  handler, which abandons a job already begun and answers again.
\<close>

definition contained :: "'t codec \<Rightarrow> env \<Rightarrow> 't \<Rightarrow> string option \<Rightarrow> pyval res \<Rightarrow> service \<Rightarrow> pyval res \<times> service" where
  "contained c e text started r s =
     (case r of Inr document \<Rightarrow> (Inr document, s)
      | Inl _ \<Rightarrow> (let s1 = abandon_job started s in (internal_error c e text submit_message s1, s1)))"

definition submit_job_text :: "'t codec \<Rightarrow> env \<Rightarrow> 't \<Rightarrow> string \<Rightarrow> service \<Rightarrow> pyval res \<times> service" where
  "submit_job_text c e text owner s =
     (case parse_request c text ''runtime-job-submit.schema.json'' (sv_max_bytes s) of
        Inl (rid, code, message) \<Rightarrow> (reply c e rid None ''rejected'' code message, s)
      | Inr d \<Rightarrow>
          (case (dget d ''requestId'', dget d ''workloadId'', dget d ''payload'') of
             (Some (PStr rid), Some (PStr workload_id), Some payload) \<Rightarrow>
               if \<not> sv_accepting s
               then contained c e text None (reply c e rid None ''rejected'' ''service-stopping'' STOPPING_MESSAGE) s
               else if \<not> en_allows e ''submit'' workload_id
               then contained c e text None (reply c e rid None ''rejected'' ''not-authorized''
                      ''Job submission is not authorized for this workload'') s
               else if sv_max_active s \<le> length (sv_active s)
               then contained c e text None (reply c e rid None ''rejected'' ''capacity-exceeded''
                      ''Active job capacity is exhausted'') s
               else (case (case en_admit e of None \<Rightarrow> Returned | Some admit \<Rightarrow> admit workload_id payload) of
                       Refused code message \<Rightarrow>
                         (reply c e (request_id_from_text c text (sv_max_bytes s)) None ''rejected'' code message, s)
                     | Raised \<Rightarrow> (internal_error c e text submit_message s, s)
                     | Returned \<Rightarrow>
                         (case begin_job e workload_id payload owner s of
                            BRefused code message \<Rightarrow>
                              (reply c e (request_id_from_text c text (sv_max_bytes s)) None ''rejected'' code message, s)
                          | BRaised \<Rightarrow> (internal_error c e text submit_message s, s)
                          | Begun (job_id, s1) \<Rightarrow>
                              contained c e text (Some job_id)
                                (reply c e rid (Some job_id) ''accepted'' ''job-accepted'' ''Job accepted'') s1))
           | _ \<Rightarrow> (internal_error c e text submit_message s, s)))"

text \<open>
  Cancellation, up to the wait for the task and after it.  \<open>CWait\<close> is the suspended handler.
\<close>

datatype cancel = CReply "pyval res" | CWait string string nat

definition cancel_message :: string where
  "cancel_message = ''Internal error while cancelling the job''"

definition contained_cancel :: "'t codec \<Rightarrow> env \<Rightarrow> 't \<Rightarrow> service \<Rightarrow> pyval res \<Rightarrow> pyval res" where
  "contained_cancel c e text s r =
     (case r of Inr document \<Rightarrow> Inr document | Inl _ \<Rightarrow> internal_error c e text cancel_message s)"

definition cancel_begin :: "'t codec \<Rightarrow> env \<Rightarrow> 't \<Rightarrow> string \<Rightarrow> service \<Rightarrow> cancel \<times> service" where
  "cancel_begin c e text owner s =
     (case parse_request c text ''runtime-job-cancel.schema.json'' (sv_max_bytes s) of
        Inl (rid, code, message) \<Rightarrow> (CReply (reply c e rid None ''rejected'' code message), s)
      | Inr d \<Rightarrow>
          (case (dget d ''requestId'', dget d ''jobId'') of
             (Some (PStr rid), Some (PStr job_id)) \<Rightarrow>
               (let not_found = (CReply (contained_cancel c e text s
                      (reply c e rid (Some job_id) ''not-found'' ''job-not-found'' ''Active job was not found'')), s)
                in case dget (sv_active s) job_id of
                     None \<Rightarrow> not_found
                   | Some a \<Rightarrow>
                       if ac_owner a \<noteq> owner then not_found
                       else if \<not> en_allows e ''cancel'' (ac_workload a)
                       then (CReply (contained_cancel c e text s (reply c e rid (Some job_id) ''rejected'' ''not-authorized''
                               ''Job cancellation is not authorized for this workload'')), s)
                       else (CWait rid job_id (ac_task a), s\<lparr>sv_cancels := sv_cancels s @ [ac_task a]\<rparr>))
           | _ \<Rightarrow> (CReply (internal_error c e text cancel_message s), s)))"

definition settled_outcome :: "tstate \<Rightarrow> string \<times> string \<times> string" where
  "settled_outcome t =
     (case t of
        TCancelled \<Rightarrow> (''cancelled'', ''job-cancelled'', ''Job cancelled'')
      | TFailed _ _ \<Rightarrow> (''rejected'', ''job-already-failed'', ''Job had already failed when cancellation arrived'')
      | _ \<Rightarrow> (''rejected'', ''job-already-completed'', ''Job had already completed when cancellation arrived''))"

definition cancel_finish :: "'t codec \<Rightarrow> env \<Rightarrow> 't \<Rightarrow> string \<Rightarrow> string \<Rightarrow> nat \<Rightarrow> service \<Rightarrow> pyval res" where
  "cancel_finish c e text rid job_id task s =
     contained_cancel c e text s
       (if sv_tasks s task = TRunning
        then reply c e rid (Some job_id) ''rejected'' ''cancel-timeout'' ''Job did not stop within the cancellation deadline''
        else case settled_outcome (sv_tasks s task) of
               (status, code, message) \<Rightarrow> reply c e rid (Some job_id) status code message)"

definition service_start :: "service \<Rightarrow> service" where
  "service_start s = s\<lparr>sv_accepting := True\<rparr>"

definition service_stop :: "service \<Rightarrow> service" where
  "service_stop s = s\<lparr>sv_accepting := False, sv_cancels := sv_cancels s @ map ac_task (dvals (sv_active s))\<rparr>"

definition terminal_status :: "tstate \<Rightarrow> result_status \<times> string" where
  "terminal_status t =
     (case t of
        TCancelled \<Rightarrow> (CANCELLED, ''Job cancelled'')
      | TFailed (Stable code detail) m \<Rightarrow> (FAILED, m)
      | TFailed err m \<Rightarrow> (FAILED, exn_name err @ '': '' @ m)
      | _ \<Rightarrow> (SUCCEEDED, ''Job completed''))"

definition task_output :: "tstate \<Rightarrow> pyval" where
  "task_output t = (case t of TDone v \<Rightarrow> if is_dict v then v else PDict [(''value'', v)] | _ \<Rightarrow> PDict [])"

text \<open>\<^verbatim>\<open>_record_outcome\<close>; \<open>finished\<close> says whether the observer's \<^verbatim>\<open>job_finished\<close> returns.\<close>

definition record_outcome ::
    "bool \<Rightarrow> rat \<Rightarrow> int \<Rightarrow> string \<Rightarrow> string \<Rightarrow> nat \<Rightarrow> service \<Rightarrow> service res" where
  "record_outcome finished now ms job_id owner task s =
     (if \<not> finished then Inl (RuntimeError ''observer'')
      else case sv_results s of
             None \<Rightarrow> Inr s
           | Some rs \<Rightarrow>
               (case terminal_status (sv_tasks s task) of
                  (status, detail) \<Rightarrow>
                    map_res (\<lambda>rs'. s\<lparr>sv_results := Some rs'\<rparr>)
                      (record_result now job_id owner
                         \<lparr>pr_job = job_id, pr_status = status, pr_output = task_output (sv_tasks s task),
                          pr_detail = detail, pr_at = ms\<rparr> rs)))"

definition job_completed :: "bool \<Rightarrow> rat \<Rightarrow> int \<Rightarrow> string \<Rightarrow> nat \<Rightarrow> service \<Rightarrow> service" where
  "job_completed finished now ms job_id task s0 =
     (let s = s0\<lparr>sv_callbacks := remove1 (job_id, task) (sv_callbacks s0)\<rparr>;
          a = dget (sv_active s) job_id;
          owner = (case a of Some x \<Rightarrow> ac_owner x | None \<Rightarrow> ANONYMOUS_OWNER)
      in case record_outcome finished now ms job_id owner task s of
           Inl _ \<Rightarrow> s
         | Inr s1 \<Rightarrow>
             (case a of
                Some x \<Rightarrow> if ac_task x = task then s1\<lparr>sv_active := dpop job_id (sv_active s1)\<rparr> else s1
              | None \<Rightarrow> s1))"

definition lookup_job :: "rat \<Rightarrow> string \<Rightarrow> string \<Rightarrow> service \<Rightarrow> job_record option \<times> service" where
  "lookup_job now job_id owner s =
     (if job_id = [] then (None, s)
      else let (found, s1) =
                 (case sv_results s of
                    None \<Rightarrow> (None, s)
                  | Some rs \<Rightarrow>
                      (case results_get now job_id owner rs of
                         (Inl _, rs') \<Rightarrow> (None, s\<lparr>sv_results := Some rs'\<rparr>)
                       | (Inr r, rs') \<Rightarrow> (Some r, s\<lparr>sv_results := Some rs'\<rparr>)))
           in case found of
                Some r \<Rightarrow> (Some r, s1)
              | None \<Rightarrow>
                  (case dget (sv_active s1) job_id of
                     None \<Rightarrow> (None, s1)
                   | Some a \<Rightarrow>
                       if ac_owner a \<noteq> owner then (None, s1)
                       else (Some \<lparr>jr_job = job_id, jr_progress = None, jr_result = None, jr_updated = 0\<rparr>, s1)))"

definition job_result_text :: "'t codec \<Rightarrow> env \<Rightarrow> 't \<Rightarrow> string \<Rightarrow> service \<Rightarrow> pyval res \<times> service" where
  "job_result_text c e text owner s =
     (case parse_request c text ''runtime-job-result-request.schema.json'' (sv_max_bytes s) of
        Inl (rid, code, message) \<Rightarrow>
          (validated_result_reply c (result_reply rid ''unknown'' ''unknown'' code message (reply_ms e)), s)
      | Inr d \<Rightarrow>
          (case (dget d ''requestId'', dget d ''jobId'') of
             (Some (PStr rid), Some (PStr job_id)) \<Rightarrow>
               (case lookup_job (en_now e) job_id owner s of
                  (None, s1) \<Rightarrow>
                    (validated_result_reply c (result_reply rid job_id ''unknown'' ''job-not-found''
                       ''No such job for this caller'' (reply_ms e)), s1)
                | (Some r, s1) \<Rightarrow>
                    (case validated_result_reply c (record_reply rid r (reply_ms e)) of
                       Inr document \<Rightarrow> (Inr document, s1)
                     | Inl _ \<Rightarrow>
                         (validated_result_reply c (result_reply rid job_id ''failed'' ''job-result-invalid''
                            ''Stored job result is invalid'' (reply_ms e)), s1)))
           | _ \<Rightarrow> (Inl KeyError, s)))"

section \<open>Interleaving\<close>

text \<open>
  The event loop runs handlers up to their awaits; a task settles at any time, and the callback
  of a settled task runs some time later.  \<open>ok\<close> says whether the observers return normally
  when a job finishes.
\<close>

definition valid_owner :: "string \<Rightarrow> bool" where
  "valid_owner ow \<longleftrightarrow> ow \<noteq> [] \<and> length ow \<le> 200"

inductive service_step :: "'t codec \<Rightarrow> bool \<Rightarrow> service \<Rightarrow> service \<Rightarrow> bool" for c ok where
  submit: "valid_owner ow \<Longrightarrow> service_step c ok s (snd (submit_job_text c e text ow s))"
| cancel: "service_step c ok s (snd (cancel_begin c e text ow s))"
| query: "service_step c ok s (snd (job_result_text c e text ow s))"
| progress: "service_step c ok s (note_progress now ms j stage fraction detail s)"
| settles: "sv_tasks s t = TRunning \<Longrightarrow> service_step c ok s (s\<lparr>sv_tasks := (sv_tasks s)(t := v)\<rparr>)"
| callback: "(j, t) \<in> set (sv_callbacks s) \<Longrightarrow> sv_tasks s t \<noteq> TRunning \<Longrightarrow>
     service_step c ok s (job_completed ok now ms j t s)"
| stop: "service_step c ok s (service_stop s)"
| start: "service_step c ok s (service_start s)"

inductive service_reachable :: "'t codec \<Rightarrow> bool \<Rightarrow> service \<Rightarrow> bool" for c ok where
  init: "(\<forall>r. rs = Some r \<longrightarrow> results_inv r) \<Longrightarrow> service_init a b tm rs = Inr s \<Longrightarrow> service_reachable c ok s"
| step: "service_reachable c ok s \<Longrightarrow> service_step c ok s t \<Longrightarrow> service_reachable c ok t"

section \<open>Submission\<close>

definition reply_field :: "string \<Rightarrow> pyval \<Rightarrow> pyval option" where
  "reply_field k doc = (case doc of PDict d \<Rightarrow> dget d k | _ \<Rightarrow> None)"

lemma reply_fields:
  "reply c e rid j status code m = Inr doc \<Longrightarrow>
     reply_field ''status'' doc = Some (PStr status) \<and> reply_field ''jobId'' doc = Some (opt_str j) \<and>
     reply_field ''code'' doc = Some (PStr code)"
  by (auto simp: reply_def acknowledgement_reply_def Let_def reply_field_def dget_def split: if_splits)

lemma contained_none: "contained c e text None r s = (case r of Inr d \<Rightarrow> Inr d | Inl _ \<Rightarrow> internal_error c e text submit_message s, s)"
  by (simp add: contained_def abandon_job_def split: sum.split)

lemma rejected_reply: "reply c e rid j ''rejected'' code m = Inr doc \<Longrightarrow> reply_field ''status'' doc = Some (PStr ''rejected'')"
  by (simp add: reply_fields)

lemma rejected_internal: "internal_error c e text m s = Inr doc \<Longrightarrow> reply_field ''status'' doc = Some (PStr ''rejected'')"
  by (auto simp: internal_error_def dest: rejected_reply)

lemma submit_shape:
  assumes "submit_job_text c e text ow s = (r, t)"
  shows "t = s \<and> (\<forall>doc. r = Inr doc \<longrightarrow> reply_field ''status'' doc = Some (PStr ''rejected'')) \<or>
    (\<exists>rid w p j s1. sv_accepting s \<and> en_allows e ''submit'' w \<and> length (sv_active s) < sv_max_active s \<and>
       begin_job e w p ow s = Begun (j, s1) \<and>
       (r, t) = contained c e text (Some j) (reply c e rid (Some j) ''accepted'' ''job-accepted'' ''Job accepted'') s1)"
  using assms unfolding submit_job_text_def
  by (auto simp: contained_none not_le dest: rejected_reply rejected_internal
      split: sum.splits prod.splits option.splits pyval.splits if_splits call.splits begun.splits) metis+

lemma note_progress_frame [simp]:
  "sv_active (note_progress now ms j st f d s) = sv_active s" "sv_callbacks (note_progress now ms j st f d s) = sv_callbacks s"
  "sv_next (note_progress now ms j st f d s) = sv_next s" "sv_tasks (note_progress now ms j st f d s) = sv_tasks s"
  "sv_max_active (note_progress now ms j st f d s) = sv_max_active s"
  "sv_cancels (note_progress now ms j st f d s) = sv_cancels s"
  by (simp_all add: note_progress_def split: option.split sum.split)

lemma note_progress_results:
  "\<forall>r. sv_results s = Some r \<longrightarrow> results_inv r \<Longrightarrow> sv_results (note_progress now ms j st f d s) = Some r \<Longrightarrow> results_inv r"
  by (auto simp: note_progress_def intro: record_progress_inv split: option.splits sum.splits)

lemma begin_job_spec:
  assumes "begin_job e w p ow s = Begun (j, s1)"
  shows "valid_identifier (PStr j)" "\<not> dhas (sv_active s) j"
    "sv_active s1 = dset j \<lparr>ac_workload = w, ac_task = sv_next s, ac_owner = ow\<rparr> (sv_active s)"
    "sv_next s1 = Suc (sv_next s)" "sv_callbacks s1 = sv_callbacks s @ [(j, sv_next s)]"
    "sv_max_active s1 = sv_max_active s" "sv_cancels s1 = sv_cancels s"
    "\<forall>r. sv_results s = Some r \<longrightarrow> results_inv r \<Longrightarrow> sv_results s1 = Some r \<Longrightarrow> results_inv r"
  using assms
  by (auto simp: begin_job_def Let_def split: sum.splits if_splits call.splits elim!: note_progress_results [rotated])

lemma dpop_dset_new: "\<not> dhas d k \<Longrightarrow> dpop k (dset k v d) = d"
  by (induction d) (auto simp: dpop_def dset_def dhas_def dkeys_def)

lemma contained_begun:
  assumes b: "begin_job e w p ow s = Begun (j, s1)"
    and r: "(r, t) = contained c e text (Some j) (reply c e rid (Some j) ''accepted'' ''job-accepted'' ''Job accepted'') s1"
  shows "(\<exists>doc. r = Inr doc \<and> reply_field ''status'' doc = Some (PStr ''accepted'') \<and>
            reply_field ''jobId'' doc = Some (PStr j) \<and> t = s1) \<or>
         ((\<forall>doc. r = Inr doc \<longrightarrow> reply_field ''status'' doc = Some (PStr ''rejected'')) \<and>
          t = s1\<lparr>sv_active := sv_active s, sv_cancels := sv_cancels s @ [sv_next s]\<rparr>)"
proof (cases "reply c e rid (Some j) ''accepted'' ''job-accepted'' ''Job accepted''")
  case (Inl x)
  note bs = begin_job_spec [OF b]
  have "abandon_job (Some j) s1 = s1\<lparr>sv_active := sv_active s, sv_cancels := sv_cancels s @ [sv_next s]\<rparr>"
    using bs by (simp add: abandon_job_def dpop_dset_new)
  with r Inl show ?thesis
    by (auto simp: contained_def Let_def internal_error_def dest!: reply_fields)
next
  case (Inr doc)
  with r reply_fields [OF Inr] show ?thesis by (simp add: contained_def opt_str_def)
qed

text \<open>A submission either starts exactly one job or leaves nothing behind: it is answered
  \<^verbatim>\<open>accepted\<close> only by a service that is accepting, for an authorized workload, below the
  capacity, and then the job is registered under a fresh identifier for the submitting owner
  with its completion callback attached; after any other answer, internal errors and refused
  replies included, the table of active jobs is unchanged.\<close>

theorem submit_job_correct:
  assumes "submit_job_text c e text ow s = (r, t)"
  shows "(\<exists>doc j w. r = Inr doc \<and> reply_field ''status'' doc = Some (PStr ''accepted'') \<and>
            reply_field ''jobId'' doc = Some (PStr j) \<and> sv_accepting s \<and> en_allows e ''submit'' w \<and>
            length (sv_active s) < sv_max_active s \<and> \<not> dhas (sv_active s) j \<and>
            sv_active t = dset j \<lparr>ac_workload = w, ac_task = sv_next s, ac_owner = ow\<rparr> (sv_active s) \<and>
            sv_callbacks t = sv_callbacks s @ [(j, sv_next s)]) \<or>
         ((\<forall>doc. r = Inr doc \<longrightarrow> reply_field ''status'' doc = Some (PStr ''rejected'')) \<and> sv_active t = sv_active s)"
proof -
  from submit_shape [OF assms] show ?thesis
  proof (elim disjE exE conjE)
    fix rid w p j s1
    assume a: "sv_accepting s" "en_allows e ''submit'' w" "length (sv_active s) < sv_max_active s"
      and b: "begin_job e w p ow s = Begun (j, s1)"
      and r: "(r, t) = contained c e text (Some j) (reply c e rid (Some j) ''accepted'' ''job-accepted'' ''Job accepted'') s1"
    from contained_begun [OF b r] a begin_job_spec(1-5) [OF b] show ?thesis by auto
  qed simp
qed

section \<open>The invariant\<close>

definition service_inv :: "service \<Rightarrow> bool" where
  "service_inv s \<longleftrightarrow>
     dict_ok (sv_active s) \<and> length (sv_active s) \<le> sv_max_active s \<and>
     (\<forall>j a. dget (sv_active s) j = Some a \<longrightarrow> (j, ac_task a) \<in> set (sv_callbacks s) \<and> valid_owner (ac_owner a)) \<and>
     (\<forall>j t. (j, t) \<in> set (sv_callbacks s) \<longrightarrow> valid_identifier (PStr j) \<and> t < sv_next s) \<and>
     distinct (map snd (sv_callbacks s)) \<and>
     (\<forall>r. sv_results s = Some r \<longrightarrow> results_inv r)"

lemma valid_ids_identifier: "valid_identifier (PStr j) \<Longrightarrow> valid_owner ow \<Longrightarrow> valid_ids j ow"
  by (auto simp: valid_identifier_def valid_owner_def valid_ids_def validate_ids_def)

lemma service_init_inv:
  "\<forall>r. rs = Some r \<longrightarrow> results_inv r \<Longrightarrow> service_init a b tm rs = Inr s \<Longrightarrow> service_inv s"
  by (auto simp: service_init_def service_inv_def bind_res_eq_Inr split: if_splits pyval.splits)

lemma submit_inv: "service_inv s \<Longrightarrow> valid_owner ow \<Longrightarrow> service_inv (snd (submit_job_text c e text ow s))"
proof -
  assume inv: "service_inv s" and ow: "valid_owner ow"
  obtain r t where rt: "submit_job_text c e text ow s = (r, t)" by force
  from submit_shape [OF rt] show ?thesis
  proof (elim disjE exE conjE)
    fix rid w p j s1
    assume l: "length (sv_active s) < sv_max_active s" and b: "begin_job e w p ow s = Begun (j, s1)"
      and r: "(r, t) = contained c e text (Some j) (reply c e rid (Some j) ''accepted'' ''job-accepted'' ''Job accepted'') s1"
    note bs = begin_job_spec [OF b]
    have "(a, sv_next s) \<notin> set (sv_callbacks s)" for a
      using inv unfolding service_inv_def by (meson less_irrefl)
    then have d: "distinct (map snd (sv_callbacks s1))" using inv by (auto simp: service_inv_def bs(5))
    have cb: "valid_identifier (PStr j') \<and> t' < sv_next s1" if "(j', t') \<in> set (sv_callbacks s1)" for j' t'
    proof (cases "(j', t') = (j, sv_next s)")
      case True
      with bs(1,4) show ?thesis by simp
    next
      case False
      with that bs(5) have "(j', t') \<in> set (sv_callbacks s)" by auto
      then have "valid_identifier (PStr j')" "t' < sv_next s" using inv unfolding service_inv_def by blast+
      then show ?thesis using bs(4) by simp
    qed
    have "\<forall>r. sv_results s = Some r \<longrightarrow> results_inv r" using inv by (simp add: service_inv_def)
    from bs(8) [OF this] have res: "\<forall>r. sv_results s1 = Some r \<longrightarrow> results_inv r" by blast
    have old: "dict_ok (sv_active s)" "length (sv_active s) \<le> sv_max_active s"
      "\<And>j a. dget (sv_active s) j = Some a \<Longrightarrow> (j, ac_task a) \<in> set (sv_callbacks s) \<and> valid_owner (ac_owner a)"
      using inv by (simp_all add: service_inv_def)
    have "dict_ok (sv_active s1)" "length (sv_active s1) \<le> sv_max_active s1"
      using old l bs(2) by (simp_all add: bs(3,6) length_dset)
    moreover have "(j', ac_task a) \<in> set (sv_callbacks s1) \<and> valid_owner (ac_owner a)"
      if "dget (sv_active s1) j' = Some a" for j' a
      using that old(3) [of j' a] ow by (auto simp: bs(3,5) split: if_splits)
    ultimately have "service_inv s1"
      unfolding service_inv_def using d cb res by blast
    moreover have "service_inv (s1\<lparr>sv_active := sv_active s, sv_cancels := sv_cancels s @ [sv_next s]\<rparr>)"
      unfolding service_inv_def using old d cb res by (simp add: bs(5,6))
    ultimately show ?thesis using contained_begun [OF b r] rt by auto
  qed (use inv rt in simp)
qed

lemma cancel_inv: "service_inv s \<Longrightarrow> service_inv (snd (cancel_begin c e text ow s))"
  by (simp add: cancel_begin_def Let_def service_inv_def split: sum.split prod.split option.split pyval.split)

lemma lookup_job_frame:
  assumes "lookup_job now j ow s = (x, t)"
  shows "\<exists>rs. t = s\<lparr>sv_results := rs\<rparr> \<and> ((\<forall>r. sv_results s = Some r \<longrightarrow> results_inv r) \<longrightarrow> (\<forall>r. rs = Some r \<longrightarrow> results_inv r))"
proof -
  have "\<exists>rs. snd (lookup_job now j ow s) = s\<lparr>sv_results := rs\<rparr> \<and>
      (rs = sv_results s \<or> (\<exists>r. sv_results s = Some r \<and> rs = Some (snd (results_get now j ow r))))"
    by (auto simp: lookup_job_def Let_def split: option.split prod.split sum.split intro: exI [of _ "sv_results s"])
  then obtain rs where rs: "t = s\<lparr>sv_results := rs\<rparr>"
      "rs = sv_results s \<or> (\<exists>r. sv_results s = Some r \<and> rs = Some (snd (results_get now j ow r)))"
    using assms by auto
  then show ?thesis using results_get_inv by (intro exI [of _ rs]) auto
qed

lemma query_inv: "service_inv s \<Longrightarrow> service_inv (snd (job_result_text c e text ow s))"
proof -
  assume inv: "service_inv s"
  have "service_inv (snd (lookup_job now j ow s))" for now j
    using lookup_job_frame [of now j ow s "fst (lookup_job now j ow s)" "snd (lookup_job now j ow s)"] inv
    by (auto simp: service_inv_def)
  with inv show ?thesis
    by (auto simp: job_result_text_def split: sum.split option.split pyval.split prod.split) (metis snd_conv)+
qed

text \<open>The callback of a settled task frees the slot of its job, if the observer returns.\<close>

definition owner_of :: "string \<Rightarrow> service \<Rightarrow> string" where
  "owner_of j s = (case dget (sv_active s) j of Some x \<Rightarrow> ac_owner x | None \<Rightarrow> ANONYMOUS_OWNER)"

lemma owner_of_valid: "service_inv s \<Longrightarrow> valid_owner (owner_of j s)"
  by (auto simp: owner_of_def service_inv_def valid_owner_def ANONYMOUS_OWNER_def split: option.split)

definition outcome_of :: "string \<Rightarrow> int \<Rightarrow> tstate \<Rightarrow> presult" where
  "outcome_of j ms t = \<lparr>pr_job = j, pr_status = fst (terminal_status t), pr_output = task_output t,
     pr_detail = snd (terminal_status t), pr_at = ms\<rparr>"

lemma job_completed_eq:
  assumes inv: "service_inv s" and cb: "(j, t) \<in> set (sv_callbacks s)"
  shows "\<exists>rs. job_completed True now ms j t s =
       s\<lparr>sv_callbacks := remove1 (j, t) (sv_callbacks s), sv_results := rs,
         sv_active := (case dget (sv_active s) j of Some x \<Rightarrow> if ac_task x = t then dpop j (sv_active s) else sv_active s
                       | None \<Rightarrow> sv_active s)\<rparr> \<and>
     (case sv_results s of None \<Rightarrow> rs = None
      | Some r \<Rightarrow> (\<exists>r'. rs = Some r' \<and> record_result now j (owner_of j s) (outcome_of j ms (sv_tasks s t)) r = Inr r'))"
proof -
  have "valid_ids j (owner_of j s)"
    using inv cb owner_of_valid [OF inv] valid_ids_identifier unfolding service_inv_def by blast
  then have tot: "\<exists>r'. record_result now j (owner_of j s) x r = Inr r'" for x r by (rule jrs.result_total)
  show ?thesis
  proof (cases "sv_results s")
    case None
    then show ?thesis
      by (auto simp: job_completed_def record_outcome_def Let_def intro!: exI [of _ None] split: option.split)
  next
    case (Some r)
    obtain r' where r': "record_result now j (owner_of j s) (outcome_of j ms (sv_tasks s t)) r = Inr r'"
      using tot by blast
    have "record_outcome True now ms j (owner_of j s) t (s\<lparr>sv_callbacks := remove1 (j, t) (sv_callbacks s)\<rparr>) =
        Inr (s\<lparr>sv_callbacks := remove1 (j, t) (sv_callbacks s), sv_results := Some r'\<rparr>)"
      using Some r' by (simp add: record_outcome_def outcome_of_def case_prod_beta)
    then have "job_completed True now ms j t s =
       s\<lparr>sv_callbacks := remove1 (j, t) (sv_callbacks s), sv_results := Some r',
         sv_active := (case dget (sv_active s) j of Some x \<Rightarrow> if ac_task x = t then dpop j (sv_active s) else sv_active s
                       | None \<Rightarrow> sv_active s)\<rparr>"
      by (simp add: job_completed_def Let_def owner_of_def split: option.split)
    with Some r' show ?thesis by auto
  qed
qed

lemma job_completed_inv:
  assumes inv: "service_inv s" and cb: "(j, t) \<in> set (sv_callbacks s)"
  shows "service_inv (job_completed True now ms j t s)"
proof -
  let ?t = "job_completed True now ms j t s"
  obtain rs where eq: "?t = s\<lparr>sv_callbacks := remove1 (j, t) (sv_callbacks s), sv_results := rs,
         sv_active := (case dget (sv_active s) j of Some x \<Rightarrow> if ac_task x = t then dpop j (sv_active s) else sv_active s
                       | None \<Rightarrow> sv_active s)\<rparr>"
    and rs: "case sv_results s of None \<Rightarrow> rs = None
      | Some r \<Rightarrow> (\<exists>r'. rs = Some r' \<and> record_result now j (owner_of j s) (outcome_of j ms (sv_tasks s t)) r = Inr r')"
    using job_completed_eq [OF inv cb] by blast
  have old: "dict_ok (sv_active s)" "length (sv_active s) \<le> sv_max_active s"
      "\<And>j a. dget (sv_active s) j = Some a \<Longrightarrow> (j, ac_task a) \<in> set (sv_callbacks s) \<and> valid_owner (ac_owner a)"
      "\<And>j t. (j, t) \<in> set (sv_callbacks s) \<Longrightarrow> valid_identifier (PStr j) \<and> t < sv_next s"
      "distinct (map snd (sv_callbacks s))" "\<And>r. sv_results s = Some r \<Longrightarrow> results_inv r"
    using inv by (simp_all add: service_inv_def)
  have "dict_ok (sv_active ?t)" using old(1) by (simp add: eq split: option.split)
  moreover have "length (sv_active ?t) \<le> sv_max_active ?t"
    using old(2) length_delete_le [of j "sv_active s"] by (simp add: eq dpop_def split: option.split)
  moreover have "(j', ac_task a) \<in> set (sv_callbacks ?t) \<and> valid_owner (ac_owner a)"
    if a: "dget (sv_active ?t) j' = Some a" for j' a
  proof -
    from a have s: "dget (sv_active s) j' = Some a" by (auto simp: eq split: option.splits if_splits)
    moreover have "(j', ac_task a) \<noteq> (j, t)"
      using a s by (auto simp: eq split: option.splits if_splits)
    ultimately show ?thesis using old(3) [OF s] by (simp add: eq in_set_remove1)
  qed
  moreover have "distinct (map snd (sv_callbacks ?t))"
    using old(5) by (simp add: eq distinct_map distinct_remove1 inj_on_def notin_set_remove1)
  moreover have "\<forall>r. sv_results ?t = Some r \<longrightarrow> results_inv r"
    using rs old(6) record_result_inv by (auto simp: eq split: option.splits)
  moreover have "\<forall>j' t'. (j', t') \<in> set (sv_callbacks ?t) \<longrightarrow> valid_identifier (PStr j') \<and> t' < sv_next ?t"
  proof (intro allI impI)
    fix j' t' assume "(j', t') \<in> set (sv_callbacks ?t)"
    then have "(j', t') \<in> set (sv_callbacks s)" by (simp add: eq) (meson notin_set_remove1)
    then show "valid_identifier (PStr j') \<and> t' < sv_next ?t" using old(4) by (simp add: eq)
  qed
  ultimately show ?thesis unfolding service_inv_def by blast
qed

lemma service_step_inv: "service_step c True s t \<Longrightarrow> service_inv s \<Longrightarrow> service_inv t"
proof (induction rule: service_step.induct)
  case (progress s now ms j stage fraction detail)
  let ?t = "note_progress now ms j stage fraction detail s"
  have "\<forall>r. sv_results s = Some r \<longrightarrow> results_inv r" using progress by (simp add: service_inv_def)
  then have "\<forall>r. sv_results ?t = Some r \<longrightarrow> results_inv r" using note_progress_results by blast
  with progress show ?case unfolding service_inv_def note_progress_frame by blast
qed (auto simp: submit_inv cancel_inv query_inv job_completed_inv, auto simp: service_inv_def service_stop_def service_start_def)

lemma service_reachable_inv: "service_reachable c True s \<Longrightarrow> service_inv s"
  by (induction rule: service_reachable.induct) (auto intro: service_init_inv service_step_inv)

section \<open>Properties\<close>


text \<open>Ownership is flat: to any caller but its owner an active job is as if it did not exist.
  A cancellation by someone else changes nothing and is answered exactly as in the state
  without that job, and so is a query about its result.\<close>

theorem foreign_job_invisible:
  assumes "dget (sv_active s) j = Some a" and "ac_owner a \<noteq> ow"
    and "\<forall>d. loads c text = Some (PDict d) \<longrightarrow> dget d ''jobId'' = Some (PStr j)"
  shows "let s' = s\<lparr>sv_active := dpop j (sv_active s)\<rparr>
     in cancel_begin c e text ow s = (fst (cancel_begin c e text ow s'), s) \<and>
        fst (job_result_text c e text ow s) = fst (job_result_text c e text ow s')"
proof -
  let ?s' = "s\<lparr>sv_active := dpop j (sv_active s)\<rparr>"
  have p: "dget d ''jobId'' = Some (PStr j)" if "parse_request c text sc n = Inr d" for d sc n
    using that assms(3) by (auto simp: parse_request_def split: option.splits if_splits pyval.splits)
  have i: "internal_error c e text m ?s' = internal_error c e text m s" for m
    by (simp add: internal_error_def)
  then have cc: "contained_cancel c e text ?s' r = contained_cancel c e text s r" for r
    by (cases r) (simp_all add: contained_cancel_def)
  have l: "fst (lookup_job now j ow s) = fst (lookup_job now j ow ?s')" for now
    using assms(1,2) by (auto simp: lookup_job_def Let_def split: option.split prod.split sum.split)
  have "cancel_begin c e text ow s = (fst (cancel_begin c e text ow ?s'), s)"
  proof (cases "parse_request c text ''runtime-job-cancel.schema.json'' (sv_max_bytes s)")
    case (Inl x)
    then show ?thesis by (simp add: cancel_begin_def split: prod.split)
  next
    case (Inr d)
    with p [OF Inr] assms(1,2) i cc show ?thesis
      by (simp add: cancel_begin_def Let_def split: option.split pyval.split)
  qed
  moreover have "fst (job_result_text c e text ow s) = fst (job_result_text c e text ow ?s')"
  proof (cases "parse_request c text ''runtime-job-result-request.schema.json'' (sv_max_bytes s)")
    case (Inl x)
    then show ?thesis by (simp add: job_result_text_def split: prod.split)
  next
    case (Inr d)
    obtain r s1 s2 where "lookup_job (en_now e) j ow s = (r, s1)" "lookup_job (en_now e) j ow ?s' = (r, s2)"
      using l [of "en_now e"] by (metis prod.collapse)
    with Inr p [OF Inr] show ?thesis
      by (simp add: job_result_text_def split: sum.split option.split pyval.split)
  qed
  ultimately show ?thesis by (simp add: Let_def)
qed

text \<open>The completion callback is not protected from its observer: when \<^verbatim>\<open>job_finished\<close>
  raises, the callback is spent, the job stays in the table of active jobs with its outcome
  unrecorded, and no later callback will ever remove it, so one unit of capacity is lost.\<close>

theorem failing_observer_leaks_slot:
  assumes "service_inv s" and "dget (sv_active s) j = Some a"
  shows "let t = job_completed False now ms j (ac_task a) s
     in sv_active t = sv_active s \<and> sv_results t = sv_results s \<and>
        (\<forall>t'. (j, t') \<in> set (sv_callbacks t) \<longrightarrow> t' \<noteq> ac_task a)"
proof -
  have cb: "(j, ac_task a) \<in> set (sv_callbacks s)" and d: "distinct (map snd (sv_callbacks s))"
    using assms by (auto simp: service_inv_def)
  then have "(j, ac_task a) \<notin> set (remove1 (j, ac_task a) (sv_callbacks s))"
    by (simp add: distinct_map)
  then show ?thesis by (auto simp: job_completed_def record_outcome_def Let_def)
qed

section \<open>Witnesses\<close>

text \<open>Requests are their own JSON documents; every document is valid and prints as itself.\<close>

definition demo_codec :: "pyval codec" where
  "demo_codec = \<lparr>utf8_size = (\<lambda>_. Some 10), utf8_size_pass = (\<lambda>_. 10), loads = Some,
     violations = (\<lambda>_ _. []), wire = Some\<rparr>"

definition demo_env :: env where
  "demo_env = \<lparr>en_allows = (\<lambda>_ _. True), en_admit = None, en_dispatch = (\<lambda>_ _ _. Returned),
     en_id = Inr ''j1'', en_observer = True, en_ms = 7, en_now = 3\<rparr>"

definition demo_request :: pyval where
  "demo_request = PDict [(''requestId'', PStr ''r1''), (''workloadId'', PStr ''w''), (''payload'', PDict []),
     (''jobId'', PStr ''j1'')]"

definition demo_fresh :: service where
  "demo_fresh = \<lparr>sv_max_active = 2, sv_max_bytes = 64, sv_active = [],
     sv_results = Some \<lparr>rs_max = 2, rs_ttl = Some 900, rs_records = []\<rparr>, sv_accepting = True,
     sv_tasks = (\<lambda>_. TRunning), sv_next = 0, sv_cancels = [], sv_callbacks = []\<rparr>"

definition demo_service :: service where
  "demo_service = snd (submit_job_text demo_codec demo_env demo_request ''alice'' demo_fresh)"

lemma demo_service_reachable: "service_reachable demo_codec True demo_service"
proof -
  have "service_reachable demo_codec True demo_fresh"
    by (rule service_reachable.init [of "Some \<lparr>rs_max = 2, rs_ttl = Some 900, rs_records = []\<rparr>" "PInt 2" "PInt 64" "PInt 2"])
      (simp_all add: results_inv_def service_init_def validate_integer_bound_def valid_timeout_def demo_fresh_def
        MAX_ACTIVE_JOBS_LIMIT_def MAX_JOB_REQUEST_BYTES_LIMIT_def MAX_JOB_CANCEL_TIMEOUT_SECONDS_def)
  then show ?thesis
    unfolding demo_service_def
    by (rule service_reachable.step) (rule service_step.submit, simp add: valid_owner_def)
qed

lemma demo_service_active:
  "sv_active demo_service = [(''j1'', \<lparr>ac_workload = ''w'', ac_task = 0, ac_owner = ''alice''\<rparr>)]"
  by code_simp

lemma demo_service_get:
  "dget (sv_active demo_service) ''j1'' = Some \<lparr>ac_workload = ''w'', ac_task = 0, ac_owner = ''alice''\<rparr>"
  by (simp add: demo_service_active dget_def)

theorem submit_job_correct_witness:
  "\<exists>r. submit_job_text demo_codec demo_env demo_request ''alice'' demo_fresh = (r, demo_service) \<and>
     (\<exists>doc. r = Inr doc \<and> reply_field ''jobId'' doc = Some (PStr ''j1''))"
proof -
  obtain r where r: "submit_job_text demo_codec demo_env demo_request ''alice'' demo_fresh = (r, demo_service)"
    unfolding demo_service_def by (metis prod.collapse)
  have ne: "sv_active demo_service \<noteq> sv_active demo_fresh" by (simp add: demo_service_active demo_fresh_def)
  from submit_job_correct [OF r] ne obtain doc j x where "r = Inr doc" "reply_field ''jobId'' doc = Some (PStr j)"
    "sv_active demo_service = dset j x (sv_active demo_fresh)" by blast
  moreover from this have "j = ''j1''" by (simp add: demo_service_active demo_fresh_def dset_def)
  ultimately show ?thesis using r by blast
qed


theorem foreign_job_invisible_witness:
  "cancel_begin demo_codec demo_env demo_request ''bob'' demo_service =
     (fst (cancel_begin demo_codec demo_env demo_request ''bob'' (demo_service\<lparr>sv_active := []\<rparr>)), demo_service)"
proof -
  have "dpop ''j1'' (sv_active demo_service) = []" by (simp add: demo_service_active dpop_def)
  with foreign_job_invisible [OF demo_service_get, of "''bob''" demo_codec demo_request demo_env]
  show ?thesis by (simp add: Let_def demo_codec_def demo_request_def dget_def)
qed

theorem failing_observer_leaks_slot_witness:
  "sv_active (job_completed False 4 8 ''j1'' 0 demo_service) = sv_active demo_service \<and>
   (''j1'', 0) \<notin> set (sv_callbacks (job_completed False 4 8 ''j1'' 0 demo_service))"
  using failing_observer_leaks_slot [OF service_reachable_inv [OF demo_service_reachable] demo_service_get, of 4 8]
  by (auto simp: Let_def)

end
