(* ===== verification/Policy_State.thy ===== *)
theory Policy_State
  imports OT_Prelude "HOL-Library.List_Lexorder" "HOL-Library.Char_ord"
begin

text \<open>
  \<^verbatim>\<open>src/omnitensor/state.py\<close>: the persistent policy, sanitised on every load.  The file is the
  JSON value it holds, or nothing when it cannot be read or parsed.  The regular expressions
  are written out as predicates on strings.
\<close>

section \<open>Data\<close>

definition MIN_WEIGHT :: int where "MIN_WEIGHT = 1"
definition MAX_WEIGHT :: int where "MAX_WEIGHT = 5"
definition MAX_DEVICE_CHOICES :: nat where "MAX_DEVICE_CHOICES = 128"
definition MAX_MODEL_CHOICES :: nat where "MAX_MODEL_CHOICES = 128"

record policy =
  po_enabled :: bool
  po_weight :: int

record policy_state =
  ps_paused :: bool
  ps_profiles :: "policy dict"
  ps_device_choices :: "string dict"
  ps_model_choices :: "string dict"
  ps_revision :: int

text \<open>\<^verbatim>\<open>[0-9]\<close> and \<^verbatim>\<open>[a-z0-9]\<close>.\<close>

definition is_digit :: "char \<Rightarrow> bool" where
  "is_digit ch = (let n = of_char ch :: nat in 48 \<le> n \<and> n \<le> 57)"

definition is_lower_alnum :: "char \<Rightarrow> bool" where
  "is_lower_alnum ch = (is_digit ch \<or> (let n = of_char ch :: nat in 97 \<le> n \<and> n \<le> 122))"

definition gpu_device_id :: "string \<Rightarrow> bool" where
  "gpu_device_id s =
     (take 11 s = ''gpu-renderD'' \<and> 1 \<le> length (drop 11 s) \<and> length (drop 11 s) \<le> 6 \<and> list_all is_digit (drop 11 s))"

definition model_id :: "string \<Rightarrow> bool" where
  "model_id s = (case s of [] \<Rightarrow> False
     | ch # r \<Rightarrow> is_lower_alnum ch \<and> length r \<le> 63 \<and> list_all (\<lambda>x. is_lower_alnum x \<or> x = CHR ''-'') r)"

definition profile_id :: "string \<Rightarrow> bool" where
  "profile_id s = (case s of [] \<Rightarrow> False
     | ch # r \<Rightarrow> is_lower_alnum ch \<and> length r \<le> 79 \<and> list_all (\<lambda>x. is_lower_alnum x \<or> x \<in> set ''._-'') r)"

definition clamp_weight :: "pyval option \<Rightarrow> int \<Rightarrow> int" where
  "clamp_weight v fallback =
     (case v of Some (PInt n) \<Rightarrow> max MIN_WEIGHT (min MAX_WEIGHT n) | _ \<Rightarrow> fallback)"

definition sanitized_revision :: "pyval option \<Rightarrow> int" where
  "sanitized_revision v = (case v of Some (PInt n) \<Rightarrow> if 0 \<le> n then n else 0 | _ \<Rightarrow> 0)"

text \<open>\<^verbatim>\<open>sorted(d.items())\<close>: keys are unique, so the order is that of the keys.\<close>

definition sorted_items :: "'v dict \<Rightarrow> 'v dict" where
  "sorted_items d = sort_key fst d"

section \<open>Loading and saving\<close>

definition as_dict :: "pyval option \<Rightarrow> pyval dict" where
  "as_dict v = (case v of Some (PDict d) \<Rightarrow> d | _ \<Rightarrow> [])"

definition as_bool :: "pyval option \<Rightarrow> bool \<Rightarrow> bool" where
  "as_bool v fallback = (case v of Some (PBool b) \<Rightarrow> b | _ \<Rightarrow> fallback)"

definition default_profile :: "pyval dict \<Rightarrow> string \<times> policy \<Rightarrow> string \<times> policy" where
  "default_profile supplied = (\<lambda>(i, d).
     let entry = as_dict (dget supplied i)
     in (i, \<lparr>po_enabled = as_bool (dget entry ''enabled'') (po_enabled d),
             po_weight = clamp_weight (dget entry ''weight'') (po_weight d)\<rparr>))"

definition adopt_entry :: "string \<times> pyval \<Rightarrow> policy dict \<Rightarrow> policy dict" where
  "adopt_entry = (\<lambda>(i, entry) profiles.
     if dhas profiles i \<or> \<not> is_dict entry \<or> \<not> profile_id i then profiles
     else let e = as_dict (Some entry)
          in dset i \<lparr>po_enabled = as_bool (dget e ''enabled'') True,
                     po_weight = clamp_weight (dget e ''weight'') MIN_WEIGHT\<rparr> profiles)"

definition adopt_stored_profiles :: "pyval dict \<Rightarrow> policy dict \<Rightarrow> policy dict" where
  "adopt_stored_profiles supplied profiles = fold adopt_entry (sorted_items supplied) profiles"

fun choose_strings :: "(string \<Rightarrow> bool) \<Rightarrow> pyval dict \<Rightarrow> string dict" where
  "choose_strings ok [] = []"
| "choose_strings ok ((i, v) # d) =
     (case v of PStr s \<Rightarrow> if 1 \<le> length i \<and> length i \<le> 80 \<and> ok s then (i, s) # choose_strings ok d
                          else choose_strings ok d
      | _ \<Rightarrow> choose_strings ok d)"

definition policy_load :: "policy dict \<Rightarrow> pyval option \<Rightarrow> policy_state" where
  "policy_load defaults file =
     (let raw = as_dict file;
          supplied = as_dict (dget raw ''profiles'')
      in \<lparr>ps_paused = (dget raw ''paused'' = Some (PBool True)),
          ps_profiles = adopt_stored_profiles supplied (map (default_profile supplied) defaults),
          ps_device_choices = take MAX_DEVICE_CHOICES
            (choose_strings gpu_device_id (sorted_items (as_dict (dget raw ''deviceChoices'')))),
          ps_model_choices = take MAX_MODEL_CHOICES
            (choose_strings model_id (sorted_items (as_dict (dget raw ''modelChoices'')))),
          ps_revision = sanitized_revision (dget raw ''revision'')\<rparr>)"

definition policy_doc :: "policy \<Rightarrow> pyval" where
  "policy_doc p = PDict [(''enabled'', PBool (po_enabled p)), (''weight'', PInt (po_weight p))]"

definition profiles_doc :: "policy dict \<Rightarrow> pyval" where
  "profiles_doc d = PDict (map (\<lambda>(i, p). (i, policy_doc p)) (sorted_items d))"

definition strings_doc :: "string dict \<Rightarrow> pyval" where
  "strings_doc d = PDict (map (\<lambda>(i, s). (i, PStr s)) (sorted_items d))"

definition policy_save :: "policy_state \<Rightarrow> pyval" where
  "policy_save s =
     PDict [(''paused'', PBool (ps_paused s)), (''profiles'', profiles_doc (ps_profiles s)),
            (''deviceChoices'', strings_doc (ps_device_choices s)),
            (''modelChoices'', strings_doc (ps_model_choices s)), (''revision'', PInt (ps_revision s))]"

definition portfolio :: "policy_state \<Rightarrow> pyval" where
  "portfolio s =
     PDict [(''paused'', PBool (ps_paused s)), (''profiles'', profiles_doc (ps_profiles s)),
            (''deviceChoices'', strings_doc (ps_device_choices s)),
            (''modelChoices'', strings_doc (ps_model_choices s))]"

definition snapshot_entry :: "policy_state \<Rightarrow> string \<times> policy \<Rightarrow> string \<times> pyval" where
  "snapshot_entry s = (\<lambda>(i, p). (i, PDict
     ([(''enabled'', PBool (po_enabled p)), (''weight'', PInt (po_weight p))]
      @ (case dget (ps_device_choices s) i of None \<Rightarrow> [] | Some d \<Rightarrow> [(''deviceId'', PStr d)])
      @ (case dget (ps_model_choices s) i of None \<Rightarrow> [] | Some m \<Rightarrow> [(''modelId'', PStr m)]))))"

definition snapshot_document :: "policy_state \<Rightarrow> pyval" where
  "snapshot_document s =
     PDict [(''revision'', PInt (ps_revision s)), (''paused'', PBool (ps_paused s)),
            (''profiles'', PDict (map (snapshot_entry s) (sorted_items (ps_profiles s))))]"

section \<open>Well-formed policy\<close>

definition weight_ok :: "policy \<Rightarrow> bool" where
  "weight_ok p \<longleftrightarrow> MIN_WEIGHT \<le> po_weight p \<and> po_weight p \<le> MAX_WEIGHT"

definition profiles_ok :: "policy dict \<Rightarrow> bool" where
  "profiles_ok d \<longleftrightarrow> dict_ok d \<and> (\<forall>p \<in> set (dvals d). weight_ok p)"

definition choices_ok :: "(string \<Rightarrow> bool) \<Rightarrow> nat \<Rightarrow> string dict \<Rightarrow> bool" where
  "choices_ok ok n d \<longleftrightarrow> dict_ok d \<and> length d \<le> n \<and>
     (\<forall>(i, s) \<in> set d. 1 \<le> length i \<and> length i \<le> 80 \<and> ok s)"

definition policy_ok :: "policy_state \<Rightarrow> bool" where
  "policy_ok s \<longleftrightarrow> profiles_ok (ps_profiles s) \<and> 0 \<le> ps_revision s \<and>
     choices_ok gpu_device_id MAX_DEVICE_CHOICES (ps_device_choices s) \<and>
     choices_ok model_id MAX_MODEL_CHOICES (ps_model_choices s)"

text \<open>JSON objects have unique keys at every level the loader reads.\<close>

definition json_ok :: "pyval option \<Rightarrow> bool" where
  "json_ok file \<longleftrightarrow> (\<forall>k. dict_ok (as_dict (dget (as_dict file) k)))"

lemma sorted_items_set [simp]: "set (sorted_items d) = set d" "length (sorted_items d) = length d"
  by (simp_all add: sorted_items_def)

lemma dict_ok_sorted: "dict_ok (sorted_items d) = dict_ok d"
proof -
  have "mset (map fst (sorted_items d)) = mset (map fst d)" by (simp add: sorted_items_def)
  then show ?thesis unfolding dict_ok_def dkeys_def by (metis mset_eq_imp_distinct_iff)
qed

lemma dget_same_set: "dict_ok d \<Longrightarrow> dict_ok d' \<Longrightarrow> set d = set d' \<Longrightarrow> dget d k = dget d' k"
  by (metis dget_in_set in_set_dget not_None_eq)

lemma dget_sorted [simp]: "dict_ok d \<Longrightarrow> dget (sorted_items d) k = dget d k"
  by (rule dget_same_set) (simp_all add: dict_ok_sorted)

lemma clamp_weight_ok: "MIN_WEIGHT \<le> f \<Longrightarrow> f \<le> MAX_WEIGHT \<Longrightarrow>
    MIN_WEIGHT \<le> clamp_weight v f \<and> clamp_weight v f \<le> MAX_WEIGHT"
  by (auto simp: clamp_weight_def MIN_WEIGHT_def MAX_WEIGHT_def split: option.splits pyval.splits)

lemma choose_strings_mem:
  "(i, s) \<in> set (choose_strings ok d) \<longleftrightarrow> (i, PStr s) \<in> set d \<and> 1 \<le> length i \<and> length i \<le> 80 \<and> ok s"
  by (induction ok d rule: choose_strings.induct) (auto split: pyval.splits if_splits)

lemma choose_strings_keys: "dict_ok d \<Longrightarrow> dict_ok (choose_strings ok d)"
proof (induction ok d rule: choose_strings.induct)
  case (2 ok i v d)
  then have d: "dict_ok d" "i \<notin> set (dkeys d)" by (simp_all add: dict_ok_def dkeys_def)
  then have "i \<notin> set (dkeys (choose_strings ok d))"
    by (auto simp: dkeys_def choose_strings_mem) (metis fst_conv image_eqI)
  with 2 d show ?case by (auto simp: dict_ok_def dkeys_def split: pyval.splits)
qed simp

lemma choices_ok_load: "dict_ok d \<Longrightarrow> choices_ok ok n (take n (choose_strings ok (sorted_items d)))"
proof -
  assume "dict_ok d"
  then have c: "dict_ok (choose_strings ok (sorted_items d))" by (simp add: choose_strings_keys dict_ok_sorted)
  then have "dict_ok (take n (choose_strings ok (sorted_items d)))"
    by (simp add: dict_ok_def dkeys_def flip: take_map)
  then show ?thesis
    unfolding choices_ok_def by (auto dest!: in_set_takeD simp: choose_strings_mem)
qed

lemma profiles_ok_dset: "profiles_ok d \<Longrightarrow> weight_ok p \<Longrightarrow> profiles_ok (dset i p d)"
proof -
  assume a: "profiles_ok d" "weight_ok p"
  then have "dict_ok (dset i p d)" by (simp add: profiles_ok_def)
  moreover have "weight_ok q" if "q \<in> set (dvals (dset i p d))" for q
    using that a set_dvals [OF calculation] set_dvals [of d] by (auto simp: profiles_ok_def split: if_splits)
  ultimately show ?thesis by (simp add: profiles_ok_def)
qed

lemma adopt_entry_ok: "profiles_ok d \<Longrightarrow> profiles_ok (adopt_entry e d)"
  using clamp_weight_ok [of MIN_WEIGHT]
  by (auto simp: adopt_entry_def Let_def weight_ok_def MIN_WEIGHT_def MAX_WEIGHT_def
      intro!: profiles_ok_dset split: prod.split)

lemma fold_adopt_ok: "profiles_ok d \<Longrightarrow> profiles_ok (fold adopt_entry es d)"
  by (induction es arbitrary: d) (auto simp: adopt_entry_ok)

lemma dkeys_default: "dkeys (map (default_profile raw) d) = dkeys d"
  by (induction d) (auto simp: dkeys_def default_profile_def Let_def)

lemma default_profiles_ok: "profiles_ok d \<Longrightarrow> profiles_ok (map (default_profile raw) d)"
  using dkeys_default [of raw d]
  by (auto simp: profiles_ok_def dict_ok_def dvals_def default_profile_def Let_def weight_ok_def
      intro!: clamp_weight_ok [THEN conjunct1] clamp_weight_ok [THEN conjunct2] dest!: bspec)

section \<open>Loading what was saved\<close>

definition adopted_policy :: "pyval \<Rightarrow> policy" where
  "adopted_policy entry = (let e = as_dict (Some entry)
     in \<lparr>po_enabled = as_bool (dget e ''enabled'') True, po_weight = clamp_weight (dget e ''weight'') MIN_WEIGHT\<rparr>)"

lemma dget_adopt_entry:
  "dget (adopt_entry (j, e) d) i =
     (if i = j \<and> \<not> dhas d i \<and> is_dict e \<and> profile_id i then Some (adopted_policy e) else dget d i)"
  by (auto simp: adopt_entry_def adopted_policy_def Let_def)

lemma dget_fold_adopt:
  "dict_ok es \<Longrightarrow> dget (fold adopt_entry es d) i =
     (case dget d i of Some p \<Rightarrow> Some p
      | None \<Rightarrow> (case dget es i of
                   Some e \<Rightarrow> if is_dict e \<and> profile_id i then Some (adopted_policy e) else None
                 | None \<Rightarrow> None))"
proof (induction es arbitrary: d)
  case (Cons x es)
  obtain j e where x: "x = (j, e)" by force
  from Cons.prems have "dict_ok es" and "\<not> dhas es j" by (simp_all add: x dict_ok_def dkeys_def dhas_def)
  then have "dget es j = None" by (simp add: dget_None_iff)
  with Cons.IH [OF \<open>dict_ok es\<close>, of "adopt_entry x d"] show ?case
    by (auto simp: x dget_adopt_entry dget_Cons dget_None_iff [symmetric] split: option.split)
qed (simp split: option.split)

lemma saved_entry:
  "adopted_policy (policy_doc p) = (if weight_ok p then p else adopted_policy (policy_doc p))"
  "weight_ok p \<Longrightarrow> as_bool (dget (as_dict (Some (policy_doc p))) ''enabled'') b = po_enabled p"
  "weight_ok p \<Longrightarrow> clamp_weight (dget (as_dict (Some (policy_doc p))) ''weight'') w = po_weight p"
  by (auto simp: adopted_policy_def policy_doc_def as_dict_def as_bool_def clamp_weight_def weight_ok_def
      Let_def dget_def MIN_WEIGHT_def MAX_WEIGHT_def)

lemma dict_ok_map_snd: "dict_ok (map (\<lambda>(i, x). (i, f x)) d) = dict_ok d"
proof -
  have "map fst (map (\<lambda>(i, x). (i, f x)) d) = map fst d" by (induction d) auto
  then show ?thesis by (simp only: dict_ok_def dkeys_def)
qed

lemma dget_default: "dget (map (default_profile raw) d) i = map_option (\<lambda>p. snd (default_profile raw (i, p))) (dget d i)"
  by (induction d) (auto simp: dget_def default_profile_def Let_def)

lemma profiles_round_trip:
  assumes ok: "profiles_ok d" and sub: "set (dkeys defaults) \<subseteq> set (dkeys d)"
    and ids: "\<forall>i \<in> set (dkeys d). i \<in> set (dkeys defaults) \<or> profile_id i"
    and saved: "profiles_doc d = PDict saved"
  shows "dget (adopt_stored_profiles saved (map (default_profile saved) defaults)) i = dget d i"
proof -
  have dok: "dict_ok d" and w: "\<And>i p. dget d i = Some p \<Longrightarrow> weight_ok p"
    using ok set_dvals [of d] by (auto simp: profiles_ok_def)
  have s: "saved = map (\<lambda>(i, p). (i, policy_doc p)) (sorted_items d)" using saved by (simp add: profiles_doc_def)
  then have get: "dget saved i = map_option policy_doc (dget d i)" for i by (simp add: dget_map_snd dok)
  have sok: "dict_ok saved" by (simp add: s dict_ok_map_snd dict_ok_sorted dok)
  have def: "dget (map (default_profile saved) defaults) i =
      (if dhas defaults i then dget d i else None)" for i
  proof (cases "dget defaults i")
    case None
    then show ?thesis by (simp add: dget_default dget_None_iff)
  next
    case (Some p0)
    then have h: "dhas defaults i" by (simp add: dhas_iff)
    then have "dhas d i" using sub by (auto simp: dhas_def)
    then obtain p where p: "dget d i = Some p" by (auto simp: dhas_iff)
    then have "default_profile saved (i, p0) = (i, p)"
      using saved_entry(2,3) [OF w [OF p]] by (simp add: default_profile_def get Let_def)
    with Some h p show ?thesis by (simp add: dget_default)
  qed
  show ?thesis
  proof (cases "dget d i")
    case None
    then show ?thesis
      by (simp add: adopt_stored_profiles_def dget_fold_adopt dict_ok_sorted sok def get)
  next
    case (Some p)
    then have "dhas d i" by (simp add: dhas_iff)
    then have "dhas defaults i \<or> profile_id i" using ids by (auto simp: dhas_def)
    with Some w [OF Some] saved_entry(1) [of p] show ?thesis
      by (auto simp: adopt_stored_profiles_def dget_fold_adopt dict_ok_sorted sok def get policy_doc_def)
  qed
qed

lemma choices_round_trip:
  assumes ok: "choices_ok P n d" and saved: "strings_doc d = PDict saved"
  shows "dget (take n (choose_strings P (sorted_items saved))) i = dget d i"
proof -
  have dok: "dict_ok d" and len: "length d \<le> n" using ok by (simp_all add: choices_ok_def)
  have s: "saved = map (\<lambda>(i, x). (i, PStr x)) (sorted_items d)" using saved by (simp add: strings_doc_def)
  let ?c = "choose_strings P (sorted_items saved)"
  have cok: "dict_ok ?c" by (simp add: choose_strings_keys dict_ok_sorted s dict_ok_map_snd dok)
  have set: "set ?c = set d"
  proof (rule set_eqI)
    fix x :: "string \<times> string"
    obtain i v where x: "x = (i, v)" by force
    have "(i, PStr v) \<in> set saved \<longleftrightarrow> (i, v) \<in> set d" by (force simp: s image_iff)
    then show "x \<in> set ?c \<longleftrightarrow> x \<in> set d"
      using ok by (auto simp: x choose_strings_mem choices_ok_def)
  qed
  have "length ?c = card (set ?c)" "length d = card (set d)"
    using cok dok by (metis dict_ok_def dkeys_def distinct_card distinct_map)+
  then have "length ?c \<le> n" using set len by simp
  then show ?thesis using dget_same_set [OF cok dok set] by simp
qed

text \<open>Two policies agree when every setting reads the same.\<close>

definition same_policy :: "policy_state \<Rightarrow> policy_state \<Rightarrow> bool" where
  "same_policy t s \<longleftrightarrow> ps_paused t = ps_paused s \<and> ps_revision t = ps_revision s \<and>
     dget (ps_profiles t) = dget (ps_profiles s) \<and>
     dget (ps_device_choices t) = dget (ps_device_choices s) \<and>
     dget (ps_model_choices t) = dget (ps_model_choices s)"

lemma same_policy_refl [simp]: "same_policy s s"
  by (simp add: same_policy_def)

definition storable_policy :: "policy dict \<Rightarrow> policy_state \<Rightarrow> bool" where
  "storable_policy defaults s \<longleftrightarrow> policy_ok s \<and> set (dkeys defaults) \<subseteq> set (dkeys (ps_profiles s)) \<and>
     (\<forall>i \<in> set (dkeys (ps_profiles s)). i \<in> set (dkeys defaults) \<or> profile_id i)"

lemma saved_policy_loads:
  "storable_policy defaults s \<Longrightarrow> same_policy (policy_load defaults (Some (policy_save s))) s"
proof -
  assume a: "storable_policy defaults s"
  obtain ps ds ms where d: "profiles_doc (ps_profiles s) = PDict ps"
    "strings_doc (ps_device_choices s) = PDict ds" "strings_doc (ps_model_choices s) = PDict ms"
    by (simp add: profiles_doc_def strings_doc_def)
  have f: "dget (as_dict (Some (policy_save s))) ''paused'' = Some (PBool (ps_paused s))"
    "dget (as_dict (Some (policy_save s))) ''profiles'' = Some (PDict ps)"
    "dget (as_dict (Some (policy_save s))) ''deviceChoices'' = Some (PDict ds)"
    "dget (as_dict (Some (policy_save s))) ''modelChoices'' = Some (PDict ms)"
    "dget (as_dict (Some (policy_save s))) ''revision'' = Some (PInt (ps_revision s))"
    by (simp_all add: policy_save_def as_dict_def d dget_def)
  have as_dict: "as_dict (Some (PDict x)) = x" for x by (simp add: as_dict_def)
  have ok: "profiles_ok (ps_profiles s)" "0 \<le> ps_revision s"
    "choices_ok gpu_device_id MAX_DEVICE_CHOICES (ps_device_choices s)"
    "choices_ok model_id MAX_MODEL_CHOICES (ps_model_choices s)"
    using a by (simp_all add: storable_policy_def policy_ok_def)
  note profiles_round_trip [OF ok(1) _ _ d(1), of defaults] choices_round_trip [OF ok(3) d(2)]
    choices_round_trip [OF ok(4) d(3)]
  with a ok(2) show ?thesis
    by (simp add: same_policy_def storable_policy_def policy_load_def f as_dict sanitized_revision_def fun_eq_iff Let_def)
qed

section \<open>Properties\<close>


text \<open>Saving and loading round-trips: a well-formed policy that covers the defaults and whose
  other profiles have valid identifiers is read back unchanged, setting by setting.\<close>

theorem policy_round_trip:
  assumes "storable_policy defaults s"
  shows "let t = policy_load defaults (Some (policy_save s))
     in ps_paused t = ps_paused s \<and> ps_revision t = ps_revision s \<and>
        dget (ps_profiles t) = dget (ps_profiles s) \<and>
        dget (ps_device_choices t) = dget (ps_device_choices s) \<and>
        dget (ps_model_choices t) = dget (ps_model_choices s)"
  using saved_policy_loads [OF assms] by (simp add: same_policy_def Let_def)

section \<open>Witnesses\<close>

definition demo_defaults :: "policy dict" where
  "demo_defaults = [(''ocr'', \<lparr>po_enabled = True, po_weight = 2\<rparr>)]"

definition demo_policy :: policy_state where
  "demo_policy = \<lparr>ps_paused = True,
     ps_profiles = [(''ocr'', \<lparr>po_enabled = False, po_weight = 5\<rparr>), (''a-plugin'', \<lparr>po_enabled = True, po_weight = 1\<rparr>)],
     ps_device_choices = [(''ocr'', ''gpu-renderD128'')], ps_model_choices = [], ps_revision = 9\<rparr>"

lemma demo_defaults_ok: "profiles_ok demo_defaults"
  by (simp add: profiles_ok_def demo_defaults_def dict_ok_def dkeys_def dvals_def weight_ok_def
      MIN_WEIGHT_def MAX_WEIGHT_def)

lemma demo_policy_ok: "policy_ok demo_policy"
proof -
  have "gpu_device_id ''gpu-renderD128''" by code_simp
  then show ?thesis
    by (simp add: policy_ok_def profiles_ok_def choices_ok_def demo_policy_def dict_ok_def dkeys_def dvals_def
        weight_ok_def MIN_WEIGHT_def MAX_WEIGHT_def MAX_DEVICE_CHOICES_def)
qed


theorem policy_round_trip_witness:
  "dget (ps_profiles (policy_load demo_defaults (Some (policy_save demo_policy)))) ''a-plugin'' =
     Some \<lparr>po_enabled = True, po_weight = 1\<rparr>"
proof -
  have "profile_id ''a-plugin''" by code_simp
  then have "\<forall>i \<in> set (dkeys (ps_profiles demo_policy)). i \<in> set (dkeys demo_defaults) \<or> profile_id i"
    "set (dkeys demo_defaults) \<subseteq> set (dkeys (ps_profiles demo_policy))"
    by (simp_all add: demo_policy_def demo_defaults_def dkeys_def)
  then have "storable_policy demo_defaults demo_policy" by (simp add: storable_policy_def demo_policy_ok)
  from policy_round_trip [OF this] show ?thesis
    by (simp add: Let_def) (simp add: demo_policy_def dget_def)
qed

end
