(* ===== verification/Control.thy ===== *)
theory Control
  imports Policy_State
begin

text \<open>
  \<^verbatim>\<open>src/omnitensor/control.py\<close>: runtime commands applied with optimistic concurrency.  The lock
  is held from the revision check to the publication, so a command is one step of the model.
  The policy file is \<open>ct_file\<close>; whether a save succeeds, what the schema validator, the device
  inventory, the manifests and the settings store answer is the record \<open>cenv\<close>.  A command is
  the JSON object that was parsed; the schema makes profile identifiers strings and choices
  strings or null, and anything else is an exception here.
\<close>

section \<open>State and collaborators\<close>

record control =
  ct_state :: policy_state
  ct_file :: "pyval option"

text \<open>What storing a configuration answers, and what looking for its contract answers.\<close>

datatype settings_answer = SettingsStored | SettingsRefused string | SettingsIOError
datatype spec_answer = SpecUnusable string | SpecAbsent | SpecFound "pyval \<Rightarrow> settings_answer"

record cenv =
  ce_profile_exists :: "(string \<Rightarrow> bool) option"
  ce_gpu_device_ids :: "string list"
  ce_profile_models :: "string \<Rightarrow> string list"
  ce_configuration :: "(string \<Rightarrow> spec_answer) option"
  ce_violations :: "pyval \<Rightarrow> string list"
  ce_save_ok :: bool
  ce_now :: int

definition CONTROL_VERSION :: int where "CONTROL_VERSION = 2"
definition SET_PROFILE_CONFIGURATION :: string where "SET_PROFILE_CONFIGURATION = ''set-profile-configuration''"
definition CONFIGURATION_UNAVAILABLE_MESSAGE :: string where
  "CONFIGURATION_UNAVAILABLE_MESSAGE = ''Workload configuration is not available on this runtime''"
definition REVISION_MISMATCH_MESSAGE :: string where
  "REVISION_MISMATCH_MESSAGE = ''Runtime policy revision changed; refresh and retry''"
definition PERSIST_FAILURE_MESSAGE :: string where
  "PERSIST_FAILURE_MESSAGE = ''Could not persist the policy; nothing was applied''"
definition INTERNAL_ERROR_MESSAGE :: string where
  "INTERNAL_ERROR_MESSAGE = ''Internal error while applying the command''"

definition control_init :: "policy dict \<Rightarrow> pyval option \<Rightarrow> control" where
  "control_init defaults file = \<lparr>ct_state = policy_load defaults file, ct_file = file\<rparr>"

definition field :: "string \<Rightarrow> pyval dict \<Rightarrow> pyval res" where
  "field k d = (case dget d k of None \<Rightarrow> Inl KeyError | Some v \<Rightarrow> Inr v)"

definition str_of :: "pyval \<Rightarrow> string res" where
  "str_of v = (case v of PStr s \<Rightarrow> Inr s | _ \<Rightarrow> Inl TypeError)"

definition choice_of :: "pyval \<Rightarrow> string option res" where
  "choice_of v = (case v of PStr s \<Rightarrow> Inr (Some s) | PNone \<Rightarrow> Inr None | _ \<Rightarrow> Inl TypeError)"

definition integral_weight :: "pyval \<Rightarrow> int option" where
  "integral_weight v =
     (case v of PInt n \<Rightarrow> Some n
      | PFloat (Fin q) \<Rightarrow> if q = of_int (floor q) then Some (floor q) else None
      | _ \<Rightarrow> None)"

definition command_id_char :: "char \<Rightarrow> bool" where
  "command_id_char ch = (let n = of_char ch :: nat in
     48 \<le> n \<and> n \<le> 57 \<or> 65 \<le> n \<and> n \<le> 90 \<or> 97 \<le> n \<and> n \<le> 122 \<or> ch \<in> set ''._-'')"

definition sanitized_command_id :: "pyval dict \<Rightarrow> string" where
  "sanitized_command_id command =
     (case dget command ''id'' of
        Some (PStr s) \<Rightarrow> if 1 \<le> length s \<and> length s \<le> 120 \<and> list_all command_id_char s then s else ''invalid''
      | _ \<Rightarrow> ''invalid'')"

section \<open>Choices about a profile\<close>

definition known_profile :: "cenv \<Rightarrow> policy_state \<Rightarrow> string \<Rightarrow> bool" where
  "known_profile en s i \<longleftrightarrow>
     dhas (ps_profiles s) i \<or> dhas (ps_device_choices s) i \<or> dhas (ps_model_choices s) i \<or>
     (case ce_profile_exists en of None \<Rightarrow> False | Some f \<Rightarrow> f i)"

definition device_choice_error :: "cenv \<Rightarrow> string option \<Rightarrow> string option" where
  "device_choice_error en v =
     (case v of None \<Rightarrow> None
      | Some d \<Rightarrow> if d \<notin> set (ce_gpu_device_ids en) then Some (''GPU device is unavailable: '' @ d) else None)"

definition model_choice_error :: "cenv \<Rightarrow> string \<Rightarrow> string option \<Rightarrow> string option" where
  "model_choice_error en i v =
     (case v of None \<Rightarrow> None
      | Some m \<Rightarrow> if m \<notin> set (ce_profile_models en i)
                  then Some (''Model is not declared by this workload: '' @ m) else None)"

text \<open>A setter answers a refusal or the changed state.\<close>

definition set_profile_model :: "cenv \<Rightarrow> policy_state \<Rightarrow> string \<Rightarrow> string option \<Rightarrow> string + policy_state" where
  "set_profile_model en s i v =
     (case model_choice_error en i v of
        Some e \<Rightarrow> Inl e
      | None \<Rightarrow>
          (case v of
             None \<Rightarrow> Inr (s\<lparr>ps_model_choices := dpop i (ps_model_choices s)\<rparr>)
           | Some m \<Rightarrow>
               if \<not> dhas (ps_model_choices s) i \<and> MAX_MODEL_CHOICES \<le> length (ps_model_choices s)
               then Inl (''Model choices are limited to '' @ nat_str MAX_MODEL_CHOICES @ '' profiles'')
               else Inr (s\<lparr>ps_model_choices := dset i m (ps_model_choices s)\<rparr>)))"

definition set_profile_device :: "cenv \<Rightarrow> policy_state \<Rightarrow> string \<Rightarrow> string option \<Rightarrow> string + policy_state" where
  "set_profile_device en s i v =
     (case device_choice_error en v of
        Some e \<Rightarrow> Inl e
      | None \<Rightarrow>
          (case v of
             None \<Rightarrow> Inr (s\<lparr>ps_device_choices := dpop i (ps_device_choices s)\<rparr>)
           | Some d \<Rightarrow>
               if \<not> dhas (ps_device_choices s) i \<and> MAX_DEVICE_CHOICES \<le> length (ps_device_choices s)
               then Inl (''GPU device choices are limited to '' @ nat_str MAX_DEVICE_CHOICES @ '' profiles'')
               else Inr (s\<lparr>ps_device_choices := dset i d (ps_device_choices s)\<rparr>)))"

definition unknown_profile :: "string \<Rightarrow> string" where
  "unknown_profile i = ''Unknown workload profile: '' @ i"

definition choose_for :: "cenv \<Rightarrow> policy_state \<Rightarrow> string \<Rightarrow> string \<Rightarrow> pyval \<Rightarrow> (string + policy_state) res" where
  "choose_for en s operation i value =
     (if \<not> known_profile en s i then Inr (Inl (unknown_profile i))
      else bind_res (choice_of value) (\<lambda>v.
        Inr (if operation = ''set-profile-device'' then set_profile_device en s i v
             else set_profile_model en s i v)))"

definition weight_message :: string where
  "weight_message = ''Weight must be between '' @ int_str MIN_WEIGHT @ '' and '' @ int_str MAX_WEIGHT"

section \<open>Batches\<close>

text \<open>An early return of a refusal ends the sequence, as an exception does.\<close>

definition and_then :: "(string + 'a) res \<Rightarrow> ('a \<Rightarrow> (string + 'b) res) \<Rightarrow> (string + 'b) res" where
  "and_then r f = bind_res r (\<lambda>x. case x of Inl e \<Rightarrow> Inr (Inl e) | Inr y \<Rightarrow> f y)"

lemma and_then_ok [res_simps]: "and_then r f = Inr (Inr y) \<longleftrightarrow> (\<exists>x. r = Inr (Inr x) \<and> f x = Inr (Inr y))"
  by (cases r) (auto simp: and_then_def split: sum.splits)

definition has_key :: "pyval dict \<Rightarrow> string \<Rightarrow> bool" where
  "has_key d k = dhas d k"

definition choice_field :: "string \<Rightarrow> pyval dict \<Rightarrow> string option res" where
  "choice_field k d = bind_res (field k d) choice_of"

definition batch_error :: "cenv \<Rightarrow> policy_state \<Rightarrow> pyval dict \<Rightarrow> string option res" where
  "batch_error en s change =
     bind_res (bind_res (field ''profileId'' change) str_of) (\<lambda>i.
       if \<not> known_profile en s i then Inr (Some (unknown_profile i))
       else if \<not> (has_key change ''enabled'' \<or> has_key change ''weight'' \<or> has_key change ''deviceId'' \<or> has_key change ''modelId'')
       then Inr (Some (''Change for '' @ i @ '' sets none of enabled, weight, deviceId or modelId''))
       else if (has_key change ''enabled'' \<or> has_key change ''weight'') \<and> \<not> dhas (ps_profiles s) i
       then Inr (Some (''Profile policy unavailable: '' @ i))
       else bind_res (if has_key change ''deviceId'' then map_res (device_choice_error en) (choice_field ''deviceId'' change)
                      else Inr None) (\<lambda>e.
              case e of Some m \<Rightarrow> Inr (Some m)
              | None \<Rightarrow> if has_key change ''modelId'' then map_res (model_choice_error en i) (choice_field ''modelId'' change)
                        else Inr None))"

definition set_enabled :: "string \<Rightarrow> pyval \<Rightarrow> policy_state \<Rightarrow> policy_state res" where
  "set_enabled i v s =
     (case dget (ps_profiles s) i of
        None \<Rightarrow> Inl TypeError
      | Some p \<Rightarrow> Inr (s\<lparr>ps_profiles := dset i (p\<lparr>po_enabled := (v = PBool True)\<rparr>) (ps_profiles s)\<rparr>))"

definition set_weight :: "string \<Rightarrow> int \<Rightarrow> policy_state \<Rightarrow> policy_state res" where
  "set_weight i n s =
     (case dget (ps_profiles s) i of
        None \<Rightarrow> Inl TypeError
      | Some p \<Rightarrow> Inr (s\<lparr>ps_profiles := dset i (p\<lparr>po_weight := n\<rparr>) (ps_profiles s)\<rparr>))"

text \<open>One change of a batch; the weight's range is left to the schema.\<close>

definition batch_device :: "cenv \<Rightarrow> string \<Rightarrow> pyval dict \<Rightarrow> policy_state \<Rightarrow> (string + policy_state) res" where
  "batch_device en i change s =
     and_then (if has_key change ''deviceId''
               then map_res (set_profile_device en s i) (choice_field ''deviceId'' change)
               else Inr (Inr s)) (\<lambda>s1.
       if has_key change ''modelId''
       then map_res (set_profile_model en s1 i) (choice_field ''modelId'' change)
       else Inr (Inr s1))"

definition apply_batch_change :: "cenv \<Rightarrow> policy_state \<Rightarrow> pyval dict \<Rightarrow> (string + policy_state) res" where
  "apply_batch_change en s change =
     bind_res (bind_res (field ''profileId'' change) str_of) (\<lambda>i.
     bind_res (case dget change ''enabled'' of None \<Rightarrow> Inr s | Some v \<Rightarrow> set_enabled i v s) (\<lambda>s1.
       case dget change ''weight'' of
         None \<Rightarrow> batch_device en i change s1
       | Some v \<Rightarrow>
           if \<not> dhas (ps_profiles s1) i then Inl TypeError
           else (case integral_weight v of
                   None \<Rightarrow> Inr (Inl weight_message)
                 | Some n \<Rightarrow> bind_res (set_weight i n s1) (batch_device en i change))))"

fun check_batch :: "cenv \<Rightarrow> policy_state \<Rightarrow> pyval dict list \<Rightarrow> string option res" where
  "check_batch en s [] = Inr None"
| "check_batch en s (ch # chs) =
     bind_res (batch_error en s ch) (\<lambda>e. case e of Some m \<Rightarrow> Inr (Some m) | None \<Rightarrow> check_batch en s chs)"

fun run_batch :: "cenv \<Rightarrow> policy_state \<Rightarrow> pyval dict list \<Rightarrow> (string + policy_state) res" where
  "run_batch en s [] = Inr (Inr s)"
| "run_batch en s (ch # chs) =
     and_then (apply_batch_change en s ch) (\<lambda>s1. run_batch en s1 chs)"

definition apply_batch :: "cenv \<Rightarrow> policy_state \<Rightarrow> pyval dict list \<Rightarrow> (string + policy_state) res" where
  "apply_batch en s changes =
     bind_res (check_batch en s changes) (\<lambda>e.
       case e of Some m \<Rightarrow> Inr (Inl m) | None \<Rightarrow> run_batch en s changes)"

fun dicts_of :: "pyval list \<Rightarrow> pyval dict list res" where
  "dicts_of [] = Inr []"
| "dicts_of (v # vs) =
     (case v of PDict d \<Rightarrow> map_res (\<lambda>ds. d # ds) (dicts_of vs) | _ \<Rightarrow> Inl TypeError)"

definition changes_of :: "pyval \<Rightarrow> pyval dict list res" where
  "changes_of v = (case v of PList vs \<Rightarrow> dicts_of vs | _ \<Rightarrow> Inl TypeError)"

section \<open>Commands\<close>

definition execute :: "cenv \<Rightarrow> policy_state \<Rightarrow> pyval dict \<Rightarrow> (string + policy_state) res" where
  "execute en s command =
     bind_res (bind_res (field ''operation'' command) str_of) (\<lambda>operation.
       if operation = ''apply-profiles''
       then bind_res (bind_res (field ''changes'' command) changes_of) (apply_batch en s)
       else if operation = ''set-paused''
       then bind_res (field ''value'' command) (\<lambda>v. Inr (Inr (s\<lparr>ps_paused := (v = PBool True)\<rparr>)))
       else if operation = SET_PROFILE_CONFIGURATION then Inr (Inr s)
       else bind_res (bind_res (field ''profileId'' command) str_of) (\<lambda>i.
         if operation = ''set-profile-device'' \<or> operation = ''set-profile-model''
         then bind_res (field ''value'' command) (choose_for en s operation i)
         else if \<not> dhas (ps_profiles s) i then Inr (Inl (unknown_profile i))
         else bind_res (field ''value'' command) (\<lambda>v.
           if operation = ''set-profile-enabled'' then map_res Inr (set_enabled i v s)
           else case integral_weight v of
                  None \<Rightarrow> Inr (Inl weight_message)
                | Some n \<Rightarrow> if \<not> (MIN_WEIGHT \<le> n \<and> n \<le> MAX_WEIGHT) then Inr (Inl weight_message)
                            else map_res Inr (set_weight i n s))))"

definition store_configuration :: "cenv \<Rightarrow> policy_state \<Rightarrow> pyval dict \<Rightarrow> string option res" where
  "store_configuration en s command =
     bind_res (bind_res (field ''profileId'' command) str_of) (\<lambda>i.
       case ce_configuration en of
         None \<Rightarrow> Inr (Some CONFIGURATION_UNAVAILABLE_MESSAGE)
       | Some spec_of \<Rightarrow>
           if \<not> known_profile en s i then Inr (Some (unknown_profile i))
           else (case spec_of i of
                   SpecUnusable d \<Rightarrow> Inr (Some (''This workload's configuration contract is unusable: '' @ d))
                 | SpecAbsent \<Rightarrow> Inr (Some (''This workload declares no configuration: '' @ i))
                 | SpecFound update \<Rightarrow>
                     bind_res (field ''value'' command) (\<lambda>v.
                       case update v of
                         SettingsStored \<Rightarrow> Inr None
                       | SettingsRefused d \<Rightarrow> Inr (Some (''Configuration was refused: '' @ d))
                       | SettingsIOError \<Rightarrow> Inr (Some PERSIST_FAILURE_MESSAGE))))"

text \<open>
  Persist the candidate, then publish it.  A failed save refuses the command, except that a
  configuration already stored is acknowledged without a new revision.
\<close>

definition commit :: "cenv \<Rightarrow> policy_state \<Rightarrow> bool \<Rightarrow> control \<Rightarrow> bool \<times> control" where
  "commit en candidate configuration ct =
     (if ce_save_ok en then (True, ct\<lparr>ct_state := candidate, ct_file := Some (policy_save candidate)\<rparr>)
      else (configuration, ct))"

text \<open>The refusal, or nothing when the command was applied.\<close>

definition apply_locked :: "cenv \<Rightarrow> pyval dict \<Rightarrow> control \<Rightarrow> string option res \<times> control" where
  "apply_locked en command ct =
     (case bind_res (field ''expectedRevision'' command) (\<lambda>r.
             if \<not> same_number r (ps_revision (ct_state ct)) then Inr (Inl REVISION_MISMATCH_MESSAGE)
             else bind_res (field ''operation'' command) (\<lambda>operation.
               bind_res (if operation = PStr SET_PROFILE_CONFIGURATION
                              then store_configuration en (ct_state ct) command else Inr None) (\<lambda>e.
                 case e of Some m \<Rightarrow> Inr (Inl m)
                 | None \<Rightarrow> map_res (map_sum id (\<lambda>s. (s, operation = PStr SET_PROFILE_CONFIGURATION)))
                             (execute en (ct_state ct) command)))) of
        Inl x \<Rightarrow> (Inl x, ct)
      | Inr (Inl m) \<Rightarrow> (Inr (Some m), ct)
      | Inr (Inr (s, configuration)) \<Rightarrow>
          (case commit en (s\<lparr>ps_revision := ps_revision s + 1\<rparr>) configuration ct of
             (True, ct') \<Rightarrow> (Inr None, ct')
           | (False, ct') \<Rightarrow> (Inr (Some PERSIST_FAILURE_MESSAGE), ct')))"

record ack =
  ak_command :: string
  ak_status :: string
  ak_revision :: int
  ak_at :: int
  ak_message :: string
  ak_portfolio :: pyval

definition acknowledgement :: "cenv \<Rightarrow> control \<Rightarrow> string \<Rightarrow> string \<Rightarrow> string \<Rightarrow> ack" where
  "acknowledgement en ct command_id status message =
     \<lparr>ak_command = command_id, ak_status = status, ak_revision = ps_revision (ct_state ct),
      ak_at = max 1 (ce_now en), ak_message = message, ak_portfolio = portfolio (ct_state ct)\<rparr>"

text \<open>\<^verbatim>\<open>apply_command_text\<close> with \<^verbatim>\<open>_apply\<close>: \<open>parsed\<close> is what \<^verbatim>\<open>json.loads\<close> gave, None when it raised.\<close>

definition apply_command :: "cenv \<Rightarrow> pyval option \<Rightarrow> control \<Rightarrow> ack \<times> control" where
  "apply_command en parsed ct =
     (case parsed of
        None \<Rightarrow> (acknowledgement en ct ''invalid'' ''rejected'' ''Command is not valid JSON'', ct)
      | Some (PDict command) \<Rightarrow>
          (let command_id = sanitized_command_id command
           in if ce_violations en (PDict command) \<noteq> []
              then (acknowledgement en ct command_id ''rejected'' ''Command does not match the version 2 contract'', ct)
              else (case apply_locked en command ct of
                      (Inl _, ct') \<Rightarrow> (acknowledgement en ct' ''invalid'' ''rejected'' INTERNAL_ERROR_MESSAGE, ct')
                    | (Inr (Some m), ct') \<Rightarrow> (acknowledgement en ct' command_id ''rejected'' m, ct')
                    | (Inr None, ct') \<Rightarrow> (acknowledgement en ct' command_id ''applied'' ''Policy applied'', ct')))
      | Some _ \<Rightarrow> (acknowledgement en ct ''invalid'' ''rejected'' ''Command is not an object'', ct))"

text \<open>Profiles found after the store was loaded get the default policy.\<close>

definition adopt_profiles :: "bool \<Rightarrow> string list \<Rightarrow> policy \<Rightarrow> control \<Rightarrow> string list \<times> control" where
  "adopt_profiles save_ok profile_ids dflt ct =
     (let s = ct_state ct;
          adopted = filter (\<lambda>i. \<not> dhas (ps_profiles s) i) (sort (remdups profile_ids));
          candidate = s\<lparr>ps_profiles := fold (\<lambda>i d. dset i dflt d) adopted (ps_profiles s),
                        ps_revision := ps_revision s + 1\<rparr>
      in if adopted = [] then ([], ct)
         else if \<not> save_ok then ([], ct)
         else (adopted, ct\<lparr>ct_state := candidate, ct_file := Some (policy_save candidate)\<rparr>))"

section \<open>What a command may change\<close>

text \<open>The revision and the set of profiles are never touched by executing a command.\<close>

definition framed :: "policy_state \<Rightarrow> policy_state \<Rightarrow> bool" where
  "framed s t \<longleftrightarrow> ps_revision t = ps_revision s \<and> dkeys (ps_profiles t) = dkeys (ps_profiles s)"

lemma framed_refl [simp]: "framed s s"
  by (simp add: framed_def)

lemma framed_trans [trans]: "framed s t \<Longrightarrow> framed t u \<Longrightarrow> framed s u"
  by (simp add: framed_def)

lemma setters_framed:
  "set_profile_device en s i v = Inr t \<Longrightarrow> framed s t"
  "set_profile_model en s i v = Inr t \<Longrightarrow> framed s t"
  "set_enabled i x s = Inr t \<Longrightarrow> framed s t"
  "set_weight i n s = Inr t \<Longrightarrow> framed s t"
  by (auto simp: set_profile_device_def set_profile_model_def set_enabled_def set_weight_def framed_def
      dkeys_dset dhas_iff split: option.splits if_splits)

lemma batch_device_framed: "batch_device en i ch s = Inr (Inr t) \<Longrightarrow> framed s t"
  by (auto simp: batch_device_def and_then_ok map_res_eq_Inr split: if_splits
      intro: setters_framed framed_trans)

lemma apply_batch_change_framed: "apply_batch_change en s ch = Inr (Inr t) \<Longrightarrow> framed s t"
  by (auto simp: apply_batch_change_def bind_res_eq_Inr split: option.splits if_splits
      dest!: setters_framed batch_device_framed) (blast intro: framed_trans)+

lemma run_batch_framed: "run_batch en s chs = Inr (Inr t) \<Longrightarrow> framed s t"
  by (induction chs arbitrary: s)
    (auto simp: and_then_ok dest!: apply_batch_change_framed intro: framed_trans)

lemma execute_framed: "execute en s command = Inr (Inr t) \<Longrightarrow> framed s t"
  by (auto simp: execute_def apply_batch_def choose_for_def bind_res_eq_Inr map_res_eq_Inr framed_def [of s "s\<lparr>ps_paused := x\<rparr>" for x]
      split: if_splits option.splits dest!: setters_framed run_batch_framed)

text \<open>What the schema and the inventories promise of the values a command carries.\<close>

definition id_ok :: "pyval option \<Rightarrow> bool" where
  "id_ok v \<longleftrightarrow> (\<forall>i. v = Some (PStr i) \<longrightarrow> 1 \<le> length i \<and> length i \<le> 80)"

definition change_ok :: "pyval dict \<Rightarrow> bool" where
  "change_ok ch \<longleftrightarrow> id_ok (dget ch ''profileId'') \<and>
     (\<forall>v n. dget ch ''weight'' = Some v \<longrightarrow> integral_weight v = Some n \<longrightarrow> MIN_WEIGHT \<le> n \<and> n \<le> MAX_WEIGHT)"

definition command_ok :: "pyval dict \<Rightarrow> bool" where
  "command_ok command \<longleftrightarrow> id_ok (dget command ''profileId'') \<and>
     (\<forall>vs. dget command ''changes'' = Some (PList vs) \<longrightarrow> (\<forall>ch. PDict ch \<in> set vs \<longrightarrow> change_ok ch))"

definition env_ok :: "cenv \<Rightarrow> bool" where
  "env_ok en \<longleftrightarrow> (\<forall>d \<in> set (ce_gpu_device_ids en). gpu_device_id d) \<and>
     (\<forall>i. \<forall>m \<in> set (ce_profile_models en i). model_id m) \<and>
     (\<forall>command. ce_violations en (PDict command) = [] \<longrightarrow> command_ok command)"

lemma dset_set: "set (dset k v d) \<subseteq> insert (k, v) (set d)"
  by (induction d) (auto simp: dset_def)

lemma dset_length: "length (dset k v d) = (if dhas d k then length d else Suc (length d))"
  by (induction d) (auto simp: dset_def dhas_def dkeys_def)

lemma choices_ok_dset:
  "choices_ok P n d \<Longrightarrow> 1 \<le> length i \<Longrightarrow> length i \<le> 80 \<Longrightarrow> P v \<Longrightarrow> dhas d i \<or> length d < n \<Longrightarrow>
     choices_ok P n (dset i v d)"
  using dset_set [of i v d] by (auto simp: choices_ok_def dset_length)

lemma choices_ok_dpop: "choices_ok P n d \<Longrightarrow> choices_ok P n (dpop i d)"
proof -
  assume c: "choices_ok P n d"
  have "set (dpop i d) \<subseteq> set d" unfolding dpop_def by (induction d) auto
  moreover have "length (dpop i d) \<le> length d" by (simp add: dpop_def length_delete_le)
  ultimately show ?thesis using c by (auto simp: choices_ok_def)
qed

lemma setters_ok:
  assumes "policy_ok s" "env_ok en" "1 \<le> length i" "length i \<le> 80"
  shows "set_profile_device en s i v = Inr t \<Longrightarrow> policy_ok t"
    and "set_profile_model en s i v = Inr t \<Longrightarrow> policy_ok t"
  using assms
  by (auto simp: set_profile_device_def set_profile_model_def device_choice_error_def model_choice_error_def
      policy_ok_def env_ok_def intro!: choices_ok_dset choices_ok_dpop split: option.splits if_splits)

lemma profile_setters_ok:
  assumes "policy_ok s"
  shows "set_enabled i x s = Inr t \<Longrightarrow> policy_ok t"
    and "set_weight i n s = Inr t \<Longrightarrow> MIN_WEIGHT \<le> n \<Longrightarrow> n \<le> MAX_WEIGHT \<Longrightarrow> policy_ok t"
proof -
  have w: "dget (ps_profiles s) i = Some p \<Longrightarrow> weight_ok p" for p
    using assms set_dvals [of "ps_profiles s" p] by (auto simp: policy_ok_def profiles_ok_def)
  with assms show "set_enabled i x s = Inr t \<Longrightarrow> policy_ok t"
    "set_weight i n s = Inr t \<Longrightarrow> MIN_WEIGHT \<le> n \<Longrightarrow> n \<le> MAX_WEIGHT \<Longrightarrow> policy_ok t"
    by (auto simp: set_enabled_def set_weight_def policy_ok_def weight_ok_def
        intro!: profiles_ok_dset split: option.splits)
qed

lemma id_field: "bind_res (field k d) str_of = Inr i \<Longrightarrow> id_ok (dget d k) \<Longrightarrow> 1 \<le> length i \<and> length i \<le> 80"
  by (auto simp: bind_res_eq_Inr field_def str_of_def id_ok_def split: option.splits pyval.splits)

lemma batch_device_ok:
  assumes "policy_ok s" "env_ok en" "1 \<le> length i" "length i \<le> 80" "batch_device en i ch s = Inr (Inr t)"
  shows "policy_ok t"
proof -
  from assms(5) obtain s1 where
    d: "(if has_key ch ''deviceId'' then map_res (set_profile_device en s i) (choice_field ''deviceId'' ch)
      else Inr (Inr s)) = Inr (Inr s1)"
    and t: "(if has_key ch ''modelId'' then map_res (set_profile_model en s1 i) (choice_field ''modelId'' ch)
      else Inr (Inr s1)) = Inr (Inr t)"
    unfolding batch_device_def and_then_ok by blast
  have s1: "policy_ok s1"
    using d assms(1) setters_ok(1) [OF assms(1-4)] by (auto simp: map_res_eq_Inr split: if_splits)
  from t setters_ok(2) [OF s1 assms(2-4)] s1 show ?thesis by (auto simp: map_res_eq_Inr split: if_splits)
qed

lemma apply_batch_change_ok:
  assumes "policy_ok s" "env_ok en" "change_ok ch" "apply_batch_change en s ch = Inr (Inr t)"
  shows "policy_ok t"
proof -
  from assms(4) obtain i s1 where i: "bind_res (field ''profileId'' ch) str_of = Inr i"
    and s1: "(case dget ch ''enabled'' of None \<Rightarrow> Inr s | Some v \<Rightarrow> set_enabled i v s) = Inr s1"
    and t: "(case dget ch ''weight'' of
         None \<Rightarrow> batch_device en i ch s1
       | Some v \<Rightarrow>
           if \<not> dhas (ps_profiles s1) i then Inl TypeError
           else (case integral_weight v of
                   None \<Rightarrow> Inr (Inl weight_message)
                 | Some n \<Rightarrow> bind_res (set_weight i n s1) (batch_device en i ch))) = Inr (Inr t)"
    by (auto simp: apply_batch_change_def bind_res_eq_Inr)
  have l: "1 \<le> length i" "length i \<le> 80" using id_field [OF i] assms(3) by (simp_all add: change_ok_def)
  have "policy_ok s1" using s1 assms(1) by (auto intro: profile_setters_ok split: option.splits)
  with t assms(3) show ?thesis
    by (auto simp: bind_res_eq_Inr change_ok_def split: option.splits if_splits
        intro: batch_device_ok [OF _ assms(2) l] profile_setters_ok(2))
qed

lemma run_batch_ok:
  "run_batch en s chs = Inr (Inr t) \<Longrightarrow> policy_ok s \<Longrightarrow> env_ok en \<Longrightarrow> \<forall>ch \<in> set chs. change_ok ch \<Longrightarrow> policy_ok t"
  by (induction chs arbitrary: s) (auto simp: and_then_ok dest: apply_batch_change_ok)

lemma dicts_of_set: "dicts_of vs = Inr ds \<Longrightarrow> ch \<in> set ds \<Longrightarrow> PDict ch \<in> set vs"
  by (induction vs arbitrary: ds) (auto simp: map_res_eq_Inr split: pyval.splits)

lemma execute_ok:
  assumes ok: "policy_ok s" and env: "env_ok en" and cmd: "command_ok command"
    and ex: "execute en s command = Inr (Inr t)"
  shows "policy_ok t"
proof -
  have batch: "policy_ok t" if "bind_res (bind_res (field ''changes'' command) changes_of) (apply_batch en s) = Inr (Inr t)"
  proof -
    from that obtain vs chs where "dget command ''changes'' = Some (PList vs)" "dicts_of vs = Inr chs"
      "run_batch en s chs = Inr (Inr t)"
      by (auto simp: bind_res_eq_Inr field_def changes_of_def apply_batch_def split: option.splits pyval.splits)
    then show ?thesis using run_batch_ok [OF _ ok env] cmd dicts_of_set unfolding command_ok_def by blast
  qed
  have one: "1 \<le> length i \<and> length i \<le> 80" if "bind_res (field ''profileId'' command) str_of = Inr i" for i
    using id_field [OF that] cmd by (simp add: command_ok_def)
  have paused: "policy_ok (s\<lparr>ps_paused := b\<rparr>)" for b using ok by (simp add: policy_ok_def)
  from ex obtain operation where op: "bind_res (field ''operation'' command) str_of = Inr operation"
    by (auto simp: execute_def bind_res_eq_Inr)
  show ?thesis
  proof (cases "operation = ''apply-profiles''")
    case True
    with ex op show ?thesis by (intro batch) (simp add: execute_def)
  next
    case False
    show ?thesis
    proof (cases "operation = ''set-paused'' \<or> operation = SET_PROFILE_CONFIGURATION")
      case True
      with False ex op ok show ?thesis
        by (auto simp: execute_def bind_res_eq_Inr paused SET_PROFILE_CONFIGURATION_def)
    next
      case other: False
      obtain i where i: "bind_res (field ''profileId'' command) str_of = Inr i"
      proof (cases "bind_res (field ''profileId'' command) str_of")
        case (Inl e)
        with False other ex op show ?thesis by (simp add: execute_def)
      qed (use that in simp)
      from one [OF i] have l: "1 \<le> length i" "length i \<le> 80" by auto
      have eq: "execute en s command =
          (if operation = ''set-profile-device'' \<or> operation = ''set-profile-model''
           then bind_res (field ''value'' command) (choose_for en s operation i)
           else if \<not> dhas (ps_profiles s) i then Inr (Inl (unknown_profile i))
           else bind_res (field ''value'' command) (\<lambda>v.
             if operation = ''set-profile-enabled'' then map_res Inr (set_enabled i v s)
             else case integral_weight v of
                    None \<Rightarrow> Inr (Inl weight_message)
                  | Some n \<Rightarrow> if \<not> (MIN_WEIGHT \<le> n \<and> n \<le> MAX_WEIGHT) then Inr (Inl weight_message)
                              else map_res Inr (set_weight i n s)))"
        using False other op i by (simp add: execute_def)
      have c: "choose_for en s operation i v = Inr (Inr t) \<Longrightarrow> policy_ok t" for v
        by (auto simp: choose_for_def bind_res_eq_Inr split: if_splits intro: setters_ok [OF ok env l])
      have e: "map_res Inr (set_enabled i v s) = Inr (Inr t) \<Longrightarrow> policy_ok t" for v
        using profile_setters_ok(1) [OF ok] by (simp add: map_res_eq_Inr)
      have w: "map_res Inr (set_weight i n s) = Inr (Inr t) \<Longrightarrow> MIN_WEIGHT \<le> n \<Longrightarrow> n \<le> MAX_WEIGHT \<Longrightarrow> policy_ok t" for n
        using profile_setters_ok(2) [OF ok] by (simp add: map_res_eq_Inr)
      show ?thesis
        using ex unfolding eq bind_res_eq_Inr
        by (auto simp: bind_res_eq_Inr [of "field ''value'' command"] split: if_splits option.splits intro: c e w)
    qed
  qed
qed

section \<open>The storage contract\<close>

text \<open>
  \<^verbatim>\<open>PolicyStorage\<close> of \<^verbatim>\<open>ports.py\<close>: what is saved is what is loaded, for the policies the
  service may hold.
\<close>

locale policy_storage =
  fixes load :: "'f \<Rightarrow> policy_state"
    and save :: "policy_state \<Rightarrow> 'f"
    and storable :: "policy_state \<Rightarrow> bool"
  assumes load_save: "storable s \<Longrightarrow> same_policy (load (save s)) s"
begin

definition synced :: "policy_state \<Rightarrow> 'f \<Rightarrow> bool" where
  "synced served file \<longleftrightarrow> storable served \<and> same_policy (load file) served"

lemma commit_synced: "storable s \<Longrightarrow> synced s (save s)"
  by (simp add: synced_def load_save)

lemma restart_agrees: "synced s file \<Longrightarrow> ps_revision (load file) = ps_revision s"
  by (simp add: synced_def same_policy_def)

end

interpretation pst: policy_storage "\<lambda>file. policy_load defaults file" "\<lambda>s. Some (policy_save s)"
  "storable_policy defaults" for defaults
  by unfold_locales (rule saved_policy_loads)

section \<open>The service over time\<close>

inductive control_reachable :: "policy dict \<Rightarrow> control \<Rightarrow> bool" for defaults where
  init: "json_ok file \<Longrightarrow> control_reachable defaults (control_init defaults file)"
| command: "control_reachable defaults ct \<Longrightarrow> env_ok en \<Longrightarrow> control_reachable defaults (snd (apply_command en parsed ct))"
| adopt: "control_reachable defaults ct \<Longrightarrow> \<forall>i \<in> set ids. profile_id i \<Longrightarrow> weight_ok p \<Longrightarrow>
     control_reachable defaults (snd (adopt_profiles save_ok ids p ct))"

lemma map_sum_eq_Inr: "map_sum f g x = Inr y \<longleftrightarrow> (\<exists>z. x = Inr z \<and> g z = y)"
  by (cases x) auto

lemma apply_locked_cases:
  "snd (apply_locked en command ct) = ct \<or>
   (\<exists>s. execute en (ct_state ct) command = Inr (Inr s) \<and> ce_save_ok en \<and>
      fst (apply_locked en command ct) = Inr None \<and>
      (\<exists>r. dget command ''expectedRevision'' = Some r \<and> same_number r (ps_revision (ct_state ct))) \<and>
      snd (apply_locked en command ct) =
        ct\<lparr>ct_state := s\<lparr>ps_revision := ps_revision s + 1\<rparr>, ct_file := Some (policy_save (s\<lparr>ps_revision := ps_revision s + 1\<rparr>))\<rparr>)"
proof -
  let ?r = "bind_res (field ''expectedRevision'' command) (\<lambda>r.
             if \<not> same_number r (ps_revision (ct_state ct)) then Inr (Inl REVISION_MISMATCH_MESSAGE)
             else bind_res (field ''operation'' command) (\<lambda>operation.
               bind_res (if operation = PStr SET_PROFILE_CONFIGURATION
                              then store_configuration en (ct_state ct) command else Inr None) (\<lambda>e.
                 case e of Some m \<Rightarrow> Inr (Inl m)
                 | None \<Rightarrow> map_res (map_sum id (\<lambda>s. (s, operation = PStr SET_PROFILE_CONFIGURATION)))
                             (execute en (ct_state ct) command))))"
  show ?thesis
  proof (cases "\<exists>s b. ?r = Inr (Inr (s, b))")
    case True
    then obtain s b where r: "?r = Inr (Inr (s, b))" by blast
    from r have "execute en (ct_state ct) command = Inr (Inr s)"
      by (auto simp: bind_res_eq_Inr map_res_eq_Inr map_sum_eq_Inr split: if_splits option.splits)
    moreover from r have "\<exists>r. dget command ''expectedRevision'' = Some r \<and> same_number r (ps_revision (ct_state ct))"
      by (auto simp: bind_res_eq_Inr field_def split: if_splits option.splits)
    ultimately show ?thesis by (auto simp: apply_locked_def r commit_def split: bool.splits)
  next
    case False
    then show ?thesis
      by (auto simp: apply_locked_def split: sum.splits)
  qed
qed

lemma policy_load_storable:
  assumes "profiles_ok defaults" "json_ok file"
  shows "storable_policy defaults (policy_load defaults file)"
proof -
  let ?raw = "as_dict (dget (as_dict file) ''profiles'')"
  let ?t = "policy_load defaults file"
  have raw: "dict_ok (as_dict (dget (as_dict file) k))" for k using assms(2) by (simp add: json_ok_def)
  have get: "dget (ps_profiles ?t) i =
     (case dget (map (default_profile ?raw) defaults) i of Some p \<Rightarrow> Some p
      | None \<Rightarrow> (case dget (sorted_items ?raw) i of
                   Some e \<Rightarrow> if is_dict e \<and> profile_id i then Some (adopted_policy e) else None
                 | None \<Rightarrow> None))" for i
    using dget_fold_adopt [of "sorted_items ?raw" "map (default_profile ?raw) defaults" i] raw
    by (simp add: policy_load_def Let_def adopt_stored_profiles_def dict_ok_sorted)
  have key: "i \<in> set (dkeys (ps_profiles ?t)) \<longleftrightarrow> dget (ps_profiles ?t) i \<noteq> None" for i
    by (simp add: dget_None_iff dhas_def)
  have dkey: "i \<in> set (dkeys defaults) \<longleftrightarrow> dget defaults i \<noteq> None" for i
    by (simp add: dget_None_iff dhas_def)
  have "0 \<le> sanitized_revision v" for v
    by (auto simp: sanitized_revision_def split: option.split pyval.split)
  then have "policy_ok ?t"
    using assms(1) raw
    by (auto simp: policy_load_def Let_def policy_ok_def choices_ok_load adopt_stored_profiles_def
        fold_adopt_ok default_profiles_ok)
  moreover have "set (dkeys defaults) \<subseteq> set (dkeys (ps_profiles ?t))"
    by (auto simp: key dkey get dget_default)
  moreover have "i \<in> set (dkeys defaults) \<or> profile_id i" if "i \<in> set (dkeys (ps_profiles ?t))" for i
    using that by (auto simp: key dkey get dget_default split: option.splits if_splits)
  ultimately show ?thesis by (simp add: storable_policy_def)
qed

lemma storable_executed:
  assumes "storable_policy defaults s" "env_ok en" "command_ok command" "execute en s command = Inr (Inr t)"
  shows "storable_policy defaults (t\<lparr>ps_revision := ps_revision t + 1\<rparr>)"
  using assms execute_ok [OF _ assms(2-4)] execute_framed [OF assms(4)]
  by (auto simp: storable_policy_def policy_ok_def framed_def)

lemma fold_adopted:
  "profiles_ok d \<Longrightarrow> weight_ok p \<Longrightarrow> profiles_ok (fold (\<lambda>i d. dset i p d) ids d)"
  "set (dkeys (fold (\<lambda>i d. dset i p d) ids d)) = set (dkeys d) \<union> set ids"
  "dget (fold (\<lambda>i d. dset i p d) ids d) i = (if i \<in> set ids then Some p else dget d i)"
proof (induction ids arbitrary: d)
  case (Cons a ids)
  { case 1 then show ?case using Cons by (simp add: profiles_ok_dset) }
  { case 2 show ?case using Cons(2) by (auto simp: dkeys_dset dhas_def) }
  { case 3 show ?case using Cons(3) by auto }
qed simp_all

lemma adopt_storable:
  assumes "storable_policy defaults (ct_state ct)" "\<forall>i \<in> set ids. profile_id i" "weight_ok p"
  shows "storable_policy defaults (ct_state (snd (adopt_profiles ok ids p ct)))"
  using assms fold_adopted(1) [OF _ assms(3)]
  by (auto simp: adopt_profiles_def Let_def storable_policy_def policy_ok_def fold_adopted(2))

lemma control_synced:
  assumes d: "profiles_ok defaults" and r: "control_reachable defaults ct"
  shows "pst.synced defaults (ct_state ct) (ct_file ct)"
  using r
proof (induction rule: control_reachable.induct)
  case (init f)
  then show ?case
    using policy_load_storable [OF d init] by (simp add: control_init_def pst.synced_def)
next
  case (command ct en parsed)
  show ?case
  proof (cases "snd (apply_command en parsed ct) = ct")
    case False
    then obtain cmd where cmd: "parsed = Some (PDict cmd)" "ce_violations en (PDict cmd) = []"
      and ap: "snd (apply_command en parsed ct) = snd (apply_locked en cmd ct)"
      by (auto simp: apply_command_def Let_def split: option.splits pyval.splits if_splits prod.splits sum.splits)
    have "command_ok cmd" using command.hyps(2) cmd(2) by (simp add: env_ok_def)
    with apply_locked_cases [of en cmd ct] False ap command storable_executed show ?thesis
      by (auto simp: pst.synced_def intro!: saved_policy_loads)
  qed (use command in simp)
next
  case (adopt ct ids p ok)
  show ?case
  proof (cases "snd (adopt_profiles ok ids p ct) = ct")
    case False
    then have "ct_file (snd (adopt_profiles ok ids p ct)) = Some (policy_save (ct_state (snd (adopt_profiles ok ids p ct))))"
      by (auto simp: adopt_profiles_def Let_def split: if_splits)
    moreover have "storable_policy defaults (ct_state (snd (adopt_profiles ok ids p ct)))"
      using adopt_storable adopt by (simp add: pst.synced_def)
    ultimately show ?thesis using pst.commit_synced by simp
  qed (use adopt in simp)
qed

section \<open>Properties\<close>

definition expected_revision :: "pyval option \<Rightarrow> int \<Rightarrow> bool" where
  "expected_revision parsed n =
     (case parsed of Some (PDict d) \<Rightarrow>
        (case dget d ''expectedRevision'' of Some r \<Rightarrow> same_number r n | None \<Rightarrow> False) | _ \<Rightarrow> False)"

definition sets_configuration :: "pyval option \<Rightarrow> bool" where
  "sets_configuration parsed =
     (case parsed of Some (PDict d) \<Rightarrow> dget d ''operation'' = Some (PStr SET_PROFILE_CONFIGURATION) | _ \<Rightarrow> False)"

lemma apply_locked_none:
  assumes "fst (apply_locked en command ct) = Inr None"
  shows "(\<exists>r. dget command ''expectedRevision'' = Some r \<and> same_number r (ps_revision (ct_state ct)))"
    and "\<not> ce_save_ok en \<Longrightarrow> dget command ''operation'' = Some (PStr SET_PROFILE_CONFIGURATION)"
    and "ce_save_ok en \<Longrightarrow> snd (apply_locked en command ct) \<noteq> ct"
proof -
  obtain s b where r: "bind_res (field ''expectedRevision'' command) (\<lambda>r.
             if \<not> same_number r (ps_revision (ct_state ct)) then Inr (Inl REVISION_MISMATCH_MESSAGE)
             else bind_res (field ''operation'' command) (\<lambda>operation.
               bind_res (if operation = PStr SET_PROFILE_CONFIGURATION
                              then store_configuration en (ct_state ct) command else Inr None) (\<lambda>e.
                 case e of Some m \<Rightarrow> Inr (Inl m)
                 | None \<Rightarrow> map_res (map_sum id (\<lambda>s. (s, operation = PStr SET_PROFILE_CONFIGURATION)))
                             (execute en (ct_state ct) command)))) = Inr (Inr (s, b))" (is "?r = _")
    using assms by (auto simp: apply_locked_def split: sum.splits prod.splits)
  from r show "\<exists>r. dget command ''expectedRevision'' = Some r \<and> same_number r (ps_revision (ct_state ct))"
    by (auto simp: bind_res_eq_Inr field_def split: if_splits option.splits)
  have b: "b \<longrightarrow> dget command ''operation'' = Some (PStr SET_PROFILE_CONFIGURATION)"
    using r by (auto simp: bind_res_eq_Inr map_res_eq_Inr map_sum_eq_Inr field_def split: if_splits option.splits)
  have ex: "execute en (ct_state ct) command = Inr (Inr s)"
    using r by (auto simp: bind_res_eq_Inr map_res_eq_Inr map_sum_eq_Inr split: if_splits option.splits)
  show "\<not> ce_save_ok en \<Longrightarrow> dget command ''operation'' = Some (PStr SET_PROFILE_CONFIGURATION)"
    using assms b by (auto simp: apply_locked_def r commit_def split: bool.splits)
  have "ps_revision s = ps_revision (ct_state ct)" using execute_framed [OF ex] by (simp add: framed_def)
  then show "ce_save_ok en \<Longrightarrow> snd (apply_locked en command ct) \<noteq> ct"
    by (auto simp: apply_locked_def r commit_def dest!: arg_cong [of _ _ "\<lambda>c. ps_revision (ct_state c)"])
qed

lemma apply_command_cases:
  assumes "apply_command en parsed ct = (a, ct')"
  shows "ak_status a = ''rejected'' \<and> ct' = ct \<or>
    ak_status a = ''applied'' \<and> (\<exists>command. parsed = Some (PDict command) \<and> ce_violations en (PDict command) = [] \<and>
      apply_locked en command ct = (Inr None, ct'))"
proof -
  have "snd (apply_locked en command ct) = ct" if "fst (apply_locked en command ct) \<noteq> Inr None" for command
    using that apply_locked_cases [of en command ct] by auto
  then have l: "fst (apply_locked en command ct) = Inr None \<or> snd (apply_locked en command ct) = ct" for command
    by blast
  show ?thesis
  proof (cases "\<exists>command. parsed = Some (PDict command) \<and> ce_violations en (PDict command) = []")
    case True
    then obtain command where c: "parsed = Some (PDict command)" "ce_violations en (PDict command) = []" by blast
    obtain r t where rt: "apply_locked en command ct = (r, t)" by force
    from assms c rt l [of command] show ?thesis
      by (auto simp: apply_command_def acknowledgement_def Let_def split: sum.splits option.splits)
  next
    case False
    with assms show ?thesis
      by (auto simp: apply_command_def acknowledgement_def Let_def split: option.splits pyval.splits if_splits)
  qed
qed

text \<open>A command is all or nothing: it is answered \<^verbatim>\<open>rejected\<close> with the served policy and
  the file untouched (a batch whose last change is refused included), or \<^verbatim>\<open>applied\<close>, and then it
  named the current revision, and the new policy with the next revision is both served and on
  disk.  Only a configuration whose revision could not be persisted is acknowledged without
  changing the policy.  The acknowledgement always carries the revision and the policy served.\<close>

theorem control_command_atomic:
  assumes "apply_command en parsed ct = (a, ct')"
  shows "(ak_status a = ''rejected'' \<and> ct' = ct \<or>
          ak_status a = ''applied'' \<and> expected_revision parsed (ps_revision (ct_state ct)) \<and>
          (if ce_save_ok en
           then ps_revision (ct_state ct') = ps_revision (ct_state ct) + 1 \<and>
                ct_file ct' = Some (policy_save (ct_state ct'))
           else sets_configuration parsed \<and> ct' = ct)) \<and>
         ak_revision a = ps_revision (ct_state ct') \<and> ak_portfolio a = portfolio (ct_state ct')"
proof -
  have ack: "ak_revision a = ps_revision (ct_state ct') \<and> ak_portfolio a = portfolio (ct_state ct')"
    using assms by (auto simp: apply_command_def acknowledgement_def Let_def
        split: option.splits pyval.splits if_splits prod.splits sum.splits)
  from apply_command_cases [OF assms] show ?thesis
  proof (elim disjE conjE exE)
    fix command
    assume a: "ak_status a = ''applied''" "parsed = Some (PDict command)" "apply_locked en command ct = (Inr None, ct')"
    note n = apply_locked_none [of en command ct]
    have "expected_revision parsed (ps_revision (ct_state ct))"
      using n(1) a by (auto simp: expected_revision_def)
    moreover have "ps_revision (ct_state ct') = ps_revision (ct_state ct) + 1 \<and>
        ct_file ct' = Some (policy_save (ct_state ct'))" if "ce_save_ok en"
      using n(3) that a(3) apply_locked_cases [of en command ct] execute_framed
      by (fastforce simp: framed_def)
    moreover have "sets_configuration parsed \<and> ct' = ct" if "\<not> ce_save_ok en"
      using n(2) that a(2,3) apply_locked_cases [of en command ct] by (auto simp: sets_configuration_def)
    ultimately show ?thesis using a ack by auto
  qed (use ack in simp)
qed

text \<open>C11. No lost update: once a command has been applied and persisted, every command issued
  against the revision it saw is refused, whatever it asks for, and changes nothing.\<close>

theorem control_no_lost_update:
  assumes "apply_command en parsed ct = (a, ct1)" and "ak_status a = ''applied''" and "ce_save_ok en"
    and "expected_revision parsed' (ps_revision (ct_state ct))"
    and "apply_command en' parsed' ct1 = (b, ct2)"
  shows "ak_status b = ''rejected'' \<and> ct2 = ct1"
proof (rule ccontr)
  assume n: "\<not> ?thesis"
  obtain command where c: "parsed = Some (PDict command)" "apply_locked en command ct = (Inr None, ct1)"
    using apply_command_cases [OF assms(1)] assms(2) by auto
  then have "ps_revision (ct_state ct1) = ps_revision (ct_state ct) + 1"
    using apply_locked_cases [of en command ct] apply_locked_none(3) [of en command ct] assms(3) execute_framed
    by (fastforce simp: framed_def)
  moreover obtain command' where c': "parsed' = Some (PDict command')" "apply_locked en' command' ct1 = (Inr None, ct2)"
    using apply_command_cases [OF assms(5)] n by auto
  then obtain r where "dget command' ''expectedRevision'' = Some r" "same_number r (ps_revision (ct_state ct1))"
    using apply_locked_none(1) [of en' command' ct1] by auto
  moreover from assms(4) c' this(1) have "same_number r (ps_revision (ct_state ct))"
    by (simp add: expected_revision_def)
  ultimately show False by (auto simp: same_number_def split: pyval.splits pyfloat.splits if_splits)
qed

text \<open>C12. In every state the service can reach, whatever commands arrive and whichever saves
  fail, the policy served is well-formed and a restart that loads the file serves the very same
  policy.\<close>

theorem control_restart_agrees:
  assumes "profiles_ok defaults" and "control_reachable defaults ct"
  shows "policy_ok (ct_state ct) \<and> same_policy (policy_load defaults (ct_file ct)) (ct_state ct)"
  using control_synced [OF assms] by (simp add: pst.synced_def storable_policy_def)

section \<open>Witnesses\<close>

definition demo_cenv :: cenv where
  "demo_cenv = \<lparr>ce_profile_exists = None, ce_gpu_device_ids = [''gpu-renderD128''], ce_profile_models = (\<lambda>_. []),
     ce_configuration = None, ce_violations = (\<lambda>c. if c = PNone then [] else [''invalid'']),
     ce_save_ok = True, ce_now = 1000\<rparr>"

definition demo_live :: cenv where
  "demo_live = demo_cenv\<lparr>ce_violations := (\<lambda>_. [])\<rparr>"

definition demo_pause :: pyval where
  "demo_pause = PDict [(''id'', PStr ''c1''), (''expectedRevision'', PInt 0), (''operation'', PStr ''set-paused''),
     (''profileId'', PNone), (''value'', PBool True)]"

definition demo_control :: control where
  "demo_control = control_init demo_defaults None"

lemma demo_pause_applied:
  "\<exists>a ct. apply_command demo_live (Some demo_pause) demo_control = (a, ct) \<and> ak_status a = ''applied'' \<and>
     ps_revision (ct_state demo_control) = 0"
  by (simp add: apply_command_def demo_live_def demo_cenv_def demo_pause_def apply_locked_def field_def dget_def
      same_number_def demo_control_def control_init_def policy_load_def as_dict_def sanitized_revision_def
      SET_PROFILE_CONFIGURATION_def execute_def str_of_def commit_def acknowledgement_def Let_def)

theorem control_command_atomic_witness:
  "\<exists>a ct. apply_command demo_live (Some demo_pause) demo_control = (a, ct) \<and> ps_revision (ct_state ct) = 1 \<and>
     ak_revision a = 1"
proof -
  obtain a ct where a: "apply_command demo_live (Some demo_pause) demo_control = (a, ct)"
    "ak_status a = ''applied''" "ps_revision (ct_state demo_control) = 0" using demo_pause_applied by blast
  have "ce_save_ok demo_live" by (simp add: demo_live_def demo_cenv_def)
  with control_command_atomic [OF a(1)] a show ?thesis by auto
qed

theorem control_no_lost_update_witness:
  "\<exists>a ct b ct'. apply_command demo_live (Some demo_pause) demo_control = (a, ct) \<and>
     apply_command demo_live (Some demo_pause) ct = (b, ct') \<and> ak_status b = ''rejected'' \<and> ct' = ct"
proof -
  obtain a ct where a: "apply_command demo_live (Some demo_pause) demo_control = (a, ct)"
    "ak_status a = ''applied''" "ps_revision (ct_state demo_control) = 0" using demo_pause_applied by blast
  obtain b ct' where b: "apply_command demo_live (Some demo_pause) ct = (b, ct')" by force
  have "ce_save_ok demo_live" by (simp add: demo_live_def demo_cenv_def)
  moreover have "expected_revision (Some demo_pause) (ps_revision (ct_state demo_control))"
    by (simp add: a(3) expected_revision_def demo_pause_def dget_def same_number_def)
  ultimately show ?thesis using control_no_lost_update [OF a(1,2) _ _ b] a(1) b by blast
qed

theorem control_restart_agrees_witness:
  "same_policy (policy_load demo_defaults (ct_file (snd (adopt_profiles True [''a-plugin''] \<lparr>po_enabled = True, po_weight = 1\<rparr> demo_control))))
     (ct_state (snd (adopt_profiles True [''a-plugin''] \<lparr>po_enabled = True, po_weight = 1\<rparr> demo_control)))"
proof -
  have "control_reachable demo_defaults demo_control"
    unfolding demo_control_def by (rule control_reachable.init) (simp add: json_ok_def as_dict_def)
  moreover have "profile_id ''a-plugin''" by code_simp
  ultimately have "control_reachable demo_defaults (snd (adopt_profiles True [''a-plugin''] \<lparr>po_enabled = True, po_weight = 1\<rparr> demo_control))"
    by (intro control_reachable.adopt) (simp_all add: weight_ok_def MIN_WEIGHT_def MAX_WEIGHT_def)
  from control_restart_agrees [OF demo_defaults_ok this] show ?thesis by blast
qed

end
