(* ===== verification/Backend_Routing.thy ===== *)
theory Backend_Routing
  imports OT_Prelude "HOL-Library.Char_ord" "HOL-Library.List_Lexorder"
begin

text \<open>
  Which accelerator serves a workload: the executor contract of
  \<^verbatim>\<open>src/omnitensor/executors/base.py\<close> (availability, supported formats, the most actionable
  refusal), the routing of \<^verbatim>\<open>src/omnitensor/scheduler.py\<close> (\<^verbatim>\<open>select_backend\<close>,
  \<^verbatim>\<open>runnable_model\<close>) and the parts of \<^verbatim>\<open>Workload\<close> in \<^verbatim>\<open>src/omnitensor/registry.py\<close> they read.
  What an executor answers about its own health is native-library code: it is a field of the
  executor record.
\<close>

section \<open>Workloads, models and executors\<close>

record model =
  md_id :: string
  md_version :: string
  md_format :: string
  md_sha256 :: "string option"
  md_companions :: "(string \<times> string) list option"
  md_contract :: "pyval option"

text \<open>An entry of the \<^verbatim>\<open>artifacts\<close> allowlist of the manifest's \<^verbatim>\<open>plugin\<close> section.\<close>

record artifact_entry =
  ae_id :: string
  ae_version :: string
  ae_format :: string
  ae_sha256 :: string
  ae_source_uri :: "string option"
  ae_license_spdx :: "string option"

text \<open>
  The requirements of a manifest: \<^verbatim>\<open>acceleratorPreference\<close>, \<^verbatim>\<open>models\<close> and \<^verbatim>\<open>model\<close>, each of which
  may be absent, and its allowlisted artifacts.
\<close>

record workload =
  wl_id :: string
  wl_declared_preference :: "string list option"
  wl_declared_models :: "model list option"
  wl_declared_model :: "model option"
  wl_artifacts :: "artifact_entry list"

definition BACKENDS :: "string list" where
  "BACKENDS = [''gpu'', ''npu'', ''tpu'']"

definition DEFAULT_PREFERENCE :: "string list" where
  "DEFAULT_PREFERENCE = BACKENDS"

definition preference :: "workload \<Rightarrow> string list" where
  "preference wl =
     (case wl_declared_preference wl of
        Some (b # bs) \<Rightarrow> b # bs | _ \<Rightarrow> DEFAULT_PREFERENCE)"

definition models :: "workload \<Rightarrow> model list" where
  "models wl =
     (case wl_declared_models wl of
        Some (m # ms) \<Rightarrow> m # ms
      | _ \<Rightarrow> (case wl_declared_model wl of Some m \<Rightarrow> [m] | None \<Rightarrow> []))"

definition model_for :: "workload \<Rightarrow> string \<Rightarrow> model option" where
  "model_for wl fmt = find (\<lambda>m. md_format m = fmt) (models wl)"

definition first_model :: "workload \<Rightarrow> model option" where
  "first_model wl = (case models wl of [] \<Rightarrow> None | m # _ \<Rightarrow> Some m)"

record availability =
  av_available :: bool
  av_reason :: string
  av_code :: string

text \<open>\<open>ex_availability_for\<close> is present when the executor implements \<^verbatim>\<open>ModelAwareAvailability\<close>.\<close>

record executor =
  ex_backend :: string
  ex_formats :: "string list"
  ex_availability :: availability
  ex_availability_for :: "(model option \<Rightarrow> availability) option"

definition DEVICE_ABSENT :: string where "DEVICE_ABSENT = ''device-absent''"
definition RUNTIME_MISSING :: string where "RUNTIME_MISSING = ''runtime-missing''"
definition RUNTIME_UNUSABLE :: string where "RUNTIME_UNUSABLE = ''runtime-unusable''"
definition FORMAT_UNSUPPORTED :: string where "FORMAT_UNSUPPORTED = ''format-unsupported''"
definition NO_EXECUTOR :: string where "NO_EXECUTOR = ''no-executor''"
definition NO_PREFERENCE :: string where "NO_PREFERENCE = ''no-preference''"

definition ACTIONABILITY :: "string list" where
  "ACTIONABILITY = [RUNTIME_MISSING, RUNTIME_UNUSABLE, FORMAT_UNSUPPORTED, DEVICE_ABSENT]"

definition most_actionable :: "string list \<Rightarrow> string" where
  "most_actionable codes =
     (let present = filter (\<lambda>c. c \<noteq> []) codes
      in case find (\<lambda>c. c \<in> set present) ACTIONABILITY of
           Some c \<Rightarrow> c
         | None \<Rightarrow> (case py_min (\<lambda>c. c) present of None \<Rightarrow> [] | Some c \<Rightarrow> c))"

definition require_available :: "executor \<Rightarrow> unit res" where
  "require_available ex =
     (if av_available (ex_availability ex) then Inr ()
      else Inl (RuntimeError (ex_backend ex @ '' executor unavailable: '' @ av_reason (ex_availability ex))))"

definition supports_model :: "executor \<Rightarrow> model option \<Rightarrow> bool" where
  "supports_model ex m = (case m of None \<Rightarrow> True | Some md \<Rightarrow> md_format md \<in> set (ex_formats ex))"

definition availability_for_model :: "executor \<Rightarrow> model option \<Rightarrow> availability" where
  "availability_for_model ex m =
     (case ex_availability_for ex of Some f \<Rightarrow> f m | None \<Rightarrow> ex_availability ex)"

text \<open>
  The availability ladder of \<^verbatim>\<open>CachingExecutor\<close>: device, runtime, then the runtime's own health.
\<close>

definition caching_availability ::
    "bool \<Rightarrow> bool \<Rightarrow> string \<Rightarrow> string \<Rightarrow> availability \<Rightarrow> availability" where
  "caching_availability device_present runtime_present device_absent_reason runtime_missing_reason health =
     (if \<not> device_present
      then \<lparr>av_available = False, av_reason = device_absent_reason, av_code = DEVICE_ABSENT\<rparr>
      else if \<not> runtime_present
      then \<lparr>av_available = False, av_reason = runtime_missing_reason, av_code = RUNTIME_MISSING\<rparr>
      else health)"

section \<open>Routing\<close>

text \<open>\<open>Unsupported\<close> is the sentinel object, distinct from a workload without a model.\<close>

datatype runnable = Unsupported | Runnable "model option"

definition runnable_for :: "executor \<Rightarrow> workload \<Rightarrow> runnable" where
  "runnable_for ex wl =
     (if models wl = [] then Runnable None
      else case find (\<lambda>m. supports_model ex (Some m)) (models wl) of
             Some m \<Rightarrow> Runnable (Some m) | None \<Rightarrow> Unsupported)"

definition runnable_model :: "workload \<Rightarrow> string \<Rightarrow> executor dict \<Rightarrow> model option" where
  "runnable_model wl backend executors =
     (case dget executors backend of
        None \<Rightarrow> None
      | Some ex \<Rightarrow> (case runnable_for ex wl of Unsupported \<Rightarrow> None | Runnable m \<Rightarrow> m))"

record backend_choice =
  bc_backend :: "string option"
  bc_reason :: string
  bc_code :: string

text \<open>Why one backend is refused, as its reason and code; \<open>None\<close> when it can serve.\<close>

definition refusal :: "workload \<Rightarrow> executor dict \<Rightarrow> string \<Rightarrow> (string \<times> string) option" where
  "refusal wl executors backend =
     (case dget executors backend of
        None \<Rightarrow> Some (backend @ '': no executor'', NO_EXECUTOR)
      | Some ex \<Rightarrow>
          (case runnable_for ex wl of
             Unsupported \<Rightarrow> Some (backend @ '': model format not supported'', FORMAT_UNSUPPORTED)
           | Runnable m \<Rightarrow>
               (let av = availability_for_model ex m
                in if av_available av then None
                   else Some (backend @ '': '' @ av_reason av, av_code av))))"

fun join :: "string \<Rightarrow> string list \<Rightarrow> string" where
  "join sep [] = []"
| "join sep [x] = x"
| "join sep (x # y # ys) = x @ sep @ join sep (y # ys)"

text \<open>The loop over the preference, with the reasons and codes collected so far.\<close>

fun select_loop ::
    "workload \<Rightarrow> executor dict \<Rightarrow> string list \<Rightarrow> string list \<Rightarrow> string list \<Rightarrow> backend_choice" where
  "select_loop wl executors [] reasons codes =
     (if reasons = []
      then \<lparr>bc_backend = None, bc_reason = ''No backend in preference list'', bc_code = NO_PREFERENCE\<rparr>
      else \<lparr>bc_backend = None, bc_reason = join ''; '' reasons,
            bc_code = (let c = most_actionable codes in if c = [] then NO_EXECUTOR else c)\<rparr>)"
| "select_loop wl executors (b # bs) reasons codes =
     (case refusal wl executors b of
        Some (reason, code) \<Rightarrow> select_loop wl executors bs (reasons @ [reason]) (codes @ [code])
      | None \<Rightarrow> \<lparr>bc_backend = Some b, bc_reason = [], bc_code = []\<rparr>)"

definition select_backend :: "workload \<Rightarrow> executor dict \<Rightarrow> backend_choice" where
  "select_backend wl executors =
     select_loop wl executors (preference wl) [] []"

text \<open>\<^verbatim>\<open>select_runtime_model\<close> of \<^verbatim>\<open>dispatch_routing.py\<close>.\<close>

definition select_runtime_model :: "workload \<Rightarrow> executor dict \<Rightarrow> model option" where
  "select_runtime_model wl executors =
     (case bc_backend (select_backend wl executors) of
        None \<Rightarrow> None | Some b \<Rightarrow> runnable_model wl b executors)"

section \<open>What routing guarantees\<close>

definition usable :: "workload \<Rightarrow> executor dict \<Rightarrow> string \<Rightarrow> bool" where
  "usable wl executors b \<longleftrightarrow>
     (\<exists>ex. dget executors b = Some ex \<and>
        (if models wl = [] then av_available (availability_for_model ex None)
         else \<exists>m \<in> set (models wl). find (\<lambda>m. supports_model ex (Some m)) (models wl) = Some m \<and>
                supports_model ex (Some m) \<and> av_available (availability_for_model ex (Some m))))"

lemma find_Some_mem: "find P xs = Some x \<Longrightarrow> x \<in> set xs \<and> P x"
  by (induction xs) (auto split: if_splits)

lemma refusal_None_iff: "refusal wl executors b = None \<longleftrightarrow> usable wl executors b"
  by (auto simp: refusal_def usable_def runnable_for_def Let_def
      split: option.splits runnable.splits if_splits dest: find_Some_mem)

lemma refusal_nonempty: "refusal wl executors b = Some (r, c) \<Longrightarrow> r \<noteq> []"
  by (auto simp: refusal_def Let_def split: option.splits runnable.splits if_splits)

lemma select_loop_spec:
  "case bc_backend (select_loop wl executors bs rs cs) of
     Some b \<Rightarrow> (\<exists>us vs. bs = us @ b # vs \<and> usable wl executors b \<and> (\<forall>u \<in> set us. \<not> usable wl executors u))
   | None \<Rightarrow> \<forall>b \<in> set bs. \<not> usable wl executors b"
proof (induction bs arbitrary: rs cs)
  case (Cons b bs)
  show ?case
  proof (cases "refusal wl executors b")
    case None
    then have "usable wl executors b" by (simp flip: refusal_None_iff)
    with None show ?thesis by simp (rule exI [of _ "[]"], simp)
  next
    case (Some rc)
    then have nu: "\<not> usable wl executors b" by (simp flip: refusal_None_iff)
    obtain r c where rc: "rc = (r, c)" by force
    have st: "select_loop wl executors (b # bs) rs cs = select_loop wl executors bs (rs @ [r]) (cs @ [c])"
      using Some rc by simp
    show ?thesis
    proof (cases "bc_backend (select_loop wl executors bs (rs @ [r]) (cs @ [c]))")
      case None
      with Cons.IH [of "rs @ [r]" "cs @ [c]"] nu st show ?thesis by auto
    next
      case (Some b')
      with Cons.IH [of "rs @ [r]" "cs @ [c]"] obtain us vs where
        "bs = us @ b' # vs" "usable wl executors b'" "\<forall>u \<in> set us. \<not> usable wl executors u" by auto
      then have "b # bs = (b # us) @ b' # vs" "\<forall>u \<in> set (b # us). \<not> usable wl executors u"
        using nu by simp_all
      with \<open>usable wl executors b'\<close> show ?thesis unfolding st Some option.case by blast
    qed
  qed
qed simp

lemma most_actionable_in: "most_actionable codes \<noteq> [] \<Longrightarrow> most_actionable codes \<in> set codes"
proof -
  let ?p = "filter (\<lambda>c. c \<noteq> []) codes"
  assume ne: "most_actionable codes \<noteq> []"
  show ?thesis
  proof (cases "find (\<lambda>c. c \<in> set ?p) ACTIONABILITY")
    case (Some c)
    then show ?thesis using find_Some_mem [OF Some] by (simp add: most_actionable_def)
  next
    case None
    show ?thesis
    proof (cases "py_min (\<lambda>c. c) ?p")
      case (Some y)
      then show ?thesis using None py_min_least [OF Some] by (simp add: most_actionable_def)
    qed (use None ne in \<open>simp add: most_actionable_def\<close>)
  qed
qed

lemma most_actionable_empty_iff: "most_actionable codes = [] \<longleftrightarrow> (\<forall>c \<in> set codes. c = [])"
proof
  assume e: "most_actionable codes = []"
  show "\<forall>c \<in> set codes. c = []"
  proof (rule ccontr)
    assume "\<not> (\<forall>c \<in> set codes. c = [])"
    then have ne: "filter (\<lambda>c. c \<noteq> []) codes \<noteq> []" by (auto simp: filter_empty_conv)
    then obtain y where y: "py_min (\<lambda>c. c) (filter (\<lambda>c. c \<noteq> []) codes) = Some y" using py_min_ex by blast
    then have "y \<noteq> []" using py_min_least by fastforce
    with e y show False
    proof (cases "find (\<lambda>c. c \<in> set (filter (\<lambda>c. c \<noteq> []) codes)) ACTIONABILITY")
      case (Some c)
      then show False using find_Some_mem [OF Some] e by (simp add: most_actionable_def)
    qed (simp add: most_actionable_def)
  qed
next
  assume a: "\<forall>c \<in> set codes. c = []"
  show "most_actionable codes = []" using a most_actionable_in [of codes] by blast
qed

text \<open>The backend chosen for a workload is the first of its preference that has an executor
  whose runtime is available for the model it would run; the chosen backend then always has a
  declared model of its own format to run (when the workload declares any).  There is no
  fallback: when no preferred backend qualifies none is chosen, and the refusal carries a
  reason and a code.\<close>

theorem select_backend_first:
  "case bc_backend (select_backend wl executors) of
     Some b \<Rightarrow>
       (\<exists>us vs. preference wl = us @ b # vs \<and> (\<forall>u \<in> set us. \<not> usable wl executors u)) \<and>
       usable wl executors b \<and>
       (models wl \<noteq> [] \<longrightarrow>
          (\<exists>m ex. runnable_model wl b executors = Some m \<and> m \<in> set (models wl) \<and>
             dget executors b = Some ex \<and> md_format m \<in> set (ex_formats ex) \<and>
             av_available (availability_for_model ex (Some m))))
   | None \<Rightarrow>
       (\<forall>b \<in> set (preference wl). \<not> usable wl executors b) \<and>
       bc_code (select_backend wl executors) \<noteq> []"
proof -
  have code: "bc_backend (select_loop wl executors bs rs cs) = None \<Longrightarrow>
      bc_code (select_loop wl executors bs rs cs) \<noteq> []" for bs rs cs
    by (induction bs arbitrary: rs cs)
      (auto simp: NO_PREFERENCE_def NO_EXECUTOR_def Let_def split: option.splits)
  have run: "usable wl executors b \<Longrightarrow> models wl \<noteq> [] \<Longrightarrow>
      \<exists>m ex. runnable_model wl b executors = Some m \<and> m \<in> set (models wl) \<and>
         dget executors b = Some ex \<and> md_format m \<in> set (ex_formats ex) \<and>
         av_available (availability_for_model ex (Some m))" for b
    by (auto simp: usable_def runnable_model_def runnable_for_def supports_model_def)
  show ?thesis
    using select_loop_spec [where bs = "preference wl" and rs = "[]" and cs = "[]" and wl = wl and executors = executors] code run
    by (auto simp: select_backend_def split: option.splits)
qed

section \<open>A routing example\<close>

text \<open>The GPU lane has no executor that runs the model's format; the NPU lane is available.\<close>

definition route_workload :: workload where
  "route_workload = \<lparr>wl_id = ''p'', wl_declared_preference = None, wl_declared_models = None,
     wl_declared_model = Some \<lparr>md_id = ''net'', md_version = ''1.0.0'', md_format = ''openvino'', md_sha256 = None,
       md_companions = None, md_contract = None\<rparr>, wl_artifacts = []\<rparr>"

definition route_executors :: "executor dict" where
  "route_executors =
     (let ready = \<lparr>av_available = True, av_reason = [], av_code = []\<rparr>
      in [(''gpu'', \<lparr>ex_backend = ''gpu'', ex_formats = [''ncnn''], ex_availability = ready, ex_availability_for = None\<rparr>),
          (''npu'', \<lparr>ex_backend = ''npu'', ex_formats = [''openvino''], ex_availability = ready, ex_availability_for = None\<rparr>)])"

theorem select_backend_first_witness:
  "bc_backend (select_backend route_workload route_executors) = Some ''npu'' \<and>
   usable route_workload route_executors ''npu''"
proof -
  have "bc_backend (select_backend route_workload route_executors) = Some ''npu''" by code_simp
  with select_backend_first [of route_workload route_executors] show ?thesis by simp
qed

end
