(* ===== verification/Backend_Scheduler.thy ===== *)
theory Backend_Scheduler
  imports Stride_Queue Backend_Routing
begin

text \<open>
  The accelerator lanes of \<^verbatim>\<open>src/omnitensor/scheduler.py\<close>: one stride queue and one worker per
  backend.  A job's asyncio future is a number, the table \<open>sc_fut\<close> says how it was settled.
  The worker coroutine is split at its awaits: it takes a job (\<open>worker_take\<close>), and when the
  executor answers it settles the job (\<open>worker_settle\<close>).  A worker whose backend is removed is
  cancelled; the job it was executing is kept in \<open>sc_retired\<close> until the cancellation is
  delivered (\<open>retired_settle\<close>).  Time is passed in; inference results are opaque.
\<close>

section \<open>State\<close>

record sjob =
  sj_workload :: string
  sj_path :: string
  sj_inputs :: "pyval list"
  sj_future :: nat
  sj_format :: "string option"

record bqueue =
  bq_stride :: "sjob stride_queue"
  bq_busy :: rat
  bq_load :: "rat option"

datatype ffut = FPending | FResult pyval | FError exn | FCancelled

record sched =
  sc_executors :: "executor dict"
  sc_max_depth :: nat
  sc_queues :: "bqueue dict"
  sc_running :: "nat dict"
  sc_workers :: "sjob option dict"
  sc_retired :: "sjob list"
  sc_degraded :: "string dict"
  sc_started :: bool
  sc_stopped :: bool
  sc_fut :: "nat \<Rightarrow> ffut"
  sc_next :: nat
  sc_last_tick :: rat

definition MAX_SNAPSHOT_QUEUE_DEPTH :: nat where "MAX_SNAPSHOT_QUEUE_DEPTH = 1000000"
definition MAX_BACKEND_QUEUE_DEPTH :: nat where
  "MAX_BACKEND_QUEUE_DEPTH = MAX_SNAPSHOT_QUEUE_DEPTH div length BACKENDS"

definition bqueue_init :: bqueue where
  "bqueue_init = \<lparr>bq_stride = stride_init, bq_busy = 0, bq_load = None\<rparr>"

definition sched_init :: "executor dict \<Rightarrow> int \<Rightarrow> rat \<Rightarrow> sched res" where
  "sched_init executors max_backend_queue_depth now =
     (if max_backend_queue_depth < 1 then Inl ValueError
      else Inr \<lparr>sc_executors = executors, sc_max_depth = nat max_backend_queue_depth,
                sc_queues = map (\<lambda>(b, _). (b, bqueue_init)) executors,
                sc_running = [], sc_workers = [], sc_retired = [], sc_degraded = [],
                sc_started = False, sc_stopped = False, sc_fut = (\<lambda>_. FPending), sc_next = 0,
                sc_last_tick = now\<rparr>)"

section \<open>Operations\<close>

text \<open>\<^verbatim>\<open>if not future.done(): future.set...\<close>.\<close>

definition settle_fut :: "nat \<Rightarrow> ffut \<Rightarrow> (nat \<Rightarrow> ffut) \<Rightarrow> nat \<Rightarrow> ffut" where
  "settle_fut i v f = (if f i = FPending then f(i := v) else f)"

definition settle :: "nat \<Rightarrow> ffut \<Rightarrow> sched \<Rightarrow> sched" where
  "settle i v s = s\<lparr>sc_fut := settle_fut i v (sc_fut s)\<rparr>"

definition spawn_worker :: "string \<Rightarrow> sched \<Rightarrow> sched" where
  "spawn_worker b s = s\<lparr>sc_workers := dset b None (sc_workers s)\<rparr>"

definition sched_start :: "sched \<Rightarrow> sched" where
  "sched_start s = fold spawn_worker (dkeys (sc_executors s)) (s\<lparr>sc_started := True\<rparr>)"

definition clear_degradation :: "string \<Rightarrow> sched \<Rightarrow> sched" where
  "clear_degradation b s = s\<lparr>sc_degraded := dpop b (sc_degraded s)\<rparr>"

text \<open>Every job queued in a lane, in the order the dictionary lists them.\<close>

definition lane_jobs :: "bqueue \<Rightarrow> sjob list" where
  "lane_jobs bq = concat (dvals (sq_items (bq_stride bq)))"

definition cancel_queued :: "bqueue \<Rightarrow> sched \<Rightarrow> sched" where
  "cancel_queued bq s = fold (\<lambda>j. settle (sj_future j) FCancelled) (lane_jobs bq) s"

definition emptied :: "bqueue \<Rightarrow> bqueue" where
  "emptied bq = bq\<lparr>bq_stride := (bq_stride bq)\<lparr>sq_items := map (\<lambda>(k, _). (k, [])) (sq_items (bq_stride bq))\<rparr>\<rparr>"

definition remove_backend :: "string \<Rightarrow> sched \<Rightarrow> sched res" where
  "remove_backend b s =
     (let s1 = clear_degradation b s;
          s2 = (case dget (sc_workers s1) b of
                  None \<Rightarrow> s1
                | Some None \<Rightarrow> s1\<lparr>sc_workers := dpop b (sc_workers s1)\<rparr>
                | Some (Some j) \<Rightarrow> s1\<lparr>sc_workers := dpop b (sc_workers s1), sc_retired := sc_retired s1 @ [j]\<rparr>)
      in case dget (sc_queues s2) b of
           None \<Rightarrow> Inl KeyError
         | Some bq \<Rightarrow> Inr (cancel_queued bq (s2\<lparr>sc_queues := dpop b (sc_queues s2)\<rparr>)))"

definition add_backend :: "string \<Rightarrow> sched \<Rightarrow> sched" where
  "add_backend b s =
     (if dhas (sc_queues s) b then s
      else let s1 = s\<lparr>sc_queues := dset b bqueue_init (sc_queues s)\<rparr>
           in if sc_started s1 \<and> \<not> sc_stopped s1 then spawn_worker b s1 else s1)"

fun remove_backends :: "string list \<Rightarrow> sched \<Rightarrow> sched res" where
  "remove_backends [] s = Inr s"
| "remove_backends (b # bs) s = bind_res (remove_backend b s) (remove_backends bs)"

definition update_executors :: "executor dict \<Rightarrow> sched \<Rightarrow> sched res" where
  "update_executors executors s =
     (let removed = filter (\<lambda>b. \<not> dhas executors b) (dkeys (sc_executors s))
      in map_res (fold add_backend (dkeys executors))
           (remove_backends removed (s\<lparr>sc_executors := executors\<rparr>)))"

definition sched_submit ::
    "string \<Rightarrow> string \<Rightarrow> string \<Rightarrow> pyval list \<Rightarrow> string option \<Rightarrow> sched \<Rightarrow> (nat \<times> sched) res" where
  "sched_submit backend workload_id path inputs fmt s =
     (if sc_stopped s then Inl (RuntimeError ''scheduler is stopped'')
      else case dget (sc_queues s) backend of
             None \<Rightarrow> Inl KeyError
           | Some bq \<Rightarrow>
               if sc_max_depth s \<le> stride_depth (bq_stride bq)
               then Inl (QueueFullError (backend @ '' queue is full ('' @ nat_str (sc_max_depth s) @ '' jobs)''))
               else let i = sc_next s;
                        job = \<lparr>sj_workload = workload_id, sj_path = path, sj_inputs = inputs,
                               sj_future = i, sj_format = fmt\<rparr>
                    in Inr (i, s\<lparr>sc_queues := dset backend
                                    (bq\<lparr>bq_stride := stride_push workload_id job (bq_stride bq)\<rparr>) (sc_queues s),
                                sc_fut := (sc_fut s)(i := FPending), sc_next := Suc i\<rparr>))"

definition job_finished :: "string \<Rightarrow> sched \<Rightarrow> sched" where
  "job_finished k s =
     (let n = int (dcount (sc_running s) k) - 1
      in s\<lparr>sc_running := (if n \<le> 0 then dpop k (sc_running s) else dset k (nat n) (sc_running s))\<rparr>)"

text \<open>Every profile of the lane is popped from the three tables, as a drained one is.\<close>

definition forget_profiles :: "sjob stride_queue \<Rightarrow> sjob stride_queue" where
  "forget_profiles q = fold stride_prune (dkeys (sq_items q)) q"

definition degrade :: "string \<Rightarrow> string \<Rightarrow> sched \<Rightarrow> sched" where
  "degrade b error_name s =
     (case dget (sc_queues s) b of
        None \<Rightarrow> s\<lparr>sc_degraded := dset b error_name (sc_degraded s)\<rparr>
      | Some bq \<Rightarrow>
          fold (\<lambda>j. settle (sj_future j) (FError (RuntimeError (b @ '' scheduling failed: '' @ error_name))))
            (lane_jobs bq)
            (s\<lparr>sc_degraded := dset b error_name (sc_degraded s),
               sc_queues := dset b (bq\<lparr>bq_stride := forget_profiles (bq_stride bq)\<rparr>) (sc_queues s)\<rparr>))"

text \<open>
  One turn of the worker loop up to the executor call: take the next job in stride order, or
  wait; a failure of the queue itself degrades the backend.
\<close>

definition worker_take ::
    "(string \<Rightarrow> pyval) \<Rightarrow> (string \<Rightarrow> bool) option \<Rightarrow> string \<Rightarrow> sched \<Rightarrow> sched" where
  "worker_take w a b s =
     (case dget (sc_queues s) b of
        None \<Rightarrow> s
      | Some bq \<Rightarrow>
          (case stride_pop w a (bq_stride bq) of
             Inl e \<Rightarrow> degrade b (exn_name e) s
           | Inr (None, q) \<Rightarrow> s\<lparr>sc_queues := dset b (bq\<lparr>bq_stride := q\<rparr>) (sc_queues s)\<rparr>
           | Inr (Some (k, job), q) \<Rightarrow>
               s\<lparr>sc_queues := dset b (bq\<lparr>bq_stride := q\<rparr>) (sc_queues s),
                 sc_running := dset (sj_workload job) (dcount (sc_running s) (sj_workload job) + 1) (sc_running s),
                 sc_workers := dset b (Some job) (sc_workers s)\<rparr>))"

text \<open>How the executor call ended: a result, an ordinary exception, or a fatal one.\<close>

datatype outcome = Done pyval | Failed exn | Fatal string string

definition worker_settle :: "string \<Rightarrow> sjob \<Rightarrow> outcome \<Rightarrow> rat \<Rightarrow> sched \<Rightarrow> sched" where
  "worker_settle b job out elapsed s =
     (let s1 = (case out of
                  Done r \<Rightarrow> settle (sj_future job) (FResult r) (clear_degradation b s)
                | Failed e \<Rightarrow> settle (sj_future job) (FError e) s
                | Fatal name r \<Rightarrow> settle (sj_future job) (FError (RuntimeError r)) s);
          s2 = (case dget (sc_queues s1) b of
                  None \<Rightarrow> s1
                | Some bq \<Rightarrow> s1\<lparr>sc_queues := dset b (bq\<lparr>bq_busy := bq_busy bq + elapsed * 1000\<rparr>) (sc_queues s1)\<rparr>);
          s3 = (job_finished (sj_workload job) s2)\<lparr>sc_workers := dset b None (sc_workers s2)\<rparr>
      in case out of Fatal name r \<Rightarrow> degrade b name s3 | _ \<Rightarrow> s3)"

text \<open>The cancellation of a worker reaches the job it was executing.\<close>

definition cancel_running :: "sjob \<Rightarrow> sched \<Rightarrow> sched" where
  "cancel_running job s = job_finished (sj_workload job) (settle (sj_future job) FCancelled s)"

definition retired_settle :: "sjob \<Rightarrow> sched \<Rightarrow> sched" where
  "retired_settle job s = cancel_running job (s\<lparr>sc_retired := remove1 job (sc_retired s)\<rparr>)"

definition executing_jobs :: "sched \<Rightarrow> sjob list" where
  "executing_jobs s =
     concat (map (\<lambda>x. case x of None \<Rightarrow> [] | Some j \<Rightarrow> [j]) (dvals (sc_workers s))) @ sc_retired s"

text \<open>
  \<open>elapsed b\<close> is the time since the worker of lane \<open>b\<close> started its job, charged to the lane
  when the worker unwinds.
\<close>

definition charge :: "(string \<Rightarrow> rat) \<Rightarrow> sched \<Rightarrow> string \<times> bqueue \<Rightarrow> string \<times> bqueue" where
  "charge elapsed s = (\<lambda>(b, bq).
     (b, case dget (sc_workers s) b of
           Some (Some _) \<Rightarrow> bq\<lparr>bq_busy := bq_busy bq + elapsed b * 1000\<rparr> | _ \<Rightarrow> bq))"

definition sched_stop :: "(string \<Rightarrow> rat) \<Rightarrow> sched \<Rightarrow> sched" where
  "sched_stop elapsed s =
     (let s1 = fold cancel_running (executing_jobs s)
                 (s\<lparr>sc_stopped := True, sc_queues := map (charge elapsed s) (sc_queues s)\<rparr>);
          s2 = s1\<lparr>sc_workers := [], sc_retired := [], sc_degraded := []\<rparr>;
          s3 = fold (\<lambda>(b, bq). cancel_queued bq) (sc_queues s2) s2
      in s3\<lparr>sc_queues := map (\<lambda>(b, bq). (b, emptied bq)) (sc_queues s3)\<rparr>)"

section \<open>Figures\<close>

definition LOAD_SMOOTHING :: rat where "LOAD_SMOOTHING = 1 / 2"

record sched_stats =
  st_queue_depth :: nat
  st_running_profiles :: nat
  st_loads :: "rat option dict"

definition sched_stats_of :: "sched \<Rightarrow> sched_stats" where
  "sched_stats_of s =
     \<lparr>st_queue_depth = sum_list (map (\<lambda>(b, bq). stride_depth (bq_stride bq)) (sc_queues s)),
      st_running_profiles = length (sc_running s),
      st_loads = map (\<lambda>(b, bq). (b, bq_load bq)) (sc_queues s)\<rparr>"

definition sched_profile_stats :: "sched \<Rightarrow> (nat \<times> nat) dict" where
  "sched_profile_stats s =
     fold (\<lambda>(k, n). bump_stat k 0 n) (sc_running s)
       (fold (\<lambda>(b, bq). fold (\<lambda>(k, js). bump_stat k (length js) 0) (sq_items (bq_stride bq)))
             (sc_queues s) [])"

definition tick_queue :: "rat \<Rightarrow> bqueue \<Rightarrow> bqueue" where
  "tick_queue elapsed_ms bq =
     (let ratio = min 100 (100 * bq_busy bq / elapsed_ms)
      in bq\<lparr>bq_busy := 0,
            bq_load := Some (case bq_load bq of None \<Rightarrow> ratio
                             | Some l \<Rightarrow> LOAD_SMOOTHING * ratio + (1 - LOAD_SMOOTHING) * l)\<rparr>)"

definition sched_tick :: "rat \<Rightarrow> sched \<Rightarrow> sched" where
  "sched_tick now s =
     (let elapsed_ms = max 1 ((now - sc_last_tick s) * 1000)
      in s\<lparr>sc_last_tick := now,
           sc_queues := map (\<lambda>(b, bq). (b, tick_queue elapsed_ms bq)) (sc_queues s)\<rparr>)"

definition degraded_backends :: "sched \<Rightarrow> string dict" where
  "degraded_backends s = sc_degraded s"

text \<open>\<^verbatim>\<open>SchedulerObservation.of\<close>: one tick, then the figures frozen together.\<close>

definition observe :: "rat \<Rightarrow> sched \<Rightarrow> (sched_stats \<times> (nat \<times> nat) dict \<times> string dict) \<times> sched" where
  "observe now s =
     (let s1 = sched_tick now s
      in ((sched_stats_of s1, sched_profile_stats s1, degraded_backends s1), s1))"

section \<open>Interleaving\<close>

inductive sched_step :: "sched \<Rightarrow> sched \<Rightarrow> bool" where
  start: "\<not> sc_started s \<Longrightarrow> \<not> sc_stopped s \<Longrightarrow> sched_step s (sched_start s)"
| submit: "sched_submit b k p xs fmt s = Inr (i, t) \<Longrightarrow> sched_step s t"
| rediscover: "dict_ok executors \<Longrightarrow> update_executors executors s = Inr t \<Longrightarrow> sched_step s t"
| take: "dget (sc_workers s) b = Some None \<Longrightarrow> sched_step s (worker_take w a b s)"
| broken: "dget (sc_workers s) b = Some None \<Longrightarrow> sched_step s (degrade b name s)"
| settled: "dget (sc_workers s) b = Some (Some job) \<Longrightarrow> sched_step s (worker_settle b job out el s)"
| unwound: "job \<in> set (sc_retired s) \<Longrightarrow> sched_step s (retired_settle job s)"
| abandoned: "sched_step s (settle i FCancelled s)"
| tick: "sched_step s (sched_tick now s)"
| stop: "sched_step s (sched_stop elapsed s)"

inductive sched_reachable :: "sched \<Rightarrow> bool" where
  init: "dict_ok executors \<Longrightarrow> sched_init executors depth now = Inr s \<Longrightarrow> sched_reachable s"
| step: "sched_reachable s \<Longrightarrow> sched_step s t \<Longrightarrow> sched_reachable t"

section \<open>The invariant\<close>

text \<open>How many executing jobs belong to a profile.\<close>

definition busy_with :: "string \<Rightarrow> sjob option \<Rightarrow> nat" where
  "busy_with k x = (case x of None \<Rightarrow> 0 | Some j \<Rightarrow> if sj_workload j = k then 1 else 0)"

definition executing_count :: "string \<Rightarrow> sched \<Rightarrow> nat" where
  "executing_count k s =
     dsumf (busy_with k) (sc_workers s) + length (filter (\<lambda>j. sj_workload j = k) (sc_retired s))"

definition lane_has :: "sched \<Rightarrow> sjob \<Rightarrow> bool" where
  "lane_has s j \<longleftrightarrow> (\<exists>b bq k. dget (sc_queues s) b = Some bq \<and> j \<in> set (stride_abs (bq_stride bq) k))"

definition executing :: "sched \<Rightarrow> sjob \<Rightarrow> bool" where
  "executing s j \<longleftrightarrow> (\<exists>b. dget (sc_workers s) b = Some (Some j)) \<or> j \<in> set (sc_retired s)"

definition tracked :: "sched \<Rightarrow> bool" where
  "tracked s \<longleftrightarrow>
     (\<forall>i < sc_next s. sc_fut s i = FPending \<longrightarrow> (\<exists>j. sj_future j = i \<and> (lane_has s j \<or> executing s j)))"

definition lane_table_ok :: "sched \<Rightarrow> bool" where
  "lane_table_ok s \<longleftrightarrow>
     dict_ok (sc_queues s) \<and>
     (\<forall>b bq. dget (sc_queues s) b = Some bq \<longrightarrow>
        (if sc_stopped s then stride_abs (bq_stride bq) = (\<lambda>_. []) \<and> dict_ok (sq_items (bq_stride bq))
         else stride_ok (bq_stride bq) \<and> stride_depth (bq_stride bq) \<le> sc_max_depth s))"

definition lanes_ok :: "sched \<Rightarrow> bool" where
  "lanes_ok s \<longleftrightarrow>
     lane_table_ok s \<and> dict_ok (sc_executors s) \<and>
     set (dkeys (sc_queues s)) = set (dkeys (sc_executors s))"

definition counts_ok :: "sched \<Rightarrow> bool" where
  "counts_ok s \<longleftrightarrow>
     dict_ok (sc_workers s) \<and> dict_ok (sc_running s) \<and>
     (\<forall>k. dcount (sc_running s) k = executing_count k s) \<and>
     (\<forall>k n. dget (sc_running s) k = Some n \<longrightarrow> 0 < n) \<and>
     set (dkeys (sc_workers s)) \<subseteq> set (dkeys (sc_queues s)) \<and>
     (\<not> sc_started s \<longrightarrow> sc_workers s = []) \<and>
     (sc_stopped s \<longrightarrow> sc_workers s = [] \<and> sc_retired s = [])"

definition sched_inv :: "sched \<Rightarrow> bool" where
  "sched_inv s \<longleftrightarrow> lanes_ok s \<and> counts_ok s \<and> tracked s"

lemma settle_fut_apply: "settle_fut i v f n = (if n = i \<and> f n = FPending then v else f n)"
  by (auto simp: settle_fut_def)

lemma fold_settle:
  "fold (\<lambda>j. settle (g j) v) js s = s\<lparr>sc_fut := fold (\<lambda>j. settle_fut (g j) v) js (sc_fut s)\<rparr>"
  by (induction js arbitrary: s) (simp_all add: settle_def)

lemma fold_settle_fut:
  "v \<noteq> FPending \<Longrightarrow>
     fold (\<lambda>j. settle_fut (g j) v) js f n = (if f n = FPending \<and> n \<in> g ` set js then v else f n)"
  by (induction js arbitrary: f) (auto simp: settle_fut_apply)

lemma cancel_queued_eq:
  "cancel_queued bq s = s\<lparr>sc_fut := fold (\<lambda>j. settle_fut (sj_future j) FCancelled) (lane_jobs bq) (sc_fut s)\<rparr>"
  by (simp add: cancel_queued_def fold_settle)

lemma lane_jobs_abs: "dict_ok (sq_items (bq_stride bq)) \<Longrightarrow>
    j \<in> set (lane_jobs bq) \<longleftrightarrow> (\<exists>k. j \<in> set (stride_abs (bq_stride bq) k))"
proof -
  assume ok: "dict_ok (sq_items (bq_stride bq))"
  have "j \<in> set (lane_jobs bq) \<longleftrightarrow> (\<exists>js. js \<in> set (dvals (sq_items (bq_stride bq))) \<and> j \<in> set js)"
    by (auto simp: lane_jobs_def)
  also have "\<dots> \<longleftrightarrow> (\<exists>k js. dget (sq_items (bq_stride bq)) k = Some js \<and> j \<in> set js)"
    using set_dvals [OF ok] by blast
  also have "\<dots> \<longleftrightarrow> (\<exists>k. j \<in> set (stride_abs (bq_stride bq) k))"
    unfolding stride_abs_def by (metis (no_types, lifting) option.simps(4,5) empty_iff empty_set not_None_eq)
  finally show ?thesis .
qed

lemma lanes_ok_dict:
  assumes "lanes_ok s" "dget (sc_queues s) b = Some bq"
  shows "dict_ok (sq_items (bq_stride bq))"
  using assms unfolding lanes_ok_def lane_table_ok_def by (metis stride_ok_wf stride_wf_dict_ok(1))

lemma dkeys_map: "dkeys (map (\<lambda>(k, v). (k, f k v)) d) = dkeys d"
  by (induction d) (auto simp: dkeys_def)

lemma dict_ok_map: "dict_ok (map (\<lambda>(k, v). (k, f k v)) d) = dict_ok d"
  by (simp add: dict_ok_def dkeys_map)

lemma dget_map: "dget (map (\<lambda>(k, v). (k, f k v)) d) k = map_option (f k) (dget d k)"
  by (induction d) (auto simp: dget_def)

text \<open>The initial state, starting, and taking a job.\<close>

lemma sched_init_inv: "dict_ok executors \<Longrightarrow> sched_init executors depth now = Inr s \<Longrightarrow> sched_inv s"
  by (auto simp: sched_init_def sched_inv_def lanes_ok_def lane_table_ok_def counts_ok_def tracked_def dict_ok_map
      dkeys_map dget_map bqueue_init_def sq.inv_empty sq.depth_empty executing_count_def
      split: if_splits)

lemma fold_spawn:
  "fold spawn_worker bs s = s\<lparr>sc_workers := fold (\<lambda>b. dset b None) bs (sc_workers s)\<rparr>"
  by (induction bs arbitrary: s) (simp_all add: spawn_worker_def)

lemma spawn_count: "dict_ok d \<Longrightarrow> \<not> dhas d b \<Longrightarrow> dsumf (busy_with k) (dset b None d) = dsumf (busy_with k) d"
  using dsumf_dset [of d "busy_with k" b None]
  by (simp add: busy_with_def dweight_def dget_None_iff [symmetric])

lemma fold_spawn_fresh:
  "distinct bs \<Longrightarrow> dict_ok d \<Longrightarrow> \<forall>b \<in> set bs. \<not> dhas d b \<Longrightarrow>
     dict_ok (fold (\<lambda>b. dset b None) bs d) \<and>
     dsumf (busy_with k) (fold (\<lambda>b. dset b None) bs d) = dsumf (busy_with k) d \<and>
     set (dkeys (fold (\<lambda>b. dset b None) bs d)) = set (dkeys d) \<union> set bs"
proof (induction bs arbitrary: d)
  case (Cons a bs)
  then have a: "\<not> dhas d a" "a \<notin> set bs" by auto
  with Cons.prems have "\<forall>b \<in> set bs. \<not> dhas (dset a None d) b" by auto
  with Cons.IH [of "dset a None d"] Cons.prems a show ?case
    by (simp add: spawn_count dkeys_dset)
qed simp

text \<open>A step keeps every pending future tracked if it keeps its job somewhere or settles it.\<close>

lemma tracked_mono:
  assumes "tracked s" and "sc_next t = sc_next s"
    and "\<And>i. sc_fut t i = FPending \<Longrightarrow> sc_fut s i = FPending"
    and "\<And>j. lane_has s j \<Longrightarrow> sc_fut t (sj_future j) = FPending \<Longrightarrow> lane_has t j \<or> executing t j"
    and "\<And>j. executing s j \<Longrightarrow> sc_fut t (sj_future j) = FPending \<Longrightarrow> lane_has t j \<or> executing t j"
  shows "tracked t"
  using assms unfolding tracked_def by metis

lemma executing_keep:
  assumes "executing s j" "set (sc_retired s) \<subseteq> set (sc_retired t)"
    and "\<And>b. dget (sc_workers s) b = Some (Some j) \<Longrightarrow>
           dget (sc_workers t) b = Some (Some j) \<or> j \<in> set (sc_retired t)"
  shows "executing t j"
  using assms unfolding executing_def by blast

lemma sched_start_inv: "sched_inv s \<Longrightarrow> \<not> sc_started s \<Longrightarrow> \<not> sc_stopped s \<Longrightarrow> sched_inv (sched_start s)"
proof -
  assume inv: "sched_inv s" and ns: "\<not> sc_started s" "\<not> sc_stopped s"
  then have e: "sc_workers s = []" by (simp add: sched_inv_def counts_ok_def)
  have ex: "distinct (dkeys (sc_executors s))" using inv by (simp add: sched_inv_def lanes_ok_def lane_table_ok_def dict_ok_def)
  note f = fold_spawn_fresh [OF ex, of "[]"]
  have "tracked (sched_start s)"
    by (rule tracked_mono [of s])
      (use inv e in \<open>auto simp: sched_inv_def lane_has_def executing_def sched_start_def fold_spawn\<close>)
  moreover have "lanes_ok (sched_start s)"
    using inv by (simp add: sched_inv_def lanes_ok_def lane_table_ok_def sched_start_def fold_spawn)
  moreover have "counts_ok (sched_start s)"
    using inv e ns f
    by (auto simp: sched_inv_def counts_ok_def lanes_ok_def lane_table_ok_def sched_start_def fold_spawn
        executing_count_def dhas_def dkeys_def)
  ultimately show ?thesis by (simp add: sched_inv_def)
qed

lemma lane_has_dset:
  assumes "sc_queues t = dset b bq' (sc_queues s)"
  shows "lane_has t j \<longleftrightarrow> (\<exists>k. j \<in> set (stride_abs (bq_stride bq') k)) \<or>
     (\<exists>b' bq k. b' \<noteq> b \<and> dget (sc_queues s) b' = Some bq \<and> j \<in> set (stride_abs (bq_stride bq) k))"
  using assms by (auto simp: lane_has_def split: if_splits)

lemma lane_has_split:
  assumes "dget (sc_queues s) b = Some bq"
  shows "lane_has s j \<longleftrightarrow> (\<exists>k. j \<in> set (stride_abs (bq_stride bq) k)) \<or>
     (\<exists>b' bq k. b' \<noteq> b \<and> dget (sc_queues s) b' = Some bq \<and> j \<in> set (stride_abs (bq_stride bq) k))"
  using assms unfolding lane_has_def by (metis option.inject)

lemma lanes_ok_dset:
  assumes "lanes_ok s" "dget (sc_queues s) b = Some bq" "sc_queues t = dset b bq' (sc_queues s)"
    "sc_executors t = sc_executors s" "sc_stopped t = sc_stopped s" "sc_max_depth t = sc_max_depth s"
    "if sc_stopped s then stride_abs (bq_stride bq') = (\<lambda>_. []) \<and> dict_ok (sq_items (bq_stride bq'))
     else stride_ok (bq_stride bq') \<and> stride_depth (bq_stride bq') \<le> sc_max_depth s"
  shows "lanes_ok t"
proof -
  have "dkeys (sc_queues t) = dkeys (sc_queues s)"
    using assms(2,3) by (simp add: dkeys_dset dhas_iff)
  then show ?thesis
    using assms unfolding lanes_ok_def lane_table_ok_def by (auto simp: dict_ok_def split: if_splits)
qed

lemma lane_of:
  assumes "sched_inv s" "\<not> sc_stopped s" "dget (sc_queues s) b = Some bq"
  shows "stride_ok (bq_stride bq)" "stride_depth (bq_stride bq) \<le> sc_max_depth s"
  using assms by (auto simp: sched_inv_def lanes_ok_def lane_table_ok_def)

lemma fold_prune_all: "stride_wf q \<Longrightarrow> fold stride_prune (sq_order q) q = stride_init"
proof (induction "sq_order q" arbitrary: q)
  case Nil
  then show ?case by (cases q) (auto simp: stride_wf_def stride_init_def dkeys_def)
next
  case (Cons k ks)
  let ?q = "stride_prune k q"
  from Cons have "distinct (k # ks)" by (metis stride_wf_def)
  then have ks: "filter (\<lambda>x. x \<noteq> k) (k # ks) = ks" by (induction ks) auto
  have wf: "stride_wf q" and o: "sq_order q = k # ks" using Cons by simp_all
  have "stride_wf ?q" "sq_order ?q = ks"
    using wf ks o unfolding stride_wf_def stride_prune_def by (simp_all add: dkeys_dpop)
  with Cons.hyps(1) [of ?q] show ?case by (simp flip: Cons.hyps(2))
qed

lemma forget_profiles_empty: "stride_ok q \<Longrightarrow> forget_profiles q = stride_init"
  using fold_prune_all [of q] by (simp add: forget_profiles_def stride_ok_wf) (metis stride_ok_wf stride_wf_def)

lemma degrade_inv:
  assumes inv: "sched_inv s" and st: "\<not> sc_stopped s"
  shows "sched_inv (degrade b name s)"
proof (cases "dget (sc_queues s) b")
  case None
  with inv show ?thesis
    by (auto simp: degrade_def sched_inv_def lanes_ok_def lane_table_ok_def counts_ok_def tracked_def
        lane_has_def executing_def executing_count_def)
next
  case (Some bq)
  let ?bq = "bq\<lparr>bq_stride := stride_init\<rparr>"
  let ?v = "FError (RuntimeError (b @ '' scheduling failed: '' @ name))"
  let ?t = "s\<lparr>sc_degraded := dset b name (sc_degraded s), sc_queues := dset b ?bq (sc_queues s),
      sc_fut := fold (\<lambda>j. settle_fut (sj_future j) ?v) (lane_jobs bq) (sc_fut s)\<rparr>"
  note ok = lane_of [OF inv st Some]
  have t: "degrade b name s = ?t"
    using Some by (simp add: degrade_def fold_settle forget_profiles_empty [OF ok(1)])
  have e: "stride_abs (stride_init :: sjob stride_queue) = (\<lambda>_. [])" by (rule sq.queues_empty)
  have "lanes_ok ?t"
    by (rule lanes_ok_dset [of s b bq _ ?bq])
      (use inv Some e st in \<open>auto simp: sched_inv_def sq.inv_empty sq.depth_empty\<close>)
  moreover have "tracked ?t"
  proof (rule tracked_mono [of s])
    fix j assume l: "lane_has s j" and p: "sc_fut ?t (sj_future j) = FPending"
    have "j \<notin> set (lane_jobs bq)" using p by (auto simp: fold_settle_fut split: if_splits)
    then have "\<forall>k. j \<notin> set (stride_abs (bq_stride bq) k)"
      using lane_jobs_abs [OF lanes_ok_dict [OF _ Some]] inv by (auto simp: sched_inv_def)
    with l show "lane_has ?t j \<or> executing ?t j"
      using lane_has_dset [of ?t b ?bq s j] lane_has_split [OF Some, of j] by simp
  qed (use inv in \<open>auto simp: sched_inv_def fold_settle_fut executing_def split: if_splits\<close>)
  moreover have "counts_ok ?t"
    using inv Some by (auto simp: sched_inv_def counts_ok_def executing_count_def dkeys_dset dhas_iff)
  ultimately show ?thesis unfolding t sched_inv_def by blast
qed

lemma sched_submit_inv:
  assumes inv: "sched_inv s" and sub: "sched_submit b k p xs fmt s = Inr (i, t)"
  shows "sched_inv t"
proof -
  from sub obtain bq where st: "\<not> sc_stopped s" and bq: "dget (sc_queues s) b = Some bq"
    and d: "stride_depth (bq_stride bq) < sc_max_depth s"
    by (auto simp: sched_submit_def Let_def split: if_splits option.splits)
  define job where "job = \<lparr>sj_workload = k, sj_path = p, sj_inputs = xs, sj_future = sc_next s, sj_format = fmt\<rparr>"
  let ?bq = "bq\<lparr>bq_stride := stride_push k job (bq_stride bq)\<rparr>"
  have t: "t = s\<lparr>sc_queues := dset b ?bq (sc_queues s), sc_fut := (sc_fut s)(sc_next s := FPending),
      sc_next := Suc (sc_next s)\<rparr>"
    using sub st bq d by (auto simp: sched_submit_def Let_def job_def)
  note ok = lane_of [OF inv st bq]
  note q = sq.queues_push [OF ok(1), of k job]
  have "lanes_ok t"
    by (rule lanes_ok_dset [of s b bq _ ?bq])
      (use inv bq st d ok in \<open>auto simp: t sched_inv_def sq.inv_push sq.depth_push\<close>)
  moreover have l: "lane_has t j \<longleftrightarrow> j = job \<or> lane_has s j" for j
  proof -
    have "(\<exists>k'. j \<in> set (stride_abs (bq_stride ?bq) k')) \<longleftrightarrow>
        j = job \<or> (\<exists>k'. j \<in> set (stride_abs (bq_stride bq) k'))"
      by (auto simp: q split: if_splits)
    then show ?thesis
      using lane_has_dset [of t b ?bq s j] lane_has_split [OF bq, of j] by (simp add: t)
  qed
  have "tracked t"
    unfolding tracked_def
  proof (intro allI impI)
    fix n assume n: "n < sc_next t" and p: "sc_fut t n = FPending"
    show "\<exists>j. sj_future j = n \<and> (lane_has t j \<or> executing t j)"
    proof (cases "n = sc_next s")
      case True
      moreover have "sj_future job = sc_next s" by (simp add: job_def)
      ultimately show ?thesis using l [of job] by blast
    next
      case False
      with n p have "n < sc_next s" "sc_fut s n = FPending" by (auto simp: t)
      with inv obtain j where "sj_future j = n" "lane_has s j \<or> executing s j"
        unfolding sched_inv_def tracked_def by blast
      moreover have "executing t = executing s" by (simp add: executing_def t fun_eq_iff)
      ultimately show ?thesis using l by auto
    qed
  qed
  moreover have "counts_ok t"
    using inv bq by (auto simp: sched_inv_def counts_ok_def executing_count_def dkeys_dset dhas_iff t)
  ultimately show ?thesis by (simp add: sched_inv_def)
qed

lemma worker_take_inv:
  assumes inv: "sched_inv s" and idle: "dget (sc_workers s) b = Some None"
  shows "sched_inv (worker_take w a b s)"
proof (cases "dget (sc_queues s) b")
  case None
  with inv show ?thesis by (simp add: worker_take_def)
next
  case (Some bq)
  have st: "\<not> sc_stopped s" using inv idle by (auto simp: sched_inv_def counts_ok_def)
  note ok = lane_of [OF inv st Some]
  obtain r q where pop: "stride_pop w a (bq_stride bq) = Inr (r, q)" using sq.pop_total [OF ok(1)] by blast
  show ?thesis
  proof (cases r)
    case None
    have "q = bq_stride bq" using sq.pop_none [OF ok(1)] pop None by blast
    then have "worker_take w a b s = s"
      using Some pop None by (simp add: worker_take_def dset_same)
    with inv show ?thesis by simp
  next
    case (Some kj)
    obtain k job where kj: "kj = (k, job)" by force
    have pop': "stride_pop w a (bq_stride bq) = Inr (Some (k, job), q)" using pop Some kj by simp
    from sq.pop_some [OF ok(1) pop'] obtain rest where
      q: "stride_abs (bq_stride bq) k = job # rest" "stride_abs q = (stride_abs (bq_stride bq))(k := rest)"
      by blast
    let ?bq = "bq\<lparr>bq_stride := q\<rparr>"
    define t where "t = s\<lparr>sc_queues := dset b ?bq (sc_queues s),
       sc_running := dset (sj_workload job) (dcount (sc_running s) (sj_workload job) + 1) (sc_running s),
       sc_workers := dset b (Some job) (sc_workers s)\<rparr>"
    have t: "worker_take w a b s = t"
      using \<open>dget (sc_queues s) b = Some bq\<close> pop' by (simp add: worker_take_def t_def)
    have "lanes_ok t"
      by (rule lanes_ok_dset [of s b bq _ ?bq])
        (use inv \<open>dget (sc_queues s) b = Some bq\<close> st ok sq.inv_pop [OF ok(1) pop']
          sq.depth_pop_some [OF ok(1) pop'] in \<open>auto simp: sched_inv_def t_def\<close>)
    moreover have "tracked t"
    proof (rule tracked_mono [of s])
      fix j assume l: "lane_has s j"
      have jb: "j = job \<Longrightarrow> executing t j" by (auto simp: executing_def t_def)
      have "\<exists>k'. j \<in> set (stride_abs q k')" if "j \<in> set (stride_abs (bq_stride bq) k')" "j \<noteq> job" for k'
        using that q by (cases "k' = k") (auto simp: exI [of _ k] exI [of _ k'])
      with l show "lane_has t j \<or> executing t j"
        using lane_has_dset [of t b ?bq s j] lane_has_split [OF \<open>dget (sc_queues s) b = Some bq\<close>, of j] jb
        by (auto simp: t_def)
    next
      fix j assume "executing s j"
      then have "executing t j"
        by (rule executing_keep) (use idle in \<open>auto simp: t_def\<close>)
      then show "lane_has t j \<or> executing t j" ..
    qed (use inv in \<open>auto simp: sched_inv_def t_def\<close>)
    moreover have "counts_ok t"
    proof -
      have dok: "dict_ok (sc_workers s)" using inv by (simp add: sched_inv_def counts_ok_def)
      have "executing_count k' t = executing_count k' s + (if sj_workload job = k' then 1 else 0)" for k'
        using dsumf_dset [OF dok, of "busy_with k'" b "Some job"] idle
        by (simp add: executing_count_def t_def dweight_def busy_with_def)
      with inv idle show ?thesis
        using \<open>dget (sc_queues s) b = Some bq\<close>
        by (auto simp: sched_inv_def counts_ok_def dkeys_dset dhas_iff t_def split: if_splits)
    qed
    ultimately show ?thesis by (simp add: sched_inv_def t)
  qed
qed


text \<open>A job that stops executing gives back its place in the running counts.\<close>

lemma job_finished_counts:
  assumes "dict_ok (sc_running s)" "\<forall>k n. dget (sc_running s) k = Some n \<longrightarrow> 0 < n"
  shows "dcount (sc_running (job_finished k s)) k' = dcount (sc_running s) k' - (if k' = k then 1 else 0)"
    and "dict_ok (sc_running (job_finished k s))"
    and "dget (sc_running (job_finished k s)) k' = Some n \<Longrightarrow> 0 < n"
  using assms by (auto simp: job_finished_def Let_def split: if_splits)

lemma job_finished_frame [simp]:
  "sc_queues (job_finished k s) = sc_queues s" "sc_workers (job_finished k s) = sc_workers s"
  "sc_retired (job_finished k s) = sc_retired s" "sc_fut (job_finished k s) = sc_fut s"
  "sc_next (job_finished k s) = sc_next s" "sc_executors (job_finished k s) = sc_executors s"
  "sc_stopped (job_finished k s) = sc_stopped s" "sc_started (job_finished k s) = sc_started s"
  "sc_max_depth (job_finished k s) = sc_max_depth s"
  by (simp_all add: job_finished_def Let_def)

lemma settle_frame [simp]:
  "sc_queues (settle i v s) = sc_queues s" "sc_workers (settle i v s) = sc_workers s"
  "sc_retired (settle i v s) = sc_retired s" "sc_running (settle i v s) = sc_running s"
  "sc_next (settle i v s) = sc_next s" "sc_executors (settle i v s) = sc_executors s"
  "sc_stopped (settle i v s) = sc_stopped s" "sc_started (settle i v s) = sc_started s"
  "sc_max_depth (settle i v s) = sc_max_depth s"
  "sc_fut (settle i v s) n = (if n = i \<and> sc_fut s n = FPending then v else sc_fut s n)"
  by (simp_all add: settle_def settle_fut_apply)

lemma retired_settle_inv:
  assumes inv: "sched_inv s" and j: "job \<in> set (sc_retired s)"
  shows "sched_inv (retired_settle job s)"
proof -
  let ?t = "retired_settle job s"
  have fr: "sc_queues ?t = sc_queues s" "sc_workers ?t = sc_workers s" "sc_next ?t = sc_next s"
    "sc_retired ?t = remove1 job (sc_retired s)" "sc_executors ?t = sc_executors s"
    "sc_stopped ?t = sc_stopped s" "sc_started ?t = sc_started s" "sc_max_depth ?t = sc_max_depth s"
    by (simp_all add: retired_settle_def cancel_running_def)
  have "lanes_ok ?t" using inv by (simp add: sched_inv_def lanes_ok_def lane_table_ok_def fr)
  moreover have "tracked ?t"
  proof (rule tracked_mono [of s])
    fix x assume x: "executing s x" and p: "sc_fut ?t (sj_future x) = FPending"
    then have "x \<noteq> job" by (auto simp: retired_settle_def cancel_running_def split: if_splits)
    with x show "lane_has ?t x \<or> executing ?t x" by (auto simp: executing_def fr)
  qed (use inv fr in \<open>auto simp: sched_inv_def lane_has_def retired_settle_def cancel_running_def
        split: if_splits\<close>)
  moreover have "counts_ok ?t"
  proof -
    have c: "dict_ok (sc_running s)" "\<forall>k n. dget (sc_running s) k = Some n \<longrightarrow> 0 < n"
      using inv by (simp_all add: sched_inv_def counts_ok_def)
    have r: "sc_running ?t = sc_running (job_finished (sj_workload job) s)"
      by (simp add: retired_settle_def cancel_running_def job_finished_def Let_def)
    have "executing_count k ?t = executing_count k s - (if k = sj_workload job then 1 else 0)" for k
    proof -
      have "filter (\<lambda>j. sj_workload j = k) (remove1 job xs) =
          (if sj_workload job = k then remove1 job (filter (\<lambda>j. sj_workload j = k) xs)
           else filter (\<lambda>j. sj_workload j = k) xs)" for xs
        by (induction xs) auto
      moreover have "sj_workload job = k \<Longrightarrow> job \<in> set (filter (\<lambda>j. sj_workload j = k) (sc_retired s))"
        using j by simp
      ultimately show ?thesis
        using length_pos_if_in_set [of job "filter (\<lambda>j. sj_workload j = k) (sc_retired s)"]
        by (auto simp: executing_count_def fr length_remove1 Suc_le_eq)
    qed
    then show ?thesis
      using inv j job_finished_counts [OF c]
      by (auto simp: sched_inv_def counts_ok_def fr r)
  qed
  ultimately show ?thesis by (simp add: sched_inv_def)
qed

lemma worker_settle_inv:
  assumes inv: "sched_inv s" and busy: "dget (sc_workers s) b = Some (Some job)"
  shows "sched_inv (worker_settle b job out el s)"
proof -
  have st: "\<not> sc_stopped s" using inv busy by (auto simp: sched_inv_def counts_ok_def)
  have "dhas (sc_queues s) b"
    using inv busy by (auto simp: sched_inv_def counts_ok_def dhas_def dget_None_iff dhas_iff)
      (metis dhas_def dhas_iff subsetD)
  then obtain bq where bq: "dget (sc_queues s) b = Some bq" by (auto simp: dhas_iff)
  let ?bq = "bq\<lparr>bq_busy := bq_busy bq + el * 1000\<rparr>"
  define v where "v = (case out of Done r \<Rightarrow> FResult r | Failed e \<Rightarrow> FError e | Fatal n r \<Rightarrow> FError (RuntimeError r))"
  define d where "d = (case out of Done r \<Rightarrow> dpop b (sc_degraded s) | _ \<Rightarrow> sc_degraded s)"
  define t where "t = s\<lparr>sc_degraded := d, sc_fut := settle_fut (sj_future job) v (sc_fut s),
     sc_queues := dset b ?bq (sc_queues s),
     sc_running := sc_running (job_finished (sj_workload job) s),
     sc_workers := dset b None (sc_workers s)\<rparr>"
  have ws: "worker_settle b job out el s = (case out of Fatal n r \<Rightarrow> degrade b n t | _ \<Rightarrow> t)"
    using bq by (cases out) (simp_all add: worker_settle_def t_def v_def d_def settle_def
      clear_degradation_def job_finished_def Let_def)
  have v: "v \<noteq> FPending" by (simp add: v_def split: outcome.split)
  have "lanes_ok t"
    by (rule lanes_ok_dset [of s b bq _ ?bq])
      (use inv bq st lane_of [OF inv st bq] in \<open>auto simp: sched_inv_def t_def\<close>)
  moreover have "tracked t"
  proof (rule tracked_mono [of s])
    fix x assume x: "executing s x" and p: "sc_fut t (sj_future x) = FPending"
    then have n: "x \<noteq> job" using v by (auto simp: t_def settle_fut_apply split: if_splits)
    from x have "executing t x"
      by (rule executing_keep) (use busy n in \<open>auto simp: t_def\<close>)
    then show "lane_has t x \<or> executing t x" ..
  next
    fix x assume "lane_has s x"
    then show "lane_has t x \<or> executing t x"
      using lane_has_dset [of t b ?bq s x] lane_has_split [OF bq, of x] by (simp add: t_def)
  qed (use inv v in \<open>auto simp: sched_inv_def t_def settle_fut_apply split: if_splits\<close>)
  moreover have "counts_ok t"
  proof -
    have c: "dict_ok (sc_running s)" "\<forall>k n. dget (sc_running s) k = Some n \<longrightarrow> 0 < n"
      and dok: "dict_ok (sc_workers s)"
      using inv by (simp_all add: sched_inv_def counts_ok_def)
    have "executing_count k t = executing_count k s - (if k = sj_workload job then 1 else 0)" for k
      using dsumf_dset [OF dok, of "busy_with k" b None] busy
      by (auto simp: executing_count_def t_def dweight_def busy_with_def)
    then show ?thesis
      using inv bq busy job_finished_counts [OF c]
      by (auto simp: sched_inv_def counts_ok_def t_def dkeys_dset dhas_iff)
  qed
  ultimately have "sched_inv t" by (simp add: sched_inv_def)
  moreover from this have "sched_inv (degrade b n t)" for n
    by (rule degrade_inv) (simp add: t_def st)
  ultimately show ?thesis by (simp add: ws split: outcome.split)
qed

lemma sched_tick_inv: "sched_inv s \<Longrightarrow> sched_inv (sched_tick now s)"
proof -
  assume inv: "sched_inv s"
  let ?t = "sched_tick now s"
  define f where "f = tick_queue (max 1 ((now - sc_last_tick s) * 1000))"
  have g: "dget (sc_queues ?t) b = map_option f (dget (sc_queues s) b)" for b
    using dget_map [of "\<lambda>_. f" "sc_queues s" b] by (simp add: sched_tick_def Let_def f_def)
  have st: "bq_stride (f bq) = bq_stride bq" for bq by (simp add: f_def tick_queue_def Let_def)
  have k: "dkeys (sc_queues ?t) = dkeys (sc_queues s)"
    using dkeys_map [of "\<lambda>_. f" "sc_queues s"] by (simp add: sched_tick_def Let_def f_def)
  have l: "lane_has ?t j \<longleftrightarrow> lane_has s j" for j
  proof -
    have "(\<exists>bq k. map_option f x = Some bq \<and> j \<in> set (stride_abs (bq_stride bq) k)) \<longleftrightarrow>
        (\<exists>bq k. x = Some bq \<and> j \<in> set (stride_abs (bq_stride bq) k))" for x
      by (cases x) (simp_all add: st)
    then show ?thesis by (simp add: lane_has_def g)
  qed
  have e: "executing ?t = executing s" "executing_count k ?t = executing_count k s" for k
    by (simp_all add: executing_def executing_count_def sched_tick_def Let_def fun_eq_iff)
  have fr: "sc_workers ?t = sc_workers s" "sc_running ?t = sc_running s" "sc_next ?t = sc_next s"
    "sc_retired ?t = sc_retired s" "sc_executors ?t = sc_executors s" "sc_fut ?t = sc_fut s"
    "sc_stopped ?t = sc_stopped s" "sc_started ?t = sc_started s" "sc_max_depth ?t = sc_max_depth s"
    by (simp_all add: sched_tick_def Let_def)
  show ?thesis
    using inv by (auto simp: sched_inv_def lanes_ok_def lane_table_ok_def counts_ok_def tracked_def
        dict_ok_def g st k l e fr)
qed

text \<open>Rediscovery: what holds while lanes are being removed and added.\<close>

definition sched_core :: "sched \<Rightarrow> bool" where
  "sched_core s \<longleftrightarrow> lane_table_ok s \<and> counts_ok s \<and> tracked s"

lemma sched_inv_core:
  "sched_inv s \<longleftrightarrow> sched_core s \<and> dict_ok (sc_executors s) \<and>
     set (dkeys (sc_queues s)) = set (dkeys (sc_executors s))"
  by (auto simp: sched_inv_def sched_core_def lanes_ok_def)

lemma lane_table_dict: "lane_table_ok s \<Longrightarrow> dget (sc_queues s) b = Some bq \<Longrightarrow> dict_ok (sq_items (bq_stride bq))"
  unfolding lane_table_ok_def by (metis stride_ok_wf stride_wf_dict_ok(1))

lemma remove_backend_core:
  assumes core: "sched_core s" and has: "dget (sc_queues s) b = Some bq"
  shows "\<exists>t. remove_backend b s = Inr t \<and> sched_core t \<and> sc_queues t = dpop b (sc_queues s) \<and>
     sc_executors t = sc_executors s"
proof -
  define w where "w = dget (sc_workers s) b"
  define r where "r = sc_retired s @ (case w of Some (Some j) \<Rightarrow> [j] | _ \<Rightarrow> [])"
  define t where "t = s\<lparr>sc_degraded := dpop b (sc_degraded s), sc_workers := dpop b (sc_workers s),
     sc_retired := r, sc_queues := dpop b (sc_queues s),
     sc_fut := fold (\<lambda>j. settle_fut (sj_future j) FCancelled) (lane_jobs bq) (sc_fut s)\<rparr>"
  have "remove_backend b s = Inr t"
  proof (cases w)
    case None
    then have "dpop b (sc_workers s) = sc_workers s" by (simp add: w_def dpop_absent dget_None_iff)
    with None has show ?thesis
      by (simp add: remove_backend_def t_def r_def w_def clear_degradation_def cancel_queued_eq Let_def)
  next
    case (Some x)
    with has show ?thesis
      by (cases x) (simp_all add: remove_backend_def t_def r_def w_def clear_degradation_def
          cancel_queued_eq Let_def)
  qed
  moreover have "lane_table_ok t"
    using core by (auto simp: sched_core_def lane_table_ok_def t_def split: if_splits)
  moreover have "tracked t"
  proof (rule tracked_mono [of s])
    fix j assume l: "lane_has s j" and p: "sc_fut t (sj_future j) = FPending"
    have "j \<notin> set (lane_jobs bq)" using p by (auto simp: t_def fold_settle_fut split: if_splits)
    then have "\<forall>k. j \<notin> set (stride_abs (bq_stride bq) k)"
      using lane_jobs_abs [OF lane_table_dict [OF _ has]] core by (auto simp: sched_core_def)
    with l show "lane_has t j \<or> executing t j"
      using lane_has_split [OF has, of j] by (auto simp: lane_has_def t_def)
  next
    fix j assume "executing s j"
    then have "executing t j"
      by (rule executing_keep) (auto simp: t_def r_def w_def split: option.splits)
    then show "lane_has t j \<or> executing t j" ..
  qed (use core in \<open>auto simp: sched_core_def t_def fold_settle_fut split: if_splits\<close>)
  moreover have "counts_ok t"
  proof -
    have dok: "dict_ok (sc_workers s)" using core by (simp add: sched_core_def counts_ok_def)
    have "executing_count k t = executing_count k s" for k
      using dsumf_dpop [OF dok, of "busy_with k" b]
      by (auto simp: executing_count_def t_def r_def w_def dweight_def busy_with_def split: option.splits)
    moreover have "r = []" if "sc_stopped s"
      using that core by (auto simp: sched_core_def counts_ok_def r_def w_def)
    ultimately show ?thesis
      using core by (auto simp: sched_core_def counts_ok_def t_def dkeys_dpop)
  qed
  ultimately show ?thesis by (auto simp: sched_core_def t_def)
qed

lemma remove_backends_core:
  "sched_core s \<Longrightarrow> distinct bs \<Longrightarrow> set bs \<subseteq> set (dkeys (sc_queues s)) \<Longrightarrow>
     \<exists>t. remove_backends bs s = Inr t \<and> sched_core t \<and>
         set (dkeys (sc_queues t)) = set (dkeys (sc_queues s)) - set bs \<and> sc_executors t = sc_executors s"
proof (induction bs arbitrary: s)
  case (Cons b bs)
  then obtain bq where "dget (sc_queues s) b = Some bq"
    by (metis dhas_def dhas_iff list.set_intros(1) subsetD)
  from remove_backend_core [OF Cons.prems(1) this] obtain t where
    t: "remove_backend b s = Inr t" "sched_core t" "sc_queues t = dpop b (sc_queues s)"
      "sc_executors t = sc_executors s" by blast
  have k: "set (dkeys (sc_queues t)) = set (dkeys (sc_queues s)) - {b}" by (auto simp: t(3) dkeys_dpop)
  then have "set bs \<subseteq> set (dkeys (sc_queues t))" using Cons.prems by auto
  from Cons.IH [OF t(2) _ this] Cons.prems t k show ?case by auto
qed simp

lemma add_backend_core:
  assumes core: "sched_core s"
  shows "sched_core (add_backend b s) \<and> sc_executors (add_backend b s) = sc_executors s \<and>
     set (dkeys (sc_queues (add_backend b s))) = insert b (set (dkeys (sc_queues s)))"
proof (cases "dhas (sc_queues s) b")
  case True
  with core show ?thesis by (auto simp: add_backend_def dhas_def)
next
  case new: False
  let ?t = "add_backend b s"
  define ws where "ws = (if sc_started s \<and> \<not> sc_stopped s then dset b None (sc_workers s) else sc_workers s)"
  have t: "?t = s\<lparr>sc_queues := dset b bqueue_init (sc_queues s), sc_workers := ws\<rparr>"
    using new by (auto simp: add_backend_def spawn_worker_def Let_def ws_def)
  have "set (dkeys (sc_workers s)) \<subseteq> set (dkeys (sc_queues s))" and dok: "dict_ok (sc_workers s)"
    using core by (simp_all add: sched_core_def counts_ok_def)
  with new have nw: "\<not> dhas (sc_workers s) b" by (auto simp: dhas_def)
  have e: "stride_abs (stride_init :: sjob stride_queue) = (\<lambda>_. [])" by (rule sq.queues_empty)
  have "lane_table_ok ?t"
    using core by (auto simp: sched_core_def lane_table_ok_def t bqueue_init_def e sq.inv_empty
        sq.depth_empty stride_wf_dict_ok split: if_splits)
  moreover have "tracked ?t"
  proof (rule tracked_mono [of s])
    fix j assume "lane_has s j"
    then have "lane_has ?t j" using new unfolding lane_has_def t
      by (simp add: dhas_iff) (metis option.distinct(1))
    then show "lane_has ?t j \<or> executing ?t j" ..
  next
    fix j assume "executing s j"
    then have "executing ?t j"
      by (rule executing_keep) (use nw in \<open>auto simp: t ws_def dhas_iff\<close>)
    then show "lane_has ?t j \<or> executing ?t j" ..
  qed (use core in \<open>auto simp: sched_core_def t\<close>)
  moreover have "counts_ok ?t"
    using core nw new spawn_count [OF dok nw]
    by (auto simp: sched_core_def counts_ok_def t ws_def executing_count_def dkeys_dset)
  ultimately show ?thesis using new by (auto simp: sched_core_def t dkeys_dset)
qed

lemma fold_add_backend:
  "sched_core s \<Longrightarrow> sched_core (fold add_backend bs s) \<and>
     sc_executors (fold add_backend bs s) = sc_executors s \<and>
     set (dkeys (sc_queues (fold add_backend bs s))) = set bs \<union> set (dkeys (sc_queues s))"
  using add_backend_core by (induction bs arbitrary: s) auto

lemma update_executors_inv:
  assumes inv: "sched_inv s" and ok: "dict_ok executors"
  shows "\<exists>t. update_executors executors s = Inr t \<and> sched_inv t"
proof -
  let ?s = "s\<lparr>sc_executors := executors\<rparr>"
  let ?bs = "filter (\<lambda>b. \<not> dhas executors b) (dkeys (sc_executors s))"
  have core: "sched_core ?s"
    using inv by (auto simp: sched_inv_core sched_core_def lane_table_ok_def counts_ok_def tracked_def
        lane_has_def executing_def executing_count_def)
  have "distinct ?bs" "set ?bs \<subseteq> set (dkeys (sc_queues ?s))"
    using inv by (auto simp: sched_inv_core dict_ok_def)
  from remove_backends_core [OF core this] obtain t where
    t: "remove_backends ?bs ?s = Inr t" "sched_core t" "sc_executors t = executors"
      "set (dkeys (sc_queues t)) = set (dkeys (sc_queues s)) - set ?bs" by auto
  have "sched_inv (fold add_backend (dkeys executors) t)"
    using fold_add_backend [OF t(2), of "dkeys executors"] t inv ok
    by (auto simp: sched_inv_core dhas_def)
  with t(1) show ?thesis by (auto simp: update_executors_def Let_def)
qed

text \<open>Stopping: every executing job is cancelled, then every queued one.\<close>

lemma fold_cancel_running:
  "dict_ok (sc_running s) \<Longrightarrow> \<forall>k n. dget (sc_running s) k = Some n \<longrightarrow> 0 < n \<Longrightarrow>
   \<exists>r. fold cancel_running js s =
         s\<lparr>sc_running := r, sc_fut := fold (\<lambda>j. settle_fut (sj_future j) FCancelled) js (sc_fut s)\<rparr> \<and>
       dict_ok r \<and> (\<forall>k n. dget r k = Some n \<longrightarrow> 0 < n) \<and>
       (\<forall>k. dcount r k = dcount (sc_running s) k - length (filter (\<lambda>j. sj_workload j = k) js))"
proof (induction js arbitrary: s)
  case Nil
  then show ?case by (intro exI [of _ "sc_running s"]) simp
next
  case (Cons j js)
  let ?s = "cancel_running j s"
  let ?r = "sc_running (job_finished (sj_workload j) s)"
  have s: "?s = s\<lparr>sc_running := ?r, sc_fut := settle_fut (sj_future j) FCancelled (sc_fut s)\<rparr>"
    by (simp add: cancel_running_def job_finished_def settle_def Let_def)
  note c = job_finished_counts [OF Cons.prems, of "sj_workload j"]
  have "dict_ok (sc_running ?s)" "\<forall>k n. dget (sc_running ?s) k = Some n \<longrightarrow> 0 < n"
    using c by (auto simp: s)
  from Cons.IH [OF this] c show ?case by (auto simp: s)
qed

lemma executing_jobs_count:
  "executing_count k s = length (filter (\<lambda>j. sj_workload j = k) (executing_jobs s))"
proof -
  have "sum_list (map (busy_with k) xs) =
      length (filter (\<lambda>j. sj_workload j = k) (concat (map (\<lambda>x. case x of None \<Rightarrow> [] | Some j \<Rightarrow> [j]) xs)))" for xs
    by (induction xs) (auto simp: busy_with_def split: option.splits)
  then show ?thesis by (simp add: executing_count_def executing_jobs_def dsumf_def)
qed

lemma executing_jobs_iff: "dict_ok (sc_workers s) \<Longrightarrow> j \<in> set (executing_jobs s) \<longleftrightarrow> executing s j"
proof -
  assume ok: "dict_ok (sc_workers s)"
  have "j \<in> set (executing_jobs s) \<longleftrightarrow> Some j \<in> set (dvals (sc_workers s)) \<or> j \<in> set (sc_retired s)"
    by (auto simp: executing_jobs_def split: option.splits)
  then show ?thesis using set_dvals [OF ok, of "Some j"] by (simp add: executing_def)
qed

lemma fold_cancel_queues:
  "fold (\<lambda>(b, bq). cancel_queued bq) qs s =
     s\<lparr>sc_fut := fold (\<lambda>j. settle_fut (sj_future j) FCancelled) (concat (map (\<lambda>(b, bq). lane_jobs bq) qs)) (sc_fut s)\<rparr>"
  by (induction qs arbitrary: s) (auto simp: cancel_queued_eq)

lemma fold_cancel_queues_fut:
  "sc_fut (fold (\<lambda>(b, bq). cancel_queued bq) qs s) i =
     (if sc_fut s i = FPending \<and> (\<exists>(b, bq) \<in> set qs. i \<in> sj_future ` set (lane_jobs bq))
      then FCancelled else sc_fut s i)"
proof (induction qs arbitrary: s)
  case (Cons p qs)
  obtain b bq where p: "p = (b, bq)" by force
  have "fold (\<lambda>(b, bq). cancel_queued bq) (p # qs) s = fold (\<lambda>(b, bq). cancel_queued bq) qs (cancel_queued bq s)"
    by (simp add: p)
  moreover have "sc_fut (cancel_queued bq s) i =
      (if sc_fut s i = FPending \<and> i \<in> sj_future ` set (lane_jobs bq) then FCancelled else sc_fut s i)"
    by (simp add: cancel_queued_eq fold_settle_fut)
  ultimately show ?case by (simp only: Cons.IH) (simp add: p)
qed simp

lemma charge_stride: "dget (map (charge el s) (sc_queues s)) b = Some bq \<Longrightarrow>
    \<exists>bq0. dget (sc_queues s) b = Some bq0 \<and> bq_stride bq = bq_stride bq0"
proof -
  let ?f = "\<lambda>b bq. case dget (sc_workers s) b of
              Some (Some _) \<Rightarrow> bq\<lparr>bq_busy := bq_busy bq + el b * 1000\<rparr> | _ \<Rightarrow> bq"
  assume "dget (map (charge el s) (sc_queues s)) b = Some bq"
  then obtain bq0 where "dget (sc_queues s) b = Some bq0" "bq = ?f b bq0"
    using dget_map [of ?f "sc_queues s" b] unfolding charge_def by auto
  then show ?thesis by (auto split: option.splits)
qed

lemma charge_stride': "dget (sc_queues s) b = Some bq0 \<Longrightarrow>
    \<exists>bq. dget (map (charge el s) (sc_queues s)) b = Some bq \<and> bq_stride bq = bq_stride bq0"
  using dget_map [of "\<lambda>b bq. case dget (sc_workers s) b of
      Some (Some _) \<Rightarrow> bq\<lparr>bq_busy := bq_busy bq + el b * 1000\<rparr> | _ \<Rightarrow> bq" "sc_queues s" b]
  unfolding charge_def by (auto split: option.splits)

lemma charge_keys: "dkeys (map (charge el s) d) = dkeys d"
  unfolding charge_def by (rule dkeys_map)

lemma emptied_abs: "stride_abs (bq_stride (emptied bq)) = (\<lambda>_. [])"
  "dict_ok (sq_items (bq_stride (emptied bq))) = dict_ok (sq_items (bq_stride bq))"
  using dget_map [of "\<lambda>_ _. [] :: sjob list" "sq_items (bq_stride bq)"]
    dict_ok_map [of "\<lambda>_ _. [] :: sjob list" "sq_items (bq_stride bq)"]
  by (auto simp: emptied_def stride_abs_def fun_eq_iff split: option.splits)

lemma sched_stop_fut:
  assumes inv: "sched_inv s" and i: "i < sc_next s"
  shows "sc_fut (sched_stop el s) i = (if sc_fut s i = FPending then FCancelled else sc_fut s i)"
proof -
  let ?q = "map (charge el s) (sc_queues s)"
  let ?s0 = "s\<lparr>sc_stopped := True, sc_queues := ?q\<rparr>"
  have c: "dict_ok (sc_running ?s0)" "\<forall>k n. dget (sc_running ?s0) k = Some n \<longrightarrow> 0 < n"
    and w: "dict_ok (sc_workers s)"
    using inv by (auto simp: sched_inv_def counts_ok_def)
  obtain r where s1: "fold cancel_running (executing_jobs s) ?s0 =
      ?s0\<lparr>sc_running := r, sc_fut := fold (\<lambda>j. settle_fut (sj_future j) FCancelled) (executing_jobs s) (sc_fut s)\<rparr>"
    using fold_cancel_running [OF c, of "executing_jobs s"] by auto
  define s2 where "s2 = ?s0\<lparr>sc_running := r,
      sc_fut := fold (\<lambda>j. settle_fut (sj_future j) FCancelled) (executing_jobs s) (sc_fut s),
      sc_workers := [], sc_retired := [], sc_degraded := []\<rparr>"
  have res: "sc_fut (sched_stop el s) i = (if sc_fut s2 i = FPending \<and>
      (\<exists>(b, bq) \<in> set ?q. i \<in> sj_future ` set (lane_jobs bq)) then FCancelled else sc_fut s2 i)"
  proof -
    have "sc_fut (sched_stop el s) i = sc_fut (fold (\<lambda>(b, bq). cancel_queued bq) ?q s2) i"
      by (simp add: sched_stop_def Let_def s1 s2_def)
    then show ?thesis by (simp only: fold_cancel_queues_fut)
  qed
  have f2: "sc_fut s2 i = (if sc_fut s i = FPending \<and> i \<in> sj_future ` set (executing_jobs s) then FCancelled else sc_fut s i)"
    by (simp add: s2_def fold_settle_fut)
  show ?thesis
  proof (cases "sc_fut s i = FPending \<and> i \<notin> sj_future ` set (executing_jobs s)")
    case True
    with inv i obtain j where j: "sj_future j = i" "lane_has s j"
      unfolding sched_inv_def tracked_def executing_jobs_iff [OF w, symmetric] by blast
    then obtain b bq0 k where b: "dget (sc_queues s) b = Some bq0" "j \<in> set (stride_abs (bq_stride bq0) k)"
      by (auto simp: lane_has_def)
    obtain bq where bq: "dget ?q b = Some bq" "bq_stride bq = bq_stride bq0" using charge_stride' [OF b(1)] by blast
    have "dict_ok (sq_items (bq_stride bq))"
      using lanes_ok_dict [OF _ b(1)] inv bq(2) by (simp add: sched_inv_def)
    then have "j \<in> set (lane_jobs bq)" using lane_jobs_abs [of bq j] b(2) bq(2) by auto
    then have "\<exists>(b, bq) \<in> set ?q. i \<in> sj_future ` set (lane_jobs bq)"
      using dget_in_set [OF bq(1)] j(1) by blast
    with True show ?thesis by (simp add: res f2)
  next
    case False
    then show ?thesis by (auto simp: res f2)
  qed
qed

lemma sched_stop_frame:
  assumes inv: "sched_inv s"
  shows "\<exists>r f. sched_stop el s = s\<lparr>sc_stopped := True,
       sc_queues := map (\<lambda>(b, bq). (b, emptied bq)) (map (charge el s) (sc_queues s)),
       sc_running := r, sc_fut := f, sc_workers := [], sc_retired := [], sc_degraded := []\<rparr> \<and>
     dict_ok r \<and> (\<forall>k n. dget r k = Some n \<longrightarrow> 0 < n) \<and> (\<forall>k. dcount r k = 0)"
proof -
  let ?q = "map (charge el s) (sc_queues s)"
  let ?s0 = "s\<lparr>sc_stopped := True, sc_queues := ?q\<rparr>"
  have c: "dict_ok (sc_running ?s0)" "\<forall>k n. dget (sc_running ?s0) k = Some n \<longrightarrow> 0 < n"
    using inv by (auto simp: sched_inv_def counts_ok_def)
  obtain r f where s1: "fold cancel_running (executing_jobs s) ?s0 = ?s0\<lparr>sc_running := r, sc_fut := f\<rparr>"
    and r: "dict_ok r" "\<forall>k n. dget r k = Some n \<longrightarrow> 0 < n"
      "\<forall>k. dcount r k = dcount (sc_running s) k - length (filter (\<lambda>j. sj_workload j = k) (executing_jobs s))"
    using fold_cancel_running [OF c, of "executing_jobs s"] by auto
  from r(3) have "\<forall>k. dcount r k = 0"
    using inv by (simp add: sched_inv_def counts_ok_def flip: executing_jobs_count)
  then show ?thesis
    using r(1,2)
    by (intro exI [of _ r] exI [of _ "fold (\<lambda>j. settle_fut (sj_future j) FCancelled)
          (concat (map (\<lambda>(b, bq). lane_jobs bq) ?q)) f"])
      (simp add: sched_stop_def Let_def s1 fold_cancel_queues)
qed

lemma sched_stop_inv: "sched_inv s \<Longrightarrow> sched_inv (sched_stop el s)"
proof -
  assume inv: "sched_inv s"
  let ?t = "sched_stop el s"
  let ?q = "map (charge el s) (sc_queues s)"
  obtain r f where t: "?t = s\<lparr>sc_stopped := True, sc_queues := map (\<lambda>(b, bq). (b, emptied bq)) ?q,
       sc_running := r, sc_fut := f, sc_workers := [], sc_retired := [], sc_degraded := []\<rparr>"
    and r: "dict_ok r" "\<forall>k n. dget r k = Some n \<longrightarrow> 0 < n" "\<forall>k. dcount r k = 0"
    using sched_stop_frame [OF inv] by blast
  have k: "dkeys (sc_queues ?t) = dkeys (sc_queues s)"
    using dkeys_map [of "\<lambda>_. emptied" ?q] by (simp add: t charge_keys)
  have q: "stride_abs (bq_stride bq) = (\<lambda>_. []) \<and> dict_ok (sq_items (bq_stride bq))"
    if b: "dget (sc_queues ?t) b = Some bq" for b bq
  proof -
    from b obtain bq1 where "dget ?q b = Some bq1" "bq = emptied bq1"
      using dget_map [of "\<lambda>_. emptied" ?q b] by (simp add: t) (metis map_option_eq_Some)
    with charge_stride [of el s b bq1] lanes_ok_dict [of s b] inv show ?thesis
      by (auto simp: emptied_abs sched_inv_def)
  qed
  have "lanes_ok ?t"
    unfolding lanes_ok_def lane_table_ok_def dict_ok_def k
    using inv q by (auto simp: t sched_inv_def lanes_ok_def lane_table_ok_def dict_ok_def)
  moreover have "counts_ok ?t" using r by (simp add: counts_ok_def t executing_count_def)
  moreover have "tracked ?t"
  proof -
    have "sc_next ?t = sc_next s" by (simp add: t)
    then show ?thesis using sched_stop_fut [OF inv, of _ el] unfolding tracked_def
      by (metis ffut.distinct(5))
  qed
  ultimately show ?thesis by (simp add: sched_inv_def)
qed

lemma settle_inv: "sched_inv s \<Longrightarrow> sched_inv (settle i FCancelled s)"
  by (auto simp: sched_inv_def lanes_ok_def lane_table_ok_def counts_ok_def tracked_def lane_has_def
      executing_def executing_count_def split: if_splits)

lemma worker_not_stopped: "sched_inv s \<Longrightarrow> dget (sc_workers s) b = Some x \<Longrightarrow> \<not> sc_stopped s"
  by (auto simp: sched_inv_def counts_ok_def)

lemma sched_step_inv: "sched_step s t \<Longrightarrow> sched_inv s \<Longrightarrow> sched_inv t"
proof (induction rule: sched_step.induct)
  case (broken s b name)
  then show ?case by (auto intro!: degrade_inv dest: worker_not_stopped)
qed (auto intro: sched_start_inv sched_submit_inv worker_take_inv worker_settle_inv retired_settle_inv
    sched_tick_inv sched_stop_inv settle_inv dest: update_executors_inv)

lemma sched_reachable_inv: "sched_reachable s \<Longrightarrow> sched_inv s"
  by (induction rule: sched_reachable.induct) (auto intro: sched_init_inv sched_step_inv)

section \<open>Properties\<close>

text \<open>C5. No submitted job is ever lost: whatever the interleaving of submissions, worker turns,
  rediscovery, caller cancellations and shutdown, a future that is still pending belongs to a
  job that is queued in a lane or is being executed; the running table counts exactly the
  executing jobs of each profile; there is one lane per executor, and before shutdown no lane
  holds more than the depth bound.\<close>

theorem sched_no_lost_job:
  assumes "sched_reachable s"
  shows "(\<forall>i < sc_next s. sc_fut s i = FPending \<longrightarrow>
            (\<exists>j. sj_future j = i \<and> (lane_has s j \<or> executing s j))) \<and>
         (\<forall>k. dcount (sc_running s) k = executing_count k s) \<and>
         set (dkeys (sc_queues s)) = set (dkeys (sc_executors s)) \<and>
         (\<forall>b bq. dget (sc_queues s) b = Some bq \<longrightarrow> \<not> sc_stopped s \<longrightarrow>
            stride_depth (bq_stride bq) \<le> sc_max_depth s)"
  using sched_reachable_inv [OF assms]
  by (auto simp: sched_inv_def tracked_def counts_ok_def lanes_ok_def lane_table_ok_def)

text \<open>C6. Shutdown leaves no caller hanging: after \<^verbatim>\<open>Scheduler.stop\<close> every future handed out is
  settled, those already settled keep their outcome and every other is cancelled; nothing is
  queued, running or degraded any more, and every later submission is refused.\<close>

theorem sched_stop_settles_all:
  assumes "sched_reachable s"
  shows "(\<forall>i < sc_next s. sc_fut (sched_stop el s) i = (if sc_fut s i = FPending then FCancelled else sc_fut s i)) \<and>
         st_queue_depth (sched_stats_of (sched_stop el s)) = 0 \<and>
         st_running_profiles (sched_stats_of (sched_stop el s)) = 0 \<and>
         degraded_backends (sched_stop el s) = [] \<and>
         sched_submit b k p xs fmt (sched_stop el s) = Inl (RuntimeError ''scheduler is stopped'')"
proof -
  note inv = sched_reachable_inv [OF assms]
  obtain r f where t: "sched_stop el s = s\<lparr>sc_stopped := True,
       sc_queues := map (\<lambda>(b, bq). (b, emptied bq)) (map (charge el s) (sc_queues s)),
       sc_running := r, sc_fut := f, sc_workers := [], sc_retired := [], sc_degraded := []\<rparr>"
    and r: "\<forall>k n. dget r k = Some n \<longrightarrow> 0 < n" "\<forall>k. dcount r k = 0"
    using sched_stop_frame [OF inv] by blast
  have "r = []" (is ?r)
  proof (cases r)
    case (Cons p r')
    obtain k n where "p = (k, n)" by force
    with Cons have "dget r k = Some n" by (simp add: dget_def)
    moreover from this have "dcount r k = n" by (simp add: dcount_def)
    ultimately show ?thesis using r by fastforce
  qed
  have "stride_depth (bq_stride (emptied bq)) = 0" for bq
    by (auto simp: emptied_def stride_depth_def dvals_def)
  then have "sum_list (map (\<lambda>(b, bq). stride_depth (bq_stride bq)) (map (\<lambda>(b, bq). (b, emptied bq)) qs)) = 0" for qs
    by (induction qs) auto
  moreover have "sc_queues (sched_stop el s) =
      map (\<lambda>(b, bq). (b, emptied bq)) (map (charge el s) (sc_queues s))" by (simp add: t)
  ultimately have "st_queue_depth (sched_stats_of (sched_stop el s)) = 0"
    by (simp only: sched_stats_of_def sched_stats.simps)
  with \<open>?r\<close> show ?thesis
    using sched_stop_fut [OF inv, of _ el]
    by (auto simp: sched_stats_of_def degraded_backends_def sched_submit_def t)
qed

lemma add_backend_keeps: "dget (sc_queues s) b = Some bq \<Longrightarrow> dget (sc_queues (add_backend c s)) b = Some bq"
  by (auto simp: add_backend_def spawn_worker_def Let_def dhas_iff)

lemma add_backend_fut: "sc_fut (add_backend c s) = sc_fut s"
  by (simp add: add_backend_def spawn_worker_def Let_def)

lemma fold_add_backend_keeps:
  "dget (sc_queues s) b = Some bq \<Longrightarrow> dget (sc_queues (fold add_backend cs s)) b = Some bq"
  "sc_fut (fold add_backend cs s) = sc_fut s"
  by (induction cs arbitrary: s) (auto intro: add_backend_keeps simp: add_backend_fut)

lemma remove_backend_frame:
  assumes "remove_backend b s = Inr t"
  shows "sc_queues t = dpop b (sc_queues s)"
    and "\<exists>bq. dget (sc_queues s) b = Some bq \<and> (\<forall>j \<in> set (lane_jobs bq). sc_fut t (sj_future j) \<noteq> FPending)"
    and "sc_fut s i \<noteq> FPending \<Longrightarrow> sc_fut t i = sc_fut s i"
  using assms
  by (auto simp: remove_backend_def clear_degradation_def Let_def cancel_queued_eq fold_settle_fut
      split: option.splits if_splits)

lemma remove_backends_frame:
  "remove_backends bs s = Inr t \<Longrightarrow>
     (\<forall>b. b \<notin> set bs \<longrightarrow> dget (sc_queues t) b = dget (sc_queues s) b) \<and>
     (\<forall>i. sc_fut s i \<noteq> FPending \<longrightarrow> sc_fut t i = sc_fut s i) \<and>
     (\<forall>b \<in> set bs. \<forall>bq. dget (sc_queues s) b = Some bq \<longrightarrow>
        (\<forall>j \<in> set (lane_jobs bq). sc_fut t (sj_future j) \<noteq> FPending))"
proof (induction bs arbitrary: s)
  case (Cons b bs)
  then obtain u where u: "remove_backend b s = Inr u" "remove_backends bs u = Inr t"
    by (auto simp: bind_res_eq_Inr)
  note f = remove_backend_frame [OF u(1)] and g = Cons.IH [OF u(2)]
  have "dget (sc_queues t) c = dget (sc_queues s) c" if "c \<notin> set (b # bs)" for c
    using that f(1) g by simp
  moreover have "sc_fut t i = sc_fut s i" if "sc_fut s i \<noteq> FPending" for i
    using that f(3) g by metis
  moreover have "sc_fut t (sj_future j) \<noteq> FPending"
    if "c \<in> set (b # bs)" "dget (sc_queues s) c = Some bq" "j \<in> set (lane_jobs bq)" for c bq j
  proof (cases "c = b")
    case True
    with that f(2) have "sc_fut u (sj_future j) \<noteq> FPending" by auto
    with g show ?thesis by metis
  next
    case False
    with that f(1) g show ?thesis by auto
  qed
  ultimately show ?case by blast
qed simp

text \<open>Rediscovery never raises: in every reachable state \<^verbatim>\<open>update_executors\<close> succeeds, the
  lanes afterwards are those of the new executors, a lane both sets have keeps its queue, and
  every job queued in a lane that is gone has its future settled.\<close>

theorem update_executors_correct:
  assumes "sched_reachable s" "dict_ok executors"
  shows "\<exists>t. update_executors executors s = Inr t \<and> sched_inv t \<and>
     set (dkeys (sc_queues t)) = set (dkeys executors) \<and>
     (\<forall>b bq. dget (sc_queues s) b = Some bq \<longrightarrow>
        (if dhas executors b then dget (sc_queues t) b = Some bq
         else \<forall>j \<in> set (lane_jobs bq). sc_fut t (sj_future j) \<noteq> FPending))"
proof -
  note inv = sched_reachable_inv [OF assms(1)]
  let ?bs = "filter (\<lambda>b. \<not> dhas executors b) (dkeys (sc_executors s))"
  obtain t where t: "update_executors executors s = Inr t" "sched_inv t"
    using update_executors_inv [OF inv assms(2)] by blast
  then obtain u where u: "remove_backends ?bs (s\<lparr>sc_executors := executors\<rparr>) = Inr u"
    and tu: "t = fold add_backend (dkeys executors) u"
    by (auto simp: update_executors_def Let_def map_res_eq_Inr)
  note f = remove_backends_frame [OF u]
  have "sc_executors t = executors"
  proof -
    have "sc_executors (fold add_backend cs x) = sc_executors x" for cs x
      by (induction cs arbitrary: x) (auto simp: add_backend_def spawn_worker_def Let_def)
    moreover have "remove_backends cs x = Inr y \<Longrightarrow> sc_executors y = sc_executors x" for cs x y
      by (induction cs arbitrary: x)
        (fastforce simp: remove_backend_def bind_res_eq_Inr clear_degradation_def Let_def cancel_queued_eq
          split: option.splits)+
    ultimately show ?thesis using u tu by fastforce
  qed
  with t(2) have "set (dkeys (sc_queues t)) = set (dkeys executors)" by (simp add: sched_inv_core)
  moreover have "if dhas executors b then dget (sc_queues t) b = Some bq
        else \<forall>j \<in> set (lane_jobs bq). sc_fut t (sj_future j) \<noteq> FPending"
    if b: "dget (sc_queues s) b = Some bq" for b bq
  proof (cases "dhas executors b")
    case True
    then have "dget (sc_queues u) b = Some bq" using f b by simp
    then show ?thesis using True by (simp add: tu fold_add_backend_keeps)
  next
    case False
    have "dhas (sc_queues s) b" using b by (simp add: dhas_iff)
    then have "b \<in> set (dkeys (sc_executors s))" using inv by (simp add: sched_inv_core dhas_def)
    with False f b show ?thesis by (auto simp: tu fold_add_backend_keeps)
  qed
  ultimately show ?thesis using t by blast
qed

section \<open>Witnesses\<close>

text \<open>One lane is started, two jobs of a profile are submitted, the worker takes the first.\<close>

definition demo_executors :: "executor dict" where
  "demo_executors = [(''gpu'', \<lparr>ex_backend = ''gpu'', ex_formats = [''onnx''],
     ex_availability = \<lparr>av_available = True, av_reason = [], av_code = []\<rparr>, ex_availability_for = None\<rparr>)]"

definition demo_idle :: sched where
  "demo_idle = \<lparr>sc_executors = demo_executors, sc_max_depth = 2, sc_queues = [(''gpu'', bqueue_init)],
     sc_running = [], sc_workers = [(''gpu'', None)], sc_retired = [], sc_degraded = [],
     sc_started = True, sc_stopped = False, sc_fut = (\<lambda>_. FPending), sc_next = 0, sc_last_tick = 0\<rparr>"

definition demo_submit :: "sched \<Rightarrow> sched" where
  "demo_submit s = (case sched_submit ''gpu'' ''p'' ''m.onnx'' [] None s of Inr (i, t) \<Rightarrow> t | Inl e \<Rightarrow> s)"

definition demo_busy :: sched where
  "demo_busy = worker_take (\<lambda>_. PInt 1) None ''gpu'' (demo_submit (demo_submit demo_idle))"

lemma demo_idle_reachable: "sched_reachable demo_idle"
proof -
  obtain s where s: "sched_init demo_executors 2 0 = Inr s" by (simp add: sched_init_def)
  have "sched_reachable s" by (rule sched_reachable.init [OF _ s]) (simp add: demo_executors_def dict_ok_def dkeys_def)
  then have "sched_reachable (sched_start s)"
    by (rule sched_reachable.step) (use s in \<open>auto intro: sched_step.start simp: sched_init_def\<close>)
  moreover have "sched_start s = demo_idle"
    using s by (auto simp: sched_init_def sched_start_def fold_spawn demo_idle_def demo_executors_def
        dkeys_def dset_def bqueue_init_def)
  ultimately show ?thesis by simp
qed

lemma demo_submit_reachable: "sched_reachable s \<Longrightarrow> sched_reachable (demo_submit s)"
  by (auto simp: demo_submit_def split: sum.splits prod.splits intro: sched_reachable.step sched_step.submit)

lemma demo_busy_reachable: "sched_reachable demo_busy"
proof -
  have "dget (sc_workers (demo_submit (demo_submit demo_idle))) ''gpu'' = Some None"
    by (simp add: demo_submit_def sched_submit_def demo_idle_def Let_def dget_def split: option.splits)
  then show ?thesis
    unfolding demo_busy_def
    by (intro sched_reachable.step [OF _ sched_step.take] demo_submit_reachable demo_idle_reachable)
qed

lemma demo_busy_state:
  "sc_next demo_busy = 2 \<and> sc_running demo_busy = [(''p'', 1)] \<and> sc_fut demo_busy 1 = FPending"
  by code_simp

theorem sched_no_lost_job_witness:
  "sched_reachable demo_busy \<and> (\<exists>j. sj_future j = 1 \<and> (lane_has demo_busy j \<or> executing demo_busy j)) \<and>
   executing_count ''p'' demo_busy = 1"
proof -
  note p = sched_no_lost_job [OF demo_busy_reachable]
  have "dcount (sc_running demo_busy) ''p'' = 1" using demo_busy_state by (simp add: dcount_def dget_def)
  moreover have "\<exists>j. sj_future j = 1 \<and> (lane_has demo_busy j \<or> executing demo_busy j)"
    using p demo_busy_state by simp
  ultimately show ?thesis using p demo_busy_reachable by metis
qed

theorem sched_stop_settles_all_witness:
  "sc_fut demo_busy 0 = FPending \<and> sc_fut (sched_stop (\<lambda>_. 0) demo_busy) 0 = FCancelled \<and>
   sc_fut (sched_stop (\<lambda>_. 0) demo_busy) 1 = FCancelled"
proof -
  have "sc_fut demo_busy 0 = FPending" by code_simp
  then show ?thesis
    using sched_stop_settles_all [OF demo_busy_reachable, of "\<lambda>_. 0"] demo_busy_state by auto
qed

theorem update_executors_correct_witness:
  "\<exists>t. update_executors [] demo_busy = Inr t \<and> sched_inv t \<and> sc_fut t 1 \<noteq> FPending"
proof -
  have "dget (sc_queues demo_busy) ''gpu'' \<noteq> None \<and>
      map sj_future (lane_jobs (the (dget (sc_queues demo_busy) ''gpu''))) = [1]" by code_simp
  then obtain bq where bq: "dget (sc_queues demo_busy) ''gpu'' = Some bq" "map sj_future (lane_jobs bq) = [1]"
    by auto
  then obtain j where j: "j \<in> set (lane_jobs bq)" "sj_future j = 1" by (cases "lane_jobs bq") auto
  obtain t where t: "update_executors [] demo_busy = Inr t" "sched_inv t"
    and q: "\<forall>b bq. dget (sc_queues demo_busy) b = Some bq \<longrightarrow>
        (if dhas ([] :: executor dict) b then dget (sc_queues t) b = Some bq
         else \<forall>j \<in> set (lane_jobs bq). sc_fut t (sj_future j) \<noteq> FPending)"
    using update_executors_correct [OF demo_busy_reachable dict_ok_Nil] by blast
  from q [rule_format, OF bq(1)] j have "sc_fut t 1 \<noteq> FPending" by (auto simp: dhas_def)
  with t show ?thesis by blast
qed

end
