(* ===== verification/Tensor_Input.thy ===== *)
theory Tensor_Input
  imports OT_Prelude "HOL-Library.Word"
begin

text \<open>
  The tensors a job carries: \<^verbatim>\<open>src/omnitensor/tensorcontract.py\<close> (what a model declares of its
  inputs), \<^verbatim>\<open>tensorref.py\<close> (inputs passed as a file reference) and the tensor part of
  \<^verbatim>\<open>dispatch.py\<close> (validation and encoding under an element budget).  A file system is what
  \<^verbatim>\<open>stat\<close> and \<^verbatim>\<open>read\<close> answer for a path; SHA-256 is an argument.  Bytes are 8-bit words, and
  floats are decoded from their bits.
\<close>

section \<open>Validation under an element budget\<close>

record budget =
  bu_remaining :: "int option"
  bu_maximum :: "int option"
  bu_code :: string
  bu_label :: string

definition budget_init :: "int option \<Rightarrow> string \<Rightarrow> string \<Rightarrow> budget res" where
  "budget_init maximum code label =
     (case maximum of
        Some m \<Rightarrow> if m < 1 then Inl ValueError
                  else Inr \<lparr>bu_remaining = Some m, bu_maximum = Some m, bu_code = code, bu_label = label\<rparr>
      | None \<Rightarrow> Inr \<lparr>bu_remaining = None, bu_maximum = None, bu_code = code, bu_label = label\<rparr>)"

definition opt_int_str :: "int option \<Rightarrow> string" where
  "opt_int_str x = (case x of None \<Rightarrow> ''None'' | Some n \<Rightarrow> int_str n)"

definition spend :: "int \<Rightarrow> budget \<Rightarrow> budget res" where
  "spend n b =
     (case bu_remaining b of
        None \<Rightarrow> Inr b
      | Some r \<Rightarrow>
          if r - n < 0
          then Inl (Stable (bu_code b) (bu_label b @ '' exceeds '' @ opt_int_str (bu_maximum b) @ '' tensor elements''))
          else Inr (b\<lparr>bu_remaining := Some (r - n)\<rparr>))"

definition payload_invalid :: "string \<Rightarrow> exn" where
  "payload_invalid m = Stable ''payload-invalid'' m"

fun tensor_shape :: "pyval \<Rightarrow> nat list" where
  "tensor_shape (PList vs) = length vs # (case vs of [] \<Rightarrow> [] | v # _ \<Rightarrow> tensor_shape v)"
| "tensor_shape _ = []"

text \<open>\<^verbatim>\<open>type(value).__name__\<close> of a JSON value.\<close>

fun type_name :: "pyval \<Rightarrow> string" where
  "type_name PNone = ''NoneType''"
| "type_name (PBool _) = ''bool''"
| "type_name (PInt _) = ''int''"
| "type_name (PFloat _) = ''float''"
| "type_name (PStr _) = ''str''"
| "type_name (PList _) = ''list''"
| "type_name (PDict _) = ''dict''"

text \<open>One tensor, and the items of a nested one from left to right.\<close>

fun validate_input_tensor :: "pyval \<Rightarrow> budget \<Rightarrow> (pyval \<times> budget) res"
and validate_items :: "pyval list \<Rightarrow> budget \<Rightarrow> (pyval list \<times> budget) res" where
  "validate_input_tensor (PBool x) b = Inl (payload_invalid ''Input tensors must contain numbers'')"
| "validate_input_tensor (PInt n) b = bind_res (spend 1 b) (\<lambda>b1. Inr (PInt n, b1))"
| "validate_input_tensor (PFloat f) b =
     bind_res (spend 1 b) (\<lambda>b1.
       case f of Fin q \<Rightarrow> Inr (PFloat f, b1)
       | _ \<Rightarrow> Inl (payload_invalid ''Input tensors must contain finite numbers''))"
| "validate_input_tensor (PList vs) b =
     bind_res (validate_items vs b) (\<lambda>(encoded, b1).
       if 1 < length (remdups (map tensor_shape encoded))
       then Inl (payload_invalid ''Input tensors must be rectangular'') else Inr (PList encoded, b1))"
| "validate_input_tensor v b =
     Inl (payload_invalid (''Input tensors must be numbers or nested arrays, not '' @ type_name v))"
| "validate_items [] b = Inr ([], b)"
| "validate_items (v # vs) b =
     bind_res (validate_input_tensor v b) (\<lambda>(x, b1).
       bind_res (validate_items vs b1) (\<lambda>(xs, b2). Inr (x # xs, b2)))"

definition inline_inputs :: "pyval dict \<Rightarrow> nat \<Rightarrow> pyval list res" where
  "inline_inputs payload max_input_tensors =
     (case dget payload ''inputs'' of
        Some (PList vs) \<Rightarrow>
          if max_input_tensors < length vs
          then Inl (payload_invalid (''At most '' @ nat_str max_input_tensors @ '' input tensors may be submitted''))
          else Inr vs
      | _ \<Rightarrow> Inl (payload_invalid ''Job payload must contain an inputs array''))"

definition validated :: "int \<Rightarrow> pyval list \<Rightarrow> pyval list res" where
  "validated max_input_elements inputs =
     bind_res (budget_init (Some max_input_elements) ''payload-invalid'' ''Job payload'') (\<lambda>b.
       map_res fst (validate_items inputs b))"

text \<open>
  The result side: the values a backend's tensor converts to.  Array objects are already
  converted by their own \<^verbatim>\<open>tolist\<close>, a value that is none of these is \<open>PDict\<close>, \<open>PStr\<close> or \<open>PNone\<close>.
\<close>

fun encode_tensor :: "pyval \<Rightarrow> budget \<Rightarrow> (pyval \<times> budget) res"
and encode_items :: "pyval list \<Rightarrow> budget \<Rightarrow> (pyval list \<times> budget) res" where
  "encode_tensor (PBool x) b = bind_res (spend 1 b) (\<lambda>b1. Inr (PBool x, b1))"
| "encode_tensor (PInt n) b = bind_res (spend 1 b) (\<lambda>b1. Inr (PInt n, b1))"
| "encode_tensor (PFloat f) b =
     bind_res (spend 1 b) (\<lambda>b1.
       case f of Fin q \<Rightarrow> Inr (PFloat f, b1)
       | _ \<Rightarrow> Inl (Stable ''executor-result-invalid'' ''Inference result contains a non-finite value''))"
| "encode_tensor (PList vs) b = bind_res (encode_items vs b) (\<lambda>(xs, b1). Inr (PList xs, b1))"
| "encode_tensor v b =
     Inl (Stable ''executor-result-invalid'' (''Inference result contains an unencodable '' @ type_name v))"
| "encode_items [] b = Inr ([], b)"
| "encode_items (v # vs) b =
     bind_res (encode_tensor v b) (\<lambda>(x, b1). bind_res (encode_items vs b1) (\<lambda>(xs, b2). Inr (x # xs, b2)))"

text \<open>
  \<^verbatim>\<open>inference_result_payload\<close>; the duration is the float the executor reported, rounded to three
  decimals by the argument \<open>rnd\<close>.
\<close>

definition inference_result_payload ::
    "(rat \<Rightarrow> rat) \<Rightarrow> int option \<Rightarrow> pyval list \<Rightarrow> pyfloat \<Rightarrow> pyval res" where
  "inference_result_payload rnd max_elements outputs duration =
     bind_res (budget_init max_elements ''executor-result-invalid'' ''Inference result'') (\<lambda>b.
     bind_res (encode_items outputs b) (\<lambda>(xs, b1).
       case duration of
         Fin q \<Rightarrow> Inr (PDict [(''outputs'', PList xs), (''durationMs'', PFloat (Fin (rnd q)))])
       | _ \<Rightarrow> Inl (Stable ''executor-result-invalid'' ''Executor reported a non-finite duration'')))"

section \<open>What a model declares\<close>

record input_spec =
  is_shape :: "int list"
  is_dtype :: string

definition MAX_INPUTS :: nat where "MAX_INPUTS = 8"

definition dims_of :: "pyval \<Rightarrow> int list res" where
  "dims_of v = (case v of
      PList vs \<Rightarrow> if list_all (\<lambda>x. case x of PInt _ \<Rightarrow> True | _ \<Rightarrow> False) vs
                  then Inr (map (\<lambda>x. case x of PInt n \<Rightarrow> n | _ \<Rightarrow> 0) vs) else Inl TypeError
    | _ \<Rightarrow> Inl TypeError)"

text \<open>Only the enforced fields of a specification are kept; the published ones take no part.\<close>

definition input_spec_of :: "pyval \<Rightarrow> input_spec res" where
  "input_spec_of item =
     (case item of
        PDict d \<Rightarrow>
          (case (dget d ''shape'', dget d ''dtype'') of
             (Some sh, Some (PStr dt)) \<Rightarrow> map_res (\<lambda>s. \<lparr>is_shape = s, is_dtype = dt\<rparr>) (dims_of sh)
           | _ \<Rightarrow> Inl KeyError)
      | _ \<Rightarrow> Inl TypeError)"

fun input_specs :: "pyval list \<Rightarrow> input_spec list res" where
  "input_specs [] = Inr []"
| "input_specs (v # vs) = bind_res (input_spec_of v) (\<lambda>s. map_res (\<lambda>ss. s # ss) (input_specs vs))"

definition declared_inputs :: "pyval option \<Rightarrow> input_spec list option res" where
  "declared_inputs contract =
     (case contract of
        Some (PDict d) \<Rightarrow>
          (case dget d ''inputs'' of
             Some (PList (v # vs)) \<Rightarrow>
               if MAX_INPUTS < length (v # vs) then Inl ValueError
               else map_res Some (input_specs (v # vs))
           | Some (PStr (ch # chs)) \<Rightarrow> if MAX_INPUTS < length (ch # chs) then Inl ValueError else Inl TypeError
           | _ \<Rightarrow> Inr None)
      | _ \<Rightarrow> Inr None)"

text \<open>The shape of a rectangular, nowhere empty nested list.\<close>

fun rectangular_shape :: "pyval \<Rightarrow> nat list option" where
  "rectangular_shape (PList []) = None"
| "rectangular_shape (PList (v # vs)) =
     (case rectangular_shape v of
        None \<Rightarrow> None
      | Some s \<Rightarrow> if list_all (\<lambda>x. rectangular_shape x = Some s) vs then Some (length (v # vs) # s) else None)"
| "rectangular_shape _ = Some []"

definition measured_shape :: "pyval \<Rightarrow> nat list option" where
  "measured_shape v = (case v of PList _ \<Rightarrow> rectangular_shape v | _ \<Rightarrow> None)"

definition ints_str :: "int list \<Rightarrow> string" where
  "ints_str xs = ''['' @ concat (case map int_str xs of [] \<Rightarrow> [] | y # ys \<Rightarrow> y # map (\<lambda>z. '', '' @ z) ys) @ '']''"

fun contract_check :: "nat \<Rightarrow> input_spec list \<Rightarrow> (int list option \<times> string option) list \<Rightarrow> string option" where
  "contract_check i (s # ss) ((shape, dtype) # rest) =
     (if shape \<noteq> None \<and> the shape \<noteq> is_shape s
      then Some (''input '' @ nat_str i @ '' has shape '' @ ints_str (the shape) @ '' and the model declares ''
                 @ ints_str (is_shape s))
      else if dtype \<noteq> None \<and> the dtype \<noteq> is_dtype s
      then Some (''input '' @ nat_str i @ '' is '' @ the dtype @ '' and the model declares '' @ is_dtype s)
      else contract_check (Suc i) ss rest)"
| "contract_check i _ _ = None"

definition contract_error :: "input_spec list option \<Rightarrow> (int list option \<times> string option) list \<Rightarrow> string option" where
  "contract_error specs shapes =
     (case specs of
        None \<Rightarrow> None
      | Some [] \<Rightarrow> None
      | Some ss \<Rightarrow>
          if length shapes \<noteq> length ss
          then Some (''the model declares '' @ nat_str (length ss) @ '' input'' @ (if length ss = 1 then [] else ''s'')
                     @ '' and '' @ nat_str (length shapes) @ (if length shapes = 1 then '' was'' else '' were'') @ '' supplied'')
          else contract_check 0 ss shapes)"

section \<open>Referenced tensors\<close>

type_synonym byte = "8 word"

definition DEFAULT_MAX_TENSOR_BYTES :: nat where "DEFAULT_MAX_TENSOR_BYTES = 64 * 1024 * 1024"
definition MAX_RANK :: nat where "MAX_RANK = 6"
definition MAX_DIMENSION :: int where "MAX_DIMENSION = 65536"
definition READ_CHUNK_BYTES :: nat where "READ_CHUNK_BYTES = 1024 * 1024"

datatype dtype = Float32 | Float64 | Int32 | Int64 | UInt8

fun dtype_name :: "dtype \<Rightarrow> string" where
  "dtype_name Float32 = ''float32''"
| "dtype_name Float64 = ''float64''"
| "dtype_name Int32 = ''int32''"
| "dtype_name Int64 = ''int64''"
| "dtype_name UInt8 = ''uint8''"

fun dtype_size :: "dtype \<Rightarrow> nat" where
  "dtype_size Float32 = 4" | "dtype_size Float64 = 8" | "dtype_size Int32 = 4" | "dtype_size Int64 = 8"
| "dtype_size UInt8 = 1"

definition dtype_of :: "string \<Rightarrow> dtype option" where
  "dtype_of s = List.find (\<lambda>d. dtype_name d = s) [Float32, Float64, Int32, Int64, UInt8]"

record tensor_ref =
  tr_path :: string
  tr_shape :: "nat list"
  tr_dtype :: dtype
  tr_sha256 :: string

definition element_count :: "tensor_ref \<Rightarrow> nat" where
  "element_count r = prod_list (tr_shape r)"

definition expected_bytes :: "tensor_ref \<Rightarrow> nat" where
  "expected_bytes r = element_count r * dtype_size (tr_dtype r)"

definition ref_invalid :: "string \<Rightarrow> exn" where
  "ref_invalid m = Stable ''input-ref-invalid'' m"

fun parse_dims :: "pyval list \<Rightarrow> nat list res" where
  "parse_dims [] = Inr []"
| "parse_dims (v # vs) =
     (case v of
        PInt n \<Rightarrow> if \<not> (1 \<le> n \<and> n \<le> MAX_DIMENSION)
                  then Inl (ref_invalid (''shape dimension out of range: '' @ int_str n))
                  else map_res (\<lambda>ds. nat n # ds) (parse_dims vs)
      | _ \<Rightarrow> Inl (ref_invalid ''shape dimensions must be integers''))"

definition parse_shape :: "pyval option \<Rightarrow> nat list res" where
  "parse_shape v =
     (case v of
        Some (PList xs) \<Rightarrow>
          if xs = [] then Inl (ref_invalid ''input reference shape is invalid'')
          else if MAX_RANK < length xs then Inl (ref_invalid (''rank must not exceed '' @ nat_str MAX_RANK))
          else parse_dims xs
      | _ \<Rightarrow> Inl (ref_invalid ''input reference shape is invalid''))"

text \<open>\<^verbatim>\<open>digest.lower()\<close> on ASCII letters.\<close>

definition lower_char :: "char \<Rightarrow> char" where
  "lower_char ch = (let n = of_char ch :: nat in if 65 \<le> n \<and> n \<le> 90 then char_of (n + 32) else ch)"

definition dtype_message :: string where
  "dtype_message = ''dtype must be one of float32, float64, int32, int64, uint8''"

definition path_field :: "pyval dict \<Rightarrow> string res" where
  "path_field d =
     (case dget d ''path'' of
        Some (PStr p) \<Rightarrow> if p = [] then Inl (ref_invalid ''input reference path is invalid'') else Inr p
      | _ \<Rightarrow> Inl (ref_invalid ''input reference path is invalid''))"

text \<open>An unhashable \<^verbatim>\<open>dtype\<close> makes the membership test itself raise a \<^verbatim>\<open>TypeError\<close>.\<close>

definition dtype_field :: "pyval dict \<Rightarrow> dtype res" where
  "dtype_field d =
     (case dget d ''dtype'' of
        None \<Rightarrow> Inr Float32
      | Some (PStr s) \<Rightarrow> (case dtype_of s of Some t \<Rightarrow> Inr t | None \<Rightarrow> Inl (ref_invalid dtype_message))
      | Some (PList _) \<Rightarrow> Inl TypeError
      | Some (PDict _) \<Rightarrow> Inl TypeError
      | Some _ \<Rightarrow> Inl (ref_invalid dtype_message))"

definition digest_field :: "pyval dict \<Rightarrow> string res" where
  "digest_field d =
     (case dget d ''sha256'' of
        Some (PStr s) \<Rightarrow>
          if length s \<noteq> 64 then Inl (ref_invalid ''input reference must declare a sha256 digest'')
          else Inr (map lower_char s)
      | _ \<Rightarrow> Inl (ref_invalid ''input reference must declare a sha256 digest''))"

definition parse_reference :: "pyval \<Rightarrow> tensor_ref res" where
  "parse_reference document =
     (case document of
        PDict d \<Rightarrow>
          bind_res (path_field d) (\<lambda>p.
          bind_res (dtype_field d) (\<lambda>t.
          bind_res (parse_shape (dget d ''shape'')) (\<lambda>sh.
          bind_res (digest_field d) (\<lambda>digest.
            Inr \<lparr>tr_path = p, tr_shape = sh, tr_dtype = t, tr_sha256 = digest\<rparr>))))
      | _ \<Rightarrow> Inl (ref_invalid ''an input reference must be an object''))"

fun parse_all :: "pyval list \<Rightarrow> tensor_ref list res" where
  "parse_all [] = Inr []"
| "parse_all (v # vs) = bind_res (parse_reference v) (\<lambda>r. map_res (\<lambda>rs. r # rs) (parse_all vs))"

definition parse_references :: "pyval dict \<Rightarrow> nat \<Rightarrow> tensor_ref list option res" where
  "parse_references payload max_tensors =
     (case dget payload ''inputRefs'' of
        None \<Rightarrow> Inr None
      | Some PNone \<Rightarrow> Inr None
      | Some (PList (v # vs)) \<Rightarrow>
          if max_tensors < length (v # vs)
          then Inl (ref_invalid (''at most '' @ nat_str max_tensors @ '' referenced inputs are allowed''))
          else if dhas payload ''inputs''
          then Inl (ref_invalid ''a payload carries either inputs or inputRefs, never both'')
          else map_res Some (parse_all (v # vs))
      | Some _ \<Rightarrow> Inl (ref_invalid ''inputRefs must be a non-empty array''))"

text \<open>
  A root policy permits paths; \<open>opted_in\<close> judges a path by where it resolves to, component by
  component.  \<open>resolve\<close> is None when resolving raises.
\<close>

record root_policy =
  rp_permits :: "string \<Rightarrow> bool"
  rp_describe :: string

definition opted_in_permits :: "string list list \<Rightarrow> (string \<Rightarrow> string list option) \<Rightarrow> string \<Rightarrow> bool" where
  "opted_in_permits roots resolve path =
     (case resolve path of None \<Rightarrow> False
      | Some p \<Rightarrow> list_ex (\<lambda>root. p = root \<or> (length root < length p \<and> take (length root) p = root)) roots)"

definition deny_all :: root_policy where
  "deny_all = \<lparr>rp_permits = (\<lambda>_. False), rp_describe = ''input references are not enabled for this service''\<rparr>"

text \<open>What the file system answers for a path: its size, and its bytes, or an error text.\<close>

record fs_view =
  fv_size :: "string + nat"
  fv_bytes :: "string + byte list"

definition permitted :: "root_policy \<Rightarrow> (string \<Rightarrow> fs_view) \<Rightarrow> nat \<Rightarrow> tensor_ref \<Rightarrow> unit res" where
  "permitted policy fs max_tensor_bytes r =
     (if \<not> rp_permits policy (tr_path r)
      then Inl (Stable ''input-ref-denied'' (''that path may not be read; '' @ rp_describe policy))
      else if max_tensor_bytes < expected_bytes r
      then Inl (Stable ''input-ref-too-large'' (nat_str (expected_bytes r) @ '' bytes exceeds the ''
                @ nat_str max_tensor_bytes @ ''-byte limit''))
      else case fv_size (fs (tr_path r)) of
             Inl e \<Rightarrow> Inl (Stable ''input-ref-denied'' (''that path may not be read: '' @ e))
           | Inr n \<Rightarrow>
               if n \<noteq> expected_bytes r
               then Inl (Stable ''input-ref-mismatch'' (''declared shape needs '' @ nat_str (expected_bytes r)
                         @ '' bytes, file holds '' @ nat_str n))
               else Inr ())"

text \<open>The number whose little-endian bytes these are, and the element it encodes.\<close>

fun little :: "byte list \<Rightarrow> nat" where
  "little [] = 0"
| "little (b # bs) = unat b + 256 * little bs"

definition scaled :: "nat \<Rightarrow> int \<Rightarrow> rat" where
  "scaled m e = (if 0 \<le> e then of_nat m * 2 ^ nat e else of_nat m / 2 ^ nat (- e))"

text \<open>IEEE 754 with \<open>mb\<close> mantissa bits and \<open>eb\<close> exponent bits.\<close>

definition float_of_bits :: "nat \<Rightarrow> nat \<Rightarrow> nat \<Rightarrow> pyfloat" where
  "float_of_bits mb eb n =
     (let m = n mod 2 ^ mb; e = n div 2 ^ mb mod 2 ^ eb; neg = n div 2 ^ (mb + eb) mod 2 = 1;
          bias = 2 ^ (eb - 1) - 1 :: int
      in if e = 2 ^ eb - 1
         then (if m \<noteq> 0 then NaN else if neg then NegInf else PosInf)
         else let v = (if e = 0 then scaled m (1 - bias - int mb)
                       else scaled (2 ^ mb + m) (int e - bias - int mb))
              in Fin (if neg then - v else v))"

definition signed_of :: "nat \<Rightarrow> nat \<Rightarrow> int" where
  "signed_of bits n = (if n < 2 ^ (bits - 1) then int n else int n - 2 ^ bits)"

fun element_value :: "dtype \<Rightarrow> byte list \<Rightarrow> pyval" where
  "element_value Float32 bs = PFloat (float_of_bits 23 8 (little bs))"
| "element_value Float64 bs = PFloat (float_of_bits 52 11 (little bs))"
| "element_value Int32 bs = PInt (signed_of 32 (little bs))"
| "element_value Int64 bs = PInt (signed_of 64 (little bs))"
| "element_value UInt8 bs = PInt (int (little bs))"

definition unpack_values :: "dtype \<Rightarrow> byte list \<Rightarrow> pyval list" where
  "unpack_values t bs = map (element_value t) (split_chunks (dtype_size t) bs)"

definition finite_value :: "pyval \<Rightarrow> bool" where
  "finite_value v = (case v of PFloat (Fin _) \<Rightarrow> True | PFloat _ \<Rightarrow> False | _ \<Rightarrow> True)"

definition is_float :: "dtype \<Rightarrow> bool" where
  "is_float t = (t = Float32 \<or> t = Float64)"

definition refuse_non_finite :: "dtype \<Rightarrow> byte list \<Rightarrow> unit res" where
  "refuse_non_finite t bs =
     (if list_all finite_value (unpack_values t bs) then Inr ()
      else Inl (ref_invalid ''referenced tensors must contain finite numbers''))"

text \<open>
  The loop of \<^verbatim>\<open>_read_reference\<close> over the chunks: the running total, the bytes of an unfinished
  element, and the bytes read so far, which the digest and the retained buffer are made of.
\<close>

fun read_loop ::
    "dtype \<Rightarrow> nat \<Rightarrow> nat \<Rightarrow> byte list \<Rightarrow> byte list \<Rightarrow> byte list list \<Rightarrow> byte list res" where
  "read_loop t max_bytes got carry seen [] = Inr seen"
| "read_loop t max_bytes got carry seen (chunk # chunks) =
     (if max_bytes < got + length chunk
      then Inl (Stable ''input-ref-too-large'' (''file exceeds '' @ nat_str max_bytes @ '' bytes''))
      else if \<not> is_float t
      then read_loop t max_bytes (got + length chunk) carry (seen @ chunk) chunks
      else let data = carry @ chunk;
               whole = length data - length data mod dtype_size t
           in if whole = 0
              then read_loop t max_bytes (got + length chunk) data (seen @ chunk) chunks
              else bind_res (refuse_non_finite t (take whole data)) (\<lambda>_.
                     read_loop t max_bytes (got + length chunk) (drop whole data) (seen @ chunk) chunks))"

definition read_reference :: "(string \<Rightarrow> fs_view) \<Rightarrow> nat \<Rightarrow> tensor_ref \<Rightarrow> byte list res" where
  "read_reference fs max_bytes r =
     (case fv_bytes (fs (tr_path r)) of
        Inl e \<Rightarrow> Inl (Stable ''input-ref-denied'' (''that path may not be read: '' @ e))
      | Inr bs \<Rightarrow> read_loop (tr_dtype r) max_bytes 0 [] [] (split_chunks READ_CHUNK_BYTES bs))"

definition digest_mismatch :: exn where
  "digest_mismatch = Stable ''input-ref-mismatch'' ''the file does not match the declared sha256''"

definition verify_reference ::
    "(byte list \<Rightarrow> string) \<Rightarrow> root_policy \<Rightarrow> (string \<Rightarrow> fs_view) \<Rightarrow> nat \<Rightarrow> tensor_ref \<Rightarrow> unit res" where
  "verify_reference sha policy fs max_bytes r =
     bind_res (permitted policy fs max_bytes r) (\<lambda>_.
     bind_res (read_reference fs max_bytes r) (\<lambda>bs.
       if sha bs \<noteq> tr_sha256 r then Inl digest_mismatch else Inr ()))"

definition unpack :: "byte list \<Rightarrow> tensor_ref \<Rightarrow> pyval list res" where
  "unpack payload r =
     (if length payload \<noteq> expected_bytes r
      then Inl (Stable ''input-ref-mismatch'' (''declared shape needs '' @ nat_str (expected_bytes r)
                @ '' bytes, the read returned '' @ nat_str (length payload)))
      else Inr (unpack_values (tr_dtype r) payload))"

fun reshape :: "nat list \<Rightarrow> pyval list \<Rightarrow> pyval list" where
  "reshape [] flat = flat"
| "reshape [d] flat = flat"
| "reshape (d # ds) flat = map (\<lambda>part. PList (reshape ds part)) (split_chunks (prod_list ds) flat)"

definition load_referenced_tensor ::
    "(byte list \<Rightarrow> string) \<Rightarrow> root_policy \<Rightarrow> (string \<Rightarrow> fs_view) \<Rightarrow> nat \<Rightarrow> tensor_ref \<Rightarrow> pyval res" where
  "load_referenced_tensor sha policy fs max_bytes r =
     bind_res (permitted policy fs max_bytes r) (\<lambda>_.
     bind_res (read_reference fs max_bytes r) (\<lambda>bs.
       if sha bs \<noteq> tr_sha256 r then Inl digest_mismatch
       else map_res (\<lambda>vs. PList (reshape (tr_shape r) vs)) (unpack bs r)))"

fun load_all ::
    "(byte list \<Rightarrow> string) \<Rightarrow> root_policy \<Rightarrow> (string \<Rightarrow> fs_view) \<Rightarrow> nat \<Rightarrow> tensor_ref list \<Rightarrow> pyval list res" where
  "load_all sha policy fs m [] = Inr []"
| "load_all sha policy fs m (r # rs) =
     bind_res (load_referenced_tensor sha policy fs m r) (\<lambda>v. map_res (\<lambda>vs. v # vs) (load_all sha policy fs m rs))"

definition referenced_inputs ::
    "(byte list \<Rightarrow> string) \<Rightarrow> root_policy \<Rightarrow> (string \<Rightarrow> fs_view) \<Rightarrow> nat \<Rightarrow> nat \<Rightarrow> pyval dict \<Rightarrow> pyval list option res" where
  "referenced_inputs sha policy fs max_tensors max_tensor_bytes payload =
     bind_res (parse_references payload max_tensors) (\<lambda>refs.
       case refs of None \<Rightarrow> Inr None
       | Some rs \<Rightarrow> map_res Some (load_all sha policy fs max_tensor_bytes rs))"

section \<open>Rectangular tensors\<close>

definition is_number :: "pyval \<Rightarrow> bool" where
  "is_number v = (case v of PInt _ \<Rightarrow> True | PFloat (Fin _) \<Rightarrow> True | _ \<Rightarrow> False)"

text \<open>
  The specification: a tensor of a shape is a number, or a list of that many tensors of the
  remaining shape; the shape of an empty list stops there.
\<close>

fun has_shape :: "nat list \<Rightarrow> pyval \<Rightarrow> bool" where
  "has_shape [] v = is_number v"
| "has_shape (n # sh) (PList vs) \<longleftrightarrow>
     length vs = n \<and> (if vs = [] then sh = [] else list_all (has_shape sh) vs)"
| "has_shape (n # sh) v = False"

fun elements :: "pyval \<Rightarrow> nat" where
  "elements (PList vs) = sum_list (map elements vs)"
| "elements v = 1"

fun flatten :: "pyval \<Rightarrow> pyval list" where
  "flatten (PList vs) = concat (map flatten vs)"
| "flatten v = [v]"

lemma has_shape_unique: "has_shape sh v \<Longrightarrow> sh = tensor_shape v"
proof (induction v arbitrary: sh)
  case (PList vs)
  then obtain n sh' where sh: "sh = n # sh'" by (cases sh) (auto simp: is_number_def)
  show ?case
  proof (cases vs)
    case (Cons v vs')
    with PList sh show ?thesis by auto
  qed (use PList sh in auto)
qed (case_tac sh; auto simp: is_number_def)+

lemma has_shape_self: "has_shape sh v \<Longrightarrow> has_shape (tensor_shape v) v"
  by (metis has_shape_unique)

lemma spend_add:
  "0 \<le> n \<Longrightarrow> 0 \<le> m \<Longrightarrow> bind_res (spend n b) (spend m) = Inr c \<longleftrightarrow> spend (n + m) b = Inr c"
  by (auto simp: spend_def bind_res_eq_Inr algebra_simps split: option.splits if_splits)

lemma spend_zero: "(\<forall>r. bu_remaining b = Some r \<longrightarrow> 0 \<le> r) \<Longrightarrow> spend 0 b = Inr b"
  by (auto simp: spend_def split: option.split)

lemma spend_remaining: "spend n b = Inr c \<Longrightarrow> bu_remaining c = Some r \<Longrightarrow> 0 \<le> r"
  by (auto simp: spend_def split: option.splits if_splits)

lemma remdups_one: "length (remdups xs) \<le> 1 \<longleftrightarrow> (\<forall>x \<in> set xs. \<forall>y \<in> set xs. x = y)"
proof
  assume l: "length (remdups xs) \<le> 1"
  show "\<forall>x \<in> set xs. \<forall>y \<in> set xs. x = y"
  proof (intro ballI)
    fix x y assume "x \<in> set xs" "y \<in> set xs"
    then have "x \<in> set (remdups xs)" "y \<in> set (remdups xs)" by auto
    with l show "x = y" by (cases "remdups xs") auto
  qed
next
  assume a: "\<forall>x \<in> set xs. \<forall>y \<in> set xs. x = y"
  show "length (remdups xs) \<le> 1"
  proof (cases "remdups xs")
    case (Cons x ys)
    then have x: "x \<in> set xs" by (metis list.set_intros(1) set_remdups)
    have "ys = []"
    proof (rule ccontr)
      assume "ys \<noteq> []"
      then obtain y where "y \<in> set ys" by (cases ys) auto
      then have "y \<in> set xs" "y \<noteq> x" using Cons
        by (metis list.set_intros(2) set_remdups, metis distinct.simps(2) distinct_remdups)
      with a x show False by auto
    qed
    with Cons show ?thesis by simp
  qed simp
qed

lemma rectangular_list:
  "list_all (\<lambda>v. has_shape (tensor_shape v) v) vs \<Longrightarrow>
     length (remdups (map tensor_shape vs)) \<le> 1 \<longleftrightarrow> has_shape (tensor_shape (PList vs)) (PList vs)"
proof (cases vs)
  case (Cons v vs')
  assume a: "list_all (\<lambda>v. has_shape (tensor_shape v) v) vs"
  have "length (remdups (map tensor_shape vs)) \<le> 1 \<longleftrightarrow> (\<forall>x \<in> set vs. tensor_shape x = tensor_shape v)"
    unfolding remdups_one using Cons by auto
  also have "\<dots> \<longleftrightarrow> list_all (has_shape (tensor_shape v)) vs"
  proof -
    have "tensor_shape x = tensor_shape v \<longleftrightarrow> has_shape (tensor_shape v) x" if "x \<in> set vs" for x
    proof
      assume "tensor_shape x = tensor_shape v"
      moreover have "has_shape (tensor_shape x) x" using a that by (simp add: list_all_iff)
      ultimately show "has_shape (tensor_shape v) x" by simp
    qed (rule has_shape_unique [symmetric])
    then show ?thesis by (simp add: list_all_iff)
  qed
  finally show ?thesis using Cons by simp
qed simp

lemma validate_spec:
  "(\<forall>r. bu_remaining b = Some r \<longrightarrow> 0 \<le> r) \<Longrightarrow>
     validate_input_tensor v b = Inr (w, c) \<longleftrightarrow>
       w = v \<and> has_shape (tensor_shape v) v \<and> spend (int (elements v)) b = Inr c"
  "(\<forall>r. bu_remaining b = Some r \<longrightarrow> 0 \<le> r) \<Longrightarrow>
     validate_items vs b = Inr (ws, c) \<longleftrightarrow>
       ws = vs \<and> list_all (\<lambda>v. has_shape (tensor_shape v) v) vs \<and>
       spend (int (sum_list (map elements vs))) b = Inr c"
proof (induction v b and vs b arbitrary: w c and ws c rule: validate_input_tensor_validate_items.induct)
  case (4 vs b)
  show ?case
  proof
    assume "validate_input_tensor (PList vs) b = Inr (w, c)"
    then obtain xs where xs: "validate_items vs b = Inr (xs, c)" "length (remdups (map tensor_shape xs)) \<le> 1" "w = PList xs"
      by (auto simp: bind_res_eq_Inr split: if_splits)
    from 4(1) [OF 4(2), of xs c] xs(1) have e: "xs = vs" "list_all (\<lambda>v. has_shape (tensor_shape v) v) vs"
      "spend (int (sum_list (map elements vs))) b = Inr c" by blast+
    with xs rectangular_list [OF e(2)]
    show "w = PList vs \<and> has_shape (tensor_shape (PList vs)) (PList vs) \<and> spend (int (elements (PList vs))) b = Inr c"
      by simp
  next
    assume a: "w = PList vs \<and> has_shape (tensor_shape (PList vs)) (PList vs) \<and> spend (int (elements (PList vs))) b = Inr c"
    then have l: "list_all (\<lambda>v. has_shape (tensor_shape v) v) vs"
      by (cases vs) (auto simp: list_all_iff intro: has_shape_self)
    from 4(1) [OF 4(2), of vs c] a l have "validate_items vs b = Inr (vs, c)" by simp
    with a rectangular_list [OF l] show "validate_input_tensor (PList vs) b = Inr (w, c)"
      by (auto simp: not_less)
  qed
next
  case (7 v vs b)
  show ?case
  proof
    assume "validate_items (v # vs) b = Inr (ws, c)"
    then obtain x b1 xs where x: "validate_input_tensor v b = Inr (x, b1)" "validate_items vs b1 = Inr (xs, c)" "ws = x # xs"
      by (auto simp: bind_res_eq_Inr)
    from 7(1) [OF 7(3)] x(1) have v: "x = v" "has_shape (tensor_shape v) v" "spend (int (elements v)) b = Inr b1" by auto
    then have b1: "\<forall>r. bu_remaining b1 = Some r \<longrightarrow> 0 \<le> r" using spend_remaining by blast
    from 7(2) [OF b1] x(2) v x(3)
      spend_add [of "int (elements v)" "int (sum_list (map elements vs))" b c]
    show "ws = v # vs \<and> list_all (\<lambda>v. has_shape (tensor_shape v) v) (v # vs) \<and>
        spend (int (sum_list (map elements (v # vs)))) b = Inr c" by (auto simp: bind_res_eq_Inr)
  next
    assume a: "ws = v # vs \<and> list_all (\<lambda>v. has_shape (tensor_shape v) v) (v # vs) \<and>
        spend (int (sum_list (map elements (v # vs)))) b = Inr c"
    then obtain b1 where b1: "spend (int (elements v)) b = Inr b1" "spend (int (sum_list (map elements vs))) b1 = Inr c"
      using spend_add [of "int (elements v)" "int (sum_list (map elements vs))" b c] by (auto simp: bind_res_eq_Inr)
    then have r: "\<forall>r. bu_remaining b1 = Some r \<longrightarrow> 0 \<le> r" using spend_remaining by blast
    have x: "validate_input_tensor v b = Inr (v, b1)" using 7(1) [OF 7(3)] a b1 by auto
    from 7(2) [OF r] a b1 x show "validate_items (v # vs) b = Inr (ws, c)" by (auto simp: bind_res_eq_Inr)
  qed
qed (auto simp: bind_res_eq_Inr is_number_def spend_zero split: pyfloat.splits)

section \<open>Chunks\<close>

lemma split_chunks_append:
  "0 < n \<Longrightarrow> length xs = n * k \<Longrightarrow> split_chunks n (xs @ ys) = split_chunks n xs @ split_chunks n ys"
proof (induction k arbitrary: xs)
  case (Suc k)
  then have ne: "xs \<noteq> []" and l: "length (drop n xs) = n * k" "n \<le> length xs" by auto
  then show ?case
    using Suc.IH [OF Suc.prems(1) l(1)] Suc.prems(1) by (simp add: split_chunks_step)
qed simp

lemma split_chunks_exact:
  "0 < n \<Longrightarrow> length bs = n * k \<Longrightarrow> length (split_chunks n bs) = k \<and> (\<forall>c \<in> set (split_chunks n bs). length c = n)"
proof (induction k arbitrary: bs)
  case (Suc k)
  then have ne: "bs \<noteq> []" and l: "length (drop n bs) = n * k" "n \<le> length bs" by auto
  have "split_chunks n bs = take n bs # split_chunks n (drop n bs)"
    by (rule split_chunks_step [OF Suc.prems(1) ne])
  moreover have "length (take n bs) = n" using l(2) by simp
  ultimately show ?case using Suc.IH [OF Suc.prems(1) l(1)] by simp
qed simp

lemma dtype_size_pos [simp]: "0 < dtype_size t"
  by (cases t) auto

lemma unpack_values_append:
  "length xs = dtype_size t * k \<Longrightarrow> unpack_values t (xs @ ys) = unpack_values t xs @ unpack_values t ys"
  using split_chunks_append [OF dtype_size_pos, of xs t k ys] by (simp add: unpack_values_def)

lemma unpack_values_length: "length bs = dtype_size t * k \<Longrightarrow> length (unpack_values t bs) = k"
  using split_chunks_exact [OF dtype_size_pos, of bs t k] by (simp add: unpack_values_def)

lemma unpack_values_int: "\<not> is_float t \<Longrightarrow> list_all finite_value (unpack_values t bs)"
  by (cases t) (auto simp: is_float_def unpack_values_def finite_value_def list_all_iff)

text \<open>The whole elements of a buffer, which is what a scan in chunks has seen when it ends.\<close>

definition whole_part :: "dtype \<Rightarrow> byte list \<Rightarrow> byte list" where
  "whole_part t d = take (length d - length d mod dtype_size t) d"

lemma whole_part_append:
  assumes "w = length d - length d mod dtype_size t"
  shows "whole_part t (d @ rest) = take w d @ whole_part t (drop w d @ rest)"
    and "length (take w d) = dtype_size t * (length d div dtype_size t)"
    and "length (drop w d) < dtype_size t"
proof -
  have w: "w = dtype_size t * (length d div dtype_size t)" "w \<le> length d"
    using assms by (simp_all add: minus_mod_eq_mult_div)
  then show "length (take w d) = dtype_size t * (length d div dtype_size t)" by simp
  have "length (drop w d) = length d mod dtype_size t" using assms by simp
  then show "length (drop w d) < dtype_size t" by simp
  let ?n = "length d - w + length rest"
  have m: "(length d + length rest) mod dtype_size t = ?n mod dtype_size t"
  proof -
    have "length d + length rest = dtype_size t * (length d div dtype_size t) + ?n" using w by linarith
    then show ?thesis by (metis mod_mult_self4 mult.commute)
  qed
  have "?n mod dtype_size t \<le> ?n" by simp
  then have k: "length d + length rest - ?n mod dtype_size t = w + (?n - ?n mod dtype_size t)" using w(2) by linarith
  define l where "l = drop w d @ rest"
  have l: "length l = ?n" "d @ rest = take w d @ l" "length (take w d) = w" using w(2) by (simp_all add: l_def)
  have "whole_part t (d @ rest) = take (w + (length l - length l mod dtype_size t)) (take w d @ l)"
    unfolding whole_part_def length_append m k l(1) l(2) [symmetric] ..
  also have "\<dots> = take w d @ whole_part t l"
  proof -
    have "take (w + k) (take w d) = take w d" for k by simp
    then show ?thesis unfolding whole_part_def take_append l(3) by (simp only: diff_add_inverse)
  qed
  finally show "whole_part t (d @ rest) = take w d @ whole_part t (drop w d @ rest)" by (simp add: l_def)
qed

lemma read_loop_spec:
  "is_float t \<Longrightarrow> length carry < dtype_size t \<Longrightarrow> got \<le> m \<Longrightarrow>
   read_loop t m got carry seen cs = Inr r \<longleftrightarrow>
     r = seen @ concat cs \<and> got + length (concat cs) \<le> m \<and>
     list_all finite_value (unpack_values t (whole_part t (carry @ concat cs)))"
proof (induction cs arbitrary: carry got seen)
  case Nil
  then show ?case by (auto simp: whole_part_def unpack_values_def)
next
  case (Cons c cs)
  define d where "d = carry @ c"
  define w where "w = length d - length d mod dtype_size t"
  note wp = whole_part_append(1) [OF w_def, of "concat cs"] whole_part_append(2,3) [OF w_def]
  have u: "unpack_values t (whole_part t (carry @ concat (c # cs))) =
      unpack_values t (take w d) @ unpack_values t (whole_part t (drop w d @ concat cs))"
    using wp(1) unpack_values_append [OF wp(2)] by (simp add: d_def)
  show ?case
  proof (cases "m < got + length c")
    case True
    then show ?thesis by auto
  next
    case False
    then have got: "got + length c \<le> m" by simp
    have step: "read_loop t m got carry seen (c # cs) =
       bind_res (refuse_non_finite t (take w d)) (\<lambda>_. read_loop t m (got + length c) (drop w d) (seen @ c) cs)"
    proof -
      have w0: "length d \<le> length d mod dtype_size t \<longleftrightarrow> w = 0" by (simp add: w_def)
      show ?thesis
        using False Cons.prems(1)
        by (cases "w = 0")
          (simp_all add: Let_def w0 flip: d_def w_def, simp_all add: refuse_non_finite_def unpack_values_def)
    qed
    have r: "refuse_non_finite t bs = Inr x \<longleftrightarrow> list_all finite_value (unpack_values t bs)" for bs x
      by (auto simp: refuse_non_finite_def)
    show ?thesis
      unfolding step bind_res_eq_Inr r Cons.IH [OF Cons.prems(1) wp(3) got] u
      by auto
  qed
qed

lemma read_loop_int:
  "\<not> is_float t \<Longrightarrow> got \<le> m \<Longrightarrow>
   read_loop t m got carry seen cs = Inr r \<longleftrightarrow> r = seen @ concat cs \<and> got + length (concat cs) \<le> m"
  by (induction cs arbitrary: got seen) auto

lemma read_reference_spec:
  assumes "fv_bytes (fs (tr_path r)) = Inr bs" and "length bs = expected_bytes r"
  shows "read_reference fs m r = Inr x \<longleftrightarrow>
     x = bs \<and> length bs \<le> m \<and> list_all finite_value (unpack_values (tr_dtype r) bs)"
proof -
  let ?t = "tr_dtype r"
  have c: "concat (split_chunks READ_CHUNK_BYTES bs) = bs"
    by (rule concat_split_chunks) (simp add: READ_CHUNK_BYTES_def)
  have "whole_part ?t bs = bs" using assms(2) by (simp add: whole_part_def expected_bytes_def)
  then show ?thesis
    using assms(1) read_loop_spec [of ?t "[]" 0 m "[]" "split_chunks READ_CHUNK_BYTES bs" x]
      read_loop_int [of ?t 0 m "[]" "[]" "split_chunks READ_CHUNK_BYTES bs" x] unpack_values_int [of ?t bs]
    by (cases "is_float ?t") (auto simp: read_reference_def c)
qed

section \<open>Reshaping\<close>

lemma reshape_shape:
  "sh \<noteq> [] \<Longrightarrow> \<forall>d \<in> set sh. 0 < d \<Longrightarrow> length flat = prod_list sh \<Longrightarrow> list_all is_number flat \<Longrightarrow>
     has_shape sh (PList (reshape sh flat)) \<and> flatten (PList (reshape sh flat)) = flat"
proof (induction sh flat rule: reshape.induct)
  case (2 d flat)
  have "concat (map flatten flat) = flat" if "list_all is_number flat" for flat
    using that by (induction flat) (auto simp: is_number_def split: pyval.splits pyfloat.splits)
  with 2 show ?case by (auto simp: list_all_iff)
next
  case (3 d e ds flat)
  let ?n = "prod_list (e # ds)" and ?sh = "e # ds"
  have n: "0 < ?n" using 3(3) by (induction ds) auto
  have l: "length flat = ?n * d" using 3(4) by (simp add: mult.commute)
  note ex = split_chunks_exact [OF n l]
  have part: "has_shape ?sh (PList (reshape ?sh p)) \<and> flatten (PList (reshape ?sh p)) = p"
    if p: "p \<in> set (split_chunks ?n flat)" for p
  proof (rule 3(1) [OF p])
    have "set p \<subseteq> set flat" using p concat_split_chunks [OF n, of flat] by (metis UN_upper set_concat)
    then show "list_all is_number p" using 3(5) by (auto simp: list_all_iff)
    show "length p = prod_list ?sh" using ex p by blast
  qed (use 3(3) in auto)
  have len: "length (split_chunks ?n flat) = d" using ex by blast
  have "d \<noteq> 0" using 3(3) by simp
  then have "split_chunks ?n flat \<noteq> []" using len by auto
  then have hs: "has_shape (d # e # ds) (PList (reshape (d # e # ds) flat))"
  proof -
    have "list_all (has_shape ?sh) (map (\<lambda>p. PList (reshape ?sh p)) (split_chunks ?n flat))"
      using part by (simp only: list_all_iff set_map ball_simps) blast
    moreover have "reshape (d # e # ds) flat = map (\<lambda>p. PList (reshape ?sh p)) (split_chunks ?n flat)" by simp
    ultimately show ?thesis
      using len \<open>split_chunks ?n flat \<noteq> []\<close> by (simp only: has_shape.simps(2) length_map map_is_Nil_conv if_False)
  qed
  have "flatten (PList (reshape (d # e # ds) flat)) = concat (split_chunks ?n flat)"
  proof -
    have "map (flatten \<circ> (\<lambda>p. PList (reshape ?sh p))) cs = cs" if "\<forall>p \<in> set cs. flatten (PList (reshape ?sh p)) = p" for cs
      using that by (induction cs) auto
    with part show ?thesis by simp
  qed
  then have "flatten (PList (reshape (d # e # ds) flat)) = flat" by (simp only: concat_split_chunks [OF n])
  with hs show ?case by blast
qed simp

section \<open>Properties\<close>


lemma permitted_ok:
  "permitted policy fs m r = Inr x \<longleftrightarrow>
     rp_permits policy (tr_path r) \<and> expected_bytes r \<le> m \<and> fv_size (fs (tr_path r)) = Inr (expected_bytes r)"
  by (auto simp: permitted_def split: sum.splits if_splits)

lemma parse_dims_pos: "parse_dims vs = Inr ds \<Longrightarrow> length ds = length vs \<and> (\<forall>d \<in> set ds. 0 < d \<and> int d \<le> MAX_DIMENSION)"
  by (induction vs arbitrary: ds) (auto simp: map_res_eq_Inr split: pyval.splits if_splits)

lemma parse_reference_shape:
  "parse_reference doc = Inr r \<Longrightarrow>
     tr_shape r \<noteq> [] \<and> length (tr_shape r) \<le> MAX_RANK \<and> (\<forall>d \<in> set (tr_shape r). 0 < d \<and> int d \<le> MAX_DIMENSION)"
  by (auto simp: parse_reference_def bind_res_eq_Inr parse_shape_def dest!: parse_dims_pos
      split: pyval.splits option.splits if_splits)

lemma unpack_numbers:
  "list_all finite_value (unpack_values t bs) \<Longrightarrow> list_all is_number (unpack_values t bs)"
  by (cases t) (auto simp: unpack_values_def list_all_iff finite_value_def is_number_def split: pyfloat.splits)

text \<open>C14. A referenced tensor is admitted exactly when it can be loaded: on an unchanged file the
  check at admission, which keeps no bytes and scans the file in chunks with partial elements
  carried over, accepts the same references as the load at dispatch; and what is loaded is
  exactly the numbers the file encodes, all finite, nested in the declared shape.\<close>

theorem verify_reference_agrees_with_load:
  assumes "parse_reference doc = Inr r" and "fv_size (fs (tr_path r)) = Inr (length bs)"
    and "fv_bytes (fs (tr_path r)) = Inr bs"
  shows "(verify_reference sha policy fs m r = Inr () \<longleftrightarrow> is_ok (load_referenced_tensor sha policy fs m r)) \<and>
     (\<forall>v. load_referenced_tensor sha policy fs m r = Inr v \<longrightarrow>
        rp_permits policy (tr_path r) \<and> length bs \<le> m \<and> sha bs = tr_sha256 r \<and>
        has_shape (tr_shape r) v \<and> flatten v = unpack_values (tr_dtype r) bs)"
proof (cases "length bs = expected_bytes r")
  case False
  then have "permitted policy fs m r \<noteq> Inr x" for x using assms(2) by (auto simp: permitted_ok)
  then show ?thesis
    by (auto simp: verify_reference_def load_referenced_tensor_def bind_res_eq_Inr is_ok_iff)
next
  case True
  note rd = read_reference_spec [where fs = fs and m = m, OF assms(3) True]
  note sh = parse_reference_shape [OF assms(1)]
  have un: "unpack bs r = Inr (unpack_values (tr_dtype r) bs)" using True by (simp add: unpack_def)
  have "has_shape (tr_shape r) (PList (reshape (tr_shape r) vs)) \<and> flatten (PList (reshape (tr_shape r) vs)) = vs"
    if "vs = unpack_values (tr_dtype r) bs" "list_all finite_value vs" for vs
    using that sh unpack_values_length [of bs "tr_dtype r" "element_count r"] True unpack_numbers
    by (intro reshape_shape) (auto simp: expected_bytes_def element_count_def mult.commute)
  then show ?thesis
    using True assms(2)
    by (auto simp: verify_reference_def load_referenced_tensor_def bind_res_eq_Inr map_res_eq_Inr is_ok_iff
        permitted_ok rd un)
qed

text \<open>Parsing a reference gives a shape of 1 to 6 dimensions between 1 and 65536 or a stable
  refusal, with one exception: a \<^verbatim>\<open>dtype\<close> that is a JSON array or object escapes as a bare
  \<^verbatim>\<open>TypeError\<close>.\<close>

theorem parse_reference_outcomes:
  "case parse_reference doc of
     Inr r \<Rightarrow> 1 \<le> length (tr_shape r) \<and> length (tr_shape r) \<le> MAX_RANK \<and>
              (\<forall>d \<in> set (tr_shape r). 1 \<le> d \<and> int d \<le> MAX_DIMENSION) \<and> length (tr_sha256 r) = 64
   | Inl e \<Rightarrow> (\<exists>m. e = Stable ''input-ref-invalid'' m) \<or>
              e = TypeError \<and> (\<exists>d p t. doc = PDict d \<and> dget d ''path'' = Some (PStr p) \<and> p \<noteq> [] \<and>
                 dget d ''dtype'' = Some t \<and> (is_dict t \<or> (\<exists>xs. t = PList xs)))"
proof -
  have dims: "\<exists>m. e = Stable ''input-ref-invalid'' m" if "parse_dims vs = Inl e" for vs e
    using that by (induction vs arbitrary: e)
      (auto simp: ref_invalid_def map_res_def split: pyval.splits if_splits sum.splits)
  have shape: "\<exists>m. e = Stable ''input-ref-invalid'' m" if "parse_shape v = Inl e" for v e
    using that dims by (auto simp: parse_shape_def ref_invalid_def split: option.splits pyval.splits if_splits)
  have path: "\<exists>m. e = Stable ''input-ref-invalid'' m" if "path_field d = Inl e" for d e
    using that by (auto simp: path_field_def ref_invalid_def split: option.splits pyval.splits if_splits)
  have digest: "\<exists>m. e = Stable ''input-ref-invalid'' m" if "digest_field d = Inl e" for d e
    using that by (auto simp: digest_field_def ref_invalid_def split: option.splits pyval.splits if_splits)
  have dtype: "(\<exists>m. e = Stable ''input-ref-invalid'' m) \<or>
      e = TypeError \<and> (\<exists>t. dget d ''dtype'' = Some t \<and> (is_dict t \<or> (\<exists>xs. t = PList xs)))"
    if "dtype_field d = Inl e" for d e
    using that by (auto simp: dtype_field_def ref_invalid_def split: option.splits pyval.splits)
  have path_ok: "\<exists>p. dget d ''path'' = Some (PStr p) \<and> p \<noteq> []" if "path_field d = Inr p" for d p
    using that by (auto simp: path_field_def split: option.splits pyval.splits if_splits)
  show ?thesis
  proof (cases "parse_reference doc")
    case (Inr r)
    have "length (tr_sha256 r) = 64"
      using Inr by (auto simp: parse_reference_def digest_field_def bind_res_eq_Inr split: pyval.splits option.splits if_splits)
    with Inr parse_reference_shape [OF Inr] show ?thesis by (cases "tr_shape r") auto
  next
    case (Inl e)
    show ?thesis
    proof (cases "\<exists>d. doc = PDict d")
      case True
      then obtain d where d: "doc = PDict d" by blast
      with Inl consider "path_field d = Inl e"
        | p where "path_field d = Inr p" "dtype_field d = Inl e"
        | "parse_shape (dget d ''shape'') = Inl e" | "digest_field d = Inl e"
        by (auto simp: parse_reference_def bind_res_eq_Inl)
      then show ?thesis
      proof cases
        case (2 p)
        from dtype [OF 2(2)] path_ok [OF 2(1)] Inl d show ?thesis by auto
      qed (use Inl d path shape digest in \<open>auto\<close>)
    next
      case False
      with Inl show ?thesis by (cases doc) (auto simp: parse_reference_def ref_invalid_def)
    qed
  qed
qed

section \<open>Witnesses\<close>

text \<open>Two bytes declared as a tensor of shape [2] of unsigned bytes.\<close>

definition demo_document :: pyval where
  "demo_document = PDict [(''path'', PStr ''/in/x''), (''shape'', PList [PInt 2]), (''dtype'', PStr ''uint8''), (''sha256'', PStr (replicate 64 CHR ''a''))]"

definition demo_ref :: tensor_ref where
  "demo_ref = \<lparr>tr_path = ''/in/x'', tr_shape = [2], tr_dtype = UInt8, tr_sha256 = replicate 64 CHR ''a''\<rparr>"

definition demo_bytes :: "byte list" where
  "demo_bytes = [7, 255]"

definition demo_fs :: "string \<Rightarrow> fs_view" where
  "demo_fs p = \<lparr>fv_size = Inr (length demo_bytes), fv_bytes = Inr demo_bytes\<rparr>"

definition demo_roots :: root_policy where
  "demo_roots = \<lparr>rp_permits = (\<lambda>_. True), rp_describe = ''input roots: /in''\<rparr>"

lemma demo_parse: "parse_reference demo_document = Inr demo_ref"
  by code_simp


theorem verify_reference_agrees_with_load_witness:
  "is_ok (verify_reference (\<lambda>_. replicate 64 CHR ''a'') demo_roots demo_fs 100 demo_ref) \<and>
   is_ok (load_referenced_tensor (\<lambda>_. replicate 64 CHR ''a'') demo_roots demo_fs 100 demo_ref)"
proof -
  let ?sha = "\<lambda>_ :: byte list. replicate 64 CHR ''a''"
  have f: "expected_bytes demo_ref = 2" "length demo_bytes = 2" "tr_sha256 demo_ref = replicate 64 CHR ''a''"
    "tr_dtype demo_ref = UInt8"
    by (simp_all add: demo_ref_def expected_bytes_def element_count_def demo_bytes_def)
  have "read_reference demo_fs 100 demo_ref = Inr demo_bytes"
    using read_reference_spec [of demo_fs demo_ref demo_bytes 100 demo_bytes] unpack_values_int [of UInt8 demo_bytes]
    by (simp add: demo_fs_def f is_float_def)
  moreover have "permitted demo_roots demo_fs 100 demo_ref = Inr ()"
    by (simp add: permitted_ok demo_roots_def demo_fs_def f)
  ultimately have "verify_reference ?sha demo_roots demo_fs 100 demo_ref = Inr ()"
    by (simp only: verify_reference_def bind_res_simps f simp_thms if_False)
  moreover from this have "is_ok (load_referenced_tensor (\<lambda>_. replicate 64 CHR ''a'') demo_roots demo_fs 100 demo_ref)"
    using verify_reference_agrees_with_load [OF demo_parse, of demo_fs demo_bytes "\<lambda>_. replicate 64 CHR ''a''" demo_roots 100]
    by (simp add: demo_fs_def)
  ultimately show ?thesis by simp
qed

theorem parse_reference_outcomes_witness:
  "parse_reference demo_document = Inr demo_ref \<and> length (tr_sha256 demo_ref) = 64 \<and>
   list_all (\<lambda>d. 1 \<le> d \<and> int d \<le> MAX_DIMENSION) (tr_shape demo_ref)"
  using parse_reference_outcomes [of demo_document] by (simp add: demo_parse list_all_iff)

end
