(* ===== verification/Dispatch.thy ===== *)
theory Dispatch
  imports Backend_Scheduler Tensor_Input
begin

text \<open>
  \<^verbatim>\<open>src/omnitensor/dispatch.py\<close> with \<^verbatim>\<open>dispatch_lane.py\<close> and the reference part of
  \<^verbatim>\<open>plugins/artifacts.py\<close>: an admitted job becomes inference on a lane.  The dispatcher joins the
  workload catalog, the artifact store, the executors and the scheduler; the store and the
  device lookups are what the record \<open>dispatcher\<close> holds, the scheduler is the one of
  \<open>Backend_Scheduler\<close>.  A refusal is \<open>Stable code message\<close>.
\<close>

section \<open>Artifact references\<close>

record artifact_ref =
  ar_id :: string
  ar_version :: string
  ar_format :: string
  ar_sha256 :: string
  ar_companions :: "(string \<times> string) list"
  ar_source_uri :: string
  ar_license_spdx :: string

definition FORMATS :: "(string \<times> string) list" where
  "FORMATS = [(''tflite-edgetpu'', ''model.tflite''), (''tflite'', ''model.tflite''), (''onnx'', ''model.onnx''),
     (''openvino'', ''model.xml''), (''ncnn'', ''model.param''), (''gguf'', ''model.gguf''), (''ggml-whisper'', ''model.bin'')]"

definition COMPANION_FILENAMES :: "(string \<times> string list) list" where
  "COMPANION_FILENAMES = [(''ncnn'', [''model.bin'']), (''openvino'', [''model.bin''])]"

definition companion_filenames :: "string \<Rightarrow> string list" where
  "companion_filenames fmt = (case dget COMPANION_FILENAMES fmt of None \<Rightarrow> [] | Some fs \<Rightarrow> fs)"

definition artifact_filename :: "string \<Rightarrow> string res" where
  "artifact_filename fmt = (case dget FORMATS fmt of None \<Rightarrow> Inl ValueError | Some f \<Rightarrow> Inr f)"

text \<open>Required companions of the format that the manifest does not name.\<close>

definition unpinned_companions :: "artifact_ref \<Rightarrow> string list" where
  "unpinned_companions r =
     filter (\<lambda>name. \<not> dhas (ar_companions r) name) (companion_filenames (ar_format r))"

definition artifact_identifier :: "string \<Rightarrow> bool" where
  "artifact_identifier s = words_by lower_alnum (CHR ''-'') False s"

definition digit :: "char \<Rightarrow> bool" where
  "digit ch = (let n = of_char ch :: nat in 48 \<le> n \<and> n \<le> 57)"

text \<open>\<^verbatim>\<open>0|[1-9][0-9]*\<close>, three of them separated by dots.\<close>

definition numeral_ok :: "string \<Rightarrow> bool" where
  "numeral_ok s = (s = ''0'' \<or> (s \<noteq> [] \<and> hd s \<noteq> CHR ''0'' \<and> list_all digit s))"

fun split_on :: "char \<Rightarrow> string \<Rightarrow> string list" where
  "split_on c [] = [[]]"
| "split_on c (ch # cs) =
     (if ch = c then [] # split_on c cs
      else case split_on c cs of [] \<Rightarrow> [[ch]] | w # ws \<Rightarrow> (ch # w) # ws)"

definition version_ok :: "string \<Rightarrow> bool" where
  "version_ok s = (length (split_on (CHR ''.'') s) = 3 \<and> list_all numeral_ok (split_on (CHR ''.'') s))"

definition sha256_ok :: "string \<Rightarrow> bool" where
  "sha256_ok s = (length s = 64 \<and>
     list_all (\<lambda>ch. let n = of_char ch :: nat in 48 \<le> n \<and> n \<le> 57 \<or> 97 \<le> n \<and> n \<le> 102) s)"

text \<open>
  Python's \<^verbatim>\<open>repr\<close> of a text: single quotes unless the text holds one and no double quote;
  backslash, the quote and the control characters are escaped.
\<close>

definition hex_digit :: "nat \<Rightarrow> char" where
  "hex_digit n = char_of (if n < 10 then 48 + n else 87 + n)"

definition repr_char :: "char \<Rightarrow> char \<Rightarrow> string" where
  "repr_char q ch =
     (let n = of_char ch :: nat
      in if ch = q \<or> n = 92 then [CHR 0x5C, ch]
         else if n = 9 then [CHR 0x5C, CHR ''t''] else if n = 10 then [CHR 0x5C, CHR ''n'']
         else if n = 13 then [CHR 0x5C, CHR ''r'']
         else if n < 32 \<or> (127 \<le> n \<and> n \<le> 160) \<or> n = 173
         then [CHR 0x5C, CHR ''x'', hex_digit (n div 16), hex_digit (n mod 16)] else [ch])"

definition quoted :: "string \<Rightarrow> string" where
  "quoted s =
     (let q = (if CHR 0x27 \<in> set s \<and> CHR 0x22 \<notin> set s then CHR 0x22 else CHR 0x27)
      in q # concat (map (repr_char q) s) @ [q])"

text \<open>The empty text when the reference is valid; \<^verbatim>\<open>!r\<close> quotes the offending value.\<close>

definition artifact_reference_error :: "artifact_ref \<Rightarrow> string" where
  "artifact_reference_error r =
     (if \<not> artifact_identifier (ar_id r) then ''invalid artifact id: '' @ quoted (ar_id r)
      else if \<not> version_ok (ar_version r) then ''invalid artifact version: '' @ quoted (ar_version r)
      else if \<not> dhas FORMATS (ar_format r) then ''unsupported artifact format: '' @ ar_format r
      else if \<not> sha256_ok (ar_sha256 r) then ''invalid artifact sha256''
      else [])"

definition declared_companions :: "model \<Rightarrow> (string \<times> string) list" where
  "declared_companions m = (case md_companions m of None \<Rightarrow> [] | Some d \<Rightarrow> sort d)"

definition declared_artifact_reference :: "workload \<Rightarrow> model \<Rightarrow> artifact_ref option" where
  "declared_artifact_reference wl m =
     (let companions = declared_companions m
      in case List.find (\<lambda>en. ae_id en = md_id m \<and> ae_version en = md_version m \<and> ae_format en = md_format m)
                (wl_artifacts wl) of
           Some en \<Rightarrow> Some \<lparr>ar_id = ae_id en, ar_version = ae_version en, ar_format = ae_format en,
                           ar_sha256 = ae_sha256 en, ar_companions = companions,
                           ar_source_uri = (case ae_source_uri en of None \<Rightarrow> [] | Some u \<Rightarrow> u),
                           ar_license_spdx = (case ae_license_spdx en of None \<Rightarrow> [] | Some l \<Rightarrow> l)\<rparr>
         | None \<Rightarrow>
             (case md_sha256 m of
                Some (ch # cs) \<Rightarrow>
                  Some \<lparr>ar_id = md_id m, ar_version = md_version m, ar_format = md_format m, ar_sha256 = ch # cs,
                        ar_companions = companions, ar_source_uri = [], ar_license_spdx = []\<rparr>
              | _ \<Rightarrow> None))"

definition refuse_unpinned :: "string \<Rightarrow> artifact_ref option \<Rightarrow> artifact_ref res" where
  "refuse_unpinned workload_id reference =
     (case reference of
        None \<Rightarrow> Inl (Stable ''model-unpinned'' (workload_id @
          '': the manifest declares a model without a sha256, so the runtime cannot tell which file the publisher meant''))
      | Some r \<Rightarrow>
          if unpinned_companions r \<noteq> []
          then Inl (Stable ''companion-unpinned'' (workload_id @ '': the manifest declares no digest for '' @
                 join '', '' (unpinned_companions r) @ '', which is where this format keeps its weights''))
          else Inr r)"

section \<open>Prepared lanes\<close>

record prepared =
  pl_backend :: string
  pl_device :: string
  pl_reference :: artifact_ref

definition prepared_lane :: "string \<Rightarrow> string \<Rightarrow> artifact_ref \<Rightarrow> prepared res" where
  "prepared_lane backend device_id reference =
     (if backend \<notin> set BACKENDS then Inl ValueError
      else if device_id = [] \<or> 120 < length device_id then Inl ValueError
      else if artifact_reference_error reference \<noteq> [] then Inl ValueError
      else Inr \<lparr>pl_backend = backend, pl_device = device_id, pl_reference = reference\<rparr>)"

definition lane_of_prepared :: "prepared \<Rightarrow> string" where
  "lane_of_prepared p = (if pl_backend p = ''gpu'' then pl_device p else pl_backend p)"

section \<open>The dispatcher\<close>

record resolution =
  re_ready :: bool
  re_path :: "string option"
  re_reason :: string

text \<open>
  \<open>di_executors\<close> is the routing snapshot for a workload (the view when one is wired, else the
  shared executors); \<open>di_resolve\<close> is the artifact store, \<open>Inl\<close> the name of the exception it raised.
\<close>

record dispatcher =
  di_workloads :: "workload dict"
  di_executors :: "string \<Rightarrow> executor dict"
  di_resolve :: "artifact_ref \<Rightarrow> string + resolution"
  di_lane :: "(string \<Rightarrow> string \<Rightarrow> string) option"
  di_identity :: "(string \<Rightarrow> string \<Rightarrow> string option) option"
  di_executor_for_device :: "(string \<Rightarrow> string \<Rightarrow> executor option) option"
  di_max_tensors :: nat
  di_max_elements :: int
  di_roots :: root_policy
  di_fs :: "string \<Rightarrow> fs_view"
  di_sha :: "byte list \<Rightarrow> string"
  di_max_tensor_bytes :: nat

definition MAX_INPUT_TENSORS :: nat where "MAX_INPUT_TENSORS = 64"
definition MAX_TENSOR_ELEMENTS :: int where "MAX_TENSOR_ELEMENTS = 1048576"

definition runnable_workload :: "dispatcher \<Rightarrow> string \<Rightarrow> workload res" where
  "runnable_workload di workload_id =
     (case dget (di_workloads di) workload_id of
        None \<Rightarrow> Inl (Stable ''workload-unknown'' (''No such workload profile: '' @ workload_id))
      | Some wl \<Rightarrow>
          if models wl = []
          then Inl (Stable ''workload-has-no-model'' (workload_id @ '' declares no model and cannot run inference''))
          else Inr wl)"

fun all_pinned :: "workload \<Rightarrow> model list \<Rightarrow> unit res" where
  "all_pinned wl [] = Inr ()"
| "all_pinned wl (m # ms) =
     bind_res (refuse_unpinned (wl_id wl) (declared_artifact_reference wl m)) (\<lambda>_. all_pinned wl ms)"

definition agrees :: "input_spec list option \<Rightarrow> (int list option \<times> string option) list \<Rightarrow> unit res" where
  "agrees specs shapes =
     (case contract_error specs shapes of
        None \<Rightarrow> Inr () | Some m \<Rightarrow> Inl (Stable ''input-contract-mismatch'' m))"

definition payload_dict :: "pyval \<Rightarrow> pyval dict res" where
  "payload_dict payload =
     (case payload of PDict d \<Rightarrow> Inr d | _ \<Rightarrow> Inl (payload_invalid ''Job payload must be an object''))"

fun verify_all :: "dispatcher \<Rightarrow> budget \<Rightarrow> tensor_ref list \<Rightarrow> unit res" where
  "verify_all di b [] = Inr ()"
| "verify_all di b (r # rs) =
     bind_res (spend (int (element_count r)) b) (\<lambda>b1.
     bind_res (verify_reference (di_sha di) (di_roots di) (di_fs di) (di_max_tensor_bytes di) r) (\<lambda>_.
       verify_all di b1 rs))"

text \<open>The second half of \<^verbatim>\<open>admit\<close>, once the payload is known to carry references or not.\<close>

definition admit_inputs ::
    "dispatcher \<Rightarrow> input_spec list option \<Rightarrow> pyval dict \<Rightarrow> tensor_ref list option \<Rightarrow> unit res" where
  "admit_inputs di specs d references =
     (case references of
        None \<Rightarrow>
          bind_res (inline_inputs d (di_max_tensors di)) (\<lambda>vs.
          bind_res (validated (di_max_elements di) vs) (\<lambda>inputs.
            agrees specs (map (\<lambda>v. (map_option (map int) (measured_shape v), None)) inputs)))
      | Some rs \<Rightarrow>
          bind_res (agrees specs (map (\<lambda>r. (Some (map int (tr_shape r)), Some (dtype_name (tr_dtype r)))) rs)) (\<lambda>_.
          bind_res (budget_init (Some (di_max_elements di)) ''payload-invalid'' ''Job payload'') (\<lambda>b.
            verify_all di b rs)))"

definition admit :: "dispatcher \<Rightarrow> string \<Rightarrow> pyval \<Rightarrow> unit res" where
  "admit di workload_id payload =
     bind_res (runnable_workload di workload_id) (\<lambda>wl.
     bind_res (all_pinned wl (models wl)) (\<lambda>_.
     bind_res (case first_model wl of None \<Rightarrow> Inr None | Some m \<Rightarrow> declared_inputs (md_contract m)) (\<lambda>specs.
     bind_res (payload_dict payload) (\<lambda>d.
     bind_res (parse_references d (di_max_tensors di)) (\<lambda>references.
       admit_inputs di specs d references)))))"

definition job_inputs :: "dispatcher \<Rightarrow> pyval \<Rightarrow> pyval list res" where
  "job_inputs di payload =
     bind_res (payload_dict payload) (\<lambda>d.
     bind_res (referenced_inputs (di_sha di) (di_roots di) (di_fs di) (di_max_tensors di) (di_max_tensor_bytes di) d) (\<lambda>loaded.
       case loaded of
         None \<Rightarrow> bind_res (inline_inputs d (di_max_tensors di)) (validated (di_max_elements di))
       | Some vs \<Rightarrow> validated (di_max_elements di) vs))"

definition unavailable :: "string \<Rightarrow> exn" where
  "unavailable m = Stable ''prepared-lane-unavailable'' m"

definition prepare_lane :: "dispatcher \<Rightarrow> string \<Rightarrow> workload \<Rightarrow> (prepared \<times> model) res" where
  "prepare_lane di workload_id wl =
     (let executors = di_executors di workload_id;
          choice = select_backend wl executors
      in case bc_backend choice of
           None \<Rightarrow> Inl (Stable ''no-backend-available'' (bc_reason choice))
         | Some backend \<Rightarrow>
             (case runnable_model wl backend executors of
                None \<Rightarrow> Inl (Stable ''no-backend-available''
                          (workload_id @ '': '' @ backend @ '' declares no model this profile can run''))
              | Some m \<Rightarrow>
                  (let lane = (case di_lane di of None \<Rightarrow> backend | Some f \<Rightarrow> f workload_id backend);
                       device = (case di_identity di of None \<Rightarrow> Some lane | Some f \<Rightarrow> f workload_id backend)
                   in if device = None \<or> the device = []
                      then Inl (unavailable (workload_id @ '': '' @ backend @ '' has no stable device identity''))
                      else bind_res (refuse_unpinned workload_id (declared_artifact_reference wl m)) (\<lambda>reference.
                           bind_res (prepared_lane backend (the device) reference) (\<lambda>p.
                             if lane \<noteq> lane_of_prepared p
                             then Inl (unavailable (workload_id @ '': '' @ backend @ '' queue does not match its stable device identity''))
                             else Inr (p, m))))))"

definition prepared_executor :: "dispatcher \<Rightarrow> string \<Rightarrow> prepared \<Rightarrow> executor res" where
  "prepared_executor di workload_id p =
     (case (case di_executor_for_device di of
              Some f \<Rightarrow> f (pl_backend p) (pl_device p)
            | None \<Rightarrow> dget (di_executors di workload_id) (pl_backend p)) of
        None \<Rightarrow> Inl (unavailable (workload_id @ '': prepared device '' @ pl_device p @ '' disappeared''))
      | Some ex \<Rightarrow>
          if ar_format (pl_reference p) \<notin> set (ex_formats ex)
          then Inl (unavailable (workload_id @ '': prepared device '' @ pl_device p @ '' disappeared''))
          else Inr ex)"

definition model_path :: "dispatcher \<Rightarrow> workload \<Rightarrow> model \<Rightarrow> artifact_ref \<Rightarrow> string res" where
  "model_path di wl m expected =
     bind_res (refuse_unpinned (wl_id wl) (declared_artifact_reference wl m)) (\<lambda>reference.
       if reference \<noteq> expected
       then Inl (Stable ''prepared-lane-invalid'' (wl_id wl @ '': prepared model reference changed before dispatch''))
       else case di_resolve di reference of
              Inl name \<Rightarrow> Inl (Stable ''artifact-unavailable'' (wl_id wl @ '': artifact store is unreadable: '' @ name))
            | Inr r \<Rightarrow>
                if \<not> re_ready r \<or> re_path r = None
                then Inl (Stable ''artifact-unavailable'' (wl_id wl @ '': '' @ re_reason r))
                else Inr (the (re_path r)))"

definition queue_refusal :: "string \<Rightarrow> prepared \<Rightarrow> exn \<Rightarrow> exn" where
  "queue_refusal workload_id p e =
     (case e of
        QueueFullError m \<Rightarrow> Stable ''backend-queue-full'' m
      | RuntimeError m \<Rightarrow> Stable ''scheduler-unavailable'' m
      | KeyError \<Rightarrow> unavailable (workload_id @ '': prepared scheduler lane '' @ lane_of_prepared p @ '' disappeared'')
      | _ \<Rightarrow> e)"

definition queue_prepared ::
    "dispatcher \<Rightarrow> string \<Rightarrow> workload \<Rightarrow> pyval list \<Rightarrow> prepared \<Rightarrow> model \<Rightarrow> sched \<Rightarrow> (nat \<times> sched) res" where
  "queue_prepared di workload_id wl inputs p m s =
     bind_res (prepared_executor di workload_id p) (\<lambda>ex.
       let av = availability_for_model ex (Some m)
       in if \<not> av_available av
          then Inl (unavailable (workload_id @ '': '' @ pl_device p @ '' is unavailable: '' @ av_reason av))
          else bind_res (model_path di wl m (pl_reference p)) (\<lambda>path.
                 case sched_submit (lane_of_prepared p) workload_id path inputs (Some (md_format m)) s of
                   Inl e \<Rightarrow> Inl (queue_refusal workload_id p e)
                 | Inr r \<Rightarrow> Inr r))"

definition dispatch :: "dispatcher \<Rightarrow> string \<Rightarrow> pyval \<Rightarrow> sched \<Rightarrow> (nat \<times> sched) res" where
  "dispatch di workload_id payload s =
     bind_res (runnable_workload di workload_id) (\<lambda>wl.
     bind_res (job_inputs di payload) (\<lambda>inputs.
     bind_res (prepare_lane di workload_id wl) (\<lambda>(p, m).
       queue_prepared di workload_id wl inputs p m s)))"

definition prepared_model :: "workload \<Rightarrow> prepared \<Rightarrow> model res" where
  "prepared_model wl p =
     (case List.find (\<lambda>m. declared_artifact_reference wl m = Some (pl_reference p)) (models wl) of
        Some m \<Rightarrow> Inr m
      | None \<Rightarrow> Inl (Stable ''prepared-lane-invalid'' (wl_id wl @ '': prepared model is not declared by this workload'')))"

definition dispatch_prepared :: "dispatcher \<Rightarrow> string \<Rightarrow> pyval \<Rightarrow> prepared \<Rightarrow> sched \<Rightarrow> (nat \<times> sched) res" where
  "dispatch_prepared di workload_id payload p s =
     bind_res (runnable_workload di workload_id) (\<lambda>wl.
     bind_res (job_inputs di payload) (\<lambda>inputs.
     bind_res (prepared_model wl p) (\<lambda>m.
       queue_prepared di workload_id wl inputs p m s)))"

section \<open>What is queued\<close>

lemma find_mem: "List.find P xs = Some x \<Longrightarrow> x \<in> set xs \<and> P x"
  by (induction xs) (auto split: if_splits)

lemma declared_reference_matches:
  "declared_artifact_reference wl m = Some r \<Longrightarrow>
     ar_id r = md_id m \<and> ar_version r = md_version m \<and> ar_format r = md_format m \<and>
     ar_companions r = declared_companions m"
  by (auto simp: declared_artifact_reference_def Let_def dest!: find_mem split: option.splits list.splits)

lemma refuse_unpinned_ok:
  "refuse_unpinned w ref = Inr r \<longleftrightarrow> ref = Some r \<and> unpinned_companions r = []"
  by (auto simp: refuse_unpinned_def split: option.splits if_splits)

lemma prepared_lane_ok:
  "prepared_lane b d r = Inr p \<longleftrightarrow>
     b \<in> set BACKENDS \<and> d \<noteq> [] \<and> length d \<le> 120 \<and> artifact_reference_error r = [] \<and>
     p = \<lparr>pl_backend = b, pl_device = d, pl_reference = r\<rparr>"
  by (auto simp: prepared_lane_def split: if_splits)

lemma runnable_ok:
  "runnable_workload di w = Inr wl \<longleftrightarrow> dget (di_workloads di) w = Some wl \<and> models wl \<noteq> []"
  by (auto simp: runnable_workload_def split: option.splits if_splits)

lemma runnable_model_mem:
  "models wl \<noteq> [] \<Longrightarrow> runnable_model wl b executors = Some m \<Longrightarrow> m \<in> set (models wl)"
  by (auto simp: runnable_model_def runnable_for_def dest: find_mem split: option.splits runnable.splits if_splits)

lemma prepare_lane_ok:
  assumes "prepare_lane di w wl = Inr (p, m)"
  shows "bc_backend (select_backend wl (di_executors di w)) = Some (pl_backend p)"
    and "runnable_model wl (pl_backend p) (di_executors di w) = Some m"
    and "declared_artifact_reference wl m = Some (pl_reference p)"
    and "unpinned_companions (pl_reference p) = []"
    and "artifact_reference_error (pl_reference p) = []"
  using assms
  by (auto simp: prepare_lane_def Let_def bind_res_eq_Inr refuse_unpinned_ok prepared_lane_ok
      split: option.splits if_splits)

lemma model_path_ok:
  "model_path di wl m expected = Inr path \<longleftrightarrow>
     declared_artifact_reference wl m = Some expected \<and> unpinned_companions expected = [] \<and>
     (\<exists>r. di_resolve di expected = Inr r \<and> re_ready r \<and> re_path r = Some path)"
  by (auto simp: model_path_def bind_res_eq_Inr refuse_unpinned_ok split: if_splits sum.splits)

lemma prepared_executor_ok:
  "prepared_executor di w p = Inr ex \<Longrightarrow> ar_format (pl_reference p) \<in> set (ex_formats ex)"
  by (auto simp: prepared_executor_def split: option.splits if_splits)

lemma queue_prepared_ok:
  "queue_prepared di w wl inputs p m s = Inr r \<longleftrightarrow>
     (\<exists>ex path. prepared_executor di w p = Inr ex \<and> av_available (availability_for_model ex (Some m)) \<and>
        model_path di wl m (pl_reference p) = Inr path \<and>
        sched_submit (lane_of_prepared p) w path inputs (Some (md_format m)) s = Inr r)"
proof -
  have c: "(case x of Inl e \<Rightarrow> Inl (queue_refusal w p e) | Inr y \<Rightarrow> Inr y) = Inr r \<longleftrightarrow> x = Inr r"
    for x :: "(nat \<times> sched) res" by (cases x) auto
  show ?thesis unfolding queue_prepared_def bind_res_eq_Inr Let_def by (simp add: bind_res_eq_Inr c if_distrib) blast
qed

lemma dispatch_ok:
  "dispatch di w payload s = Inr r \<longleftrightarrow>
     (\<exists>wl inputs p m. runnable_workload di w = Inr wl \<and> job_inputs di payload = Inr inputs \<and>
        prepare_lane di w wl = Inr (p, m) \<and> queue_prepared di w wl inputs p m s = Inr r)"
  by (auto simp: dispatch_def bind_res_eq_Inr)

lemma dispatch_prepared_ok:
  "dispatch_prepared di w payload p s = Inr r \<longleftrightarrow>
     (\<exists>wl inputs m. runnable_workload di w = Inr wl \<and> job_inputs di payload = Inr inputs \<and>
        prepared_model wl p = Inr m \<and> queue_prepared di w wl inputs p m s = Inr r)"
  by (auto simp: dispatch_prepared_def bind_res_eq_Inr)

lemma validated_ok:
  "validated n vs = Inr ws \<longleftrightarrow>
     1 \<le> n \<and> ws = vs \<and> list_all (\<lambda>v. has_shape (tensor_shape v) v) vs \<and>
     int (sum_list (map elements vs)) \<le> n"
proof (cases "1 \<le> n")
  case True
  let ?b = "\<lparr>bu_remaining = Some n, bu_maximum = Some n, bu_code = ''payload-invalid'', bu_label = ''Job payload''\<rparr>"
  have "validate_items vs ?b = Inr (ws, c) \<longleftrightarrow>
      ws = vs \<and> list_all (\<lambda>v. has_shape (tensor_shape v) v) vs \<and> spend (int (sum_list (map elements vs))) ?b = Inr c" for ws c
    by (rule validate_spec(2)) (use True in simp)
  then show ?thesis
    using True by (auto simp: validated_def budget_init_def map_res_eq_Inr spend_def split: if_splits)
qed (simp add: validated_def budget_init_def)

lemma job_inputs_ok:
  "job_inputs di payload = Inr inputs \<Longrightarrow>
     list_all (\<lambda>v. has_shape (tensor_shape v) v) inputs \<and> int (sum_list (map elements inputs)) \<le> di_max_elements di"
  by (auto simp: job_inputs_def bind_res_eq_Inr validated_ok split: option.splits)

lemma prepare_lane_fresh:
  assumes "models wl \<noteq> []" and "prepare_lane di w wl = Inr (p, m)"
  shows "m \<in> set (models wl)"
  by (rule runnable_model_mem [OF assms(1) prepare_lane_ok(2) [OF assms(2)]])

text \<open>C15. A dispatched job runs only what its own profile's manifest declares: a model of that profile,
  under the digest the manifest pins, with every companion that holds weights pinned too, at
  the path the artifact store resolved for that very reference.  The backend is the one routing
  selects, its executor supports the format and is available for the model, and the job is
  queued once, on the lane of the frozen device, with the validated inputs.  The payload decides
  nothing but the inputs: every other payload is queued on the same lane for the same file.\<close>

theorem dispatch_runs_declared_model:
  assumes "dispatch di w payload s = Inr (i, t)"
  shows "\<exists>wl m p ex path inputs.
     dget (di_workloads di) w = Some wl \<and> m \<in> set (models wl) \<and>
     declared_artifact_reference wl m = Some (pl_reference p) \<and>
     ar_id (pl_reference p) = md_id m \<and> ar_version (pl_reference p) = md_version m \<and>
     ar_format (pl_reference p) = md_format m \<and>
     artifact_reference_error (pl_reference p) = [] \<and> unpinned_companions (pl_reference p) = [] \<and>
     bc_backend (select_backend wl (di_executors di w)) = Some (pl_backend p) \<and>
     prepared_executor di w p = Inr ex \<and> md_format m \<in> set (ex_formats ex) \<and>
     av_available (availability_for_model ex (Some m)) \<and>
     (\<exists>r. di_resolve di (pl_reference p) = Inr r \<and> re_ready r \<and> re_path r = Some path) \<and>
     job_inputs di payload = Inr inputs \<and>
     list_all (\<lambda>v. has_shape (tensor_shape v) v) inputs \<and>
     int (sum_list (map elements inputs)) \<le> di_max_elements di \<and>
     sched_submit (lane_of_prepared p) w path inputs (Some (md_format m)) s = Inr (i, t) \<and>
     (\<forall>payload' i' t'. dispatch di w payload' s = Inr (i', t') \<longrightarrow>
        (\<exists>inputs'. job_inputs di payload' = Inr inputs' \<and>
           sched_submit (lane_of_prepared p) w path inputs' (Some (md_format m)) s = Inr (i', t')))"
proof -
  obtain wl inputs p m where d: "runnable_workload di w = Inr wl" "job_inputs di payload = Inr inputs"
    "prepare_lane di w wl = Inr (p, m)" "queue_prepared di w wl inputs p m s = Inr (i, t)"
    using assms unfolding dispatch_ok by blast
  obtain ex path where q: "prepared_executor di w p = Inr ex" "av_available (availability_for_model ex (Some m))"
    "model_path di wl m (pl_reference p) = Inr path"
    "sched_submit (lane_of_prepared p) w path inputs (Some (md_format m)) s = Inr (i, t)"
    using d(4) unfolding queue_prepared_ok by blast
  note l = prepare_lane_ok [OF d(3)] and wl = d(1) [unfolded runnable_ok]
  note ref = declared_reference_matches [OF l(3)]
  have "\<exists>inputs'. job_inputs di payload' = Inr inputs' \<and>
      sched_submit (lane_of_prepared p) w path inputs' (Some (md_format m)) s = Inr (i', t')"
    if "dispatch di w payload' s = Inr (i', t')" for payload' i' t'
    using that d(1,3) q(3) unfolding dispatch_ok queue_prepared_ok by auto
  then show ?thesis
    using wl l ref d(2) q prepared_executor_ok [OF q(1)] prepare_lane_fresh [OF conjunct2 [OF wl] d(3)]
      job_inputs_ok [OF d(2)] q(3) [unfolded model_path_ok]
    by (intro exI [of _ wl] exI [of _ m] exI [of _ p] exI [of _ ex] exI [of _ path] exI [of _ inputs]) simp
qed

text \<open>C16. A lane frozen by preparation is honoured or refused, never replaced: whatever has happened to
  the executors, the store or the devices since, a dispatch of the prepared lane queues on that
  lane the file of exactly the frozen reference, on an executor that supports it and is
  available; and while nothing has changed it does just what a direct dispatch does, provided
  the profile does not declare the same artifact twice.\<close>

theorem prepared_dispatch_frozen:
  assumes "runnable_workload di w = Inr wl" and "prepare_lane di w wl = Inr (p, m)"
    and "\<forall>m' \<in> set (models wl). declared_artifact_reference wl m' = declared_artifact_reference wl m \<longrightarrow> m' = m"
  shows "dispatch_prepared di w payload p s = dispatch di w payload s \<and>
    (\<forall>di' i t. dispatch_prepared di' w payload p s = Inr (i, t) \<longrightarrow>
       (\<exists>wl' m' r path ex inputs.
          dget (di_workloads di') w = Some wl' \<and> m' \<in> set (models wl') \<and>
          declared_artifact_reference wl' m' = Some (pl_reference p) \<and>
          prepared_executor di' w p = Inr ex \<and> ar_format (pl_reference p) \<in> set (ex_formats ex) \<and>
          av_available (availability_for_model ex (Some m')) \<and>
          di_resolve di' (pl_reference p) = Inr r \<and> re_ready r \<and> re_path r = Some path \<and>
          sched_submit (lane_of_prepared p) w path inputs (Some (ar_format (pl_reference p))) s = Inr (i, t)))"
proof (intro conjI allI impI)
  note l = prepare_lane_ok [OF assms(2)]
  have mem: "m \<in> set (models wl)" by (rule prepare_lane_fresh [OF _ assms(2)]) (use assms(1) in \<open>simp add: runnable_ok\<close>)
  have "List.find (\<lambda>m. declared_artifact_reference wl m = Some (pl_reference p)) (models wl) = Some m"
  proof (cases "List.find (\<lambda>m. declared_artifact_reference wl m = Some (pl_reference p)) (models wl)")
    case None
    then show ?thesis using mem l(3) by (auto simp: find_None_iff)
  next
    case (Some m')
    then show ?thesis using find_mem [OF Some] assms(3) l(3) by auto
  qed
  then have "prepared_model wl p = Inr m" by (simp add: prepared_model_def)
  then show "dispatch_prepared di w payload p s = dispatch di w payload s"
    using assms(1,2) by (simp add: dispatch_prepared_def dispatch_def)
next
  fix di' i t
  assume "dispatch_prepared di' w payload p s = Inr (i, t)"
  then obtain wl' inputs m' ex path where d: "runnable_workload di' w = Inr wl'" "prepared_model wl' p = Inr m'"
    "prepared_executor di' w p = Inr ex" "av_available (availability_for_model ex (Some m'))"
    "model_path di' wl' m' (pl_reference p) = Inr path"
    "sched_submit (lane_of_prepared p) w path inputs (Some (md_format m')) s = Inr (i, t)"
    unfolding dispatch_prepared_ok queue_prepared_ok by blast
  have m': "m' \<in> set (models wl')" "declared_artifact_reference wl' m' = Some (pl_reference p)"
    using d(2) by (auto simp: prepared_model_def dest!: find_mem split: option.splits)
  obtain r where r: "di_resolve di' (pl_reference p) = Inr r" "re_ready r" "re_path r = Some path"
    using d(5) unfolding model_path_ok by blast
  show "\<exists>wl' m' r path ex inputs.
          dget (di_workloads di') w = Some wl' \<and> m' \<in> set (models wl') \<and>
          declared_artifact_reference wl' m' = Some (pl_reference p) \<and>
          prepared_executor di' w p = Inr ex \<and> ar_format (pl_reference p) \<in> set (ex_formats ex) \<and>
          av_available (availability_for_model ex (Some m')) \<and>
          di_resolve di' (pl_reference p) = Inr r \<and> re_ready r \<and> re_path r = Some path \<and>
          sched_submit (lane_of_prepared p) w path inputs (Some (ar_format (pl_reference p))) s = Inr (i, t)"
    using d(1) [unfolded runnable_ok] m' d(3,4) prepared_executor_ok [OF d(3)] r d(6)
      declared_reference_matches [OF m'(2)]
    by (intro exI [of _ wl'] exI [of _ m'] exI [of _ r] exI [of _ path] exI [of _ ex] exI [of _ inputs]) simp
qed

section \<open>Admission\<close>

lemma elements_flatten: "elements v = length (flatten v)"
proof (induction v)
  case (PList vs)
  then have "map elements vs = map (length \<circ> flatten) vs" by simp
  then show ?case by (simp only: elements.simps flatten.simps length_concat map_map)
qed simp_all

lemma rectangular_of_shape:
  "has_shape sh v \<Longrightarrow> \<forall>d \<in> set sh. 0 < d \<Longrightarrow> rectangular_shape v = Some sh"
proof (induction v arbitrary: sh)
  case (PList vs)
  then obtain n sh' where sh: "sh = n # sh'" by (cases sh) (auto simp: is_number_def)
  with PList.prems obtain v vs' where vs: "vs = v # vs'" by (cases vs) auto
  have "rectangular_shape x = Some sh'" if "x \<in> set vs" for x
    using PList.IH [OF that, of sh'] PList.prems sh vs that by (auto simp: list_all_iff)
  then show ?case using sh vs PList.prems by (auto simp: list_all_iff)
qed (case_tac sh; auto simp: is_number_def)+

lemma measured_of_shape:
  "has_shape sh v \<Longrightarrow> sh \<noteq> [] \<Longrightarrow> \<forall>d \<in> set sh. 0 < d \<Longrightarrow> measured_shape v = Some sh"
  using rectangular_of_shape [of sh v]
  by (cases v) (auto simp: measured_shape_def neq_Nil_conv)

lemma contract_check_forget:
  "contract_check i ss (map (\<lambda>x. (f x, g x)) xs) = None \<Longrightarrow> contract_check i ss (map (\<lambda>x. (f x, None)) xs) = None"
proof (induction xs arbitrary: i ss)
  case (Cons x xs)
  then show ?case by (cases ss) (auto split: if_splits)
qed (simp add: contract_check.simps)

lemma contract_error_forget:
  "contract_error ss (map (\<lambda>x. (f x, g x)) xs) = None \<Longrightarrow> contract_error ss (map (\<lambda>x. (f x, None)) xs) = None"
  using contract_check_forget
  by (auto simp: contract_error_def split: option.splits list.splits if_splits)

text \<open>Files do not change between admission and dispatch, and \<^verbatim>\<open>stat\<close> tells the truth.\<close>

definition stable_files :: "(string \<Rightarrow> fs_view) \<Rightarrow> bool" where
  "stable_files fs \<longleftrightarrow> (\<forall>p bs. fv_bytes (fs p) = Inr bs \<longrightarrow> fv_size (fs p) = Inr (length bs))"

definition valid_ref :: "tensor_ref \<Rightarrow> bool" where
  "valid_ref r \<longleftrightarrow> tr_shape r \<noteq> [] \<and> (\<forall>d \<in> set (tr_shape r). 0 < d)"

lemma parse_all_valid: "parse_all vs = Inr rs \<Longrightarrow> list_all valid_ref rs"
  by (induction vs arbitrary: rs)
    (auto simp: bind_res_eq_Inr map_res_eq_Inr valid_ref_def dest!: parse_reference_shape)

lemma parse_references_valid: "parse_references d n = Inr (Some rs) \<Longrightarrow> list_all valid_ref rs"
  by (auto simp: parse_references_def map_res_eq_Inr bind_res_eq_Inr valid_ref_def
      dest!: parse_all_valid parse_reference_shape split: option.splits pyval.splits list.splits if_splits)

lemma verified_loads:
  assumes "verify_reference sha policy fs m r = Inr ()" and "stable_files fs" and "valid_ref r"
  shows "\<exists>v. load_referenced_tensor sha policy fs m r = Inr v \<and> has_shape (tr_shape r) v \<and>
    elements v = element_count r \<and> measured_shape v = Some (tr_shape r)"
proof -
  from assms(1) obtain bs where v: "permitted policy fs m r = Inr ()" "read_reference fs m r = Inr bs" "sha bs = tr_sha256 r"
    by (auto simp: verify_reference_def bind_res_eq_Inr split: if_splits)
  then obtain bs' where b: "fv_bytes (fs (tr_path r)) = Inr bs'"
    by (auto simp: read_reference_def split: sum.splits)
  with assms(2) v(1) have l: "length bs' = expected_bytes r" by (auto simp: stable_files_def permitted_ok)
  with v(2) read_reference_spec [where fs = fs, OF b l, of m bs] have fin: "bs = bs'" "list_all finite_value (unpack_values (tr_dtype r) bs)" by auto
  let ?vs = "unpack_values (tr_dtype r) bs"
  have "length ?vs = element_count r"
    using l fin(1) by (intro unpack_values_length) (simp add: expected_bytes_def mult.commute)
  then have sh: "has_shape (tr_shape r) (PList (reshape (tr_shape r) ?vs)) \<and> flatten (PList (reshape (tr_shape r) ?vs)) = ?vs"
    using assms(3) unpack_numbers [OF fin(2)] by (intro reshape_shape) (auto simp: valid_ref_def element_count_def)
  have "load_referenced_tensor sha policy fs m r = Inr (PList (reshape (tr_shape r) ?vs))"
    using v l fin(1) by (simp add: load_referenced_tensor_def unpack_def)
  then show ?thesis
    using sh measured_of_shape [of "tr_shape r" "PList (reshape (tr_shape r) ?vs)"] assms(3) \<open>length ?vs = element_count r\<close>
    by (auto simp: elements_flatten valid_ref_def)
qed

text \<open>What admission verified is what dispatch loads, and the budgets agree.\<close>

lemma verify_all_loads:
  assumes "verify_all di b rs = Inr ()" and "stable_files (di_fs di)" and "list_all valid_ref rs"
    and "bu_remaining b = Some n" and "0 \<le> n"
  shows "\<exists>vs. load_all (di_sha di) (di_roots di) (di_fs di) (di_max_tensor_bytes di) rs = Inr vs \<and>
     list_all (\<lambda>v. has_shape (tensor_shape v) v) vs \<and> int (sum_list (map elements vs)) \<le> n \<and>
     map measured_shape vs = map (Some \<circ> tr_shape) rs"
  using assms
proof (induction rs arbitrary: b n)
  case (Cons r rs)
  obtain b1 where b1: "spend (int (element_count r)) b = Inr b1"
      "verify_reference (di_sha di) (di_roots di) (di_fs di) (di_max_tensor_bytes di) r = Inr ()"
      "verify_all di b1 rs = Inr ()" using Cons.prems(1) by (auto simp: bind_res_eq_Inr)
  have n: "bu_remaining b1 = Some (n - int (element_count r))" "0 \<le> n - int (element_count r)"
    using b1(1) Cons.prems(4) by (auto simp: spend_def split: if_splits)
  from verified_loads [OF b1(2) Cons.prems(2)] Cons.prems(3) obtain v where
    v: "load_referenced_tensor (di_sha di) (di_roots di) (di_fs di) (di_max_tensor_bytes di) r = Inr v"
      "has_shape (tensor_shape v) v" "elements v = element_count r" "measured_shape v = Some (tr_shape r)"
    using has_shape_self by auto
  from Cons.IH [OF b1(3) Cons.prems(2) _ n] Cons.prems(3) obtain vs where
    "load_all (di_sha di) (di_roots di) (di_fs di) (di_max_tensor_bytes di) rs = Inr vs"
    "list_all (\<lambda>v. has_shape (tensor_shape v) v) vs" "int (sum_list (map elements vs)) \<le> n - int (element_count r)"
    "map measured_shape vs = map (Some \<circ> tr_shape) rs" by auto
  with v show ?case by (intro exI [of _ "v # vs"]) auto
qed simp

lemma all_pinned_ok:
  "all_pinned wl ms = Inr () \<longleftrightarrow>
     (\<forall>m \<in> set ms. \<exists>r. declared_artifact_reference wl m = Some r \<and> unpinned_companions r = [])"
  by (induction ms) (auto simp: bind_res_eq_Inr refuse_unpinned_ok)

definition measured :: "pyval \<Rightarrow> int list option \<times> string option" where
  "measured v = (map_option (map int) (measured_shape v), None)"

lemma agrees_ok: "agrees specs shapes = Inr () \<longleftrightarrow> contract_error specs shapes = None"
  by (simp add: agrees_def split: option.split)

lemma admitted_references:
  assumes "parse_references d (di_max_tensors di) = Inr (Some rs)"
    and "agrees specs (map (\<lambda>r. (Some (map int (tr_shape r)), Some (dtype_name (tr_dtype r)))) rs) = Inr ()"
    and "budget_init (Some (di_max_elements di)) c l = Inr b" and "verify_all di b rs = Inr ()"
    and "stable_files (di_fs di)"
  shows "\<exists>inputs. job_inputs di (PDict d) = Inr inputs \<and> contract_error specs (map measured inputs) = None"
proof -
  have b: "bu_remaining b = Some (di_max_elements di)" "1 \<le> di_max_elements di"
    using assms(3) by (auto simp: budget_init_def split: if_splits)
  obtain vs where vs: "load_all (di_sha di) (di_roots di) (di_fs di) (di_max_tensor_bytes di) rs = Inr vs"
    "list_all (\<lambda>v. has_shape (tensor_shape v) v) vs" "int (sum_list (map elements vs)) \<le> di_max_elements di"
    "map measured_shape vs = map (Some \<circ> tr_shape) rs"
    using verify_all_loads [OF assms(4,5) parse_references_valid [OF assms(1)] b(1)] b(2) by auto
  then have "validated (di_max_elements di) vs = Inr vs" using b(2) by (simp add: validated_ok)
  then have "job_inputs di (PDict d) = Inr vs"
    using assms(1) vs(1) by (simp add: job_inputs_def payload_dict_def referenced_inputs_def)
  moreover have "map measured vs = map (\<lambda>r. (Some (map int (tr_shape r)), None)) rs"
    using arg_cong [OF vs(4), of "map (\<lambda>s. (map_option (map int) s, None :: string option))"]
    by (simp add: measured_def [abs_def] comp_def)
  ultimately show ?thesis
    using contract_error_forget [OF assms(2) [unfolded agrees_ok]] by metis
qed

text \<open>Admission answers for the whole payload: when a job is admitted and the files it references
  stay as they were, dispatch obtains its inputs, they satisfy the input contract the model
  declares, and every model of the profile is pinned with its companions, so that the only
  refusals left for dispatch time are those of routing, the artifact store and the queue.\<close>

theorem admitted_job_dispatchable:
  assumes "admit di w payload = Inr ()" and "stable_files (di_fs di)"
  shows "\<exists>wl m specs inputs.
     dget (di_workloads di) w = Some wl \<and> first_model wl = Some m \<and>
     (\<forall>m' \<in> set (models wl). \<exists>r. declared_artifact_reference wl m' = Some r \<and> unpinned_companions r = []) \<and>
     declared_inputs (md_contract m) = Inr specs \<and>
     job_inputs di payload = Inr inputs \<and> contract_error specs (map measured inputs) = None \<and>
     (\<forall>s. dispatch di w payload s =
        bind_res (prepare_lane di w wl) (\<lambda>(p, m). queue_prepared di w wl inputs p m s))"
proof -
  obtain wl specs d refs where a: "runnable_workload di w = Inr wl" "all_pinned wl (models wl) = Inr ()"
    "(case first_model wl of None \<Rightarrow> Inr None | Some m \<Rightarrow> declared_inputs (md_contract m)) = Inr specs"
    "payload_dict payload = Inr d" "parse_references d (di_max_tensors di) = Inr refs"
    and rest: "admit_inputs di specs d refs = Inr ()"
    using assms(1) by (auto simp: admit_def bind_res_eq_Inr)
  have pd: "payload = PDict d" using a(4) by (auto simp: payload_dict_def split: pyval.splits)
  obtain m where m: "first_model wl = Some m" using a(1) by (cases "models wl") (auto simp: runnable_ok first_model_def)
  have "\<exists>inputs. job_inputs di payload = Inr inputs \<and> contract_error specs (map measured inputs) = None"
  proof (cases refs)
    case None
    with rest obtain vs inputs where i: "inline_inputs d (di_max_tensors di) = Inr vs"
      "validated (di_max_elements di) vs = Inr inputs" "contract_error specs (map measured inputs) = None"
      by (auto simp: admit_inputs_def bind_res_eq_Inr agrees_ok measured_def [abs_def])
    then have "job_inputs di payload = Inr inputs"
      using a(5) None pd by (simp add: job_inputs_def payload_dict_def referenced_inputs_def)
    with i(3) show ?thesis by blast
  next
    case (Some rs)
    with rest a(5) show ?thesis
      unfolding pd by (auto simp: admit_inputs_def bind_res_eq_Inr intro: admitted_references [OF _ _ _ _ assms(2)])
  qed
  then obtain inputs where "job_inputs di payload = Inr inputs" "contract_error specs (map measured inputs) = None" by blast
  then show ?thesis
    using a(2,3) a(1) [unfolded runnable_ok] m
    by (intro exI [of _ wl] exI [of _ m] exI [of _ specs] exI [of _ inputs])
      (simp add: all_pinned_ok dispatch_def a(1))
qed

section \<open>Witnesses\<close>

text \<open>One profile with one pinned onnx model, on the idle scheduler with one GPU lane.\<close>

definition demo_model :: model where
  "demo_model = \<lparr>md_id = ''net'', md_version = ''1.0.0'', md_format = ''onnx'', md_sha256 = Some (replicate 64 CHR ''a''),
     md_companions = None, md_contract = None\<rparr>"

definition demo_workload :: workload where
  "demo_workload = \<lparr>wl_id = ''p'', wl_declared_preference = None, wl_declared_models = Some [demo_model],
     wl_declared_model = None, wl_artifacts = []\<rparr>"

definition demo_dispatcher :: dispatcher where
  "demo_dispatcher = \<lparr>di_workloads = [(''p'', demo_workload)], di_executors = (\<lambda>_. demo_executors),
     di_resolve = (\<lambda>r. Inr \<lparr>re_ready = True, re_path = Some (ar_sha256 r), re_reason = []\<rparr>), di_lane = None, di_identity = None,
     di_executor_for_device = None, di_max_tensors = 4, di_max_elements = 4, di_roots = deny_all,
     di_fs = demo_fs, di_sha = (\<lambda>_. []), di_max_tensor_bytes = 16\<rparr>"

definition demo_payload :: pyval where
  "demo_payload = PDict [(''inputs'', PList [PList [PInt 1, PInt 2]])]"

definition demo_lane :: prepared where
  "demo_lane = \<lparr>pl_backend = ''gpu'', pl_device = ''gpu'', pl_reference = the (declared_artifact_reference demo_workload demo_model)\<rparr>"

lemma demo_dispatch: "map_res fst (dispatch demo_dispatcher ''p'' demo_payload demo_idle) = Inr 0"
  by code_simp

lemma demo_admit: "admit demo_dispatcher ''p'' demo_payload = Inr ()"
  by code_simp

lemma demo_prepare: "prepare_lane demo_dispatcher ''p'' demo_workload = Inr (demo_lane, demo_model)"
  by code_simp

theorem dispatch_runs_declared_model_witness:
  "\<exists>t wl m. dispatch demo_dispatcher ''p'' demo_payload demo_idle = Inr (0, t) \<and>
     dget (di_workloads demo_dispatcher) ''p'' = Some wl \<and> m \<in> set (models wl)"
proof -
  obtain t where t: "dispatch demo_dispatcher ''p'' demo_payload demo_idle = Inr (0, t)"
    using demo_dispatch by (auto simp: map_res_eq_Inr)
  with dispatch_runs_declared_model [OF t] show ?thesis by blast
qed

theorem prepared_dispatch_frozen_witness:
  "dispatch_prepared demo_dispatcher ''p'' demo_payload demo_lane demo_idle =
     dispatch demo_dispatcher ''p'' demo_payload demo_idle \<and>
   is_ok (dispatch demo_dispatcher ''p'' demo_payload demo_idle)"
proof
  have r: "runnable_workload demo_dispatcher ''p'' = Inr demo_workload" "set (models demo_workload) = {demo_model}"
    by (simp_all add: runnable_ok demo_dispatcher_def demo_workload_def models_def dget_def)
  show "dispatch_prepared demo_dispatcher ''p'' demo_payload demo_lane demo_idle =
     dispatch demo_dispatcher ''p'' demo_payload demo_idle"
    using prepared_dispatch_frozen [OF r(1) demo_prepare] r(2) by simp
  show "is_ok (dispatch demo_dispatcher ''p'' demo_payload demo_idle)"
    using demo_dispatch by (auto simp: map_res_eq_Inr)
qed

theorem admitted_job_dispatchable_witness:
  "\<exists>inputs. job_inputs demo_dispatcher demo_payload = Inr inputs"
proof -
  have "stable_files (di_fs demo_dispatcher)"
    by (simp add: stable_files_def demo_dispatcher_def demo_fs_def)
  with admitted_job_dispatchable [OF demo_admit] show ?thesis by blast
qed

end
