(* ===== verification/Worker_Budget.thy ===== *)
theory Worker_Budget
  imports OT_Prelude
begin

text \<open>
  The two clocks of a worker call.  \<^verbatim>\<open>src/omnitensor/plugins/liveness.py\<close> (the heartbeat) and
  \<^verbatim>\<open>budgets.py\<close> (the concurrency and deadline budget of one worker).  A wait of one timeout is
  a \<open>stretch\<close>: the task answered within it, or it ran out and so many progress frames arrived
  meanwhile.  Calls of one enforcer interleave; every change of a counter is one step.
\<close>

section \<open>The heartbeat\<close>

record heartbeat =
  hb_beaten :: bool

definition heartbeat_init :: heartbeat where
  "heartbeat_init = \<lparr>hb_beaten = False\<rparr>"

definition beat :: "heartbeat \<Rightarrow> heartbeat" where
  "beat h = h\<lparr>hb_beaten := True\<rparr>"

definition consume :: "heartbeat \<Rightarrow> bool \<times> heartbeat" where
  "consume h = (hb_beaten h, h\<lparr>hb_beaten := False\<rparr>)"

text \<open>\<^verbatim>\<open>report()\<close> beats the job's heartbeat when one is listening.\<close>

definition report :: "heartbeat option \<Rightarrow> heartbeat option" where
  "report current = map_option beat current"

section \<open>Waiting for an answer\<close>

text \<open>What a task ends with: a value, an exception, or its cancellation.\<close>

datatype 'a call_outcome = Returned 'a | Raised exn | Cancelled

text \<open>\<open>Silence n\<close>: the wait timed out, \<open>n\<close> progress frames were read during it.\<close>

datatype 'a stretch = Answered "'a call_outcome" | Silence nat

datatype 'a waited = Done "'a call_outcome" | Deadline | Waiting

text \<open>
  The loop of \<^verbatim>\<open>WorkerBudgetEnforcer._wait\<close> over the stretches of a call; a call whose stretches
  run out is still waiting.
\<close>

fun budget_wait :: "heartbeat option \<Rightarrow> 'a stretch list \<Rightarrow> 'a waited" where
  "budget_wait hb [] = Waiting"
| "budget_wait hb (Answered r # _) = Done r"
| "budget_wait hb (Silence n # rest) =
     (case hb of
        None \<Rightarrow> Deadline
      | Some h \<Rightarrow>
          let (beaten, h') = consume ((beat ^^ n) h)
          in if \<not> beaten then Deadline else budget_wait (Some h') rest)"

section \<open>Limits\<close>

definition MAX_CALL_TIMEOUT_SECONDS :: rat where "MAX_CALL_TIMEOUT_SECONDS = 3600"
definition MAX_PROCESSES_LIMIT :: int where "MAX_PROCESSES_LIMIT = 128"
definition MAX_MEMORY_BYTES_LIMIT :: int where "MAX_MEMORY_BYTES_LIMIT = 64 * 1024 * 1024 * 1024"
definition MAX_DESCRIPTORS_LIMIT :: int where "MAX_DESCRIPTORS_LIMIT = 65536"
definition MAX_CONCURRENCY_LIMIT :: int where "MAX_CONCURRENCY_LIMIT = 32"

text \<open>\<^verbatim>\<open>type(value) is not int\<close> refuses a bool; \<^verbatim>\<open>isfinite\<close> refuses the infinities and NaN.\<close>

definition bounded_integer :: "pyval \<Rightarrow> int \<Rightarrow> unit res" where
  "bounded_integer v maximum =
     (case v of PInt n \<Rightarrow> if 1 \<le> n \<and> n \<le> maximum then Inr () else Inl ValueError | _ \<Rightarrow> Inl ValueError)"

definition optional_bounded_integer :: "pyval \<Rightarrow> int \<Rightarrow> unit res" where
  "optional_bounded_integer v maximum = (if v = PNone then Inr () else bounded_integer v maximum)"

definition bounded_number :: "pyval \<Rightarrow> rat \<Rightarrow> unit res" where
  "bounded_number v maximum =
     (case v of
        PInt n \<Rightarrow> if 0 < n \<and> of_int n \<le> maximum then Inr () else Inl ValueError
      | PFloat (Fin q) \<Rightarrow> if 0 < q \<and> q \<le> maximum then Inr () else Inl ValueError
      | _ \<Rightarrow> Inl ValueError)"

record limits =
  li_call_timeout :: pyval
  li_max_processes :: pyval
  li_max_memory :: pyval
  li_max_descriptors :: pyval
  li_max_concurrency :: pyval

definition limits_init :: "limits \<Rightarrow> limits res" where
  "limits_init l =
     bind_res (bounded_number (li_call_timeout l) MAX_CALL_TIMEOUT_SECONDS) (\<lambda>_.
     bind_res (optional_bounded_integer (li_max_processes l) MAX_PROCESSES_LIMIT) (\<lambda>_.
     bind_res (optional_bounded_integer (li_max_memory l) MAX_MEMORY_BYTES_LIMIT) (\<lambda>_.
     bind_res (optional_bounded_integer (li_max_descriptors l) MAX_DESCRIPTORS_LIMIT) (\<lambda>_.
     bind_res (bounded_integer (li_max_concurrency l) MAX_CONCURRENCY_LIMIT) (\<lambda>_. Inr l)))))"

definition concurrency_of :: "limits \<Rightarrow> nat" where
  "concurrency_of l = (case li_max_concurrency l of PInt n \<Rightarrow> nat n | _ \<Rightarrow> 0)"

section \<open>The enforcer\<close>

record enforcer =
  en_limits :: limits
  en_active :: nat
  en_peak :: nat
  en_completed :: nat
  en_rejected :: nat

definition enforcer_init :: "limits \<Rightarrow> enforcer" where
  "enforcer_init l = \<lparr>en_limits = l, en_active = 0, en_peak = 0, en_completed = 0, en_rejected = 0\<rparr>"

definition snapshot_budget :: "enforcer \<Rightarrow> nat \<times> nat \<times> nat \<times> nat" where
  "snapshot_budget e = (en_active e, en_peak e, en_completed e, en_rejected e)"

definition concurrency_error :: "limits \<Rightarrow> exn" where
  "concurrency_error l = Stable ''concurrency-budget-exceeded''
     (''at most '' @ nat_str (concurrency_of l) @ '' calls may run concurrently'')"

definition deadline_error :: "string \<Rightarrow> exn" where
  "deadline_error seconds = Stable ''deadline-exceeded'' (''call reported nothing for '' @ seconds @ '' seconds'')"

text \<open>\<^verbatim>\<open>_enter\<close>: the refusal is counted too, so a state comes back either way.\<close>

definition enter :: "enforcer \<Rightarrow> unit res \<times> enforcer" where
  "enter e =
     (if concurrency_of (en_limits e) \<le> en_active e
      then (Inl (concurrency_error (en_limits e)), e\<lparr>en_rejected := Suc (en_rejected e)\<rparr>)
      else (Inr (), e\<lparr>en_active := Suc (en_active e), en_peak := max (en_peak e) (Suc (en_active e))\<rparr>))"

text \<open>
  The rest of \<^verbatim>\<open>run\<close> after the wait has ended: a value is counted as completed, a deadline as
  rejected, and the slot is given back in the \<^verbatim>\<open>finally\<close> whatever happened (also when the
  call itself was cancelled, which is \<open>Done Cancelled\<close>).
\<close>

definition leave :: "string \<Rightarrow> 'a waited \<Rightarrow> enforcer \<Rightarrow> ('a call_outcome \<times> enforcer) option" where
  "leave seconds w e =
     (case w of
        Waiting \<Rightarrow> None
      | Deadline \<Rightarrow> Some (Raised (deadline_error seconds),
                        e\<lparr>en_rejected := Suc (en_rejected e), en_active := en_active e - 1\<rparr>)
      | Done (Returned v) \<Rightarrow> Some (Returned v,
                        e\<lparr>en_completed := Suc (en_completed e), en_active := en_active e - 1\<rparr>)
      | Done r \<Rightarrow> Some (r, e\<lparr>en_active := en_active e - 1\<rparr>))"

text \<open>One whole call with nothing interleaved.\<close>

definition run_call :: "string \<Rightarrow> heartbeat option \<Rightarrow> 'a stretch list \<Rightarrow> enforcer \<Rightarrow> ('a call_outcome \<times> enforcer) option" where
  "run_call seconds hb stretches e =
     (case enter e of
        (Inl x, e1) \<Rightarrow> Some (Raised x, e1)
      | (Inr _, e1) \<Rightarrow> leave seconds (budget_wait hb stretches) e1)"

section \<open>Interleaved calls\<close>

text \<open>
  Calls are identified by a number; \<open>bs_running\<close> holds those between \<^verbatim>\<open>_enter\<close> and the
  \<^verbatim>\<open>finally\<close> block, each with its heartbeat.
\<close>

record 'a budget_state =
  bs_enforcer :: enforcer
  bs_running :: "nat list"
  bs_ended :: "(nat \<times> 'a call_outcome) list"

inductive budget_step :: "string \<Rightarrow> 'a budget_state \<Rightarrow> 'a budget_state \<Rightarrow> bool" for seconds where
  admit: "enter (bs_enforcer s) = (Inr (), e) \<Longrightarrow> i \<notin> set (bs_running s) \<union> fst ` set (bs_ended s) \<Longrightarrow>
     budget_step seconds s (s\<lparr>bs_enforcer := e, bs_running := i # bs_running s\<rparr>)"
| refuse: "enter (bs_enforcer s) = (Inl x, e) \<Longrightarrow> i \<notin> set (bs_running s) \<union> fst ` set (bs_ended s) \<Longrightarrow>
     budget_step seconds s (s\<lparr>bs_enforcer := e, bs_ended := (i, Raised x) # bs_ended s\<rparr>)"
| finish: "i \<in> set (bs_running s) \<Longrightarrow> leave seconds w (bs_enforcer s) = Some (r, e) \<Longrightarrow>
     budget_step seconds s (s\<lparr>bs_enforcer := e, bs_running := remove1 i (bs_running s),
                             bs_ended := (i, r) # bs_ended s\<rparr>)"

inductive budget_reachable :: "string \<Rightarrow> 'a budget_state \<Rightarrow> bool" for seconds where
  init: "limits_init l = Inr l \<Longrightarrow> budget_reachable seconds \<lparr>bs_enforcer = enforcer_init l, bs_running = [], bs_ended = []\<rparr>"
| step: "budget_reachable seconds s \<Longrightarrow> budget_step seconds s t \<Longrightarrow> budget_reachable seconds t"

definition is_returned :: "'a call_outcome \<Rightarrow> bool" where
  "is_returned r = (case r of Returned _ \<Rightarrow> True | _ \<Rightarrow> False)"

definition budget_inv :: "'a budget_state \<Rightarrow> bool" where
  "budget_inv s \<longleftrightarrow>
     (let e = bs_enforcer s in
        en_active e = length (bs_running s) \<and> distinct (bs_running s) \<and>
        en_active e \<le> en_peak e \<and> en_peak e \<le> concurrency_of (en_limits e) \<and>
        1 \<le> concurrency_of (en_limits e) \<and> int (concurrency_of (en_limits e)) \<le> MAX_CONCURRENCY_LIMIT \<and>
        en_completed e = length (filter (\<lambda>(i, r). is_returned r) (bs_ended s)))"

lemma limits_ok: "limits_init l = Inr l' \<Longrightarrow> 1 \<le> concurrency_of l \<and> int (concurrency_of l) \<le> MAX_CONCURRENCY_LIMIT"
  by (auto simp: limits_init_def bind_res_eq_Inr bounded_integer_def concurrency_of_def split: pyval.splits if_splits)

lemma leave_frame:
  "leave seconds w e = Some (r, e') \<Longrightarrow>
     en_active e' = en_active e - 1 \<and> en_peak e' = en_peak e \<and> en_limits e' = en_limits e \<and>
     en_completed e' = en_completed e + (if is_returned r then 1 else 0)"
  by (auto simp: leave_def is_returned_def split: waited.splits call_outcome.splits)

lemma budget_step_inv: "budget_step seconds s t \<Longrightarrow> budget_inv s \<Longrightarrow> budget_inv t"
proof (induction rule: budget_step.induct)
  case (finish i s w r e)
  then show ?case
    using leave_frame [OF finish(2)] by (auto simp: budget_inv_def Let_def length_remove1)
qed (auto simp: budget_inv_def enter_def Let_def is_returned_def split: if_splits)

lemma budget_reachable_inv: "budget_reachable seconds s \<Longrightarrow> budget_inv s"
  by (induction rule: budget_reachable.induct)
    (auto simp: budget_inv_def enforcer_init_def Let_def dest: limits_ok budget_step_inv)

text \<open>A worker's concurrency budget holds under every interleaving of its calls: the active count
  is exactly the number of calls between entry and exit, never more than the configured bound,
  and the slot of a call comes back on every way out (answer, exception, cancellation,
  deadline), so that when all calls have ended the next one is admitted.\<close>

theorem budget_slot_returned:
  assumes "budget_reachable seconds s"
  shows "en_active (bs_enforcer s) = length (bs_running s) \<and>
     length (bs_running s) \<le> concurrency_of (en_limits (bs_enforcer s)) \<and>
     int (concurrency_of (en_limits (bs_enforcer s))) \<le> MAX_CONCURRENCY_LIMIT \<and>
     (fst (enter (bs_enforcer s)) = Inr () \<longleftrightarrow>
        length (bs_running s) < concurrency_of (en_limits (bs_enforcer s))) \<and>
     (bs_running s = [] \<longrightarrow> fst (enter (bs_enforcer s)) = Inr ())"
  using budget_reachable_inv [OF assms] by (auto simp: budget_inv_def enter_def Let_def)

section \<open>Silence, not work, ends a call\<close>

lemma funpow_beat: "hb_beaten ((beat ^^ n) h) \<longleftrightarrow> hb_beaten h \<or> 0 < n"
  by (induction n) (auto simp: beat_def)

lemma heartbeat_reset [simp]: "h\<lparr>hb_beaten := False\<rparr> = heartbeat_init"
  by (cases h) (simp add: heartbeat_init_def)

lemma budget_wait_silence:
  "budget_wait (Some heartbeat_init) (Silence n # rest) =
     (if n = 0 then Deadline else budget_wait (Some heartbeat_init) rest)"
proof -
  have "hb_beaten heartbeat_init = False" by (simp add: heartbeat_init_def)
  then show ?thesis by (simp add: consume_def funpow_beat)
qed

text \<open>A stretch that keeps the call alive: the heartbeat was beaten during it.\<close>

fun noisy :: "'a stretch \<Rightarrow> bool" where
  "noisy (Silence n) = (0 < n)"
| "noisy (Answered _) = False"

lemma budget_wait_noisy:
  "list_all noisy pre \<Longrightarrow> budget_wait (Some heartbeat_init) (pre @ rest) = budget_wait (Some heartbeat_init) rest"
proof (induction pre)
  case (Cons x pre)
  then obtain n where "x = Silence n" "0 < n" by (cases x) auto
  with Cons show ?case by (simp add: budget_wait_silence del: budget_wait.simps(3))
qed simp

lemma budget_wait_first:
  "w = budget_wait (Some heartbeat_init) xs \<Longrightarrow> w \<noteq> Waiting \<Longrightarrow>
     \<exists>pre x rest. xs = pre @ x # rest \<and> list_all noisy pre \<and>
       (w = Deadline \<and> x = Silence 0 \<or> (\<exists>r. w = Done r \<and> x = Answered r))"
proof (induction xs)
  case (Cons y ys)
  show ?case
  proof (cases "noisy y")
    case True
    then have "budget_wait (Some heartbeat_init) (y # ys) = budget_wait (Some heartbeat_init) ys"
      using budget_wait_noisy [of "[y]" ys] by simp
    with Cons obtain pre x rest where "ys = pre @ x # rest" "list_all noisy pre"
      "w = Deadline \<and> x = Silence 0 \<or> (\<exists>r. w = Done r \<and> x = Answered r)" by auto
    with True show ?thesis by (intro exI [of _ "y # pre"] exI [of _ x] exI [of _ rest]) simp
  next
    case False
    with Cons.prems show ?thesis
      by (cases y; intro exI [of _ "[]"] exI [of _ y] exI [of _ ys])
        (simp_all add: budget_wait_silence del: budget_wait.simps(3))
  qed
qed simp

text \<open>The deadline measures silence and not work: a call with a heartbeat that reports at least once
  in every stretch before its answer always gets its answer, however many stretches it takes,
  and it is refused for its deadline exactly when a whole stretch passes in silence before it
  has answered.  Without a heartbeat the first stretch decides.\<close>

theorem deadline_measures_silence:
  "(budget_wait (Some heartbeat_init) xs = Done r \<longleftrightarrow>
      (\<exists>pre rest. xs = pre @ Answered r # rest \<and> list_all noisy pre)) \<and>
   (budget_wait (Some heartbeat_init) xs = (Deadline :: 'a waited) \<longleftrightarrow>
      (\<exists>pre rest. xs = pre @ Silence 0 # rest \<and> list_all noisy pre)) \<and>
   budget_wait None xs = (case xs of [] \<Rightarrow> Waiting | Answered r # _ \<Rightarrow> Done r | Silence _ # _ \<Rightarrow> Deadline)"
proof (intro conjI iffI)
  assume "budget_wait (Some heartbeat_init) xs = Done r"
  from budget_wait_first [OF this [symmetric]]
  show "\<exists>pre rest. xs = pre @ Answered r # rest \<and> list_all noisy pre" by auto
next
  assume "budget_wait (Some heartbeat_init) xs = Deadline"
  from budget_wait_first [OF this [symmetric]]
  show "\<exists>pre rest. xs = pre @ Silence 0 # rest \<and> list_all noisy pre" by auto
next
  assume "\<exists>pre rest. xs = pre @ Answered r # rest \<and> list_all noisy pre"
  then show "budget_wait (Some heartbeat_init) xs = Done r" by (auto simp: budget_wait_noisy)
next
  assume "\<exists>pre rest. xs = pre @ Silence 0 # rest \<and> list_all noisy pre"
  then show "budget_wait (Some heartbeat_init) xs = Deadline"
    by (auto simp: budget_wait_noisy budget_wait_silence simp del: budget_wait.simps(3))
next
  show "budget_wait None xs = (case xs of [] \<Rightarrow> Waiting | Answered r # _ \<Rightarrow> Done r | Silence _ # _ \<Rightarrow> Deadline)"
    by (auto split: list.splits stretch.splits)
qed

section \<open>Witness\<close>

definition demo_limits :: limits where
  "demo_limits = \<lparr>li_call_timeout = PInt 30, li_max_processes = PNone, li_max_memory = PNone,
     li_max_descriptors = PNone, li_max_concurrency = PInt 1\<rparr>"

text \<open>One call is running under a bound of one; the next is refused.\<close>

definition demo_running :: "unit budget_state" where
  "demo_running = \<lparr>bs_enforcer = snd (enter (enforcer_init demo_limits)), bs_running = [0], bs_ended = []\<rparr>"

theorem budget_slot_returned_witness:
  "budget_reachable ''30'' demo_running \<and> fst (enter (bs_enforcer demo_running)) \<noteq> Inr ()"
proof -
  let ?s = "\<lparr>bs_enforcer = enforcer_init demo_limits, bs_running = [], bs_ended = []\<rparr> :: unit budget_state"
  have l: "limits_init demo_limits = Inr demo_limits" by code_simp
  have e: "enter (bs_enforcer ?s) = (Inr (), snd (enter (enforcer_init demo_limits)))" by code_simp
  have "budget_step ''30'' ?s (?s\<lparr>bs_enforcer := snd (enter (enforcer_init demo_limits)), bs_running := 0 # bs_running ?s\<rparr>)"
    by (rule budget_step.admit [OF e]) simp
  then have r: "budget_reachable ''30'' demo_running"
    using budget_reachable.step [OF budget_reachable.init [OF l]] by (simp add: demo_running_def)
  have "concurrency_of (en_limits (bs_enforcer demo_running)) = 1" by code_simp
  with budget_slot_returned [OF r] r show ?thesis by (simp add: demo_running_def)
qed

end
