(* ===== verification/Plugin_Flow.thy ===== *)
theory Plugin_Flow
  imports Worker_Budget
begin

text \<open>
  \<^verbatim>\<open>src/omnitensor/plugins/flow.py\<close>: admission, coalescing, retention and bounded retry for one
  plugin.  A submission runs without suspension up to the point where it joins or starts work,
  so \<open>flow_submit\<close> is one step; the end of the work it started is the other, \<open>flow_finish\<close>.
  Futures are numbers, \<open>fl_fut\<close> what they hold.
\<close>

section \<open>State\<close>

datatype 'a flow_future = Pending | Result 'a | Failed exn

record 'a flow =
  fl_plugin :: string
  fl_max_in_flight :: nat
  fl_max_retries :: nat
  fl_retention :: nat
  fl_ttl :: rat
  fl_in_flight :: "nat dict"
  fl_completed :: "(rat \<times> 'a) dict"
  fl_accepted :: nat
  fl_coalesced :: nat
  fl_replayed :: nat
  fl_dropped :: nat
  fl_retried :: nat
  fl_failed :: nat
  fl_fut :: "nat \<Rightarrow> 'a flow_future"
  fl_next :: nat

definition MAX_IN_FLIGHT_LIMIT :: int where "MAX_IN_FLIGHT_LIMIT = 256"
definition MAX_IDEMPOTENCY_KEY_CHARS :: nat where "MAX_IDEMPOTENCY_KEY_CHARS = 120"

definition positive_integer :: "pyval \<Rightarrow> int \<Rightarrow> nat res" where
  "positive_integer v maximum =
     (case v of PInt n \<Rightarrow> if 1 \<le> n \<and> n \<le> maximum then Inr (nat n) else Inl ValueError | _ \<Rightarrow> Inl ValueError)"

definition non_negative_integer :: "pyval \<Rightarrow> nat res" where
  "non_negative_integer v =
     (case v of PInt n \<Rightarrow> if n < 0 then Inl ValueError else Inr (nat n) | _ \<Rightarrow> Inl ValueError)"

text \<open>A NaN passes the test \<^verbatim>\<open>value <= 0\<close>, and so does an infinite value: both are kept as they are.\<close>

definition positive_number :: "pyval \<Rightarrow> unit res" where
  "positive_number v =
     (case v of
        PInt n \<Rightarrow> if n \<le> 0 then Inl ValueError else Inr ()
      | PFloat (Fin q) \<Rightarrow> if q \<le> 0 then Inl ValueError else Inr ()
      | PFloat NegInf \<Rightarrow> Inl ValueError
      | PFloat _ \<Rightarrow> Inr ()
      | _ \<Rightarrow> Inl ValueError)"

text \<open>The constructor, with a finite time to live \<open>ttl\<close> as a number.\<close>

definition flow_init :: "string \<Rightarrow> pyval \<Rightarrow> pyval \<Rightarrow> pyval \<Rightarrow> pyval \<Rightarrow> rat \<Rightarrow> 'a flow res" where
  "flow_init plugin_id max_in_flight deadline_seconds max_retries result_retention ttl =
     bind_res (positive_integer max_in_flight MAX_IN_FLIGHT_LIMIT) (\<lambda>n.
     bind_res (positive_number deadline_seconds) (\<lambda>_.
     bind_res (non_negative_integer max_retries) (\<lambda>r.
     bind_res (positive_integer result_retention 4096) (\<lambda>k.
     bind_res (positive_number (PFloat (Fin ttl))) (\<lambda>_.
       Inr \<lparr>fl_plugin = plugin_id, fl_max_in_flight = n, fl_max_retries = r, fl_retention = k, fl_ttl = ttl,
            fl_in_flight = [], fl_completed = [], fl_accepted = 0, fl_coalesced = 0, fl_replayed = 0,
            fl_dropped = 0, fl_retried = 0, fl_failed = 0, fl_fut = (\<lambda>_. Pending), fl_next = 0\<rparr>)))))"

definition flow_snapshot :: "'a flow \<Rightarrow> nat list" where
  "flow_snapshot s = [length (fl_in_flight s), fl_accepted s, fl_coalesced s, fl_replayed s, fl_dropped s,
     fl_retried s, fl_failed s]"

section \<open>Operations\<close>

definition validate_key :: "pyval \<Rightarrow> string res" where
  "validate_key v =
     (case v of
        PStr k \<Rightarrow> if 1 \<le> length k \<and> length k \<le> MAX_IDEMPOTENCY_KEY_CHARS then Inr k
                  else Inl (Stable ''idempotency-key-invalid'' ''idempotency key must contain 1-120 characters'')
      | _ \<Rightarrow> Inl (Stable ''idempotency-key-invalid'' ''idempotency key must contain 1-120 characters''))"

definition retained :: "rat \<Rightarrow> string \<Rightarrow> 'a flow \<Rightarrow> 'a option \<times> 'a flow" where
  "retained now key s =
     (case dget (fl_completed s) key of
        None \<Rightarrow> (None, s)
      | Some (stored_at, result) \<Rightarrow>
          if fl_ttl s < now - stored_at then (None, s\<lparr>fl_completed := dpop key (fl_completed s)\<rparr>)
          else (Some result, s\<lparr>fl_completed := move_to_end key (fl_completed s)\<rparr>))"

text \<open>The oldest entries go until the bound holds.\<close>

fun evict_results :: "nat \<Rightarrow> 'v dict \<Rightarrow> 'v dict" where
  "evict_results n [] = []"
| "evict_results n (e # d) = (if n < length (e # d) then evict_results n d else e # d)"

definition retain :: "rat \<Rightarrow> string \<Rightarrow> 'a \<Rightarrow> 'a flow \<Rightarrow> 'a flow" where
  "retain now key result s =
     s\<lparr>fl_completed := evict_results (fl_retention s) (move_to_end key (dset key (now, result) (fl_completed s)))\<rparr>"

text \<open>How a submission is answered: from retention, by a running future, refused, or as new work.\<close>

datatype 'a submitted = Replay 'a | Join nat | Refused exn | Start nat

definition existing :: "rat \<Rightarrow> string \<Rightarrow> 'a flow \<Rightarrow> 'a submitted option \<times> 'a flow" where
  "existing now key s =
     (case retained now key s of
        (Some result, s1) \<Rightarrow> (Some (Replay result), s1\<lparr>fl_replayed := Suc (fl_replayed s1)\<rparr>)
      | (None, s1) \<Rightarrow>
          (case dget (fl_in_flight s1) key of
             Some i \<Rightarrow> (Some (Join i), s1\<lparr>fl_coalesced := Suc (fl_coalesced s1)\<rparr>)
           | None \<Rightarrow>
               if fl_max_in_flight s1 \<le> length (fl_in_flight s1)
               then (Some (Refused (Stable ''plugin-backpressure'' (fl_plugin s1 @ '' already has ''
                       @ nat_str (fl_max_in_flight s1) @ '' operations in flight''))),
                     s1\<lparr>fl_dropped := Suc (fl_dropped s1)\<rparr>)
               else (None, s1)))"

definition flow_submit :: "rat \<Rightarrow> pyval \<Rightarrow> 'a flow \<Rightarrow> 'a submitted \<times> 'a flow" where
  "flow_submit now key s =
     (case validate_key key of
        Inl e \<Rightarrow> (Refused e, s)
      | Inr k \<Rightarrow>
          (case existing now k s of
             (Some r, s1) \<Rightarrow> (r, s1)
           | (None, s1) \<Rightarrow>
               let i = fl_next s1
               in (Start i, s1\<lparr>fl_in_flight := dset k i (fl_in_flight s1), fl_accepted := Suc (fl_accepted s1),
                              fl_fut := (fl_fut s1)(i := Pending), fl_next := Suc i\<rparr>)))"

text \<open>
  \<^verbatim>\<open>_run_with_retries\<close> over what its attempts end with.  A \<open>TimeoutError\<close>, of the silent wait or
  of the operation itself, is retried while attempts remain; anything else ends the run.
  Attempts not made yet mean the run has not ended.
\<close>

datatype 'a attempt = AOutcome "'a call_outcome" | ATimeout

definition retries_exhausted :: "string \<Rightarrow> string \<Rightarrow> nat \<Rightarrow> exn" where
  "retries_exhausted plugin seconds n = Stable ''retries-exhausted''
     (plugin @ '' reported nothing for '' @ seconds @ ''s on '' @ nat_str n @ '' attempts'')"

fun run_attempts :: "string \<Rightarrow> nat \<Rightarrow> nat \<Rightarrow> 'a attempt list \<Rightarrow> 'a flow \<Rightarrow> ('a call_outcome \<times> 'a flow) option" where
  "run_attempts seconds attempt attempts [] s = None"
| "run_attempts seconds attempt attempts (AOutcome r # _) s = Some (r, s)"
| "run_attempts seconds attempt attempts (ATimeout # rest) s =
     (if attempts \<le> attempt
      then Some (Raised (retries_exhausted (fl_plugin s) seconds attempts), s\<lparr>fl_failed := Suc (fl_failed s)\<rparr>)
      else run_attempts seconds (Suc attempt) attempts rest (s\<lparr>fl_retried := Suc (fl_retried s)\<rparr>))"

definition run_with_retries :: "string \<Rightarrow> 'a attempt list \<Rightarrow> 'a flow \<Rightarrow> ('a call_outcome \<times> 'a flow) option" where
  "run_with_retries seconds tries s = run_attempts seconds 1 (Suc (fl_max_retries s)) tries s"

text \<open>One attempt: the silent wait of \<open>budget_wait\<close>, a deadline raising \<^verbatim>\<open>TimeoutError\<close>.\<close>

definition attempt_of :: "heartbeat option \<Rightarrow> 'a stretch list \<Rightarrow> 'a attempt option" where
  "attempt_of hb stretches =
     (case budget_wait hb stretches of
        Waiting \<Rightarrow> None | Deadline \<Rightarrow> Some ATimeout | Done r \<Rightarrow> Some (AOutcome r))"

definition coalesced_failure :: "'a call_outcome \<Rightarrow> string \<Rightarrow> exn" where
  "coalesced_failure r plugin_id =
     (case r of
        Raised e \<Rightarrow> e
      | _ \<Rightarrow> Stable ''primary-cancelled'' (plugin_id @ '' cancelled the submission this call was waiting on''))"

definition set_fut :: "nat \<Rightarrow> 'a flow_future \<Rightarrow> 'a flow \<Rightarrow> 'a flow" where
  "set_fut i v s = (if fl_fut s i = Pending then s\<lparr>fl_fut := (fl_fut s)(i := v)\<rparr> else s)"

text \<open>The end of the primary submission: its future, the retention, and the \<^verbatim>\<open>finally\<close>.\<close>

definition flow_finish :: "rat \<Rightarrow> string \<Rightarrow> nat \<Rightarrow> 'a call_outcome \<Rightarrow> 'a flow \<Rightarrow> 'a flow" where
  "flow_finish now key i r s =
     (let s1 = (case r of
                  Returned v \<Rightarrow> retain now key v (set_fut i (Result v) s)
                | _ \<Rightarrow> set_fut i (Failed (coalesced_failure r (fl_plugin s))) s)
      in s1\<lparr>fl_in_flight := dpop key (fl_in_flight s1)\<rparr>)"

section \<open>Interleaved submissions\<close>

text \<open>
  \<open>fs_running\<close> is the work actually executing: the primaries between \<^verbatim>\<open>_existing\<close> and the
  \<^verbatim>\<open>finally\<close>, with their key and future.  The clock never runs backwards.
\<close>

record 'a flow_state =
  fs_flow :: "'a flow"
  fs_running :: "(string \<times> nat) list"
  fs_now :: rat

inductive flow_step :: "string \<Rightarrow> 'a flow_state \<Rightarrow> 'a flow_state \<Rightarrow> bool" for seconds where
  tick: "fs_now s \<le> t \<Longrightarrow> flow_step seconds s (s\<lparr>fs_now := t\<rparr>)"
| start: "flow_submit (fs_now s) (PStr k) (fs_flow s) = (Start i, f) \<Longrightarrow>
     flow_step seconds s (s\<lparr>fs_flow := f, fs_running := (k, i) # fs_running s\<rparr>)"
| answer: "flow_submit (fs_now s) key (fs_flow s) = (r, f) \<Longrightarrow> (\<forall>i. r \<noteq> Start i) \<Longrightarrow>
     flow_step seconds s (s\<lparr>fs_flow := f\<rparr>)"
| finish: "(k, i) \<in> set (fs_running s) \<Longrightarrow> run_with_retries seconds tries (fs_flow s) = Some (r, f) \<Longrightarrow>
     flow_step seconds s (s\<lparr>fs_flow := flow_finish (fs_now s) k i r f, fs_running := remove1 (k, i) (fs_running s)\<rparr>)"

inductive flow_reachable :: "string \<Rightarrow> 'a flow_state \<Rightarrow> bool" for seconds where
  init: "flow_init p n d r k ttl = Inr f \<Longrightarrow> flow_reachable seconds \<lparr>fs_flow = f, fs_running = [], fs_now = now\<rparr>"
| step: "flow_reachable seconds s \<Longrightarrow> flow_step seconds s t \<Longrightarrow> flow_reachable seconds t"

section \<open>Retention\<close>

lemma dget_move [simp]: "dget (move_to_end k d) k' = dget d k'"
  by (auto simp: move_to_end_def dget_append dget_Cons split: option.splits)

lemma move_ok: "dict_ok d \<Longrightarrow> dict_ok (move_to_end k d) \<and> length (move_to_end k d) = length d"
proof (cases "dget d k")
  case (Some v)
  assume ok: "dict_ok d"
  have "dict_ok (dpop k d @ [(k, v)])"
    using dict_ok_dpop [OF ok, of k] by (simp add: dict_ok_def dkeys_def [of "_ @ _"]) (simp add: dkeys_dpop flip: dkeys_def set_map)
  with Some ok length_dpop [OF ok Some] show ?thesis by (simp add: move_to_end_def)
qed (simp add: move_to_end_def)

lemma evict_drop: "evict_results n d = drop (length d - n) d"
  by (induction d) (auto simp: Suc_diff_le)

lemma evict_ok: "dict_ok d \<Longrightarrow> dict_ok (evict_results n d) \<and> length (evict_results n d) \<le> n"
  by (simp add: evict_drop dict_ok_def dkeys_def flip: drop_map)

lemma evict_get: "dict_ok d \<Longrightarrow> dget (evict_results n d) k = Some v \<Longrightarrow> dget d k = Some v"
  by (metis dget_in_set evict_drop in_set_dget in_set_dropD)

text \<open>The entry stored last survives the eviction, the bound being positive.\<close>

lemma retain_get:
  assumes "dict_ok (fl_completed s)" and "1 \<le> fl_retention s"
  shows "dget (fl_completed (retain now k v s)) k = Some (now, v)"
proof -
  let ?d = "dset k (now, v) (fl_completed s)"
  have m: "move_to_end k ?d = dpop k ?d @ [(k, (now, v))]" by (simp add: move_to_end_def)
  then have e: "evict_results (fl_retention s) (move_to_end k ?d) = drop (length (dpop k ?d) + 1 - fl_retention s) (dpop k ?d) @ [(k, (now, v))]"
    using assms(2) by (simp add: evict_drop)
  have "dict_ok (evict_results (fl_retention s) (move_to_end k ?d))"
    using assms(1) move_ok [of ?d k] evict_ok by auto
  then show ?thesis unfolding retain_def using e in_set_dget [of _ k "(now, v)"] by simp
qed

lemma retain_frame:
  assumes "dict_ok (fl_completed s)"
  shows "dict_ok (fl_completed (retain now k v s))" "length (fl_completed (retain now k v s)) \<le> fl_retention s"
    "dhas (fl_completed (retain now k v s)) k' \<Longrightarrow> k' = k \<or> dhas (fl_completed s) k'"
proof -
  let ?d = "dset k (now, v) (fl_completed s)"
  have ok: "dict_ok (move_to_end k ?d)" using assms move_ok [of ?d k] by simp
  then show "dict_ok (fl_completed (retain now k v s))" "length (fl_completed (retain now k v s)) \<le> fl_retention s"
    by (simp_all add: retain_def evict_ok)
  assume "dhas (fl_completed (retain now k v s)) k'"
  then obtain x where "dget (evict_results (fl_retention s) (move_to_end k ?d)) k' = Some x" by (auto simp: retain_def dhas_iff)
  from evict_get [OF ok this] show "k' = k \<or> dhas (fl_completed s) k'" by (auto simp: dhas_iff split: if_splits)
qed

text \<open>What only the start and the end of work change.\<close>

definition same_core :: "'a flow \<Rightarrow> 'a flow \<Rightarrow> bool" where
  "same_core s t \<longleftrightarrow> fl_in_flight t = fl_in_flight s \<and> fl_fut t = fl_fut s \<and> fl_next t = fl_next s \<and>
     fl_max_in_flight t = fl_max_in_flight s \<and> fl_retention t = fl_retention s \<and> fl_ttl t = fl_ttl s \<and>
     fl_plugin t = fl_plugin s \<and> fl_accepted t = fl_accepted s"

lemma retained_frame:
  assumes "retained now k s = (r, t)" and "dict_ok (fl_completed s)"
  shows "same_core s t" "dict_ok (fl_completed t)"
    "length (fl_completed t) \<le> length (fl_completed s)"
    "dhas (fl_completed t) k' \<Longrightarrow> dhas (fl_completed s) k'" "r = None \<Longrightarrow> \<not> dhas (fl_completed t) k"
  using assms move_ok [OF assms(2), of k] length_dpop_le [of k "fl_completed s"]
  by (auto simp: retained_def same_core_def dhas_iff split: option.splits if_splits)

section \<open>One execution per key\<close>

definition flow_inv :: "'a flow_state \<Rightarrow> bool" where
  "flow_inv s \<longleftrightarrow>
     (let f = fs_flow s in
        dict_ok (fl_in_flight f) \<and> dict_ok (fl_completed f) \<and>
        1 \<le> fl_max_in_flight f \<and> int (fl_max_in_flight f) \<le> MAX_IN_FLIGHT_LIMIT \<and> 1 \<le> fl_retention f \<and> 0 < fl_ttl f \<and>
        length (fl_in_flight f) \<le> fl_max_in_flight f \<and> length (fl_completed f) \<le> fl_retention f \<and>
        (\<forall>k i. dget (fl_in_flight f) k = Some i \<longleftrightarrow> (k, i) \<in> set (fs_running s)) \<and>
        distinct (map fst (fs_running s)) \<and> distinct (map snd (fs_running s)) \<and>
        (\<forall>(k, i) \<in> set (fs_running s). fl_fut f i = Pending \<and> i < fl_next f \<and> \<not> dhas (fl_completed f) k))"

lemma existing_frame:
  assumes "existing now k s = (r, t)" and "dict_ok (fl_completed s)"
  shows "same_core s t"
    "dict_ok (fl_completed t)" "length (fl_completed t) \<le> length (fl_completed s)"
    "dhas (fl_completed t) k' \<Longrightarrow> dhas (fl_completed s) k'"
    "r = None \<Longrightarrow> \<not> dhas (fl_completed t) k \<and> \<not> dhas (fl_in_flight s) k \<and> length (fl_in_flight s) < fl_max_in_flight s"
proof -
  obtain x u where u: "retained now k s = (x, u)" by force
  note fr = retained_frame [OF u assms(2)]
  have e: "fl_in_flight u = fl_in_flight s" "fl_max_in_flight u = fl_max_in_flight s"
    using fr(1) by (simp_all add: same_core_def)
  have "t = u\<lparr>fl_replayed := Suc (fl_replayed u)\<rparr> \<or> t = u\<lparr>fl_coalesced := Suc (fl_coalesced u)\<rparr> \<or>
      t = u\<lparr>fl_dropped := Suc (fl_dropped u)\<rparr> \<or> t = u"
    using assms(1) u by (auto simp: existing_def split: option.splits if_splits)
  then have c: "fl_completed t = fl_completed u" and "same_core u t" by (auto simp: same_core_def)
  then show "same_core s t" using fr(1) by (simp add: same_core_def)
  show "dict_ok (fl_completed t)" "length (fl_completed t) \<le> length (fl_completed s)"
    "dhas (fl_completed t) k' \<Longrightarrow> dhas (fl_completed s) k'" using fr c by auto
  assume "r = None"
  then have "x = None" "dget (fl_in_flight u) k = None" "length (fl_in_flight u) < fl_max_in_flight u"
    using assms(1) u by (auto simp: existing_def split: option.splits if_splits)
  then show "\<not> dhas (fl_completed t) k \<and> \<not> dhas (fl_in_flight s) k \<and> length (fl_in_flight s) < fl_max_in_flight s"
    using fr(5) c e by (simp add: dhas_iff)
qed

lemma submit_start:
  assumes "flow_submit now (PStr k) s = (Start i, t)"
  obtains u where "existing now k s = (None, u)" and "i = fl_next u"
    and "t = u\<lparr>fl_in_flight := dset k i (fl_in_flight u), fl_accepted := Suc (fl_accepted u),
               fl_fut := (fl_fut u)(i := Pending), fl_next := Suc i\<rparr>"
proof -
  have no: "existing now k s \<noteq> (Some (Start i), t)"
    by (auto simp: existing_def split: option.splits if_splits prod.splits)
  show ?thesis
    using assms no by (auto simp: flow_submit_def validate_key_def Let_def split: prod.splits option.splits if_splits intro: that)
qed

lemma submit_answer:
  assumes "flow_submit now key s = (r, t)" and "\<forall>i. r \<noteq> Start i"
  shows "t = s \<or> (\<exists>k. existing now k s = (Some r, t))"
  using assms by (auto simp: flow_submit_def Let_def split: sum.splits prod.splits option.splits)

lemma run_attempts_frame:
  "run_attempts seconds a n tries s = Some (r, t) \<Longrightarrow> same_core s t \<and> fl_completed t = fl_completed s"
proof (induction seconds a n tries s rule: run_attempts.induct)
  case (3 seconds a n rest s)
  then show ?case by (auto simp: same_core_def split: if_splits)
qed (auto simp: same_core_def)

lemma run_frame:
  "run_with_retries seconds tries s = Some (r, t) \<Longrightarrow> same_core s t \<and> fl_completed t = fl_completed s"
  by (simp add: run_with_retries_def run_attempts_frame)

lemma flow_inv_core:
  assumes "flow_inv s" and "same_core (fs_flow s) f" and "dict_ok (fl_completed f)"
    and "length (fl_completed f) \<le> length (fl_completed (fs_flow s))"
    and "\<And>k. dhas (fl_completed f) k \<Longrightarrow> dhas (fl_completed (fs_flow s)) k"
  shows "flow_inv (s\<lparr>fs_flow := f\<rparr>)"
  using assms by (auto simp: flow_inv_def same_core_def Let_def)

lemma flow_start_inv:
  assumes "flow_inv s" and "flow_submit (fs_now s) (PStr k) (fs_flow s) = (Start i, f)"
  shows "flow_inv (s\<lparr>fs_flow := f, fs_running := (k, i) # fs_running s\<rparr>)"
proof -
  obtain u where u: "existing (fs_now s) k (fs_flow s) = (None, u)" "i = fl_next u"
    "f = u\<lparr>fl_in_flight := dset k i (fl_in_flight u), fl_accepted := Suc (fl_accepted u),
           fl_fut := (fl_fut u)(i := Pending), fl_next := Suc i\<rparr>"
    by (rule submit_start [OF assms(2)])
  have ok: "dict_ok (fl_completed (fs_flow s))" using assms(1) by (simp add: flow_inv_def Let_def)
  note fr = existing_frame [OF u(1) ok]
  have inv: "flow_inv (s\<lparr>fs_flow := u\<rparr>)" by (rule flow_inv_core [OF assms(1) fr(1,2,3,4)])
  have core: "fl_in_flight u = fl_in_flight (fs_flow s)" "fl_max_in_flight u = fl_max_in_flight (fs_flow s)"
    using fr(1) by (simp_all add: same_core_def)
  have new: "\<not> dhas (fl_completed u) k" "\<not> dhas (fl_in_flight u) k" "length (fl_in_flight u) < fl_max_in_flight u"
    using fr(5) core by simp_all
  have k: "k \<notin> fst ` set (fs_running s)"
  proof
    assume "k \<in> fst ` set (fs_running s)"
    then obtain j where "(k, j) \<in> set (fs_running s)" by auto
    with inv have "dget (fl_in_flight u) k = Some j" by (simp add: flow_inv_def Let_def)
    with new(2) show False by (simp add: dhas_iff)
  qed
  have i: "i \<notin> snd ` set (fs_running s)" using inv u(2) by (auto simp: flow_inv_def Let_def)
  have g: "\<forall>k' j. dget (dset k i (fl_in_flight u)) k' = Some j \<longleftrightarrow> (k', j) \<in> set ((k, i) # fs_running s)"
    using inv k by (auto simp: flow_inv_def Let_def rev_image_eqI)
  have len: "length (dset k i (fl_in_flight u)) \<le> fl_max_in_flight u"
    using inv new by (simp add: length_dset flow_inv_def Let_def)
  have p: "fl_fut f j = Pending \<and> j < fl_next f \<and> \<not> dhas (fl_completed f) k'"
    if "(k', j) \<in> set ((k, i) # fs_running s)" for k' j
    using that inv new(1) u(2,3) by (auto simp: flow_inv_def Let_def)
  show ?thesis
    using inv g len p k i by (simp add: flow_inv_def Let_def u(3)) blast
qed

lemma flow_finish_inv:
  assumes "flow_inv s" and "(k, i) \<in> set (fs_running s)"
  shows "flow_inv (s\<lparr>fs_flow := flow_finish now k i r (fs_flow s), fs_running := remove1 (k, i) (fs_running s)\<rparr>)"
proof -
  let ?f = "fs_flow s" and ?g = "flow_finish now k i r (fs_flow s)"
  have inv: "dict_ok (fl_in_flight ?f)" "dict_ok (fl_completed ?f)" "distinct (map fst (fs_running s))" "distinct (map snd (fs_running s))"
    "\<And>k i. dget (fl_in_flight ?f) k = Some i \<longleftrightarrow> (k, i) \<in> set (fs_running s)"
    using assms(1) by (auto simp: flow_inv_def Let_def)
  have rem: "set (remove1 (k, i) (fs_running s)) = set (fs_running s) - {(k, i)}"
    using inv(3) by (simp add: distinct_map)
  have other: "k' \<noteq> k \<and> j \<noteq> i" if "(k', j) \<in> set (fs_running s) - {(k, i)}" for k' j
    using that assms(2) inv(3,4) by (simp add: distinct_map inj_on_def) fastforce
  have fin: "fl_in_flight ?g = dpop k (fl_in_flight ?f)" "fl_next ?g = fl_next ?f"
    "\<And>j. j \<noteq> i \<Longrightarrow> fl_fut ?g j = fl_fut ?f j" "fl_max_in_flight ?g = fl_max_in_flight ?f"
    "fl_retention ?g = fl_retention ?f" "fl_ttl ?g = fl_ttl ?f"
    by (auto simp: flow_finish_def set_fut_def retain_def Let_def split: call_outcome.splits)
  have comp: "fl_completed ?g = fl_completed ?f \<or> (\<exists>v f'. fl_completed f' = fl_completed ?f \<and> fl_retention f' = fl_retention ?f \<and>
      fl_completed ?g = fl_completed (retain now k v f'))"
  proof (cases r)
    case (Returned v)
    then show ?thesis
      by (intro disjI2 exI [of _ v] exI [of _ "set_fut i (Result v) ?f"]) (simp add: flow_finish_def Let_def set_fut_def)
  qed (simp_all add: flow_finish_def Let_def set_fut_def)
  have c0: "dict_ok (fl_completed ?g) \<and> length (fl_completed ?g) \<le> fl_retention ?f \<and>
      (\<forall>k'. dhas (fl_completed ?g) k' \<longrightarrow> k' = k \<or> dhas (fl_completed ?f) k')"
    using comp
  proof
    assume "\<exists>v f'. fl_completed f' = fl_completed ?f \<and> fl_retention f' = fl_retention ?f \<and>
      fl_completed ?g = fl_completed (retain now k v f')"
    then obtain v f' where f': "fl_completed f' = fl_completed ?f" "fl_retention f' = fl_retention ?f"
      "fl_completed ?g = fl_completed (retain now k v f')" by blast
    have "dict_ok (fl_completed f')" using inv(2) f'(1) by simp
    from retain_frame [OF this, of now k v] f' show ?thesis by auto
  qed (use inv(2) assms(1) in \<open>auto simp: flow_inv_def Let_def\<close>)
  then have c: "dict_ok (fl_completed ?g)" "length (fl_completed ?g) \<le> fl_retention ?f"
    "\<And>k'. dhas (fl_completed ?g) k' \<Longrightarrow> k' = k \<or> dhas (fl_completed ?f) k'" by blast+
  have g: "dget (dpop k (fl_in_flight ?f)) k' = Some j \<longleftrightarrow> (k', j) \<in> set (fs_running s) - {(k, i)}" for k' j
    using other [of k' j] inv(5) [of k' j] assms(2) inv(5) [of k i] by auto
  have len: "length (dpop k (fl_in_flight ?f)) \<le> fl_max_in_flight ?f"
    using assms(1) length_dpop_le [of k "fl_in_flight ?f"] by (auto simp: flow_inv_def Let_def)
  have p: "fl_fut ?g j = Pending \<and> j < fl_next ?g \<and> \<not> dhas (fl_completed ?g) k'"
    if "(k', j) \<in> set (fs_running s) - {(k, i)}" for k' j
    using that other [OF that] assms(1) c(3) [of k'] fin(2,3) by (auto simp: flow_inv_def Let_def)
  have d: "distinct (map fst (remove1 (k, i) (fs_running s)))" "distinct (map snd (remove1 (k, i) (fs_running s)))"
    using inv(3,4) by (auto simp: distinct_map inj_on_def dest: notin_set_remove1)
  show ?thesis
    using assms(1) inv(1) g len p d c(1,2) fin unfolding flow_inv_def Let_def
    by (simp add: rem) blast
qed

lemma flow_step_inv: "flow_step seconds s t \<Longrightarrow> flow_inv s \<Longrightarrow> flow_inv t"
proof (induction rule: flow_step.induct)
  case (start s k i f)
  then show ?case using flow_start_inv by blast
next
  case (answer s key r f)
  have ok: "dict_ok (fl_completed (fs_flow s))" using answer(3) by (simp add: flow_inv_def Let_def)
  from submit_answer [OF answer(1,2)] show ?case
  proof
    assume "\<exists>k. existing (fs_now s) k (fs_flow s) = (Some r, f)"
    then obtain k where "existing (fs_now s) k (fs_flow s) = (Some r, f)" by blast
    from existing_frame [OF this ok] show ?thesis by (intro flow_inv_core [OF answer(3)])
  qed (use answer(3) in simp)
next
  case (finish k i s tries r f)
  from run_frame [OF finish(2)] have "flow_inv (s\<lparr>fs_flow := f\<rparr>)"
    using finish(3) by (intro flow_inv_core [OF finish(3)]) (auto simp: flow_inv_def Let_def)
  from flow_finish_inv [OF this, of k i "fs_now s" r] finish(1) show ?case by simp
qed (simp add: flow_inv_def)

lemma flow_reachable_inv: "flow_reachable seconds s \<Longrightarrow> flow_inv s"
proof (induction rule: flow_reachable.induct)
  case (init p n d r k ttl f now)
  then show ?case
    by (auto simp: flow_init_def flow_inv_def Let_def bind_res_eq_Inr positive_integer_def positive_number_def
        split: pyval.splits if_splits)
qed (rule flow_step_inv)

text \<open>C17. In every interleaving of submissions one plugin never runs two operations for the same
  idempotency key and never more than its in-flight bound: the in-flight table is exactly the
  work being executed, one pending future each, and a key whose result is retained is not being
  executed.  What is retained stays within its bound, so that neither table can grow without
  limit.\<close>

theorem flow_single_execution:
  assumes "flow_reachable seconds s"
  shows "distinct (map fst (fs_running s)) \<and>
     length (fs_running s) \<le> fl_max_in_flight (fs_flow s) \<and> int (fl_max_in_flight (fs_flow s)) \<le> MAX_IN_FLIGHT_LIMIT \<and>
     length (fl_completed (fs_flow s)) \<le> fl_retention (fs_flow s) \<and>
     (\<forall>k i. (k, i) \<in> set (fs_running s) \<longleftrightarrow> dget (fl_in_flight (fs_flow s)) k = Some i) \<and>
     (\<forall>(k, i) \<in> set (fs_running s). fl_fut (fs_flow s) i = Pending \<and> \<not> dhas (fl_completed (fs_flow s)) k)"
proof -
  have inv: "flow_inv s" by (rule flow_reachable_inv [OF assms])
  let ?d = "fl_in_flight (fs_flow s)"
  have "set (fs_running s) = set ?d"
    using inv in_set_dget [of ?d] dget_in_set [of ?d] by (auto simp: flow_inv_def Let_def)
  moreover have "distinct (fs_running s)" "distinct ?d"
    using inv by (auto simp: flow_inv_def Let_def distinct_map dict_ok_def dkeys_def)
  ultimately have "length (fs_running s) = length ?d" by (metis distinct_card)
  then show ?thesis using inv by (auto simp: flow_inv_def Let_def)
qed

text \<open>A repeated key never causes a second execution of what succeeded: while the first submission
  runs, every further one with its key joins that very future; when it returns a value, the
  future delivers that value to all who joined, and until its time to live has passed an
  immediate resubmission is answered with the same value and starts nothing.  When it fails or
  is cancelled, those who joined get a failure of their own (never a bare cancellation), and
  the key is free again.\<close>

theorem flow_idempotent:
  assumes "flow_reachable seconds s" and "(k, i) \<in> set (fs_running s)" and "validate_key (PStr k) = Inr k"
    and "0 \<le> t" and "t \<le> fl_ttl (fs_flow s)"
  shows "fst (flow_submit (fs_now s) (PStr k) (fs_flow s)) = Join i \<and>
     (case r of
        Returned v \<Rightarrow>
          fl_fut (flow_finish (fs_now s) k i r (fs_flow s)) i = Result v \<and>
          fst (flow_submit (fs_now s + t) (PStr k) (flow_finish (fs_now s) k i r (fs_flow s))) = Replay v
      | _ \<Rightarrow>
          (\<exists>e. fl_fut (flow_finish (fs_now s) k i r (fs_flow s)) i = Failed e) \<and>
          (\<exists>j. fst (flow_submit (fs_now s + t) (PStr k) (flow_finish (fs_now s) k i r (fs_flow s))) = Start j))"
proof
  have inv: "flow_inv s" by (rule flow_reachable_inv [OF assms(1)])
  let ?f = "fs_flow s" and ?g = "flow_finish (fs_now s) k i r (fs_flow s)"
  have fl: "dget (fl_in_flight ?f) k = Some i" "fl_fut ?f i = Pending" "dget (fl_completed ?f) k = None"
    using inv assms(2) by (auto simp: flow_inv_def Let_def dget_None_iff)
  then show "fst (flow_submit (fs_now s) (PStr k) ?f) = Join i"
    by (simp add: flow_submit_def assms(3) existing_def retained_def)
  have ne: "fl_in_flight ?f \<noteq> []" using fl(1) by auto
  have gk: "fl_in_flight ?g = dpop k (fl_in_flight ?f)" "fl_ttl ?g = fl_ttl ?f" "fl_max_in_flight ?g = fl_max_in_flight ?f"
    by (auto simp: flow_finish_def set_fut_def retain_def Let_def split: call_outcome.splits)
  show "case r of
        Returned v \<Rightarrow> fl_fut ?g i = Result v \<and> fst (flow_submit (fs_now s + t) (PStr k) ?g) = Replay v
      | _ \<Rightarrow> (\<exists>e. fl_fut ?g i = Failed e) \<and> (\<exists>j. fst (flow_submit (fs_now s + t) (PStr k) ?g) = Start j)"
  proof (cases "\<exists>v. r = Returned v")
    case True
    then obtain v where v: "r = Returned v" by blast
    have "dget (fl_completed ?g) k = Some (fs_now s, v)"
      using retain_get [of "set_fut i (Result v) ?f" "fs_now s" k v] inv
      by (simp add: v flow_finish_def Let_def set_fut_def flow_inv_def)
    then have "fst (flow_submit (fs_now s + t) (PStr k) ?g) = Replay v"
      using assms(3-5) gk(2) by (simp add: flow_submit_def existing_def retained_def not_less)
    moreover have "fl_fut ?g i = Result v" using fl(2) by (simp add: v flow_finish_def Let_def set_fut_def retain_def)
    ultimately show ?thesis by (simp add: v)
  next
    case False
    then have g: "fl_completed ?g = fl_completed ?f" "\<exists>e. fl_fut ?g i = Failed e"
      using fl(2) by (cases r; simp add: flow_finish_def Let_def set_fut_def)+
    have "length (fl_in_flight ?f) = Suc (length (dpop k (fl_in_flight ?f)))"
      using inv fl(1) by (intro length_dpop) (auto simp: flow_inv_def Let_def)
    then have "length (fl_in_flight ?g) < fl_max_in_flight ?g" using inv gk by (simp add: flow_inv_def Let_def)
    then have "\<exists>j. fst (flow_submit (fs_now s + t) (PStr k) ?g) = Start j"
      using fl(3) g(1) gk(1) by (simp add: flow_submit_def assms(3) existing_def retained_def Let_def)
    with g(2) False show ?thesis by (cases r) auto
  qed
qed

section \<open>Witnesses\<close>

text \<open>A plugin with room for two operations has started one under the key \<open>a\<close>.\<close>

definition demo_flow :: "nat flow" where
  "demo_flow = projr (flow_init ''p'' (PInt 2) (PInt 30) (PInt 1) (PInt 4) 300)"

definition demo_started :: "nat flow_state" where
  "demo_started = \<lparr>fs_flow = snd (flow_submit 0 (PStr ''a'') demo_flow), fs_running = [(''a'', 0)], fs_now = 0\<rparr>"

lemma demo_started_reachable: "flow_reachable ''30'' demo_started"
proof -
  have i: "flow_init ''p'' (PInt 2) (PInt 30) (PInt 1) (PInt 4) 300 = Inr demo_flow"
    by (simp add: demo_flow_def flow_init_def positive_integer_def positive_number_def non_negative_integer_def MAX_IN_FLIGHT_LIMIT_def)
  let ?s = "\<lparr>fs_flow = demo_flow, fs_running = [], fs_now = 0\<rparr>"
  have r: "flow_reachable ''30'' ?s" by (rule flow_reachable.init [OF i])
  have "fst (flow_submit 0 (PStr ''a'') demo_flow) = Start 0" by code_simp
  then have "flow_submit (fs_now ?s) (PStr ''a'') (fs_flow ?s) = (Start 0, snd (flow_submit 0 (PStr ''a'') demo_flow))"
    by (metis flow_state.select_convs(1,3) prod.collapse)
  from flow_reachable.step [OF r flow_step.start [OF this]] show ?thesis by (simp add: demo_started_def)
qed

theorem flow_single_execution_witness:
  "flow_reachable ''30'' demo_started \<and> dget (fl_in_flight (fs_flow demo_started)) ''a'' = Some 0"
proof -
  have "(''a'', 0) \<in> set (fs_running demo_started)" by (simp add: demo_started_def)
  with flow_single_execution [OF demo_started_reachable] demo_started_reachable show ?thesis by blast
qed

theorem flow_idempotent_witness:
  "fst (flow_submit 0 (PStr ''a'') (fs_flow demo_started)) = Join 0 \<and>
   fst (flow_submit 10 (PStr ''a'') (flow_finish 0 ''a'' 0 (Returned 7) (fs_flow demo_started))) = Replay 7"
proof -
  have k: "(''a'', 0) \<in> set (fs_running demo_started)" "validate_key (PStr ''a'') = Inr ''a''"
    "fs_now demo_started = 0" by (simp_all add: demo_started_def validate_key_def MAX_IDEMPOTENCY_KEY_CHARS_def)
  have "(10 :: rat) \<le> fl_ttl (fs_flow demo_started)" by code_simp
  with flow_idempotent [OF demo_started_reachable k(1,2), of 10 "Returned 7"] k(3) show ?thesis by simp
qed

end
