(* ===== verification/Worker_Supervisor.thy ===== *)
theory Worker_Supervisor
  imports OT_Prelude "HOL-Library.Char_ord" "HOL-Library.List_Lexorder"
begin

text \<open>
  \<^verbatim>\<open>src/omnitensor/plugins/supervisor.py\<close> with \<^verbatim>\<open>supervisor_recovery.py\<close>,
  \<^verbatim>\<open>supervisor_diagnostics.py\<close>, the launch part of \<^verbatim>\<open>supervisor_session.py\<close> and the validation of
  \<^verbatim>\<open>supervisor_process.py\<close>: one child process per plugin, restarted within a budget.  Every
  public operation holds the supervisor's lock, so each is one function on the state \<open>host\<close>; a
  recovery task suspends between its locked sections, and each section is a step of its own.
  What a launch, a handshake or a process does is an argument of the step.
\<close>

section \<open>States, statuses and diagnostics\<close>

datatype wstate = Idle | Starting | Ready | WFailed | Exited | Restarting | Exhausted | Stopped

datatype diag_code = DExited | OrphanCancelFailed | RestartFailed | Recovered | BudgetExhausted | StopFailed | StartupTimeout

record status =
  st_state :: wstate
  st_pid :: "nat option"
  st_proto :: "nat option"
  st_detail :: string
  st_attempts :: nat

record diagnostic =
  dg_code :: diag_code
  dg_detail :: string
  dg_pid :: "nat option"
  dg_returncode :: "int option"
  dg_attempt :: nat

definition IDLE_WORKER_DETAIL :: string where "IDLE_WORKER_DETAIL = ''worker idle; starts on demand''"

definition failed_status :: "nat option \<Rightarrow> string \<Rightarrow> status" where
  "failed_status pid detail = \<lparr>st_state = WFailed, st_pid = pid, st_proto = None, st_detail = detail, st_attempts = 0\<rparr>"

text \<open>\<open>maximum\<close> is None for the whole journal; a bound below one is refused.\<close>

definition record_diagnostic :: "string \<Rightarrow> diagnostic \<Rightarrow> int option \<Rightarrow> diagnostic list dict \<Rightarrow> diagnostic list dict res" where
  "record_diagnostic plugin d maximum journals =
     (case maximum of
        Some m \<Rightarrow>
          if m < 1 then Inl ValueError
          else let j = (case dget journals plugin of None \<Rightarrow> [] | Some xs \<Rightarrow> xs) @ [d]
               in Inr (dset plugin (drop (length j - nat m) j) journals)
      | None \<Rightarrow> Inr (dset plugin ((case dget journals plugin of None \<Rightarrow> [] | Some xs \<Rightarrow> xs) @ [d]) journals))"

definition diagnostics_for :: "diagnostic list dict \<Rightarrow> string \<Rightarrow> diagnostic list" where
  "diagnostics_for journals plugin = (case dget journals plugin of None \<Rightarrow> [] | Some xs \<Rightarrow> xs)"

section \<open>Restart policy\<close>

definition MAX_RESTARTS :: int where "MAX_RESTARTS = 16"

record recovery_policy =
  po_max_restarts :: nat
  po_initial :: rat
  po_max :: rat
  po_multiplier :: rat
  po_decay :: rat

text \<open>\<^verbatim>\<open>validate_timeout\<close>: a finite positive number.\<close>

definition validate_timeout :: "pyval \<Rightarrow> rat res" where
  "validate_timeout v =
     (case v of
        PInt n \<Rightarrow> if n \<le> 0 then Inl ValueError else Inr (of_int n)
      | PFloat (Fin q) \<Rightarrow> if q \<le> 0 then Inl ValueError else Inr q
      | _ \<Rightarrow> Inl ValueError)"

definition multiplier_of :: "pyval \<Rightarrow> rat res" where
  "multiplier_of v =
     (case v of
        PInt n \<Rightarrow> if n < 1 then Inl ValueError else Inr (of_int n)
      | PFloat (Fin q) \<Rightarrow> if q < 1 then Inl ValueError else Inr q
      | _ \<Rightarrow> Inl ValueError)"

definition policy_init :: "pyval \<Rightarrow> pyval \<Rightarrow> pyval \<Rightarrow> pyval \<Rightarrow> pyval \<Rightarrow> recovery_policy res" where
  "policy_init max_restarts initial maxi multiplier decay =
     bind_res (case max_restarts of PInt n \<Rightarrow> if 0 \<le> n \<and> n \<le> MAX_RESTARTS then Inr (nat n) else Inl ValueError
               | _ \<Rightarrow> Inl ValueError) (\<lambda>r.
     bind_res (validate_timeout initial) (\<lambda>i.
     bind_res (validate_timeout maxi) (\<lambda>m.
     bind_res (validate_timeout decay) (\<lambda>d.
       if m < i then Inl ValueError
       else map_res (\<lambda>k. \<lparr>po_max_restarts = r, po_initial = i, po_max = m, po_multiplier = k, po_decay = d\<rparr>)
              (multiplier_of multiplier)))))"

definition delay :: "recovery_policy \<Rightarrow> int \<Rightarrow> rat res" where
  "delay p attempt =
     (if \<not> (1 \<le> attempt \<and> attempt \<le> MAX_RESTARTS) then Inl ValueError
      else Inr (min (po_initial p * po_multiplier p ^ nat (attempt - 1)) (po_max p)))"

definition retained_restart_attempts :: "nat \<Rightarrow> rat \<Rightarrow> rat \<Rightarrow> nat" where
  "retained_restart_attempts attempts uptime decay_seconds = (if decay_seconds \<le> uptime then 0 else attempts)"

section \<open>Specifications and launches\<close>

record worker_spec =
  sp_id :: string
  sp_argv :: "string list"

definition MAX_SUPERVISED_WORKERS :: nat where "MAX_SUPERVISED_WORKERS = 128"
definition MAX_WORKER_ARGUMENTS :: nat where "MAX_WORKER_ARGUMENTS = 128"
definition MAX_WORKER_ARGUMENT_CHARS :: nat where "MAX_WORKER_ARGUMENT_CHARS = 4096"

definition argument_ok :: "string \<Rightarrow> bool" where
  "argument_ok a = (a \<noteq> [] \<and> CHR 0x00 \<notin> set a \<and> length a \<le> MAX_WORKER_ARGUMENT_CHARS)"

text \<open>\<open>offer_error\<close> is \<^verbatim>\<open>handshake_frame\<close> refusing the offer of a specification.\<close>

fun check_specs :: "(worker_spec \<Rightarrow> exn option) \<Rightarrow> worker_spec list \<Rightarrow> unit res" where
  "check_specs offer_error [] = Inr ()"
| "check_specs offer_error (s # ss) =
     (if sp_argv s = [] \<or> MAX_WORKER_ARGUMENTS < length (sp_argv s) then Inl ValueError
      else if \<not> list_all argument_ok (sp_argv s) then Inl ValueError
      else case offer_error s of Some e \<Rightarrow> Inl e | None \<Rightarrow> check_specs offer_error ss)"

definition validate_specs :: "(worker_spec \<Rightarrow> exn option) \<Rightarrow> worker_spec list \<Rightarrow> worker_spec list res" where
  "validate_specs offer_error specs =
     (if MAX_SUPERVISED_WORKERS < length specs then Inl ValueError
      else let ordered = sort_key sp_id specs
           in if length (remdups (map sp_id ordered)) \<noteq> length ordered then Inl ValueError
              else map_res (\<lambda>_. ordered) (check_specs offer_error ordered))"

record start_error =
  se_detail :: string
  se_pid :: "nat option"
  se_charges :: bool

text \<open>Why a handshake or the wait for readiness failed.\<close>

datatype session_error = TimedOut | ProtocolError string | OtherError string

fun session_failure :: "string \<Rightarrow> session_error \<Rightarrow> string" where
  "session_failure what TimedOut = ''worker '' @ what @ '' timed out''"
| "session_failure what (ProtocolError code) = ''worker '' @ what @ '' rejected: '' @ code"
| "session_failure what (OtherError name) = ''worker '' @ what @ '' failed: '' @ name"

definition with_worker_diagnostics :: "string \<Rightarrow> string \<Rightarrow> string" where
  "with_worker_diagnostics detail output = (if output = [] then detail else detail @ ''; worker stderr: '' @ output)"

text \<open>
  \<open>launch_authenticated\<close>: the launcher's answer, the handshake's, the readiness', and what the
  process left on its diagnostics pipe.  A process that fails either step is force-stopped; a
  timeout of the readiness wait does not charge the restart budget.
\<close>

definition launch_authenticated ::
    "string + nat \<Rightarrow> session_error + nat \<Rightarrow> session_error option \<Rightarrow> string \<Rightarrow> start_error + (nat \<times> nat)" where
  "launch_authenticated launched handshake ready output =
     (case launched of
        Inl name \<Rightarrow> Inl \<lparr>se_detail = ''worker launch failed: '' @ name, se_pid = None, se_charges = True\<rparr>
      | Inr pid \<Rightarrow>
          (case handshake of
             Inl e \<Rightarrow> Inl \<lparr>se_detail = with_worker_diagnostics (session_failure ''handshake'' e) output,
                          se_pid = Some pid, se_charges = True\<rparr>
           | Inr protocol \<Rightarrow>
               (case ready of
                  Some e \<Rightarrow> Inl \<lparr>se_detail = with_worker_diagnostics (session_failure ''startup'' e) output,
                               se_pid = Some pid, se_charges = (e \<noteq> TimedOut)\<rparr>
                | None \<Rightarrow> Inr (pid, protocol))))"

section \<open>The supervisor\<close>

record slot =
  sl_process :: nat
  sl_proto :: nat

text \<open>A recovery task: its plugin, the attempt it is at, and whether it holds a launched process.\<close>

datatype rphase = Deciding | Launching | Holding nat nat

record rtask =
  rt_plugin :: string
  rt_attempt :: nat
  rt_last :: string
  rt_phase :: rphase

record host =
  ho_policy :: recovery_policy
  ho_specs :: "worker_spec dict"
  ho_slots :: "slot dict"
  ho_recoveries :: "nat dict"
  ho_attempts :: "nat dict"
  ho_ready_since :: "rat dict"
  ho_statuses :: "status dict"
  ho_diagnostics :: "diagnostic list dict"
  ho_order :: "string list"
  ho_running :: bool
  ho_tasks :: "(nat \<times> rtask) list"
  ho_next :: nat

definition host_init :: "recovery_policy \<Rightarrow> host" where
  "host_init p = \<lparr>ho_policy = p, ho_specs = [], ho_slots = [], ho_recoveries = [], ho_attempts = [], ho_ready_since = [],
     ho_statuses = [], ho_diagnostics = [], ho_order = [], ho_running = False, ho_tasks = [], ho_next = 0\<rparr>"

definition attempts_of :: "host \<Rightarrow> string \<Rightarrow> nat" where
  "attempts_of h p = (case dget (ho_attempts h) p of None \<Rightarrow> 0 | Some n \<Rightarrow> n)"

definition set_status :: "string \<Rightarrow> status \<Rightarrow> host \<Rightarrow> host" where
  "set_status p st h = h\<lparr>ho_statuses := dset p st (ho_statuses h)\<rparr>"

definition add_diag :: "string \<Rightarrow> diagnostic \<Rightarrow> host \<Rightarrow> host" where
  "add_diag p d h = h\<lparr>ho_diagnostics := (case record_diagnostic p d None (ho_diagnostics h) of Inr j \<Rightarrow> j | Inl _ \<Rightarrow> ho_diagnostics h)\<rparr>"

definition install_ready_slot :: "rat \<Rightarrow> string \<Rightarrow> nat \<Rightarrow> nat \<Rightarrow> nat \<Rightarrow> host \<Rightarrow> host" where
  "install_ready_slot now p pid protocol attempts h =
     h\<lparr>ho_slots := dset p \<lparr>sl_process = pid, sl_proto = protocol\<rparr> (ho_slots h),
       ho_ready_since := dset p now (ho_ready_since h),
       ho_order := (if p \<in> set (ho_order h) then ho_order h else ho_order h @ [p]),
       ho_statuses := dset p
         \<lparr>st_state = Ready, st_pid = Some pid, st_proto = Some protocol,
          st_detail = (if attempts = 0 then ''worker ready''
                       else ''worker recovered after '' @ nat_str attempts @ '' restart attempts''),
          st_attempts = attempts\<rparr> (ho_statuses h)\<rparr>"

text \<open>The lock is held while the launch runs, so \<^verbatim>\<open>STARTING\<close> is replaced before anyone else acts.\<close>

definition start_one :: "rat \<Rightarrow> start_error + (nat \<times> nat) \<Rightarrow> string \<Rightarrow> host \<Rightarrow> host" where
  "start_one now launch p h =
     (let h1 = set_status p \<lparr>st_state = Starting, st_pid = None, st_proto = None,
                             st_detail = ''worker starting'', st_attempts = 0\<rparr> h
      in case launch of
           Inl e \<Rightarrow> set_status p (failed_status (se_pid e) (se_detail e)) h1
         | Inr (pid, protocol) \<Rightarrow> install_ready_slot now p pid protocol 0 h1)"

definition admit_specs :: "(worker_spec \<Rightarrow> exn option) \<Rightarrow> worker_spec list \<Rightarrow> host \<Rightarrow> (worker_spec list \<times> host) res" where
  "admit_specs offer_error specs h =
     bind_res (validate_specs offer_error specs) (\<lambda>ordered.
       if ho_running h then Inl (RuntimeError ''plugin supervisor is already running'')
       else Inr (ordered, h\<lparr>ho_running := True, ho_statuses := [], ho_diagnostics := [], ho_order := [],
              ho_attempts := [], ho_ready_since := [], ho_specs := map (\<lambda>s. (sp_id s, s)) ordered\<rparr>))"

definition host_start ::
    "(worker_spec \<Rightarrow> exn option) \<Rightarrow> (string \<Rightarrow> rat \<times> (start_error + (nat \<times> nat))) \<Rightarrow> worker_spec list \<Rightarrow> host \<Rightarrow> host res" where
  "host_start offer_error launches specs h =
     map_res (\<lambda>(ordered, h1). fold (\<lambda>s. start_one (fst (launches (sp_id s))) (snd (launches (sp_id s))) (sp_id s)) ordered h1)
       (admit_specs offer_error specs h)"

definition idle_status :: "string \<Rightarrow> status" where
  "idle_status detail = \<lparr>st_state = Idle, st_pid = None, st_proto = None, st_detail = detail, st_attempts = 0\<rparr>"

definition host_register :: "(worker_spec \<Rightarrow> exn option) \<Rightarrow> worker_spec list \<Rightarrow> host \<Rightarrow> host res" where
  "host_register offer_error specs h =
     map_res (\<lambda>(ordered, h1). fold (\<lambda>s. set_status (sp_id s) (idle_status IDLE_WORKER_DETAIL)) ordered h1)
       (admit_specs offer_error specs h)"

definition ensure_ready :: "rat \<Rightarrow> start_error + (nat \<times> nat) \<Rightarrow> string \<Rightarrow> host \<Rightarrow> status option \<times> host" where
  "ensure_ready now launch p h =
     (if \<not> ho_running h then (None, h)
      else if dhas (ho_slots h) p \<or> dhas (ho_recoveries h) p then (dget (ho_statuses h) p, h)
      else if \<not> dhas (ho_specs h) p then (dget (ho_statuses h) p, h)
      else let h1 = start_one now launch p (h\<lparr>ho_attempts := dset p 0 (ho_attempts h)\<rparr>)
           in (dget (ho_statuses h1) p, h1))"

text \<open>
  A recovery task that ends, in whatever phase, and its done callback; a process it held is
  force-stopped on the way out.
\<close>

definition end_task :: "nat \<Rightarrow> host \<Rightarrow> host" where
  "end_task t h =
     (case dget (ho_tasks h) t of
        None \<Rightarrow> h
      | Some r \<Rightarrow> h\<lparr>ho_tasks := dpop t (ho_tasks h),
                    ho_recoveries := (if dget (ho_recoveries h) (rt_plugin r) = Some t
                                      then dpop (rt_plugin r) (ho_recoveries h) else ho_recoveries h)\<rparr>)"

text \<open>\<^verbatim>\<open>pop\<close>, cancel and await the recovery of a plugin, as three of the operations do.\<close>

definition cancel_recovery :: "string \<Rightarrow> host \<Rightarrow> host" where
  "cancel_recovery p h =
     (case dget (ho_recoveries h) p of
        None \<Rightarrow> h
      | Some t \<Rightarrow> end_task t (h\<lparr>ho_recoveries := dpop p (ho_recoveries h)\<rparr>))"

definition stop_worker :: "string \<Rightarrow> string \<Rightarrow> host \<Rightarrow> status option \<times> host" where
  "stop_worker p detail h =
     (let h1 = cancel_recovery p h
      in case dget (ho_slots h1) p of
           None \<Rightarrow> (dget (ho_statuses h1) p, h1)
         | Some sl \<Rightarrow>
             (Some (idle_status detail),
              h1\<lparr>ho_slots := dpop p (ho_slots h1), ho_statuses := dset p (idle_status detail) (ho_statuses h1),
                 ho_attempts := dpop p (ho_attempts h1), ho_ready_since := dpop p (ho_ready_since h1)\<rparr>))"

definition revoke :: "string \<Rightarrow> string \<Rightarrow> host \<Rightarrow> status option \<times> host" where
  "revoke p detail h =
     (let h1 = cancel_recovery p h;
          previous = dget (ho_statuses h1) p
      in case dget (ho_slots h1) p of
           None \<Rightarrow>
             (previous, h1\<lparr>ho_attempts := dpop p (ho_attempts h1), ho_ready_since := dpop p (ho_ready_since h1),
                           ho_diagnostics := dpop p (ho_diagnostics h1)\<rparr>)
         | Some sl \<Rightarrow>
             (let st = \<lparr>st_state = Stopped, st_pid = Some (sl_process sl), st_proto = Some (sl_proto sl), st_detail = detail,
                        st_attempts = (case previous of None \<Rightarrow> 0 | Some s \<Rightarrow> st_attempts s)\<rparr>
              in (Some st,
                  h1\<lparr>ho_slots := dpop p (ho_slots h1), ho_statuses := dset p st (ho_statuses h1),
                     ho_attempts := dpop p (ho_attempts h1), ho_ready_since := dpop p (ho_ready_since h1),
                     ho_diagnostics := dpop p (ho_diagnostics h1)\<rparr>)))"

text \<open>
  One plugin of the reverse start-up order; \<open>reaped\<close> says whether its process went away.  (A
  plugin in recovery always has a status, as shown below, so its lookup does not fail.)
\<close>

definition stop_plugin :: "string list \<Rightarrow> (nat \<Rightarrow> bool) \<Rightarrow> string \<Rightarrow> host \<Rightarrow> host" where
  "stop_plugin recovering reaped p h =
     (case dget (ho_slots h) p of
        None \<Rightarrow>
          (case dget (ho_statuses h) p of
             Some previous \<Rightarrow>
               if p \<in> set recovering
               then set_status p (previous\<lparr>st_state := Stopped, st_detail := ''worker recovery stopped''\<rparr>) h else h
           | None \<Rightarrow> h)
      | Some sl \<Rightarrow>
          (let detail = (if reaped (sl_process sl) then ''worker stopped'' else ''worker survived kill'');
               h1 = h\<lparr>ho_slots := dpop p (ho_slots h)\<rparr>;
               h2 = (if reaped (sl_process sl) then h1
                     else add_diag p \<lparr>dg_code = StopFailed, dg_detail = detail, dg_pid = Some (sl_process sl),
                                  dg_returncode = None, dg_attempt = 0\<rparr> h1)
           in set_status p \<lparr>st_state = Stopped, st_pid = Some (sl_process sl), st_proto = Some (sl_proto sl),
                            st_detail = detail, st_attempts = attempts_of h p\<rparr> h2))"

definition host_stop :: "(nat \<Rightarrow> bool) \<Rightarrow> host \<Rightarrow> host" where
  "host_stop reaped h =
     (if \<not> ho_running h then h
      else let recovering = dkeys (ho_recoveries h);
               h1 = fold end_task (dvals (ho_recoveries h)) (h\<lparr>ho_running := False, ho_recoveries := []\<rparr>);
               h2 = fold (stop_plugin recovering reaped) (rev (ho_order h1)) h1
           in h2\<lparr>ho_order := [], ho_attempts := [], ho_ready_since := [], ho_specs := []\<rparr>)"

section \<open>Exit and recovery\<close>

definition mark_exhausted :: "string \<Rightarrow> string \<Rightarrow> host \<Rightarrow> host" where
  "mark_exhausted p last_detail h =
     (let previous = dget (ho_statuses h) p;
          attempts = attempts_of h p;
          detail = ''worker restart budget exhausted after '' @ nat_str attempts @ '' attempts: '' @ last_detail;
          pid = (case previous of None \<Rightarrow> None | Some s \<Rightarrow> st_pid s);
          protocol = (case previous of None \<Rightarrow> None | Some s \<Rightarrow> st_proto s);
          h1 = set_status p \<lparr>st_state = Exhausted, st_pid = pid, st_proto = protocol, st_detail = detail,
                             st_attempts = attempts\<rparr> h;
          h2 = add_diag p \<lparr>dg_code = BudgetExhausted, dg_detail = detail, dg_pid = pid, dg_returncode = None,
                           dg_attempt = attempts\<rparr> h1
      in h2\<lparr>ho_recoveries := dpop p (ho_recoveries h2)\<rparr>)"

text \<open>
  \<^verbatim>\<open>monitor_worker\<close> once the process has exited with \<open>returncode\<close>.  \<^verbatim>\<open>_ready_since.pop\<close> has no default:
  a missing entry would raise.
\<close>

definition monitor_worker :: "rat \<Rightarrow> int \<Rightarrow> string \<Rightarrow> nat \<Rightarrow> host \<Rightarrow> host res" where
  "monitor_worker now returncode p process h =
     (case dget (ho_slots h) p of
        None \<Rightarrow> Inr h
      | Some sl \<Rightarrow>
          if sl_process sl \<noteq> process then Inr h
          else case dget (ho_ready_since h) p of
                 None \<Rightarrow> Inl KeyError
               | Some ready_since \<Rightarrow>
                   (let attempts = retained_restart_attempts (attempts_of h p) (now - ready_since) (po_decay (ho_policy h));
                        detail = (if returncode = 0 then ''worker exited'' else ''worker exited with status '' @ int_str returncode);
                        h1 = h\<lparr>ho_slots := dpop p (ho_slots h), ho_ready_since := dpop p (ho_ready_since h),
                               ho_attempts := dset p attempts (ho_attempts h)\<rparr>;
                        h2 = set_status p \<lparr>st_state = (if returncode = 0 then Exited else WFailed), st_pid = Some process,
                               st_proto = Some (sl_proto sl), st_detail = detail, st_attempts = attempts\<rparr> h1;
                        h3 = add_diag p \<lparr>dg_code = DExited, dg_detail = detail, dg_pid = Some process,
                               dg_returncode = Some returncode, dg_attempt = attempts\<rparr> h2
                    in if ho_running h \<and> po_max_restarts (ho_policy h) \<noteq> 0 \<and> attempts < po_max_restarts (ho_policy h)
                       then Inr (h3\<lparr>ho_recoveries := dset p (ho_next h) (ho_recoveries h3),
                                    ho_tasks := dset (ho_next h) \<lparr>rt_plugin = p, rt_attempt = Suc attempts, rt_last = detail,
                                                               rt_phase = Deciding\<rparr> (ho_tasks h3),
                                    ho_next := Suc (ho_next h)\<rparr>)
                       else if ho_running h \<and> po_max_restarts (ho_policy h) \<noteq> 0
                       then Inr (mark_exhausted p detail h3)
                       else Inr h3))"

definition put_task :: "nat \<Rightarrow> rtask \<Rightarrow> host \<Rightarrow> host" where
  "put_task t r h = h\<lparr>ho_tasks := dset t r (ho_tasks h)\<rparr>"

text \<open>
  The head of the loop of \<^verbatim>\<open>recover_worker\<close>, and its end when the range is spent.  After the locked
  section the task sleeps for the delay of its attempt and launches.
\<close>

definition recover_decide :: "nat \<Rightarrow> rtask \<Rightarrow> host \<Rightarrow> host res" where
  "recover_decide t r h =
     (let p = rt_plugin r; attempt = rt_attempt r
      in if po_max_restarts (ho_policy h) < attempt
         then (if dget (ho_recoveries h) p \<noteq> Some t then Inr (end_task t h)
               else Inr (end_task t (mark_exhausted p (rt_last r) h)))
         else if \<not> ho_running h \<or> dget (ho_recoveries h) p \<noteq> Some t then Inr (end_task t h)
         else case dget (ho_statuses h) p of
                None \<Rightarrow> Inl KeyError
              | Some previous \<Rightarrow>
                  Inr (put_task t (r\<lparr>rt_phase := Launching\<rparr>)
                    ((set_status p \<lparr>st_state = Restarting, st_pid = st_pid previous, st_proto = st_proto previous,
                        st_detail = ''worker restart attempt '' @ nat_str attempt, st_attempts = attempt\<rparr> h)
                     \<lparr>ho_attempts := dset p attempt (ho_attempts h)\<rparr>)))"

definition fail_startup :: "nat \<Rightarrow> string \<Rightarrow> start_error \<Rightarrow> nat \<Rightarrow> host \<Rightarrow> host res" where
  "fail_startup t p e attempt h =
     (if dget (ho_recoveries h) p \<noteq> Some t then Inr h
      else case dget (ho_statuses h) p of
             None \<Rightarrow> Inl KeyError
           | Some previous \<Rightarrow>
               Inr ((set_status p \<lparr>st_state = WFailed, st_pid = se_pid e, st_proto = st_proto previous,
                       st_detail = se_detail e, st_attempts = attempt - 1\<rparr> h)
                    \<lparr>ho_attempts := dset p (attempt - 1) (ho_attempts h), ho_recoveries := dpop p (ho_recoveries h)\<rparr>))"

text \<open>The launch of an attempt has ended.\<close>

definition recover_launched :: "nat \<Rightarrow> rtask \<Rightarrow> start_error + (nat \<times> nat) \<Rightarrow> host \<Rightarrow> host res" where
  "recover_launched t r launch h =
     (case launch of
        Inl e \<Rightarrow>
          (let p = rt_plugin r;
               h1 = add_diag p \<lparr>dg_code = (if se_charges e then RestartFailed else StartupTimeout), dg_detail = se_detail e,
                               dg_pid = se_pid e, dg_returncode = None, dg_attempt = rt_attempt r\<rparr> h
           in if \<not> se_charges e then map_res (end_task t) (fail_startup t p e (rt_attempt r) h1)
              else Inr (put_task t (r\<lparr>rt_attempt := Suc (rt_attempt r), rt_last := se_detail e, rt_phase := Deciding\<rparr>) h1))
      | Inr (pid, protocol) \<Rightarrow> Inr (put_task t (r\<lparr>rt_phase := Holding pid protocol\<rparr>) h))"

definition recover_install :: "rat \<Rightarrow> nat \<Rightarrow> rtask \<Rightarrow> nat \<Rightarrow> nat \<Rightarrow> host \<Rightarrow> host" where
  "recover_install now t r pid protocol h =
     (let p = rt_plugin r; attempt = rt_attempt r
      in if \<not> ho_running h \<or> dget (ho_recoveries h) p \<noteq> Some t then end_task t h
         else let h1 = install_ready_slot now p pid protocol attempt h;
                  h2 = add_diag p \<lparr>dg_code = Recovered,
                         dg_detail = ''worker recovered after '' @ nat_str attempt @ '' restart attempts'',
                         dg_pid = Some pid, dg_returncode = None, dg_attempt = attempt\<rparr> h1
              in end_task t (h2\<lparr>ho_recoveries := dpop p (ho_recoveries h2)\<rparr>))"

text \<open>A step of a recovery task.  \<open>ev\<close> is the launch outcome it was waiting for, \<open>now\<close> the time.\<close>

definition recover_step :: "rat \<Rightarrow> start_error + (nat \<times> nat) \<Rightarrow> nat \<Rightarrow> host \<Rightarrow> host res" where
  "recover_step now ev t h =
     (case dget (ho_tasks h) t of
        None \<Rightarrow> Inr h
      | Some r \<Rightarrow>
          (case rt_phase r of
             Deciding \<Rightarrow> recover_decide t r h
           | Launching \<Rightarrow> recover_launched t r ev h
           | Holding pid protocol \<Rightarrow> Inr (recover_install now t r pid protocol h)))"

section \<open>Reachable states\<close>

inductive host_step :: "host \<Rightarrow> host \<Rightarrow> bool" where
  start: "host_start offer_error launches specs h = Inr h' \<Longrightarrow> host_step h h'"
| register: "host_register offer_error specs h = Inr h' \<Longrightarrow> host_step h h'"
| ready: "ensure_ready now launch p h = (st, h') \<Longrightarrow> host_step h h'"
| stop_one: "stop_worker p detail h = (st, h') \<Longrightarrow> host_step h h'"
| withdraw: "revoke p detail h = (st, h') \<Longrightarrow> host_step h h'"
| stop: "host_step h (host_stop reaped h)"
| exit: "monitor_worker now returncode p process h = Inr h' \<Longrightarrow> host_step h h'"
| recover: "recover_step now ev t h = Inr h' \<Longrightarrow> host_step h h'"

inductive host_reachable :: "recovery_policy \<Rightarrow> host \<Rightarrow> bool" for policy where
  init: "policy_init a b c d e = Inr policy \<Longrightarrow> host_reachable policy (host_init policy)"
| step: "host_reachable policy h \<Longrightarrow> host_step h h' \<Longrightarrow> host_reachable policy h'"

section \<open>The invariant\<close>

definition limit_of :: "host \<Rightarrow> nat" where
  "limit_of h = po_max_restarts (ho_policy h)"

text \<open>A plugin is served by a slot, or recovering, or neither, and its status says which.\<close>

definition plugin_inv :: "host \<Rightarrow> string \<Rightarrow> bool" where
  "plugin_inv h p \<longleftrightarrow>
     (case dget (ho_slots h) p of
        Some sl \<Rightarrow> dhas (ho_ready_since h) p \<and> dget (ho_recoveries h) p = None \<and> p \<in> set (ho_order h) \<and>
                   (\<exists>st. dget (ho_statuses h) p = Some st \<and> st_state st = Ready \<and> st_pid st = Some (sl_process sl))
      | None \<Rightarrow> (\<forall>st. dget (ho_statuses h) p = Some st \<longrightarrow> st_state st \<noteq> Ready)) \<and>
     (\<forall>t. dget (ho_recoveries h) p = Some t \<longrightarrow>
        p \<in> set (ho_order h) \<and> dhas (ho_statuses h) p \<and> (\<exists>r. dget (ho_tasks h) t = Some r \<and> rt_plugin r = p)) \<and>
     attempts_of h p \<le> limit_of h \<and> (\<forall>st. dget (ho_statuses h) p = Some st \<longrightarrow> st_attempts st \<le> limit_of h)"

definition task_inv :: "host \<Rightarrow> nat \<Rightarrow> bool" where
  "task_inv h t \<longleftrightarrow>
     (\<forall>r. dget (ho_tasks h) t = Some r \<longrightarrow>
        dget (ho_recoveries h) (rt_plugin r) = Some t \<and> t < ho_next h \<and> 1 \<le> rt_attempt r \<and>
        rt_attempt r \<le> Suc (limit_of h) \<and> (rt_phase r \<noteq> Deciding \<longrightarrow> rt_attempt r \<le> limit_of h))"

definition host_inv :: "host \<Rightarrow> bool" where
  "host_inv h \<longleftrightarrow> (\<forall>p. plugin_inv h p) \<and> (\<forall>t. task_inv h t) \<and>
     (\<not> ho_running h \<longrightarrow> ho_slots h = [] \<and> ho_recoveries h = [])"

lemma add_diag_frame [simp]:
  "ho_policy (add_diag p d h) = ho_policy h" "ho_specs (add_diag p d h) = ho_specs h" "ho_slots (add_diag p d h) = ho_slots h"
  "ho_recoveries (add_diag p d h) = ho_recoveries h" "ho_attempts (add_diag p d h) = ho_attempts h"
  "ho_ready_since (add_diag p d h) = ho_ready_since h" "ho_statuses (add_diag p d h) = ho_statuses h"
  "ho_order (add_diag p d h) = ho_order h" "ho_running (add_diag p d h) = ho_running h"
  "ho_tasks (add_diag p d h) = ho_tasks h" "ho_next (add_diag p d h) = ho_next h"
  by (simp_all add: add_diag_def)

lemma host_inv_diag [simp]: "host_inv (h\<lparr>ho_diagnostics := d\<rparr>) = host_inv h"
proof -
  have "plugin_inv (h\<lparr>ho_diagnostics := d\<rparr>) p = plugin_inv h p" for p
    by (cases "dget (ho_slots h) p") (simp_all add: plugin_inv_def attempts_of_def limit_of_def)
  moreover have "task_inv (h\<lparr>ho_diagnostics := d\<rparr>) t = task_inv h t" for t
    by (simp add: task_inv_def limit_of_def)
  ultimately show ?thesis by (simp add: host_inv_def)
qed

lemma host_inv_add_diag [simp]: "host_inv (add_diag p d h) = host_inv h"
  by (simp add: add_diag_def)

lemma add_diag_recoveries: "(add_diag p d h)\<lparr>ho_recoveries := r\<rparr> = add_diag p d (h\<lparr>ho_recoveries := r\<rparr>)"
  by (simp add: add_diag_def cong: sum.case_cong)

lemma host_init_inv: "host_inv (host_init policy)"
  by (simp add: host_inv_def host_init_def plugin_inv_def task_inv_def attempts_of_def)

text \<open>Starting a plugin that has neither a slot nor a recovery.\<close>

lemma start_one_frame:
  assumes "dget (ho_slots h) p = None" and "dget (ho_recoveries h) p = None"
  shows "ho_recoveries (start_one now launch p h) = ho_recoveries h" "ho_running (start_one now launch p h) = ho_running h"
    "ho_tasks (start_one now launch p h) = ho_tasks h" "ho_specs (start_one now launch p h) = ho_specs h"
    "q \<noteq> p \<Longrightarrow> dget (ho_slots (start_one now launch p h)) q = dget (ho_slots h) q"
    "host_inv h \<Longrightarrow> ho_running h \<Longrightarrow> host_inv (start_one now launch p h)"
proof -
  show "ho_recoveries (start_one now launch p h) = ho_recoveries h" "ho_running (start_one now launch p h) = ho_running h"
    "ho_tasks (start_one now launch p h) = ho_tasks h" "ho_specs (start_one now launch p h) = ho_specs h"
    "q \<noteq> p \<Longrightarrow> dget (ho_slots (start_one now launch p h)) q = dget (ho_slots h) q"
    by (auto simp: start_one_def Let_def set_status_def install_ready_slot_def split: sum.splits)
  assume inv: "host_inv h" "ho_running h"
  have pl: "plugin_inv h q" "task_inv h t" for q t using inv by (simp_all add: host_inv_def)
  show "host_inv (start_one now launch p h)"
  proof (cases launch)
    case (Inl e)
    have "plugin_inv (start_one now launch p h) q" for q
      using pl(1) [of q] assms
      by (cases "q = p") (auto simp: Inl start_one_def Let_def set_status_def plugin_inv_def failed_status_def attempts_of_def limit_of_def dhas_iff split: option.splits)
    moreover have "task_inv (start_one now launch p h) t" for t
      using pl(2) [of t] by (auto simp: Inl start_one_def Let_def set_status_def task_inv_def limit_of_def)
    ultimately show ?thesis using inv(2) by (simp add: host_inv_def Inl start_one_def Let_def set_status_def)
  next
    case (Inr x)
    obtain pid pr where x: "x = (pid, pr)" by force
    have "plugin_inv (start_one now launch p h) q" for q
      using pl(1) [of q] assms
      by (cases "q = p") (auto simp: Inr x start_one_def Let_def set_status_def install_ready_slot_def plugin_inv_def attempts_of_def limit_of_def dhas_iff split: option.splits)
    moreover have "task_inv (start_one now launch p h) t" for t
      using pl(2) [of t] by (auto simp: Inr x start_one_def Let_def set_status_def install_ready_slot_def task_inv_def limit_of_def)
    ultimately show ?thesis using inv(2) by (simp add: host_inv_def Inr x start_one_def Let_def set_status_def install_ready_slot_def)
  qed
qed

text \<open>An operation on one plugin keeps the invariant when it keeps it for that plugin and its tasks.\<close>

lemma inv_local:
  assumes "host_inv h" and "ho_policy h' = ho_policy h" and "ho_next h \<le> ho_next h'" and "set (ho_order h) \<subseteq> set (ho_order h')"
    and "ho_running h'"
    and same: "\<And>q. q \<noteq> p \<Longrightarrow> dget (ho_slots h') q = dget (ho_slots h) q \<and> dget (ho_ready_since h') q = dget (ho_ready_since h) q \<and>
      dget (ho_statuses h') q = dget (ho_statuses h) q \<and> dget (ho_attempts h') q = dget (ho_attempts h) q \<and>
      dget (ho_recoveries h') q = dget (ho_recoveries h) q"
    and tasks: "\<And>t r. rt_plugin r \<noteq> p \<Longrightarrow> dget (ho_tasks h') t = Some r \<longleftrightarrow> dget (ho_tasks h) t = Some r"
    and own: "plugin_inv h' p" "\<And>t r. dget (ho_tasks h') t = Some r \<Longrightarrow> rt_plugin r = p \<Longrightarrow> task_inv h' t"
  shows "host_inv h'"
proof -
  have old: "plugin_inv h q" "task_inv h t" for q t using assms(1) by (simp_all add: host_inv_def)
  have lim: "limit_of h' = limit_of h" using assms(2) by (simp add: limit_of_def)
  have "plugin_inv h' q" for q
  proof (cases "q = p")
    case False
    have "p \<noteq> q" using False by simp
    then have "(\<exists>r. dget (ho_tasks h') t = Some r \<and> rt_plugin r = q) \<longleftrightarrow> (\<exists>r. dget (ho_tasks h) t = Some r \<and> rt_plugin r = q)" for t
      using tasks by metis
    then show ?thesis
      using old(1) [of q] same [OF False] assms(4) lim
      by (cases "dget (ho_slots h) q") (auto simp: plugin_inv_def attempts_of_def dhas_iff)
  qed (use own in simp)
  moreover have "task_inv h' t" for t
  proof (cases "dget (ho_tasks h') t")
    case (Some r)
    show ?thesis
    proof (cases "rt_plugin r = p")
      case False
      then have "dget (ho_tasks h) t = Some r" using Some tasks by blast
      then show ?thesis using old(2) [of t] same [OF False] assms(3) lim Some by (auto simp: task_inv_def)
    qed (use own Some in blast)
  qed (simp add: task_inv_def)
  ultimately show ?thesis using assms(5) by (simp add: host_inv_def)
qed

lemma inv_recovery:
  assumes "host_inv h" and "dget (ho_recoveries h) p = Some t"
  shows "\<exists>r. dget (ho_tasks h) t = Some r \<and> rt_plugin r = p" "dget (ho_slots h) p = None" "ho_running h"
    "p \<in> set (ho_order h)" "\<exists>st. dget (ho_statuses h) p = Some st \<and> st_state st \<noteq> Ready \<and> st_attempts st \<le> limit_of h"
    "attempts_of h p \<le> limit_of h"
proof -
  have "plugin_inv h p" using assms(1) by (simp add: host_inv_def)
  then show "\<exists>r. dget (ho_tasks h) t = Some r \<and> rt_plugin r = p" "dget (ho_slots h) p = None"
    "p \<in> set (ho_order h)" "\<exists>st. dget (ho_statuses h) p = Some st \<and> st_state st \<noteq> Ready \<and> st_attempts st \<le> limit_of h"
    "attempts_of h p \<le> limit_of h"
    using assms(2) by (auto simp: plugin_inv_def dhas_iff split: option.splits)
  show "ho_running h"
    using assms by (cases "ho_running h") (auto simp: host_inv_def)
qed

lemma inv_task:
  assumes "host_inv h" and "dget (ho_tasks h) t = Some r"
  shows "dget (ho_recoveries h) (rt_plugin r) = Some t" "t < ho_next h" "1 \<le> rt_attempt r" "rt_attempt r \<le> Suc (limit_of h)"
    "rt_phase r \<noteq> Deciding \<Longrightarrow> rt_attempt r \<le> limit_of h"
  using assms by (auto simp: host_inv_def task_inv_def)

text \<open>Only one task belongs to a plugin.\<close>

lemma inv_task_unique:
  assumes "host_inv h" and "dget (ho_tasks h) t = Some r" and "dget (ho_tasks h) u = Some r'" and "rt_plugin r = rt_plugin r'"
  shows "t = u"
  using inv_task(1) [OF assms(1,2)] inv_task(1) [OF assms(1,3)] assms(4) by simp

definition drop_recovery :: "string \<Rightarrow> nat \<Rightarrow> host \<Rightarrow> host" where
  "drop_recovery p t h = h\<lparr>ho_recoveries := dpop p (ho_recoveries h), ho_tasks := dpop t (ho_tasks h)\<rparr>"

lemma cancel_recovery_eq:
  assumes "host_inv h"
  shows "cancel_recovery p h = (case dget (ho_recoveries h) p of None \<Rightarrow> h | Some t \<Rightarrow> drop_recovery p t h)"
proof (cases "dget (ho_recoveries h) p")
  case (Some t)
  from inv_recovery(1) [OF assms Some] show ?thesis
    using Some by (auto simp: cancel_recovery_def end_task_def drop_recovery_def)
qed (simp add: cancel_recovery_def)

lemma drop_recovery_inv:
  assumes "host_inv h" and "dget (ho_recoveries h) p = Some t"
  shows "host_inv (drop_recovery p t h)"
proof (rule inv_local [OF assms(1), where p = p])
  note r = inv_recovery [OF assms]
  obtain r0 where r0: "dget (ho_tasks h) t = Some r0" "rt_plugin r0 = p" using r(1) by blast
  show "ho_running (drop_recovery p t h)" using r(3) by (simp add: drop_recovery_def)
  show "plugin_inv (drop_recovery p t h) p"
    using r by (auto simp: plugin_inv_def drop_recovery_def attempts_of_def limit_of_def)
  show "\<And>u r. rt_plugin r \<noteq> p \<Longrightarrow> dget (ho_tasks (drop_recovery p t h)) u = Some r \<longleftrightarrow> dget (ho_tasks h) u = Some r"
    using r0 by (auto simp: drop_recovery_def)
  fix u r assume "dget (ho_tasks (drop_recovery p t h)) u = Some r" "rt_plugin r = p"
  then show "task_inv (drop_recovery p t h) u"
    using inv_task_unique [OF assms(1), of u r t r0] r0 by (auto simp: drop_recovery_def split: if_splits)
qed (auto simp: drop_recovery_def)

lemma cancel_recovery_inv:
  assumes "host_inv h"
  shows "host_inv (cancel_recovery p h)" "dget (ho_recoveries (cancel_recovery p h)) p = None"
    "ho_slots (cancel_recovery p h) = ho_slots h" "ho_running (cancel_recovery p h) = ho_running h"
    "ho_specs (cancel_recovery p h) = ho_specs h" "ho_statuses (cancel_recovery p h) = ho_statuses h"
  using assms drop_recovery_inv [OF assms]
  by (auto simp: cancel_recovery_eq [OF assms] drop_recovery_def split: option.splits)

lemma inv_slot:
  assumes "host_inv h" and "dget (ho_slots h) p = Some sl"
  shows "dget (ho_recoveries h) p = None" "ho_running h" "p \<in> set (ho_order h)" "dhas (ho_ready_since h) p"
    "\<exists>st. dget (ho_statuses h) p = Some st \<and> st_state st = Ready \<and> st_pid st = Some (sl_process sl) \<and> st_attempts st \<le> limit_of h"
    "attempts_of h p \<le> limit_of h" "dget (ho_tasks h) t = Some r \<Longrightarrow> rt_plugin r \<noteq> p"
proof -
  have i: "plugin_inv h p" using assms(1) by (simp add: host_inv_def)
  then show rec: "dget (ho_recoveries h) p = None" and "p \<in> set (ho_order h)" "dhas (ho_ready_since h) p"
    "\<exists>st. dget (ho_statuses h) p = Some st \<and> st_state st = Ready \<and> st_pid st = Some (sl_process sl) \<and> st_attempts st \<le> limit_of h"
    "attempts_of h p \<le> limit_of h"
    using assms(2) by (auto simp: plugin_inv_def)
  show "ho_running h" using assms by (cases "ho_running h") (auto simp: host_inv_def)
  show "rt_plugin r \<noteq> p" if "dget (ho_tasks h) t = Some r" using inv_task(1) [OF assms(1) that] rec by auto
qed

text \<open>A slot is taken out and its status replaced; nothing else of the plugin is left running.\<close>

lemma remove_slot_inv:
  assumes "host_inv h" and "dget (ho_slots h) p = Some sl" and "st_state st \<noteq> Ready" and "st_attempts st \<le> limit_of h"
    and "n \<le> limit_of h" and "a = dpop p (ho_attempts h) \<or> a = dset p n (ho_attempts h)"
  shows "host_inv (h\<lparr>ho_slots := dpop p (ho_slots h), ho_statuses := dset p st (ho_statuses h), ho_attempts := a,
           ho_ready_since := dpop p (ho_ready_since h)\<rparr>)" (is "host_inv ?h")
proof (rule inv_local [OF assms(1), where p = p])
  note sl = inv_slot [OF assms(1,2)]
  have "attempts_of ?h p \<le> limit_of h" using assms(5,6) by (auto simp: attempts_of_def)
  moreover have "limit_of ?h = limit_of h" by (simp add: limit_of_def)
  ultimately show "plugin_inv ?h p" using sl(1) assms(3,4) by (simp add: plugin_inv_def)
  show "ho_running ?h" using sl(2) by simp
  fix t r assume "dget (ho_tasks ?h) t = Some r" "rt_plugin r = p"
  with sl(7) show "task_inv ?h t" by auto
next
  fix q assume "q \<noteq> p"
  then show "dget (ho_slots ?h) q = dget (ho_slots h) q \<and> dget (ho_ready_since ?h) q = dget (ho_ready_since h) q \<and>
      dget (ho_statuses ?h) q = dget (ho_statuses h) q \<and> dget (ho_attempts ?h) q = dget (ho_attempts h) q \<and>
      dget (ho_recoveries ?h) q = dget (ho_recoveries h) q" using assms(6) by auto
qed auto

lemma stop_worker_inv: "host_inv h \<Longrightarrow> host_inv (snd (stop_worker p detail h))"
proof -
  assume inv: "host_inv h"
  let ?h = "cancel_recovery p h"
  note c = cancel_recovery_inv [OF inv, of p]
  show ?thesis
  proof (cases "dget (ho_slots ?h) p")
    case None
    then show ?thesis using c(1) by (simp add: stop_worker_def Let_def)
  next
    case (Some sl)
    from remove_slot_inv [OF c(1) Some, of "idle_status detail" 0 "dpop p (ho_attempts ?h)"] Some
    show ?thesis by (simp add: stop_worker_def Let_def idle_status_def)
  qed
qed

lemma forget_attempts_inv:
  assumes "host_inv h" and "dget (ho_slots h) p = None" and "ho_running h \<or> ho_recoveries h = []"
  shows "host_inv (h\<lparr>ho_attempts := dpop p (ho_attempts h), ho_ready_since := dpop p (ho_ready_since h)\<rparr>)" (is "host_inv ?h")
proof (cases "ho_running h")
  case True
  show ?thesis
  proof (rule inv_local [OF assms(1), where p = p])
    have "plugin_inv h p" using assms(1) by (simp add: host_inv_def)
    then show "plugin_inv ?h p" using assms(2) by (auto simp: plugin_inv_def attempts_of_def limit_of_def)
    show "ho_running ?h" using True by simp
    fix t r assume "dget (ho_tasks ?h) t = Some r" "rt_plugin r = p"
    then show "task_inv ?h t" using assms(1) by (auto simp: host_inv_def task_inv_def limit_of_def)
  qed auto
next
  case False
  then have "ho_slots h = []" "ho_recoveries h = []" using assms(1) by (auto simp: host_inv_def)
  moreover have "plugin_inv ?h q" for q
    using assms(1) calculation by (auto simp: host_inv_def plugin_inv_def attempts_of_def limit_of_def dest: spec [of _ q])
  moreover have "task_inv ?h t" for t using assms(1) by (auto simp: host_inv_def task_inv_def limit_of_def)
  ultimately show ?thesis by (simp add: host_inv_def)
qed

lemma revoke_inv: "host_inv h \<Longrightarrow> host_inv (snd (revoke p detail h))"
proof -
  assume inv: "host_inv h"
  let ?h = "cancel_recovery p h"
  note c = cancel_recovery_inv [OF inv, of p]
  have run: "ho_running ?h \<or> ho_recoveries ?h = []" using c(1) by (auto simp: host_inv_def)
  show ?thesis
  proof (cases "dget (ho_slots ?h) p")
    case None
    then show ?thesis using forget_attempts_inv [OF c(1) None run] by (simp add: revoke_def Let_def)
  next
    case (Some sl)
    note st = inv_slot(5) [OF c(1) Some]
    let ?st = "\<lparr>st_state = Stopped, st_pid = Some (sl_process sl), st_proto = Some (sl_proto sl), st_detail = detail,
        st_attempts = (case dget (ho_statuses ?h) p of None \<Rightarrow> 0 | Some s \<Rightarrow> st_attempts s)\<rparr>"
    have "st_attempts ?st \<le> limit_of ?h" using st by auto
    from remove_slot_inv [OF c(1) Some _ this, of 0 "dpop p (ho_attempts ?h)"] Some
    show ?thesis by (simp add: revoke_def Let_def)
  qed
qed

lemma ensure_ready_inv: "host_inv h \<Longrightarrow> host_inv (snd (ensure_ready now launch p h))"
proof (cases "ho_running h \<and> \<not> dhas (ho_slots h) p \<and> \<not> dhas (ho_recoveries h) p \<and> dhas (ho_specs h) p")
  case True
  assume inv: "host_inv h"
  let ?h = "h\<lparr>ho_attempts := dset p 0 (ho_attempts h)\<rparr>"
  have none: "dget (ho_slots ?h) p = None" "dget (ho_recoveries ?h) p = None" using True by (simp_all add: dget_None_iff)
  have "host_inv ?h"
  proof (rule inv_local [OF inv, where p = p])
    have "plugin_inv h p" using inv by (simp add: host_inv_def)
    then show "plugin_inv ?h p" using none by (auto simp: plugin_inv_def attempts_of_def limit_of_def)
    fix t r assume "dget (ho_tasks ?h) t = Some r" "rt_plugin r = p"
    then show "task_inv ?h t" using inv by (auto simp: host_inv_def task_inv_def limit_of_def)
  qed (use True in auto)
  from start_one_frame(6) [OF none this] True show ?thesis by (simp add: ensure_ready_def Let_def)
qed (auto simp: ensure_ready_def)

text \<open>A new status for a plugin that has neither a slot nor a recovery.\<close>

lemma set_status_inv:
  assumes "host_inv h" and "ho_running h" and "dget (ho_slots h) p = None" and "dget (ho_recoveries h) p = None"
    and "st_state st \<noteq> Ready" and "st_attempts st \<le> limit_of h" and "a \<le> limit_of h"
    and "ats = ho_attempts h \<or> ats = dset p a (ho_attempts h)"
  shows "host_inv (h\<lparr>ho_statuses := dset p st (ho_statuses h), ho_attempts := ats\<rparr>)" (is "host_inv ?h")
proof (rule inv_local [OF assms(1), where p = p])
  have "plugin_inv h p" using assms(1) by (simp add: host_inv_def)
  then have "attempts_of ?h p \<le> limit_of h" using assms(7,8) by (auto simp: plugin_inv_def attempts_of_def)
  then show "plugin_inv ?h p" using assms(3-6) by (simp add: plugin_inv_def limit_of_def)
  fix t r assume "dget (ho_tasks ?h) t = Some r" "rt_plugin r = p"
  then show "task_inv ?h t" using assms(1) by (auto simp: host_inv_def task_inv_def limit_of_def)
next
  fix q assume "q \<noteq> p"
  then show "dget (ho_slots ?h) q = dget (ho_slots h) q \<and> dget (ho_ready_since ?h) q = dget (ho_ready_since h) q \<and>
      dget (ho_statuses ?h) q = dget (ho_statuses h) q \<and> dget (ho_attempts ?h) q = dget (ho_attempts h) q \<and>
      dget (ho_recoveries ?h) q = dget (ho_recoveries h) q" using assms(8) by auto
qed (use assms(2) in auto)

lemma mark_exhausted_inv:
  assumes "host_inv h" and "ho_running h" and "dget (ho_slots h) p = None" and "dget (ho_recoveries h) p = None"
  shows "host_inv (mark_exhausted p d h)"
proof -
  define st where "st = \<lparr>st_state = Exhausted, st_pid = (case dget (ho_statuses h) p of None \<Rightarrow> None | Some s \<Rightarrow> st_pid s),
    st_proto = (case dget (ho_statuses h) p of None \<Rightarrow> None | Some s \<Rightarrow> st_proto s),
    st_detail = ''worker restart budget exhausted after '' @ nat_str (attempts_of h p) @ '' attempts: '' @ d,
    st_attempts = attempts_of h p\<rparr>"
  have "attempts_of h p \<le> limit_of h" using assms(1) by (auto simp: host_inv_def plugin_inv_def)
  then have i: "host_inv (h\<lparr>ho_statuses := dset p st (ho_statuses h), ho_attempts := ho_attempts h\<rparr>)"
    by (intro set_status_inv [OF assms, where a = 0]) (simp_all add: st_def)
  have pop: "dpop p (ho_recoveries h) = ho_recoveries h" using assms(4) by (intro dpop_absent) (simp add: dhas_iff)
  have "\<exists>dg. mark_exhausted p d h = add_diag p dg (h\<lparr>ho_statuses := dset p st (ho_statuses h), ho_recoveries := dpop p (ho_recoveries h)\<rparr>)"
    unfolding mark_exhausted_def Let_def set_status_def st_def [symmetric] add_diag_recoveries add_diag_frame by auto
  then obtain dg where "mark_exhausted p d h = add_diag p dg (h\<lparr>ho_statuses := dset p st (ho_statuses h)\<rparr>)" by (auto simp: pop)
  with i show ?thesis by simp
qed

lemma monitor_worker_ok:
  assumes "host_inv h" and "dget (ho_slots h) p = Some sl"
  shows "\<exists>h'. monitor_worker now rc p (sl_process sl) h = Inr h' \<and> host_inv h' \<and> dget (ho_slots h') p = None"
proof -
  note sl = inv_slot [OF assms]
  obtain since where since: "dget (ho_ready_since h) p = Some since" using sl(4) by (auto simp: dhas_iff)
  define a where "a = retained_restart_attempts (attempts_of h p) (now - since) (po_decay (ho_policy h))"
  define detail where "detail = (if rc = 0 then ''worker exited'' else ''worker exited with status '' @ int_str rc)"
  define st where "st = \<lparr>st_state = (if rc = 0 then Exited else WFailed), st_pid = Some (sl_process sl),
     st_proto = Some (sl_proto sl), st_detail = detail, st_attempts = a\<rparr>"
  define h2 where "h2 = set_status p st (h\<lparr>ho_slots := dpop p (ho_slots h), ho_ready_since := dpop p (ho_ready_since h),
     ho_attempts := dset p a (ho_attempts h)\<rparr>)"
  have h2: "h2 = h\<lparr>ho_slots := dpop p (ho_slots h), ho_statuses := dset p st (ho_statuses h),
     ho_attempts := dset p a (ho_attempts h), ho_ready_since := dpop p (ho_ready_since h)\<rparr>"
    by (cases h) (simp add: h2_def set_status_def)
  define h3 where "h3 = add_diag p \<lparr>dg_code = DExited, dg_detail = detail, dg_pid = Some (sl_process sl),
     dg_returncode = Some rc, dg_attempt = a\<rparr> h2"
  have al: "a \<le> limit_of h" using sl(6) by (simp add: a_def retained_restart_attempts_def)
  have "host_inv h2" unfolding h2 using al by (intro remove_slot_inv [OF assms, where n = a]) (simp_all add: st_def)
  then have i3: "host_inv h3" by (simp add: h3_def)
  have n3: "dget (ho_slots h3) p = None" "dget (ho_recoveries h3) p = None" "ho_running h3" "limit_of h3 = limit_of h"
    "attempts_of h3 p = a" "ho_next h3 = ho_next h" "p \<in> set (ho_order h3)" "dget (ho_statuses h3) p = Some st"
    "dget (ho_recoveries h) p = None" "ho_running h"
    using sl by (simp_all add: h3_def h2 limit_of_def attempts_of_def)
  have mon: "monitor_worker now rc p (sl_process sl) h =
     (if po_max_restarts (ho_policy h) \<noteq> 0 \<and> a < po_max_restarts (ho_policy h)
      then Inr (h3\<lparr>ho_recoveries := dset p (ho_next h) (ho_recoveries h3),
             ho_tasks := dset (ho_next h) \<lparr>rt_plugin = p, rt_attempt = Suc a, rt_last = detail, rt_phase = Deciding\<rparr> (ho_tasks h3),
             ho_next := Suc (ho_next h)\<rparr>)
      else if po_max_restarts (ho_policy h) \<noteq> 0 then Inr (mark_exhausted p detail h3) else Inr h3)"
    using assms(2) since n3(10)
    by (simp add: monitor_worker_def a_def [symmetric] Let_def flip: detail_def st_def h2_def h3_def)
  let ?h4 = "h3\<lparr>ho_recoveries := dset p (ho_next h) (ho_recoveries h3),
             ho_tasks := dset (ho_next h) \<lparr>rt_plugin = p, rt_attempt = Suc a, rt_last = detail, rt_phase = Deciding\<rparr> (ho_tasks h3),
             ho_next := Suc (ho_next h)\<rparr>"
  have fresh: "dget (ho_tasks h3) (ho_next h) = None" "dget (ho_tasks h3) t = Some r \<Longrightarrow> rt_plugin r \<noteq> p" for t r
    using inv_task(1,2) [OF i3, of "ho_next h"] inv_task(1) [OF i3, of t r] n3 by (cases "dget (ho_tasks h3) (ho_next h)"; auto)+
  have "host_inv ?h4"
  proof (rule inv_local [OF i3, where p = p])
    show "plugin_inv ?h4 p"
      using n3 al by (auto simp: plugin_inv_def attempts_of_def limit_of_def st_def dhas_iff)
    fix t r assume "dget (ho_tasks ?h4) t = Some r" "rt_plugin r = p"
    then have "t = ho_next h" "r = \<lparr>rt_plugin = p, rt_attempt = Suc a, rt_last = detail, rt_phase = Deciding\<rparr>"
      using fresh(2) by (auto split: if_splits)
    moreover have "limit_of ?h4 = limit_of h" using n3(4) by (simp add: limit_of_def)
    ultimately show "task_inv ?h4 t" using al by (auto simp: task_inv_def)
  qed (use n3 fresh in auto)
  moreover have "host_inv (mark_exhausted p detail h3)" by (rule mark_exhausted_inv [OF i3 n3(3,1,2)])
  moreover have "dget (ho_slots (mark_exhausted p detail h3)) p = None"
    using n3(1) by (simp add: mark_exhausted_def Let_def set_status_def)
  ultimately show ?thesis unfolding mon using i3 n3(1) by auto
qed

text \<open>A recovery task: its guards hold, its lookups succeed, and it keeps the invariant.\<close>

lemma end_task_current:
  assumes "dget (ho_tasks h) t = Some r" and "dget (ho_recoveries h) (rt_plugin r) = None \<or> dget (ho_recoveries h) (rt_plugin r) = Some t"
  shows "end_task t h = drop_recovery (rt_plugin r) t h"
proof (cases "dget (ho_recoveries h) (rt_plugin r)")
  case None
  then have "dpop (rt_plugin r) (ho_recoveries h) = ho_recoveries h" by (intro dpop_absent) (simp add: dhas_iff)
  with assms(1) None show ?thesis by (simp add: end_task_def drop_recovery_def)
qed (use assms in \<open>auto simp: end_task_def drop_recovery_def\<close>)

lemma mark_exhausted_drop:
  assumes "dget (ho_tasks h) t = Some r" and "rt_plugin r = p"
  shows "end_task t (mark_exhausted p d h) = mark_exhausted p d (drop_recovery p t h)"
proof -
  have f: "ho_tasks (mark_exhausted p d h) = ho_tasks h" "ho_recoveries (mark_exhausted p d h) = dpop p (ho_recoveries h)"
    by (simp_all add: mark_exhausted_def Let_def set_status_def)
  have "end_task t (mark_exhausted p d h) = drop_recovery p t (mark_exhausted p d h)"
    using end_task_current [of "mark_exhausted p d h" t r] assms f by simp
  also have "\<dots> = mark_exhausted p d (drop_recovery p t h)"
    by (simp add: drop_recovery_def mark_exhausted_def Let_def set_status_def add_diag_def record_diagnostic_def attempts_of_def)
  finally show ?thesis .
qed

lemma recover_decide_ok:
  assumes "host_inv h" and "dget (ho_tasks h) t = Some r"
  shows "\<exists>h'. recover_decide t r h = Inr h' \<and> host_inv h'"
proof -
  let ?p = "rt_plugin r"
  note tk = inv_task [OF assms]
  note rc = inv_recovery [OF assms(1) tk(1)]
  have dr: "host_inv (drop_recovery ?p t h)" by (rule drop_recovery_inv [OF assms(1) tk(1)])
  show ?thesis
  proof (cases "limit_of h < rt_attempt r")
    case True
    have "host_inv (mark_exhausted ?p (rt_last r) (drop_recovery ?p t h))"
      by (rule mark_exhausted_inv [OF dr]) (use rc in \<open>simp_all add: drop_recovery_def\<close>)
    with True show ?thesis
      using mark_exhausted_drop [OF assms(2), of ?p "rt_last r"] tk(1) by (simp add: recover_decide_def Let_def limit_of_def)
  next
    case False
    obtain prev where prev: "dget (ho_statuses h) ?p = Some prev" using rc(5) by blast
    define h' where "h' = put_task t (r\<lparr>rt_phase := Launching\<rparr>)
        ((set_status ?p \<lparr>st_state = Restarting, st_pid = st_pid prev, st_proto = st_proto prev,
            st_detail = ''worker restart attempt '' @ nat_str (rt_attempt r), st_attempts = rt_attempt r\<rparr> h)
         \<lparr>ho_attempts := dset ?p (rt_attempt r) (ho_attempts h)\<rparr>)"
    have "recover_decide t r h = Inr h'"
      using False tk(1) rc(3) prev by (simp add: recover_decide_def Let_def limit_of_def h'_def)
    moreover have "host_inv h'"
    proof (rule inv_local [OF assms(1), where p = ?p])
      show "plugin_inv h' ?p"
        using False rc(2,4) tk(1) by (auto simp: plugin_inv_def h'_def put_task_def set_status_def attempts_of_def limit_of_def)
      fix u x assume u: "dget (ho_tasks h') u = Some x" "rt_plugin x = ?p"
      then have "u = t" using inv_task_unique [OF assms(1) _ assms(2)] by (auto simp: h'_def put_task_def set_status_def split: if_splits)
      with u False tk show "task_inv h' u" by (auto simp: task_inv_def h'_def put_task_def set_status_def limit_of_def)
    qed (use rc(3) assms(2) in \<open>auto simp: h'_def put_task_def set_status_def\<close>)
    ultimately show ?thesis by blast
  qed
qed

lemma recover_launched_ok:
  assumes "host_inv h" and "dget (ho_tasks h) t = Some r" and "rt_phase r = Launching"
  shows "\<exists>h'. recover_launched t r launch h = Inr h' \<and> host_inv h'"
proof -
  let ?p = "rt_plugin r"
  note tk = inv_task [OF assms(1,2)]
  have att: "rt_attempt r \<le> limit_of h" using tk(5) assms(3) by simp
  have put: "host_inv (put_task t (r\<lparr>rt_attempt := a, rt_last := l, rt_phase := ph\<rparr>) g)"
    if g: "host_inv g" "dget (ho_tasks g) t = Some r" and a: "1 \<le> a" "a \<le> Suc (limit_of g)" "ph \<noteq> Deciding \<longrightarrow> a \<le> limit_of g" for g a l ph
  proof (rule inv_local [OF g(1), where p = ?p])
    let ?g = "put_task t (r\<lparr>rt_attempt := a, rt_last := l, rt_phase := ph\<rparr>) g"
    note tg = inv_task [OF g] and rg = inv_recovery [OF g(1) inv_task(1) [OF g]]
    show "ho_running ?g" using rg(3) by (simp add: put_task_def)
    show "plugin_inv ?g ?p"
      using rg tg(1) by (auto simp: plugin_inv_def put_task_def attempts_of_def limit_of_def dhas_iff)
    fix u x assume u: "dget (ho_tasks ?g) u = Some x" "rt_plugin x = ?p"
    then have "u = t" using inv_task_unique [OF g(1) _ g(2)] by (auto simp: put_task_def split: if_splits)
    with u a tg show "task_inv ?g u" by (auto simp: task_inv_def put_task_def limit_of_def)
  qed (use g(2) in \<open>auto simp: put_task_def\<close>)
  show ?thesis
  proof (cases launch)
    case (Inr x)
    obtain pid pr where "x = (pid, pr)" by force
    moreover have "host_inv (put_task t (r\<lparr>rt_phase := Holding pid pr\<rparr>) h)"
      using put [OF assms(1,2) tk(3), of "Holding pid pr" "rt_last r"] att by simp
    ultimately show ?thesis using Inr by (simp add: recover_launched_def)
  next
    case (Inl e)
    define h1 where "h1 = add_diag ?p \<lparr>dg_code = (if se_charges e then RestartFailed else StartupTimeout), dg_detail = se_detail e,
        dg_pid = se_pid e, dg_returncode = None, dg_attempt = rt_attempt r\<rparr> h"
    have i1: "host_inv h1" "dget (ho_tasks h1) t = Some r" using assms by (simp_all add: h1_def)
    have lim: "limit_of h1 = limit_of h" by (simp add: h1_def limit_of_def)
    show ?thesis
    proof (cases "se_charges e")
      case True
      have "host_inv (put_task t (r\<lparr>rt_attempt := Suc (rt_attempt r), rt_last := se_detail e, rt_phase := Deciding\<rparr>) h1)"
        by (rule put [OF i1]) (use att lim in auto)
      with True Inl show ?thesis by (simp add: recover_launched_def Let_def h1_def)
    next
      case False
      note tk1 = inv_task [OF i1] and rc = inv_recovery [OF i1(1) inv_task(1) [OF i1]]
      obtain prev where prev: "dget (ho_statuses h1) ?p = Some prev" using rc(5) by blast
      define st where "st = \<lparr>st_state = WFailed, st_pid = se_pid e, st_proto = st_proto prev, st_detail = se_detail e,
          st_attempts = rt_attempt r - 1\<rparr>"
      define h2 where "h2 = (set_status ?p st h1)\<lparr>ho_attempts := dset ?p (rt_attempt r - 1) (ho_attempts h1), ho_recoveries := dpop ?p (ho_recoveries h1)\<rparr>"
      have fs: "fail_startup t ?p e (rt_attempt r) h1 = Inr h2"
        using tk1(1) prev by (simp add: fail_startup_def st_def h2_def)
      have "end_task t h2 = drop_recovery ?p t h2"
        by (rule end_task_current) (simp_all add: h2_def set_status_def i1)
      also have "\<dots> = (drop_recovery ?p t h1)\<lparr>ho_statuses := dset ?p st (ho_statuses (drop_recovery ?p t h1)),
          ho_attempts := dset ?p (rt_attempt r - 1) (ho_attempts (drop_recovery ?p t h1))\<rparr>"
        by (cases h1) (simp add: h2_def set_status_def drop_recovery_def)
      finally have e2: "end_task t h2 = \<dots>" .
      have "host_inv (end_task t h2)" unfolding e2
        by (rule set_status_inv [OF drop_recovery_inv [OF i1(1) tk1(1)], where a = "rt_attempt r - 1"])
          (use rc att in \<open>auto simp: drop_recovery_def st_def limit_of_def h1_def\<close>)
      moreover have "recover_launched t r launch h = map_res (end_task t) (fail_startup t ?p e (rt_attempt r) h1)"
        using False Inl by (simp add: recover_launched_def Let_def h1_def)
      ultimately show ?thesis using fs by simp
    qed
  qed
qed

lemma recover_install_inv:
  assumes "host_inv h" and "dget (ho_tasks h) t = Some r" and "rt_phase r = Holding pid pr"
  shows "host_inv (recover_install now t r pid pr h)"
proof -
  let ?p = "rt_plugin r"
  note tk = inv_task [OF assms(1,2)]
  note rc = inv_recovery [OF assms(1) tk(1)]
  have att: "rt_attempt r \<le> limit_of h" using tk(5) assms(3) by simp
  define h1 where "h1 = install_ready_slot now ?p pid pr (rt_attempt r) h"
  define dg where "dg = \<lparr>dg_code = Recovered, dg_detail = ''worker recovered after '' @ nat_str (rt_attempt r) @ '' restart attempts'',
     dg_pid = Some pid, dg_returncode = None, dg_attempt = rt_attempt r\<rparr>"
  have "recover_install now t r pid pr h = end_task t ((add_diag ?p dg h1)\<lparr>ho_recoveries := dpop ?p (ho_recoveries h1)\<rparr>)"
    using tk(1) rc(3) by (simp add: recover_install_def Let_def h1_def dg_def)
  also have "\<dots> = drop_recovery ?p t ((add_diag ?p dg h1)\<lparr>ho_recoveries := dpop ?p (ho_recoveries h1)\<rparr>)"
    by (rule end_task_current) (use assms(2) in \<open>simp_all add: h1_def install_ready_slot_def\<close>)
  also have "\<dots> = add_diag ?p dg (drop_recovery ?p t h1)"
    by (simp add: drop_recovery_def add_diag_def cong: sum.case_cong)
  finally have e: "recover_install now t r pid pr h = add_diag ?p dg (drop_recovery ?p t h1)" .
  have "host_inv (drop_recovery ?p t h1)"
  proof (rule inv_local [OF assms(1), where p = ?p])
    let ?g = "drop_recovery ?p t h1"
    show "plugin_inv ?g ?p"
      using att rc(6) by (auto simp: plugin_inv_def h1_def install_ready_slot_def drop_recovery_def attempts_of_def limit_of_def)
    fix u x assume "dget (ho_tasks ?g) u = Some x" "rt_plugin x = ?p"
    then show "task_inv ?g u"
      using inv_task_unique [OF assms(1) _ assms(2), of u x]
      by (auto simp: h1_def install_ready_slot_def drop_recovery_def split: if_splits)
  qed (use rc(3) assms(2) in \<open>auto simp: h1_def install_ready_slot_def drop_recovery_def\<close>)
  then show ?thesis unfolding e by simp
qed

lemma recover_step_ok:
  assumes "host_inv h"
  shows "\<exists>h'. recover_step now ev t h = Inr h' \<and> host_inv h'"
proof (cases "dget (ho_tasks h) t")
  case (Some r)
  then show ?thesis
    using recover_decide_ok [OF assms Some] recover_launched_ok [OF assms Some] recover_install_inv [OF assms Some]
    by (cases "rt_phase r") (auto simp: recover_step_def)
qed (use assms in \<open>simp add: recover_step_def\<close>)

text \<open>Stopping.\<close>

lemma fold_end_task:
  "ho_recoveries h = [] \<Longrightarrow>
     fold end_task ts h = h\<lparr>ho_tasks := fold dpop ts (ho_tasks h)\<rparr>"
proof (induction ts arbitrary: h)
  case (Cons t ts)
  have "end_task t h = h\<lparr>ho_tasks := dpop t (ho_tasks h)\<rparr>"
  proof (cases "dget (ho_tasks h) t")
    case None
    then have "dpop t (ho_tasks h) = ho_tasks h" by (intro dpop_absent) (simp add: dhas_iff)
    then show ?thesis using None by (simp add: end_task_def)
  qed (use Cons.prems in \<open>simp add: end_task_def\<close>)
  with Cons show ?case by simp
qed simp

lemma fold_dpop: "dget (fold dpop ts d) t = (if t \<in> set ts then None else dget d t)"
  by (induction ts arbitrary: d) auto

lemma stop_plugin_frame:
  "ho_recoveries (stop_plugin ids reaped p h) = ho_recoveries h" "ho_tasks (stop_plugin ids reaped p h) = ho_tasks h"
  "ho_running (stop_plugin ids reaped p h) = ho_running h" "ho_policy (stop_plugin ids reaped p h) = ho_policy h"
  "ho_attempts (stop_plugin ids reaped p h) = ho_attempts h" "ho_slots (stop_plugin ids reaped p h) = dpop p (ho_slots h)"
  "q \<noteq> p \<Longrightarrow> dget (ho_statuses (stop_plugin ids reaped p h)) q = dget (ho_statuses h) q"
  "dget (ho_slots h) p \<noteq> None \<or> (p \<in> set ids \<and> dhas (ho_statuses h) p) \<Longrightarrow>
     \<exists>st. dget (ho_statuses (stop_plugin ids reaped p h)) p = Some st \<and> st_state st = Stopped"
proof -
  have pop: "dpop p (ho_slots h) = ho_slots h" if "dget (ho_slots h) p = None" using that by (intro dpop_absent) (simp add: dhas_iff)
  show "ho_recoveries (stop_plugin ids reaped p h) = ho_recoveries h" "ho_tasks (stop_plugin ids reaped p h) = ho_tasks h"
    "ho_running (stop_plugin ids reaped p h) = ho_running h" "ho_policy (stop_plugin ids reaped p h) = ho_policy h"
    "ho_attempts (stop_plugin ids reaped p h) = ho_attempts h" "ho_slots (stop_plugin ids reaped p h) = dpop p (ho_slots h)"
    "q \<noteq> p \<Longrightarrow> dget (ho_statuses (stop_plugin ids reaped p h)) q = dget (ho_statuses h) q"
    using pop by (auto simp: stop_plugin_def set_status_def Let_def split: option.splits)
  show "\<exists>st. dget (ho_statuses (stop_plugin ids reaped p h)) p = Some st \<and> st_state st = Stopped"
    if "dget (ho_slots h) p \<noteq> None \<or> (p \<in> set ids \<and> dhas (ho_statuses h) p)"
    using that by (auto simp: stop_plugin_def set_status_def Let_def dhas_iff split: option.splits)
qed

definition stop_ok :: "host \<Rightarrow> bool" where
  "stop_ok h \<longleftrightarrow> (\<forall>q. attempts_of h q \<le> limit_of h \<and>
     (\<forall>st. dget (ho_statuses h) q = Some st \<longrightarrow> st_attempts st \<le> limit_of h \<and> (st_state st = Ready \<longrightarrow> dget (ho_slots h) q \<noteq> None)))"

lemma inv_stop_ok:
  assumes "host_inv h"
  shows "stop_ok h"
proof -
  have "attempts_of h q \<le> limit_of h \<and> (\<forall>st. dget (ho_statuses h) q = Some st \<longrightarrow>
      st_attempts st \<le> limit_of h \<and> (st_state st = Ready \<longrightarrow> dget (ho_slots h) q \<noteq> None))" for q
  proof -
    have "plugin_inv h q" using assms by (simp add: host_inv_def)
    then show ?thesis by (cases "dget (ho_slots h) q") (simp_all add: plugin_inv_def)
  qed
  then show ?thesis by (simp add: stop_ok_def)
qed

lemma stop_plugin_ok:
  assumes "stop_ok h"
  shows "stop_ok (stop_plugin ids reaped p h)"
proof -
  let ?h = "stop_plugin ids reaped p h"
  note fr = stop_plugin_frame [where ids = ids and reaped = reaped and p = p and h = h]
  have lim: "limit_of ?h = limit_of h" "attempts_of ?h q = attempts_of h q" for q using fr by (simp_all add: limit_of_def attempts_of_def)
  have "st_attempts st \<le> limit_of h \<and> (st_state st = Ready \<longrightarrow> dget (ho_slots ?h) q \<noteq> None)"
    if st: "dget (ho_statuses ?h) q = Some st" for q st
  proof (cases "q = p")
    case False
    with st fr(7) [OF False] assms fr(6) show ?thesis by (auto simp: stop_ok_def)
  next
    case True
    have a: "attempts_of h p \<le> limit_of h" using assms by (simp add: stop_ok_def)
    show ?thesis
    proof (cases "dget (ho_slots h) p")
      case None
      then show ?thesis
        using True st assms [unfolded stop_ok_def, rule_format, of p]
        by (auto simp: stop_plugin_def set_status_def split: option.splits if_splits)
    next
      case (Some sl)
      then show ?thesis using True st a by (auto simp: stop_plugin_def set_status_def Let_def split: if_splits)
    qed
  qed
  then show ?thesis using assms lim by (simp add: stop_ok_def)
qed

lemma fold_stop_plugin:
  "dget (ho_slots (fold (stop_plugin ids reaped) ps h)) q = (if q \<in> set ps then None else dget (ho_slots h) q)"
  "ho_recoveries (fold (stop_plugin ids reaped) ps h) = ho_recoveries h" "ho_tasks (fold (stop_plugin ids reaped) ps h) = ho_tasks h"
  "ho_running (fold (stop_plugin ids reaped) ps h) = ho_running h" "ho_policy (fold (stop_plugin ids reaped) ps h) = ho_policy h"
  "stop_ok h \<Longrightarrow> stop_ok (fold (stop_plugin ids reaped) ps h)"
  by (induction ps arbitrary: h) (simp_all add: stop_plugin_frame stop_plugin_ok)

definition stopped_status :: "host \<Rightarrow> string \<Rightarrow> bool" where
  "stopped_status h q \<longleftrightarrow> (\<exists>st. dget (ho_statuses h) q = Some st \<and> st_state st = Stopped)"

lemma stop_plugin_keeps: "dget (ho_slots h) q = None \<Longrightarrow> stopped_status h q \<Longrightarrow> stopped_status (stop_plugin ids reaped p h) q"
proof (cases "q = p")
  case False
  assume "stopped_status h q"
  with stop_plugin_frame(7) [OF False] show ?thesis by (simp add: stopped_status_def)
qed (auto simp: stopped_status_def stop_plugin_def set_status_def split: option.splits)

lemma fold_stop_keeps:
  "dget (ho_slots h) q = None \<Longrightarrow> stopped_status h q \<Longrightarrow> stopped_status (fold (stop_plugin ids reaped) ps h) q"
  by (induction ps arbitrary: h) (simp_all add: stop_plugin_keeps stop_plugin_frame)

lemma fold_stop_stops:
  "q \<in> set ps \<Longrightarrow> dget (ho_slots h) q \<noteq> None \<or> (q \<in> set ids \<and> dhas (ho_statuses h) q) \<Longrightarrow>
     stopped_status (fold (stop_plugin ids reaped) ps h) q"
proof (induction ps arbitrary: h)
  case (Cons p ps)
  show ?case
  proof (cases "q = p")
    case True
    then have "stopped_status (stop_plugin ids reaped p h) q" "dget (ho_slots (stop_plugin ids reaped p h)) q = None"
      using stop_plugin_frame(6,8) [where h = h and p = p and ids = ids and reaped = reaped] Cons.prems(2) by (auto simp: stopped_status_def)
    then show ?thesis using fold_stop_keeps by simp
  next
    case False
    then show ?thesis
      using Cons stop_plugin_frame(6) [where h = h and p = p and ids = ids and reaped = reaped] stop_plugin_frame(7) [OF False]
      by (simp add: dhas_iff)
  qed
qed simp

lemma host_stop_spec:
  assumes "host_inv h" and "ho_running h"
  shows "host_inv (host_stop reaped h)" "ho_slots (host_stop reaped h) = []" "ho_recoveries (host_stop reaped h) = []"
    "ho_tasks (host_stop reaped h) = []" "\<not> ho_running (host_stop reaped h)"
    "dhas (ho_slots h) p \<or> dhas (ho_recoveries h) p \<Longrightarrow> stopped_status (host_stop reaped h) p"
proof -
  define h1 where "h1 = fold end_task (dvals (ho_recoveries h)) (h\<lparr>ho_running := False, ho_recoveries := []\<rparr>)"
  define h2 where "h2 = fold (stop_plugin (dkeys (ho_recoveries h)) reaped) (rev (ho_order h1)) h1"
  have hs: "host_stop reaped h = h2\<lparr>ho_order := [], ho_attempts := [], ho_ready_since := [], ho_specs := []\<rparr>"
    using assms(2) by (simp add: host_stop_def Let_def h1_def h2_def)
  have h1: "h1 = h\<lparr>ho_running := False, ho_recoveries := [], ho_tasks := fold dpop (dvals (ho_recoveries h)) (ho_tasks h)\<rparr>"
    by (simp add: h1_def fold_end_task)
  have "dget (ho_tasks h1) t = None" for t
  proof (cases "dget (ho_tasks h) t")
    case (Some r)
    have "t \<in> set (dvals (ho_recoveries h))"
      using dget_in_set [OF inv_task(1) [OF assms(1) Some]] by (force simp: dvals_def)
    then show ?thesis by (simp add: h1 fold_dpop)
  qed (simp add: h1 fold_dpop)
  then have t1: "ho_tasks h1 = []" by (rule empty_dict)
  have ord: "p \<in> set (ho_order h)" if "dhas (ho_slots h) p \<or> dhas (ho_recoveries h) p" for p
    using that inv_slot(3) [OF assms(1)] inv_recovery(4) [OF assms(1)] by (auto simp: dhas_iff)
  note f2 = fold_stop_plugin [where ids = "dkeys (ho_recoveries h)" and reaped = reaped and ps = "rev (ho_order h1)" and h = h1, folded h2_def]
  have "dget (ho_slots h2) q = None" for q
  proof (cases "q \<in> set (ho_order h)")
    case False
    then have "dget (ho_slots h) q = None" using ord [of q] by (auto simp: dget_None_iff)
    then show ?thesis using f2(1) [of q] by (simp add: h1)
  qed (use f2(1) [of q] in \<open>simp add: h1\<close>)
  then have s2: "ho_slots h2 = []" by (rule empty_dict)
  have "stop_ok h1" using inv_stop_ok [OF assms(1)] by (simp add: h1 stop_ok_def attempts_of_def limit_of_def)
  then have ok2: "stop_ok h2" by (rule f2(6))
  show "ho_slots (host_stop reaped h) = []" "ho_recoveries (host_stop reaped h) = []"
    "ho_tasks (host_stop reaped h) = []" "\<not> ho_running (host_stop reaped h)"
    using s2 f2 t1 by (simp_all add: hs h1)
  let ?h = "host_stop reaped h"
  have "plugin_inv ?h q" for q
  proof -
    have "st_attempts st \<le> limit_of h2 \<and> st_state st \<noteq> Ready" if "dget (ho_statuses h2) q = Some st" for st
      using ok2 [unfolded stop_ok_def, rule_format, of q] that s2 by auto
    moreover have "ho_recoveries ?h = []" "ho_slots ?h = []" "ho_statuses ?h = ho_statuses h2" "attempts_of ?h q = 0" "limit_of ?h = limit_of h2"
      using s2 f2(2) by (simp_all add: hs h1 attempts_of_def limit_of_def)
    ultimately show ?thesis by (simp add: plugin_inv_def)
  qed
  moreover have "task_inv ?h t" for t using f2(3) t1 by (simp add: task_inv_def hs)
  ultimately show "host_inv ?h" using s2 f2(2) by (simp add: host_inv_def hs h1)
  assume p: "dhas (ho_slots h) p \<or> dhas (ho_recoveries h) p"
  have "stopped_status h2 p" unfolding h2_def
  proof (rule fold_stop_stops)
    show "p \<in> set (rev (ho_order h1))" using ord [OF p] by (simp add: h1)
    show "dget (ho_slots h1) p \<noteq> None \<or> p \<in> set (dkeys (ho_recoveries h)) \<and> dhas (ho_statuses h1) p"
    proof (cases "dhas (ho_slots h) p")
      case False
      then obtain t where t: "dget (ho_recoveries h) p = Some t" using p by (auto simp: dhas_iff)
      then have "p \<in> set (dkeys (ho_recoveries h))" unfolding dhas_def [symmetric] by (simp add: dhas_iff)
      with inv_recovery(5) [OF assms(1) t] show ?thesis by (auto simp: h1 dhas_iff)
    qed (simp add: h1 dhas_iff)
  qed
  then show "stopped_status (host_stop reaped h) p" by (simp add: stopped_status_def hs)
qed

text \<open>Starting and registering a generation of specifications.\<close>

lemma validate_specs_distinct: "validate_specs oe specs = Inr ordered \<Longrightarrow> distinct (map sp_id ordered)"
proof -
  assume "validate_specs oe specs = Inr ordered"
  then have "length (remdups (map sp_id ordered)) = length (map sp_id ordered)"
    by (auto simp: validate_specs_def Let_def map_res_eq_Inr split: if_splits)
  then have "card (set (map sp_id ordered)) = length (map sp_id ordered)" by (simp only: length_remdups_card_conv)
  then show ?thesis by (rule card_distinct)
qed

lemma admit_specs_ok:
  assumes "admit_specs oe specs h = Inr (ordered, h1)" and "host_inv h"
  shows "host_inv h1" "ho_slots h1 = []" "ho_recoveries h1 = []" "ho_running h1" "distinct (map sp_id ordered)"
proof -
  from assms(1) have v: "validate_specs oe specs = Inr ordered" "\<not> ho_running h"
    and h1: "h1 = h\<lparr>ho_running := True, ho_statuses := [], ho_diagnostics := [], ho_order := [],
              ho_attempts := [], ho_ready_since := [], ho_specs := map (\<lambda>s. (sp_id s, s)) ordered\<rparr>"
    by (auto simp: admit_specs_def bind_res_eq_Inr split: if_splits)
  have e: "ho_slots h = []" "ho_recoveries h = []" using assms(2) v(2) by (auto simp: host_inv_def)
  then show "ho_slots h1 = []" "ho_recoveries h1 = []" "ho_running h1" by (simp_all add: h1)
  have "dget (ho_tasks h) t = None" for t
    using inv_task(1) [OF assms(2), of t] e(2) by (cases "dget (ho_tasks h) t") auto
  with e show "host_inv h1" by (simp add: h1 host_inv_def plugin_inv_def task_inv_def attempts_of_def)
  show "distinct (map sp_id ordered)" by (rule validate_specs_distinct [OF v(1)])
qed

lemma fold_start_inv:
  assumes "distinct (map sp_id ss)" and "host_inv h" and "ho_running h" and "ho_recoveries h = []"
    and "\<forall>s \<in> set ss. dget (ho_slots h) (sp_id s) = None"
  shows "host_inv (fold (\<lambda>s. start_one (now s) (l s) (sp_id s)) ss h) \<and> ho_running (fold (\<lambda>s. start_one (now s) (l s) (sp_id s)) ss h)"
  using assms
proof (induction ss arbitrary: h)
  case (Cons s ss)
  have n: "dget (ho_slots h) (sp_id s) = None" "dget (ho_recoveries h) (sp_id s) = None" using Cons.prems by simp_all
  note fr = start_one_frame [OF n, where now = "now s" and launch = "l s"]
  have "\<forall>x \<in> set ss. dget (ho_slots (start_one (now s) (l s) (sp_id s) h)) (sp_id x) = None"
  proof
    fix x assume x: "x \<in> set ss"
    then have "sp_id x \<noteq> sp_id s" using Cons.prems(1) by (metis distinct.simps(2) image_eqI list.simps(9) set_map)
    from fr(5) [OF this] x Cons.prems(5) show "dget (ho_slots (start_one (now s) (l s) (sp_id s) h)) (sp_id x) = None" by simp
  qed
  with Cons.IH [of "start_one (now s) (l s) (sp_id s) h"] Cons.prems fr(1,2,6) show ?case by simp
qed simp

lemma fold_register_inv:
  "host_inv h \<Longrightarrow> ho_running h \<Longrightarrow> ho_slots h = [] \<Longrightarrow> ho_recoveries h = [] \<Longrightarrow>
     host_inv (fold (\<lambda>s. set_status (sp_id s) (idle_status d)) ss h)"
proof (induction ss arbitrary: h)
  case (Cons s ss)
  have "host_inv (set_status (sp_id s) (idle_status d) h)"
    using set_status_inv [OF Cons.prems(1,2), of "sp_id s" "idle_status d" 0 "ho_attempts h"] Cons.prems(3,4)
    by (simp add: set_status_def idle_status_def)
  with Cons show ?case by (simp add: set_status_def)
qed simp

lemma host_start_inv: "host_start oe launches specs h = Inr h' \<Longrightarrow> host_inv h \<Longrightarrow> host_inv h'"
proof -
  assume a: "host_start oe launches specs h = Inr h'" "host_inv h"
  then obtain ordered h1 where o: "admit_specs oe specs h = Inr (ordered, h1)"
    "h' = fold (\<lambda>s. start_one (fst (launches (sp_id s))) (snd (launches (sp_id s))) (sp_id s)) ordered h1"
    by (auto simp: host_start_def map_res_eq_Inr)
  note ok = admit_specs_ok [OF o(1) a(2)]
  from fold_start_inv [OF ok(5,1,4,3), of "\<lambda>s. fst (launches (sp_id s))" "\<lambda>s. snd (launches (sp_id s))"] ok(2)
  show "host_inv h'" by (simp add: o(2))
qed

lemma host_register_inv: "host_register oe specs h = Inr h' \<Longrightarrow> host_inv h \<Longrightarrow> host_inv h'"
proof -
  assume a: "host_register oe specs h = Inr h'" "host_inv h"
  then obtain ordered h1 where o: "admit_specs oe specs h = Inr (ordered, h1)"
    "h' = fold (\<lambda>s. set_status (sp_id s) (idle_status IDLE_WORKER_DETAIL)) ordered h1"
    by (auto simp: host_register_def map_res_eq_Inr)
  note ok = admit_specs_ok [OF o(1) a(2)]
  show "host_inv h'" unfolding o(2) by (rule fold_register_inv [OF ok(1,4,2,3)])
qed

lemma monitor_worker_inv:
  assumes "monitor_worker now rc p process h = Inr h'" and "host_inv h"
  shows "host_inv h'"
proof (cases "dget (ho_slots h) p")
  case (Some sl)
  show ?thesis
  proof (cases "sl_process sl = process")
    case True
    with monitor_worker_ok [OF assms(2) Some, of now rc] assms(1) show ?thesis by auto
  qed (use assms Some in \<open>simp add: monitor_worker_def\<close>)
qed (use assms in \<open>simp add: monitor_worker_def\<close>)

lemma host_step_inv: "host_step h h' \<Longrightarrow> host_inv h \<Longrightarrow> host_inv h'"
proof (induction rule: host_step.induct)
  case (stop h reaped)
  then show ?case using host_stop_spec(1) by (cases "ho_running h") (auto simp: host_stop_def)
next
  case (recover now ev t h h')
  then show ?case using recover_step_ok [of h now ev t] by auto
next
  case (ready now launch p h st h')
  then show ?case using ensure_ready_inv [of h now launch p] by simp
next
  case (stop_one p detail h st h')
  then show ?case using stop_worker_inv [of h p detail] by simp
next
  case (withdraw p detail h st h')
  then show ?case using revoke_inv [of h p detail] by simp
qed (blast intro: host_start_inv host_register_inv monitor_worker_inv)+

lemma host_reachable_inv: "host_reachable policy h \<Longrightarrow> host_inv h"
  by (induction rule: host_reachable.induct) (auto intro: host_init_inv host_step_inv)

section \<open>The policy is fixed and its delays are bounded\<close>

lemma end_task_policy [simp]: "ho_policy (end_task t h) = ho_policy h"
  by (simp add: end_task_def split: option.split)

lemma cancel_recovery_policy [simp]: "ho_policy (cancel_recovery p h) = ho_policy h"
  by (simp add: cancel_recovery_def split: option.split)

lemma set_status_policy [simp]: "ho_policy (set_status p st h) = ho_policy h"
  by (simp add: set_status_def)

lemma start_one_policy [simp]: "ho_policy (start_one now l p h) = ho_policy h"
  by (auto simp: start_one_def Let_def install_ready_slot_def split: sum.splits)

lemma mark_exhausted_policy [simp]: "ho_policy (mark_exhausted p d h) = ho_policy h"
  by (simp add: mark_exhausted_def Let_def)

lemma fold_policy: "(\<And>x h. ho_policy (f x h) = ho_policy h) \<Longrightarrow> ho_policy (fold f xs h) = ho_policy h"
  by (induction xs arbitrary: h) auto

lemma host_step_policy: "host_step h h' \<Longrightarrow> ho_policy h' = ho_policy h"
proof (induction rule: host_step.induct)
  case (start offer_error launches specs h h')
  then show ?case by (auto simp: host_start_def map_res_eq_Inr admit_specs_def bind_res_eq_Inr fold_policy split: if_splits)
next
  case (register offer_error specs h h')
  then show ?case by (auto simp: host_register_def map_res_eq_Inr admit_specs_def bind_res_eq_Inr fold_policy split: if_splits)
next
  case (stop h reaped)
  then show ?case by (simp add: host_stop_def Let_def fold_policy stop_plugin_frame)
next
  case (exit now returncode p process h h')
  then show ?case by (auto simp: monitor_worker_def Let_def split: option.splits if_splits)
next
  case (recover now ev t h h')
  have fs: "fail_startup t p e a h = Inr h' \<Longrightarrow> ho_policy h' = ho_policy h" for p e a h h'
    by (auto simp: fail_startup_def split: option.splits if_splits)
  from recover show ?case
    by (auto simp: recover_step_def recover_decide_def recover_launched_def recover_install_def Let_def put_task_def
        install_ready_slot_def map_res_eq_Inr dest!: fs split: option.splits rphase.splits if_splits sum.splits)
next
  case (ready now launch p h st h')
  then show ?case by (auto simp: ensure_ready_def Let_def split: if_splits)
next
  case (stop_one p detail h st h')
  then show ?case by (auto simp: stop_worker_def Let_def split: option.splits)
next
  case (withdraw p detail h st h')
  then show ?case by (auto simp: revoke_def Let_def split: option.splits)
qed

lemma host_reachable_policy: "host_reachable policy h \<Longrightarrow> ho_policy h = policy"
  by (induction rule: host_reachable.induct) (auto simp: host_init_def host_step_policy)

lemma recovery_policy_ok:
  assumes "policy_init a b c d e = Inr p"
  shows "int (po_max_restarts p) \<le> MAX_RESTARTS" "0 < po_initial p" "po_initial p \<le> po_max p" "1 \<le> po_multiplier p"
proof -
  obtain r i m k q where p: "p = \<lparr>po_max_restarts = r, po_initial = i, po_max = m, po_multiplier = k, po_decay = q\<rparr>"
    and v: "validate_timeout b = Inr i" "multiplier_of d = Inr k" "\<not> m < i" "int r \<le> MAX_RESTARTS"
    using assms by (auto simp: policy_init_def bind_res_eq_Inr map_res_eq_Inr split: pyval.splits if_splits)
  have "0 < i" using v(1) by (auto simp: validate_timeout_def split: pyval.splits pyfloat.splits if_splits)
  moreover have "1 \<le> k" using v(2) by (auto simp: multiplier_of_def split: pyval.splits pyfloat.splits if_splits)
  ultimately show "int (po_max_restarts p) \<le> MAX_RESTARTS" "0 < po_initial p" "po_initial p \<le> po_max p" "1 \<le> po_multiplier p"
    using v by (simp_all add: p)
qed

lemma delay_bounds:
  assumes "policy_init a b c d e = Inr p" and "1 \<le> n" and "n \<le> MAX_RESTARTS"
  shows "\<exists>x. delay p n = Inr x \<and> po_initial p \<le> x \<and> x \<le> po_max p"
proof -
  note ok = recovery_policy_ok [OF assms(1)]
  have "po_initial p * 1 \<le> po_initial p * po_multiplier p ^ nat (n - 1)"
    using ok(2,4) by (intro mult_left_mono one_le_power) simp_all
  with ok(3) assms(2,3) show ?thesis by (simp add: delay_def)
qed

section \<open>A recovery that keeps failing gives up\<close>

fun recover_run :: "(rat \<times> (start_error + (nat \<times> nat))) list \<Rightarrow> nat \<Rightarrow> host \<Rightarrow> host res" where
  "recover_run [] t h = Inr h"
| "recover_run ((now, ev) # evs) t h = bind_res (recover_step now ev t h) (recover_run evs t)"

definition failing :: "rat \<times> (start_error + (nat \<times> nat)) \<Rightarrow> bool" where
  "failing x = (case snd x of Inl e \<Rightarrow> se_charges e | Inr _ \<Rightarrow> False)"

lemma decide_exhausted:
  assumes "host_inv h" and "dget (ho_tasks h) t = Some r" and "rt_phase r = Deciding" and "limit_of h < rt_attempt r"
  shows "\<exists>h'. recover_step now ev t h = Inr h' \<and> dget (ho_tasks h') t = None \<and> \<not> dhas (ho_recoveries h') (rt_plugin r) \<and>
    (\<exists>st. dget (ho_statuses h') (rt_plugin r) = Some st \<and> st_state st = Exhausted)"
proof -
  let ?h = "mark_exhausted (rt_plugin r) (rt_last r) (drop_recovery (rt_plugin r) t h)"
  have "recover_step now ev t h = Inr ?h"
    using assms inv_task(1) [OF assms(1,2)] mark_exhausted_drop [OF assms(2) refl, of "rt_last r"]
    by (simp add: recover_step_def recover_decide_def limit_of_def Let_def)
  moreover have "dget (ho_tasks ?h) t = None" "\<not> dhas (ho_recoveries ?h) (rt_plugin r)"
    by (simp_all add: mark_exhausted_def Let_def drop_recovery_def set_status_def)
  moreover have "\<exists>st. dget (ho_statuses ?h) (rt_plugin r) = Some st \<and> st_state st = Exhausted"
    by (simp add: mark_exhausted_def Let_def drop_recovery_def set_status_def)
  ultimately show ?thesis by blast
qed

lemma failed_attempt:
  assumes "host_inv h" and "dget (ho_tasks h) t = Some r" and "rt_phase r = Deciding" and "rt_attempt r \<le> limit_of h"
    and "failing (now2, ev2)"
  shows "\<exists>h1 h2 r'. recover_step now ev t h = Inr h1 \<and> recover_step now2 ev2 t h1 = Inr h2 \<and> host_inv h2 \<and>
     limit_of h2 = limit_of h \<and> dget (ho_tasks h2) t = Some r' \<and> rt_plugin r' = rt_plugin r \<and> rt_phase r' = Deciding \<and>
     rt_attempt r' = Suc (rt_attempt r)"
proof -
  obtain e where e: "ev2 = Inl e" "se_charges e" using assms(5) by (auto simp: failing_def split: sum.splits)
  note tk = inv_task [OF assms(1,2)] and rc = inv_recovery [OF assms(1) inv_task(1) [OF assms(1,2)]]
  obtain h1 where h1: "recover_step now ev t h = Inr h1" "host_inv h1" using recover_step_ok [OF assms(1)] by blast
  obtain prev where "dget (ho_statuses h) (rt_plugin r) = Some prev" using rc(5) by blast
  then have t1: "dget (ho_tasks h1) t = Some (r\<lparr>rt_phase := Launching\<rparr>)"
    using h1(1) assms(2-4) tk(1) rc(3)
    by (auto simp: recover_step_def recover_decide_def limit_of_def Let_def put_task_def)
  obtain h2 where h2: "recover_step now2 ev2 t h1 = Inr h2" "host_inv h2" using recover_step_ok [OF h1(2)] by blast
  have "dget (ho_tasks h2) t = Some (r\<lparr>rt_attempt := Suc (rt_attempt r), rt_last := se_detail e, rt_phase := Deciding\<rparr>)"
    using h2(1) t1 e by (auto simp: recover_step_def recover_launched_def Let_def put_task_def)
  moreover have "limit_of h2 = limit_of h"
    using host_step_policy [OF host_step.recover [OF h1(1)]] host_step_policy [OF host_step.recover [OF h2(1)]] by (simp add: limit_of_def)
  ultimately show ?thesis using h1 h2 by auto
qed

lemma recovery_exhausts:
  assumes "host_inv h" and "dget (ho_tasks h) t = Some r" and "rt_phase r = Deciding"
    and "list_all failing evs" and "length evs = 2 * (Suc (limit_of h) - rt_attempt r) + 1"
  shows "\<exists>h'. recover_run evs t h = Inr h' \<and> dget (ho_tasks h') t = None \<and> \<not> dhas (ho_recoveries h') (rt_plugin r) \<and>
    (\<exists>st. dget (ho_statuses h') (rt_plugin r) = Some st \<and> st_state st = Exhausted)"
  using assms
proof (induction "Suc (limit_of h) - rt_attempt r" arbitrary: h r evs)
  case 0
  then obtain now ev where evs: "evs = [(now, ev)]" by (cases evs) auto
  have "limit_of h < rt_attempt r" using 0 by simp
  from decide_exhausted [OF 0(2,3,4) this, of now ev] evs show ?case by auto
next
  case (Suc n)
  then obtain now ev now2 ev2 rest where evs: "evs = (now, ev) # (now2, ev2) # rest"
    by (cases evs; cases "tl evs") auto
  have "rt_attempt r \<le> limit_of h" using Suc(2) by simp
  from failed_attempt [OF Suc(3,4,5) this, of now2 ev2 now ev] Suc(6) evs obtain h1 h2 r' where
    s: "recover_step now ev t h = Inr h1" "recover_step now2 ev2 t h1 = Inr h2" "host_inv h2" "limit_of h2 = limit_of h"
      "dget (ho_tasks h2) t = Some r'" "rt_plugin r' = rt_plugin r" "rt_phase r' = Deciding" "rt_attempt r' = Suc (rt_attempt r)"
    by auto
  have "n = Suc (limit_of h2) - rt_attempt r'" "length rest = 2 * (Suc (limit_of h2) - rt_attempt r') + 1"
    using Suc(2,7) s(4,8) evs by simp_all
  from Suc(1) [OF this(1) s(3,5,7) _ this(2)] Suc(6) evs s(1,2,6) show ?case by simp
qed

section \<open>Properties\<close>


text \<open>The restart budget is respected and spent: no plugin ever counts more restart attempts than
  the policy allows (at most 16), each wait lies between the initial and the maximal backoff, and
  a recovery whose launches keep failing ends after the attempts it has left, with the plugin
  reported as exhausted and nothing of the recovery left behind.\<close>

theorem restart_budget_spent:
  assumes "host_reachable policy h" and "dget (ho_tasks h) t = Some r" and "rt_phase r = Deciding"
    and "list_all failing evs" and "length evs = 2 * (Suc (po_max_restarts policy) - rt_attempt r) + 1"
  shows "(\<forall>p. attempts_of h p \<le> po_max_restarts policy) \<and> int (po_max_restarts policy) \<le> MAX_RESTARTS \<and>
     (\<forall>n. 1 \<le> n \<and> n \<le> MAX_RESTARTS \<longrightarrow> (\<exists>x. delay policy n = Inr x \<and> po_initial policy \<le> x \<and> x \<le> po_max policy)) \<and>
     (\<exists>h'. recover_run evs t h = Inr h' \<and> dget (ho_tasks h') t = None \<and> \<not> dhas (ho_recoveries h') (rt_plugin r) \<and>
        (\<exists>st. dget (ho_statuses h') (rt_plugin r) = Some st \<and> st_state st = Exhausted))"
proof -
  have inv: "host_inv h" by (rule host_reachable_inv [OF assms(1)])
  have lim: "limit_of h = po_max_restarts policy" using host_reachable_policy [OF assms(1)] by (simp add: limit_of_def)
  obtain a b c d e where pol: "policy_init a b c d e = Inr policy"
    using assms(1) by (induction rule: host_reachable.induct) auto
  have "attempts_of h p \<le> po_max_restarts policy" for p
    using inv lim by (auto simp: host_inv_def plugin_inv_def)
  then show ?thesis
    using recovery_policy_ok(1) [OF pol] delay_bounds [OF pol] recovery_exhausts [OF inv assms(2-4)] assms(5) lim by auto
qed

text \<open>Stopping the supervisor leaves nothing behind: no slot, no recovery and no recovery task, every
  plugin that was served or recovering is reported stopped, and from then on no plugin can be
  started until a new generation of specifications is admitted.\<close>

theorem supervisor_stop_complete:
  assumes "host_reachable policy h" and "ho_running h"
  shows "ho_slots (host_stop reaped h) = [] \<and> ho_recoveries (host_stop reaped h) = [] \<and> ho_tasks (host_stop reaped h) = [] \<and>
     (\<forall>p. dhas (ho_slots h) p \<or> dhas (ho_recoveries h) p \<longrightarrow> stopped_status (host_stop reaped h) p) \<and>
     (\<forall>now launch p. ensure_ready now launch p (host_stop reaped h) = (None, host_stop reaped h))"
  using host_stop_spec [OF host_reachable_inv [OF assms(1)] assms(2), where reaped = reaped] by (simp add: ensure_ready_def)

text \<open>Revoking stops the process but keeps the specification: the next demand starts it again.\<close>

lemma revoked_worker_startable:
  assumes "host_inv h" and "dget (ho_slots h) p = Some sl" and "dhas (ho_specs h) p"
  shows "\<exists>st. fst (ensure_ready now (Inr (pid, protocol)) p (snd (revoke p detail h))) = Some st \<and> st_state st = Ready"
proof -
  note c = cancel_recovery_inv [OF assms(1), of p]
  have "ho_running h" by (rule inv_slot(2) [OF assms(1,2)])
  then show ?thesis
    using assms(2,3) c by (simp add: revoke_def Let_def ensure_ready_def start_one_def set_status_def install_ready_slot_def dhas_iff)
qed

section \<open>Witnesses\<close>

text \<open>One plugin is started, and its process then exits with status 1 under a budget of one restart.\<close>

definition demo_recovery_policy :: recovery_policy where
  "demo_recovery_policy = \<lparr>po_max_restarts = 1, po_initial = 1, po_max = 5, po_multiplier = 2, po_decay = 60\<rparr>"

definition demo_spec :: worker_spec where
  "demo_spec = \<lparr>sp_id = ''w'', sp_argv = [''python'']\<rparr>"

definition demo_serving :: host where
  "demo_serving = projr (host_start (\<lambda>_. None) (\<lambda>_. (0, Inr (7, 1))) [demo_spec] (host_init demo_recovery_policy))"

definition demo_crashed :: host where
  "demo_crashed = projr (monitor_worker 10 1 ''w'' 7 demo_serving)"

definition demo_error :: start_error where
  "demo_error = \<lparr>se_detail = ''worker launch failed: OSError'', se_pid = None, se_charges = True\<rparr>"

lemma demo_start: "is_ok (host_start (\<lambda>_. None) (\<lambda>_. (0, Inr (7, 1))) [demo_spec] (host_init demo_recovery_policy))"
  by code_simp

lemma demo_crash: "is_ok (monitor_worker 10 1 ''w'' 7 demo_serving)"
  by code_simp

lemma demo_host_reachable: "host_reachable demo_recovery_policy demo_serving" "host_reachable demo_recovery_policy demo_crashed"
proof -
  have "policy_init (PInt 1) (PInt 1) (PInt 5) (PInt 2) (PInt 60) = Inr demo_recovery_policy" by code_simp
  then have "host_reachable demo_recovery_policy (host_init demo_recovery_policy)" by (rule host_reachable.init)
  moreover have "host_start (\<lambda>_. None) (\<lambda>_. (0, Inr (7, 1))) [demo_spec] (host_init demo_recovery_policy) = Inr demo_serving"
    using demo_start by (auto simp: demo_serving_def is_ok_iff)
  ultimately show s: "host_reachable demo_recovery_policy demo_serving" by (blast intro: host_reachable.step host_step.start)
  have "monitor_worker 10 1 ''w'' 7 demo_serving = Inr demo_crashed"
    using demo_crash by (auto simp: demo_crashed_def is_ok_iff)
  with s show "host_reachable demo_recovery_policy demo_crashed" by (blast intro: host_reachable.step host_step.exit)
qed


theorem restart_budget_spent_witness:
  "\<exists>h'. recover_run (replicate 3 (0, Inl demo_error)) 0 demo_crashed = Inr h' \<and> \<not> dhas (ho_recoveries h') ''w''"
proof -
  have "map_option (\<lambda>r. (rt_plugin r, rt_attempt r, rt_phase r)) (dget (ho_tasks demo_crashed) 0) = Some (''w'', 1, Deciding)"
    by code_simp
  then obtain r where r: "dget (ho_tasks demo_crashed) 0 = Some r" "rt_plugin r = ''w''" "rt_attempt r = 1" "rt_phase r = Deciding"
    by auto
  have "list_all failing (replicate 3 (0, Inl demo_error))" by code_simp
  from restart_budget_spent [OF demo_host_reachable(2) r(1,4) this] r show ?thesis by (auto simp: demo_recovery_policy_def)
qed

theorem supervisor_stop_complete_witness:
  "ho_running demo_serving \<and> stopped_status (host_stop (\<lambda>_. True) demo_serving) ''w''"
proof -
  have "ho_running demo_serving \<and> dhas (ho_slots demo_serving) ''w''" by code_simp
  with supervisor_stop_complete [OF demo_host_reachable(1), of "\<lambda>_. True"] show ?thesis by blast
qed

end
