(* ===== verification/Job_Cancellation.thy ===== *)
theory Job_Cancellation
  imports OT_Prelude "HOL-Library.Char_ord" "HOL-Library.List_Lexorder"
begin

text \<open>
  \<^verbatim>\<open>src/omnitensor/plugins/cancellation.py\<close>: one cancellation signal per job, and the journal of
  jobs in flight that survives a crash.  The journal file is what reading it yields; whether a
  write or a removal succeeds is an argument of the operation that tries it.
\<close>

section \<open>Tokens\<close>

datatype reason = Caller | Policy | DeadlineExceeded | WorkerLost | Shutdown | Interrupted

fun reason_text :: "reason \<Rightarrow> string" where
  "reason_text Caller = ''caller-cancelled''"
| "reason_text Policy = ''policy-refused''"
| "reason_text DeadlineExceeded = ''deadline-exceeded''"
| "reason_text WorkerLost = ''worker-lost''"
| "reason_text Shutdown = ''service-shutdown''"
| "reason_text Interrupted = ''service-interrupted''"

record cancellation =
  ca_job :: string
  ca_reason :: reason
  ca_detail :: string

text \<open>A token; its event is set exactly when the cancellation is present.\<close>

record token =
  tk_job :: string
  tk_cancellation :: "cancellation option"
  tk_event :: bool

definition token_init :: "string \<Rightarrow> token" where
  "token_init job_id = \<lparr>tk_job = job_id, tk_cancellation = None, tk_event = False\<rparr>"

definition token_cancel :: "reason \<Rightarrow> string \<Rightarrow> token \<Rightarrow> bool \<times> token" where
  "token_cancel r detail t =
     (if tk_cancellation t \<noteq> None then (False, t)
      else (True, t\<lparr>tk_cancellation := Some \<lparr>ca_job = tk_job t, ca_reason = r,
                     ca_detail = (if detail = [] then reason_text r else detail)\<rparr>,
                   tk_event := True\<rparr>))"

definition raise_if_cancelled :: "token \<Rightarrow> unit res" where
  "raise_if_cancelled t =
     (case tk_cancellation t of
        None \<Rightarrow> Inr ()
      | Some c \<Rightarrow> Inl (Stable (reason_text (ca_reason c)) (ca_detail c)))"

text \<open>
  \<^verbatim>\<open>guard\<close>: which of the operation and the signal is seen first.  When both are done the
  operation's own result is taken.  The operation is an outcome or still running.
\<close>

definition guard :: "token \<Rightarrow> 'a res option \<Rightarrow> token \<Rightarrow> 'a res option" where
  "guard before operation after =
     (case tk_cancellation before of
        Some c \<Rightarrow> Some (Inl (Stable (reason_text (ca_reason c)) (ca_detail c)))
      | None \<Rightarrow>
          (case operation of
             Some r \<Rightarrow> Some r
           | None \<Rightarrow>
               (case tk_cancellation after of
                  Some c \<Rightarrow> Some (Inl (Stable (reason_text (ca_reason c)) (ca_detail c)))
                | None \<Rightarrow> None)))"

section \<open>The journal file\<close>

definition JOURNAL_VERSION :: int where "JOURNAL_VERSION = 1"
definition DEFAULT_MAX_TRACKED_JOBS :: int where "DEFAULT_MAX_TRACKED_JOBS = 256"

text \<open>Absent, unreadable (an I/O error, not JSON, or over the size bound), or a document.\<close>

datatype jfile = Missing | Unreadable | Document pyval

text \<open>\<^verbatim>\<open>str(profile)\<close>; \<open>py_str\<close> is Python's text of a value that is not a text.\<close>

definition text_of :: "(pyval \<Rightarrow> string) \<Rightarrow> pyval \<Rightarrow> string" where
  "text_of py_str v = (case v of PStr s \<Rightarrow> s | _ \<Rightarrow> py_str v)"

text \<open>\<^verbatim>\<open>document.get("version") != 1\<close>: in Python \<^verbatim>\<open>1 == 1.0 == True\<close>.\<close>

definition is_version :: "pyval option \<Rightarrow> bool" where
  "is_version v = (case v of Some (PInt n) \<Rightarrow> n = JOURNAL_VERSION | Some (PFloat (Fin q)) \<Rightarrow> q = of_int JOURNAL_VERSION
     | Some (PBool b) \<Rightarrow> b | _ \<Rightarrow> False)"

definition journal_load :: "(pyval \<Rightarrow> string) \<Rightarrow> jfile \<Rightarrow> string dict" where
  "journal_load py_str f =
     (case f of
        Document (PDict d) \<Rightarrow>
          if \<not> is_version (dget d ''version'') then []
          else (case dget d ''jobs'' of
                  Some (PDict jobs) \<Rightarrow> map (\<lambda>(k, v). (k, text_of py_str v)) jobs
                | _ \<Rightarrow> [])
      | _ \<Rightarrow> [])"

definition journal_save :: "string dict \<Rightarrow> jfile" where
  "journal_save entries =
     Document (PDict [(''version'', PInt JOURNAL_VERSION), (''jobs'', PDict (map (\<lambda>(k, v). (k, PStr v)) entries))])"

section \<open>The registry\<close>

record registry =
  rg_journal :: bool
  rg_max :: nat
  rg_tokens :: "token dict"
  rg_entries :: "string dict option"
  rg_file :: jfile

definition registry_init :: "bool \<Rightarrow> pyval \<Rightarrow> jfile \<Rightarrow> registry res" where
  "registry_init journal max_tracked_jobs f =
     (case max_tracked_jobs of
        PInt n \<Rightarrow> if n < 1 then Inl ValueError
                  else Inr \<lparr>rg_journal = journal, rg_max = nat n, rg_tokens = [], rg_entries = None, rg_file = f\<rparr>
      | _ \<Rightarrow> Inl ValueError)"

definition journal_entries :: "(pyval \<Rightarrow> string) \<Rightarrow> registry \<Rightarrow> string dict" where
  "journal_entries py_str r =
     (case rg_entries r of
        Some es \<Rightarrow> es
      | None \<Rightarrow> if rg_journal r then journal_load py_str (rg_file r) else [])"

text \<open>\<open>ok\<close>: the file operation succeeded; a failure is logged and the file keeps what it had.\<close>

definition persist :: "(pyval \<Rightarrow> string) \<Rightarrow> bool \<Rightarrow> string \<Rightarrow> bool \<Rightarrow> string \<Rightarrow> registry \<Rightarrow> registry" where
  "persist py_str ok job_id adding profile_id r =
     (if \<not> rg_journal r then r
      else let old = journal_entries py_str r;
               entries = (if adding then dset job_id profile_id old else dpop job_id old);
               r1 = r\<lparr>rg_entries := Some entries\<rparr>
           in if \<not> ok then r1
              else r1\<lparr>rg_file := (if entries \<noteq> [] then journal_save entries else Missing)\<rparr>)"

definition track :: "(pyval \<Rightarrow> string) \<Rightarrow> bool \<Rightarrow> pyval \<Rightarrow> string \<Rightarrow> registry \<Rightarrow> (token \<times> registry) res" where
  "track py_str ok job profile_id r =
     (case job of
        PStr job_id \<Rightarrow>
          if job_id = [] then Inl ValueError
          else if dhas (rg_tokens r) job_id then Inl ValueError
          else if rg_max r \<le> length (rg_tokens r) then Inl ValueError
          else Inr (token_init job_id,
                    persist py_str ok job_id True profile_id (r\<lparr>rg_tokens := dset job_id (token_init job_id) (rg_tokens r)\<rparr>))
      | _ \<Rightarrow> Inl ValueError)"

definition registry_cancel :: "string \<Rightarrow> reason \<Rightarrow> string \<Rightarrow> registry \<Rightarrow> bool \<times> registry" where
  "registry_cancel job_id rs detail r =
     (case dget (rg_tokens r) job_id of
        None \<Rightarrow> (False, r)
      | Some t \<Rightarrow> (let (delivered, t1) = token_cancel rs detail t
                   in (delivered, r\<lparr>rg_tokens := dset job_id t1 (rg_tokens r)\<rparr>)))"

definition cancel_all :: "reason \<Rightarrow> string \<Rightarrow> registry \<Rightarrow> nat \<times> registry" where
  "cancel_all rs detail r =
     (length (filter (\<lambda>(k, t). fst (token_cancel rs detail t)) (rg_tokens r)),
      r\<lparr>rg_tokens := map (\<lambda>(k, t). (k, snd (token_cancel rs detail t))) (rg_tokens r)\<rparr>)"

definition release_job :: "(pyval \<Rightarrow> string) \<Rightarrow> bool \<Rightarrow> string \<Rightarrow> registry \<Rightarrow> registry" where
  "release_job py_str ok job_id r =
     (if dhas (rg_tokens r) job_id
      then let r1 = persist py_str ok job_id False [] r in r1\<lparr>rg_tokens := dpop job_id (rg_tokens r1)\<rparr>
      else r)"

definition interrupted :: "string \<times> string \<Rightarrow> cancellation" where
  "interrupted e = \<lparr>ca_job = fst e, ca_reason = Interrupted,
     ca_detail = ''the service stopped while this job was running'' @ (if snd e = [] then [] else '' for '' @ snd e)\<rparr>"

text \<open>The removal of the file is not guarded here: \<open>Inl OSError\<close> when it fails.\<close>

definition recover :: "(pyval \<Rightarrow> string) \<Rightarrow> bool \<Rightarrow> registry \<Rightarrow> cancellation list res \<times> registry" where
  "recover py_str ok r =
     (let entries = journal_entries py_str r
      in if entries = [] then (Inr [], r\<lparr>rg_entries := Some entries\<rparr>)
         else let r1 = r\<lparr>rg_entries := Some []\<rparr>
              in if rg_journal r \<and> \<not> ok then (Inl OSError, r1)
                 else (Inr (map interrupted (sort entries)),
                       if rg_journal r then r1\<lparr>rg_file := Missing\<rparr> else r1))"

section \<open>A process and its crashes\<close>

datatype reg_op =
    OTrack string string
  | OCancel string reason string
  | OCancelAll reason string
  | ORelease string

definition reg_step :: "(pyval \<Rightarrow> string) \<Rightarrow> reg_op \<Rightarrow> registry \<Rightarrow> registry" where
  "reg_step py_str x r =
     (case x of
        OTrack j p \<Rightarrow> (case track py_str True (PStr j) p r of Inl _ \<Rightarrow> r | Inr (_, r1) \<Rightarrow> r1)
      | OCancel j rs d \<Rightarrow> snd (registry_cancel j rs d r)
      | OCancelAll rs d \<Rightarrow> snd (cancel_all rs d r)
      | ORelease j \<Rightarrow> release_job py_str True j r)"

text \<open>A new process over the file the previous one left.\<close>

definition reborn :: "registry \<Rightarrow> registry" where
  "reborn r = r\<lparr>rg_tokens := [], rg_entries := None\<rparr>"

section \<open>First reason wins\<close>

lemma token_cancel_again: "tk_cancellation t \<noteq> None \<Longrightarrow> token_cancel rs d t = (False, t)"
  by (simp add: token_cancel_def)

lemma persist_frame [simp]: "rg_tokens (persist py ok j a p r) = rg_tokens r" "rg_max (persist py ok j a p r) = rg_max r"
  "rg_journal (persist py ok j a p r) = rg_journal r"
  by (simp_all add: persist_def Let_def)

lemma track_tokens:
  "track py ok (PStr j) p r = Inr (t, r1) \<Longrightarrow>
     \<not> dhas (rg_tokens r) j \<and> t = token_init j \<and> rg_tokens r1 = dset j (token_init j) (rg_tokens r)"
  by (auto simp: track_def split: if_splits)

lemma reg_step_keeps:
  assumes "dget (rg_tokens r) j = Some t" and "tk_cancellation t \<noteq> None" and "x \<noteq> ORelease j"
  shows "dget (rg_tokens (reg_step py x r)) j = Some t"
proof (cases x)
  case (OTrack k p)
  then show ?thesis
    using assms by (auto simp: reg_step_def dhas_iff dest!: track_tokens split: sum.splits)
next
  case (OCancel k rs d)
  then show ?thesis
    using assms by (auto simp: reg_step_def registry_cancel_def token_cancel_again split: option.splits prod.splits)
next
  case (OCancelAll rs d)
  then show ?thesis
    using assms by (simp add: reg_step_def cancel_all_def dget_map_snd token_cancel_again)
next
  case (ORelease k)
  then show ?thesis using assms by (auto simp: reg_step_def release_job_def Let_def)
qed

lemma reg_steps_keep:
  "dget (rg_tokens r) j = Some t \<Longrightarrow> tk_cancellation t \<noteq> None \<Longrightarrow> ORelease j \<notin> set xs \<Longrightarrow>
     dget (rg_tokens (fold (reg_step py) xs r)) j = Some t"
proof (induction xs arbitrary: r)
  case (Cons x xs)
  then have "dget (rg_tokens (reg_step py x r)) j = Some t" by (intro reg_step_keeps) auto
  with Cons show ?case by simp
qed simp

text \<open>Cancelling a tracked job that is not cancelled yet delivers the signal once and records the
  reason; until the job is released no later cancellation, of this job or of all jobs, changes
  that reason or reports that it delivered anything, and every stage that checks or is guarded
  stops with exactly the first reason.\<close>

theorem cancellation_first_reason:
  assumes "dget (rg_tokens r) j = Some t" and "tk_cancellation t = None" and "ORelease j \<notin> set xs"
  shows "\<exists>t1 c. registry_cancel j rs d r = (True, r\<lparr>rg_tokens := dset j t1 (rg_tokens r)\<rparr>) \<and>
     tk_cancellation t1 = Some c \<and> ca_reason c = rs \<and> tk_event t1 \<and>
     dget (rg_tokens (fold (reg_step py) xs (snd (registry_cancel j rs d r)))) j = Some t1 \<and>
     (\<forall>rs' d'. \<not> fst (registry_cancel j rs' d' (fold (reg_step py) xs (snd (registry_cancel j rs d r))))) \<and>
     raise_if_cancelled t1 = Inl (Stable (reason_text rs) (ca_detail c)) \<and>
     guard t (None :: 'a res option) t1 = Some (Inl (Stable (reason_text rs) (ca_detail c)))"
proof -
  define c where "c = \<lparr>ca_job = tk_job t, ca_reason = rs, ca_detail = (if d = [] then reason_text rs else d)\<rparr>"
  define t1 where "t1 = t\<lparr>tk_cancellation := Some c, tk_event := True\<rparr>"
  have rc: "registry_cancel j rs d r = (True, r\<lparr>rg_tokens := dset j t1 (rg_tokens r)\<rparr>)"
    using assms(1,2) by (simp add: registry_cancel_def token_cancel_def t1_def c_def)
  have t1: "tk_cancellation t1 = Some c" "tk_event t1" "ca_reason c = rs" by (simp_all add: t1_def c_def)
  let ?r = "fold (reg_step py) xs (snd (registry_cancel j rs d r))"
  have k: "dget (rg_tokens ?r) j = Some t1"
    by (rule reg_steps_keep [OF _ _ assms(3)]) (simp_all add: rc t1)
  have "\<not> fst (registry_cancel j rs' d' ?r)" for rs' d'
    using k t1(1) by (simp add: registry_cancel_def token_cancel_again)
  then show ?thesis
    using rc t1 k assms(2)
    by (intro exI [of _ t1] exI [of _ c]) (simp add: raise_if_cancelled_def guard_def)
qed

section \<open>The journal mirrors the tracked jobs\<close>

lemma load_save: "journal_load py (journal_save es) = es"
proof -
  have "map (\<lambda>(k, v). (k, text_of py v)) (map (\<lambda>(k, v). (k, PStr v)) es) = es"
    by (induction es) (auto simp: text_of_def)
  then show ?thesis by (simp add: journal_load_def journal_save_def is_version_def dget_Cons del: map_map)
qed

definition mirrors :: "(pyval \<Rightarrow> string) \<Rightarrow> registry \<Rightarrow> bool" where
  "mirrors py r \<longleftrightarrow> rg_journal r \<and> dict_ok (rg_tokens r) \<and>
     (\<exists>es. rg_entries r = Some es \<and> dkeys es = dkeys (rg_tokens r) \<and> journal_load py (rg_file r) = es)"

lemma persist_mirror:
  assumes "rg_journal r" and "rg_entries r = Some es" and "r' = persist py True j a p r"
    and "es' = (if a then dset j p es else dpop j es)"
  shows "rg_entries r' = Some es' \<and> journal_load py (rg_file r') = es' \<and> rg_journal r'"
  using assms by (simp add: persist_def journal_entries_def Let_def load_save) (simp add: journal_load_def)

lemma reg_step_mirrors:
  assumes "mirrors py r"
  shows "mirrors py (reg_step py x r)"
proof -
  obtain es where es: "rg_journal r" "dict_ok (rg_tokens r)" "rg_entries r = Some es" "dkeys es = dkeys (rg_tokens r)"
    "journal_load py (rg_file r) = es" using assms by (auto simp: mirrors_def)
  have has: "dhas es k = dhas (rg_tokens r) k" for k using es(4) by (simp add: dhas_def)
  show ?thesis
  proof (cases x)
    case (OTrack j p)
    show ?thesis
    proof (cases "track py True (PStr j) p r")
      case (Inr y)
      obtain t r1 where y: "y = (t, r1)" by force
      have tr: "\<not> dhas (rg_tokens r) j" "rg_tokens r1 = dset j (token_init j) (rg_tokens r)"
        using track_tokens [of py True j p r t r1] Inr y by auto
      have r1: "r1 = persist py True j True p (r\<lparr>rg_tokens := dset j (token_init j) (rg_tokens r)\<rparr>)"
        using Inr y by (auto simp: track_def split: if_splits)
      from persist_mirror [of "r\<lparr>rg_tokens := dset j (token_init j) (rg_tokens r)\<rparr>" es r1 py j True p] es(1,3) r1
      have "rg_entries r1 = Some (dset j p es) \<and> journal_load py (rg_file r1) = dset j p es \<and> rg_journal r1" by simp
      with tr es has show ?thesis by (simp add: OTrack reg_step_def Inr y mirrors_def dkeys_dset)
    qed (use assms OTrack in \<open>simp add: reg_step_def\<close>)
  next
    case (OCancel j rs d)
    have "dkeys (dset j t1 (rg_tokens r)) = dkeys (rg_tokens r)" if "dget (rg_tokens r) j = Some t" for t t1
      using that by (simp add: dkeys_dset dhas_iff)
    then show ?thesis
      using es OCancel by (auto simp: reg_step_def registry_cancel_def mirrors_def split: option.splits prod.splits)
  next
    case (OCancelAll rs d)
    have "dkeys (map (\<lambda>(k, t). (k, f t)) ts) = dkeys ts" for f :: "token \<Rightarrow> token" and ts :: "token dict"
      by (simp add: dkeys_def case_prod_beta)
    then show ?thesis using es OCancelAll by (simp add: reg_step_def cancel_all_def mirrors_def dict_ok_def)
  next
    case (ORelease j)
    define r1 where "r1 = persist py True j False [] r"
    from persist_mirror [OF es(1,3) r1_def refl]
    have "rg_entries r1 = Some (dpop j es) \<and> journal_load py (rg_file r1) = dpop j es \<and> rg_journal r1" by simp
    moreover have "rg_tokens r1 = rg_tokens r" by (simp add: r1_def)
    ultimately show ?thesis
      using es assms ORelease by (simp add: reg_step_def release_job_def Let_def mirrors_def dkeys_dpop flip: r1_def)
  qed
qed

lemma reg_steps_mirror: "mirrors py r \<Longrightarrow> mirrors py (fold (reg_step py) xs r)"
  by (induction xs arbitrary: r) (simp_all add: reg_step_mirrors)

lemma recover_mirrors:
  assumes "registry_init True n f = Inr r0" and "recover py True r0 = (Inr cs, r1)"
  shows "mirrors py r1" "rg_tokens r1 = []"
  using assms
  by (auto simp: registry_init_def recover_def mirrors_def journal_entries_def Let_def journal_load_def
      split: pyval.splits if_splits)

lemma sort_keys: "distinct (map fst es) \<Longrightarrow> map fst (sort es) = sort (map fst (es :: (string \<times> string) list))"
proof -
  have "sorted (map fst (sort es))"
  proof -
    have "sorted_wrt (\<lambda>x y. fst x \<le> fst y) (sort es)"
      by (rule sorted_wrt_mono_rel [OF _ sorted_sort]) (auto simp: less_eq_prod_def less_le)
    then show ?thesis by (simp add: sorted_wrt_map)
  qed
  moreover have "mset (map fst (sort es)) = mset (map fst es)" by (metis mset_map mset_sort)
  ultimately show ?thesis by (metis properties_for_sort)
qed


section \<open>Witnesses\<close>

definition demo_registry :: registry where
  "demo_registry = \<lparr>rg_journal = True, rg_max = 4, rg_tokens = [(''j1'', token_init ''j1'')], rg_entries = Some [], rg_file = Missing\<rparr>"

theorem cancellation_first_reason_witness:
  "\<exists>t1. dget (rg_tokens (fold (reg_step (\<lambda>_. [])) [OCancelAll Shutdown []] (snd (registry_cancel ''j1'' Caller [] demo_registry)))) ''j1'' = Some t1 \<and>
     raise_if_cancelled t1 = Inl (Stable ''caller-cancelled'' ''caller-cancelled'')"
proof -
  have t: "dget (rg_tokens demo_registry) ''j1'' = Some (token_init ''j1'')" "tk_cancellation (token_init ''j1'') = None"
    by (simp_all add: demo_registry_def dget_Cons token_init_def)
  from cancellation_first_reason [OF t, of "[OCancelAll Shutdown []]" Caller "[]" "\<lambda>_. []", where ?'a = unit]
  obtain t1 where t1: "dget (rg_tokens (fold (reg_step (\<lambda>_. [])) [OCancelAll Shutdown []] (snd (registry_cancel ''j1'' Caller [] demo_registry)))) ''j1'' = Some t1"
    by auto
  moreover have "map_option raise_if_cancelled (dget (rg_tokens (fold (reg_step (\<lambda>_. [])) [OCancelAll Shutdown []] (snd (registry_cancel ''j1'' Caller [] demo_registry)))) ''j1'') =
      Some (Inl (Stable ''caller-cancelled'' ''caller-cancelled''))" by code_simp
  ultimately show ?thesis by auto
qed


end
