(* ===== verification/Json_Text.thy ===== *)
theory Json_Text
  imports OT_Prelude "HOL-Library.List_Lexorder" "HOL-Library.Char_ord" "HOL-Library.Word"
begin

text \<open>
  What the sources use of Python's \<^verbatim>\<open>json\<close> module and of the UTF-8 codec.  \<open>json_dumps\<close> is
  \<^verbatim>\<open>json.dumps(v, allow_nan=False, ensure_ascii=False, separators=(",", ":"), sort_keys=True)\<close> and
  \<open>json_loads\<close> is \<^verbatim>\<open>json.loads\<close>, whose flag says whether the constants \<^verbatim>\<open>NaN\<close>, \<^verbatim>\<open>Infinity\<close> and
  \<^verbatim>\<open>-Infinity\<close> are read or refused by a raising \<^verbatim>\<open>parse_constant\<close>.

  Strings are over the code points below 256, as everywhere in the development: a document that
  names a larger one is outside the model and is answered as unreadable.  How a float is spelled
  and read (\<^verbatim>\<open>float.__repr__\<close> and \<^verbatim>\<open>float\<close>) is an argument, \<open>float_text\<close>; a value is printable only
  if its floats are spelled as JSON numbers that read back as themselves (\<open>float_ok\<close>).  The limit
  of 4300 digits on converting integers is the interpreter's; its limit on nesting is not
  modelled.
\<close>

section \<open>Printing\<close>

record float_text =
  ft_repr :: "rat \<Rightarrow> string"
  ft_float :: "string \<Rightarrow> pyfloat"

definition dq :: char where "dq = CHR 0x22"
definition bslash :: char where "bslash = CHR 0x5C"

definition hex_char :: "nat \<Rightarrow> char" where
  "hex_char n = (if n < 10 then char_of (48 + n) else char_of (87 + n))"

definition esc_char :: "char \<Rightarrow> string" where
  "esc_char c =
     (let n = of_char c :: nat
      in if c = dq \<or> c = bslash then [bslash, c]
         else if n = 10 then [bslash, CHR ''n'']
         else if n = 13 then [bslash, CHR ''r'']
         else if n = 9 then [bslash, CHR ''t'']
         else if n = 12 then [bslash, CHR ''f'']
         else if n = 8 then [bslash, CHR ''b'']
         else if n < 32 then [bslash, CHR ''u'', CHR ''0'', CHR ''0'', hex_char (n div 16), hex_char (n mod 16)]
         else [c])"

definition json_string :: "string \<Rightarrow> string" where
  "json_string s = dq # concat (map esc_char s) @ [dq]"

fun join_with :: "string \<Rightarrow> string list \<Rightarrow> string" where
  "join_with sep [] = []"
| "join_with sep [t] = t"
| "join_with sep (t # u # ts) = t @ sep @ join_with sep (u # ts)"

fun json_text :: "float_text \<Rightarrow> pyval \<Rightarrow> string" where
  "json_text F PNone = ''null''"
| "json_text F (PBool b) = (if b then ''true'' else ''false'')"
| "json_text F (PInt i) = int_str i"
| "json_text F (PFloat x) = (case x of Fin q \<Rightarrow> ft_repr F q | PosInf \<Rightarrow> ''Infinity'' | NegInf \<Rightarrow> ''-Infinity'' | NaN \<Rightarrow> ''NaN'')"
| "json_text F (PStr s) = json_string s"
| "json_text F (PList vs) = ''['' @ join_with '','' (map (json_text F) vs) @ '']''"
| "json_text F (PDict d) =
     ''{'' @ join_with '','' (map (\<lambda>(k, v). json_string k @ '':'' @ json_text F v) d) @ ''}''"

text \<open>\<^verbatim>\<open>sort_keys=True\<close>, in every dictionary of the value.\<close>

fun canon :: "pyval \<Rightarrow> pyval" where
  "canon (PList vs) = PList (map canon vs)"
| "canon (PDict d) = PDict (sort_key fst (map (\<lambda>(k, v). (k, canon v)) d))"
| "canon v = v"

definition MAX_STR_DIGITS :: nat where "MAX_STR_DIGITS = 4300"

text \<open>
  The values \<^verbatim>\<open>dumps\<close> does not raise \<^verbatim>\<open>ValueError\<close> for: no infinite float or NaN, and no integer of
  too many digits.
\<close>

fun dumpable :: "pyval \<Rightarrow> bool" where
  "dumpable (PInt i) = (length (nat_str (nat \<bar>i\<bar>)) \<le> MAX_STR_DIGITS)"
| "dumpable (PFloat x) = (case x of Fin _ \<Rightarrow> True | _ \<Rightarrow> False)"
| "dumpable (PList vs) = list_all dumpable vs"
| "dumpable (PDict d) = list_all (\<lambda>(k, v). dumpable v) d"
| "dumpable v = True"

definition json_dumps :: "float_text \<Rightarrow> pyval \<Rightarrow> string res" where
  "json_dumps F v = (if dumpable v then Inr (json_text F (canon v)) else Inl ValueError)"

section \<open>Reading\<close>

definition json_ws :: "char \<Rightarrow> bool" where
  "json_ws c = (of_char c \<in> set [32, 9, 10, 13 :: nat])"

definition skip_ws :: "string \<Rightarrow> string" where
  "skip_ws s = dropWhile json_ws s"

definition json_digit :: "char \<Rightarrow> bool" where
  "json_digit c = (let n = of_char c :: nat in 48 \<le> n \<and> n \<le> 57)"

definition hex_value :: "char \<Rightarrow> nat option" where
  "hex_value c =
     (let n = of_char c :: nat
      in if 48 \<le> n \<and> n \<le> 57 then Some (n - 48)
         else if 97 \<le> n \<and> n \<le> 102 then Some (n - 87)
         else if 65 \<le> n \<and> n \<le> 70 then Some (n - 55)
         else None)"

definition unescape :: "char \<Rightarrow> char option" where
  "unescape c =
     (if c = dq \<or> c = bslash \<or> c = CHR ''/'' then Some c
      else if c = CHR ''n'' then Some (char_of (10 :: nat))
      else if c = CHR ''r'' then Some (char_of (13 :: nat))
      else if c = CHR ''t'' then Some (char_of (9 :: nat))
      else if c = CHR ''f'' then Some (char_of (12 :: nat))
      else if c = CHR ''b'' then Some (char_of (8 :: nat))
      else None)"

fun hex4 :: "char list \<Rightarrow> nat option" where
  "hex4 [a, b, c, d] =
     (case (hex_value a, hex_value b, hex_value c, hex_value d) of
        (Some w, Some x, Some y, Some z) \<Rightarrow> Some (4096 * w + 256 * x + 16 * y + z)
      | _ \<Rightarrow> None)"
| "hex4 cs = None"

definition scanned :: "char \<Rightarrow> (string \<times> string) option \<Rightarrow> (string \<times> string) option" where
  "scanned c r = map_option (\<lambda>(t, rest). (c # t, rest)) r"

text \<open>The rest of a string after its opening quote: the text and what follows the closing one.\<close>

fun scan_string :: "string \<Rightarrow> (string \<times> string) option" where
  "scan_string [] = None"
| "scan_string (c # s) =
     (if c = dq then Some ([], s)
      else if c = bslash then
        (case s of
           [] \<Rightarrow> None
         | e # s' \<Rightarrow>
             if e = CHR ''u''
             then (case hex4 (take 4 s') of
                     Some n \<Rightarrow> if n < 256 then scanned (char_of n) (scan_string (drop 4 s')) else None
                   | None \<Rightarrow> None)
             else (case unescape e of
                     Some ch \<Rightarrow> scanned ch (scan_string s')
                   | None \<Rightarrow> None))
      else if (of_char c :: nat) < 32 then None
      else scanned c (scan_string s))"

text \<open>
  \<^verbatim>\<open>(-?(?:0|[1-9]\d*))(\.\d+)?([eE][-+]?\d+)?\<close>: the three groups and the rest of the text.
\<close>

definition scan_sign :: "char set \<Rightarrow> string \<Rightarrow> string \<times> string" where
  "scan_sign cs s = (case s of c # r \<Rightarrow> if c \<in> cs then ([c], r) else ([], s) | [] \<Rightarrow> ([], s))"

definition scan_integer :: "string \<Rightarrow> (string \<times> string) option" where
  "scan_integer s =
     (let (sg, r) = scan_sign {CHR ''-''} s
      in case r of
           [] \<Rightarrow> None
         | c # r' \<Rightarrow>
             if c = CHR ''0'' then Some (sg @ [c], r')
             else if json_digit c then Some (sg @ takeWhile json_digit r, dropWhile json_digit r)
             else None)"

definition scan_fraction :: "string \<Rightarrow> string \<times> string" where
  "scan_fraction s =
     (case s of
        c # r \<Rightarrow> if c = CHR ''.'' \<and> takeWhile json_digit r \<noteq> []
                 then (c # takeWhile json_digit r, dropWhile json_digit r) else ([], s)
      | [] \<Rightarrow> ([], s))"

definition scan_exponent :: "string \<Rightarrow> string \<times> string" where
  "scan_exponent s =
     (case s of
        c # r \<Rightarrow> (let (sg, r') = scan_sign {CHR ''-'', CHR ''+''} r
                  in if c \<in> {CHR ''e'', CHR ''E''} \<and> takeWhile json_digit r' \<noteq> []
                     then (c # sg @ takeWhile json_digit r', dropWhile json_digit r') else ([], s))
      | [] \<Rightarrow> ([], s))"

definition digits_value :: "string \<Rightarrow> nat" where
  "digits_value s = foldl (\<lambda>n c. 10 * n + (of_char c - 48)) 0 s"

definition integer_value :: "string \<Rightarrow> int" where
  "integer_value s = (case s of c # r \<Rightarrow> if c = CHR ''-'' then - int (digits_value r) else int (digits_value s) | [] \<Rightarrow> 0)"

definition scan_number :: "float_text \<Rightarrow> string \<Rightarrow> (pyval \<times> string) option" where
  "scan_number F s =
     (case scan_integer s of
        None \<Rightarrow> None
      | Some (ip, r) \<Rightarrow>
          (let (fr, r1) = scan_fraction r; (ex, r2) = scan_exponent r1
           in if fr = [] \<and> ex = []
              then (if MAX_STR_DIGITS < length (filter json_digit ip) then None
                    else Some (PInt (integer_value ip), r2))
              else Some (PFloat (ft_float F (ip @ fr @ ex)), r2)))"

definition starts_with :: "string \<Rightarrow> string \<Rightarrow> bool" where
  "starts_with p s = (take (length p) s = p)"

fun scan_words :: "(string \<times> pyval) list \<Rightarrow> string \<Rightarrow> (pyval \<times> string) option" where
  "scan_words [] s = None"
| "scan_words ((w, v) # ws) s =
     (if starts_with w s then Some (v, drop (length w) s) else scan_words ws s)"

definition scan_constant :: "bool \<Rightarrow> string \<Rightarrow> (pyval \<times> string) option" where
  "scan_constant nan_ok s =
     (if nan_ok
      then scan_words [(''NaN'', PFloat NaN), (''Infinity'', PFloat PosInf), (''-Infinity'', PFloat NegInf)] s
      else None)"

text \<open>
  \<^verbatim>\<open>scan_once\<close> with \<^verbatim>\<open>JSONArray\<close> and \<^verbatim>\<open>JSONObject\<close>.  The number bounds the depth of the calls: every
  second call reads a character, so twice the length of the text is enough.
\<close>

fun scan_once :: "bool \<Rightarrow> float_text \<Rightarrow> nat \<Rightarrow> string \<Rightarrow> (pyval \<times> string) option"
and scan_elements :: "bool \<Rightarrow> float_text \<Rightarrow> nat \<Rightarrow> string \<Rightarrow> (pyval list \<times> string) option"
and scan_members :: "bool \<Rightarrow> float_text \<Rightarrow> nat \<Rightarrow> string \<Rightarrow> ((string \<times> pyval) list \<times> string) option" where
  "scan_once nan_ok F 0 s = None"
| "scan_once nan_ok F (Suc n) s =
     (case s of
        [] \<Rightarrow> None
      | c # r \<Rightarrow>
          if c = dq then map_option (\<lambda>(t, rest). (PStr t, rest)) (scan_string r)
          else if c = CHR ''{'' then
            (if starts_with ''}'' (skip_ws r) then Some (PDict [], tl (skip_ws r))
             else map_option (\<lambda>(kvs, rest). (PDict (fold (\<lambda>(k, v). dset k v) kvs []), rest))
                    (scan_members nan_ok F n (skip_ws r)))
          else if c = CHR ''['' then
            (if starts_with '']'' (skip_ws r) then Some (PList [], tl (skip_ws r))
             else map_option (\<lambda>(vs, rest). (PList vs, rest)) (scan_elements nan_ok F n (skip_ws r)))
          else (case scan_words [(''null'', PNone), (''true'', PBool True), (''false'', PBool False)] s of
                  Some x \<Rightarrow> Some x
                | None \<Rightarrow>
                    (case scan_number F s of
                       Some x \<Rightarrow> Some x
                     | None \<Rightarrow> scan_constant nan_ok s)))"
| "scan_elements nan_ok F 0 s = None"
| "scan_elements nan_ok F (Suc n) s =
     (case scan_once nan_ok F n s of
        None \<Rightarrow> None
      | Some (v, r) \<Rightarrow>
          (case skip_ws r of
             c # r' \<Rightarrow>
               if c = CHR '']'' then Some ([v], r')
               else if c = CHR '','' then map_option (\<lambda>(vs, rest). (v # vs, rest)) (scan_elements nan_ok F n (skip_ws r'))
               else None
           | [] \<Rightarrow> None))"
| "scan_members nan_ok F 0 s = None"
| "scan_members nan_ok F (Suc n) s =
     (case s of
        [] \<Rightarrow> None
      | q # s' \<Rightarrow>
          if q \<noteq> dq then None
          else (case scan_string s' of
             None \<Rightarrow> None
           | Some (k, r) \<Rightarrow>
               if \<not> starts_with '':'' (skip_ws r) then None
               else (case scan_once nan_ok F n (skip_ws (tl (skip_ws r))) of
                  None \<Rightarrow> None
                | Some (v, r2) \<Rightarrow>
                    (case skip_ws r2 of
                       c # r' \<Rightarrow>
                         if c = CHR ''}'' then Some ([(k, v)], r')
                         else if c = CHR '','' then
                           map_option (\<lambda>(kvs, rest). ((k, v) # kvs, rest)) (scan_members nan_ok F n (skip_ws r'))
                         else None
                     | [] \<Rightarrow> None))))"

definition json_loads :: "bool \<Rightarrow> float_text \<Rightarrow> string \<Rightarrow> pyval option" where
  "json_loads nan_ok F s =
     (case scan_once nan_ok F (2 * length s) (skip_ws s) of
        None \<Rightarrow> None
      | Some (v, r) \<Rightarrow> if skip_ws r = [] then Some v else None)"

section \<open>UTF-8\<close>

type_synonym octet = "8 word"

definition utf8_char :: "char \<Rightarrow> octet list" where
  "utf8_char c =
     (let n = of_char c :: nat
      in if n < 128 then [word_of_nat n] else [word_of_nat (192 + n div 64), word_of_nat (128 + n mod 64)])"

definition utf8 :: "string \<Rightarrow> octet list" where
  "utf8 s = concat (map utf8_char s)"

fun utf8_decode :: "octet list \<Rightarrow> string option" where
  "utf8_decode [] = Some []"
| "utf8_decode (b # bs) =
     (if unat b < 128 then map_option (\<lambda>t. char_of (unat b) # t) (utf8_decode bs)
      else if unat b = 194 \<or> unat b = 195 then
        (case bs of
           [] \<Rightarrow> None
         | b' # bs' \<Rightarrow>
             if 128 \<le> unat b' \<and> unat b' < 192
             then map_option (\<lambda>t. char_of (64 * (unat b - 192) + (unat b' - 128)) # t) (utf8_decode bs')
             else None)
      else None)"

section \<open>UTF-8 is undone by its decoder\<close>

lemma of_char_less: "(of_char (c :: char) :: nat) < 256"
  using nat_of_char_less_256 by simp

lemma unat_octet: "k < 256 \<Longrightarrow> unat (word_of_nat k :: octet) = k"
  by (simp add: unat_of_nat)

lemma utf8_decode_char: "utf8_decode (utf8_char c @ bs) = map_option ((#) c) (utf8_decode bs)"
proof (cases "(of_char c :: nat) < 128")
  case True
  then show ?thesis by (simp add: utf8_char_def unat_of_nat)
next
  case False
  define n where "n = (of_char c :: nat)"
  have n: "128 \<le> n" "n < 256" using False of_char_less [of c] by (simp_all add: n_def)
  then have q: "n div 64 = 2 \<or> n div 64 = 3" by auto
  have v: "64 * (n div 64) + n mod 64 = n" by simp
  have "utf8_char c = [word_of_nat (192 + n div 64), word_of_nat (128 + n mod 64)]"
    using False by (simp add: utf8_char_def Let_def n_def)
  moreover have "unat (word_of_nat (192 + n div 64) :: octet) = 192 + n div 64"
    by (rule unat_octet) (use q in auto)
  moreover have "unat (word_of_nat (128 + n mod 64) :: octet) = 128 + n mod 64"
    by (rule unat_octet) simp
  ultimately show ?thesis using q v by (auto simp: n_def simp flip: map_option_case)
qed

lemma utf8_round_trip [simp]: "utf8_decode (utf8 s) = Some s"
  by (induction s) (simp_all add: utf8_def utf8_decode_char)

lemma utf8_append [simp]: "utf8 (s @ t) = utf8 s @ utf8 t" "utf8 [] = []"
  by (simp_all add: utf8_def)

lemma utf8_Cons: "utf8 (c # s) = utf8_char c @ utf8 s"
  by (simp add: utf8_def)

section \<open>Strings\<close>

lemma hex_value_digit: "n < 16 \<Longrightarrow> hex_value (hex_char n) = Some n"
  by (auto simp: hex_value_def hex_char_def)

lemma of_char_eq_char_of: "(of_char c :: nat) = n \<Longrightarrow> c = char_of n"
  by auto

lemma scan_esc_char: "scan_string (esc_char c @ s) = scanned c (scan_string s)"
proof -
  define n where "n = (of_char c :: nat)"
  have c: "c = char_of n" "n < 256" using of_char_less [of c] by (simp_all add: n_def)
  consider "n \<in> {34, 92}" | "n \<in> {8, 9, 10, 12, 13}" | "n < 32" "n \<notin> {8, 9, 10, 12, 13}"
    | "32 \<le> n" "n \<notin> {34, 92}" by fastforce
  then show ?thesis
  proof cases
    case 1
    then show ?thesis by (auto simp: c(1) esc_char_def dq_def bslash_def unescape_def Let_def)
  next
    case 2
    then show ?thesis by (auto simp: c(1) esc_char_def dq_def bslash_def unescape_def Let_def)
  next
    case 3
    have h: "hex_value (hex_char (n div 16)) = Some (n div 16)" "hex_value (hex_char (n mod 16)) = Some (n mod 16)"
      using c(2) by (simp_all add: hex_value_digit)
    have z: "hex_value (CHR ''0'') = Some 0" by (simp add: hex_value_def)
    have ne: "c \<noteq> dq" "c \<noteq> bslash" using 3(1) by (auto simp: dq_def bslash_def n_def)
    have e: "esc_char c = [bslash, CHR ''u'', CHR ''0'', CHR ''0'', hex_char (n div 16), hex_char (n mod 16)]"
      using 3 ne by (simp add: esc_char_def Let_def n_def)
    have b: "bslash \<noteq> dq" by (simp add: dq_def bslash_def)
    show ?thesis using c(2) by (simp add: e h z b flip: c(1))
  next
    case 4
    have ne: "c \<noteq> dq" "c \<noteq> bslash" using 4 by (auto simp: dq_def bslash_def n_def)
    have "esc_char c = [c]" using 4 ne by (simp add: esc_char_def Let_def n_def)
    then show ?thesis using ne 4(1) by (simp add: n_def)
  qed
qed

lemma scan_json_string [simp]: "scan_string (concat (map esc_char t) @ dq # s) = Some (t, s)"
  by (induction t) (simp_all add: scan_esc_char scanned_def)

section \<open>Numbers\<close>

lemma json_digit_digit_char: "d < 10 \<Longrightarrow> json_digit (digit_char d)"
  by (simp add: json_digit_def digit_char_def)

lemma nat_str_digits: "list_all json_digit (nat_str n)"
  by (induction n rule: nat_str.induct)
     (subst nat_str.simps, simp add: json_digit_digit_char list_all_append)

lemma length_nat_str: "n < 10 ^ k \<Longrightarrow> 0 < k \<Longrightarrow> length (nat_str n) \<le> k"
proof (induction k arbitrary: n)
  case (Suc k)
  show ?case
  proof (cases "n < 10")
    case True
    then show ?thesis by (subst nat_str.simps) simp
  next
    case False
    then have "0 < k" using Suc.prems by (cases k) auto
    moreover have "n div 10 < 10 ^ k" using Suc.prems(1) by (simp add: less_mult_imp_div_less mult.commute)
    ultimately have "length (nat_str (n div 10)) \<le> k" using Suc.IH by blast
    then show ?thesis using False by (subst nat_str.simps) simp
  qed
qed simp

lemma nat_str_nonempty [simp]: "nat_str n \<noteq> []"
  by (subst nat_str.simps) simp

lemma digits_value_snoc: "digits_value (s @ [c]) = 10 * digits_value s + (of_char c - 48)"
  by (simp add: digits_value_def)

lemma digits_value_nat_str [simp]: "digits_value (nat_str n) = n"
proof (induction n rule: nat_str.induct)
  case (1 n)
  have d: "of_char (digit_char k) = k + 48" if "k < 10" for k using that by (simp add: digit_char_def)
  show ?case
  proof (cases "n < 10")
    case True
    then show ?thesis by (subst nat_str.simps) (simp add: digits_value_def d)
  next
    case False
    then show ?thesis using 1 by (subst nat_str.simps) (simp add: digits_value_snoc d)
  qed
qed

lemma hd_nat_str: "hd (nat_str n) = CHR ''0'' \<longleftrightarrow> n = 0"
proof (induction n rule: nat_str.induct)
  case (1 n)
  have d: "digit_char k = CHR ''0'' \<longleftrightarrow> k = 0" if "k < 10" for k
  proof -
    have "of_char (digit_char k) = k + 48" using that by (simp add: digit_char_def)
    moreover have "of_char (CHR ''0'') = (48 :: nat)" by simp
    ultimately show ?thesis by (metis add_0 add_right_cancel of_char_eq_iff)
  qed
  show ?case
  proof (cases "n < 10")
    case True
    then show ?thesis by (subst nat_str.simps) (simp add: d)
  next
    case False
    then show ?thesis using 1 by (subst nat_str.simps) simp
  qed
qed

text \<open>What follows a value inside a printed text: nothing, or one of three characters.\<close>

definition closes :: "string \<Rightarrow> bool" where
  "closes s = (case s of [] \<Rightarrow> True | c # _ \<Rightarrow> c \<in> set '',]}'')"

lemma closes_simps [simp]: "closes []" "closes (c # s) \<longleftrightarrow> c \<in> set '',]}''"
  by (simp_all add: closes_def)

lemma digits_stop:
  assumes "closes rest"
  shows "takeWhile json_digit (s @ rest) = takeWhile json_digit s"
    and "dropWhile json_digit (s @ rest) = dropWhile json_digit s @ rest"
proof -
  have "\<not> json_digit c" if "rest = c # r" for c r
    using assms that by (auto simp: json_digit_def)
  then have "takeWhile json_digit rest = [] \<and> dropWhile json_digit rest = rest"
    by (cases rest) auto
  then show "takeWhile json_digit (s @ rest) = takeWhile json_digit s"
    and "dropWhile json_digit (s @ rest) = dropWhile json_digit s @ rest"
    by (induction s) auto
qed

lemma scan_sign_append:
  assumes "closes rest" and "cs \<subseteq> {CHR ''-'', CHR ''+''}"
  shows "scan_sign cs (s @ rest) = (fst (scan_sign cs s), snd (scan_sign cs s) @ rest)"
  using assms by (cases s; cases rest) (auto simp: scan_sign_def)

lemma scan_integer_append:
  assumes "scan_integer s = Some (ip, r)" and "closes rest"
  shows "scan_integer (s @ rest) = Some (ip, r @ rest)"
  using assms(1) digits_stop [OF assms(2)] scan_sign_append [OF assms(2), of "{CHR ''-''}" s]
  by (auto simp: scan_integer_def split: prod.splits list.splits if_splits)

lemma scan_fraction_append:
  assumes "closes rest"
  shows "scan_fraction (s @ rest) = (fst (scan_fraction s), snd (scan_fraction s) @ rest)"
  using assms digits_stop [OF assms] by (cases s; cases rest) (auto simp: scan_fraction_def)

lemma scan_exponent_append:
  assumes "closes rest"
  shows "scan_exponent (s @ rest) = (fst (scan_exponent s), snd (scan_exponent s) @ rest)"
proof (cases s)
  case Nil
  then show ?thesis using assms by (cases rest) (auto simp: scan_exponent_def scan_sign_def split: list.splits)
next
  case (Cons c r)
  then show ?thesis using digits_stop [OF assms] scan_sign_append [OF assms, of "{CHR ''-'', CHR ''+''}" r]
    by (auto simp: scan_exponent_def split: prod.splits)
qed

lemma scan_number_append:
  assumes "scan_number F s = Some (v, r)" and "closes rest"
  shows "scan_number F (s @ rest) = Some (v, r @ rest)"
proof -
  obtain ip r0 where i: "scan_integer s = Some (ip, r0)"
    using assms(1) by (auto simp: scan_number_def split: option.splits)
  show ?thesis
    using assms(1) scan_integer_append [OF i assms(2)]
    by (auto simp: scan_number_def i scan_fraction_append [OF assms(2)] scan_exponent_append [OF assms(2)]
        split: prod.splits if_splits)
qed

lemma scan_number_head:
  assumes "scan_number F s = Some x"
  shows "\<exists>c r. s = c # r \<and> (json_digit c \<or> c = CHR ''-'')"
proof (cases s)
  case Nil
  then show ?thesis using assms by (simp add: scan_number_def scan_integer_def scan_sign_def)
next
  case (Cons c r)
  then show ?thesis using assms
    by (cases "c = CHR ''0''")
       (auto simp: scan_number_def scan_integer_def scan_sign_def json_digit_def split: option.splits if_splits)
qed

lemma scan_integer_nat_str:
  "scan_integer (nat_str n) = Some (nat_str n, [])" "scan_integer (CHR ''-'' # nat_str n) = Some (CHR ''-'' # nat_str n, [])"
proof -
  obtain c r where cr: "nat_str n = c # r" by (cases "nat_str n") (use nat_str_nonempty in blast)+
  have dg: "json_digit c" "takeWhile json_digit (c # r) = c # r" "dropWhile json_digit (c # r) = []"
    using nat_str_digits [of n] by (auto simp: cr takeWhile_eq_all_conv list_all_iff)
  have z: "r = []" if "c = CHR ''0''"
    using hd_nat_str [of n] that cr by (simp add: nat_str.simps [of 0])
  have m: "c \<noteq> CHR ''-''" using dg(1) by (auto simp: json_digit_def)
  show "scan_integer (nat_str n) = Some (nat_str n, [])"
    and "scan_integer (CHR ''-'' # nat_str n) = Some (CHR ''-'' # nat_str n, [])"
    using dg z m by (auto simp: cr scan_integer_def scan_sign_def)
qed

lemma scan_number_int_str:
  assumes "dumpable (PInt i)"
  shows "scan_number F (int_str i) = Some (PInt i, [])"
proof -
  have f: "filter json_digit (nat_str n) = nat_str n" for n
    using nat_str_digits [of n] by (simp add: filter_id_conv list_all_iff)
  have nm: "integer_value (nat_str n) = int n" for n
  proof -
    obtain c r where cr: "nat_str n = c # r" by (cases "nat_str n") (use nat_str_nonempty in blast)+
    have "json_digit c" using nat_str_digits [of n] by (simp add: cr)
    then have "c \<noteq> CHR ''-''" by (auto simp: json_digit_def)
    then show ?thesis using digits_value_nat_str [of n] by (simp add: integer_value_def cr)
  qed
  have nd: "\<not> json_digit (CHR ''-'')" by (simp add: json_digit_def)
  show ?thesis
  proof (cases "i < 0")
    case True
    then show ?thesis using assms
      by (simp add: int_str_def scan_number_def scan_integer_nat_str scan_fraction_def scan_exponent_def f nd
          integer_value_def)
  next
    case False
    then show ?thesis using assms
      by (simp add: int_str_def scan_number_def scan_integer_nat_str scan_fraction_def scan_exponent_def f nm)
  qed
qed

section \<open>A printed value reads back\<close>

definition float_ok :: "float_text \<Rightarrow> rat \<Rightarrow> bool" where
  "float_ok F q = (scan_number F (ft_repr F q) = Some (PFloat (Fin q), []))"

text \<open>A JSON value as Python holds it: finite numbers, and no key twice in a dictionary.\<close>

fun json_value :: "float_text \<Rightarrow> pyval \<Rightarrow> bool" where
  "json_value F (PInt i) = dumpable (PInt i)"
| "json_value F (PFloat x) = (case x of Fin q \<Rightarrow> float_ok F q | _ \<Rightarrow> False)"
| "json_value F (PList vs) = list_all (json_value F) vs"
| "json_value F (PDict d) = (dict_ok d \<and> list_all (\<lambda>(k, v). json_value F v) d)"
| "json_value F v = True"

lemma json_value_dumpable: "json_value F v \<Longrightarrow> dumpable v"
  by (induction v) (auto simp: list_all_iff split: pyfloat.splits)

lemma skip_ws_Cons [simp]: "\<not> json_ws c \<Longrightarrow> skip_ws (c # s) = c # s" "skip_ws [] = []"
  by (simp_all add: skip_ws_def)

lemma json_ws_chars [simp]:
  "\<not> json_ws (CHR '','')" "\<not> json_ws (CHR '':'')" "\<not> json_ws (CHR '']'')" "\<not> json_ws (CHR ''}'')" "\<not> json_ws dq"
  by (simp_all add: json_ws_def dq_def)

lemma starts_with_Cons [simp]: "starts_with [c] (c' # s) \<longleftrightarrow> c' = c" "\<not> starts_with [c] []"
  by (auto simp: starts_with_def)

definition opens :: "string \<Rightarrow> bool" where
  "opens s = (case s of [] \<Rightarrow> False | c # _ \<Rightarrow> \<not> json_ws c \<and> c \<notin> set ''}]'')"

lemma scan_words_number:
  "json_digit c \<or> c = CHR ''-'' \<Longrightarrow>
   scan_words [(''null'', PNone), (''true'', PBool True), (''false'', PBool False)] (c # r) = None"
  by (auto simp: starts_with_def json_digit_def)

lemma opens_number: "scan_number F s = Some x \<Longrightarrow> opens (s @ rest)"
  using scan_number_head [of F s x] by (auto simp: opens_def json_ws_def json_digit_def)

lemma json_text_opens: "json_value F v \<Longrightarrow> opens (json_text F v @ rest)"
proof (cases v)
  case (PFloat x)
  then show "json_value F v \<Longrightarrow> opens (json_text F v @ rest)"
    by (auto simp: float_ok_def split: pyfloat.splits intro: opens_number)
next
  case (PInt i)
  then show "json_value F v \<Longrightarrow> opens (json_text F v @ rest)"
    using opens_number [OF scan_number_int_str] by simp
qed (auto simp: opens_def json_ws_def dq_def json_string_def)

lemma scan_once_number:
  assumes "scan_number F s = Some (v, [])" and "closes rest" and "0 < n"
  shows "scan_once b F n (s @ rest) = Some (v, rest)"
proof -
  obtain c r where s: "s = c # r" "json_digit c \<or> c = CHR ''-''" using scan_number_head [OF assms(1)] by blast
  then have c: "c \<noteq> dq" "c \<noteq> CHR ''{''" "c \<noteq> CHR ''[''" by (auto simp: json_digit_def dq_def)
  have "scan_number F (c # r @ rest) = Some (v, rest)"
    using scan_number_append [OF assms(1,2)] by (simp add: s(1))
  moreover obtain m where "n = Suc m" using assms(3) by (cases n) auto
  ultimately show ?thesis using scan_words_number [OF s(2), of "r @ rest"] c
    by (simp add: s(1) del: scan_words.simps)
qed

lemma json_text_pos: "json_value F v \<Longrightarrow> 0 < length (json_text F v)"
  using json_text_opens [of F v "[]"] by (auto simp: opens_def)

lemma opens_skip: "opens s \<Longrightarrow> skip_ws s = s \<and> \<not> starts_with '']'' s \<and> \<not> starts_with ''}'' s"
  by (cases s) (auto simp: opens_def)

text \<open>What the induction on the value provides for its parts.\<close>

definition reads :: "bool \<Rightarrow> float_text \<Rightarrow> pyval \<Rightarrow> bool" where
  "reads b F v \<longleftrightarrow> (\<forall>n rest. 2 * length (json_text F v) \<le> n \<longrightarrow> closes rest \<longrightarrow>
     scan_once b F n (json_text F v @ rest) = Some (v, rest))"

lemma scan_elements_text:
  assumes "list_all (json_value F) vs" and "list_all (reads b F) vs" and "vs \<noteq> []"
    and "2 * length (join_with '','' (map (json_text F) vs)) < n"
  shows "scan_elements b F n (join_with '','' (map (json_text F) vs) @ '']'' @ rest) = Some (vs, rest)"
  using assms
proof (induction vs arbitrary: n)
  case (Cons v vs)
  obtain m where n: "n = Suc m" using Cons.prems(4) by (cases n) auto
  have v: "json_value F v" "reads b F v" using Cons.prems(1,2) by simp_all
  show ?case
  proof (cases vs)
    case Nil
    have "scan_once b F m (json_text F v @ '']'' @ rest) = Some (v, '']'' @ rest)"
      using v(2) Cons.prems(4) by (simp add: reads_def Nil n)
    then show ?thesis by (simp add: Nil n)
  next
    case (Cons w ws)
    let ?J = "join_with '','' (map (json_text F) vs)"
    have J: "join_with '','' (map (json_text F) (v # vs)) = json_text F v @ '','' @ ?J" by (simp add: Cons)
    have l: "2 * length (json_text F v @ '','' @ ?J) < Suc m" using Cons.prems(4) unfolding J n .
    have o: "opens (?J @ '']'' @ rest)"
      using json_text_opens [of F w] Cons.prems(1) by (cases ws) (simp_all add: Cons)
    have "scan_once b F m (json_text F v @ '','' @ ?J @ '']'' @ rest) = Some (v, '','' @ ?J @ '']'' @ rest)"
      using v(2) l by (simp add: reads_def)
    moreover have "scan_elements b F m (?J @ '']'' @ rest) = Some (vs, rest)"
      by (rule Cons.IH) (use Cons.prems l in \<open>simp_all add: Cons\<close>)
    ultimately show ?thesis using opens_skip [OF o] unfolding J n by simp
  qed
qed simp

abbreviation member_text :: "float_text \<Rightarrow> string \<times> pyval \<Rightarrow> string" where
  "member_text F \<equiv> \<lambda>(k, v). json_string k @ '':'' @ json_text F v"

lemma scan_members_text:
  assumes "list_all (\<lambda>(k, v). json_value F v) d" and "list_all (\<lambda>(k, v). reads b F v) d" and "d \<noteq> []"
    and "2 * length (join_with '','' (map (member_text F) d)) < n"
  shows "scan_members b F n (join_with '','' (map (member_text F) d) @ ''}'' @ rest) = Some (d, rest)"
  using assms
proof (induction d arbitrary: n)
  case (Cons p d)
  obtain k v where p: "p = (k, v)" by fastforce
  obtain m where n: "n = Suc m" using Cons.prems(4) by (cases n) auto
  have v: "json_value F v" "reads b F v" using Cons.prems(1,2) by (simp_all add: p)
  have sk: "skip_ws (json_text F v @ s) = json_text F v @ s" for s
    using opens_skip [OF json_text_opens [OF v(1)]] by blast
  show ?case
  proof (cases d)
    case Nil
    have "scan_once b F m (json_text F v @ ''}'' @ rest) = Some (v, ''}'' @ rest)"
      using v(2) Cons.prems(4) by (simp add: reads_def Nil n p)
    then show ?thesis using sk by (simp add: Nil n p json_string_def)
  next
    case (Cons w ws)
    let ?J = "join_with '','' (map (member_text F) d)"
    have J: "join_with '','' (map (member_text F) (p # d)) = member_text F p @ '','' @ ?J" by (simp add: Cons)
    have l: "2 * length (member_text F p @ '','' @ ?J) < Suc m" using Cons.prems(4) unfolding J n .
    have o: "skip_ws (?J @ ''}'' @ rest) = ?J @ ''}'' @ rest"
      by (cases ws) (simp_all add: Cons json_string_def split: prod.splits)
    have "scan_once b F m (json_text F v @ '','' @ ?J @ ''}'' @ rest) = Some (v, '','' @ ?J @ ''}'' @ rest)"
      using v(2) l by (simp add: reads_def p)
    moreover have "scan_members b F m (?J @ ''}'' @ rest) = Some (d, rest)"
      by (rule Cons.IH) (use Cons.prems l in \<open>simp_all add: p Cons\<close>)
    ultimately show ?thesis using o sk unfolding J n by (simp add: p json_string_def)
  qed
qed simp

lemma dset_absent: "\<not> dhas d k \<Longrightarrow> dset k v d = d @ [(k, v)]"
  by (induction d) (auto simp: dset_def dhas_def dkeys_def)

lemma fold_dset_distinct:
  "dict_ok (e @ d) \<Longrightarrow> fold (\<lambda>(k, v). dset k v) d e = e @ d"
proof (induction d arbitrary: e)
  case (Cons p d)
  obtain k v where p: "p = (k, v)" by fastforce
  have "\<not> dhas e k" using Cons.prems by (auto simp: dict_ok_def dhas_def dkeys_def p)
  then show ?case using Cons.IH [of "e @ [(k, v)]"] Cons.prems by (simp add: p dset_absent)
qed simp

lemma reads_scalar:
  assumes "json_value F v"
    and "\<And>n rest. closes rest \<Longrightarrow> scan_once b F (Suc n) (json_text F v @ rest) = Some (v, rest)"
  shows "reads b F v"
  unfolding reads_def
proof (intro allI impI)
  fix n rest
  assume "2 * length (json_text F v) \<le> n" and "closes rest"
  then show "scan_once b F n (json_text F v @ rest) = Some (v, rest)"
    using assms(2) json_text_pos [OF assms(1)] by (cases n) auto
qed

lemma reads_number:
  assumes "json_value F v" and "scan_number F (json_text F v) = Some (v, [])"
  shows "reads b F v"
  by (rule reads_scalar [OF assms(1)]) (rule scan_once_number [OF assms(2)], simp_all)

lemma json_value_reads: "json_value F v \<Longrightarrow> reads b F v"
proof (induction v)
  case (PInt i)
  then show ?case using scan_number_int_str by (simp add: reads_number)
next
  case (PFloat x)
  then show ?case by (cases x) (simp_all add: reads_number float_ok_def)
next
  case (PStr t)
  show ?case by (rule reads_scalar) (simp_all add: json_string_def)
next
  case (PList vs)
  have vs: "list_all (json_value F) vs" "list_all (reads b F) vs" using PList by (auto simp: list_all_iff)
  let ?J = "join_with '','' (map (json_text F) vs)"
  have "scan_once b F n (''['' @ ?J @ '']'' @ rest) = Some (PList vs, rest)" if le: "2 * (length ?J + 2) \<le> n" for n rest
  proof (cases vs)
    case Nil
    then show ?thesis using le by (cases n) (simp_all add: dq_def)
  next
    case (Cons w ws)
    obtain m where n: "n = Suc m" using le by (cases n) auto
    have "opens (?J @ '']'' @ rest)"
      using json_text_opens [of F w] vs(1) by (cases ws) (simp_all add: Cons)
    moreover have "scan_elements b F m (?J @ '']'' @ rest) = Some (vs, rest)"
      using scan_elements_text [OF vs] le by (simp add: n Cons)
    ultimately show ?thesis using opens_skip [of "?J @ '']'' @ rest"] by (simp add: n dq_def)
  qed
  then show ?case by (simp add: reads_def)
next
  case (PDict d)
  have d: "list_all (\<lambda>(k, v). json_value F v) d" "list_all (\<lambda>(k, v). reads b F v) d" "dict_ok d"
    using PDict by (fastforce simp: list_all_iff)+
  let ?J = "join_with '','' (map (member_text F) d)"
  have "scan_once b F n (''{'' @ ?J @ ''}'' @ rest) = Some (PDict d, rest)" if le: "2 * (length ?J + 2) \<le> n" for n rest
  proof (cases d)
    case Nil
    then show ?thesis using le by (cases n) (simp_all add: dq_def)
  next
    case (Cons w ws)
    obtain m where n: "n = Suc m" using le by (cases n) auto
    have "opens (?J @ ''}'' @ rest)"
      by (cases ws) (auto simp: Cons opens_def json_string_def dq_def json_ws_def split: prod.splits)
    moreover have "scan_members b F m (?J @ ''}'' @ rest) = Some (d, rest)"
      using scan_members_text [OF d(1,2)] le by (simp add: n Cons)
    ultimately show ?thesis using opens_skip [of "?J @ ''}'' @ rest"] fold_dset_distinct [of "[]" d] d(3)
      by (simp add: n dq_def)
  qed
  then show ?case by (simp add: reads_def)
qed (auto intro!: reads_scalar simp: starts_with_def dq_def)

lemma json_value_canon: "json_value F v \<Longrightarrow> json_value F (canon v)"
proof (induction v)
  case (PDict d)
  have "map fst (map (\<lambda>(k, v). (k, canon v)) d) = map fst d" by (induction d) auto
  then have "distinct (map fst (map (\<lambda>(k, v). (k, canon v)) d))"
    using PDict.prems by (simp only: dict_ok_def dkeys_def json_value.simps)
  then have "dict_ok (sort_key fst (map (\<lambda>(k, v). (k, canon v)) d))"
    unfolding dict_ok_def dkeys_def by (metis mset_eq_imp_distinct_iff mset_map mset_sort)
  moreover have "list_all (\<lambda>(k, v). json_value F v) (sort_key fst (map (\<lambda>(k, v). (k, canon v)) d))"
    using PDict by (fastforce simp: list_all_iff)
  ultimately show ?case by simp
qed (auto simp: list_all_iff)

text \<open>A printed value reads back as itself with the keys of its dictionaries in order.\<close>

lemma json_round_trip:
  assumes "json_value F v"
  shows "json_dumps F v = Inr (json_text F (canon v))"
    and "json_loads b F (json_text F (canon v)) = Some (canon v)"
proof -
  show "json_dumps F v = Inr (json_text F (canon v))"
    using json_value_dumpable [OF assms] by (simp add: json_dumps_def)
  have j: "json_value F (canon v)" by (rule json_value_canon [OF assms])
  have "skip_ws (json_text F (canon v)) = json_text F (canon v)"
    using opens_skip [OF json_text_opens [OF j, of "[]"]] by simp
  moreover have "scan_once b F (2 * length (json_text F (canon v))) (json_text F (canon v)) = Some (canon v, [])"
    using json_value_reads [OF j, of b] by (simp add: reads_def) (metis append_Nil2 closes_simps(1) order_refl)
  ultimately show "json_loads b F (json_text F (canon v)) = Some (canon v)"
    by (simp add: json_loads_def)
qed

text \<open>A character of a string costs at most six bytes in a printed text.\<close>

lemma length_utf8_char: "length (utf8_char c) \<le> 2"
  by (simp add: utf8_char_def Let_def)

lemma length_esc_char: "length (utf8 (esc_char c)) \<le> 6"
proof -
  have h: "length (utf8_char (hex_char n)) = 1" if "n < 16" for n
    using that by (auto simp: utf8_char_def hex_char_def)
  have "of_char c div 16 < (16 :: nat)" using of_char_less [of c] by (simp add: less_mult_imp_div_less)
  then show ?thesis using length_utf8_char [of c] h [of "of_char c div 16"] h [of "of_char c mod 16"]
    by (auto simp: esc_char_def Let_def utf8_Cons bslash_def utf8_char_def [of "CHR ''u''"]
        utf8_char_def [of "CHR ''0''"] utf8_char_def [of "CHR 0x5C"] utf8_char_def [of "CHR ''n''"]
        utf8_char_def [of "CHR ''r''"] utf8_char_def [of "CHR ''t''"] utf8_char_def [of "CHR ''f''"]
        utf8_char_def [of "CHR ''b''"])
qed

lemma length_json_string: "length (utf8 (json_string s)) \<le> 6 * length s + 2"
proof -
  have "length (utf8 (concat (map esc_char s))) \<le> 6 * length s"
  proof (induction s)
    case (Cons c s)
    then show ?case using length_esc_char [of c] by simp
  qed simp
  then show ?thesis by (simp add: json_string_def utf8_Cons dq_def utf8_char_def)
qed

end
