(* ===== verification/Ipc_Frames.thy ===== *)
theory Ipc_Frames
  imports Json_Text Job_Results
begin

text \<open>
  \<^verbatim>\<open>src/omnitensor/plugins/ipc.py\<close>: length-prefixed JSON frames between the service and its plugin
  workers, the handshake, and the messages of the protocol.  A frame read from the peer is
  untrusted, so its fields are Python values until they are validated.  \<^verbatim>\<open>frame.type\<close> is always
  a \<open>msg_type\<close> here and a result's status always a \<open>result_status\<close>: the \<^verbatim>\<open>isinstance\<close> tests of
  those two fields are the types, and a message that quotes a value of the peer keeps only
  its fixed part.  A stream is the bytes the peer sends before it closes.
\<close>

section \<open>Frames\<close>

definition FRAME_FORMAT_VERSION :: int where "FRAME_FORMAT_VERSION = 1"
definition DEFAULT_MAX_FRAME_BYTES :: int where "DEFAULT_MAX_FRAME_BYTES = 1024 * 1024"
definition MAX_REQUEST_ID_CHARS :: nat where "MAX_REQUEST_ID_CHARS = 128"
definition MAX_CAPABILITIES :: nat where "MAX_CAPABILITIES = 32"
definition MAX_CAPABILITY_CHARS :: nat where "MAX_CAPABILITY_CHARS = 64"
definition MAX_STAGE_CHARS :: nat where "MAX_STAGE_CHARS = 80"
definition WORST_CASE_CHAR_BYTES :: int where "WORST_CASE_CHAR_BYTES = 6"
definition SEQUENCE_DIGITS :: int where "SEQUENCE_DIGITS = 20"
definition HEADER_SIZE :: nat where "HEADER_SIZE = 4"

datatype msg_type =
    HELLO | READY | CONFIGURE | COLLECT | PREPROCESS | INFER | POSTPROCESS | DELIVER
  | PROGRESS | RESULT | RESULT_CHUNK | ERROR | CANCEL | HEALTH | EXECUTE

fun msg_str :: "msg_type \<Rightarrow> string" where
  "msg_str HELLO = ''hello''"
| "msg_str READY = ''ready''"
| "msg_str CONFIGURE = ''configure''"
| "msg_str COLLECT = ''collect''"
| "msg_str PREPROCESS = ''preprocess''"
| "msg_str INFER = ''infer''"
| "msg_str POSTPROCESS = ''postprocess''"
| "msg_str DELIVER = ''deliver''"
| "msg_str PROGRESS = ''progress''"
| "msg_str RESULT = ''result''"
| "msg_str RESULT_CHUNK = ''result-chunk''"
| "msg_str ERROR = ''error''"
| "msg_str CANCEL = ''cancel''"
| "msg_str HEALTH = ''health''"
| "msg_str EXECUTE = ''execute''"

definition msg_types :: "msg_type list" where
  "msg_types = [HELLO, READY, CONFIGURE, COLLECT, PREPROCESS, INFER, POSTPROCESS, DELIVER,
                PROGRESS, RESULT, RESULT_CHUNK, ERROR, CANCEL, HEALTH, EXECUTE]"

text \<open>\<^verbatim>\<open>WorkerMessageType(value)\<close>: a value that is no member's string raises.\<close>

definition msg_of :: "pyval \<Rightarrow> msg_type option" where
  "msg_of v = find (\<lambda>m. PStr (msg_str m) = v) msg_types"

record frame =
  fr_version :: pyval
  fr_type :: msg_type
  fr_request_id :: pyval
  fr_payload :: pyval

definition validate_limit :: "pyval \<Rightarrow> int res" where
  "validate_limit max_frame_bytes =
     (case max_frame_bytes of PInt n \<Rightarrow> if n < 1 then Inl ValueError else Inr n | _ \<Rightarrow> Inl ValueError)"

definition request_id_ok :: "pyval \<Rightarrow> bool" where
  "request_id_ok v = (case v of PStr s \<Rightarrow> 1 \<le> length s \<and> length s \<le> MAX_REQUEST_ID_CHARS | _ \<Rightarrow> False)"

definition positive_int :: "pyval \<Rightarrow> bool" where
  "positive_int v = (case v of PInt n \<Rightarrow> 1 \<le> n | _ \<Rightarrow> False)"

definition validate_frame :: "frame \<Rightarrow> unit res" where
  "validate_frame f =
     (if \<not> positive_int (fr_version f)
      then Inl (Stable ''invalid-frame-version'' ''version must be a positive integer'')
      else if fr_request_id f \<noteq> PNone \<and> \<not> request_id_ok (fr_request_id f)
      then Inl (Stable ''invalid-request-id''
                  (''requestId must be null or 1-'' @ nat_str MAX_REQUEST_ID_CHARS @ '' characters''))
      else if \<not> is_dict (fr_payload f)
      then Inl (Stable ''invalid-payload'' ''payload must be a JSON object'')
      else Inr ())"

text \<open>\<^verbatim>\<open>struct.Struct("!I")\<close>: four bytes, the most significant first.\<close>

definition header_pack :: "nat \<Rightarrow> octet list res" where
  "header_pack n =
     (if 2 ^ 32 \<le> n then Inl StructError
      else Inr (map word_of_nat [n div 2 ^ 24 mod 256, n div 2 ^ 16 mod 256, n div 2 ^ 8 mod 256, n mod 256]))"

definition header_unpack :: "octet list \<Rightarrow> nat" where
  "header_unpack bs = foldl (\<lambda>n b. 256 * n + unat b) 0 bs"

definition frame_document :: "frame \<Rightarrow> pyval" where
  "frame_document f =
     PDict [(''payload'', fr_payload f), (''requestId'', fr_request_id f),
            (''type'', PStr (msg_str (fr_type f))), (''version'', fr_version f)]"

definition encode_frame :: "float_text \<Rightarrow> pyval \<Rightarrow> frame \<Rightarrow> octet list res" where
  "encode_frame F max_frame_bytes f =
     bind_res (validate_limit max_frame_bytes) (\<lambda>limit.
     bind_res (validate_frame f) (\<lambda>_.
       case json_dumps F (frame_document f) of
         Inl _ \<Rightarrow> Inl (Stable ''invalid-payload'' ''payload must contain JSON values'')
       | Inr body \<Rightarrow>
           if limit < int (length (utf8 body))
           then Inl (Stable ''frame-too-large''
                  (''frame is '' @ nat_str (length (utf8 body)) @ '' bytes; limit is '' @ int_str limit))
           else map_res (\<lambda>header. header @ utf8 body) (header_pack (length (utf8 body)))))"

definition decode_document :: "pyval option \<Rightarrow> frame res" where
  "decode_document document =
     (case document of
        None \<Rightarrow> Inl (Stable ''invalid-json'' ''frame body must be finite UTF-8 JSON'')
      | Some (PDict d) \<Rightarrow>
          if set (dkeys d) \<noteq> {''version'', ''type'', ''requestId'', ''payload''}
          then Inl (Stable ''invalid-frame'' ''frame fields do not match the contract'')
          else (case msg_of (the (dget d ''type'')) of
                  None \<Rightarrow> Inl (Stable ''unknown-message-type'' ''unsupported type'')
                | Some m \<Rightarrow>
                    (let f = \<lparr>fr_version = the (dget d ''version''), fr_type = m,
                              fr_request_id = the (dget d ''requestId''), fr_payload = the (dget d ''payload'')\<rparr>
                     in bind_res (validate_frame f) (\<lambda>_. Inr f)))
      | Some _ \<Rightarrow> Inl (Stable ''invalid-frame'' ''frame fields do not match the contract''))"

definition decode_body :: "float_text \<Rightarrow> octet list \<Rightarrow> frame res" where
  "decode_body F body =
     decode_document (case utf8_decode body of None \<Rightarrow> None | Some text \<Rightarrow> json_loads False F text)"

definition validate_declared_size :: "nat \<Rightarrow> int \<Rightarrow> unit res" where
  "validate_declared_size declared limit =
     (if limit < int declared
      then Inl (Stable ''frame-too-large''
             (''declared '' @ nat_str declared @ '' bytes; limit is '' @ int_str limit))
      else Inr ())"

definition decode_frame :: "float_text \<Rightarrow> pyval \<Rightarrow> octet list \<Rightarrow> frame res" where
  "decode_frame F max_frame_bytes data =
     bind_res (validate_limit max_frame_bytes) (\<lambda>limit.
       if length data < HEADER_SIZE then Inl (Stable ''truncated-frame'' ''missing length header'')
       else (let declared = header_unpack (take HEADER_SIZE data); actual = length data - HEADER_SIZE
             in bind_res (validate_declared_size declared limit) (\<lambda>_.
                  if actual \<noteq> declared
                  then Inl (Stable ''frame-size-mismatch''
                         (''declared '' @ nat_str declared @ '' bytes; received '' @ nat_str actual))
                  else decode_body F (drop HEADER_SIZE data))))"

text \<open>\<^verbatim>\<open>readexactly\<close>: the bytes asked for, or all that were left before the stream ended.\<close>

definition readexactly :: "nat \<Rightarrow> octet list \<Rightarrow> octet list res \<times> octet list" where
  "readexactly n stream =
     (if length stream < n
      then (Inl (Stable ''truncated-frame''
              (''expected '' @ nat_str n @ '' bytes; received '' @ nat_str (length stream))), [])
      else (Inr (take n stream), drop n stream))"

definition read_frame :: "float_text \<Rightarrow> pyval \<Rightarrow> octet list \<Rightarrow> frame res \<times> octet list" where
  "read_frame F max_frame_bytes stream =
     (case validate_limit max_frame_bytes of
        Inl e \<Rightarrow> (Inl e, stream)
      | Inr limit \<Rightarrow>
          (case readexactly HEADER_SIZE stream of
             (Inl e, rest) \<Rightarrow> (Inl e, rest)
           | (Inr header, rest) \<Rightarrow>
               (case validate_declared_size (header_unpack header) limit of
                  Inl e \<Rightarrow> (Inl e, rest)
                | Inr _ \<Rightarrow>
                    (case readexactly (header_unpack header) rest of
                       (Inl e, rest') \<Rightarrow> (Inl e, rest')
                     | (Inr body, rest') \<Rightarrow> (decode_body F body, rest')))))"

text \<open>What has been written so far, and what is written after one more frame.\<close>

definition write_frame :: "float_text \<Rightarrow> pyval \<Rightarrow> frame \<Rightarrow> octet list \<Rightarrow> octet list res" where
  "write_frame F max_frame_bytes f written = map_res (\<lambda>bs. written @ bs) (encode_frame F max_frame_bytes f)"

section \<open>Handshake\<close>

record offer =
  of_plugin :: pyval
  of_minimum :: pyval
  of_maximum :: pyval
  of_capabilities :: "string set"

record agreement =
  ag_plugin :: pyval
  ag_version :: int
  ag_capabilities :: "string set"

text \<open>\<^verbatim>\<open>^[a-z0-9]+(?:-[a-z0-9]+)*$\<close>, matched as a whole.\<close>

definition plugin_id_ok :: "pyval \<Rightarrow> bool" where
  "plugin_id_ok v = (case v of PStr s \<Rightarrow> words_by lower_alnum (CHR ''-'') False s | _ \<Rightarrow> False)"

definition capability_ok :: "string \<Rightarrow> bool" where
  "capability_ok c = (c \<noteq> [] \<and> length c \<le> MAX_CAPABILITY_CHARS)"

definition validate_offer :: "offer \<Rightarrow> unit res" where
  "validate_offer x =
     (if \<not> plugin_id_ok (of_plugin x) then Inl (Stable ''invalid-plugin-id'' ''invalid plugin id'')
      else (case (of_minimum x, of_maximum x) of
          (PInt lo, PInt hi) \<Rightarrow>
            if lo < 1 \<or> hi < lo
            then Inl (Stable ''invalid-protocol-range'' ''protocol range must be positive and ordered'')
            else if MAX_CAPABILITIES < card (of_capabilities x) \<or> \<not> (\<forall>c \<in> of_capabilities x. capability_ok c)
            then Inl (Stable ''invalid-capabilities''
                   (''at most '' @ nat_str MAX_CAPABILITIES @ '' capabilities of 1-'' @ nat_str MAX_CAPABILITY_CHARS @ '' characters''))
            else Inr ()
        | _ \<Rightarrow> Inl (Stable ''invalid-protocol-range'' ''protocol versions must be integers'')))"

definition handshake_frame :: "offer \<Rightarrow> frame res" where
  "handshake_frame x =
     bind_res (validate_offer x) (\<lambda>_.
       Inr \<lparr>fr_version = PInt FRAME_FORMAT_VERSION, fr_type = HELLO, fr_request_id = PNone,
            fr_payload = PDict [(''pluginId'', of_plugin x), (''minimumVersion'', of_minimum x),
              (''maximumVersion'', of_maximum x),
              (''capabilities'', PList (map PStr (sorted_list_of_set (of_capabilities x))))]\<rparr>)"

definition require_frame_version :: "frame \<Rightarrow> int \<Rightarrow> unit res" where
  "require_frame_version f expected =
     (if fr_version f \<noteq> PInt expected
      then Inl (Stable ''frame-version-incompatible'' (''expected '' @ int_str expected))
      else Inr ())"

text \<open>
  The fields of a payload when they are exactly the expected ones.  A validated frame carries a
  dictionary.
\<close>

definition payload_fields :: "string \<Rightarrow> string \<Rightarrow> string list \<Rightarrow> frame \<Rightarrow> pyval dict res" where
  "payload_fields code what expected f =
     (case fr_payload f of
        PDict d \<Rightarrow>
          if set (dkeys d) \<noteq> set expected
          then Inl (Stable code (what @ '' fields do not match the contract'')) else Inr d
      | _ \<Rightarrow> Inl TypeError)"

fun all_strings :: "pyval list \<Rightarrow> string list option" where
  "all_strings [] = Some []"
| "all_strings (PStr s # vs) = map_option ((#) s) (all_strings vs)"
| "all_strings (_ # vs) = None"

definition string_array :: "pyval \<Rightarrow> string list option" where
  "string_array v = (case v of PList vs \<Rightarrow> all_strings vs | _ \<Rightarrow> None)"

definition parse_handshake :: "frame \<Rightarrow> offer res" where
  "parse_handshake f =
     bind_res (require_frame_version f FRAME_FORMAT_VERSION) (\<lambda>_.
       if fr_type f \<noteq> HELLO \<or> fr_request_id f \<noteq> PNone
       then Inl (Stable ''invalid-handshake'' ''first frame must be an uncorrelated hello'')
       else bind_res (payload_fields ''invalid-handshake'' ''hello''
                        [''pluginId'', ''minimumVersion'', ''maximumVersion'', ''capabilities''] f) (\<lambda>d.
         case string_array (at_field d ''capabilities'') of
           None \<Rightarrow> Inl (Stable ''invalid-handshake'' ''capabilities must be a string array'')
         | Some cs \<Rightarrow>
             (let x = \<lparr>of_plugin = at_field d ''pluginId'', of_minimum = at_field d ''minimumVersion'',
                       of_maximum = at_field d ''maximumVersion'', of_capabilities = set cs\<rparr>
              in bind_res (validate_offer x) (\<lambda>_. Inr x))))"

definition int_field :: "pyval \<Rightarrow> int" where
  "int_field v = (case v of PInt n \<Rightarrow> n | _ \<Rightarrow> 0)"

definition negotiate_handshake :: "offer \<Rightarrow> offer \<Rightarrow> agreement res" where
  "negotiate_handshake service worker =
     bind_res (validate_offer service) (\<lambda>_.
     bind_res (validate_offer worker) (\<lambda>_.
       if of_plugin service \<noteq> of_plugin worker
       then Inl (Stable ''plugin-identity-mismatch'' ''expected another plugin'')
       else (let minimum = max (int_field (of_minimum service)) (int_field (of_minimum worker));
                 maximum = min (int_field (of_maximum service)) (int_field (of_maximum worker))
             in if maximum < minimum
                then Inl (Stable ''protocol-version-incompatible'' ''no common protocol version'')
                else Inr \<lparr>ag_plugin = of_plugin service, ag_version = maximum,
                          ag_capabilities = of_capabilities service \<inter> of_capabilities worker\<rparr>)))"

text \<open>
  The service writes its offer first and then reads the worker's; the worker reads first and
  answers only an offer it agrees with.  Each returns what it wrote and what it left unread.
\<close>

definition perform_service_handshake ::
    "float_text \<Rightarrow> pyval \<Rightarrow> offer \<Rightarrow> octet list \<Rightarrow> agreement res \<times> octet list \<times> octet list" where
  "perform_service_handshake F max_frame_bytes x stream =
     (case bind_res (handshake_frame x) (encode_frame F max_frame_bytes) of
        Inl e \<Rightarrow> (Inl e, [], stream)
      | Inr written \<Rightarrow>
          (case read_frame F max_frame_bytes stream of
             (r, rest) \<Rightarrow> (bind_res r (\<lambda>f. bind_res (parse_handshake f) (negotiate_handshake x)), written, rest)))"

definition perform_worker_handshake ::
    "float_text \<Rightarrow> pyval \<Rightarrow> offer \<Rightarrow> octet list \<Rightarrow> agreement res \<times> octet list \<times> octet list" where
  "perform_worker_handshake F max_frame_bytes x stream =
     (case read_frame F max_frame_bytes stream of
        (r, rest) \<Rightarrow>
          (case bind_res r (\<lambda>f. bind_res (parse_handshake f) (\<lambda>service. negotiate_handshake service x)) of
             Inl e \<Rightarrow> (Inl e, [], rest)
           | Inr a \<Rightarrow>
               (case bind_res (handshake_frame x) (encode_frame F max_frame_bytes) of
                  Inl e \<Rightarrow> (Inl e, [], rest)
                | Inr written \<Rightarrow> (Inr a, written, rest))))"

definition ready_frame :: "pyval \<Rightarrow> frame" where
  "ready_frame plugin_id =
     \<lparr>fr_version = PInt FRAME_FORMAT_VERSION, fr_type = READY, fr_request_id = PNone,
      fr_payload = PDict [(''pluginId'', plugin_id)]\<rparr>"

definition parse_ready :: "frame \<Rightarrow> pyval \<Rightarrow> unit res" where
  "parse_ready f plugin_id =
     bind_res (require_frame_version f FRAME_FORMAT_VERSION) (\<lambda>_.
       if fr_type f \<noteq> READY \<or> fr_request_id f \<noteq> PNone
       then Inl (Stable ''invalid-ready'' ''expected an uncorrelated ready frame'')
       else bind_res (payload_fields ''invalid-ready'' ''ready'' [''pluginId''] f) (\<lambda>d.
         if at_field d ''pluginId'' \<noteq> plugin_id
         then Inl (Stable ''plugin-identity-mismatch'' ''expected another plugin'')
         else Inr ()))"

definition await_worker_ready :: "float_text \<Rightarrow> pyval \<Rightarrow> pyval \<Rightarrow> octet list \<Rightarrow> unit res \<times> octet list" where
  "await_worker_ready F max_frame_bytes plugin_id stream =
     (case read_frame F max_frame_bytes stream of
        (r, rest) \<Rightarrow> (bind_res r (\<lambda>f. parse_ready f plugin_id), rest))"

section \<open>Requests, progress and results\<close>

text \<open>
  \<^verbatim>\<open>PluginRequest\<close>, \<^verbatim>\<open>PluginProgress\<close> and \<^verbatim>\<open>PluginResult\<close> as they travel: dataclasses check nothing, so
  every field holds whatever the sender or the peer put there.
\<close>

record plugin_request =
  rq_job :: pyval
  rq_plugin :: pyval
  rq_trigger :: pyval
  rq_payload :: pyval
  rq_submitted_at :: pyval
  rq_deadline_at :: pyval

record plugin_progress =
  pp_job :: pyval
  pp_stage :: pyval
  pp_fraction :: pyval
  pp_detail :: pyval
  pp_observed_at :: pyval

record plugin_result =
  pl_job :: pyval
  pl_status :: result_status
  pl_output :: pyval
  pl_detail :: pyval
  pl_completed_at :: pyval

definition text_within :: "nat \<Rightarrow> pyval \<Rightarrow> bool" where
  "text_within n v = (case v of PStr s \<Rightarrow> 1 \<le> length s \<and> length s \<le> n | _ \<Rightarrow> False)"

definition deadline_ok :: "pyval \<Rightarrow> pyval \<Rightarrow> bool" where
  "deadline_ok deadline submitted =
     (case deadline of PNone \<Rightarrow> True | PInt n \<Rightarrow> int_field submitted \<le> n | _ \<Rightarrow> False)"

definition validate_request :: "plugin_request \<Rightarrow> unit res" where
  "validate_request r =
     (if \<not> text_within MAX_REQUEST_ID_CHARS (rq_job r) then Inl (Stable ''invalid-execute'' ''request job id is invalid'')
      else if \<not> plugin_id_ok (rq_plugin r) then Inl (Stable ''invalid-execute'' ''request plugin id is invalid'')
      else if \<not> text_within 80 (rq_trigger r) then Inl (Stable ''invalid-execute'' ''request trigger is invalid'')
      else if \<not> is_dict (rq_payload r) then Inl (Stable ''invalid-execute'' ''request payload must be an object'')
      else if \<not> positive_int (rq_submitted_at r) then Inl (Stable ''invalid-execute'' ''request timestamp is invalid'')
      else if \<not> deadline_ok (rq_deadline_at r) (rq_submitted_at r)
      then Inl (Stable ''invalid-execute'' ''request deadline is invalid'')
      else Inr ())"

definition fraction_ok :: "pyval \<Rightarrow> bool" where
  "fraction_ok v =
     (case v of PInt n \<Rightarrow> 0 \<le> n \<and> n \<le> 1 | PFloat (Fin q) \<Rightarrow> 0 \<le> q \<and> q \<le> 1 | _ \<Rightarrow> False)"

definition validate_request_id :: "pyval \<Rightarrow> string \<Rightarrow> unit res" where
  "validate_request_id v label =
     (if \<not> text_within MAX_REQUEST_ID_CHARS v
      then Inl (Stable (''invalid-'' @ label) (label @ '' job id is invalid'')) else Inr ())"

definition validate_progress :: "plugin_progress \<Rightarrow> unit res" where
  "validate_progress p =
     (if \<not> (text_within MAX_STAGE_CHARS (pp_stage p) \<and> fraction_ok (pp_fraction p) \<and>
            is_str (pp_detail p) \<and> positive_int (pp_observed_at p))
      then Inl (Stable ''invalid-progress'' ''progress fields are invalid'')
      else validate_request_id (pp_job p) ''progress'')"

definition validate_result :: "plugin_result \<Rightarrow> unit res" where
  "validate_result r =
     (if \<not> (is_dict (pl_output r) \<and> is_str (pl_detail r) \<and> positive_int (pl_completed_at r))
      then Inl (Stable ''invalid-result'' ''result fields are invalid'')
      else validate_request_id (pl_job r) ''result'')"

definition execute_frame :: "plugin_request \<Rightarrow> frame res" where
  "execute_frame r =
     bind_res (validate_request r) (\<lambda>_.
       Inr \<lparr>fr_version = PInt FRAME_FORMAT_VERSION, fr_type = EXECUTE, fr_request_id = rq_job r,
            fr_payload = PDict [(''pluginId'', rq_plugin r), (''trigger'', rq_trigger r), (''payload'', rq_payload r),
              (''submittedAt'', rq_submitted_at r), (''deadlineAt'', rq_deadline_at r)]\<rparr>)"

definition parse_execute :: "int \<Rightarrow> frame \<Rightarrow> plugin_request res" where
  "parse_execute protocol_version f =
     bind_res (require_frame_version f protocol_version) (\<lambda>_.
       if fr_type f \<noteq> EXECUTE \<or> fr_request_id f = PNone
       then Inl (Stable ''invalid-execute'' ''expected a correlated execute frame'')
       else bind_res (payload_fields ''invalid-execute'' ''execute''
                        [''pluginId'', ''trigger'', ''payload'', ''submittedAt'', ''deadlineAt''] f) (\<lambda>d.
         (let r = \<lparr>rq_job = fr_request_id f, rq_plugin = at_field d ''pluginId'', rq_trigger = at_field d ''trigger'',
                   rq_payload = at_field d ''payload'', rq_submitted_at = at_field d ''submittedAt'',
                   rq_deadline_at = at_field d ''deadlineAt''\<rparr>
          in bind_res (validate_request r) (\<lambda>_. Inr r))))"

text \<open>\<^verbatim>\<open>float(progress.fraction)\<close>.\<close>

definition as_float :: "pyval \<Rightarrow> pyval" where
  "as_float v = (case v of PInt n \<Rightarrow> PFloat (Fin (of_int n)) | _ \<Rightarrow> v)"

definition progress_frame :: "plugin_progress \<Rightarrow> frame res" where
  "progress_frame p =
     bind_res (validate_progress p) (\<lambda>_.
       Inr \<lparr>fr_version = PInt FRAME_FORMAT_VERSION, fr_type = PROGRESS, fr_request_id = pp_job p,
            fr_payload = PDict [(''stage'', pp_stage p), (''fraction'', as_float (pp_fraction p)),
              (''detail'', pp_detail p), (''observedAt'', pp_observed_at p)]\<rparr>)"

definition parse_progress :: "int \<Rightarrow> frame \<Rightarrow> plugin_progress res" where
  "parse_progress protocol_version f =
     bind_res (require_frame_version f protocol_version) (\<lambda>_.
       if fr_type f \<noteq> PROGRESS \<or> fr_request_id f = PNone
       then Inl (Stable ''invalid-progress'' ''expected a correlated progress frame'')
       else bind_res (payload_fields ''invalid-progress'' ''progress'' [''stage'', ''fraction'', ''detail'', ''observedAt''] f) (\<lambda>d.
         (let p = \<lparr>pp_job = fr_request_id f, pp_stage = at_field d ''stage'', pp_fraction = at_field d ''fraction'',
                   pp_detail = at_field d ''detail'', pp_observed_at = at_field d ''observedAt''\<rparr>
          in bind_res (validate_progress p) (\<lambda>_. Inr p))))"

definition result_payload :: "plugin_result \<Rightarrow> pyval" where
  "result_payload r =
     PDict [(''status'', PStr (status_str (pl_status r))), (''output'', pl_output r),
            (''detail'', pl_detail r), (''completedAt'', pl_completed_at r)]"

definition result_frame :: "plugin_result \<Rightarrow> frame res" where
  "result_frame r =
     bind_res (validate_result r) (\<lambda>_.
       Inr \<lparr>fr_version = PInt FRAME_FORMAT_VERSION, fr_type = RESULT, fr_request_id = pl_job r,
            fr_payload = result_payload r\<rparr>)"

definition chunk_frame :: "pyval \<Rightarrow> nat \<Rightarrow> bool \<Rightarrow> string \<Rightarrow> frame" where
  "chunk_frame request_id sequence final body =
     \<lparr>fr_version = PInt FRAME_FORMAT_VERSION, fr_type = RESULT_CHUNK, fr_request_id = request_id,
      fr_payload = PDict [(''sequence'', PInt (int sequence)), (''final'', PBool final), (''body'', PStr body)]\<rparr>"

text \<open>\<^verbatim>\<open>_split_body\<close>; the limit was validated when the whole result did not fit.\<close>

definition chunk_span :: "int \<Rightarrow> nat \<Rightarrow> nat" where
  "chunk_span limit envelope =
     nat (max 1 ((limit - int envelope - SEQUENCE_DIGITS) div WORST_CASE_CHAR_BYTES))"

definition split_body :: "float_text \<Rightarrow> pyval \<Rightarrow> pyval \<Rightarrow> string \<Rightarrow> string list res" where
  "split_body F max_frame_bytes request_id body =
     bind_res (encode_frame F max_frame_bytes (chunk_frame request_id 0 False [])) (\<lambda>envelope.
       let parts = split_chunks (chunk_span (int_field max_frame_bytes) (length envelope)) body
       in Inr (if parts = [] then [[]] else parts))"

definition chunk_frames :: "pyval \<Rightarrow> string list \<Rightarrow> frame list" where
  "chunk_frames request_id parts =
     map (\<lambda>(i, part). chunk_frame request_id i (i = length parts - 1) part) (enumerate 0 parts)"

definition result_frames :: "float_text \<Rightarrow> pyval \<Rightarrow> plugin_result \<Rightarrow> frame list res" where
  "result_frames F max_frame_bytes r =
     bind_res (result_frame r) (\<lambda>f.
       case encode_frame F max_frame_bytes f of
         Inr _ \<Rightarrow> Inr [f]
       | Inl (Stable code detail) \<Rightarrow>
           if code \<noteq> ''frame-too-large'' then Inl (Stable code detail)
           else bind_res (json_dumps F (fr_payload f)) (\<lambda>body.
                map_res (chunk_frames (pl_job r)) (split_body F max_frame_bytes (pl_job r) body))
       | Inl e \<Rightarrow> Inl e)"

definition parse_result_chunk :: "int \<Rightarrow> frame \<Rightarrow> nat \<Rightarrow> (string \<times> bool) res" where
  "parse_result_chunk protocol_version f expected_sequence =
     bind_res (require_frame_version f protocol_version) (\<lambda>_.
       if fr_type f \<noteq> RESULT_CHUNK \<or> fr_request_id f = PNone
       then Inl (Stable ''invalid-result'' ''expected a correlated result chunk'')
       else bind_res (payload_fields ''invalid-result'' ''result chunk'' [''sequence'', ''final'', ''body''] f) (\<lambda>d.
         if at_field d ''sequence'' \<noteq> PInt (int expected_sequence)
         then Inl (Stable ''invalid-result'' ''result chunks arrived out of order'')
         else (case (at_field d ''final'', at_field d ''body'') of
                 (PBool final, PStr body) \<Rightarrow> Inr (body, final)
               | _ \<Rightarrow> Inl (Stable ''invalid-result'' ''result chunk fields are invalid''))))"

text \<open>\<^verbatim>\<open>PluginResultStatus(value)\<close>.\<close>

definition status_of :: "pyval \<Rightarrow> result_status option" where
  "status_of v = find (\<lambda>s. PStr (status_str s) = v) [SUCCEEDED, CANCELLED, FAILED]"

definition parse_result :: "int \<Rightarrow> frame \<Rightarrow> plugin_result res" where
  "parse_result protocol_version f =
     bind_res (require_frame_version f protocol_version) (\<lambda>_.
       if fr_type f \<noteq> RESULT \<or> fr_request_id f = PNone
       then Inl (Stable ''invalid-result'' ''expected a correlated result frame'')
       else bind_res (payload_fields ''invalid-result'' ''result'' [''status'', ''output'', ''detail'', ''completedAt''] f) (\<lambda>d.
         case status_of (at_field d ''status'') of
           None \<Rightarrow> Inl (Stable ''invalid-result'' ''result status is invalid'')
         | Some status \<Rightarrow>
             (let r = \<lparr>pl_job = fr_request_id f, pl_status = status, pl_output = at_field d ''output'',
                       pl_detail = at_field d ''detail'', pl_completed_at = at_field d ''completedAt''\<rparr>
              in bind_res (validate_result r) (\<lambda>_. Inr r))))"

definition assemble_result_chunks :: "float_text \<Rightarrow> pyval \<Rightarrow> string list \<Rightarrow> plugin_result res" where
  "assemble_result_chunks F request_id parts =
     (case json_loads True F (concat parts) of
        None \<Rightarrow> Inl (Stable ''invalid-result'' ''split result is not valid JSON'')
      | Some (PDict d) \<Rightarrow>
          parse_result FRAME_FORMAT_VERSION
            \<lparr>fr_version = PInt FRAME_FORMAT_VERSION, fr_type = RESULT, fr_request_id = request_id, fr_payload = PDict d\<rparr>
      | Some _ \<Rightarrow> Inl (Stable ''invalid-result'' ''split result is not an object''))"

section \<open>A frame reads back\<close>

text \<open>What a sender may put in a frame: validated fields and JSON values.\<close>

definition frame_ok :: "float_text \<Rightarrow> frame \<Rightarrow> bool" where
  "frame_ok F f = (validate_frame f = Inr () \<and> json_value F (fr_version f) \<and> json_value F (fr_payload f))"

definition frame_norm :: "frame \<Rightarrow> frame" where
  "frame_norm f = f\<lparr>fr_payload := canon (fr_payload f)\<rparr>"

definition frame_body :: "float_text \<Rightarrow> frame \<Rightarrow> octet list" where
  "frame_body F f = utf8 (json_text F (canon (frame_document f)))"

lemma header_round_trip:
  assumes "n < 2 ^ 32"
  shows "\<exists>bs. header_pack n = Inr bs \<and> length bs = HEADER_SIZE \<and> header_unpack bs = n"
proof -
  have o: "unat (word_of_nat (m mod 256) :: octet) = m mod 256" for m
    by (rule unat_octet) simp
  define a b c where abc: "a = n div 256" "b = a div 256" "c = b div 256"
  have d: "n div 2 ^ 8 = a" "n div 2 ^ 16 = b" "n div 2 ^ 24 = c" by (simp_all add: abc div_mult2_eq [symmetric])
  have c: "c < 256" using assms by (simp add: d(3) [symmetric] less_mult_imp_div_less)
  have "256 * c + b mod 256 = b" "256 * b + a mod 256 = a" "256 * a + n mod 256 = n"
    by (simp_all add: abc)
  then have "256 * (256 * (256 * (n div 2 ^ 24 mod 256) + n div 2 ^ 16 mod 256) + n div 2 ^ 8 mod 256) + n mod 256 = n"
    unfolding d using c by simp
  then show ?thesis using assms unat_octet [OF c, folded d(3)]
    by (simp add: header_pack_def header_unpack_def HEADER_SIZE_def o del: of_nat_numeral of_nat_mod)
qed

lemma canon_document:
  assumes "validate_frame f = Inr ()"
  shows "canon (frame_document f) = frame_document (frame_norm f)"
proof -
  have "canon (fr_request_id f) = fr_request_id f"
    using assms by (auto simp: validate_frame_def request_id_ok_def split: if_splits pyval.splits)
  moreover have "canon (fr_version f) = fr_version f"
    using assms by (auto simp: validate_frame_def positive_int_def split: if_splits pyval.splits)
  ultimately show ?thesis by (simp add: frame_document_def frame_norm_def less_char_def)
qed

lemma json_value_document:
  assumes "frame_ok F f"
  shows "json_value F (frame_document f)"
proof -
  have "json_value F (fr_request_id f)"
    using assms by (auto simp: frame_ok_def validate_frame_def request_id_ok_def split: if_splits pyval.splits)
  then show ?thesis using assms by (simp add: frame_ok_def frame_document_def dict_ok_def dkeys_def)
qed

lemma encode_frame_eq:
  assumes "frame_ok F f"
  shows "encode_frame F (PInt n) f =
    (if n < 1 then Inl ValueError
     else if n < int (length (frame_body F f))
     then Inl (Stable ''frame-too-large''
            (''frame is '' @ nat_str (length (frame_body F f)) @ '' bytes; limit is '' @ int_str n))
     else map_res (\<lambda>header. header @ frame_body F f) (header_pack (length (frame_body F f))))"
  using assms json_round_trip(1) [OF json_value_document [OF assms]]
  by (simp add: encode_frame_def validate_limit_def frame_ok_def frame_body_def)

lemma msg_of_str [simp]: "msg_of (PStr (msg_str m)) = Some m"
  by (cases m) (simp_all add: msg_of_def msg_types_def)

lemma validate_frame_norm: "validate_frame (frame_norm f) = validate_frame f"
proof -
  have "is_dict (canon v) = is_dict v" for v by (cases v) simp_all
  then show ?thesis by (simp add: validate_frame_def frame_norm_def)
qed

lemma decode_frame_body:
  assumes "frame_ok F f"
  shows "decode_body F (frame_body F f) = Inr (frame_norm f)"
proof -
  have v: "validate_frame f = Inr ()" using assms by (simp add: frame_ok_def)
  have "json_loads False F (json_text F (canon (frame_document f))) = Some (frame_document (frame_norm f))"
    using json_round_trip(2) [OF json_value_document [OF assms]] canon_document [OF v] by simp
  moreover have "decode_document (Some (frame_document g)) = Inr g" if "validate_frame g = Inr ()" for g
  proof -
    have "set (dkeys [(''payload'', fr_payload g), (''requestId'', fr_request_id g),
        (''type'', PStr (msg_str (fr_type g))), (''version'', fr_version g)])
      = {''version'', ''type'', ''requestId'', ''payload''}" unfolding dkeys_def by force
    then show ?thesis using that
      by (cases g) (simp add: decode_document_def frame_document_def dget_Cons Let_def)
  qed
  ultimately show ?thesis using v validate_frame_norm [of f] by (simp add: decode_body_def frame_body_def)
qed

text \<open>An encoded frame is its header and its body, and the header says how long the body is.\<close>

lemma encoded_frame:
  assumes "frame_ok F f" and "encode_frame F m f = Inr bs"
  obtains n header where "m = PInt n" "1 \<le> n" "bs = header @ frame_body F f" "length header = HEADER_SIZE"
    "header_unpack header = length (frame_body F f)" "int (length (frame_body F f)) \<le> n"
proof -
  obtain n where n: "m = PInt n" using assms(2) by (cases m) (auto simp: encode_frame_def validate_limit_def)
  have l: "length (frame_body F f) < 2 ^ 32"
    using assms(2) unfolding n encode_frame_eq [OF assms(1)] by (auto simp: header_pack_def split: if_splits)
  from header_round_trip [OF l] assms(2) n show thesis
    by (auto simp: encode_frame_eq [OF assms(1)] split: if_splits intro!: that)
qed

lemma read_encoded:
  assumes "frame_ok F f" and "encode_frame F m f = Inr bs"
  shows "read_frame F m (bs @ rest) = (Inr (frame_norm f), rest)"
proof -
  obtain n header where e: "m = PInt n" "1 \<le> n" "bs = header @ frame_body F f" "length header = HEADER_SIZE"
    "header_unpack header = length (frame_body F f)" "int (length (frame_body F f)) \<le> n"
    by (rule encoded_frame [OF assms])
  then show ?thesis using decode_frame_body [OF assms(1)]
    by (simp add: read_frame_def validate_limit_def readexactly_def validate_declared_size_def)
qed

lemma read_truncated:
  assumes "frame_ok F f" and "encode_frame F m f = Inr bs" and "k < length bs"
  shows "\<exists>d. read_frame F m (take k bs) = (Inl (Stable ''truncated-frame'' d), [])"
proof -
  obtain n header where e: "m = PInt n" "1 \<le> n" "bs = header @ frame_body F f" "length header = HEADER_SIZE"
    "header_unpack header = length (frame_body F f)" "int (length (frame_body F f)) \<le> n"
    by (rule encoded_frame [OF assms(1,2)])
  show ?thesis
  proof (cases "k < HEADER_SIZE")
    case True
    then show ?thesis using e assms(3) by (simp add: read_frame_def validate_limit_def readexactly_def)
  next
    case False
    then have "take HEADER_SIZE (take k bs) = header" "drop HEADER_SIZE (take k bs) = take (k - HEADER_SIZE) (frame_body F f)"
      "\<not> length (take k bs) < HEADER_SIZE" "k - HEADER_SIZE < length (frame_body F f)"
      using e(3,4) assms(3) by auto
    then show ?thesis using e
      by (simp add: read_frame_def validate_limit_def readexactly_def validate_declared_size_def)
  qed
qed

lemma decode_encoded:
  assumes "frame_ok F f" and "encode_frame F m f = Inr bs"
  shows "decode_frame F m bs = Inr (frame_norm f)"
    and "x \<noteq> [] \<Longrightarrow> \<exists>d. decode_frame F m (bs @ x) = Inl (Stable ''frame-size-mismatch'' d)"
proof -
  obtain n header where e: "m = PInt n" "1 \<le> n" "bs = header @ frame_body F f" "length header = HEADER_SIZE"
    "header_unpack header = length (frame_body F f)" "int (length (frame_body F f)) \<le> n"
    by (rule encoded_frame [OF assms])
  show "decode_frame F m bs = Inr (frame_norm f)"
    using e decode_frame_body [OF assms(1)]
    by (simp add: decode_frame_def validate_limit_def validate_declared_size_def Let_def)
  show "\<exists>d. decode_frame F m (bs @ x) = Inl (Stable ''frame-size-mismatch'' d)" if "x \<noteq> []"
    using e that by (simp add: decode_frame_def validate_limit_def validate_declared_size_def Let_def)
qed

text \<open>Whatever the bytes are, a frame that is read has passed validation and used up its own bytes.\<close>

lemma read_frame_sound:
  assumes "read_frame F m s = (Inr f, rest)"
  shows "validate_frame f = Inr ()"
    and "\<exists>used n. m = PInt n \<and> s = used @ rest \<and> HEADER_SIZE \<le> length used \<and> int (length used) \<le> n + int HEADER_SIZE"
proof -
  obtain n where n: "m = PInt n" "1 \<le> n"
    using assms by (cases m) (auto simp: read_frame_def validate_limit_def split: if_splits)
  let ?k = "header_unpack (take HEADER_SIZE s)"
  have h: "\<not> length s < HEADER_SIZE" "\<not> n < int ?k" "\<not> length (drop HEADER_SIZE s) < ?k"
      "decode_body F (take ?k (drop HEADER_SIZE s)) = Inr f" "rest = drop ?k (drop HEADER_SIZE s)"
    using assms n
    by (auto simp: read_frame_def validate_limit_def readexactly_def validate_declared_size_def
        split: if_splits sum.splits prod.splits)
  show "validate_frame f = Inr ()"
    using h(4) by (auto simp: decode_body_def decode_document_def bind_res_eq_Inr Let_def
        split: option.splits pyval.splits if_splits)
  have "s = take (HEADER_SIZE + ?k) s @ rest" by (simp add: h(5) add.commute)
  moreover have "length (take (HEADER_SIZE + ?k) s) = HEADER_SIZE + ?k" using h(1,3) by simp
  ultimately show "\<exists>used n. m = PInt n \<and> s = used @ rest \<and> HEADER_SIZE \<le> length used \<and> int (length used) \<le> n + int HEADER_SIZE"
    using n(1) h(2) by (intro exI [of _ "take (HEADER_SIZE + ?k) s"]) auto
qed

section \<open>A channel of frames\<close>

text \<open>
  What the sessions rely on: a frame that was written is the next one read, up to the order of
  keys, and reading always consumes something.
\<close>

fun receive_many :: "('s \<Rightarrow> 'f res \<times> 's) \<Rightarrow> nat \<Rightarrow> 's \<Rightarrow> 'f list res \<times> 's" where
  "receive_many receive 0 s = (Inr [], s)"
| "receive_many receive (Suc n) s =
     (case receive s of
        (Inl e, s') \<Rightarrow> (Inl e, s')
      | (Inr f, s') \<Rightarrow>
          (case receive_many receive n s' of (r, s'') \<Rightarrow> (map_res ((#) f) r, s'')))"

fun send_all :: "('f \<Rightarrow> octet list res) \<Rightarrow> 'f list \<Rightarrow> octet list res" where
  "send_all send [] = Inr []"
| "send_all send (f # fs) = bind_res (send f) (\<lambda>bs. map_res (\<lambda>more. bs @ more) (send_all send fs))"

locale frame_channel =
  fixes send :: "'f \<Rightarrow> octet list res"
    and receive :: "octet list \<Rightarrow> 'f res \<times> octet list"
    and norm :: "'f \<Rightarrow> 'f"
    and ok :: "'f \<Rightarrow> bool"
  assumes delivered: "ok f \<Longrightarrow> send f = Inr bs \<Longrightarrow> receive (bs @ rest) = (Inr (norm f), rest)"
    and consumed: "receive s = (Inr f, rest) \<Longrightarrow> length rest < length s"
begin

lemma all_delivered:
  "list_all ok fs \<Longrightarrow> send_all send fs = Inr bs \<Longrightarrow>
   receive_many receive (length fs) (bs @ rest) = (Inr (map norm fs), rest)"
proof (induction fs arbitrary: bs)
  case (Cons f fs)
  from Cons.prems(2) obtain a b where ab: "send f = Inr a" "send_all send fs = Inr b" "bs = a @ b"
    by (auto simp: res_simps)
  have "receive_many receive (length fs) (b @ rest) = (Inr (map norm fs), rest)"
    by (rule Cons.IH) (use Cons.prems(1) ab(2) in auto)
  moreover have "receive (a @ b @ rest) = (Inr (norm f), b @ rest)"
    by (rule delivered) (use Cons.prems(1) ab(1) in auto)
  ultimately show ?case by (simp add: ab(3))
qed simp

lemma consumed_many: "receive_many receive n s = (Inr fs, rest) \<Longrightarrow> length rest + n \<le> length s"
proof (induction n arbitrary: s fs)
  case (Suc n)
  from Suc.prems obtain f s' gs where g: "receive s = (Inr f, s')" "receive_many receive n s' = (Inr gs, rest)"
    by (auto simp: res_simps split: prod.splits sum.splits)
  from Suc.IH [OF g(2)] consumed [OF g(1)] show ?case by simp
qed simp

end

interpretation wire: frame_channel "encode_frame F m" "read_frame F m" frame_norm "frame_ok F" for F m
proof
  show "read_frame F m (bs @ rest) = (Inr (frame_norm f), rest)" if "frame_ok F f" "encode_frame F m f = Inr bs" for f bs rest
    by (rule read_encoded [OF that])
  show "length rest < length s" if "read_frame F m s = (Inr f, rest)" for s f rest
    using read_frame_sound(2) [OF that] by (auto simp: HEADER_SIZE_def)
qed

section \<open>A result fits its frames\<close>

definition result_ok :: "float_text \<Rightarrow> plugin_result \<Rightarrow> bool" where
  "result_ok F r =
     (validate_result r = Inr () \<and> json_value F (pl_output r) \<and> json_value F (pl_completed_at r))"

definition result_norm :: "plugin_result \<Rightarrow> plugin_result" where
  "result_norm r = r\<lparr>pl_output := canon (pl_output r)\<rparr>"

lemma ascii_utf8: "list_all (\<lambda>c. (of_char c :: nat) < 128) s \<Longrightarrow> length (utf8 s) = length s"
  by (induction s) (simp_all add: utf8_Cons utf8_char_def)

lemma length_utf8_nat_str [simp]: "length (utf8 (nat_str n)) = length (nat_str n)"
proof (rule ascii_utf8)
  show "list_all (\<lambda>c. (of_char c :: nat) < 128) (nat_str n)"
    using nat_str_digits [of n] by (auto simp: list_all_iff json_digit_def Let_def)
qed

definition plain :: "char \<Rightarrow> bool" where
  "plain c = (let n = of_char c :: nat in 32 \<le> n \<and> n < 128 \<and> n \<noteq> 34 \<and> n \<noteq> 92)"

lemma length_plain_string:
  assumes "list_all plain s"
  shows "length (utf8 (json_string s)) = length s + 2"
proof -
  have "concat (map esc_char s) = s" using assms
    by (induction s) (auto simp: plain_def Let_def esc_char_def dq_def bslash_def)
  moreover have "length (utf8 s) = length s"
    by (rule ascii_utf8) (use assms in \<open>auto simp: list_all_iff plain_def Let_def\<close>)
  ultimately show ?thesis by (simp add: json_string_def utf8_Cons utf8_char_def dq_def)
qed

lemma chunk_document:
  assumes "request_id_ok rid"
  shows "canon (frame_document (chunk_frame rid i final part)) =
    PDict [(''payload'', PDict [(''body'', PStr part), (''final'', PBool final), (''sequence'', PInt (int i))]),
           (''requestId'', rid), (''type'', PStr ''result-chunk''), (''version'', PInt 1)]"
proof -
  have "validate_frame (chunk_frame rid i final part) = Inr ()"
    using assms by (simp add: validate_frame_def chunk_frame_def positive_int_def FRAME_FORMAT_VERSION_def)
  from canon_document [OF this] show ?thesis
    by (simp add: frame_norm_def frame_document_def chunk_frame_def FRAME_FORMAT_VERSION_def less_char_def)
qed

lemma chunk_frame_body:
  assumes "request_id_ok rid"
  shows "length (frame_body F (chunk_frame rid i final part)) =
    89 + length (utf8 (json_text F rid)) + length (utf8 (json_string part)) + length (nat_str i) + (if final then 4 else 5)"
proof -
  have n: "int_str (int i) = nat_str i" "int_str 1 = nat_str (Suc 0)" "length (nat_str (Suc 0)) = 1"
    by (simp_all add: int_str_def) (subst nat_str.simps, simp)
  have one: "length (utf8_char c) = 1" if "plain c" for c using that by (simp add: plain_def utf8_char_def Let_def)
  show ?thesis
    by (simp add: frame_body_def chunk_document [OF assms] n utf8_Cons length_plain_string plain_def one)
qed

lemma chunk_frame_ok:
  assumes "request_id_ok rid" and "i < 10 ^ 21"
  shows "frame_ok F (chunk_frame rid i final part)"
proof -
  have "length (nat_str i) \<le> 21" using length_nat_str assms(2) by simp
  moreover have "length (nat_str (Suc 0)) \<le> 1" using length_nat_str [of "Suc 0" 1] by simp
  moreover have "validate_frame (chunk_frame rid i final part) = Inr ()"
    using assms(1) by (simp add: validate_frame_def chunk_frame_def positive_int_def FRAME_FORMAT_VERSION_def)
  ultimately show ?thesis
    by (simp add: frame_ok_def chunk_frame_def FRAME_FORMAT_VERSION_def MAX_STR_DIGITS_def dict_ok_def dkeys_def)
qed

text \<open>
  With room for the envelope, a character and the slack of the counter, every chunk fits: six
  bytes for a character are enough.
\<close>

lemma length_envelope:
  assumes "request_id_ok rid" and "1 \<le> n" and "n < 2 ^ 32"
    and "encode_frame F (PInt n) (chunk_frame rid 0 False []) = Inr envelope"
  shows "length envelope = 101 + length (utf8 (json_text F rid))"
proof -
  have ok: "frame_ok F (chunk_frame rid 0 False [])" by (rule chunk_frame_ok [OF assms(1)]) simp
  obtain header where "envelope = header @ frame_body F (chunk_frame rid 0 False [])" "length header = HEADER_SIZE"
    by (rule encoded_frame [OF ok assms(4)]) auto
  moreover have "length (nat_str 0) = 1" by (subst nat_str.simps) simp
  ultimately show ?thesis using length_plain_string [of "[]"]
    by (simp add: chunk_frame_body [OF assms(1)] HEADER_SIZE_def)
qed

lemma length_request_id: "request_id_ok rid \<Longrightarrow> length (utf8 (json_text F rid)) \<le> 770"
proof (cases rid)
  case (PStr s)
  then show "request_id_ok rid \<Longrightarrow> length (utf8 (json_text F rid)) \<le> 770"
    using length_json_string [of s] by (simp add: request_id_ok_def MAX_REQUEST_ID_CHARS_def)
qed (simp_all add: request_id_ok_def)

lemma encode_fits:
  assumes "frame_ok F f" and "int (length (frame_body F f)) \<le> n" and "1 \<le> n" and "n < 2 ^ 32"
  shows "\<exists>bs. encode_frame F (PInt n) f = Inr bs"
proof -
  have "int (length (frame_body F f)) < 2 ^ 32" using assms(2,4) by linarith
  then have "length (frame_body F f) < 2 ^ 32" by simp
  from header_round_trip [OF this] show ?thesis using assms(2,3) by (auto simp: encode_frame_eq [OF assms(1)])
qed

lemma chunk_fits:
  assumes "request_id_ok rid" and "1024 \<le> n" and "n < 2 ^ 32" and "i < 10 ^ 21"
    and "encode_frame F (PInt n) (chunk_frame rid 0 False []) = Inr envelope"
    and "length part \<le> chunk_span n (length envelope)"
  shows "\<exists>bs. encode_frame F (PInt n) (chunk_frame rid i final part) = Inr bs"
proof -
  have e: "length envelope = 101 + length (utf8 (json_text F rid))"
    by (rule length_envelope [OF assms(1) _ assms(3,5)]) (use assms(2) in simp)
  have rid: "length (utf8 (json_text F rid)) \<le> 770" by (rule length_request_id [OF assms(1)])
  let ?room = "n - int (length envelope) - 20"
  have "6 \<le> ?room" using e rid assms(2) by linarith
  then have "int (chunk_span n (length envelope)) = ?room div 6"
    by (simp add: chunk_span_def SEQUENCE_DIGITS_def WORST_CASE_CHAR_BYTES_def)
  moreover have "6 * (?room div 6) \<le> ?room" by presburger
  ultimately have p: "6 * int (length part) \<le> ?room" using assms(6) by linarith
  have "length (nat_str i) \<le> 21" using length_nat_str assms(4) by simp
  then have "int (length (frame_body F (chunk_frame rid i final part))) \<le> n"
    using p e length_json_string [of part] by (simp add: chunk_frame_body [OF assms(1)])
  from encode_fits [OF chunk_frame_ok [OF assms(1,4)] this] assms(2,3) show ?thesis by simp
qed

lemma positive_scalar: "positive_int v \<Longrightarrow> canon v = v \<and> v \<noteq> PNone"
  by (cases v) (simp_all add: positive_int_def)

lemma result_okD:
  assumes "result_ok F r"
  shows "request_id_ok (pl_job r)" "is_dict (pl_output r)" "is_str (pl_detail r)" "positive_int (pl_completed_at r)"
    "json_value F (result_payload r)" "canon (pl_detail r) = pl_detail r" "canon (pl_completed_at r) = pl_completed_at r"
proof -
  have v: "validate_result r = Inr ()" "json_value F (pl_output r)" "json_value F (pl_completed_at r)"
    using assms by (simp_all add: result_ok_def)
  show g: "request_id_ok (pl_job r)" "is_dict (pl_output r)" "is_str (pl_detail r)" "positive_int (pl_completed_at r)"
    using v(1) by (auto simp: validate_result_def validate_request_id_def request_id_ok_def text_within_def split: if_splits)
  from g(3) obtain s where s: "pl_detail r = PStr s" by (cases "pl_detail r") auto
  show "canon (pl_detail r) = pl_detail r" by (simp add: s)
  show "canon (pl_completed_at r) = pl_completed_at r" using positive_scalar [OF g(4)] by simp
  show "json_value F (result_payload r)" using v by (simp add: result_payload_def dict_ok_def dkeys_def s)
qed

lemma canon_result_payload:
  assumes "result_ok F r"
  shows "canon (result_payload r) =
    PDict [(''completedAt'', pl_completed_at r), (''detail'', pl_detail r), (''output'', canon (pl_output r)),
           (''status'', PStr (status_str (pl_status r)))]"
  using result_okD(6,7) [OF assms] by (simp add: result_payload_def less_char_def)

lemma status_of_str [simp]: "status_of (PStr (status_str x)) = Some x"
  by (cases x) (simp_all add: status_of_def)

lemma result_norm_ok:
  assumes "result_ok F r"
  shows "validate_result (result_norm r) = Inr ()"
proof -
  have "is_dict (canon v) = is_dict v" for v by (cases v) simp_all
  then show ?thesis using assms by (auto simp: result_ok_def validate_result_def result_norm_def split: if_splits)
qed

text \<open>A result whose payload came over the wire in the order of its keys.\<close>

lemma parse_canon_result:
  assumes "result_ok F r"
  shows "parse_result FRAME_FORMAT_VERSION
    \<lparr>fr_version = PInt FRAME_FORMAT_VERSION, fr_type = RESULT, fr_request_id = pl_job r, fr_payload = canon (result_payload r)\<rparr>
    = Inr (result_norm r)"
proof -
  have "pl_job r \<noteq> PNone" using result_okD(1) [OF assms] by (auto simp: request_id_ok_def)
  moreover have "set (dkeys [(''completedAt'', pl_completed_at r), (''detail'', pl_detail r), (''output'', canon (pl_output r)),
           (''status'', PStr (status_str (pl_status r)))]) = set [''status'', ''output'', ''detail'', ''completedAt'']"
    unfolding dkeys_def by force
  moreover have r: "result_norm r = \<lparr>pl_job = pl_job r, pl_status = pl_status r, pl_output = canon (pl_output r),
      pl_detail = pl_detail r, pl_completed_at = pl_completed_at r\<rparr>" by (simp add: result_norm_def)
  ultimately show ?thesis using result_norm_ok [OF assms]
    by (simp add: canon_result_payload [OF assms] parse_result_def require_frame_version_def payload_fields_def
        at_field_def dget_Cons Let_def r)
qed

lemma result_frame_ok:
  assumes "result_ok F r"
  obtains f where "result_frame r = Inr f" "frame_ok F f" "fr_type f = RESULT" "fr_payload f = result_payload r"
    "fr_request_id f = pl_job r" "fr_version f = PInt FRAME_FORMAT_VERSION"
proof -
  let ?f = "\<lparr>fr_version = PInt FRAME_FORMAT_VERSION, fr_type = RESULT, fr_request_id = pl_job r, fr_payload = result_payload r\<rparr>"
  have "length (nat_str (Suc 0)) \<le> 1" using length_nat_str [of "Suc 0" 1] by simp
  then have "frame_ok F ?f"
    using result_okD [OF assms] by (simp add: frame_ok_def validate_frame_def positive_int_def FRAME_FORMAT_VERSION_def
        MAX_STR_DIGITS_def result_payload_def)
  moreover have "result_frame r = Inr ?f" using assms by (simp add: result_frame_def result_ok_def)
  ultimately show thesis by (intro that [of ?f]) simp_all
qed

lemma split_chunks_length: "0 < n \<Longrightarrow> p \<in> set (split_chunks n xs) \<Longrightarrow> length p \<le> n"
proof (induction n xs rule: split_chunks.induct)
  case (1 n xs)
  then show ?case by (cases "xs = []") (auto simp: split_chunks_step)
qed

lemma split_chunks_count: "0 < n \<Longrightarrow> length (split_chunks n xs) \<le> length xs"
proof (induction n xs rule: split_chunks.induct)
  case (1 n xs)
  show ?case
  proof (cases "xs = []")
    case False
    then have p: "0 < length xs" by simp
    have "length (split_chunks n (drop n xs)) \<le> length xs - n" using 1 False by simp
    moreover have "Suc (length xs - n) \<le> length xs" using p 1(2) by linarith
    ultimately have "Suc (length (split_chunks n (drop n xs))) \<le> length xs" by linarith
    then show ?thesis using 1(2) False by (simp add: split_chunks_step)
  qed simp
qed

text \<open>
  A result goes out as one frame or as its chunks, all of which can be written; the pieces put
  together are the text of the payload.
\<close>

lemma result_frames_fit:
  assumes r: "result_ok F r" and n: "1024 \<le> n" "n < 2 ^ 32"
    and l: "length (json_text F (canon (result_payload r))) \<le> 10 ^ 21"
  shows "(\<exists>f bs. result_frames F (PInt n) r = Inr [f] \<and> result_frame r = Inr f \<and> encode_frame F (PInt n) f = Inr bs) \<or>
    (\<exists>parts. parts \<noteq> [] \<and> length parts \<le> 10 ^ 21 \<and> result_frames F (PInt n) r = Inr (chunk_frames (pl_job r) parts) \<and>
       concat parts = json_text F (canon (result_payload r)) \<and>
       (\<forall>part \<in> set parts. \<forall>i < 10 ^ 21. \<forall>final. \<exists>bs. encode_frame F (PInt n) (chunk_frame (pl_job r) i final part) = Inr bs))"
proof -
  obtain f where f: "result_frame r = Inr f" "frame_ok F f" "fr_payload f = result_payload r"
    by (rule result_frame_ok [OF r]) blast
  show ?thesis
  proof (cases "encode_frame F (PInt n) f")
    case (Inr bs)
    then show ?thesis using f by (simp add: result_frames_def)
  next
    case (Inl e)
    let ?body = "json_text F (canon (result_payload r))"
    have rid: "request_id_ok (pl_job r)" by (rule result_okD(1) [OF r])
    have "\<exists>d. e = Stable ''frame-too-large'' d"
    proof (cases "n < int (length (frame_body F f))")
      case True
      then show ?thesis using Inl n by (auto simp: encode_frame_eq [OF f(2)])
    next
      case False
      then show ?thesis using encode_fits [OF f(2), of n] Inl n by simp
    qed
    then obtain d where e: "e = Stable ''frame-too-large'' d" by blast
    have b: "json_dumps F (fr_payload f) = Inr ?body"
      using json_round_trip(1) [OF result_okD(5) [OF r]] f(3) by simp
    have ok0: "frame_ok F (chunk_frame (pl_job r) 0 False [])" by (rule chunk_frame_ok [OF rid]) simp
    have "length (nat_str 0) = 1" by (subst nat_str.simps) simp
    then obtain envelope where env: "encode_frame F (PInt n) (chunk_frame (pl_job r) 0 False []) = Inr envelope"
      using encode_fits [OF ok0, of n] n length_request_id [OF rid, of F] length_plain_string [of "[]"]
      by (auto simp: chunk_frame_body [OF rid])
    let ?span = "chunk_span n (length envelope)"
    define parts where "parts = split_chunks ?span ?body"
    have span: "0 < ?span" by (simp add: chunk_span_def)
    have ne: "?body \<noteq> []" by (simp add: canon_result_payload [OF r])
    then have "parts \<noteq> []" using span by (simp add: parts_def split_chunks_step)
    moreover have "concat parts = ?body" by (simp add: parts_def concat_split_chunks [OF span])
    moreover have "length parts \<le> 10 ^ 21"
      using split_chunks_count [OF span, of ?body] l by (simp add: parts_def)
    moreover have "result_frames F (PInt n) r = Inr (chunk_frames (pl_job r) parts)"
      using \<open>parts \<noteq> []\<close> b
      by (simp add: result_frames_def f(1) Inl e split_body_def env int_field_def Let_def parts_def)
    moreover have "\<exists>bs. encode_frame F (PInt n) (chunk_frame (pl_job r) i final part) = Inr bs"
      if "part \<in> set parts" "i < 10 ^ 21" for part i final
      by (rule chunk_fits [OF rid n that(2) env]) (use split_chunks_length [OF span] that(1) in \<open>simp add: parts_def\<close>)
    ultimately show ?thesis by blast
  qed
qed

section \<open>Properties\<close>

lemma send_all_mem: "send_all send fs = Inr bs \<Longrightarrow> f \<in> set fs \<Longrightarrow> \<exists>b. send f = Inr b"
  by (induction fs arbitrary: bs) (auto simp: res_simps)

text \<open>C20. Frames written one after another to a stream are read back one by one, unchanged up to
  the order of the keys in their payloads, and leave the rest of the stream alone; the bytes of one
  frame decode to it, any proper prefix of them is reported as truncated and any trailing byte as a
  size mismatch.  Whatever bytes arrive, a frame that is read has valid fields and took from the
  stream its header and no more than the limit.\<close>

theorem frames_round_trip:
  assumes "list_all (frame_ok F) fs" and "send_all (encode_frame F m) fs = Inr bs"
  shows "receive_many (read_frame F m) (length fs) (bs @ rest) = (Inr (map frame_norm fs), rest) \<and>
    (\<forall>f \<in> set fs. \<exists>b. encode_frame F m f = Inr b \<and> decode_frame F m b = Inr (frame_norm f) \<and>
       (\<forall>k < length b. \<exists>d. read_frame F m (take k b) = (Inl (Stable ''truncated-frame'' d), [])) \<and>
       (\<forall>x. x \<noteq> [] \<longrightarrow> (\<exists>d. decode_frame F m (b @ x) = Inl (Stable ''frame-size-mismatch'' d)))) \<and>
    (\<forall>s f s'. read_frame F m s = (Inr f, s') \<longrightarrow> validate_frame f = Inr () \<and>
       (\<exists>used n. m = PInt n \<and> s = used @ s' \<and> HEADER_SIZE \<le> length used \<and> int (length used) \<le> n + int HEADER_SIZE))"
proof (intro conjI ballI allI impI)
  show "receive_many (read_frame F m) (length fs) (bs @ rest) = (Inr (map frame_norm fs), rest)"
    by (rule wire.all_delivered [OF assms])
  show "validate_frame f = Inr ()" if "read_frame F m s = (Inr f, s')" for s f s'
    by (rule read_frame_sound(1) [OF that])
  show "\<exists>used n. m = PInt n \<and> s = used @ s' \<and> HEADER_SIZE \<le> length used \<and> int (length used) \<le> n + int HEADER_SIZE"
    if "read_frame F m s = (Inr f, s')" for s f s'
    by (rule read_frame_sound(2) [OF that])
  fix f assume f: "f \<in> set fs"
  then have ok: "frame_ok F f" using assms(1) by (simp add: list_all_iff)
  obtain b where b: "encode_frame F m f = Inr b" using send_all_mem [OF assms(2) f] by blast
  show "\<exists>b. encode_frame F m f = Inr b \<and> decode_frame F m b = Inr (frame_norm f) \<and>
       (\<forall>k < length b. \<exists>d. read_frame F m (take k b) = (Inl (Stable ''truncated-frame'' d), [])) \<and>
       (\<forall>x. x \<noteq> [] \<longrightarrow> (\<exists>d. decode_frame F m (b @ x) = Inl (Stable ''frame-size-mismatch'' d)))"
    using b decode_encoded [OF ok b] read_truncated [OF ok b] by blast
qed

definition demo_floats :: float_text where
  "demo_floats = \<lparr>ft_repr = (\<lambda>_. ''0.5''), ft_float = (\<lambda>_. Fin (1 / 2))\<rparr>"

definition demo_ready :: frame where
  "demo_ready = ready_frame (PStr ''demo-plugin'')"

lemma demo_ready_ok: "frame_ok demo_floats demo_ready"
  by (simp add: frame_ok_def demo_ready_def ready_frame_def validate_frame_def positive_int_def
      FRAME_FORMAT_VERSION_def dict_ok_def dkeys_def nat_str.simps [of "Suc 0"] MAX_STR_DIGITS_def)

lemma demo_ready_sent: "\<exists>bs. send_all (encode_frame demo_floats (PInt 1024)) [demo_ready, demo_ready] = Inr bs"
proof -
  have v: "validate_frame demo_ready = Inr ()" using demo_ready_ok by (simp add: frame_ok_def)
  have d: "canon (frame_document demo_ready) =
      PDict [(''payload'', PDict [(''pluginId'', PStr ''demo-plugin'')]), (''requestId'', PNone),
             (''type'', PStr ''ready''), (''version'', PInt 1)]"
    unfolding canon_document [OF v]
    by (simp add: frame_document_def frame_norm_def demo_ready_def ready_frame_def FRAME_FORMAT_VERSION_def)
  have one: "length (utf8_char c) = 1" if "plain c" for c using that by (simp add: plain_def utf8_char_def Let_def)
  have "length (frame_body demo_floats demo_ready) \<le> 1024"
    by (simp add: frame_body_def d int_str_def nat_str.simps [of "Suc 0"] utf8_Cons length_plain_string plain_def one digit_char_def)
  then obtain b where "encode_frame demo_floats (PInt 1024) demo_ready = Inr b"
    using encode_fits [OF demo_ready_ok, of 1024] by auto
  then show ?thesis by simp
qed

theorem frames_round_trip_witness:
  "\<exists>bs. send_all (encode_frame demo_floats (PInt 1024)) [demo_ready, demo_ready] = Inr bs \<and>
     receive_many (read_frame demo_floats (PInt 1024)) 2 (bs @ [7]) = (Inr [demo_ready, demo_ready], [7])"
proof -
  obtain bs where bs: "send_all (encode_frame demo_floats (PInt 1024)) [demo_ready, demo_ready] = Inr bs"
    using demo_ready_sent by blast
  have "frame_norm demo_ready = demo_ready" by (simp add: demo_ready_def ready_frame_def frame_norm_def)
  moreover have "receive_many (read_frame demo_floats (PInt 1024)) (length [demo_ready, demo_ready]) (bs @ [7])
      = (Inr (map frame_norm [demo_ready, demo_ready]), [7])"
    using frames_round_trip [OF _ bs, of "[7]"] demo_ready_ok by simp
  ultimately show ?thesis using bs by (simp add: numeral_2_eq_2)
qed

end
