(* ===== verification/Worker_Session.thy ===== *)
theory Worker_Session
  imports Ipc_Frames
begin

text \<open>
  The two ends of a plugin worker's channel after its start: \<^verbatim>\<open>src/omnitensor/plugins/worker.py\<close>,
  which serves requests inside the child process, and \<^verbatim>\<open>read_result\<close> of
  \<^verbatim>\<open>src/omnitensor/plugins/supervisor_session.py\<close> with its callers in \<^verbatim>\<open>supervisor.py\<close>, which wait for
  the answer in the service.  The plugin is an argument: the progress it reports and the way its
  \<^verbatim>\<open>execute\<close> ends.  A report that is refused ends it with that exception.
\<close>

section \<open>The service waits for a result\<close>

text \<open>\<^verbatim>\<open>PluginWorkerError\<close> is kept apart from everything else a channel can raise.\<close>

datatype channel_failure = PluginWorkerError string string | Channel exn

definition protocol_failed :: "string \<Rightarrow> channel_failure" where
  "protocol_failed detail = PluginWorkerError ''worker-protocol-failed'' detail"

definition with_protocol :: "frame \<Rightarrow> int \<Rightarrow> frame" where
  "with_protocol f protocol_version = f\<lparr>fr_version := PInt protocol_version\<rparr>"

definition correlated :: "frame \<Rightarrow> int \<Rightarrow> pyval \<Rightarrow> channel_failure option" where
  "correlated f negotiated request_id =
     (if fr_version f \<noteq> PInt negotiated then Some (protocol_failed ''worker frame version is not the negotiated one'')
      else if fr_request_id f \<noteq> request_id then Some (protocol_failed ''worker response names another request'')
      else None)"

definition worker_error :: "frame \<Rightarrow> channel_failure" where
  "worker_error f =
     (case fr_payload f of
        PDict d \<Rightarrow>
          (case (dget d ''code'', dget d ''detail'') of
             (Some (PStr code), Some (PStr detail)) \<Rightarrow>
               if code = [] then protocol_failed ''worker error response is invalid''
               else PluginWorkerError code detail
           | _ \<Rightarrow> protocol_failed ''worker error response is invalid'')
      | _ \<Rightarrow> Channel TypeError)"

definition default_limit :: pyval where
  "default_limit = PInt DEFAULT_MAX_FRAME_BYTES"

text \<open>
  The loop of \<^verbatim>\<open>read_result\<close>.  \<open>report\<close> is the caller's reporter, \<open>seen\<close> what it has been given so
  far.  The parsers are called without a version, so theirs is the default one.
\<close>

function read_result ::
    "float_text \<Rightarrow> int \<Rightarrow> pyval \<Rightarrow> (plugin_progress \<Rightarrow> exn option) option \<Rightarrow> string list \<Rightarrow> plugin_progress list \<Rightarrow>
     octet list \<Rightarrow> (channel_failure + plugin_result) \<times> plugin_progress list \<times> octet list" where
  "read_result F negotiated request_id report parts seen stream =
     (case read_frame F default_limit stream of
        (Inl e, rest) \<Rightarrow> (Inl (Channel e), seen, rest)
      | (Inr f, rest) \<Rightarrow>
          (case correlated f negotiated request_id of
             Some x \<Rightarrow> (Inl x, seen, rest)
           | None \<Rightarrow>
               if fr_type f = PROGRESS then
                 (case parse_progress FRAME_FORMAT_VERSION f of
                    Inl e \<Rightarrow> (Inl (Channel e), seen, rest)
                  | Inr p \<Rightarrow>
                      (case report of
                         None \<Rightarrow> read_result F negotiated request_id report parts seen rest
                       | Some give \<Rightarrow>
                           (case give p of
                              Some e \<Rightarrow> (Inl (Channel e), seen @ [p], rest)
                            | None \<Rightarrow> read_result F negotiated request_id report parts (seen @ [p]) rest)))
               else if fr_type f = RESULT then
                 (case parse_result FRAME_FORMAT_VERSION f of
                    Inl e \<Rightarrow> (Inl (Channel e), seen, rest)
                  | Inr r \<Rightarrow> (Inr r, seen, rest))
               else if fr_type f = RESULT_CHUNK then
                 (case parse_result_chunk FRAME_FORMAT_VERSION f (length parts) of
                    Inl e \<Rightarrow> (Inl (Channel e), seen, rest)
                  | Inr (body, final) \<Rightarrow>
                      if final
                      then (case assemble_result_chunks F request_id (parts @ [body]) of
                              Inl e \<Rightarrow> (Inl (Channel e), seen, rest)
                            | Inr r \<Rightarrow> (Inr r, seen, rest))
                      else read_result F negotiated request_id report (parts @ [body]) seen rest)
               else if fr_type f = ERROR then (Inl (worker_error f), seen, rest)
               else (Inl (protocol_failed (''unexpected worker message: '' @ msg_str (fr_type f))), seen, rest)))"
  by pat_completeness auto
termination
  by (relation "measure (\<lambda>(F, negotiated, request_id, report, parts, seen, stream). length stream)")
     (auto dest!: sym [of "read_frame _ _ _"] sym [of "(_, _)"] wire.consumed)

declare read_result.simps [simp del]

text \<open>
  \<^verbatim>\<open>_run_request\<close> inside the request lock: the request goes out under the negotiated version, then
  the answer is awaited.  The bytes written come back with the outcome.
\<close>

definition run_request ::
    "float_text \<Rightarrow> agreement \<Rightarrow> plugin_request \<Rightarrow> (plugin_progress \<Rightarrow> exn option) option \<Rightarrow> octet list \<Rightarrow>
     octet list \<times> (channel_failure + plugin_result) \<times> plugin_progress list \<times> octet list" where
  "run_request F a request report stream =
     (case bind_res (execute_frame request) (\<lambda>f. encode_frame F default_limit (with_protocol f (ag_version a))) of
        Inl e \<Rightarrow> ([], Inl (Channel e), [], stream)
      | Inr written \<Rightarrow> (written, read_result F (ag_version a) (rq_job request) report [] [] stream))"

text \<open>
  \<^verbatim>\<open>PluginWorkerSupervisor.execute\<close> on a slot: how the call ended becomes the answer, and whether
  the child is killed.  \<open>BudgetExceeded\<close> carries the code of the worker's budget.
\<close>

datatype call_end = Finished "channel_failure + plugin_result" | BudgetExceeded string string

definition supervisor_execute :: "bool \<Rightarrow> agreement \<Rightarrow> call_end \<Rightarrow> (channel_failure + plugin_result) \<times> bool" where
  "supervisor_execute is_ready a ended =
     (if \<not> is_ready then (Inl (PluginWorkerError ''worker-unavailable'' ''plugin worker is not ready''), False)
      else if ''execute'' \<notin> ag_capabilities a
      then (Inl (PluginWorkerError ''worker-incompatible'' ''plugin worker cannot execute jobs''), False)
      else (case ended of
              Finished (Inr r) \<Rightarrow> (Inr r, False)
            | Finished (Inl (PluginWorkerError code detail)) \<Rightarrow>
                (Inl (PluginWorkerError code detail), code = ''worker-protocol-failed'')
            | Finished (Inl (Channel e)) \<Rightarrow>
                (Inl (protocol_failed (''worker channel failed: '' @ exn_name e)), True)
            | BudgetExceeded code detail \<Rightarrow> (Inl (PluginWorkerError code detail), code \<noteq> ''concurrency-budget-exceeded'')))"

definition cancel_frame :: "int \<Rightarrow> pyval \<Rightarrow> string \<Rightarrow> frame" where
  "cancel_frame protocol_version request_id reason =
     \<lparr>fr_version = PInt protocol_version, fr_type = CANCEL, fr_request_id = request_id,
      fr_payload = PDict [(''reason'', PStr reason)]\<rparr>"

text \<open>\<^verbatim>\<open>cancel_request\<close>: the bytes written and whether the child has to be killed.\<close>

definition cancel_request :: "float_text \<Rightarrow> agreement \<Rightarrow> pyval \<Rightarrow> bool \<Rightarrow> octet list \<Rightarrow> octet list \<times> bool" where
  "cancel_request F a request_id timed_out stream =
     (case encode_frame F default_limit (cancel_frame (ag_version a) request_id ''job cancelled'') of
        Inl e \<Rightarrow> ([], True)
      | Inr written \<Rightarrow>
          (written, timed_out \<or> (case fst (read_result F (ag_version a) request_id None [] [] stream) of
                                   Inl _ \<Rightarrow> True | Inr _ \<Rightarrow> False)))"

section \<open>The worker serves a request\<close>

definition write_error :: "float_text \<Rightarrow> int \<Rightarrow> pyval \<Rightarrow> string \<Rightarrow> octet list res" where
  "write_error F protocol_version request_id code =
     encode_frame F default_limit
       \<lparr>fr_version = PInt protocol_version, fr_type = ERROR, fr_request_id = request_id,
        fr_payload = PDict [(''code'', PStr code), (''detail'', PStr ''worker refused the message'')]\<rparr>"

datatype execution = Answers plugin_result | Cancelled | Raises exn

record plugin_run =
  run_reports :: "plugin_progress list"
  run_end :: execution

text \<open>\<^verbatim>\<open>_WorkerProgress.report\<close>.\<close>

definition report_progress :: "float_text \<Rightarrow> int \<Rightarrow> pyval \<Rightarrow> plugin_progress \<Rightarrow> octet list res" where
  "report_progress F protocol_version request_id p =
     (if pp_job p \<noteq> request_id then Inl (Stable ''invalid-progress'' ''progress names another request'')
      else bind_res (progress_frame p) (\<lambda>f. encode_frame F default_limit (with_protocol f protocol_version)))"

fun report_all :: "float_text \<Rightarrow> int \<Rightarrow> pyval \<Rightarrow> plugin_progress list \<Rightarrow> octet list \<times> exn option" where
  "report_all F protocol_version request_id [] = ([], None)"
| "report_all F protocol_version request_id (p # ps) =
     (case report_progress F protocol_version request_id p of
        Inl e \<Rightarrow> ([], Some e)
      | Inr bs \<Rightarrow> (case report_all F protocol_version request_id ps of (bs', r) \<Rightarrow> (bs @ bs', r)))"

definition cancelled_result :: "plugin_request \<Rightarrow> int \<Rightarrow> plugin_result" where
  "cancelled_result request now_ms =
     \<lparr>pl_job = rq_job request, pl_status = CANCELLED, pl_output = PDict [],
      pl_detail = PStr ''plugin request cancelled'', pl_completed_at = PInt (max 1 now_ms)\<rparr>"

text \<open>
  The frames \<^verbatim>\<open>_execute_request\<close> answers with: \<open>Inl None\<close> is the error answer of its last handler,
  \<open>Inl (Some e)\<close> an exception that leaves the coroutine.
\<close>

definition answer_frames :: "float_text \<Rightarrow> plugin_request \<Rightarrow> int \<Rightarrow> execution \<Rightarrow> exn option + frame list" where
  "answer_frames F request now_ms ended =
     (case ended of
        Answers r \<Rightarrow>
          if pl_job r \<noteq> rq_job request then Inl None
          else (case result_frames F default_limit r of Inl _ \<Rightarrow> Inl None | Inr fs \<Rightarrow> Inr fs)
      | Cancelled \<Rightarrow>
          (case result_frames F default_limit (cancelled_result request now_ms) of Inl e \<Rightarrow> Inl (Some e) | Inr fs \<Rightarrow> Inr fs)
      | Raises e \<Rightarrow> Inl None)"

definition execute_request :: "float_text \<Rightarrow> int \<Rightarrow> plugin_request \<Rightarrow> int \<Rightarrow> plugin_run \<Rightarrow> octet list res" where
  "execute_request F protocol_version request now_ms run =
     (case report_all F protocol_version (rq_job request) (run_reports run) of
        (written, r) \<Rightarrow>
          map_res (\<lambda>bs. written @ bs)
            (case answer_frames F request now_ms (case r of Some e \<Rightarrow> Raises e | None \<Rightarrow> run_end run) of
               Inl None \<Rightarrow> write_error F protocol_version (rq_job request) ''plugin-execution-failed''
             | Inl (Some e) \<Rightarrow> Inl e
             | Inr fs \<Rightarrow> send_all (encode_frame F default_limit) (map (\<lambda>f. with_protocol f protocol_version) fs)))"

text \<open>
  \<^verbatim>\<open>_handle_request_frame\<close>: the requests being executed with their cancellation tokens, and the
  grace timers started.  \<open>None\<close> ends the loop; otherwise the bytes written and a request to start.
\<close>

record worker =
  wk_plugin :: pyval
  wk_active :: "(pyval \<times> bool) list"
  wk_deadlines :: "pyval list"

definition check_request :: "worker \<Rightarrow> int \<Rightarrow> frame \<Rightarrow> plugin_request res" where
  "check_request w protocol_version f =
     bind_res (parse_execute protocol_version f) (\<lambda>request.
       if rq_plugin request \<noteq> wk_plugin w
       then Inl (Stable ''plugin-identity-mismatch'' ''execute request names another plugin'')
       else if dhas (wk_active w) (rq_job request) then Inl (Stable ''duplicate-request'' ''request is already active'')
       else Inr request)"

definition handle_request_frame ::
    "float_text \<Rightarrow> int \<Rightarrow> frame \<Rightarrow> worker \<Rightarrow> (octet list \<times> plugin_request option \<times> worker) option res" where
  "handle_request_frame F protocol_version f w =
     (if fr_type f = CANCEL \<and> fr_request_id f = PNone then Inr None
      else if fr_type f = EXECUTE then
        (case check_request w protocol_version f of
           Inl (Stable code _) \<Rightarrow>
             map_res (\<lambda>bs. Some (bs, None, w)) (write_error F protocol_version (fr_request_id f) code)
         | Inl e \<Rightarrow> Inl e
         | Inr request \<Rightarrow> Inr (Some ([], Some request, w\<lparr>wk_active := dset (rq_job request) False (wk_active w)\<rparr>)))
      else if fr_type f = CANCEL then
        (case dget (wk_active w) (fr_request_id f) of
           Some False \<Rightarrow>
             Inr (Some ([], None, w\<lparr>wk_active := dset (fr_request_id f) True (wk_active w),
                                    wk_deadlines := wk_deadlines w @ [fr_request_id f]\<rparr>))
         | _ \<Rightarrow> Inr (Some ([], None, w)))
      else map_res (\<lambda>bs. Some (bs, None, w)) (write_error F protocol_version (fr_request_id f) ''unsupported-message''))"

text \<open>One turn of the loop: a frame in another version than the agreed one is answered and skipped.\<close>

definition serve_frame ::
    "float_text \<Rightarrow> int \<Rightarrow> frame \<Rightarrow> worker \<Rightarrow> (octet list \<times> plugin_request option \<times> worker) option res" where
  "serve_frame F protocol_version f w =
     (if fr_version f \<noteq> PInt protocol_version
      then map_res (\<lambda>bs. Some (bs, None, w))
             (write_error F protocol_version (fr_request_id f) ''frame-version-incompatible'')
      else handle_request_frame F protocol_version f w)"

text \<open>The done callback of a request's task.\<close>

definition request_done :: "pyval \<Rightarrow> worker \<Rightarrow> worker" where
  "request_done job w = w\<lparr>wk_active := dpop job (wk_active w)\<rparr>"

section \<open>What is written is what is read\<close>

lemma send_all_ok: "\<forall>f \<in> set fs. \<exists>b. send f = Inr b \<Longrightarrow> \<exists>bs. send_all send fs = Inr bs"
  by (induction fs) auto

lemma frame_norm_sel [simp]:
  "fr_version (frame_norm f) = fr_version f" "fr_type (frame_norm f) = fr_type f"
  "fr_request_id (frame_norm f) = fr_request_id f" "fr_payload (frame_norm f) = canon (fr_payload f)"
  by (simp_all add: frame_norm_def)

text \<open>One frame further, by its type.\<close>

lemma read_result_step:
  assumes "read_frame F default_limit stream = (Inr f, rest)" and "fr_version f = PInt v" and "fr_request_id f = rid"
  shows "fr_type f = PROGRESS \<Longrightarrow> parse_progress FRAME_FORMAT_VERSION f = Inr p \<Longrightarrow> give p = None \<Longrightarrow>
      read_result F v rid (Some give) parts seen stream = read_result F v rid (Some give) parts (seen @ [p]) rest"
    and "fr_type f = RESULT \<Longrightarrow> parse_result FRAME_FORMAT_VERSION f = Inr r \<Longrightarrow>
      read_result F v rid report parts seen stream = (Inr r, seen, rest)"
    and "fr_type f = RESULT_CHUNK \<Longrightarrow> parse_result_chunk FRAME_FORMAT_VERSION f (length parts) = Inr (body, False) \<Longrightarrow>
      read_result F v rid report parts seen stream = read_result F v rid report (parts @ [body]) seen rest"
    and "fr_type f = RESULT_CHUNK \<Longrightarrow> parse_result_chunk FRAME_FORMAT_VERSION f (length parts) = Inr (body, True) \<Longrightarrow>
      assemble_result_chunks F rid (parts @ [body]) = Inr r \<Longrightarrow>
      read_result F v rid report parts seen stream = (Inr r, seen, rest)"
    and "fr_type f = ERROR \<Longrightarrow> read_result F v rid report parts seen stream = (Inl (worker_error f), seen, rest)"
  by (subst read_result.simps; simp add: assms correlated_def)+

definition progress_norm :: "plugin_progress \<Rightarrow> plugin_progress" where
  "progress_norm p = p\<lparr>pp_fraction := as_float (pp_fraction p)\<rparr>"

text \<open>A report the worker can send for a request.\<close>

definition report_ok :: "float_text \<Rightarrow> pyval \<Rightarrow> plugin_progress \<Rightarrow> bool" where
  "report_ok F request_id p =
     (is_ok (report_progress F FRAME_FORMAT_VERSION request_id p) \<and>
      json_value F (as_float (pp_fraction p)) \<and> json_value F (pp_observed_at p))"

lemma one_digit: "length (nat_str (Suc 0)) = Suc 0"
  by (subst nat_str.simps) simp

lemma version_value: "json_value F (PInt FRAME_FORMAT_VERSION)"
  by (simp add: FRAME_FORMAT_VERSION_def MAX_STR_DIGITS_def one_digit)

lemma with_protocol_same: "fr_version f = PInt v \<Longrightarrow> with_protocol f v = f"
  by (simp add: with_protocol_def)

lemma progress_valid:
  assumes "report_ok F rid p"
  shows "validate_progress p = Inr ()" "pp_job p = rid" "is_str (pp_detail p)" "is_str (pp_stage p)"
    "positive_int (pp_observed_at p)" "request_id_ok rid" "fraction_ok (pp_fraction p)"
proof -
  show v: "validate_progress p = Inr ()" "pp_job p = rid"
    using assms by (auto simp: report_ok_def is_ok_iff report_progress_def progress_frame_def res_simps split: if_splits)
  show "is_str (pp_detail p)" "positive_int (pp_observed_at p)" "fraction_ok (pp_fraction p)"
    using v(1) by (auto simp: validate_progress_def split: if_splits)
  show "is_str (pp_stage p)" "request_id_ok rid" using v
    by (auto simp: validate_progress_def validate_request_id_def text_within_def request_id_ok_def
        split: if_splits pyval.splits)
qed

lemma progress_delivered:
  assumes ok: "report_ok F rid p" and give: "give (progress_norm p) = None"
  shows "\<exists>bs. report_progress F FRAME_FORMAT_VERSION rid p = Inr bs \<and>
    (\<forall>rest. read_result F FRAME_FORMAT_VERSION rid (Some give) parts seen (bs @ rest)
       = read_result F FRAME_FORMAT_VERSION rid (Some give) parts (seen @ [progress_norm p]) rest)"
proof -
  note v = progress_valid [OF ok]
  let ?d = "[(''stage'', pp_stage p), (''fraction'', as_float (pp_fraction p)), (''detail'', pp_detail p), (''observedAt'', pp_observed_at p)]"
  let ?f = "\<lparr>fr_version = PInt FRAME_FORMAT_VERSION, fr_type = PROGRESS, fr_request_id = rid, fr_payload = PDict ?d\<rparr>"
  obtain s where s: "pp_stage p = PStr s" using v(4) by (cases "pp_stage p") auto
  obtain d where d: "pp_detail p = PStr d" using v(3) by (cases "pp_detail p") auto
  have fr: "canon (as_float (pp_fraction p)) = as_float (pp_fraction p)"
    using v(7) by (auto simp: as_float_def fraction_ok_def split: pyval.splits)
  have at: "canon (pp_observed_at p) = pp_observed_at p" using positive_scalar [OF v(5)] by simp
  have f: "progress_frame p = Inr ?f" using v by (simp add: progress_frame_def)
  obtain bs where bs: "report_progress F FRAME_FORMAT_VERSION rid p = Inr bs" "encode_frame F default_limit ?f = Inr bs"
    using ok v(2) by (auto simp: report_ok_def is_ok_iff report_progress_def f with_protocol_same)
  have fok: "frame_ok F ?f"
    using ok v(6) version_value [of F]
    by (simp add: frame_ok_def validate_frame_def positive_int_def FRAME_FORMAT_VERSION_def report_ok_def
        dict_ok_def dkeys_def s d)
  have rd: "read_frame F default_limit (bs @ rest) = (Inr (frame_norm ?f), rest)" for rest
    by (rule read_encoded [OF fok bs(2)])
  have c: "canon (PDict ?d) = PDict [(''detail'', pp_detail p), (''fraction'', as_float (pp_fraction p)),
      (''observedAt'', pp_observed_at p), (''stage'', pp_stage p)]"
    using fr at by (simp add: less_char_def s d)
  have keys: "set (dkeys [(''detail'', pp_detail p), (''fraction'', as_float (pp_fraction p)),
      (''observedAt'', pp_observed_at p), (''stage'', pp_stage p)]) = set [''stage'', ''fraction'', ''detail'', ''observedAt'']"
    unfolding dkeys_def by force
  have "rid \<noteq> PNone" using v(6) by (auto simp: request_id_ok_def)
  have nv: "validate_progress (progress_norm p) = Inr ()"
    using v(1,7) by (auto simp: validate_progress_def progress_norm_def fraction_ok_def as_float_def split: if_splits pyval.splits)
  have "progress_norm p = \<lparr>pp_job = rid, pp_stage = pp_stage p, pp_fraction = as_float (pp_fraction p),
      pp_detail = pp_detail p, pp_observed_at = pp_observed_at p\<rparr>"
    using v(2) by (simp add: progress_norm_def)
  then have pp: "parse_progress FRAME_FORMAT_VERSION (frame_norm ?f) = Inr (progress_norm p)"
    using nv \<open>rid \<noteq> PNone\<close> keys
    by (simp add: parse_progress_def frame_norm_def c require_frame_version_def payload_fields_def at_field_def dget_Cons Let_def
        del: canon.simps)
  have "read_result F FRAME_FORMAT_VERSION rid (Some give) parts seen (bs @ rest)
       = read_result F FRAME_FORMAT_VERSION rid (Some give) parts (seen @ [progress_norm p]) rest" for rest
    by (rule read_result_step(1) [where give = give, OF rd _ _ _ pp give]) simp_all
  then show ?thesis using bs(1) by blast
qed

lemma parse_chunk:
  assumes "request_id_ok rid"
  shows "parse_result_chunk FRAME_FORMAT_VERSION (frame_norm (chunk_frame rid i final part)) i = Inr (part, final)"
proof -
  have c: "canon (PDict [(''sequence'', PInt (int i)), (''final'', PBool final), (''body'', PStr part)]) =
      PDict [(''body'', PStr part), (''final'', PBool final), (''sequence'', PInt (int i))]"
    by (simp add: less_char_def)
  have k: "set (dkeys [(''body'', PStr part), (''final'', PBool final), (''sequence'', PInt (int i))])
      = set [''sequence'', ''final'', ''body'']" unfolding dkeys_def by force
  have "rid \<noteq> PNone" using assms by (auto simp: request_id_ok_def)
  then show ?thesis using k
    by (simp add: parse_result_chunk_def frame_norm_def chunk_frame_def c require_frame_version_def payload_fields_def
        at_field_def dget_Cons del: canon.simps)
qed

lemma chunks_delivered:
  assumes rid: "request_id_ok rid" and "suf \<noteq> []" and "length pre + length suf \<le> 10 ^ 21"
    and "send_all (encode_frame F default_limit)
      (map (\<lambda>(i, part). chunk_frame rid i (i = length pre + length suf - 1) part) (enumerate (length pre) suf)) = Inr bs"
    and "assemble_result_chunks F rid (pre @ suf) = Inr r"
  shows "read_result F FRAME_FORMAT_VERSION rid report pre seen (bs @ rest) = (Inr r, seen, rest)"
  using assms(2-)
proof (induction suf arbitrary: pre bs)
  case (Cons part suf)
  let ?last = "length pre = length pre + length (part # suf) - 1"
  let ?f = "chunk_frame rid (length pre) ?last part"
  obtain a b where ab: "encode_frame F default_limit ?f = Inr a" "bs = a @ b"
      "send_all (encode_frame F default_limit)
        (map (\<lambda>(i, p). chunk_frame rid i (i = length pre + length (part # suf) - 1) p) (enumerate (length (pre @ [part])) suf)) = Inr b"
    using Cons.prems(3) by (auto simp: res_simps)
  have ok: "frame_ok F ?f" by (rule chunk_frame_ok [OF rid]) (use Cons.prems(2) in simp)
  have rd: "read_frame F default_limit (a @ b @ rest) = (Inr (frame_norm ?f), b @ rest)"
    by (rule read_encoded [OF ok ab(1)])
  have sel: "fr_version ?f = PInt FRAME_FORMAT_VERSION" "fr_request_id ?f = rid" "fr_type ?f = RESULT_CHUNK"
    by (simp_all add: chunk_frame_def)
  note step = read_result_step [OF rd, of FRAME_FORMAT_VERSION rid] and parsed = parse_chunk [OF rid, of "length pre" ?last part]
  show ?case
  proof (cases "suf = []")
    case True
    then have "b = []" using ab(3) by simp
    then show ?thesis using True step(4) [of pre part r report seen] parsed sel Cons.prems(4) by (simp add: ab(2))
  next
    case False
    then have nl: "\<not> ?last" by simp
    have "read_result F FRAME_FORMAT_VERSION rid report (pre @ [part]) seen (b @ rest) = (Inr r, seen, rest)"
      by (rule Cons.IH [OF False]) (use Cons.prems(2,4) ab(3) in simp_all)
    moreover have "read_result F FRAME_FORMAT_VERSION rid report pre seen (a @ b @ rest)
        = read_result F FRAME_FORMAT_VERSION rid report (pre @ [part]) seen (b @ rest)"
      by (rule step(3)) (use parsed sel nl in simp_all)
    ultimately show ?thesis by (simp add: ab(2))
  qed
qed simp

lemma default_limit_bounds: "default_limit = PInt 1048576" "(1024 :: int) \<le> 1048576" "(1048576 :: int) < 2 ^ 32"
  by (simp_all add: default_limit_def DEFAULT_MAX_FRAME_BYTES_def)

lemma assemble_payload:
  assumes "result_ok F r"
  shows "concat parts = json_text F (canon (result_payload r)) \<Longrightarrow>
    assemble_result_chunks F (pl_job r) parts = Inr (result_norm r)"
  using json_round_trip(2) [OF result_okD(5) [OF assms], of True] parse_canon_result [OF assms]
  by (simp add: assemble_result_chunks_def canon_result_payload [OF assms])

lemma result_delivered:
  assumes r: "result_ok F r" and l: "length (json_text F (canon (result_payload r))) \<le> 10 ^ 21"
  shows "\<exists>fs bs. result_frames F default_limit r = Inr fs \<and> list_all (\<lambda>f. fr_version f = PInt FRAME_FORMAT_VERSION) fs \<and>
    send_all (encode_frame F default_limit) fs = Inr bs \<and>
    (\<forall>rest. read_result F FRAME_FORMAT_VERSION (pl_job r) report [] seen (bs @ rest) = (Inr (result_norm r), seen, rest))"
  using result_frames_fit [OF r default_limit_bounds(2,3) l, folded default_limit_bounds(1)]
proof (elim disjE exE conjE)
  fix f bs
  assume f: "result_frames F default_limit r = Inr [f]" "result_frame r = Inr f" "encode_frame F default_limit f = Inr bs"
  obtain ok: "frame_ok F f" "fr_type f = RESULT" "fr_payload f = result_payload r"
      "fr_request_id f = pl_job r" "fr_version f = PInt FRAME_FORMAT_VERSION"
    by (rule result_frame_ok [OF r]) (use f(2) in auto)
  have "frame_norm f = \<lparr>fr_version = PInt FRAME_FORMAT_VERSION, fr_type = RESULT, fr_request_id = pl_job r,
      fr_payload = canon (result_payload r)\<rparr>" using ok by (cases f) (simp add: frame_norm_def)
  then have "parse_result FRAME_FORMAT_VERSION (frame_norm f) = Inr (result_norm r)"
    using parse_canon_result [OF r] by simp
  then have "read_result F FRAME_FORMAT_VERSION (pl_job r) report [] seen (bs @ rest) = (Inr (result_norm r), seen, rest)" for rest
    using read_result_step(2) [OF read_encoded [OF ok(1) f(3)], of FRAME_FORMAT_VERSION "pl_job r"] ok by simp
  then show ?thesis using f ok(5) by (intro exI [of _ "[f]"] exI [of _ bs]) simp
next
  fix parts
  assume p: "parts \<noteq> []" "length parts \<le> 10 ^ 21" "result_frames F default_limit r = Inr (chunk_frames (pl_job r) parts)"
    "concat parts = json_text F (canon (result_payload r))"
    "\<forall>part \<in> set parts. \<forall>i < 10 ^ 21. \<forall>final. \<exists>bs. encode_frame F default_limit (chunk_frame (pl_job r) i final part) = Inr bs"
  let ?fs = "chunk_frames (pl_job r) parts"
  have "\<exists>b. encode_frame F default_limit f = Inr b" if "f \<in> set ?fs" for f
  proof -
    from that obtain i final part where ip: "f = chunk_frame (pl_job r) i final part" "i < length parts" "parts ! i = part"
      by (auto simp: chunk_frames_def in_set_enumerate_eq)
    have "part \<in> set parts" using nth_mem [OF ip(2)] ip(3) by simp
    from p(5) [rule_format, OF this less_le_trans [OF ip(2) p(2)]] show ?thesis unfolding ip(1) .
  qed
  then obtain bs where bs: "send_all (encode_frame F default_limit) ?fs = Inr bs" using send_all_ok [of ?fs "encode_frame F default_limit"] by auto
  have "read_result F FRAME_FORMAT_VERSION (pl_job r) report [] seen (bs @ rest) = (Inr (result_norm r), seen, rest)" for rest
    by (rule chunks_delivered [OF result_okD(1) [OF r] p(1)])
       (use p(2) bs assemble_payload [OF r p(4)] in \<open>simp_all add: chunk_frames_def\<close>)
  moreover have "list_all (\<lambda>f. fr_version f = PInt FRAME_FORMAT_VERSION) ?fs"
    by (auto simp: list_all_iff chunk_frames_def chunk_frame_def)
  ultimately show ?thesis using p(3) bs by blast
qed

lemma with_protocol_all:
  "list_all (\<lambda>f. fr_version f = PInt v) fs \<Longrightarrow> map (\<lambda>f. with_protocol f v) fs = fs"
  by (induction fs) (simp_all add: with_protocol_same)

lemma error_delivered:
  assumes rid: "request_id_ok rid" and "code \<noteq> []" and "list_all plain code" and "length code \<le> 100"
  shows "\<exists>bs. write_error F FRAME_FORMAT_VERSION rid code = Inr bs \<and>
    (\<forall>rest. read_result F FRAME_FORMAT_VERSION rid report parts seen (bs @ rest)
       = (Inl (PluginWorkerError code ''worker refused the message''), seen, rest))"
proof -
  let ?d = "[(''code'', PStr code), (''detail'', PStr ''worker refused the message'')]"
  let ?f = "\<lparr>fr_version = PInt FRAME_FORMAT_VERSION, fr_type = ERROR, fr_request_id = rid, fr_payload = PDict ?d\<rparr>"
  have ok: "frame_ok F ?f" using rid version_value [of F]
    by (simp add: frame_ok_def validate_frame_def positive_int_def FRAME_FORMAT_VERSION_def dict_ok_def dkeys_def)
  then have v: "validate_frame ?f = Inr ()" by (simp add: frame_ok_def)
  have c: "canon (PDict ?d) = PDict ?d" by (simp add: less_char_def)
  have one: "length (utf8_char x) = 1" if "plain x" for x using that by (simp add: plain_def utf8_char_def Let_def)
  have doc: "canon (frame_document ?f) =
      PDict [(''payload'', PDict ?d), (''requestId'', rid), (''type'', PStr ''error''), (''version'', PInt 1)]"
    unfolding canon_document [OF v] by (simp add: frame_document_def frame_norm_def c FRAME_FORMAT_VERSION_def del: canon.simps)
  have "length (frame_body F ?f) \<le> 1024"
    using length_request_id [OF rid, of F] assms(4) length_plain_string [OF assms(3)]
    by (simp add: frame_body_def doc utf8_Cons length_plain_string plain_def one int_str_def one_digit)
  then obtain bs where bs: "encode_frame F default_limit ?f = Inr bs"
    using encode_fits [OF ok, of 1048576] by (auto simp: default_limit_bounds)
  have "worker_error (frame_norm ?f) = PluginWorkerError code ''worker refused the message''"
    using assms(2) by (simp add: worker_error_def frame_norm_def c dget_Cons del: canon.simps)
  then have "read_result F FRAME_FORMAT_VERSION rid report parts seen (bs @ rest)
       = (Inl (PluginWorkerError code ''worker refused the message''), seen, rest)" for rest
    using read_result_step(5) [OF read_encoded [OF ok bs], of FRAME_FORMAT_VERSION rid] by simp
  then show ?thesis using bs by (simp add: write_error_def)
qed

lemma reports_delivered:
  assumes "list_all (report_ok F rid) ps"
  shows "\<exists>bs. report_all F FRAME_FORMAT_VERSION rid ps = (bs, None) \<and>
    (\<forall>seen rest. read_result F FRAME_FORMAT_VERSION rid (Some (\<lambda>_. None)) [] seen (bs @ rest)
       = read_result F FRAME_FORMAT_VERSION rid (Some (\<lambda>_. None)) [] (seen @ map progress_norm ps) rest)"
  using assms
proof (induction ps)
  case (Cons p ps)
  obtain b where b: "report_all F FRAME_FORMAT_VERSION rid ps = (b, None)"
    "\<And>seen rest. read_result F FRAME_FORMAT_VERSION rid (Some (\<lambda>_. None)) [] seen (b @ rest)
       = read_result F FRAME_FORMAT_VERSION rid (Some (\<lambda>_. None)) [] (seen @ map progress_norm ps) rest"
    using Cons by auto
  obtain a where a: "report_progress F FRAME_FORMAT_VERSION rid p = Inr a" using Cons.prems by (auto simp: report_ok_def is_ok_iff)
  have "read_result F FRAME_FORMAT_VERSION rid (Some (\<lambda>_. None)) [] seen (a @ rest)
       = read_result F FRAME_FORMAT_VERSION rid (Some (\<lambda>_. None)) [] (seen @ [progress_norm p]) rest" for seen rest
    using progress_delivered [of F rid p "\<lambda>_. None" "[]" seen] Cons.prems a by auto
  then show ?case by (simp add: a b)
qed simp

definition request_ok :: "float_text \<Rightarrow> plugin_request \<Rightarrow> bool" where
  "request_ok F r =
     (validate_request r = Inr () \<and> json_value F (rq_payload r) \<and> json_value F (rq_submitted_at r) \<and>
      json_value F (rq_deadline_at r))"

definition request_norm :: "plugin_request \<Rightarrow> plugin_request" where
  "request_norm r = r\<lparr>rq_payload := canon (rq_payload r)\<rparr>"

lemma request_okD:
  assumes "request_ok F r"
  shows "request_id_ok (rq_job r)" "is_str (rq_plugin r)" "is_str (rq_trigger r)" "is_dict (rq_payload r)"
    "positive_int (rq_submitted_at r)" "canon (rq_deadline_at r) = rq_deadline_at r" "validate_request (request_norm r) = Inr ()"
proof -
  have v: "validate_request r = Inr ()" using assms by (simp add: request_ok_def)
  show "request_id_ok (rq_job r)" "is_str (rq_plugin r)" "is_str (rq_trigger r)" "is_dict (rq_payload r)"
    "positive_int (rq_submitted_at r)" "canon (rq_deadline_at r) = rq_deadline_at r"
    using v by (auto simp: validate_request_def text_within_def request_id_ok_def plugin_id_ok_def deadline_ok_def
        split: if_splits pyval.splits)
  have "is_dict (canon x) = is_dict x" for x by (cases x) simp_all
  then show "validate_request (request_norm r) = Inr ()"
    using v by (auto simp: validate_request_def request_norm_def split: if_splits)
qed

lemma request_delivered:
  assumes ok: "request_ok F r"
  obtains f where "execute_frame r = Inr f" "frame_ok F f" "fr_version f = PInt FRAME_FORMAT_VERSION" "fr_type f = EXECUTE"
    "parse_execute FRAME_FORMAT_VERSION (frame_norm f) = Inr (request_norm r)"
proof -
  note v = request_okD [OF ok]
  let ?d = "[(''pluginId'', rq_plugin r), (''trigger'', rq_trigger r), (''payload'', rq_payload r),
              (''submittedAt'', rq_submitted_at r), (''deadlineAt'', rq_deadline_at r)]"
  let ?e = "[(''deadlineAt'', rq_deadline_at r), (''payload'', canon (rq_payload r)), (''pluginId'', rq_plugin r),
              (''submittedAt'', rq_submitted_at r), (''trigger'', rq_trigger r)]"
  let ?f = "\<lparr>fr_version = PInt FRAME_FORMAT_VERSION, fr_type = EXECUTE, fr_request_id = rq_job r, fr_payload = PDict ?d\<rparr>"
  obtain s t where st: "rq_plugin r = PStr s" "rq_trigger r = PStr t"
    using v(2,3) by (cases "rq_plugin r"; cases "rq_trigger r") auto
  have "execute_frame r = Inr ?f" using ok by (simp add: execute_frame_def request_ok_def)
  moreover have "frame_ok F ?f"
    using ok v(1) version_value [of F] by (simp add: frame_ok_def validate_frame_def positive_int_def FRAME_FORMAT_VERSION_def
        request_ok_def dict_ok_def dkeys_def st)
  moreover have c: "canon (PDict ?d) = PDict ?e"
    using v(6) positive_scalar [OF v(5)] by (simp add: less_char_def st)
  moreover have "set (dkeys ?e) = set [''pluginId'', ''trigger'', ''payload'', ''submittedAt'', ''deadlineAt'']"
    unfolding dkeys_def by force
  moreover have "rq_job r \<noteq> PNone" using v(1) by (auto simp: request_id_ok_def)
  moreover have "request_norm r = \<lparr>rq_job = rq_job r, rq_plugin = rq_plugin r, rq_trigger = rq_trigger r,
      rq_payload = canon (rq_payload r), rq_submitted_at = rq_submitted_at r, rq_deadline_at = rq_deadline_at r\<rparr>"
    by (simp add: request_norm_def)
  ultimately show thesis using v(7)
    by (intro that [of ?f]) (simp_all add: parse_execute_def frame_norm_def require_frame_version_def payload_fields_def
        at_field_def dget_Cons Let_def del: canon.simps)
qed

section \<open>Properties\<close>

text \<open>How a run should look to the service.\<close>

definition service_answer :: "plugin_request \<Rightarrow> int \<Rightarrow> execution \<Rightarrow> channel_failure + plugin_result" where
  "service_answer request now_ms ended =
     (case ended of
        Answers r \<Rightarrow> Inr (result_norm r)
      | Cancelled \<Rightarrow> Inr (cancelled_result request now_ms)
      | Raises e \<Rightarrow> Inl (PluginWorkerError ''plugin-execution-failed'' ''worker refused the message''))"

definition answer_ok :: "float_text \<Rightarrow> plugin_request \<Rightarrow> int \<Rightarrow> execution \<Rightarrow> bool" where
  "answer_ok F request now_ms ended =
     (case ended of
        Answers r \<Rightarrow> pl_job r = rq_job request \<and> result_ok F r \<and>
                     length (json_text F (canon (result_payload r))) \<le> 10 ^ 21
      | Cancelled \<Rightarrow> now_ms < 10 ^ 20
      | Raises e \<Rightarrow> True)"

lemma cancelled_result_ok:
  assumes "request_id_ok (rq_job request)" and "now_ms < 10 ^ 20"
  shows "result_ok F (cancelled_result request now_ms)"
    and "length (json_text F (canon (result_payload (cancelled_result request now_ms)))) \<le> 10 ^ 21"
    and "result_norm (cancelled_result request now_ms) = cancelled_result request now_ms"
proof -
  let ?r = "cancelled_result request now_ms"
  have "nat (max 1 now_ms) < 10 ^ 20" using assms(2) by (simp add: nat_less_iff)
  then have l: "length (nat_str (nat (max 1 now_ms))) \<le> 20" using length_nat_str by simp
  have a: "nat \<bar>max 1 now_ms\<bar> = nat (max 1 now_ms)" by simp
  show ok: "result_ok F ?r"
    using assms(1) l unfolding a [symmetric]
    by (auto simp: result_ok_def cancelled_result_def validate_result_def validate_request_id_def positive_int_def
        MAX_STR_DIGITS_def dict_ok_def request_id_ok_def text_within_def split: pyval.splits)
  have "int_str (max 1 now_ms) = nat_str (nat (max 1 now_ms))" by (simp add: int_str_def)
  then have "length (json_text F (canon (result_payload ?r))) \<le> 1000"
    using l unfolding canon_result_payload [OF ok]
    by (simp add: cancelled_result_def json_string_def esc_char_def dq_def bslash_def)
  then show "length (json_text F (canon (result_payload ?r))) \<le> 10 ^ 21" by simp
  show "result_norm ?r = ?r" by (simp add: result_norm_def cancelled_result_def)
qed

lemma execution_failed_plain: "list_all plain ''plugin-execution-failed''"
  by (simp add: plain_def)

text \<open>What the worker sends as its answer, and the service's reading of it.\<close>

lemma answer_delivered:
  assumes rid: "request_id_ok (rq_job request)" and ok: "answer_ok F request now_ms ended"
  shows "\<exists>bs. (case answer_frames F request now_ms ended of
       Inl None \<Rightarrow> write_error F FRAME_FORMAT_VERSION (rq_job request) ''plugin-execution-failed''
     | Inl (Some e) \<Rightarrow> Inl e
     | Inr fs \<Rightarrow> send_all (encode_frame F default_limit) (map (\<lambda>f. with_protocol f FRAME_FORMAT_VERSION) fs)) = Inr bs \<and>
    (\<forall>rest. read_result F FRAME_FORMAT_VERSION (rq_job request) report [] seen (bs @ rest)
       = (service_answer request now_ms ended, seen, rest))"
proof (cases ended)
  case (Answers r)
  then have r: "pl_job r = rq_job request" "result_ok F r" "length (json_text F (canon (result_payload r))) \<le> 10 ^ 21"
    using ok by (simp_all add: answer_ok_def)
  show ?thesis using result_delivered [OF r(2,3), of report seen] r(1)
    by (auto simp: Answers answer_frames_def service_answer_def with_protocol_all)
next
  case Cancelled
  have t: "now_ms < 10 ^ 20" using ok by (simp add: answer_ok_def Cancelled)
  note c = cancelled_result_ok(1,2) [OF rid t, of F] cancelled_result_ok(3) [OF rid t]
  have "pl_job (cancelled_result request now_ms) = rq_job request" by (simp add: cancelled_result_def)
  then show ?thesis using result_delivered [OF c(1,2), of report seen]
    by (auto simp: Cancelled answer_frames_def service_answer_def with_protocol_all c(3))
next
  case (Raises e)
  show ?thesis using error_delivered [OF rid, of "''plugin-execution-failed''"] execution_failed_plain
    by (simp add: Raises answer_frames_def service_answer_def)
qed

text \<open>C21. A call over a worker's channel, end to end.  The request the service writes is the request
  the worker starts, and whatever the plugin then does, the service reads exactly that: every
  progress report in order, and then the plugin's result (in one frame or, when it is too long
  for one, in as many chunks as it takes, each within the frame limit), its cancellation, or its
  failure; what follows on the stream is left unread.\<close>

theorem worker_call_delivered:
  assumes version: "ag_version a = FRAME_FORMAT_VERSION" and ok: "request_ok F request"
    and fits: "is_ok (bind_res (execute_frame request) (encode_frame F default_limit))"
    and mine: "wk_plugin w = rq_plugin request" and new: "\<not> dhas (wk_active w) (rq_job request)"
    and reports: "list_all (report_ok F (rq_job request)) (run_reports run)" and answers: "answer_ok F request now_ms (run_end run)"
  shows "\<exists>written f answer.
    run_request F a request (Some (\<lambda>_. None)) (answer @ rest) =
      (written, service_answer request now_ms (run_end run), map progress_norm (run_reports run), rest) \<and>
    read_frame F default_limit written = (Inr f, []) \<and>
    serve_frame F FRAME_FORMAT_VERSION f w =
      Inr (Some ([], Some (request_norm request), w\<lparr>wk_active := dset (rq_job request) False (wk_active w)\<rparr>)) \<and>
    execute_request F FRAME_FORMAT_VERSION (request_norm request) now_ms run = Inr answer"
proof -
  obtain f where f: "execute_frame request = Inr f" "frame_ok F f" "fr_version f = PInt FRAME_FORMAT_VERSION"
      "fr_type f = EXECUTE" "parse_execute FRAME_FORMAT_VERSION (frame_norm f) = Inr (request_norm request)"
    by (rule request_delivered [OF ok])
  obtain written where wr: "encode_frame F default_limit f = Inr written"
    using fits by (auto simp: is_ok_iff f(1))
  have rq: "rq_job (request_norm request) = rq_job request" "rq_plugin (request_norm request) = rq_plugin request"
    by (simp_all add: request_norm_def)
  have cr: "cancelled_result (request_norm request) now_ms = cancelled_result request now_ms"
    by (simp add: cancelled_result_def rq)
  have same: "answer_frames F (request_norm request) now_ms e = answer_frames F request now_ms e" for e
    by (cases e) (simp_all add: answer_frames_def rq cr)
  have rid: "request_id_ok (rq_job request)" by (rule request_okD(1) [OF ok])
  let ?job = "rq_job request" and ?take = "Some (\<lambda>_. None) :: (plugin_progress \<Rightarrow> exn option) option"
  obtain b1 where b1: "report_all F FRAME_FORMAT_VERSION ?job (run_reports run) = (b1, None)"
    "\<And>s. read_result F FRAME_FORMAT_VERSION ?job ?take [] [] (b1 @ s)
       = read_result F FRAME_FORMAT_VERSION ?job ?take [] (map progress_norm (run_reports run)) s"
    using reports_delivered [OF reports] by (metis append_Nil)
  obtain b2 where b2: "(case answer_frames F request now_ms (run_end run) of
       Inl None \<Rightarrow> write_error F FRAME_FORMAT_VERSION ?job ''plugin-execution-failed''
     | Inl (Some e) \<Rightarrow> Inl e
     | Inr fs \<Rightarrow> send_all (encode_frame F default_limit) (map (\<lambda>f. with_protocol f FRAME_FORMAT_VERSION) fs)) = Inr b2"
    "\<And>seen. read_result F FRAME_FORMAT_VERSION ?job ?take [] (map progress_norm (run_reports run)) (b2 @ rest)
       = (service_answer request now_ms (run_end run), map progress_norm (run_reports run), rest)"
    using answer_delivered [OF rid answers, of ?take "map progress_norm (run_reports run)"] by blast
  have "execute_request F FRAME_FORMAT_VERSION (request_norm request) now_ms run = Inr (b1 @ b2)"
    using b2(1) unfolding execute_request_def rq b1(1) by (simp add: same)
  moreover have "run_request F a request ?take ((b1 @ b2) @ rest) =
      (written, service_answer request now_ms (run_end run), map progress_norm (run_reports run), rest)"
    using b1(2) b2(2) by (simp add: run_request_def f(1) version with_protocol_same [OF f(3)] wr)
  moreover have "read_frame F default_limit written = (Inr (frame_norm f), [])"
    using read_encoded [OF f(2) wr, of "[]"] by simp
  moreover have "serve_frame F FRAME_FORMAT_VERSION (frame_norm f) w =
      Inr (Some ([], Some (request_norm request), w\<lparr>wk_active := dset (rq_job request) False (wk_active w)\<rparr>))"
    using f mine new rq by (simp add: serve_frame_def handle_request_frame_def check_request_def)
  ultimately show ?thesis by blast
qed

text \<open>
  The parsers of \<^verbatim>\<open>read_result\<close> expect the default version while \<open>correlated\<close> expects the negotiated
  one: on a channel that agreed on any other version no result is ever returned.
\<close>

lemma other_version_never_returns:
  assumes "negotiated \<noteq> FRAME_FORMAT_VERSION"
  shows "\<exists>x. fst (read_result F negotiated rid report parts seen stream) = Inl x"
  using assms
  by (subst read_result.simps)
     (auto simp: correlated_def parse_progress_def parse_result_def parse_result_chunk_def require_frame_version_def
      split: prod.splits sum.splits option.splits if_splits)

definition demo_call :: plugin_request where
  "demo_call =
     \<lparr>rq_job = PStr ''j1'', rq_plugin = PStr ''demo'', rq_trigger = PStr ''manual'', rq_payload = PDict [],
      rq_submitted_at = PInt 1, rq_deadline_at = PNone\<rparr>"

definition demo_worker :: worker where
  "demo_worker = \<lparr>wk_plugin = PStr ''demo'', wk_active = [], wk_deadlines = []\<rparr>"

definition demo_agreement :: agreement where
  "demo_agreement = \<lparr>ag_plugin = PStr ''demo'', ag_version = 1, ag_capabilities = {''execute''}\<rparr>"

definition demo_answer :: plugin_result where
  "demo_answer =
     \<lparr>pl_job = PStr ''j1'', pl_status = SUCCEEDED, pl_output = PDict [], pl_detail = PStr ''done'', pl_completed_at = PInt 1\<rparr>"

definition demo_run :: plugin_run where
  "demo_run = \<lparr>run_reports = [], run_end = Answers demo_answer\<rparr>"

lemma demo_call_ok: "request_ok demo_floats demo_call"
  by (simp add: request_ok_def demo_call_def validate_request_def text_within_def plugin_id_ok_def lower_alnum_def
      positive_int_def deadline_ok_def MAX_REQUEST_ID_CHARS_def MAX_STR_DIGITS_def one_digit dict_ok_def)

lemma demo_call_fits: "is_ok (bind_res (execute_frame demo_call) (encode_frame demo_floats default_limit))"
proof -
  obtain f where f: "execute_frame demo_call = Inr f" "frame_ok demo_floats f" by (rule request_delivered [OF demo_call_ok])
  have v: "validate_frame f = Inr ()" using f(2) by (simp add: frame_ok_def)
  have e: "f = \<lparr>fr_version = PInt 1, fr_type = EXECUTE, fr_request_id = PStr ''j1'',
      fr_payload = PDict [(''pluginId'', PStr ''demo''), (''trigger'', PStr ''manual''), (''payload'', PDict []),
        (''submittedAt'', PInt 1), (''deadlineAt'', PNone)]\<rparr>"
    using f(1) demo_call_ok by (simp add: execute_frame_def request_ok_def demo_call_def FRAME_FORMAT_VERSION_def)
  have d: "canon (frame_document f) =
      PDict [(''payload'', PDict [(''deadlineAt'', PNone), (''payload'', PDict []), (''pluginId'', PStr ''demo''),
          (''submittedAt'', PInt 1), (''trigger'', PStr ''manual'')]), (''requestId'', PStr ''j1''),
             (''type'', PStr ''execute''), (''version'', PInt 1)]"
    unfolding canon_document [OF v] by (simp add: frame_document_def frame_norm_def e less_char_def)
  have one: "length (utf8_char c) = 1" if "plain c" for c using that by (simp add: plain_def utf8_char_def Let_def)
  have "length (frame_body demo_floats f) \<le> 1024"
    by (simp add: frame_body_def d int_str_def one_digit utf8_Cons length_plain_string plain_def one)
  then show ?thesis using encode_fits [OF f(2), of 1048576] by (auto simp: f(1) default_limit_bounds)
qed

lemma demo_answer_ok: "answer_ok demo_floats demo_call 1 (run_end demo_run)"
proof -
  have ok: "result_ok demo_floats demo_answer"
    by (simp add: result_ok_def demo_answer_def validate_result_def validate_request_id_def text_within_def
        positive_int_def MAX_REQUEST_ID_CHARS_def MAX_STR_DIGITS_def one_digit dict_ok_def)
  have "length (json_text demo_floats (canon (result_payload demo_answer))) \<le> 1000"
    unfolding canon_result_payload [OF ok]
    by (simp add: demo_answer_def json_string_def esc_char_def dq_def bslash_def int_str_def one_digit)
  then show ?thesis using ok by (simp add: answer_ok_def demo_run_def demo_answer_def demo_call_def)
qed

theorem worker_call_delivered_witness:
  "\<exists>written answer. run_request demo_floats demo_agreement demo_call (Some (\<lambda>_. None)) (answer @ [7]) =
      (written, Inr demo_answer, [], [7])"
proof -
  have "\<exists>written f answer.
    run_request demo_floats demo_agreement demo_call (Some (\<lambda>_. None)) (answer @ [7]) =
      (written, service_answer demo_call 1 (run_end demo_run), map progress_norm (run_reports demo_run), [7]) \<and>
    read_frame demo_floats default_limit written = (Inr f, []) \<and>
    serve_frame demo_floats FRAME_FORMAT_VERSION f demo_worker =
      Inr (Some ([], Some (request_norm demo_call), demo_worker\<lparr>wk_active := dset (rq_job demo_call) False (wk_active demo_worker)\<rparr>)) \<and>
    execute_request demo_floats FRAME_FORMAT_VERSION (request_norm demo_call) 1 demo_run = Inr answer"
    by (rule worker_call_delivered)
       (simp_all add: demo_call_ok demo_call_fits demo_answer_ok, simp_all add: demo_agreement_def demo_worker_def demo_call_def
        demo_run_def FRAME_FORMAT_VERSION_def dhas_def)
  moreover have "result_norm demo_answer = demo_answer" by (simp add: result_norm_def demo_answer_def)
  ultimately show ?thesis by (auto simp: service_answer_def demo_run_def)
qed

end
