(* ===== verification/Grant_Ledger.thy ===== *)
theory Grant_Ledger
  imports Json_Text
begin

text \<open>
  \<^verbatim>\<open>src/omnitensor/plugins/grants.py\<close>: the consent ledger, a file that several processes read and
  replace under a lock, each holding a copy in memory.  Permissions and plugin ids are strings by
  type; the fields of a provenance are the Python values a caller or the file supplies.  The file is
  its size and, when its bytes are readable JSON, its document.  A file replaced atomically has a
  stamp (device, inode, size and time of change) it never had before, which \<open>dk_next\<close> supplies.  A
  message that quotes a value keeps only its fixed part.
\<close>

section \<open>Grants and their provenance\<close>

definition GRANTS_DOCUMENT_VERSION :: int where "GRANTS_DOCUMENT_VERSION = 1"
definition DEFAULT_MAX_GRANTS_BYTES :: nat where "DEFAULT_MAX_GRANTS_BYTES = 512 * 1024"
definition DEFAULT_AUDIT_EVENTS :: nat where "DEFAULT_AUDIT_EVENTS = 1024"
definition MAX_DECLARED_PERMISSIONS :: nat where "MAX_DECLARED_PERMISSIONS = 32"
definition MAX_PLUGIN_ID_CHARS :: nat where "MAX_PLUGIN_ID_CHARS = 80"

datatype grant_origin = USER | ADMIN | MIGRATION
datatype grant_action = GRANTED | REVOKED

fun origin_str :: "grant_origin \<Rightarrow> string" where
  "origin_str USER = ''user''"
| "origin_str ADMIN = ''admin''"
| "origin_str MIGRATION = ''migration''"

fun action_str :: "grant_action \<Rightarrow> string" where
  "action_str GRANTED = ''granted''"
| "action_str REVOKED = ''revoked''"

record provenance =
  pv_actor :: pyval
  pv_origin :: grant_origin
  pv_reason :: pyval
  pv_recorded_at :: pyval
  pv_request :: pyval

record audit_event =
  ae_revision :: int
  ae_plugin :: string
  ae_permission :: string
  ae_action :: grant_action
  ae_provenance :: provenance

text \<open>\<^verbatim>\<open>valid_plugin_id\<close> of \<^verbatim>\<open>protocol.py\<close>.\<close>

definition valid_plugin_id :: "string \<Rightarrow> bool" where
  "valid_plugin_id s =
     (1 \<le> length s \<and> length s \<le> MAX_PLUGIN_ID_CHARS \<and> words_by lower_alnum (CHR ''-'') False s)"

definition lower_letter :: "char \<Rightarrow> bool" where
  "lower_letter ch = (let n = of_char ch :: nat in 97 \<le> n \<and> n \<le> 122)"

text \<open>\<^verbatim>\<open>^[a-z][a-z0-9-]*:[a-zA-Z0-9*._/-]+$\<close>: the second part cannot hold a colon.\<close>

definition permission_pattern :: "string \<Rightarrow> bool" where
  "permission_pattern s =
     (let scheme = takeWhile (\<lambda>c. c \<noteq> CHR '':'') s; rest = dropWhile (\<lambda>c. c \<noteq> CHR '':'') s
      in scheme \<noteq> [] \<and> lower_letter (hd scheme) \<and> list_all (\<lambda>c. lower_alnum c \<or> c = CHR ''-'') scheme \<and>
         1 < length rest \<and> list_all (\<lambda>c. ascii_alnum c \<or> c \<in> set ''*._/-'') (tl rest))"

definition permission_ok :: "string \<Rightarrow> bool" where
  "permission_ok s = (length s \<le> 160 \<and> permission_pattern s)"

definition actor_ok :: "pyval \<Rightarrow> bool" where
  "actor_ok v = (case v of PStr s \<Rightarrow> 1 \<le> length s \<and> length s \<le> 120 \<and>
       list_all (\<lambda>c. ascii_alnum c \<or> c \<in> set ''._:@-'') s | _ \<Rightarrow> False)"

definition grant_request_id_ok :: "pyval \<Rightarrow> bool" where
  "grant_request_id_ok v = (case v of PStr s \<Rightarrow> 1 \<le> length s \<and> length s \<le> 120 \<and>
       list_all (\<lambda>c. ascii_alnum c \<or> c \<in> set ''._-'') s | _ \<Rightarrow> False)"

definition reason_ok :: "pyval \<Rightarrow> bool" where
  "reason_ok v = (case v of PStr s \<Rightarrow> length s \<le> 240 | _ \<Rightarrow> False)"

definition refuse_unless :: "bool \<Rightarrow> string \<Rightarrow> string \<Rightarrow> unit res" where
  "refuse_unless ok code detail = (if ok then Inr () else Inl (Stable code detail))"

definition non_negative :: "pyval \<Rightarrow> string \<Rightarrow> int res" where
  "non_negative v label =
     (case v of PInt n \<Rightarrow> if n < 0 then Inl (Stable ''invalid-integer'' (label @ '' must be a non-negative integer'')) else Inr n
      | _ \<Rightarrow> Inl (Stable ''invalid-integer'' (label @ '' must be a non-negative integer'')))"

definition validate_plugin_id :: "string \<Rightarrow> unit res" where
  "validate_plugin_id p = refuse_unless (valid_plugin_id p) ''invalid-plugin-id'' ''invalid plugin id''"

definition validate_permission :: "string \<Rightarrow> unit res" where
  "validate_permission q = refuse_unless (permission_ok q) ''invalid-permission'' ''invalid permission''"

definition validate_provenance :: "provenance \<Rightarrow> unit res" where
  "validate_provenance v =
     (if \<not> actor_ok (pv_actor v) then Inl (Stable ''invalid-provenance'' ''actor id is invalid'')
      else if \<not> reason_ok (pv_reason v) then Inl (Stable ''invalid-provenance'' ''reason must contain at most 240 characters'')
      else bind_res (non_negative (pv_recorded_at v) ''recorded_at_ms'') (\<lambda>_.
        refuse_unless (grant_request_id_ok (pv_request v)) ''invalid-provenance'' ''request id is invalid''))"

definition validated_declarations :: "string set \<Rightarrow> string set res" where
  "validated_declarations permissions =
     (if MAX_DECLARED_PERMISSIONS < card permissions
      then Inl (Stable ''invalid-declarations'' (''at most '' @ nat_str MAX_DECLARED_PERMISSIONS @ '' permissions may be declared''))
      else if \<not> (\<forall>q \<in> permissions. permission_ok q) then Inl (Stable ''invalid-permission'' ''invalid permission'')
      else Inr permissions)"

section \<open>The document\<close>

definition encode_provenance :: "provenance \<Rightarrow> pyval" where
  "encode_provenance v =
     PDict [(''actorId'', pv_actor v), (''origin'', PStr (origin_str (pv_origin v))), (''reason'', pv_reason v),
            (''recordedAtMs'', pv_recorded_at v), (''requestId'', pv_request v)]"

definition sorted_by_key :: "'v dict \<Rightarrow> 'v dict" where
  "sorted_by_key d = sort_key fst d"

definition encode_event :: "audit_event \<Rightarrow> pyval" where
  "encode_event e =
     PDict [(''revision'', PInt (ae_revision e)), (''pluginId'', PStr (ae_plugin e)),
            (''permission'', PStr (ae_permission e)), (''action'', PStr (action_str (ae_action e))),
            (''provenance'', encode_provenance (ae_provenance e))]"

definition encode_grants :: "provenance dict dict \<Rightarrow> pyval" where
  "encode_grants grants =
     PDict (map (\<lambda>(p, qs). (p, PDict (map (\<lambda>(q, v). (q, encode_provenance v)) (sorted_by_key qs)))) (sorted_by_key grants))"

definition encode_document :: "int \<Rightarrow> provenance dict dict \<Rightarrow> audit_event list \<Rightarrow> pyval" where
  "encode_document revision grants audit =
     PDict [(''documentVersion'', PInt GRANTS_DOCUMENT_VERSION), (''revision'', PInt revision),
            (''grants'', encode_grants grants), (''audit'', PList (map encode_event audit))]"

definition fields_exactly :: "string list \<Rightarrow> pyval \<Rightarrow> pyval dict option" where
  "fields_exactly names v = (case v of PDict d \<Rightarrow> if set (dkeys d) = set names then Some d else None | _ \<Rightarrow> None)"

definition origin_of :: "pyval \<Rightarrow> grant_origin option" where
  "origin_of v = find (\<lambda>x. PStr (origin_str x) = v) [USER, ADMIN, MIGRATION]"

definition action_of :: "pyval \<Rightarrow> grant_action option" where
  "action_of v = find (\<lambda>x. PStr (action_str x) = v) [GRANTED, REVOKED]"

definition invalid_grants :: "string \<Rightarrow> exn" where
  "invalid_grants detail = Stable ''invalid-grants'' detail"

definition decode_provenance :: "pyval \<Rightarrow> provenance res" where
  "decode_provenance value =
     (case fields_exactly [''actorId'', ''origin'', ''reason'', ''recordedAtMs'', ''requestId''] value of
        None \<Rightarrow> Inl (invalid_grants ''provenance fields do not match the contract'')
      | Some d \<Rightarrow>
          (case origin_of (at_field d ''origin'') of
             None \<Rightarrow> Inl (invalid_grants ''provenance origin is invalid'')
           | Some origin \<Rightarrow>
               (let v = \<lparr>pv_actor = at_field d ''actorId'', pv_origin = origin, pv_reason = at_field d ''reason'',
                         pv_recorded_at = at_field d ''recordedAtMs'', pv_request = at_field d ''requestId''\<rparr>
                in bind_res (validate_provenance v) (\<lambda>_. Inr v))))"

fun map_results :: "('a \<Rightarrow> 'b res) \<Rightarrow> 'a list \<Rightarrow> 'b list res" where
  "map_results f [] = Inr []"
| "map_results f (x # xs) = bind_res (f x) (\<lambda>y. map_res ((#) y) (map_results f xs))"

definition decode_plugin_grants :: "pyval \<Rightarrow> provenance dict res" where
  "decode_plugin_grants value =
     (case value of
        PDict qs \<Rightarrow> map_results (\<lambda>(q, v). bind_res (validate_permission q) (\<lambda>_. map_res (\<lambda>x. (q, x)) (decode_provenance v))) qs
      | _ \<Rightarrow> Inl (invalid_grants ''plugin grants must be an object''))"

text \<open>A plugin without a permission is dropped.\<close>

definition decode_grants :: "pyval \<Rightarrow> provenance dict dict res" where
  "decode_grants value =
     (case value of
        PDict ps \<Rightarrow>
          map_res (filter (\<lambda>(p, qs). qs \<noteq> []))
            (map_results (\<lambda>(p, qs). bind_res (validate_plugin_id p) (\<lambda>_. map_res (\<lambda>x. (p, x)) (decode_plugin_grants qs))) ps)
      | _ \<Rightarrow> Inl (invalid_grants ''grants must be an object''))"

definition grant_id_field :: "(string \<Rightarrow> unit res) \<Rightarrow> string \<Rightarrow> pyval \<Rightarrow> string res" where
  "grant_id_field check code v =
     (case v of PStr s \<Rightarrow> map_res (\<lambda>_. s) (check s) | _ \<Rightarrow> Inl (Stable code (if code = ''invalid-plugin-id'' then ''invalid plugin id'' else ''invalid permission'')))"

definition decode_event :: "int \<Rightarrow> pyval \<Rightarrow> audit_event res" where
  "decode_event revision item =
     (case fields_exactly [''revision'', ''pluginId'', ''permission'', ''action'', ''provenance''] item of
        None \<Rightarrow> Inl (invalid_grants ''audit event fields do not match the contract'')
      | Some d \<Rightarrow>
          bind_res (non_negative (at_field d ''revision'') ''audit revision'') (\<lambda>r.
            if r < 1 \<or> revision < r then Inl (invalid_grants ''audit revision is outside the ledger'')
            else bind_res (grant_id_field validate_plugin_id ''invalid-plugin-id'' (at_field d ''pluginId'')) (\<lambda>p.
              bind_res (grant_id_field validate_permission ''invalid-permission'' (at_field d ''permission'')) (\<lambda>q.
                case action_of (at_field d ''action'') of
                  None \<Rightarrow> Inl (invalid_grants ''audit action is invalid'')
                | Some a \<Rightarrow>
                    map_res (\<lambda>v. \<lparr>ae_revision = r, ae_plugin = p, ae_permission = q, ae_action = a, ae_provenance = v\<rparr>)
                      (decode_provenance (at_field d ''provenance''))))))"

definition decode_audit :: "pyval \<Rightarrow> int \<Rightarrow> nat \<Rightarrow> audit_event list res" where
  "decode_audit value revision audit_limit =
     (case value of
        PList items \<Rightarrow>
          if audit_limit < length items
          then Inl (invalid_grants (''audit must contain at most '' @ nat_str audit_limit @ '' events''))
          else map_results (decode_event revision) items
      | _ \<Rightarrow> Inl (invalid_grants (''audit must contain at most '' @ nat_str audit_limit @ '' events'')))"

section \<open>The ledger and its file\<close>

datatype gfile = Absent | File nat "pyval option"

record disk =
  dk_file :: gfile
  dk_stamp :: "nat option"
  dk_next :: nat

record ledger =
  gl_floats :: float_text
  gl_max_bytes :: nat
  gl_audit_limit :: nat
  gl_revision :: int
  gl_grants :: "provenance dict dict"
  gl_audit :: "audit_event list"
  gl_stamp :: "nat option"

definition positive_bound :: "pyval \<Rightarrow> nat res" where
  "positive_bound v = (case v of PInt n \<Rightarrow> if n < 1 then Inl ValueError else Inr (nat n) | _ \<Rightarrow> Inl ValueError)"

definition load_document :: "nat \<Rightarrow> pyval \<Rightarrow> (int \<times> provenance dict dict \<times> audit_event list) res" where
  "load_document audit_limit document =
     (case fields_exactly [''documentVersion'', ''revision'', ''grants'', ''audit''] document of
        None \<Rightarrow> Inl (invalid_grants ''grant document fields do not match the contract'')
      | Some d \<Rightarrow>
          (case at_field d ''documentVersion'' of
             PBool b \<Rightarrow> Inl (Stable ''grants-version-incompatible'' ''unsupported grant document version'')
           | v \<Rightarrow>
               if \<not> same_number v GRANTS_DOCUMENT_VERSION
               then Inl (Stable ''grants-version-incompatible'' ''unsupported grant document version'')
               else bind_res (non_negative (at_field d ''revision'') ''stored revision'') (\<lambda>revision.
                 bind_res (decode_grants (at_field d ''grants'')) (\<lambda>grants.
                 map_res (\<lambda>audit. (revision, grants, audit)) (decode_audit (at_field d ''audit'') revision audit_limit)))))"

text \<open>\<^verbatim>\<open>_load\<close> into a cleared state.\<close>

definition load_file :: "nat \<Rightarrow> nat \<Rightarrow> gfile \<Rightarrow> (int \<times> provenance dict dict \<times> audit_event list) res" where
  "load_file max_bytes audit_limit f =
     (case f of
        Absent \<Rightarrow> Inr (0, [], [])
      | File bytes body \<Rightarrow>
          if max_bytes < bytes
          then Inl (Stable ''grants-too-large'' (''grant state exceeds the '' @ nat_str max_bytes @ '' byte limit''))
          else (case body of
                  None \<Rightarrow> Inl (Stable ''grants-unreadable'' ''cannot read grant state'')
                | Some document \<Rightarrow> load_document audit_limit document))"

definition loaded :: "int \<times> provenance dict dict \<times> audit_event list \<Rightarrow> ledger \<Rightarrow> ledger" where
  "loaded x l = (case x of (revision, grants, audit) \<Rightarrow> l\<lparr>gl_revision := revision, gl_grants := grants, gl_audit := audit\<rparr>)"

text \<open>
  The constructor reads the file first and its stamp afterwards, without the lock: \<open>then_disk\<close> is
  the disk at the second reading.
\<close>

definition ledger_init :: "float_text \<Rightarrow> pyval \<Rightarrow> pyval \<Rightarrow> disk \<Rightarrow> disk \<Rightarrow> ledger res" where
  "ledger_init F max_bytes audit_limit dk then_disk =
     bind_res (positive_bound max_bytes) (\<lambda>mb.
     bind_res (positive_bound audit_limit) (\<lambda>al.
     map_res (\<lambda>x. loaded x \<lparr>gl_floats = F, gl_max_bytes = mb, gl_audit_limit = al, gl_revision = 0, gl_grants = [],
                            gl_audit = [], gl_stamp = dk_stamp then_disk\<rparr>)
       (load_file mb al (dk_file dk))))"

definition changed_on_disk :: "ledger \<Rightarrow> disk \<Rightarrow> bool" where
  "changed_on_disk l dk = (dk_stamp dk \<noteq> gl_stamp l)"

text \<open>\<^verbatim>\<open>_locked\<close>: the lock may be refused or time out; then the state is cleared and read again.\<close>

definition locked :: "bool \<Rightarrow> ledger \<Rightarrow> disk \<Rightarrow> unit res \<times> ledger" where
  "locked lock_ok l dk =
     (if \<not> lock_ok then (Inl OSError, l)
      else (let l0 = l\<lparr>gl_revision := 0, gl_grants := [], gl_audit := []\<rparr>
            in case load_file (gl_max_bytes l) (gl_audit_limit l) (dk_file dk) of
                 Inl e \<Rightarrow> (Inl e, l0)
               | Inr x \<Rightarrow> (Inr (), (loaded x l0)\<lparr>gl_stamp := dk_stamp dk\<rparr>)))"

definition reload :: "bool \<Rightarrow> ledger \<Rightarrow> disk \<Rightarrow> int res \<times> ledger" where
  "reload lock_ok l dk =
     (if dk_stamp dk = gl_stamp l then (Inr (gl_revision l), l)
      else (case locked lock_ok l dk of (r, l1) \<Rightarrow> (map_res (\<lambda>_. gl_revision l1) r, l1)))"

definition plugin_grants :: "ledger \<Rightarrow> string \<Rightarrow> provenance dict" where
  "plugin_grants l p = (case dget (gl_grants l) p of Some qs \<Rightarrow> qs | None \<Rightarrow> [])"

record grant_snapshot =
  gs_plugin :: string
  gs_revision :: int
  gs_active :: "(string \<times> provenance) list"
  gs_audit :: "audit_event list"

definition snapshot :: "ledger \<Rightarrow> string \<Rightarrow> string set \<Rightarrow> grant_snapshot res" where
  "snapshot l p declared_permissions =
     bind_res (validated_declarations declared_permissions) (\<lambda>declared.
     bind_res (validate_plugin_id p) (\<lambda>_.
       Inr \<lparr>gs_plugin = p, gs_revision = gl_revision l,
            gs_active = filter (\<lambda>(q, v). q \<in> declared) (sorted_by_key (plugin_grants l p)),
            gs_audit = filter (\<lambda>e. ae_plugin e = p) (gl_audit l)\<rparr>))"

definition check_revision :: "pyval \<Rightarrow> ledger \<Rightarrow> unit res" where
  "check_revision expected l =
     bind_res (non_negative expected ''expected_revision'') (\<lambda>n.
       refuse_unless (n = gl_revision l) ''revision-mismatch''
         (''expected '' @ int_str n @ ''; current revision is '' @ int_str (gl_revision l)))"

text \<open>
  The last \<open>n\<close> of a list: \<^verbatim>\<open>xs[-n:]\<close> for a positive \<open>n\<close>.  \<^verbatim>\<open>json.dumps\<close> writes a character above
  \<^verbatim>\<open>~\<close> as an escape of six bytes.
\<close>

definition last_items :: "nat \<Rightarrow> 'a list \<Rightarrow> 'a list" where
  "last_items n xs = drop (length xs - n) xs"

definition ascii_size :: "string \<Rightarrow> nat" where
  "ascii_size t = sum_list (map (\<lambda>c. if (of_char c :: nat) < 127 then 1 else 6) t)"

definition ledger_commit ::
    "bool \<Rightarrow> provenance dict dict \<Rightarrow> string \<Rightarrow> string \<Rightarrow> grant_action \<Rightarrow> provenance \<Rightarrow> ledger \<Rightarrow> disk \<Rightarrow> unit res \<times> ledger \<times> disk" where
  "ledger_commit write_ok grants p q action v l dk =
     (let revision = gl_revision l + 1;
          audit = last_items (gl_audit_limit l)
                    (gl_audit l @ [\<lparr>ae_revision = revision, ae_plugin = p, ae_permission = q, ae_action = action, ae_provenance = v\<rparr>]);
          document = encode_document revision grants audit;
          bytes = ascii_size (json_text (gl_floats l) (canon document))
      in if \<not> dumpable document then (Inl ValueError, l, dk)
         else if gl_max_bytes l < bytes
         then (Inl (Stable ''grants-too-large''
                (''grant state is '' @ nat_str bytes @ '' bytes; limit is '' @ nat_str (gl_max_bytes l))), l, dk)
         else if \<not> write_ok then (Inl OSError, l, dk)
         else (Inr (), l\<lparr>gl_revision := revision, gl_grants := grants, gl_audit := audit, gl_stamp := Some (dk_next dk)\<rparr>,
               \<lparr>dk_file = File bytes (Some document), dk_stamp = Some (dk_next dk), dk_next = Suc (dk_next dk)\<rparr>))"

definition granted_with :: "provenance dict dict \<Rightarrow> string \<Rightarrow> string \<Rightarrow> provenance \<Rightarrow> provenance dict dict" where
  "granted_with g p q v = dset p (dset q v (case dget g p of Some qs \<Rightarrow> qs | None \<Rightarrow> [])) g"

definition revoked_from :: "provenance dict dict \<Rightarrow> string \<Rightarrow> string \<Rightarrow> provenance dict dict" where
  "revoked_from g p q =
     (case dget g p of
        None \<Rightarrow> g
      | Some qs \<Rightarrow> if dpop q qs = [] then dpop p g else dset p (dpop q qs) g)"

definition validate_change :: "string \<Rightarrow> string \<Rightarrow> string set \<Rightarrow> provenance \<Rightarrow> pyval \<Rightarrow> unit res" where
  "validate_change p q declared v expected =
     bind_res (validated_declarations declared) (\<lambda>_.
     bind_res (validate_plugin_id p) (\<lambda>_.
     bind_res (validate_permission q) (\<lambda>_.
     bind_res (validate_provenance v) (\<lambda>_.
     map_res (\<lambda>_. ()) (non_negative expected ''expected_revision'')))))"

text \<open>The part of both operations that holds the lock.\<close>

definition change_locked ::
    "bool \<Rightarrow> bool \<Rightarrow> grant_action \<Rightarrow> string \<Rightarrow> string \<Rightarrow> string set \<Rightarrow> provenance \<Rightarrow> pyval \<Rightarrow> ledger \<Rightarrow> disk \<Rightarrow>
     grant_snapshot res \<times> ledger \<times> disk" where
  "change_locked lock_ok write_ok action p q declared v expected l dk =
     (case locked lock_ok l dk of
        (Inl e, l1) \<Rightarrow> (Inl e, l1, dk)
      | (Inr _, l1) \<Rightarrow>
          (case check_revision expected l1 of
             Inl e \<Rightarrow> (Inl e, l1, dk)
           | Inr _ \<Rightarrow>
               if dhas (plugin_grants l1 p) q = (action = GRANTED) then (snapshot l1 p declared, l1, dk)
               else (case ledger_commit write_ok
                        (if action = GRANTED then granted_with (gl_grants l1) p q v else revoked_from (gl_grants l1) p q)
                        p q action v l1 dk of
                       (Inl e, l2, dk2) \<Rightarrow> (Inl e, l2, dk2)
                     | (Inr _, l2, dk2) \<Rightarrow> (snapshot l2 p declared, l2, dk2))))"

definition grant ::
    "bool \<Rightarrow> bool \<Rightarrow> string \<Rightarrow> string \<Rightarrow> string set \<Rightarrow> provenance \<Rightarrow> pyval \<Rightarrow> ledger \<Rightarrow> disk \<Rightarrow>
     grant_snapshot res \<times> ledger \<times> disk" where
  "grant lock_ok write_ok p q declared v expected l dk =
     (case validate_change p q declared v expected of
        Inl e \<Rightarrow> (Inl e, l, dk)
      | Inr _ \<Rightarrow>
          if q \<notin> declared then (Inl (Stable ''permission-undeclared'' (p @ '' does not declare '' @ q)), l, dk)
          else change_locked lock_ok write_ok GRANTED p q declared v expected l dk)"

definition revoke_grant ::
    "bool \<Rightarrow> bool \<Rightarrow> string \<Rightarrow> string \<Rightarrow> string set \<Rightarrow> provenance \<Rightarrow> pyval \<Rightarrow> ledger \<Rightarrow> disk \<Rightarrow>
     grant_snapshot res \<times> ledger \<times> disk" where
  "revoke_grant lock_ok write_ok p q declared v expected l dk =
     (case validate_change p q declared v expected of
        Inl e \<Rightarrow> (Inl e, l, dk)
      | Inr _ \<Rightarrow> change_locked lock_ok write_ok REVOKED p q declared v expected l dk)"

definition is_granted :: "ledger \<Rightarrow> string \<Rightarrow> string \<Rightarrow> string set \<Rightarrow> bool res" where
  "is_granted l p q declared_permissions =
     bind_res (validated_declarations declared_permissions) (\<lambda>declared.
     bind_res (validate_plugin_id p) (\<lambda>_.
     bind_res (validate_permission q) (\<lambda>_. Inr (q \<in> declared \<and> dhas (plugin_grants l p) q))))"

definition require_grant :: "ledger \<Rightarrow> string \<Rightarrow> string \<Rightarrow> string set \<Rightarrow> unit res" where
  "require_grant l p q declared =
     bind_res (is_granted l p q declared) (\<lambda>ok.
       refuse_unless ok ''permission-denied'' (p @ '' lacks grant for '' @ q))"

definition active_permissions :: "ledger \<Rightarrow> string \<Rightarrow> string set \<Rightarrow> string set res" where
  "active_permissions l p declared = map_res (\<lambda>s. set (map fst (gs_active s))) (snapshot l p declared)"

section \<open>A stored ledger reads back\<close>

definition prov_ok :: "provenance \<Rightarrow> bool" where
  "prov_ok v = (validate_provenance v = Inr ())"

definition plugin_grants_ok :: "provenance dict \<Rightarrow> bool" where
  "plugin_grants_ok qs = (qs \<noteq> [] \<and> dict_ok qs \<and> (\<forall>(q, v) \<in> set qs. permission_ok q \<and> prov_ok v))"

definition grants_ok :: "provenance dict dict \<Rightarrow> bool" where
  "grants_ok g = (dict_ok g \<and> (\<forall>(p, qs) \<in> set g. valid_plugin_id p \<and> plugin_grants_ok qs))"

definition event_ok :: "int \<Rightarrow> audit_event \<Rightarrow> bool" where
  "event_ok r e = (1 \<le> ae_revision e \<and> ae_revision e \<le> r \<and> valid_plugin_id (ae_plugin e) \<and>
     permission_ok (ae_permission e) \<and> prov_ok (ae_provenance e))"

text \<open>A plugin's permission is granted.\<close>

definition holds_grant :: "provenance dict dict \<Rightarrow> string \<Rightarrow> string \<Rightarrow> bool" where
  "holds_grant g p q = (case dget g p of Some qs \<Rightarrow> dhas qs q | None \<Rightarrow> False)"

definition norm_grants :: "provenance dict dict \<Rightarrow> provenance dict dict" where
  "norm_grants g = map (\<lambda>(p, qs). (p, sorted_by_key qs)) (sorted_by_key g)"

lemma map_results_all: "(\<And>x. x \<in> set xs \<Longrightarrow> f x = Inr (h x)) \<Longrightarrow> map_results f xs = Inr (map h xs)"
  by (induction xs) auto

lemma map_results_map: "(\<And>x. x \<in> set xs \<Longrightarrow> f (k x) = Inr (h x)) \<Longrightarrow> map_results f (map k xs) = Inr (map h xs)"
  by (induction xs) auto

lemma map_results_Inr: "map_results f xs = Inr ys \<Longrightarrow> list_all2 (\<lambda>x y. f x = Inr y) xs ys"
  by (induction xs arbitrary: ys) (auto simp: res_simps)

lemma refuse_unless_Inr [simp]: "refuse_unless b c d = Inr () \<longleftrightarrow> b" "refuse_unless b c d = Inr x \<longleftrightarrow> b"
  by (auto simp: refuse_unless_def)

lemma origin_of_str [simp]: "origin_of (PStr (origin_str x)) = Some x"
  by (cases x) (simp_all add: origin_of_def)

lemma action_of_str [simp]: "action_of (PStr (action_str x)) = Some x"
  by (cases x) (simp_all add: action_of_def)

lemma decode_encode_provenance:
  assumes "prov_ok v"
  shows "decode_provenance (encode_provenance v) = Inr v"
  using assms by (cases v) (simp add: decode_provenance_def encode_provenance_def fields_exactly_def dkeys_def at_field_def
      dget_Cons prov_ok_def Let_def)

lemma decode_encode_event:
  assumes "event_ok r e"
  shows "decode_event r (encode_event e) = Inr e"
proof -
  have k: "fields_exactly [''revision'', ''pluginId'', ''permission'', ''action'', ''provenance''] (encode_event e) =
      Some [(''revision'', PInt (ae_revision e)), (''pluginId'', PStr (ae_plugin e)),
            (''permission'', PStr (ae_permission e)), (''action'', PStr (action_str (ae_action e))),
            (''provenance'', encode_provenance (ae_provenance e))]"
    by (simp add: fields_exactly_def encode_event_def dkeys_def)
  show ?thesis unfolding decode_event_def k using assms
    by (cases e) (simp add: at_field_def dget_Cons non_negative_def grant_id_field_def validate_plugin_id_def
        validate_permission_def refuse_unless_def event_ok_def decode_encode_provenance)
qed

lemma set_sorted [simp]: "set (sorted_by_key d) = set d"
  by (simp add: sorted_by_key_def)

lemma dict_ok_sorted_by_key [simp]: "dict_ok (sorted_by_key d) = dict_ok d"
proof -
  have "mset (map fst (sorted_by_key d)) = mset (map fst d)" by (simp add: sorted_by_key_def)
  then show ?thesis unfolding dict_ok_def dkeys_def by (metis mset_eq_imp_distinct_iff)
qed

lemma dget_sorted_by_key [simp]: "dict_ok d \<Longrightarrow> dget (sorted_by_key d) k = dget d k"
  by (cases "dget d k")
     (metis dget_in_set dict_ok_sorted_by_key in_set_dget option.exhaust set_sorted,
      metis dget_in_set dict_ok_sorted_by_key in_set_dget set_sorted)

lemma sorted_by_key_Nil [simp]: "sorted_by_key d = [] \<longleftrightarrow> d = []"
  by (metis set_empty set_sorted)

lemma decode_encode_grants:
  assumes "grants_ok g"
  shows "decode_grants (encode_grants g) = Inr (norm_grants g)"
proof -
  have inner: "decode_plugin_grants (PDict (map (\<lambda>(q, v). (q, encode_provenance v)) (sorted_by_key qs))) = Inr (sorted_by_key qs)"
    if "plugin_grants_ok qs" for qs
  proof -
    have "map_results (\<lambda>(q, v). bind_res (validate_permission q) (\<lambda>_. map_res (\<lambda>x. (q, x)) (decode_provenance v)))
        (map (\<lambda>(q, v). (q, encode_provenance v)) (sorted_by_key qs)) = Inr (map id (sorted_by_key qs))"
      by (rule map_results_map)
         (use that in \<open>auto simp: plugin_grants_ok_def validate_permission_def refuse_unless_def decode_encode_provenance\<close>)
    then show ?thesis by (simp add: decode_plugin_grants_def)
  qed
  have "map_results (\<lambda>(p, qs). bind_res (validate_plugin_id p) (\<lambda>_. map_res (\<lambda>x. (p, x)) (decode_plugin_grants qs)))
      (map (\<lambda>(p, qs). (p, PDict (map (\<lambda>(q, v). (q, encode_provenance v)) (sorted_by_key qs)))) (sorted_by_key g))
    = Inr (map (\<lambda>(p, qs). (p, sorted_by_key qs)) (sorted_by_key g))"
    by (rule map_results_map)
       (use assms inner in \<open>auto simp: grants_ok_def validate_plugin_id_def refuse_unless_def\<close>)
  moreover have "filter (\<lambda>(p, qs). qs \<noteq> []) (norm_grants g) = norm_grants g"
    using assms by (fastforce simp: norm_grants_def grants_ok_def plugin_grants_ok_def filter_id_conv)
  ultimately show ?thesis by (simp add: decode_grants_def encode_grants_def norm_grants_def)
qed

lemma norm_grants_ok: "grants_ok g \<Longrightarrow> grants_ok (norm_grants g)"
proof -
  assume g: "grants_ok g"
  have "dkeys (norm_grants g) = dkeys (sorted_by_key g)" by (simp add: norm_grants_def dkeys_def case_prod_unfold)
  then have "dict_ok (norm_grants g)" using g dict_ok_sorted_by_key [of g] unfolding grants_ok_def dict_ok_def by simp
  then show "grants_ok (norm_grants g)" using g by (fastforce simp: grants_ok_def norm_grants_def plugin_grants_ok_def)
qed

lemma holds_norm: "grants_ok g \<Longrightarrow> holds_grant (norm_grants g) p q = holds_grant g p q"
proof -
  assume g: "grants_ok g"
  have "dget (norm_grants g) p = map_option sorted_by_key (dget g p)"
    using g by (simp add: norm_grants_def dget_map_snd grants_ok_def)
  then show ?thesis using set_sorted by (auto simp: holds_grant_def dhas_def dkeys_def split: option.splits)
qed

lemma load_encoded:
  assumes "grants_ok g" and "list_all (event_ok r) a" and "0 \<le> r"
  shows "load_document limit (encode_document r g a) =
    (if limit < length a then Inl (invalid_grants (''audit must contain at most '' @ nat_str limit @ '' events''))
     else Inr (r, norm_grants g, a))"
proof -
  have k: "fields_exactly [''documentVersion'', ''revision'', ''grants'', ''audit''] (encode_document r g a) =
      Some [(''documentVersion'', PInt 1), (''revision'', PInt r), (''grants'', encode_grants g), (''audit'', PList (map encode_event a))]"
    by (simp add: fields_exactly_def encode_document_def dkeys_def GRANTS_DOCUMENT_VERSION_def)
  have "map_results (decode_event r) (map encode_event a) = Inr (map id a)"
    by (rule map_results_map) (use assms(2) decode_encode_event in \<open>auto simp: list_all_iff\<close>)
  then have "decode_audit (PList (map encode_event a)) r limit =
      (if limit < length a then Inl (invalid_grants (''audit must contain at most '' @ nat_str limit @ '' events'')) else Inr a)"
    by (simp add: decode_audit_def)
  then show ?thesis unfolding load_document_def k using assms(3)
    by (simp add: at_field_def dget_Cons same_number_def GRANTS_DOCUMENT_VERSION_def non_negative_def
        decode_encode_grants [OF assms(1)])
qed

section \<open>Processes sharing a ledger\<close>

text \<open>
  Any number of processes, each with its own copy, in any order; the lock makes the part of an
  operation that holds it one step.  The history is every change ever persisted, which the file's
  bounded audit only ends with.
\<close>

record world =
  wo_disk :: disk
  wo_ledgers :: "nat \<Rightarrow> ledger option"
  wo_history :: "audit_event list"

datatype ledger_call =
    OpenLedger nat float_text pyval pyval
  | Reload nat bool
  | Change nat bool bool grant_action string string "string set" provenance pyval

definition world_init :: world where
  "world_init =
     \<lparr>wo_disk = \<lparr>dk_file = Absent, dk_stamp = None, dk_next = 0\<rparr>, wo_ledgers = (\<lambda>_. None), wo_history = []\<rparr>"

definition change ::
    "bool \<Rightarrow> bool \<Rightarrow> grant_action \<Rightarrow> string \<Rightarrow> string \<Rightarrow> string set \<Rightarrow> provenance \<Rightarrow> pyval \<Rightarrow> ledger \<Rightarrow> disk \<Rightarrow>
     grant_snapshot res \<times> ledger \<times> disk" where
  "change lock_ok write_ok action p q declared v expected l dk =
     (if action = GRANTED then grant lock_ok write_ok p q declared v expected l dk
      else revoke_grant lock_ok write_ok p q declared v expected l dk)"

definition next_event :: "audit_event list \<Rightarrow> string \<Rightarrow> string \<Rightarrow> grant_action \<Rightarrow> provenance \<Rightarrow> audit_event" where
  "next_event h p q action v =
     \<lparr>ae_revision = int (Suc (length h)), ae_plugin = p, ae_permission = q, ae_action = action, ae_provenance = v\<rparr>"

definition ledger_step :: "ledger_call \<Rightarrow> world \<Rightarrow> world" where
  "ledger_step x w =
     (case x of
        OpenLedger i F mb al \<Rightarrow>
          (case ledger_init F mb al (wo_disk w) (wo_disk w) of
             Inl _ \<Rightarrow> w
           | Inr l \<Rightarrow> w\<lparr>wo_ledgers := (wo_ledgers w)(i := Some l)\<rparr>)
      | Reload i lock_ok \<Rightarrow>
          (case wo_ledgers w i of
             None \<Rightarrow> w
           | Some l \<Rightarrow> w\<lparr>wo_ledgers := (wo_ledgers w)(i := Some (snd (reload lock_ok l (wo_disk w))))\<rparr>)
      | Change i lock_ok write_ok action p q declared v expected \<Rightarrow>
          (case wo_ledgers w i of
             None \<Rightarrow> w
           | Some l \<Rightarrow>
               (case change lock_ok write_ok action p q declared v expected l (wo_disk w) of
                  (r, l', dk') \<Rightarrow>
                    w\<lparr>wo_ledgers := (wo_ledgers w)(i := Some l'), wo_disk := dk',
                      wo_history := (if dk_next dk' = dk_next (wo_disk w) then wo_history w
                                     else wo_history w @ [next_event (wo_history w) p q action v])\<rparr>)))"

inductive ledger_reachable :: "world \<Rightarrow> bool" where
  init: "ledger_reachable world_init"
| step: "ledger_reachable w \<Longrightarrow> ledger_reachable (ledger_step x w)"

text \<open>What the history says of a permission: its last event decides.\<close>

definition last_word :: "audit_event list \<Rightarrow> string \<Rightarrow> string \<Rightarrow> bool" where
  "last_word h p q =
     (case find (\<lambda>e. ae_plugin e = p \<and> ae_permission e = q) (rev h) of
        Some e \<Rightarrow> ae_action e = GRANTED
      | None \<Rightarrow> False)"

text \<open>What the file says, whoever reads it.\<close>

definition stored_held :: "disk \<Rightarrow> string \<Rightarrow> string \<Rightarrow> bool" where
  "stored_held dk p q =
     (case dk_file dk of
        File _ (Some (PDict d)) \<Rightarrow>
          (case decode_grants (at_field d ''grants'') of Inr g \<Rightarrow> holds_grant g p q | Inl _ \<Rightarrow> False)
      | _ \<Rightarrow> False)"

lemma last_word_Nil [simp]: "\<not> last_word [] p q"
  by (simp add: last_word_def)

lemma last_word_snoc: "last_word (h @ [e]) p q =
    (if ae_plugin e = p \<and> ae_permission e = q then ae_action e = GRANTED else last_word h p q)"
  by (auto simp: last_word_def)

text \<open>The file holds what the history says.\<close>

definition file_holds :: "audit_event list \<Rightarrow> provenance dict dict \<Rightarrow> audit_event list \<Rightarrow> bool" where
  "file_holds h g a =
     (grants_ok g \<and> list_all (event_ok (int (length h))) a \<and> (\<forall>p q. holds_grant g p q = last_word h p q) \<and> (\<exists>h0. h = h0 @ a))"

definition stored :: "audit_event list \<Rightarrow> disk \<Rightarrow> bool" where
  "stored h dk =
     (dk_file dk = Absent \<and> h = [] \<and> dk_stamp dk = None \<or>
      (\<exists>n g a k. dk_file dk = File n (Some (encode_document (int (length h)) g a)) \<and> file_holds h g a \<and>
         dk_stamp dk = Some k \<and> k < dk_next dk))"

text \<open>A copy whose stamp is the file's holds what the file holds.\<close>

definition copy_ok :: "audit_event list \<Rightarrow> disk \<Rightarrow> ledger \<Rightarrow> bool" where
  "copy_ok h dk l =
     ((case gl_stamp l of None \<Rightarrow> True | Some k \<Rightarrow> k < dk_next dk) \<and>
      (gl_stamp l = dk_stamp dk \<longrightarrow> gl_revision l = int (length h) \<and> file_holds h (gl_grants l) (gl_audit l) \<and>
         is_ok (load_file (gl_max_bytes l) (gl_audit_limit l) (dk_file dk))))"

definition world_inv :: "world \<Rightarrow> bool" where
  "world_inv w =
     (stored (wo_history w) (wo_disk w) \<and>
      (\<forall>i l. wo_ledgers w i = Some l \<longrightarrow> copy_ok (wo_history w) (wo_disk w) l))"

lemma load_stored:
  assumes "stored h dk" and "load_file m n (dk_file dk) = Inr (r, g, a)"
  shows "r = int (length h)" and "file_holds h g a"
  using assms
  by (auto simp: stored_def load_file_def load_encoded file_holds_def norm_grants_ok holds_norm grants_ok_def [of "[]"] holds_grant_def [of "[]"]
      split: if_splits)

lemma stored_held_iff: "stored h dk \<Longrightarrow> stored_held dk p q = last_word h p q"
  by (auto simp: stored_def stored_held_def encode_document_def at_field_def dget_Cons decode_encode_grants file_holds_def holds_norm)

lemma locked_cases:
  assumes "stored h dk" and "copy_ok h dk l" and "locked lock_ok l dk = (r, l1)"
  shows "gl_max_bytes l1 = gl_max_bytes l \<and> gl_audit_limit l1 = gl_audit_limit l \<and> gl_floats l1 = gl_floats l"
    and "copy_ok h dk l1"
    and "r = Inr () \<Longrightarrow> gl_stamp l1 = dk_stamp dk \<and> gl_revision l1 = int (length h) \<and> file_holds h (gl_grants l1) (gl_audit l1) \<and>
      is_ok (load_file (gl_max_bytes l1) (gl_audit_limit l1) (dk_file dk))"
proof -
  have s: "case dk_stamp dk of None \<Rightarrow> True | Some k \<Rightarrow> k < dk_next dk" using assms(1) by (auto simp: stored_def)
  show "gl_max_bytes l1 = gl_max_bytes l \<and> gl_audit_limit l1 = gl_audit_limit l \<and> gl_floats l1 = gl_floats l"
    using assms(3) by (auto simp: locked_def loaded_def Let_def split: if_splits sum.splits prod.splits)
  show "copy_ok h dk l1"
    using assms(2,3) load_stored [OF assms(1)] s
    by (auto simp: locked_def loaded_def copy_ok_def Let_def split: if_splits sum.splits prod.splits)
  show "gl_stamp l1 = dk_stamp dk \<and> gl_revision l1 = int (length h) \<and> file_holds h (gl_grants l1) (gl_audit l1) \<and>
      is_ok (load_file (gl_max_bytes l1) (gl_audit_limit l1) (dk_file dk))" if "r = Inr ()"
    using assms(3) that load_stored [OF assms(1)]
    by (auto simp: locked_def loaded_def Let_def split: if_splits sum.splits prod.splits)
qed

lemma plugin_grants_held: "dhas (plugin_grants l p) q = holds_grant (gl_grants l) p q"
  by (simp add: plugin_grants_def holds_grant_def dhas_def dkeys_def split: option.split)

lemma plugin_grants_put:
  "qs = [] \<or> plugin_grants_ok qs \<Longrightarrow> permission_ok q \<Longrightarrow> prov_ok v \<Longrightarrow> plugin_grants_ok (dset q v qs)"
proof -
  assume a: "qs = [] \<or> plugin_grants_ok qs" "permission_ok q" "prov_ok v"
  have "permission_ok k \<and> prov_ok x" if "(k, x) \<in> set (dset q v qs)" for k x
  proof -
    have "dict_ok (dset q v qs)" using a(1) by (auto simp: plugin_grants_ok_def)
    then have "dget (dset q v qs) k = Some x" using that in_set_dget by metis
    then show ?thesis using a dget_in_set [of qs k x] by (auto simp: plugin_grants_ok_def split: if_splits)
  qed
  moreover have "dset q v qs \<noteq> []" by (metis dget_Nil dget_dset option.distinct(1))
  ultimately show ?thesis using a(1) by (auto simp: plugin_grants_ok_def)
qed

lemma grants_ok_get: "grants_ok g \<Longrightarrow> dget g p = Some qs \<Longrightarrow> plugin_grants_ok qs"
  using dget_in_set [of g p qs] by (auto simp: grants_ok_def)

lemma grants_ok_put:
  assumes "grants_ok g" and "valid_plugin_id p" and "plugin_grants_ok qs"
  shows "grants_ok (dset p qs g)"
proof -
  have d: "dict_ok (dset p qs g)" using assms(1) by (simp add: grants_ok_def)
  have "valid_plugin_id k \<and> plugin_grants_ok x" if "(k, x) \<in> set (dset p qs g)" for k x
  proof -
    have "dget (dset p qs g) k = Some x" using that d in_set_dget by metis
    then show ?thesis using assms dget_in_set [of g k x] by (auto simp: grants_ok_def split: if_splits)
  qed
  then show ?thesis using d by (auto simp: grants_ok_def)
qed

lemma granted_with_ok:
  assumes "grants_ok g" and "valid_plugin_id p" and "permission_ok q" and "prov_ok v"
  shows "grants_ok (granted_with g p q v)"
    and "holds_grant (granted_with g p q v) p' q' \<longleftrightarrow> p' = p \<and> q' = q \<or> holds_grant g p' q'"
proof -
  have "plugin_grants_ok (dset q v (case dget g p of Some qs \<Rightarrow> qs | None \<Rightarrow> []))"
    by (rule plugin_grants_put) (use assms grants_ok_get in \<open>auto split: option.split\<close>)
  then show "grants_ok (granted_with g p q v)" by (simp add: granted_with_def grants_ok_put assms)
  show "holds_grant (granted_with g p q v) p' q' \<longleftrightarrow> p' = p \<and> q' = q \<or> holds_grant g p' q'"
    by (auto simp: holds_grant_def granted_with_def split: option.splits) (simp_all add: dhas_def)
qed

lemma revoked_from_ok:
  assumes "grants_ok g"
  shows "grants_ok (revoked_from g p q)"
    and "holds_grant (revoked_from g p q) p' q' \<longleftrightarrow> holds_grant g p' q' \<and> \<not> (p' = p \<and> q' = q)"
proof -
  have sub: "\<And>d :: provenance dict dict. set (dpop p d) \<subseteq> set d" "\<And>d :: provenance dict. set (dpop q d) \<subseteq> set d"
    by (auto simp: dpop_def AList.delete_eq)
  show "grants_ok (revoked_from g p q)"
  proof (cases "dget g p")
    case (Some qs)
    have qs: "plugin_grants_ok qs" "valid_plugin_id p"
      using assms dget_in_set [OF Some] by (auto simp: grants_ok_def)
    have "plugin_grants_ok (dpop q qs)" if "dpop q qs \<noteq> []"
      using qs(1) that sub(2) [of qs] by (auto simp: plugin_grants_ok_def)
    moreover have "grants_ok (dpop p g)" using assms sub(1) [of g] by (auto simp: grants_ok_def)
    ultimately show ?thesis using Some qs(2) by (simp add: revoked_from_def grants_ok_put assms)
  qed (simp add: revoked_from_def assms)
  show "holds_grant (revoked_from g p q) p' q' \<longleftrightarrow> holds_grant g p' q' \<and> \<not> (p' = p \<and> q' = q)"
  proof (cases "dget g p")
    case (Some qs)
    have "\<not> dhas qs x" if "dpop q qs = []" "x \<noteq> q" for x
      using that by (metis dhas_dpop dget_None_iff dget_Nil)
    then show ?thesis using Some by (auto simp: holds_grant_def revoked_from_def split: option.splits if_splits)
  qed (auto simp: holds_grant_def revoked_from_def split: option.splits)
qed

text \<open>A change that is committed extends the history by its event.\<close>

lemma commit_cases:
  assumes l: "gl_revision l = int (length h)" "file_holds h (gl_grants l) (gl_audit l)"
    and g: "grants_ok g'" "\<And>p' q'. holds_grant g' p' q' = last_word (h @ [next_event h p q action v]) p' q'"
    and e: "valid_plugin_id p" "permission_ok q" "prov_ok v"
    and c: "ledger_commit write_ok g' p q action v l dk = (r, l2, dk2)"
  shows "(\<exists>x. r = Inl x) \<and> l2 = l \<and> dk2 = dk \<or>
    r = Inr () \<and> write_ok \<and> stored (h @ [next_event h p q action v]) dk2 \<and> dk_next dk2 = Suc (dk_next dk) \<and>
    copy_ok (h @ [next_event h p q action v]) dk2 l2 \<and> gl_stamp l2 = dk_stamp dk2 \<and> dk_stamp dk2 = Some (dk_next dk)"
proof -
  let ?h = "h @ [next_event h p q action v]"
  let ?a = "last_items (gl_audit_limit l) (gl_audit l @ [next_event h p q action v])"
  have ev: "\<lparr>ae_revision = int (length ?h), ae_plugin = p, ae_permission = q, ae_action = action, ae_provenance = v\<rparr> = next_event h p q action v"
    by (simp add: next_event_def)
  have "list_all (event_ok (int (length ?h))) (gl_audit l @ [next_event h p q action v])"
    using l(2) e by (auto simp: file_holds_def list_all_iff event_ok_def next_event_def)
  then have a: "list_all (event_ok (int (length ?h))) ?a"
    by (auto simp: last_items_def list_all_iff dest: in_set_dropD)
  obtain h0 where "h = h0 @ gl_audit l" using l(2) by (auto simp: file_holds_def)
  then have "?h = (h0 @ take (length (gl_audit l @ [next_event h p q action v]) - gl_audit_limit l)
      (gl_audit l @ [next_event h p q action v])) @ ?a" unfolding last_items_def by (metis append_assoc append_take_drop_id)
  then have fh: "file_holds ?h g' ?a" using a g by (auto simp: file_holds_def)
  have rev: "gl_revision l + 1 = int (length ?h)" by (simp add: l(1))
  have len: "length ?a \<le> gl_audit_limit l" by (simp add: last_items_def)
  have ld: "is_ok (load_file m (gl_audit_limit l) (File n (Some (encode_document (int (length ?h)) g' ?a))))" if "n \<le> m" for n m
    using that len load_encoded [of g' "int (length ?h)" ?a "gl_audit_limit l"] fh by (simp add: load_file_def file_holds_def)
  let ?n = "ascii_size (json_text (gl_floats l) (canon (encode_document (int (length ?h)) g' ?a)))"
  show ?thesis
  proof (cases "r = Inr ()")
    case True
    then have c2: "write_ok" "?n \<le> gl_max_bytes l"
      "l2 = l\<lparr>gl_revision := int (length ?h), gl_grants := g', gl_audit := ?a, gl_stamp := Some (dk_next dk)\<rparr>"
      "dk2 = \<lparr>dk_file = File ?n (Some (encode_document (int (length ?h)) g' ?a)), dk_stamp = Some (dk_next dk), dk_next = Suc (dk_next dk)\<rparr>"
      using c unfolding ledger_commit_def Let_def rev ev by (auto split: if_splits)
    have "stored ?h dk2" using fh by (auto simp: stored_def c2(4))
    moreover have "copy_ok ?h dk2 l2" using fh ld [OF c2(2)] by (simp add: copy_ok_def c2(3,4))
    ultimately show ?thesis using True c2(1) by (simp add: c2(3,4))
  next
    case False
    then show ?thesis using c unfolding ledger_commit_def Let_def by (auto split: if_splits)
  qed
qed

lemma validate_change_ok:
  assumes "validate_change p q declared v expected = Inr ()"
  shows "valid_plugin_id p" "permission_ok q" "prov_ok v" "\<exists>n \<ge> 0. expected = PInt n"
  using assms
  by (auto simp: validate_change_def res_simps validate_plugin_id_def validate_permission_def refuse_unless_def prov_ok_def
      non_negative_def split: if_splits pyval.splits)

lemma change_cases:
  assumes st: "stored h dk" and cp: "copy_ok h dk l"
    and c: "change lock_ok write_ok action p q declared v expected l dk = (r, l', dk')"
  shows "dk' = dk \<and> copy_ok h dk l' \<and> (is_ok r \<longrightarrow> last_word h p q = (action = GRANTED)) \<or>
    expected = PInt (int (length h)) \<and> (action = GRANTED \<longrightarrow> q \<in> declared) \<and>
      stored (h @ [next_event h p q action v]) dk' \<and> copy_ok (h @ [next_event h p q action v]) dk' l' \<and>
      dk_next dk' = Suc (dk_next dk) \<and> dk_stamp dk' = Some (dk_next dk)"
proof (cases "validate_change p q declared v expected")
  case (Inl e)
  then show ?thesis using c cp by (auto simp: change_def grant_def revoke_grant_def split: if_splits)
next
  case (Inr u)
  then have v: "valid_plugin_id p" "permission_ok q" "prov_ok v" "\<exists>n \<ge> 0. expected = PInt n"
    using validate_change_ok by auto
  show ?thesis
  proof (cases "action = GRANTED \<and> q \<notin> declared")
    case True
    then show ?thesis using c cp Inr by (auto simp: change_def grant_def)
  next
    case False
    then have c: "change_locked lock_ok write_ok action p q declared v expected l dk = (r, l', dk')"
      using c Inr by (cases action) (simp_all add: change_def grant_def revoke_grant_def)
    obtain rl l1 where lk: "locked lock_ok l dk = (rl, l1)" by fastforce
    note lc = locked_cases [OF st cp lk]
    show ?thesis
    proof (cases rl)
      case (Inl e)
      then show ?thesis using c lc(2) by (auto simp: change_locked_def lk)
    next
      case ok: (Inr u')
      then have l1: "gl_revision l1 = int (length h)" "file_holds h (gl_grants l1) (gl_audit l1)" using lc(3) by auto
      have hd: "dhas (plugin_grants l1 p) q = last_word h p q" using l1(2) by (simp add: plugin_grants_held file_holds_def)
      show ?thesis
      proof (cases "check_revision expected l1")
        case (Inl e)
        then show ?thesis using c lc(2) ok by (auto simp: change_locked_def lk)
      next
        case rv: (Inr u'')
        then have ex: "expected = PInt (int (length h))"
          using v(4) l1(1) by (auto simp: check_revision_def non_negative_def refuse_unless_def split: if_splits)
        show ?thesis
        proof (cases "last_word h p q = (action = GRANTED)")
          case True
          then show ?thesis using c lc(2) ok rv hd by (auto simp: change_locked_def lk)
        next
          case changed: False
          let ?g = "if action = GRANTED then granted_with (gl_grants l1) p q v else revoked_from (gl_grants l1) p q"
          have g: "grants_ok (gl_grants l1)" "\<And>p q. holds_grant (gl_grants l1) p q = last_word h p q"
            using l1(2) by (simp_all add: file_holds_def)
          have g1: "grants_ok ?g" using granted_with_ok(1) [OF g(1) v(1-3)] revoked_from_ok(1) [OF g(1)] by simp
          have g2: "holds_grant ?g p' q' = last_word (h @ [next_event h p q action v]) p' q'" for p' q'
            using granted_with_ok(2) [OF g(1) v(1-3)] revoked_from_ok(2) [OF g(1)] g(2)
            by (auto simp: last_word_snoc next_event_def)
          obtain rc l2 dk2 where cm: "ledger_commit write_ok ?g p q action v l1 dk = (rc, l2, dk2)" by (metis prod_cases3)
          have res: "l' = l2 \<and> dk' = dk2 \<and> (is_ok r \<longrightarrow> is_ok rc)"
            using c ok rv hd changed cm by (auto simp: change_locked_def lk split: sum.splits if_splits)
          from commit_cases [OF l1 g1 g2 v(1-3) cm] show ?thesis
            using res lc(2) ex False by auto
        qed
      qed
    qed
  qed
qed

lemma copy_ok_other:
  assumes "copy_ok h dk l" and "dk_next dk' = Suc (dk_next dk)" and "dk_stamp dk' = Some (dk_next dk)"
  shows "copy_ok h' dk' l"
  using assms by (auto simp: copy_ok_def split: option.splits)

lemma init_copy:
  assumes "stored h dk" and "ledger_init F mb al dk dk = Inr l"
  shows "copy_ok h dk l"
proof -
  have s: "case dk_stamp dk of None \<Rightarrow> True | Some k \<Rightarrow> k < dk_next dk" using assms(1) by (auto simp: stored_def)
  from assms(2) obtain m n r g a where "load_file m n (dk_file dk) = Inr (r, g, a)" "gl_max_bytes l = m" "gl_audit_limit l = n"
      "gl_revision l = r" "gl_grants l = g" "gl_audit l = a" "gl_stamp l = dk_stamp dk"
    by (auto simp: ledger_init_def res_simps loaded_def)
  then show ?thesis using load_stored [OF assms(1)] s by (auto simp: copy_ok_def)
qed

lemma reload_copy:
  assumes "stored h dk" and "copy_ok h dk l"
  shows "copy_ok h dk (snd (reload lock_ok l dk))"
  using locked_cases(2) [OF assms] assms(2) by (auto simp: reload_def split: prod.splits)

lemma ledger_step_inv:
  assumes "world_inv w"
  shows "world_inv (ledger_step x w)"
proof (cases x)
  case (OpenLedger i F mb al)
  then show ?thesis using assms init_copy by (auto simp: ledger_step_def world_inv_def split: sum.splits)
next
  case (Reload i lock_ok)
  then show ?thesis using assms reload_copy by (auto simp: ledger_step_def world_inv_def split: option.splits)
next
  case (Change i lock_ok write_ok action p q declared v expected)
  show ?thesis
  proof (cases "wo_ledgers w i")
    case (Some l)
    obtain r l' dk' where c: "change lock_ok write_ok action p q declared v expected l (wo_disk w) = (r, l', dk')" by (metis prod_cases3)
    have i: "stored (wo_history w) (wo_disk w)" "copy_ok (wo_history w) (wo_disk w) l"
      using assms Some by (auto simp: world_inv_def)
    from change_cases [OF i c] show ?thesis
      using assms Some c copy_ok_other [of "wo_history w" "wo_disk w"]
      by (auto simp: Change ledger_step_def world_inv_def)
  qed (use assms in \<open>simp add: Change ledger_step_def\<close>)
qed

lemma ledger_reachable_inv: "ledger_reachable w \<Longrightarrow> world_inv w"
proof (induction rule: ledger_reachable.induct)
  case init
  then show ?case by (simp add: world_init_def world_inv_def stored_def)
next
  case (step w x)
  then show ?case by (simp add: ledger_step_inv)
qed

section \<open>What consent means across processes\<close>


lemma reload_success:
  assumes "stored h dk" and "copy_ok h dk l" and "reload lock_ok l dk = (Inr n, l1)"
  shows "n = int (length h)" and "gl_revision l1 = n" and "file_holds h (gl_grants l1) (gl_audit l1)"
proof -
  have c: "gl_revision l1 = int (length h) \<and> file_holds h (gl_grants l1) (gl_audit l1) \<and> n = gl_revision l1"
  proof (cases "dk_stamp dk = gl_stamp l")
    case True
    then show ?thesis using assms(2,3) by (auto simp: reload_def copy_ok_def)
  next
    case False
    obtain r l0 where lk: "locked lock_ok l dk = (r, l0)" by fastforce
    from locked_cases(3) [OF assms(1,2) lk] show ?thesis
      using assms(3) False by (auto simp: reload_def lk res_simps split: sum.splits)
  qed
  then show "n = int (length h)" "gl_revision l1 = n" "file_holds h (gl_grants l1) (gl_audit l1)" by simp_all
qed

text \<open>No process answers from a stale copy: whatever it last read, once \<open>reload\<close> has succeeded
  its revision is the number of changes ever committed and it grants exactly the declared
  permissions whose last change was a grant.\<close>

theorem reloaded_ledger_is_current:
  assumes "ledger_reachable w" and "wo_ledgers w i = Some l"
    and "reload lock_ok l (wo_disk w) = (Inr n, l1)" and "is_granted l1 p q declared = Inr ok"
  shows "n = int (length (wo_history w)) \<and> gl_revision l1 = n \<and>
    ok = (q \<in> declared \<and> last_word (wo_history w) p q)"
proof -
  have st: "stored (wo_history w) (wo_disk w)" "copy_ok (wo_history w) (wo_disk w) l"
    using ledger_reachable_inv [OF assms(1)] assms(2) by (auto simp: world_inv_def)
  have "ok = (q \<in> declared \<and> dhas (plugin_grants l1 p) q)"
    using assms(4) by (auto simp: is_granted_def res_simps validated_declarations_def split: if_splits)
  then show ?thesis using reload_success [OF st assms(3)] by (simp add: plugin_grants_held file_holds_def)
qed


text \<open>
  The constructor does not hold the lock between reading the file and taking its stamp.  A copy made
  around a committed change carries the new stamp over the old contents, and \<open>reload\<close>, which
  compares stamps, never reads the file again.
\<close>

lemma torn_open_stays_stale:
  assumes "ledger_init F mb al dk dk' = Inr l"
  shows "reload lock_ok l dk' = (Inr (gl_revision l), l)"
    and "\<exists>m n. load_file m n (dk_file dk) = Inr (gl_revision l, gl_grants l, gl_audit l)"
  using assms by (fastforce simp: ledger_init_def res_simps loaded_def reload_def)+

section \<open>Witnesses\<close>

definition demo_prov :: provenance where
  "demo_prov = \<lparr>pv_actor = PStr ''alice'', pv_origin = USER, pv_reason = PStr [], pv_recorded_at = PInt 5, pv_request = PStr ''r1''\<rparr>"

definition demo_number :: float_text where
  "demo_number = \<lparr>ft_repr = (\<lambda>_. ''0.5''), ft_float = (\<lambda>_. Fin (1 / 2))\<rparr>"

definition demo_open :: world where
  "demo_open = ledger_step (OpenLedger 1 demo_number (PInt 4096) (PInt 8))
     (ledger_step (OpenLedger 0 demo_number (PInt 4096) (PInt 8)) world_init)"

definition demo_change :: "grant_action \<Rightarrow> int \<Rightarrow> ledger_call" where
  "demo_change a n = Change 0 True True a ''demo'' ''net:a'' {''net:a''} demo_prov (PInt n)"

definition demo_granted :: world where
  "demo_granted = ledger_step (demo_change GRANTED 0) demo_open"

lemma demo_open_reachable: "ledger_reachable demo_open"
  by (simp add: demo_open_def ledger_reachable.intros)

lemma demo_granted_reachable: "ledger_reachable demo_granted"
  by (simp add: demo_granted_def demo_open_reachable ledger_reachable.step)

text \<open>
  What the witnesses need of this world, evaluated once.  Process 1 opened the ledger before the
  change and reads it again after.
\<close>

definition demo_summary :: "world \<Rightarrow> (string \<times> string \<times> grant_action) list \<times> nat \<times> (int res \<times> string set res \<times> bool res) option" where
  "demo_summary w =
     (map (\<lambda>e. (ae_plugin e, ae_permission e, ae_action e)) (wo_history w), dk_next (wo_disk w),
      map_option (\<lambda>l. case reload True l (wo_disk w) of
        (r, l1) \<Rightarrow> (r, active_permissions l1 ''demo'' {''net:a''}, is_granted l1 ''demo'' ''net:a'' {''net:a''})) (wo_ledgers w 1))"

lemma demo_granted_summary:
  "demo_summary demo_granted = ([(''demo'', ''net:a'', GRANTED)], 1, Some (Inr 1, Inr {''net:a''}, Inr True))"
  by code_simp

lemma demo_granted_history: "map (\<lambda>e. (ae_plugin e, ae_permission e, ae_action e)) (wo_history demo_granted) = [(''demo'', ''net:a'', GRANTED)]"
  using demo_granted_summary by (simp add: demo_summary_def)

lemma demo_granted_word: "last_word (wo_history demo_granted) ''demo'' ''net:a''"
  using demo_granted_history by (auto simp: last_word_def map_eq_Cons_conv)

lemma demo_reader:
  obtains l l1 where "wo_ledgers demo_granted 1 = Some l" "reload True l (wo_disk demo_granted) = (Inr 1, l1)"
    "is_granted l1 ''demo'' ''net:a'' {''net:a''} = Inr True" "active_permissions l1 ''demo'' {''net:a''} = Inr {''net:a''}"
proof -
  obtain l where l: "wo_ledgers demo_granted 1 = Some l" using demo_granted_summary by (auto simp: demo_summary_def)
  obtain r l1 where r: "reload True l (wo_disk demo_granted) = (r, l1)" by fastforce
  from demo_granted_summary have "r = Inr 1 \<and> active_permissions l1 ''demo'' {''net:a''} = Inr {''net:a''} \<and>
      is_granted l1 ''demo'' ''net:a'' {''net:a''} = Inr True"
    unfolding demo_summary_def l option.map r by simp
  with r show ?thesis using that [OF l] by simp
qed


theorem reloaded_ledger_is_current_witness:
  "\<exists>l l1. wo_ledgers demo_granted 1 = Some l \<and> reload True l (wo_disk demo_granted) = (Inr 1, l1) \<and>
     int (length (wo_history demo_granted)) = 1 \<and> last_word (wo_history demo_granted) ''demo'' ''net:a''"
proof -
  obtain l l1 where l: "wo_ledgers demo_granted 1 = Some l" "reload True l (wo_disk demo_granted) = (Inr 1, l1)"
    "is_granted l1 ''demo'' ''net:a'' {''net:a''} = Inr True"
    using demo_reader by blast
  from reloaded_ledger_is_current [OF demo_granted_reachable l] l show ?thesis by auto
qed


end
