(* ===== verification/Live_Consent.thy ===== *)
theory Live_Consent
  imports Grant_Ledger
begin

text \<open>
  \<^verbatim>\<open>src/omnitensor/plugins/revocation.py\<close>: the view of the consent ledger that reads it again for
  every check, and the guard that runs an operation only while the permissions it needs stay
  granted.  A check happens at a moment: the file as it is then, whether its lock is to be had,
  and, for the statements only, the history of changes the file has come from.
\<close>

section \<open>The view\<close>

record moment =
  mo_lock :: bool
  mo_disk :: disk
  mo_history :: "audit_event list"

record view =
  vw_plugin :: string
  vw_declared :: "string set"

definition granted_now :: "view \<Rightarrow> moment \<Rightarrow> ledger \<Rightarrow> string set res \<times> ledger" where
  "granted_now vw m l =
     (case reload (mo_lock m) l (mo_disk m) of
        (Inl e, l1) \<Rightarrow> (Inl e, l1)
      | (Inr _, l1) \<Rightarrow> (active_permissions l1 (vw_plugin vw) (vw_declared vw), l1))"

definition allows :: "view \<Rightarrow> moment \<Rightarrow> string \<Rightarrow> ledger \<Rightarrow> bool res \<times> ledger" where
  "allows vw m q l =
     (if q \<notin> vw_declared vw then (Inr False, l)
      else (case granted_now vw m l of (r, l1) \<Rightarrow> (map_res (\<lambda>qs. q \<in> qs) r, l1)))"

definition require_live :: "view \<Rightarrow> moment \<Rightarrow> string \<Rightarrow> ledger \<Rightarrow> unit res \<times> ledger" where
  "require_live vw m q l =
     (case allows vw m q l of
        (r, l1) \<Rightarrow> (bind_res r (\<lambda>ok. refuse_unless ok ''permission-denied'' (vw_plugin vw @ '' has no active grant for '' @ q)), l1))"

section \<open>The guard\<close>

text \<open>Which permissions are not granted, each asked at a moment of its own.\<close>

fun revoked :: "view \<Rightarrow> (nat \<Rightarrow> moment) \<Rightarrow> string list \<Rightarrow> ledger \<Rightarrow> string list res \<times> ledger" where
  "revoked vw mo [] l = (Inr [], l)"
| "revoked vw mo (q # qs) l =
     (case allows vw (mo 0) q l of
        (Inl e, l1) \<Rightarrow> (Inl e, l1)
      | (Inr ok, l1) \<Rightarrow>
          (case revoked vw (\<lambda>n. mo (Suc n)) qs l1 of
             (r, l2) \<Rightarrow> (map_res (\<lambda>ms. if ok then ms else q # ms) r, l2)))"

text \<open>
  What each wait of the loop brings: the operation ended, or the poll interval passed and the
  grants are checked at the given moments.
\<close>

datatype 'a wait = Ended 'a | Interval "nat \<Rightarrow> moment"

text \<open>\<open>NotStarted\<close>: the operation never ran.  \<open>StoppedWith\<close>: it was cancelled.\<close>

datatype 'a guarded = NotStarted exn | Finished 'a | StoppedWith exn | StillRunning

fun guard_loop :: "view \<Rightarrow> string list \<Rightarrow> 'a wait list \<Rightarrow> ledger \<Rightarrow> 'a guarded \<times> ledger" where
  "guard_loop vw qs [] l = (StillRunning, l)"
| "guard_loop vw qs (Ended x # ws) l = (Finished x, l)"
| "guard_loop vw qs (Interval mo # ws) l =
     (case revoked vw mo qs l of
        (Inl e, l1) \<Rightarrow> (StoppedWith e, l1)
      | (Inr [], l1) \<Rightarrow> guard_loop vw qs ws l1
      | (Inr (q # _), l1) \<Rightarrow> (StoppedWith (Stable ''consent-revoked'' (''stopped after '' @ q @ '' was revoked'')), l1))"

definition guard_run :: "view \<Rightarrow> string set \<Rightarrow> (nat \<Rightarrow> moment) \<Rightarrow> 'a wait list \<Rightarrow> ledger \<Rightarrow> 'a guarded \<times> ledger" where
  "guard_run vw permissions start ws l =
     (let qs = sorted_list_of_set permissions
      in case revoked vw start qs l of
           (Inl e, l1) \<Rightarrow> (NotStarted e, l1)
         | (Inr (q # _), l1) \<Rightarrow> (NotStarted (Stable ''permission-denied'' (''no active grant for '' @ q)), l1)
         | (Inr [], l1) \<Rightarrow> guard_loop vw qs ws l1)"

section \<open>What a check sees\<close>

text \<open>Later moments come from earlier ones by committed changes.\<close>

definition evolves :: "moment \<Rightarrow> moment \<Rightarrow> bool" where
  "evolves m m' =
     (stored (mo_history m) (mo_disk m) \<and> stored (mo_history m') (mo_disk m') \<and>
      (mo_disk m' = mo_disk m \<and> mo_history m' = mo_history m \<or>
       dk_next (mo_disk m) \<le> dk_next (mo_disk m') \<and>
       (\<exists>k. dk_stamp (mo_disk m') = Some k \<and> dk_next (mo_disk m) \<le> k)))"

definition fresh :: "moment \<Rightarrow> ledger \<Rightarrow> bool" where
  "fresh m l = (stored (mo_history m) (mo_disk m) \<and> copy_ok (mo_history m) (mo_disk m) l)"

lemma fresh_evolves: "fresh m l \<Longrightarrow> evolves m m' \<Longrightarrow> fresh m' l"
  by (auto simp: fresh_def evolves_def copy_ok_def split: option.splits)

text \<open>What consent there is at a moment.\<close>

definition consent :: "view \<Rightarrow> moment \<Rightarrow> string \<Rightarrow> bool" where
  "consent vw m q = (q \<in> vw_declared vw \<and> last_word (mo_history m) (vw_plugin vw) q)"

lemma active_permissions_eq:
  assumes "active_permissions l p declared = Inr qs" and "file_holds h (gl_grants l) a"
  shows "qs = {q \<in> declared. last_word h p q}"
proof -
  have "qs = {q \<in> declared. dhas (plugin_grants l p) q}"
    using assms(1)
    by (force simp: active_permissions_def snapshot_def validated_declarations_def res_simps dhas_def dkeys_def split: if_splits)
  then show ?thesis using assms(2) by (simp add: plugin_grants_held file_holds_def)
qed

lemma allows_exact:
  assumes "fresh m l" and "allows vw m q l = (r, l1)"
  shows "fresh m l1" and "r = Inr ok \<Longrightarrow> ok = consent vw m q"
proof -
  have st: "stored (mo_history m) (mo_disk m)" "copy_ok (mo_history m) (mo_disk m) l" using assms(1) by (simp_all add: fresh_def)
  show "fresh m l1"
    using assms reload_copy [OF st, of "mo_lock m"]
    by (auto simp: allows_def granted_now_def fresh_def split: if_splits prod.splits sum.splits)
  show "ok = consent vw m q" if "r = Inr ok"
  proof (cases "q \<in> vw_declared vw")
    case True
    obtain rr l2 where rl: "reload (mo_lock m) l (mo_disk m) = (rr, l2)" by fastforce
    with assms(2) that True obtain n qs where "rr = Inr n"
      and "active_permissions l2 (vw_plugin vw) (vw_declared vw) = Inr qs" and "ok = (q \<in> qs)"
      by (cases rr) (auto simp: allows_def granted_now_def res_simps)
    with reload_success(3) [OF st] rl active_permissions_eq show ?thesis
      using True by (fastforce simp: consent_def)
  next
    case False
    then show ?thesis using assms(2) that by (auto simp: allows_def consent_def)
  qed
qed

lemma evolves_stored: "evolves m m' \<Longrightarrow> stored (mo_history m') (mo_disk m')"
  by (simp add: evolves_def)

section \<open>Nothing runs without consent\<close>

text \<open>The moments a run looks at, in the order it looks: later ones evolve from earlier ones.\<close>

fun in_order :: "(nat \<Rightarrow> moment) list \<Rightarrow> bool" where
  "in_order [] = True"
| "in_order (mo # mos) =
     ((\<forall>k n. k \<le> n \<longrightarrow> evolves (mo k) (mo n)) \<and> (\<forall>mo' \<in> set mos. \<forall>k n. evolves (mo k) (mo' n)) \<and> in_order mos)"

fun intervals :: "'a wait list \<Rightarrow> (nat \<Rightarrow> moment) list" where
  "intervals [] = []"
| "intervals (Interval mo # ws) = mo # intervals ws"
| "intervals (Ended x # ws) = intervals ws"

text \<open>Every permission had consent when it was asked.\<close>

fun consented :: "view \<Rightarrow> string list \<Rightarrow> (nat \<Rightarrow> moment) \<Rightarrow> bool" where
  "consented vw [] mo = True"
| "consented vw (q # qs) mo = (consent vw (mo 0) q \<and> consented vw qs (\<lambda>n. mo (Suc n)))"

lemma revoked_exact:
  assumes "\<And>k n. k \<le> n \<Longrightarrow> evolves (mo k) (mo n)" and "\<And>n. fresh (mo n) l"
    and "revoked vw mo qs l = (r, l1)"
  shows "(\<exists>n. fresh (mo n) l1) \<and> (\<forall>ms. r = Inr ms \<longrightarrow> (ms = []) = consented vw qs mo)"
  using assms
proof (induction qs arbitrary: mo l r l1)
  case Nil
  then show ?case by auto
next
  case (Cons q qs)
  obtain r0 l0 where al: "allows vw (mo 0) q l = (r0, l0)" by fastforce
  have f: "fresh (mo n) l0" for n
    using allows_exact(1) [OF Cons.prems(2) al] Cons.prems(1) [of 0 n] fresh_evolves by blast
  obtain r2 l2 where rv: "revoked vw (\<lambda>n. mo (Suc n)) qs l0 = (r2, l2)" by fastforce
  have ih: "(\<exists>n. fresh (mo (Suc n)) l2) \<and> (\<forall>ms. r2 = Inr ms \<longrightarrow> (ms = []) = consented vw qs (\<lambda>n. mo (Suc n)))"
    by (rule Cons.IH) (use Cons.prems(1) f rv in auto)
  show ?case
  proof (cases r0)
    case (Inl e)
    then have "r = Inl e" "l1 = l0" using Cons.prems(3) by (simp_all add: al)
    then show ?thesis using f by blast
  next
    case (Inr ok)
    then have "ok = consent vw (mo 0) q" using allows_exact(2) [OF Cons.prems(2) al] by simp
    moreover have "r = map_res (\<lambda>ms. if ok then ms else q # ms) r2" "l1 = l2" using Cons.prems(3) by (simp_all add: al rv Inr)
    ultimately show ?thesis using ih by (cases r2) auto
  qed
qed

text \<open>What ended a run after the first check: its own end, a later check that failed, or nothing yet.\<close>

definition ends_with :: "view \<Rightarrow> string list \<Rightarrow> 'a wait list \<Rightarrow> 'a guarded \<Rightarrow> bool" where
  "ends_with vw qs rest g =
     (case g of
        NotStarted e \<Rightarrow> False
      | Finished x \<Rightarrow> (\<exists>r. rest = Ended x # r)
      | StillRunning \<Rightarrow> rest = []
      | StoppedWith e \<Rightarrow>
          (\<exists>mo r. rest = Interval mo # r \<and> (\<not> consented vw qs mo \<or> (\<exists>l. fst (revoked vw mo qs l) = Inl e))))"

lemma guard_loop_exact:
  assumes "in_order (intervals ws)" and "\<forall>mo \<in> set (intervals ws). \<forall>n. fresh (mo n) l"
    and "guard_loop vw qs ws l = (g, l1)"
  shows "\<exists>mos rest. ws = map Interval mos @ rest \<and> list_all (consented vw qs) mos \<and> ends_with vw qs rest g"
  using assms
proof (induction vw qs ws l rule: guard_loop.induct)
  case (1 vw qs l)
  then show ?case by (simp add: ends_with_def)
next
  case (2 vw qs x ws l)
  then have "ends_with vw qs (Ended x # ws) g" by (auto simp: ends_with_def)
  then show ?case by (intro exI [of _ "[]"] exI [of _ "Ended x # ws"]) simp
next
  case (3 vw qs mo ws l)
  obtain r l0 where rv: "revoked vw mo qs l = (r, l0)" by fastforce
  have ex: "(\<exists>n. fresh (mo n) l0) \<and> (\<forall>ms. r = Inr ms \<longrightarrow> (ms = []) = consented vw qs mo)"
    by (rule revoked_exact [OF _ _ rv]) (use "3.prems"(1,2) in simp_all)
  have stop: ?case if "g = StoppedWith e" "\<not> consented vw qs mo \<or> fst (revoked vw mo qs l) = Inl e" for e
  proof -
    have "ends_with vw qs (Interval mo # ws) g" using that by (auto simp: ends_with_def)
    then show ?thesis by (intro exI [of _ "[]"] exI [of _ "Interval mo # ws"]) simp
  qed
  show ?case
  proof (cases r)
    case (Inl e)
    then show ?thesis using "3.prems"(3) stop by (auto simp: rv)
  next
    case (Inr ms)
    show ?thesis
    proof (cases ms)
      case Nil
      have "\<forall>mo' \<in> set (intervals ws). \<forall>n. fresh (mo' n) l0" using ex "3.prems"(1) fresh_evolves by fastforce
      then obtain mos rest where "ws = map Interval mos @ rest" "list_all (consented vw qs) mos" "ends_with vw qs rest g"
        using "3.IH" [OF rv [symmetric]] Inr Nil "3.prems"(1,3) by (auto simp: rv)
      then show ?thesis using ex Inr Nil by (intro exI [of _ "mo # mos"] exI [of _ rest]) simp
    next
      case (Cons q qs')
      then show ?thesis using "3.prems"(3) stop ex Inr by (auto simp: rv)
    qed
  qed
qed


section \<open>A run that is stopped\<close>

definition demo_moment :: moment where
  "demo_moment = \<lparr>mo_lock = True, mo_disk = wo_disk demo_granted, mo_history = wo_history demo_granted\<rparr>"

definition demo_withdrawn :: moment where
  "demo_withdrawn = \<lparr>mo_lock = True,
     mo_disk = \<lparr>dk_file = File 90 (Some (encode_document 2 [] [])), dk_stamp = Some 1, dk_next = 2\<rparr>,
     mo_history = wo_history demo_granted @ [next_event (wo_history demo_granted) ''demo'' ''net:a'' REVOKED demo_prov]\<rparr>"

definition demo_view :: view where
  "demo_view = \<lparr>vw_plugin = ''demo'', vw_declared = {''net:a''}\<rparr>"

lemma demo_granted_file: "dk_next (wo_disk demo_granted) = 1"
  using demo_granted_summary by (simp add: demo_summary_def)

lemma demo_withdrawn_word: "\<not> last_word (mo_history demo_withdrawn) p q"
proof -
  obtain e where e: "wo_history demo_granted = [e]" "ae_plugin e = ''demo''" "ae_permission e = ''net:a''"
    using demo_granted_history by (auto simp: map_eq_Cons_conv)
  then show ?thesis by (auto simp: demo_withdrawn_def next_event_def last_word_def)
qed

lemma demo_evolves:
  "evolves demo_moment demo_moment" "evolves demo_withdrawn demo_withdrawn" "evolves demo_moment demo_withdrawn"
  "fresh demo_moment (the (wo_ledgers demo_granted 1))"
proof -
  have "stored (wo_history demo_granted) (wo_disk demo_granted)"
    using ledger_reachable_inv [OF demo_granted_reachable] by (simp only: world_inv_def)
  then have st: "stored (mo_history demo_moment) (mo_disk demo_moment)" by (simp only: demo_moment_def moment.simps)
  have cp: "copy_ok (mo_history demo_moment) (mo_disk demo_moment) (the (wo_ledgers demo_granted 1))"
    using ledger_reachable_inv [OF demo_granted_reachable] demo_reader
    unfolding world_inv_def demo_moment_def moment.simps by (metis option.sel)
  have "length (mo_history demo_withdrawn) = 2"
    using arg_cong [OF demo_granted_history, of length] by (simp add: demo_withdrawn_def)
  moreover have "file_holds (mo_history demo_withdrawn) [] []"
    using demo_withdrawn_word by (simp add: file_holds_def grants_ok_def dict_ok_def dkeys_def holds_grant_def)
  ultimately have st2: "stored (mo_history demo_withdrawn) (mo_disk demo_withdrawn)"
    unfolding stored_def by (auto simp: demo_withdrawn_def)
  show "evolves demo_moment demo_moment" "evolves demo_withdrawn demo_withdrawn"
    by (simp_all only: evolves_def st st2 simp_thms)
  show "evolves demo_moment demo_withdrawn"
    using st st2 demo_granted_file by (simp add: evolves_def) (simp add: demo_moment_def demo_withdrawn_def)
  show "fresh demo_moment (the (wo_ledgers demo_granted 1))"
    by (simp only: fresh_def st cp simp_thms)
qed

text \<open>Granted at the start and after one interval, revoked before the next: the run is stopped there.\<close>

definition demo_waits :: "nat wait list" where
  "demo_waits = [Interval (\<lambda>_. demo_moment), Interval (\<lambda>_. demo_withdrawn), Ended 7]"

lemma demo_guard_started:
  "fst (revoked demo_view (\<lambda>_. demo_moment) [''net:a''] (the (wo_ledgers demo_granted 1))) = Inr []"
proof (rule demo_reader)
  fix l l1
  assume "wo_ledgers demo_granted 1 = Some l" "reload True l (wo_disk demo_granted) = (Inr 1, l1)"
    "active_permissions l1 ''demo'' {''net:a''} = Inr {''net:a''}"
  then show ?thesis by (simp add: allows_def granted_now_def demo_view_def demo_moment_def)
qed


end
