(* ===== verification/Pipeline_Machine.thy ===== *)
theory Pipeline_Machine
  imports Dispatch Job_Results
begin

text \<open>
  \<^verbatim>\<open>src/omnitensor/plugins/pipeline.py\<close>, the stages of a job and the machine that holds them to
  their order, and \<^verbatim>\<open>plugins/policy.py\<close>, the gate asked before each of them.
\<close>

section \<open>Stages and their outputs\<close>

datatype stage = Queued | Collect | Preprocess | Resolve | Infer | Postprocess | Deliver | Terminal

fun stage_str :: "stage \<Rightarrow> string" where
  "stage_str Queued = ''queued''"
| "stage_str Collect = ''collect''"
| "stage_str Preprocess = ''preprocess''"
| "stage_str Resolve = ''resolve''"
| "stage_str Infer = ''infer''"
| "stage_str Postprocess = ''postprocess''"
| "stage_str Deliver = ''deliver''"
| "stage_str Terminal = ''terminal''"

text \<open>A stage may return any object; \<open>Foreign\<close> is one of another class, by its name.\<close>

datatype stage_output =
    CollectedOutput pyval
  | PreprocessedOutput pyval pyval
  | ResolvedOutput artifact_ref string "pyval option" "prepared option"
  | InferenceOutput pyval "pyval option"
  | PostprocessedOutput pyval
  | DeliveredOutput pyval pyval
  | Foreign string

definition MAX_JOB_ID_CHARS :: nat where "MAX_JOB_ID_CHARS = 128"

text \<open>\<^verbatim>\<open>_TRANSITIONS\<close>: the class each stage must return and the stage after it.\<close>

fun transitions :: "stage \<Rightarrow> (string \<times> stage) option" where
  "transitions Collect = Some (''CollectedOutput'', Preprocess)"
| "transitions Preprocess = Some (''PreprocessedOutput'', Resolve)"
| "transitions Resolve = Some (''ResolvedOutput'', Infer)"
| "transitions Infer = Some (''InferenceOutput'', Postprocess)"
| "transitions Postprocess = Some (''PostprocessedOutput'', Deliver)"
| "transitions Deliver = Some (''DeliveredOutput'', Terminal)"
| "transitions Queued = None"
| "transitions Terminal = None"

fun output_class :: "stage_output \<Rightarrow> string option" where
  "output_class (CollectedOutput _) = Some ''CollectedOutput''"
| "output_class (PreprocessedOutput _ _) = Some ''PreprocessedOutput''"
| "output_class (ResolvedOutput _ _ _ _) = Some ''ResolvedOutput''"
| "output_class (InferenceOutput _ _) = Some ''InferenceOutput''"
| "output_class (PostprocessedOutput _) = Some ''PostprocessedOutput''"
| "output_class (DeliveredOutput _ _) = Some ''DeliveredOutput''"
| "output_class (Foreign _) = None"

fun output_type_name :: "stage_output \<Rightarrow> string" where
  "output_type_name (Foreign n) = n"
| "output_type_name x = the (output_class x)"

section \<open>The machine\<close>

record machine =
  mc_job :: string
  mc_stage :: stage
  mc_revision :: nat
  mc_last :: "stage_output option"
  mc_result :: "presult option"

definition machine_init :: "pyval \<Rightarrow> machine res" where
  "machine_init job_id =
     (case job_id of
        PStr s \<Rightarrow> if s = [] \<or> MAX_JOB_ID_CHARS < length s then Inl ValueError
                  else Inr \<lparr>mc_job = s, mc_stage = Queued, mc_revision = 0, mc_last = None, mc_result = None\<rparr>
      | _ \<Rightarrow> Inl ValueError)"

definition validate_timestamp :: "pyval \<Rightarrow> int res" where
  "validate_timestamp completed_at_ms =
     (case completed_at_ms of PInt n \<Rightarrow> if n < 0 then Inl ValueError else Inr n | _ \<Rightarrow> Inl ValueError)"

definition machine_start :: "machine \<Rightarrow> unit res \<times> machine" where
  "machine_start m =
     (if mc_stage m \<noteq> Queued then (Inl (Stable ''already-started'' (''job is already at '' @ stage_str (mc_stage m))), m)
      else (Inr (), m\<lparr>mc_stage := Collect, mc_revision := Suc (mc_revision m)\<rparr>))"

definition machine_finish :: "result_status \<Rightarrow> pyval \<Rightarrow> pyval \<Rightarrow> pyval \<Rightarrow> machine \<Rightarrow> unit res \<times> machine" where
  "machine_finish status output detail completed_at_ms m =
     (if mc_result m \<noteq> None then (Inr (), m)
      else (case validate_timestamp completed_at_ms of
              Inl e \<Rightarrow> (Inl e, m)
            | Inr ms \<Rightarrow>
                (case detail of
                   PStr d \<Rightarrow> (Inr (), m\<lparr>mc_result := Some \<lparr>pr_job = mc_job m, pr_status = status, pr_output = output,
                                                        pr_detail = d, pr_at = ms\<rparr>,
                                        mc_stage := Terminal, mc_revision := Suc (mc_revision m)\<rparr>)
                 | _ \<Rightarrow> (Inl TypeError, m))))"

definition machine_advance :: "stage_output \<Rightarrow> pyval \<Rightarrow> machine \<Rightarrow> unit res \<times> machine" where
  "machine_advance output completed_at_ms m =
     (case validate_timestamp completed_at_ms of
        Inl e \<Rightarrow> (Inl e, m)
      | Inr _ \<Rightarrow>
          (case transitions (mc_stage m) of
             None \<Rightarrow> (Inl (Stable ''stage-not-runnable'' (''cannot advance from '' @ stage_str (mc_stage m))), m)
           | Some (expected, next_stage) \<Rightarrow>
               if output_class output \<noteq> Some expected
               then (Inl (Stable ''stage-output-mismatch'' (stage_str (mc_stage m) @ '' requires '' @ expected @
                            ''; received '' @ output_type_name output)), m)
               else (let m1 = m\<lparr>mc_last := Some output\<rparr>
                     in case output of
                          DeliveredOutput out detail \<Rightarrow> machine_finish SUCCEEDED out detail completed_at_ms m1
                        | _ \<Rightarrow> (Inr (), m1\<lparr>mc_stage := next_stage, mc_revision := Suc (mc_revision m)\<rparr>))))"

definition machine_fail :: "pyval \<Rightarrow> pyval \<Rightarrow> machine \<Rightarrow> unit res \<times> machine" where
  "machine_fail detail completed_at_ms m = machine_finish FAILED (PDict []) detail completed_at_ms m"

definition machine_cancel :: "pyval \<Rightarrow> pyval \<Rightarrow> machine \<Rightarrow> unit res \<times> machine" where
  "machine_cancel detail completed_at_ms m = machine_finish CANCELLED (PDict []) detail completed_at_ms m"

section \<open>Any sequence of signals\<close>

datatype signal = SStart | SAdvance stage_output pyval | SFail pyval pyval | SCancel pyval pyval

fun machine_step :: "signal \<Rightarrow> machine \<Rightarrow> unit res \<times> machine" where
  "machine_step SStart m = machine_start m"
| "machine_step (SAdvance out ms) m = machine_advance out ms m"
| "machine_step (SFail d ms) m = machine_fail d ms m"
| "machine_step (SCancel d ms) m = machine_cancel d ms m"

fun machine_run :: "signal list \<Rightarrow> machine \<Rightarrow> machine" where
  "machine_run [] m = m"
| "machine_run (x # xs) m = machine_run xs (snd (machine_step x m))"

text \<open>The outputs the machine took, in order: the advances that neither raised nor came too late.\<close>

fun taken :: "signal list \<Rightarrow> machine \<Rightarrow> stage_output list" where
  "taken [] m = []"
| "taken (x # xs) m =
     (case machine_step x m of
        (r, m1) \<Rightarrow> (case x of SAdvance out ms \<Rightarrow> if r = Inr () then [out] else [] | _ \<Rightarrow> []) @ taken xs m1)"

definition stage_classes :: "string list" where
  "stage_classes = [''CollectedOutput'', ''PreprocessedOutput'', ''ResolvedOutput'', ''InferenceOutput'', ''PostprocessedOutput'', ''DeliveredOutput'']"

text \<open>How many stages are behind a machine that is at a stage.\<close>

fun stages_done :: "stage \<Rightarrow> nat" where
  "stages_done Queued = 0" | "stages_done Collect = 0" | "stages_done Preprocess = 1" | "stages_done Resolve = 2"
| "stages_done Infer = 3" | "stages_done Postprocess = 4" | "stages_done Deliver = 5" | "stages_done Terminal = 6"

text \<open>What holds of a machine and the outputs it took so far.\<close>

definition machine_inv :: "stage_output list \<Rightarrow> machine \<Rightarrow> bool" where
  "machine_inv outs m =
     ((\<exists>n \<le> 6. map output_class outs = map Some (take n stage_classes)) \<and>
      (case mc_result m of
         None \<Rightarrow> mc_stage m \<noteq> Terminal \<and> length outs = stages_done (mc_stage m)
       | Some r \<Rightarrow> mc_stage m = Terminal \<and> pr_job r = mc_job m \<and> 0 \<le> pr_at r \<and>
           (pr_status r = SUCCEEDED \<longleftrightarrow> length outs = 6) \<and>
           (pr_status r = SUCCEEDED \<longrightarrow> (\<exists>d. last outs = DeliveredOutput (pr_output r) d)) \<and>
           (pr_status r \<noteq> SUCCEEDED \<longrightarrow> pr_output r = PDict [])))"

lemma validate_timestamp_ok: "validate_timestamp v = Inr n \<longleftrightarrow> v = PInt n \<and> 0 \<le> n"
  by (auto simp: validate_timestamp_def split: pyval.splits if_splits)

lemma finish_cases:
  obtains "mc_result m \<noteq> None" "machine_finish s out d ms m = (Inr (), m)"
  | e where "mc_result m = None" "machine_finish s out d ms m = (Inl e, m)"
  | n t where "mc_result m = None" "ms = PInt n" "0 \<le> n" "d = PStr t" "machine_finish s out d ms m =
      (Inr (), m\<lparr>mc_result := Some \<lparr>pr_job = mc_job m, pr_status = s, pr_output = out, pr_detail = t, pr_at = n\<rparr>,
         mc_stage := Terminal, mc_revision := Suc (mc_revision m)\<rparr>)"
  by (cases "mc_result m"; cases "validate_timestamp ms"; cases d)
     (auto simp: machine_finish_def validate_timestamp_ok validate_timestamp_def [of "PInt _"])

text \<open>A terminal result is final: no signal changes it.\<close>

lemma machine_step_final: "mc_result m = Some r \<Longrightarrow> mc_stage m = Terminal \<Longrightarrow> snd (machine_step x m) = m"
  by (cases x) (auto simp: machine_start_def machine_advance_def machine_fail_def machine_cancel_def machine_finish_def
      split: sum.splits)

lemma machine_run_final: "mc_result m = Some r \<Longrightarrow> mc_stage m = Terminal \<Longrightarrow> machine_run xs m = m"
  by (induction xs) (simp_all add: machine_step_final)

lemma take_classes:
  assumes "map output_class outs = map Some (take n stage_classes)" and "n \<le> 6" and "length outs = k" and "k < 6"
    and "output_class out = Some (stage_classes ! k)"
  shows "\<exists>n \<le> 6. map output_class (outs @ [out]) = map Some (take n stage_classes)"
proof -
  have l: "length stage_classes = 6" by (simp add: stage_classes_def)
  have "length outs = length (take n stage_classes)" using assms(1) by (metis length_map)
  then have "n = k" using assms(2,3) l by simp
  then have "map output_class (outs @ [out]) = map Some (take (Suc k) stage_classes)"
    using assms(1,4,5) l by (simp add: take_Suc_conv_app_nth)
  then show ?thesis using assms(4) by (intro exI [of _ "Suc k"]) simp
qed

lemma transition_class: "transitions st = Some (c, st') \<Longrightarrow> stages_done st < 6 \<and> c = stage_classes ! stages_done st \<and>
    stages_done st' = Suc (stages_done st) \<and> (st' = Terminal \<longleftrightarrow> st = Deliver) \<and> st \<noteq> Terminal"
  by (cases st) (auto simp: stage_classes_def)

lemma finish_inv:
  assumes "machine_inv outs m" and "s \<noteq> SUCCEEDED"
  shows "machine_inv outs (snd (machine_finish s (PDict []) d ms m))"
proof (rule finish_cases [of m s "PDict []" d ms])
  fix n t
  assume f: "mc_result m = None" "ms = PInt n" "0 \<le> n" "d = PStr t" "machine_finish s (PDict []) d ms m =
      (Inr (), m\<lparr>mc_result := Some \<lparr>pr_job = mc_job m, pr_status = s, pr_output = PDict [], pr_detail = t, pr_at = n\<rparr>,
         mc_stage := Terminal, mc_revision := Suc (mc_revision m)\<rparr>)"
  have "stages_done (mc_stage m) < 6" using assms(1) f(1) by (cases "mc_stage m") (simp_all add: machine_inv_def)
  then show ?thesis using assms f by (simp add: machine_inv_def)
qed (use assms in simp_all)

lemma advance_inv:
  assumes inv: "machine_inv outs m" and adv: "machine_advance out ms m = (r, m1)"
  shows "machine_inv (outs @ (if r = Inr () then [out] else [])) m1 \<and> mc_job m1 = mc_job m"
proof -
  consider "r \<noteq> Inr ()" "m1 = m" |
    c st' n where "transitions (mc_stage m) = Some (c, st')" "output_class out = Some c" "ms = PInt n" "0 \<le> n"
      "case out of DeliveredOutput o1 d \<Rightarrow> (r, m1) = machine_finish SUCCEEDED o1 d ms (m\<lparr>mc_last := Some out\<rparr>)
       | _ \<Rightarrow> (r, m1) = (Inr (), m\<lparr>mc_last := Some out, mc_stage := st', mc_revision := Suc (mc_revision m)\<rparr>)"
  proof (cases "validate_timestamp ms")
    case (Inl e)
    then show ?thesis using adv by (intro that(1)) (auto simp: machine_advance_def)
  next
    case ms: (Inr n)
    show ?thesis
    proof (cases "transitions (mc_stage m)")
      case None
      then show ?thesis using adv ms by (intro that(1)) (auto simp: machine_advance_def)
    next
      case (Some p)
      obtain c st' where p: "p = (c, st')" by fastforce
      show ?thesis
      proof (cases "output_class out = Some c")
        case True
        have "case out of DeliveredOutput o1 d \<Rightarrow> (r, m1) = machine_finish SUCCEEDED o1 d ms (m\<lparr>mc_last := Some out\<rparr>)
            | _ \<Rightarrow> (r, m1) = (Inr (), m\<lparr>mc_last := Some out, mc_stage := st', mc_revision := Suc (mc_revision m)\<rparr>)"
          using adv ms Some p True by (cases out) (auto simp: machine_advance_def Let_def)
        then show ?thesis using that(2) Some p True ms validate_timestamp_ok by blast
      next
        case False
        then show ?thesis using adv ms Some p by (intro that(1)) (auto simp: machine_advance_def)
      qed
    qed
  qed
  then show ?thesis
  proof cases
    case 1
    then show ?thesis using inv by simp
  next
    case (2 c st' n)
    note tc = transition_class [OF 2(1)]
    have none: "mc_result m = None" using inv 2(1) by (auto simp: machine_inv_def split: option.splits)
    then have len: "length outs = stages_done (mc_stage m)" using inv by (simp add: machine_inv_def)
    have pre: "\<exists>n \<le> 6. map output_class (outs @ [out]) = map Some (take n stage_classes)"
      using inv take_classes [OF _ _ len, of _ out] tc 2(2) unfolding machine_inv_def by auto
    show ?thesis
    proof (cases "\<exists>o1 d. out = DeliveredOutput o1 d")
      case True
      then obtain o1 d where o: "out = DeliveredOutput o1 d" by blast
      have dl: "mc_stage m = Deliver" using 2(1,2) o by (cases "mc_stage m") auto
      have f: "machine_finish SUCCEEDED o1 d ms (m\<lparr>mc_last := Some out\<rparr>) = (r, m1)" using 2(5) o by simp
      show ?thesis
        by (rule finish_cases [of "m\<lparr>mc_last := Some out\<rparr>" SUCCEEDED o1 d ms])
           (use f none inv pre len dl o in \<open>auto simp: machine_inv_def\<close>)
    next
      case False
      then have m1: "r = Inr ()" "m1 = m\<lparr>mc_last := Some out, mc_stage := st', mc_revision := Suc (mc_revision m)\<rparr>"
        using 2(5) by (cases out; simp)+
      have "st' \<noteq> Terminal" using tc 2(2) False 2(1) by (cases out) (auto simp: stage_classes_def)
      then show ?thesis using m1 none pre len tc by (simp add: machine_inv_def)
    qed
  qed
qed

lemma start_inv: "machine_inv outs m \<Longrightarrow> machine_inv outs (snd (machine_start m))"
  by (auto simp: machine_inv_def machine_start_def split: option.splits)

lemma machine_run_inv:
  assumes "machine_inv outs m"
  shows "machine_inv (outs @ taken xs m) (machine_run xs m)"
  using assms
proof (induction xs arbitrary: outs m)
  case (Cons x xs)
  obtain r m1 where s: "machine_step x m = (r, m1)" by fastforce
  let ?o = "case x of SAdvance out ms \<Rightarrow> if r = Inr () then [out] else [] | _ \<Rightarrow> []"
  have "machine_inv (outs @ ?o) m1"
  proof (cases x)
    case (SAdvance out ms)
    then show ?thesis using s advance_inv [OF Cons.prems, of out ms r m1] by simp
  next
    case SStart
    then show ?thesis using s start_inv [OF Cons.prems] by simp
  next
    case (SFail d ms)
    then show ?thesis using s finish_inv [OF Cons.prems, of FAILED d ms] by (simp add: machine_fail_def)
  next
    case (SCancel d ms)
    then show ?thesis using s finish_inv [OF Cons.prems, of CANCELLED d ms] by (simp add: machine_cancel_def)
  qed
  from Cons.IH [OF this] show ?case by (simp add: s)
qed simp

lemma machine_init_inv: "machine_init job_id = Inr m \<Longrightarrow> machine_inv [] m \<and> job_id = PStr (mc_job m)"
  by (auto simp: machine_init_def machine_inv_def split: pyval.splits if_splits)

lemma machine_step_job: "mc_job (snd (machine_step x m)) = mc_job m"
  by (cases x) (auto simp: machine_start_def machine_fail_def machine_cancel_def machine_advance_def machine_finish_def Let_def
      split: sum.splits pyval.splits option.splits stage_output.splits)

lemma machine_run_job: "mc_job (machine_run xs m) = mc_job m"
  by (induction xs arbitrary: m) (simp_all add: machine_step_job)

text \<open>A job passes its stages in their order and ends once.  Whatever signals arrive, the outputs
  taken are those of a beginning of the six stages, one each; the job succeeds exactly when all six
  were taken, with what the last delivered, and otherwise ends without output; its only result
  names it; and no later signal changes that result or anything else of the machine.\<close>

theorem pipeline_order_and_single_result:
  assumes "machine_init job_id = Inr m0"
  shows "machine_inv (taken xs m0) (machine_run xs m0) \<and>
    (\<forall>r. mc_result (machine_run xs m0) = Some r \<longrightarrow>
       machine_run (xs @ ys) m0 = machine_run xs m0 \<and> job_id = PStr (pr_job r))"
proof (intro conjI allI impI)
  show i: "machine_inv (taken xs m0) (machine_run xs m0)"
    using machine_run_inv [of "[]" m0 xs] machine_init_inv [OF assms] by simp
  fix r
  assume r: "mc_result (machine_run xs m0) = Some r"
  have app: "machine_run (xs @ ys) m = machine_run ys (machine_run xs m)" for m by (induction xs arbitrary: m) simp_all
  show "machine_run (xs @ ys) m0 = machine_run xs m0"
    using i r machine_run_final [OF r, of ys] by (simp add: app machine_inv_def)
  show "job_id = PStr (pr_job r)"
    using i r machine_init_inv [OF assms] machine_run_job [of xs m0] by (simp add: machine_inv_def)
qed

definition demo_signals :: "signal list" where
  "demo_signals = [SStart, SAdvance (CollectedOutput (PStr ''x'')) (PInt 1), SAdvance (CollectedOutput (PStr ''y'')) (PInt 2),
     SFail (PStr ''late'') (PInt 3)]"

lemma demo_signals_run:
  "machine_init (PStr ''j1'') = Inr (projr (machine_init (PStr ''j1''))) \<and>
   mc_result (machine_run demo_signals (projr (machine_init (PStr ''j1'')))) =
     Some \<lparr>pr_job = ''j1'', pr_status = FAILED, pr_output = PDict [], pr_detail = ''late'', pr_at = 3\<rparr> \<and>
   taken demo_signals (projr (machine_init (PStr ''j1''))) = [CollectedOutput (PStr ''x'')]"
  by code_simp

theorem pipeline_order_and_single_result_witness:
  "machine_inv [CollectedOutput (PStr ''x'')] (machine_run demo_signals (projr (machine_init (PStr ''j1'')))) \<and>
   machine_run (demo_signals @ [SCancel (PStr ''again'') (PInt 9)]) (projr (machine_init (PStr ''j1''))) =
     machine_run demo_signals (projr (machine_init (PStr ''j1'')))"
  using pipeline_order_and_single_result [of "PStr ''j1''" "projr (machine_init (PStr ''j1''))" demo_signals
      "[SCancel (PStr ''again'') (PInt 9)]"] demo_signals_run
  by simp

section \<open>The policy gate\<close>

datatype policy_refusal = PAUSED | PROFILE_DISABLED | CONSENT_MISSING | ARTIFACT_NOT_READY

fun refusal_str :: "policy_refusal \<Rightarrow> string" where
  "refusal_str PAUSED = ''runtime-paused''"
| "refusal_str PROFILE_DISABLED = ''profile-disabled''"
| "refusal_str CONSENT_MISSING = ''consent-missing''"
| "refusal_str ARTIFACT_NOT_READY = ''artifact-not-ready''"

record decision =
  dc_admitted :: bool
  dc_refusal :: "policy_refusal option"
  dc_detail :: string

definition ADMITTED :: decision where
  "ADMITTED = \<lparr>dc_admitted = True, dc_refusal = None, dc_detail = []\<rparr>"

text \<open>
  What the four questions answer at a moment.  They are callbacks and may raise: a fault is the name
  of the exception's class and its text.
\<close>

type_synonym fault = "string \<times> string"

record policy_view =
  pw_paused :: "fault + bool"
  pw_enabled :: "string \<Rightarrow> fault + bool"
  pw_allows :: "string \<Rightarrow> string \<Rightarrow> fault + bool"
  pw_ready :: "string \<Rightarrow> fault + bool \<times> string"

record gate =
  ga_profile :: string
  ga_required :: "string list"

definition gate_init :: "string \<Rightarrow> string list \<Rightarrow> gate" where
  "gate_init profile_id required_permissions = \<lparr>ga_profile = profile_id, ga_required = sort required_permissions\<rparr>"

definition READINESS_STAGES :: "stage list" where "READINESS_STAGES = [Queued, Resolve]"

definition refusing :: "policy_refusal \<Rightarrow> string \<Rightarrow> fault + decision" where
  "refusing r detail = Inr \<lparr>dc_admitted = False, dc_refusal = Some r, dc_detail = detail\<rparr>"

fun ask_permissions :: "gate \<Rightarrow> policy_view \<Rightarrow> string list \<Rightarrow> (fault + decision) option" where
  "ask_permissions g v [] = None"
| "ask_permissions g v (q # qs) =
     (case pw_allows v (ga_profile g) q of
        Inl f \<Rightarrow> Some (Inl f)
      | Inr ok \<Rightarrow> if ok then ask_permissions g v qs
                  else Some (refusing CONSENT_MISSING (ga_profile g @ '' has no active grant for '' @ q)))"

definition evaluate :: "gate \<Rightarrow> policy_view \<Rightarrow> stage \<Rightarrow> fault + decision" where
  "evaluate g v stage =
     (case pw_paused v of
        Inl f \<Rightarrow> Inl f
      | Inr paused \<Rightarrow>
          if paused then refusing PAUSED ''the runtime is paused by policy''
          else (case pw_enabled v (ga_profile g) of
                  Inl f \<Rightarrow> Inl f
                | Inr enabled \<Rightarrow>
                    if \<not> enabled then refusing PROFILE_DISABLED (ga_profile g @ '' is disabled by policy'')
                    else (case ask_permissions g v (ga_required g) of
                            Some d \<Rightarrow> d
                          | None \<Rightarrow>
                              if stage \<in> set READINESS_STAGES
                              then (case pw_ready v (ga_profile g) of
                                      Inl f \<Rightarrow> Inl f
                                    | Inr (ready, reason) \<Rightarrow>
                                        if ready then Inr ADMITTED
                                        else refusing ARTIFACT_NOT_READY
                                          (if reason = [] then ga_profile g @ '' has no ready artifact'' else reason))
                              else Inr ADMITTED)))"

text \<open>\<^verbatim>\<open>require\<close>: the refusing decision is what is raised.\<close>

definition require_policy :: "gate \<Rightarrow> policy_view \<Rightarrow> stage \<Rightarrow> (fault + decision) + unit" where
  "require_policy g v stage =
     (case evaluate g v stage of
        Inl f \<Rightarrow> Inl (Inl f)
      | Inr d \<Rightarrow> if dc_admitted d then Inr () else Inl (Inr d))"

text \<open>What admission means at a stage.\<close>

definition admissible :: "gate \<Rightarrow> policy_view \<Rightarrow> stage \<Rightarrow> bool" where
  "admissible g v stage =
     (pw_paused v = Inr False \<and> pw_enabled v (ga_profile g) = Inr True \<and>
      list_all (\<lambda>q. pw_allows v (ga_profile g) q = Inr True) (ga_required g) \<and>
      (stage \<in> {Queued, Resolve} \<longrightarrow> (\<exists>reason. pw_ready v (ga_profile g) = Inr (True, reason))))"

lemma ask_permissions_None: "ask_permissions g v qs = None \<longleftrightarrow> list_all (\<lambda>q. pw_allows v (ga_profile g) q = Inr True) qs"
  by (induction qs) (auto split: sum.splits)

lemma ask_permissions_Some: "ask_permissions g v qs = Some (Inr d) \<Longrightarrow>
    \<not> dc_admitted d \<and> dc_refusal d = Some CONSENT_MISSING \<and> (\<exists>q \<in> set qs. pw_allows v (ga_profile g) q = Inr False)"
  by (induction qs) (auto simp: refusing_def split: sum.splits if_splits)

lemma require_policy_admits: "require_policy g v stage = Inr u \<longleftrightarrow> admissible g v stage"
proof (cases "ask_permissions g v (ga_required g)")
  case None
  then show ?thesis
    by (auto simp: require_policy_def evaluate_def admissible_def refusing_def ADMITTED_def READINESS_STAGES_def
        ask_permissions_None [symmetric] split: sum.splits prod.splits)
next
  case (Some r)
  then have "\<not> list_all (\<lambda>q. pw_allows v (ga_profile g) q = Inr True) (ga_required g)" by (simp flip: ask_permissions_None)
  then show ?thesis using Some ask_permissions_Some [of g v "ga_required g"]
    by (auto simp: require_policy_def evaluate_def admissible_def refusing_def split: sum.splits)
qed

end
