(* ===== verification/Trigger_Coordinator.thy ===== *)
theory Trigger_Coordinator
  imports Grant_Ledger Pipeline_Machine
begin

text \<open>
  \<^verbatim>\<open>src/omnitensor/plugins/triggers.py\<close>: manual, event and periodic triggers, queued within a bound
  and collected one at a time.  A collector is an object known by a number; what its coroutine came
  to is an argument of the operation that awaited it.  A trigger's kind is an enum by type; its id,
  payload and time are the Python values a caller supplies.  A payload is a snapshot: the code keeps
  the caller's dict itself.
\<close>

section \<open>Triggers\<close>

definition DEFAULT_MAX_TRIGGER_BYTES :: int where "DEFAULT_MAX_TRIGGER_BYTES = 256 * 1024"
definition DEFAULT_MAX_PENDING_TRIGGERS :: int where "DEFAULT_MAX_PENDING_TRIGGERS = 256"
definition MAX_CORRELATION_CHARS :: nat where "MAX_CORRELATION_CHARS = 128"

datatype trigger_kind = MANUAL | EVENT | PERIODIC
datatype disposition = ACCEPTED | COALESCED | QUEUE_FULL
datatype collection_status = COLLECTED | TIMED_OUT | COLLECTION_FAILED

record trigger =
  tg_plugin :: string
  tg_id :: pyval
  tg_kind :: trigger_kind
  tg_payload :: pyval
  tg_created :: pyval

record receipt =
  rc_trigger :: trigger
  rc_disposition :: disposition
  rc_pending :: nat

record collection_outcome =
  co_trigger :: trigger
  co_status :: collection_status
  co_output :: "pyval option"
  co_detail :: string

record registration =
  pr_interval :: int
  pr_next_due :: int
  pr_payload :: pyval
  pr_sequence :: nat

type_synonym pending_key = "string \<times> trigger_kind \<times> pyval"

record coordinator =
  tc_floats :: float_text
  tc_max_bytes :: nat
  tc_max_pending :: nat
  tc_collectors :: "nat dict"
  tc_pending :: "trigger list"
  tc_keys :: "pending_key set"
  tc_periodic :: "registration dict"

definition coordinator_init :: "float_text \<Rightarrow> pyval \<Rightarrow> pyval \<Rightarrow> pyval \<Rightarrow> coordinator res" where
  "coordinator_init F max_trigger_bytes max_pending collection_timeout_seconds =
     bind_res (positive_bound max_trigger_bytes) (\<lambda>mb.
     bind_res (positive_bound max_pending) (\<lambda>mp.
     bind_res (case collection_timeout_seconds of
                 PInt n \<Rightarrow> if n \<le> 0 then Inl ValueError else Inr ()
               | PFloat (Fin q) \<Rightarrow> if q \<le> 0 then Inl ValueError else Inr ()
               | PFloat PosInf \<Rightarrow> Inr () | PFloat NaN \<Rightarrow> Inr ()
               | _ \<Rightarrow> Inl ValueError) (\<lambda>_.
       Inr \<lparr>tc_floats = F, tc_max_bytes = mb, tc_max_pending = mp, tc_collectors = [], tc_pending = [], tc_keys = {}, tc_periodic = []\<rparr>)))"

definition trigger_key :: "trigger \<Rightarrow> pending_key" where
  "trigger_key t = (tg_plugin t, tg_kind t, tg_id t)"

definition validate_trigger_plugin :: "string \<Rightarrow> unit res" where
  "validate_trigger_plugin p = refuse_unless (valid_plugin_id p) ''invalid-plugin-id'' ''invalid plugin id''"

definition validate_correlation_id :: "pyval \<Rightarrow> unit res" where
  "validate_correlation_id v =
     (case v of
        PStr s \<Rightarrow> refuse_unless (s \<noteq> [] \<and> length s \<le> MAX_CORRELATION_CHARS) ''invalid-trigger-id'' ''trigger id must contain 1-128 characters''
      | _ \<Rightarrow> Inl (Stable ''invalid-trigger-id'' ''trigger id must contain 1-128 characters''))"

text \<open>\<^verbatim>\<open>_validate_non_negative_integer\<close>, a plain \<^verbatim>\<open>ValueError\<close> here.\<close>

definition moment_ms :: "pyval \<Rightarrow> int res" where
  "moment_ms v = (case v of PInt n \<Rightarrow> if n < 0 then Inl ValueError else Inr n | _ \<Rightarrow> Inl ValueError)"

definition validate_payload :: "coordinator \<Rightarrow> pyval \<Rightarrow> unit res" where
  "validate_payload tc v =
     (if \<not> is_dict v then Inl (Stable ''invalid-payload'' ''payload must be a JSON object'')
      else if \<not> dumpable v then Inl (Stable ''invalid-payload'' ''payload must contain JSON values'')
      else (let bytes = length (utf8 (json_text (tc_floats tc) (canon v)))
            in refuse_unless (bytes \<le> tc_max_bytes tc) ''payload-too-large''
                 (''payload is '' @ nat_str bytes @ '' bytes; limit is '' @ nat_str (tc_max_bytes tc))))"

definition require_collector :: "coordinator \<Rightarrow> string \<Rightarrow> nat res" where
  "require_collector tc p =
     bind_res (validate_trigger_plugin p) (\<lambda>_. case dget (tc_collectors tc) p of Some c \<Rightarrow> Inr c | None \<Rightarrow> Inl KeyError)"

section \<open>Operations\<close>

definition register_collector :: "string \<Rightarrow> nat \<Rightarrow> coordinator \<Rightarrow> unit res \<times> coordinator" where
  "register_collector p collector tc =
     (case validate_trigger_plugin p of
        Inl e \<Rightarrow> (Inl e, tc)
      | Inr _ \<Rightarrow> if dhas (tc_collectors tc) p then (Inl ValueError, tc)
                 else (Inr (), tc\<lparr>tc_collectors := dset p collector (tc_collectors tc)\<rparr>))"

definition register_periodic :: "string \<Rightarrow> pyval \<Rightarrow> pyval \<Rightarrow> pyval \<Rightarrow> coordinator \<Rightarrow> unit res \<times> coordinator" where
  "register_periodic p interval_ms first_due_ms payload tc =
     (case bind_res (require_collector tc p) (\<lambda>_.
           bind_res (moment_ms first_due_ms) (\<lambda>due.
           bind_res (case interval_ms of PInt n \<Rightarrow> if n < 1 then Inl ValueError else Inr n | _ \<Rightarrow> Inl ValueError) (\<lambda>interval.
           bind_res (validate_payload tc payload) (\<lambda>_.
             if dhas (tc_periodic tc) p then Inl ValueError else Inr (due, interval))))) of
        Inl e \<Rightarrow> (Inl e, tc)
      | Inr (due, interval) \<Rightarrow>
          (Inr (), tc\<lparr>tc_periodic := dset p \<lparr>pr_interval = interval, pr_next_due = due, pr_payload = payload, pr_sequence = 0\<rparr>
                                       (tc_periodic tc)\<rparr>))"

definition check_trigger :: "coordinator \<Rightarrow> trigger \<Rightarrow> unit res" where
  "check_trigger tc t =
     bind_res (require_collector tc (tg_plugin t)) (\<lambda>_.
     bind_res (validate_correlation_id (tg_id t)) (\<lambda>_.
     bind_res (moment_ms (tg_created t)) (\<lambda>_. validate_payload tc (tg_payload t))))"

definition submit_trigger :: "trigger \<Rightarrow> coordinator \<Rightarrow> receipt res \<times> coordinator" where
  "submit_trigger t tc =
     (case check_trigger tc t of
        Inl e \<Rightarrow> (Inl e, tc)
      | Inr _ \<Rightarrow>
          if trigger_key t \<in> tc_keys tc
          then (Inr \<lparr>rc_trigger = t, rc_disposition = COALESCED, rc_pending = length (tc_pending tc)\<rparr>, tc)
          else if tc_max_pending tc \<le> length (tc_pending tc)
          then (Inr \<lparr>rc_trigger = t, rc_disposition = QUEUE_FULL, rc_pending = length (tc_pending tc)\<rparr>, tc)
          else (Inr \<lparr>rc_trigger = t, rc_disposition = ACCEPTED, rc_pending = Suc (length (tc_pending tc))\<rparr>,
                tc\<lparr>tc_pending := tc_pending tc @ [t], tc_keys := insert (trigger_key t) (tc_keys tc)\<rparr>))"

definition submit_manual :: "string \<Rightarrow> pyval \<Rightarrow> pyval \<Rightarrow> pyval \<Rightarrow> coordinator \<Rightarrow> receipt res \<times> coordinator" where
  "submit_manual p i payload created_at_ms tc =
     submit_trigger \<lparr>tg_plugin = p, tg_id = i, tg_kind = MANUAL, tg_payload = payload, tg_created = created_at_ms\<rparr> tc"

definition submit_event :: "string \<Rightarrow> pyval \<Rightarrow> pyval \<Rightarrow> pyval \<Rightarrow> coordinator \<Rightarrow> receipt res \<times> coordinator" where
  "submit_event p i payload created_at_ms tc =
     submit_trigger \<lparr>tg_plugin = p, tg_id = i, tg_kind = EVENT, tg_payload = payload, tg_created = created_at_ms\<rparr> tc"

definition periodic_trigger :: "string \<Rightarrow> registration \<Rightarrow> int \<Rightarrow> trigger" where
  "periodic_trigger p r now_ms =
     \<lparr>tg_plugin = p, tg_id = PStr (''periodic-'' @ nat_str (pr_sequence r)), tg_kind = PERIODIC, tg_payload = pr_payload r,
      tg_created = PInt now_ms\<rparr>"

text \<open>The sorted registrations, each as it is when its turn comes; a refused submission ends the tick.\<close>

fun tick_loop :: "int \<Rightarrow> string list \<Rightarrow> coordinator \<Rightarrow> receipt list res \<times> coordinator" where
  "tick_loop now [] tc = (Inr [], tc)"
| "tick_loop now (p # ps) tc =
     (case dget (tc_periodic tc) p of
        None \<Rightarrow> (Inl KeyError, tc)
      | Some r \<Rightarrow>
          if now < pr_next_due r then tick_loop now ps tc
          else (let r1 = r\<lparr>pr_sequence := Suc (pr_sequence r)\<rparr>;
                    tc1 = tc\<lparr>tc_periodic := dset p r1 (tc_periodic tc)\<rparr>
                in case submit_trigger (periodic_trigger p r1 now) tc1 of
                     (Inl e, tc2) \<Rightarrow> (Inl e, tc2)
                   | (Inr rc, tc2) \<Rightarrow>
                       (case tick_loop now ps (tc2\<lparr>tc_periodic := dset p (r1\<lparr>pr_next_due := now + pr_interval r\<rparr>) (tc_periodic tc2)\<rparr>) of
                          (rs, tc3) \<Rightarrow> (map_res ((#) rc) rs, tc3))))"

definition trigger_tick :: "pyval \<Rightarrow> coordinator \<Rightarrow> receipt list res \<times> coordinator" where
  "trigger_tick now_ms tc =
     (case moment_ms now_ms of
        Inl e \<Rightarrow> (Inl e, tc)
      | Inr now \<Rightarrow> tick_loop now (sort (dkeys (tc_periodic tc))) tc)"

text \<open>\<^verbatim>\<open>collect_next\<close> up to the call of the collector, and what it makes of how that ended.\<close>

definition collect_next :: "coordinator \<Rightarrow> (trigger \<times> nat) option res \<times> coordinator" where
  "collect_next tc =
     (case tc_pending tc of
        [] \<Rightarrow> (Inr None, tc)
      | t # ts \<Rightarrow>
          (let tc1 = tc\<lparr>tc_pending := ts\<rparr>
           in if trigger_key t \<notin> tc_keys tc then (Inl KeyError, tc1)
              else (let tc2 = tc1\<lparr>tc_keys := tc_keys tc - {trigger_key t}\<rparr>
                    in case dget (tc_collectors tc) (tg_plugin t) of
                         None \<Rightarrow> (Inl KeyError, tc2)
                       | Some c \<Rightarrow> (Inr (Some (t, c)), tc2))))"

datatype awaited = AwaitTimeout | AwaitRaised string | AwaitReturned stage_output

definition collection_ended :: "coordinator \<Rightarrow> trigger \<Rightarrow> awaited \<Rightarrow> collection_outcome" where
  "collection_ended tc t a =
     (let failed = (\<lambda>detail. \<lparr>co_trigger = t, co_status = COLLECTION_FAILED, co_output = None, co_detail = detail\<rparr>) in
      case a of
        AwaitTimeout \<Rightarrow> \<lparr>co_trigger = t, co_status = TIMED_OUT, co_output = None, co_detail = ''collection timed out''\<rparr>
      | AwaitRaised name \<Rightarrow> failed (''collection failed: '' @ name)
      | AwaitReturned (CollectedOutput payload) \<Rightarrow>
          (case validate_payload tc payload of
             Inl (Stable code detail) \<Rightarrow> failed detail
           | Inl _ \<Rightarrow> failed []
           | Inr _ \<Rightarrow> \<lparr>co_trigger = t, co_status = COLLECTED, co_output = Some payload, co_detail = []\<rparr>)
      | AwaitReturned _ \<Rightarrow> failed ''collector returned an invalid output'')"

section \<open>Every sequence of operations\<close>

inductive coordinator_reachable :: "coordinator \<Rightarrow> bool" where
  init: "coordinator_init F mb mp ts = Inr tc \<Longrightarrow> coordinator_reachable tc"
| collector: "coordinator_reachable tc \<Longrightarrow> coordinator_reachable (snd (register_collector p c tc))"
| periodic: "coordinator_reachable tc \<Longrightarrow> coordinator_reachable (snd (register_periodic p i d v tc))"
| submit: "coordinator_reachable tc \<Longrightarrow> coordinator_reachable (snd (submit_trigger t tc))"
| tick: "coordinator_reachable tc \<Longrightarrow> coordinator_reachable (snd (trigger_tick now tc))"
| collect: "coordinator_reachable tc \<Longrightarrow> coordinator_reachable (snd (collect_next tc))"

definition trigger_ok :: "coordinator \<Rightarrow> trigger \<Rightarrow> bool" where
  "trigger_ok tc t =
     (is_ok (require_collector tc (tg_plugin t)) \<and> is_ok (validate_correlation_id (tg_id t)) \<and>
      is_ok (moment_ms (tg_created t)) \<and> is_ok (validate_payload tc (tg_payload t)))"

definition coordinator_inv :: "coordinator \<Rightarrow> bool" where
  "coordinator_inv tc \<longleftrightarrow>
     length (tc_pending tc) \<le> tc_max_pending tc \<and> distinct (map trigger_key (tc_pending tc)) \<and>
     tc_keys tc = set (map trigger_key (tc_pending tc)) \<and> list_all (trigger_ok tc) (tc_pending tc) \<and>
     dict_ok (tc_periodic tc) \<and>
     (\<forall>p r. dget (tc_periodic tc) p = Some r \<longrightarrow>
        is_ok (require_collector tc p) \<and> is_ok (validate_payload tc (pr_payload r)) \<and> 1 \<le> pr_interval r)"

text \<open>What validation depends on.\<close>

definition same_limits :: "coordinator \<Rightarrow> coordinator \<Rightarrow> bool" where
  "same_limits tc tc' \<longleftrightarrow> tc_floats tc' = tc_floats tc \<and> tc_max_bytes tc' = tc_max_bytes tc \<and> tc_max_pending tc' = tc_max_pending tc \<and>
     (\<forall>p. dhas (tc_collectors tc) p \<longrightarrow> dhas (tc_collectors tc') p)"

lemma same_limits_ok:
  assumes "same_limits tc tc'"
  shows "validate_payload tc' v = validate_payload tc v" "is_ok (require_collector tc p) \<Longrightarrow> is_ok (require_collector tc' p)"
    "trigger_ok tc t \<Longrightarrow> trigger_ok tc' t"
proof -
  show v: "validate_payload tc' v = validate_payload tc v" for v using assms by (simp add: validate_payload_def same_limits_def Let_def)
  show r: "is_ok (require_collector tc p) \<Longrightarrow> is_ok (require_collector tc' p)" for p
    using assms by (auto simp: require_collector_def same_limits_def is_ok_iff res_simps dhas_iff split: option.splits)
  show "trigger_ok tc t \<Longrightarrow> trigger_ok tc' t" using v r by (simp add: trigger_ok_def)
qed

lemma is_ok_then: "is_ok (bind_res x (\<lambda>_. y)) \<longleftrightarrow> is_ok x \<and> is_ok y"
  by (cases x) simp_all

lemma trigger_ok_check: "trigger_ok tc t = is_ok (check_trigger tc t)"
  by (simp add: trigger_ok_def check_trigger_def is_ok_then)

text \<open>One submission, by its answer.\<close>

lemma submit_cases:
  assumes "submit_trigger t tc = (r, tc')"
  obtains e where "r = Inl e" "tc' = tc" "\<not> trigger_ok tc t"
  | "r = Inr \<lparr>rc_trigger = t, rc_disposition = COALESCED, rc_pending = length (tc_pending tc)\<rparr>" "tc' = tc"
      "trigger_ok tc t" "trigger_key t \<in> tc_keys tc"
  | "r = Inr \<lparr>rc_trigger = t, rc_disposition = QUEUE_FULL, rc_pending = length (tc_pending tc)\<rparr>" "tc' = tc"
      "trigger_ok tc t" "trigger_key t \<notin> tc_keys tc" "tc_max_pending tc \<le> length (tc_pending tc)"
  | "r = Inr \<lparr>rc_trigger = t, rc_disposition = ACCEPTED, rc_pending = Suc (length (tc_pending tc))\<rparr>"
      "tc' = tc\<lparr>tc_pending := tc_pending tc @ [t], tc_keys := insert (trigger_key t) (tc_keys tc)\<rparr>"
      "trigger_ok tc t" "trigger_key t \<notin> tc_keys tc" "length (tc_pending tc) < tc_max_pending tc"
proof (cases "check_trigger tc t")
  case (Inl e)
  then have "\<not> trigger_ok tc t" by (simp add: trigger_ok_check)
  then show ?thesis using assms Inl by (intro that(1)) (auto simp: submit_trigger_def)
next
  case (Inr u)
  then have ok: "trigger_ok tc t" by (simp add: trigger_ok_check)
  note d = assms [unfolded submit_trigger_def Inr, simplified]
  show ?thesis
  proof (cases "trigger_key t \<in> tc_keys tc")
    case True
    then show ?thesis using d ok by (intro that(2)) auto
  next
    case new: False
    show ?thesis
    proof (cases "tc_max_pending tc \<le> length (tc_pending tc)")
      case True
      then show ?thesis using d ok new by (intro that(3)) auto
    next
      case False
      then show ?thesis using d ok new by (intro that(4)) auto
    qed
  qed
qed

lemma submit_trigger_inv:
  assumes "coordinator_inv tc" and "submit_trigger t tc = (r, tc')"
  shows "coordinator_inv tc'" and "same_limits tc tc'" and "tc_periodic tc' = tc_periodic tc" and "tc_collectors tc' = tc_collectors tc"
proof -
  have "same_limits tc tc' \<and> tc_periodic tc' = tc_periodic tc \<and> tc_collectors tc' = tc_collectors tc"
    using assms(2) by (rule submit_cases) (simp_all add: same_limits_def)
  then show s: "same_limits tc tc'" and p: "tc_periodic tc' = tc_periodic tc" "tc_collectors tc' = tc_collectors tc" by blast+
  have l: "list_all (trigger_ok tc') ts" if "list_all (trigger_ok tc) ts" for ts
    using that same_limits_ok(3) [OF s] by (auto simp: list_all_iff)
  show "coordinator_inv tc'"
    using assms(2)
  proof (cases rule: submit_cases)
    case 4
    have "trigger_ok tc' t" using 4(3) same_limits_ok(3) [OF s] by blast
    have per: "is_ok (require_collector tc' q) \<and> is_ok (validate_payload tc' (pr_payload x)) \<and> 1 \<le> pr_interval x"
      if "dget (tc_periodic tc') q = Some x" for q x
    proof -
      have "is_ok (require_collector tc q)" "is_ok (validate_payload tc (pr_payload x))" "1 \<le> pr_interval x"
        using assms(1) that unfolding coordinator_inv_def p by blast+
      then show ?thesis by (simp only: same_limits_ok(1,2) [OF s] simp_thms)
    qed
    have k: "tc_keys tc = set (map trigger_key (tc_pending tc))" "distinct (map trigger_key (tc_pending tc))"
      "list_all (trigger_ok tc) (tc_pending tc)" "dict_ok (tc_periodic tc)" using assms(1) by (simp_all add: coordinator_inv_def)
    have "list_all (trigger_ok tc') (tc_pending tc @ [t])" using \<open>trigger_ok tc' t\<close> l [OF k(3)] by simp
    then show ?thesis using 4(4,5) k per p unfolding coordinator_inv_def 4(2) by simp
  qed (use assms(1) in simp_all)
qed

lemma periodic_inv:
  assumes "coordinator_inv tc" and "is_ok (require_collector tc p)" and "is_ok (validate_payload tc (pr_payload r))" and "1 \<le> pr_interval r"
  shows "coordinator_inv (tc\<lparr>tc_periodic := dset p r (tc_periodic tc)\<rparr>)" and "same_limits tc (tc\<lparr>tc_periodic := dset p r (tc_periodic tc)\<rparr>)"
proof -
  let ?tc = "tc\<lparr>tc_periodic := dset p r (tc_periodic tc)\<rparr>"
  show s: "same_limits tc ?tc" by (simp add: same_limits_def)
  have "is_ok (require_collector ?tc q) \<and> is_ok (validate_payload ?tc (pr_payload x)) \<and> 1 \<le> pr_interval x"
    if "dget (tc_periodic ?tc) q = Some x" for q x
  proof -
    have "is_ok (require_collector tc q) \<and> is_ok (validate_payload tc (pr_payload x)) \<and> 1 \<le> pr_interval x"
      using that assms unfolding coordinator_inv_def by (simp split: if_splits)
    then show ?thesis by (simp only: same_limits_ok(1,2) [OF s] simp_thms)
  qed
  moreover have "list_all (trigger_ok ?tc) (tc_pending tc)"
    using assms(1) same_limits_ok(3) [OF s] by (auto simp: coordinator_inv_def list_all_iff)
  ultimately show "coordinator_inv ?tc" using assms(1) by (simp add: coordinator_inv_def)
qed

lemma length_trigger_no: "n < 10 ^ Suc k \<Longrightarrow> length (nat_str n) \<le> Suc k"
proof (induction k arbitrary: n)
  case 0
  then show ?case by (subst nat_str.simps) simp
next
  case (Suc k)
  have "n div 10 < 10 ^ Suc k" using Suc.prems by (simp add: less_mult_imp_div_less mult.commute)
  from Suc.IH [OF this] show ?case by (subst nat_str.simps) simp
qed

text \<open>A sequence number of fewer than 119 digits makes an id within its bound.\<close>

lemma periodic_trigger_ok:
  assumes "is_ok (require_collector tc p)" and "is_ok (validate_payload tc (pr_payload r))" and "pr_sequence r < 10 ^ 118" and "0 \<le> now"
  shows "trigger_ok tc (periodic_trigger p r now)"
proof -
  have "length (nat_str (pr_sequence r)) \<le> 118" using length_trigger_no [of "pr_sequence r" 117] assms(3) by simp
  then have "is_ok (validate_correlation_id (tg_id (periodic_trigger p r now)))"
    by (simp add: validate_correlation_id_def periodic_trigger_def MAX_CORRELATION_CHARS_def is_ok_iff)
  then show ?thesis using assms by (simp add: trigger_ok_def periodic_trigger_def moment_ms_def)
qed

definition due :: "coordinator \<Rightarrow> int \<Rightarrow> string \<Rightarrow> bool" where
  "due tc now p = (case dget (tc_periodic tc) p of Some r \<Rightarrow> pr_next_due r \<le> now | None \<Rightarrow> False)"

text \<open>A source that was due has its next trigger one interval from now.\<close>

definition rescheduled :: "int \<Rightarrow> registration \<Rightarrow> registration" where
  "rescheduled now r = r\<lparr>pr_sequence := Suc (pr_sequence r), pr_next_due := now + pr_interval r\<rparr>"

lemma dset_dset: "dset k v (dset k w d) = dset k v d"
  by (induction d) (auto simp: dset_def)

lemma tick_loop_exact:
  assumes "coordinator_inv tc" and "0 \<le> now" and "distinct ps" and "\<forall>p \<in> set ps. \<exists>r. dget (tc_periodic tc) p = Some r \<and> Suc (pr_sequence r) < 10 ^ 118"
    and "tick_loop now ps tc = (res, tc')"
  shows "coordinator_inv tc' \<and> same_limits tc tc' \<and>
    (\<exists>rs. res = Inr rs \<and> map (\<lambda>rc. tg_plugin (rc_trigger rc)) rs = filter (due tc now) ps) \<and>
    (\<forall>p. dget (tc_periodic tc') p = (if p \<in> set ps \<and> due tc now p then map_option (rescheduled now) (dget (tc_periodic tc) p)
                                     else dget (tc_periodic tc) p))"
  using assms
proof (induction ps arbitrary: tc res tc')
  case Nil
  then show ?case by (simp add: same_limits_def)
next
  case (Cons p ps)
  obtain r where r: "dget (tc_periodic tc) p = Some r" "Suc (pr_sequence r) < 10 ^ 118" using Cons.prems(4) by auto
  show ?case
  proof (cases "now < pr_next_due r")
    case True
    then have "tick_loop now ps tc = (res, tc')" using Cons.prems(5) r(1) by simp
    from Cons.IH [OF Cons.prems(1,2) _ _ this] Cons.prems(3,4) show ?thesis
      using True r(1) by (auto simp: due_def)
  next
    case False
    let ?r1 = "r\<lparr>pr_sequence := Suc (pr_sequence r)\<rparr>"
    let ?tc1 = "tc\<lparr>tc_periodic := dset p ?r1 (tc_periodic tc)\<rparr>"
    have ok: "is_ok (require_collector tc p)" "is_ok (validate_payload tc (pr_payload r))" "1 \<le> pr_interval r"
      using Cons.prems(1) r(1) unfolding coordinator_inv_def by blast+
    have i1: "coordinator_inv ?tc1" "same_limits tc ?tc1" by (rule periodic_inv; use Cons.prems(1) ok in simp)+
    have "trigger_ok tc (periodic_trigger p ?r1 now)" by (rule periodic_trigger_ok) (use ok r(2) Cons.prems(2) in simp_all)
    then have tok: "trigger_ok ?tc1 (periodic_trigger p ?r1 now)" using same_limits_ok(3) [OF i1(2)] by blast
    obtain a tc2 where sb: "submit_trigger (periodic_trigger p ?r1 now) ?tc1 = (a, tc2)" by fastforce
    have rc: "\<exists>rc. a = Inr rc \<and> tg_plugin (rc_trigger rc) = p"
      using sb by (rule submit_cases) (use tok in \<open>simp_all add: periodic_trigger_def\<close>)
    then obtain rc where rc: "a = Inr rc" "tg_plugin (rc_trigger rc) = p" by blast
    note i2 = submit_trigger_inv [OF i1(1) sb]
    let ?tc3 = "tc2\<lparr>tc_periodic := dset p (rescheduled now r) (tc_periodic tc2)\<rparr>"
    have ok2: "is_ok (require_collector tc2 p)" "is_ok (validate_payload tc2 (pr_payload r))"
      using ok(1,2) same_limits_ok(1,2) [OF i1(2)] same_limits_ok(1,2) [OF i2(2)] by simp_all
    have i3: "coordinator_inv ?tc3" "same_limits tc2 ?tc3"
      by (rule periodic_inv; use i2(1) ok2 ok(3) in \<open>simp add: rescheduled_def\<close>)+
    have per: "tc_periodic ?tc3 = dset p (rescheduled now r) (tc_periodic tc)" by (simp add: i2(3) dset_dset)
    obtain rs tc4 where lp: "tick_loop now ps ?tc3 = (rs, tc4)" by fastforce
    have eq: "res = map_res ((#) rc) rs" "tc' = tc4"
      using Cons.prems(5) r(1) False sb rc(1) lp by (simp_all add: Let_def rescheduled_def)
    have pre: "\<forall>q \<in> set ps. \<exists>x. dget (tc_periodic ?tc3) q = Some x \<and> Suc (pr_sequence x) < 10 ^ 118"
      using Cons.prems(3,4) by (auto simp: per)
    have d: "due ?tc3 now q = due tc now q" if "q \<noteq> p" for q using that by (simp add: due_def per)
    have f: "filter (due ?tc3 now) ps = filter (due tc now) ps"
    proof (rule filter_cong)
      fix q assume "q \<in> set ps"
      then have "q \<noteq> p" using Cons.prems(3) by auto
      then show "due ?tc3 now q = due tc now q" by (rule d)
    qed simp
    from Cons.IH [OF i3(1) Cons.prems(2) _ pre lp] Cons.prems(3)
    have ih: "coordinator_inv tc4" "same_limits ?tc3 tc4"
      "\<exists>xs. rs = Inr xs \<and> map (\<lambda>rc. tg_plugin (rc_trigger rc)) xs = filter (due tc now) ps"
      "\<And>q. dget (tc_periodic tc4) q = (if q \<in> set ps \<and> due ?tc3 now q then map_option (rescheduled now) (dget (tc_periodic ?tc3) q)
         else dget (tc_periodic ?tc3) q)" by (simp_all only: f distinct.simps simp_thms)
    have pd: "due tc now p" using False r(1) by (simp add: due_def)
    have "same_limits tc tc4" using i1(2) i2(2) i3(2) ih(2) by (simp add: same_limits_def)
    moreover have "dget (tc_periodic tc4) q = (if q \<in> set (p # ps) \<and> due tc now q then map_option (rescheduled now) (dget (tc_periodic tc) q)
         else dget (tc_periodic tc) q)" for q
      using ih(4) [of q] d [of q] pd r(1) Cons.prems(3) by (cases "q = p") (simp_all add: per)
    ultimately show ?thesis using ih(1,3) eq pd rc(2) by auto
  qed
qed

lemma tick_loop_inv: "coordinator_inv tc \<Longrightarrow> coordinator_inv (snd (tick_loop now ps tc))"
proof (induction now ps tc rule: tick_loop.induct)
  case (2 now p ps tc)
  show ?case
  proof (cases "dget (tc_periodic tc) p")
    case (Some r)
    show ?thesis
    proof (cases "now < pr_next_due r")
      case True
      then show ?thesis using 2 Some by simp
    next
      case False
      let ?r1 = "r\<lparr>pr_sequence := Suc (pr_sequence r)\<rparr>"
      let ?tc1 = "tc\<lparr>tc_periodic := dset p ?r1 (tc_periodic tc)\<rparr>"
      have ok: "is_ok (require_collector tc p)" "is_ok (validate_payload tc (pr_payload r))" "1 \<le> pr_interval r"
        using 2(3) Some unfolding coordinator_inv_def by blast+
      have i1: "coordinator_inv ?tc1" "same_limits tc ?tc1" by (rule periodic_inv; use 2(3) ok in simp)+
      obtain a tc2 where sb: "submit_trigger (periodic_trigger p ?r1 now) ?tc1 = (a, tc2)" by fastforce
      note i2 = submit_trigger_inv [OF i1(1) sb]
      show ?thesis
      proof (cases a)
        case (Inl e)
        then show ?thesis using Some False sb i2(1) by (simp add: Let_def)
      next
        case (Inr rc)
        have i3: "coordinator_inv (tc2\<lparr>tc_periodic := dset p (?r1\<lparr>pr_next_due := now + pr_interval r\<rparr>) (tc_periodic tc2)\<rparr>)"
          by (rule periodic_inv(1) [OF i2(1)])
             (use ok same_limits_ok(1,2) [OF i1(2)] same_limits_ok(1,2) [OF i2(2)] in simp_all)
        from "2.IH"(2) [OF Some False refl refl sb [symmetric] Inr i3]
        show ?thesis using Some False sb Inr by (simp add: Let_def case_prod_unfold)
      qed
    qed
  qed (use 2(3) in simp)
qed simp

text \<open>The oldest trigger, and nothing else, leaves the queue.\<close>

lemma collect_next_exact:
  assumes "coordinator_inv tc"
  shows "coordinator_inv (snd (collect_next tc))"
    and "tc_pending tc = [] \<Longrightarrow> collect_next tc = (Inr None, tc)"
    and "tc_pending tc = t # ts \<Longrightarrow>
      \<exists>c. dget (tc_collectors tc) (tg_plugin t) = Some c \<and>
          collect_next tc = (Inr (Some (t, c)), tc\<lparr>tc_pending := ts, tc_keys := tc_keys tc - {trigger_key t}\<rparr>)"
proof -
  show e: "tc_pending tc = [] \<Longrightarrow> collect_next tc = (Inr None, tc)" by (simp add: collect_next_def)
  show c: "\<exists>c. dget (tc_collectors tc) (tg_plugin t) = Some c \<and>
      collect_next tc = (Inr (Some (t, c)), tc\<lparr>tc_pending := ts, tc_keys := tc_keys tc - {trigger_key t}\<rparr>)"
    if "tc_pending tc = t # ts" for t ts
  proof -
    have "trigger_key t \<in> tc_keys tc" "trigger_ok tc t" using assms that by (simp_all add: coordinator_inv_def)
    then show ?thesis using that
      by (auto simp: collect_next_def trigger_ok_def require_collector_def is_ok_iff res_simps split: option.splits)
  qed
  show "coordinator_inv (snd (collect_next tc))"
  proof (cases "tc_pending tc")
    case Nil
    then show ?thesis using e assms by simp
  next
    case (Cons t ts)
    let ?tc = "tc\<lparr>tc_pending := ts, tc_keys := tc_keys tc - {trigger_key t}\<rparr>"
    have s: "same_limits tc ?tc" by (simp add: same_limits_def)
    have "list_all (trigger_ok ?tc) ts"
      using assms Cons same_limits_ok(3) [OF s] by (auto simp: coordinator_inv_def list_all_iff)
    moreover have "tc_keys tc - {trigger_key t} = set (map trigger_key ts)"
      using assms Cons by (auto simp: coordinator_inv_def)
    moreover have "is_ok (require_collector ?tc p) \<and> is_ok (validate_payload ?tc (pr_payload r)) \<and> 1 \<le> pr_interval r"
      if "dget (tc_periodic tc) p = Some r" for p r
    proof -
      have "is_ok (require_collector tc p) \<and> is_ok (validate_payload tc (pr_payload r)) \<and> 1 \<le> pr_interval r"
        using assms that unfolding coordinator_inv_def by blast
      then show ?thesis by (simp only: same_limits_ok(1,2) [OF s] simp_thms)
    qed
    ultimately have "coordinator_inv ?tc" using assms Cons by (simp add: coordinator_inv_def)
    then show ?thesis using c [OF Cons] by auto
  qed
qed

lemma coordinator_reachable_inv: "coordinator_reachable tc \<Longrightarrow> coordinator_inv tc"
proof (induction rule: coordinator_reachable.induct)
  case (init F mb mp ts tc)
  then show ?case by (auto simp: coordinator_init_def coordinator_inv_def res_simps)
next
  case (collector tc p c)
  show ?case
  proof (cases "\<exists>u. validate_trigger_plugin p = Inr u \<and> \<not> dhas (tc_collectors tc) p")
    case True
    let ?tc = "tc\<lparr>tc_collectors := dset p c (tc_collectors tc)\<rparr>"
    have s: "same_limits tc ?tc" by (simp add: same_limits_def)
    have "list_all (trigger_ok ?tc) (tc_pending tc)"
      using collector(2) same_limits_ok(3) [OF s] by (auto simp: coordinator_inv_def list_all_iff)
    moreover have "is_ok (require_collector ?tc q) \<and> is_ok (validate_payload ?tc (pr_payload r)) \<and> 1 \<le> pr_interval r"
      if "dget (tc_periodic tc) q = Some r" for q r
    proof -
      have "is_ok (require_collector tc q) \<and> is_ok (validate_payload tc (pr_payload r)) \<and> 1 \<le> pr_interval r"
        using collector(2) that unfolding coordinator_inv_def by blast
      then show ?thesis by (simp only: same_limits_ok(1,2) [OF s] simp_thms)
    qed
    ultimately show ?thesis using collector(2) True by (simp add: coordinator_inv_def register_collector_def)
  next
    case False
    then show ?thesis using collector(2) by (auto simp: register_collector_def split: sum.splits)
  qed
next
  case (periodic tc p i d v)
  then show ?case
    by (auto simp: register_periodic_def is_ok_iff res_simps split: sum.splits pyval.splits if_splits intro!: periodic_inv(1))
next
  case (submit tc t)
  then show ?case using submit_trigger_inv(1) by (metis prod.collapse)
next
  case (tick tc now)
  then show ?case by (auto simp: trigger_tick_def tick_loop_inv split: sum.splits)
next
  case (collect tc)
  then show ?case by (simp add: collect_next_exact(1))
qed


text \<open>A tick at a valid time never raises and submits one trigger for each source that is due and
  none for any other, in the order of their plugin ids; each of those, whether its trigger was
  accepted or not, is next due one interval from now, and no other registration changes.  (An id of
  a periodic trigger stays within its length until a source has fired \<open>10 ^ 118\<close> times.)\<close>

theorem periodic_tick_exact:
  assumes "coordinator_reachable tc" and "0 \<le> now"
    and "\<forall>p r. dget (tc_periodic tc) p = Some r \<longrightarrow> Suc (pr_sequence r) < 10 ^ 118"
    and "trigger_tick (PInt now) tc = (res, tc')"
  shows "(\<exists>rs. res = Inr rs \<and> map (\<lambda>rc. tg_plugin (rc_trigger rc)) rs = filter (due tc now) (sort (dkeys (tc_periodic tc)))) \<and>
    (\<forall>p. dget (tc_periodic tc') p =
       (if due tc now p then map_option (rescheduled now) (dget (tc_periodic tc) p) else dget (tc_periodic tc) p))"
proof -
  have inv: "coordinator_inv tc" by (rule coordinator_reachable_inv [OF assms(1)])
  then have d: "distinct (sort (dkeys (tc_periodic tc)))" by (simp add: coordinator_inv_def dict_ok_def)
  have mem: "p \<in> set (sort (dkeys (tc_periodic tc))) \<longleftrightarrow> (\<exists>r. dget (tc_periodic tc) p = Some r)" for p
    by (simp flip: dhas_iff add: dhas_def)
  have lp: "tick_loop now (sort (dkeys (tc_periodic tc))) tc = (res, tc')"
    using assms(2,4) by (simp add: trigger_tick_def moment_ms_def)
  have pre: "\<forall>p \<in> set (sort (dkeys (tc_periodic tc))). \<exists>r. dget (tc_periodic tc) p = Some r \<and> Suc (pr_sequence r) < 10 ^ 118"
    using assms(3) mem by blast
  have "due tc now p \<Longrightarrow> p \<in> set (sort (dkeys (tc_periodic tc)))" for p
    unfolding mem by (auto simp: due_def split: option.splits)
  then show ?thesis using tick_loop_exact [OF inv assms(2) d pre lp] by auto
qed

section \<open>Witnesses\<close>

definition demo_trigger :: trigger where
  "demo_trigger = \<lparr>tg_plugin = ''demo'', tg_id = PStr ''t1'', tg_kind = MANUAL, tg_payload = PDict [], tg_created = PInt 1\<rparr>"

definition demo_coordinator :: coordinator where
  "demo_coordinator = snd (submit_trigger demo_trigger (snd (register_periodic ''demo'' (PInt 10) (PInt 5) (PDict [])
     (snd (register_collector ''demo'' 7 (projr (coordinator_init demo_number (PInt 64) (PInt 2) (PInt 30))))))))"

lemma demo_coordinator_reachable: "coordinator_reachable demo_coordinator"
proof -
  have "coordinator_init demo_number (PInt 64) (PInt 2) (PInt 30) = Inr (projr (coordinator_init demo_number (PInt 64) (PInt 2) (PInt 30)))"
    by (simp add: coordinator_init_def positive_bound_def)
  from coordinator_reachable.init [OF this] show ?thesis
    unfolding demo_coordinator_def by (intro coordinator_reachable.submit coordinator_reachable.periodic coordinator_reachable.collector)
qed

lemma demo_coordinator_state:
  "tc_pending demo_coordinator = [demo_trigger] \<and> tc_max_pending demo_coordinator = 2 \<and>
   tc_periodic demo_coordinator = [(''demo'', \<lparr>pr_interval = 10, pr_next_due = 5, pr_payload = PDict [], pr_sequence = 0\<rparr>)]"
  by code_simp

text \<open>The same trigger once more is coalesced; the one waiting is collected.\<close>

lemma demo_submit_again: "\<exists>rc tc. submit_trigger demo_trigger demo_coordinator = (Inr rc, tc)"
proof -
  have "is_ok (fst (submit_trigger demo_trigger demo_coordinator))" by code_simp
  then show ?thesis by (metis is_ok_iff prod.collapse)
qed


theorem periodic_tick_exact_witness:
  "\<exists>rs tc. trigger_tick (PInt 7) demo_coordinator = (Inr rs, tc) \<and> map (\<lambda>rc. tg_plugin (rc_trigger rc)) rs = [''demo''] \<and>
     map_option pr_next_due (dget (tc_periodic tc) ''demo'') = Some 17"
proof -
  obtain res tc where t: "trigger_tick (PInt 7) demo_coordinator = (res, tc)" by fastforce
  have p: "dget (tc_periodic demo_coordinator) p = (if p = ''demo'' then Some \<lparr>pr_interval = 10, pr_next_due = 5, pr_payload = PDict [], pr_sequence = 0\<rparr> else None)" for p
    using demo_coordinator_state by (simp add: dget_Cons)
  have "dkeys (tc_periodic demo_coordinator) = [''demo'']" using demo_coordinator_state by (simp add: dkeys_def)
  then show ?thesis
    using periodic_tick_exact [OF demo_coordinator_reachable _ _ t] t by (auto simp: p due_def rescheduled_def split: if_splits)
qed

end
