(* ===== verification/Plugin_Settings.thy ===== *)
theory Plugin_Settings
  imports Grant_Ledger Dispatch
begin

text \<open>
  \<^verbatim>\<open>src/omnitensor/plugins/settings.py\<close>: revisioned settings of one plugin, migrated when its
  configuration contract has moved on, and \<^verbatim>\<open>plugins/configuration_spec.py\<close>, the contract a manifest
  declares.  \<^verbatim>\<open>jsonschema\<close> is an argument: whether a schema is one, and what a configuration violates
  under it (with the secret references of \<^verbatim>\<open>plugins/secrets.py\<close>, which the code asks with it).  The file
  is that of the plugin, and the store lock makes each operation one step; a value quoted in a message
  is left out of it.
\<close>

section \<open>Contracts\<close>

definition SETTINGS_DOCUMENT_VERSION :: int where "SETTINGS_DOCUMENT_VERSION = 1"
definition MAX_MIGRATIONS :: nat where "MAX_MIGRATIONS = 32"
definition DEFAULT_CONFIGURATION_VERSION :: string where "DEFAULT_CONFIGURATION_VERSION = ''1.0.0''"

text \<open>A transform answers with a value or raises; then its result is the name of the exception's class.\<close>

record migration =
  mi_source :: pyval
  mi_target :: pyval
  mi_transform :: "pyval \<Rightarrow> string + pyval"

record configuration_spec =
  cs_plugin :: string
  cs_version :: pyval
  cs_schema :: pyval
  cs_defaults :: pyval
  cs_migrations :: "migration list"

record settings =
  se_plugin :: string
  se_version :: string
  se_revision :: int
  se_configuration :: pyval

record checker =
  ck_schema :: "pyval \<Rightarrow> bool"
  ck_violation :: "pyval \<Rightarrow> pyval \<Rightarrow> unit res"

record settings_store =
  sx_floats :: float_text
  sx_max_bytes :: nat
  sx_checker :: checker

definition settings_store_init :: "float_text \<Rightarrow> checker \<Rightarrow> pyval \<Rightarrow> settings_store res" where
  "settings_store_init F ck max_settings_bytes =
     map_res (\<lambda>n. \<lparr>sx_floats = F, sx_max_bytes = n, sx_checker = ck\<rparr>) (positive_bound max_settings_bytes)"

definition validate_version :: "pyval \<Rightarrow> string \<Rightarrow> string res" where
  "validate_version v label =
     (case v of
        PStr s \<Rightarrow> if version_ok s then Inr s else Inl (Stable ''invalid-version'' (label @ '' is invalid''))
      | _ \<Rightarrow> Inl (Stable ''invalid-version'' (label @ '' is invalid'')))"

definition validate_revision :: "pyval \<Rightarrow> string \<Rightarrow> int res" where
  "validate_revision v label =
     (case v of
        PInt n \<Rightarrow> if n < 0 then Inl (Stable ''invalid-revision'' (label @ '' must be a non-negative integer'')) else Inr n
      | _ \<Rightarrow> Inl (Stable ''invalid-revision'' (label @ '' must be a non-negative integer'')))"

definition validate_persisted :: "checker \<Rightarrow> pyval \<Rightarrow> pyval \<Rightarrow> unit res" where
  "validate_persisted ck schema configuration =
     (if \<not> is_dict configuration then Inl (Stable ''invalid-configuration'' ''configuration must be an object'')
      else ck_violation ck schema configuration)"

text \<open>The migrations by their source, each checked in turn.\<close>

fun by_source :: "migration list \<Rightarrow> (string \<times> (pyval \<Rightarrow> string + pyval)) dict \<Rightarrow> (string \<times> (pyval \<Rightarrow> string + pyval)) dict res" where
  "by_source [] found = Inr found"
| "by_source (m # ms) found =
     bind_res (validate_version (mi_source m) ''migration source version'') (\<lambda>s.
     bind_res (validate_version (mi_target m) ''migration target version'') (\<lambda>t.
       if s = t then Inl (Stable ''invalid-migrations'' ''migration cannot target itself'')
       else if dhas found s then Inl (Stable ''invalid-migrations'' (''ambiguous migration from '' @ s))
       else by_source ms (dset s (t, mi_transform m) found)))"

text \<open>Answers with the current version and the migrations.\<close>

definition prepare_spec :: "checker \<Rightarrow> configuration_spec \<Rightarrow> (string \<times> (string \<times> (pyval \<Rightarrow> string + pyval)) dict) res" where
  "prepare_spec ck spec =
     bind_res (refuse_unless (valid_plugin_id (cs_plugin spec)) ''invalid-plugin-id'' ''invalid plugin id'') (\<lambda>_.
     bind_res (validate_version (cs_version spec) ''plugin version'') (\<lambda>version.
     bind_res (refuse_unless (is_dict (cs_schema spec)) ''invalid-schema'' ''configuration schema must be an object'') (\<lambda>_.
     bind_res (refuse_unless (ck_schema ck (cs_schema spec)) ''invalid-schema'' ''configuration schema is invalid'') (\<lambda>_.
     bind_res (validate_persisted ck (cs_schema spec) (cs_defaults spec)) (\<lambda>_.
     bind_res (refuse_unless (length (cs_migrations spec) \<le> MAX_MIGRATIONS) ''invalid-migrations''
                 (''at most '' @ nat_str MAX_MIGRATIONS @ '' migrations are allowed'')) (\<lambda>_.
       map_res (\<lambda>ms. (version, ms)) (by_source (cs_migrations spec) [])))))))"

section \<open>Migration\<close>

definition migration_failed :: "string \<Rightarrow> string \<Rightarrow> string \<Rightarrow> exn" where
  "migration_failed v t what = Stable ''migration-failed'' (''migration '' @ v @ '' to '' @ t @ what)"

function migrate_loop ::
    "(string \<times> (pyval \<Rightarrow> string + pyval)) dict \<Rightarrow> string \<Rightarrow> string \<Rightarrow> pyval \<Rightarrow> string set \<Rightarrow> nat \<Rightarrow> pyval res" where
  "migrate_loop ms target version configuration visited steps =
     (if version = target then Inr configuration
      else if version \<in> visited \<or> 0 < steps \<and> length ms \<le> steps
      then Inl (Stable ''migration-cycle'' (''migration cycle at '' @ version))
      else (case dget ms version of
              None \<Rightarrow> Inl (Stable ''migration-missing'' (''no migration from '' @ version @ '' to '' @ target))
            | Some (t, f) \<Rightarrow>
                (case f configuration of
                   Inl name \<Rightarrow> Inl (migration_failed version t ('' raised '' @ name))
                 | Inr c \<Rightarrow>
                     if \<not> is_dict c then Inl (migration_failed version t '' returned a non-object'')
                     else migrate_loop ms target t c (insert version visited) (Suc steps))))"
  by pat_completeness auto
termination
proof (relation "measure (\<lambda>(ms, _, _, _, _, steps). Suc (length ms) - steps)")
  fix ms :: "(string \<times> (pyval \<Rightarrow> string + pyval)) dict" and target version :: string and configuration :: pyval
    and visited :: "string set" and steps :: nat and p t f c
  assume "\<not> (version \<in> visited \<or> 0 < steps \<and> length ms \<le> steps)" "dget ms version = Some p"
  moreover from this have "ms \<noteq> []" by auto
  ultimately have "steps < length ms" by auto
  then show "((ms, target, t, c, insert version visited, Suc steps), ms, target, version, configuration, visited, steps)
      \<in> measure (\<lambda>(ms, _, _, _, _, steps). Suc (length ms) - steps)" by simp
qed simp

declare migrate_loop.simps [simp del]

definition migrate_settings ::
    "settings \<Rightarrow> string \<Rightarrow> (string \<times> (pyval \<Rightarrow> string + pyval)) dict \<Rightarrow> settings res" where
  "migrate_settings s target ms =
     map_res (\<lambda>c. \<lparr>se_plugin = se_plugin s, se_version = target, se_revision = se_revision s + 1, se_configuration = c\<rparr>)
       (migrate_loop ms target (se_version s) (se_configuration s) {} 0)"

section \<open>The store\<close>

definition read_settings :: "settings_store \<Rightarrow> nat \<Rightarrow> pyval option \<Rightarrow> string \<Rightarrow> pyval dict res" where
  "read_settings sx bytes body plugin_id =
     (if sx_max_bytes sx < bytes
      then Inl (Stable ''settings-too-large'' (''settings exceed the '' @ nat_str (sx_max_bytes sx) @ '' byte limit''))
      else (case body of
              None \<Rightarrow> Inl (Stable ''settings-unreadable'' (''cannot read settings for '' @ plugin_id))
            | Some (PDict d) \<Rightarrow> Inr d
            | Some _ \<Rightarrow> Inl (Stable ''invalid-settings'' ''settings document must be an object'')))"

definition settings_fields :: "string list" where
  "settings_fields = [''documentVersion'', ''pluginId'', ''pluginVersion'', ''revision'', ''configuration'']"

definition parse_settings :: "pyval dict \<Rightarrow> string \<Rightarrow> settings res" where
  "parse_settings d plugin_id =
     (if set (dkeys d) \<noteq> set settings_fields
      then Inl (Stable ''invalid-settings'' ''settings fields do not match the contract'')
      else (let v = at_field d ''documentVersion'' in
            if (case v of PBool b \<Rightarrow> True | _ \<Rightarrow> \<not> same_number v SETTINGS_DOCUMENT_VERSION)
            then Inl (Stable ''settings-version-incompatible'' ''unsupported settings document version'')
            else if at_field d ''pluginId'' \<noteq> PStr plugin_id
            then Inl (Stable ''plugin-identity-mismatch'' (''expected '' @ plugin_id))
            else bind_res (validate_version (at_field d ''pluginVersion'') ''stored plugin version'') (\<lambda>version.
                 bind_res (validate_revision (at_field d ''revision'') ''stored revision'') (\<lambda>revision.
                   if \<not> is_dict (at_field d ''configuration'') then Inl (Stable ''invalid-settings'' ''configuration must be an object'')
                   else Inr \<lparr>se_plugin = plugin_id, se_version = version, se_revision = revision,
                             se_configuration = at_field d ''configuration''\<rparr>))))"

definition settings_document :: "settings \<Rightarrow> pyval" where
  "settings_document s =
     PDict [(''documentVersion'', PInt SETTINGS_DOCUMENT_VERSION), (''pluginId'', PStr (se_plugin s)),
            (''pluginVersion'', PStr (se_version s)), (''revision'', PInt (se_revision s)), (''configuration'', se_configuration s)]"

definition write_settings :: "settings_store \<Rightarrow> bool \<Rightarrow> settings \<Rightarrow> gfile \<Rightarrow> unit res \<times> gfile" where
  "write_settings sx write_ok s f =
     (let document = settings_document s; bytes = ascii_size (json_text (sx_floats sx) document)
      in if \<not> dumpable document then (Inl (Stable ''invalid-configuration'' ''configuration must contain JSON values''), f)
         else if sx_max_bytes sx < bytes
         then (Inl (Stable ''settings-too-large'' (''settings are '' @ nat_str bytes @ '' bytes; limit is '' @ nat_str (sx_max_bytes sx))), f)
         else if \<not> write_ok then (Inl OSError, f)
         else (Inr (), File bytes (Some document)))"

definition load_locked :: "settings_store \<Rightarrow> bool \<Rightarrow> configuration_spec \<Rightarrow> gfile \<Rightarrow> settings res \<times> gfile" where
  "load_locked sx write_ok spec f =
     (case prepare_spec (sx_checker sx) spec of
        Inl e \<Rightarrow> (Inl e, f)
      | Inr (version, ms) \<Rightarrow>
          (case f of
             Absent \<Rightarrow> (Inr \<lparr>se_plugin = cs_plugin spec, se_version = version, se_revision = 0, se_configuration = cs_defaults spec\<rparr>, f)
           | File bytes body \<Rightarrow>
               (case bind_res (read_settings sx bytes body (cs_plugin spec)) (\<lambda>d. parse_settings d (cs_plugin spec)) of
                  Inl e \<Rightarrow> (Inl e, f)
                | Inr s \<Rightarrow>
                    if se_version s = version
                    then (map_res (\<lambda>_. s) (validate_persisted (sx_checker sx) (cs_schema spec) (se_configuration s)), f)
                    else (case bind_res (migrate_settings s version ms) (\<lambda>m.
                                 map_res (\<lambda>_. m) (validate_persisted (sx_checker sx) (cs_schema spec) (se_configuration m))) of
                            Inl e \<Rightarrow> (Inl e, f)
                          | Inr m \<Rightarrow> (case write_settings sx write_ok m f of (r, f1) \<Rightarrow> (map_res (\<lambda>_. m) r, f1))))))"

text \<open>The lock may be refused.\<close>

definition settings_load :: "settings_store \<Rightarrow> bool \<Rightarrow> bool \<Rightarrow> configuration_spec \<Rightarrow> gfile \<Rightarrow> settings res \<times> gfile" where
  "settings_load sx lock_ok write_ok spec f = (if lock_ok then load_locked sx write_ok spec f else (Inl OSError, f))"

definition settings_update ::
    "settings_store \<Rightarrow> bool \<Rightarrow> bool \<Rightarrow> bool \<Rightarrow> configuration_spec \<Rightarrow> pyval \<Rightarrow> pyval \<Rightarrow> gfile \<Rightarrow> settings res \<times> gfile" where
  "settings_update sx lock_ok write1 write2 spec expected_revision configuration f =
     (case bind_res (validate_revision expected_revision ''expected_revision'') (\<lambda>n.
           bind_res (prepare_spec (sx_checker sx) spec) (\<lambda>(version, ms).
           map_res (\<lambda>_. (n, version)) (validate_persisted (sx_checker sx) (cs_schema spec) configuration))) of
        Inl e \<Rightarrow> (Inl e, f)
      | Inr (n, version) \<Rightarrow>
          if \<not> lock_ok then (Inl OSError, f)
          else (case load_locked sx write1 spec f of
                  (Inl e, f1) \<Rightarrow> (Inl e, f1)
                | (Inr current, f1) \<Rightarrow>
                    if se_revision current \<noteq> n
                    then (Inl (Stable ''revision-mismatch'' (''expected '' @ int_str n @ ''; current revision is '' @ int_str (se_revision current))), f1)
                    else (let s = \<lparr>se_plugin = cs_plugin spec, se_version = version, se_revision = se_revision current + 1,
                                   se_configuration = configuration\<rparr>
                          in case write_settings sx write2 s f1 of (r, f2) \<Rightarrow> (map_res (\<lambda>_. s) r, f2))))"

section \<open>The contract a manifest declares\<close>

definition manifest_object :: "string \<Rightarrow> string \<Rightarrow> string \<Rightarrow> pyval option \<Rightarrow> pyval dict res" where
  "manifest_object plugin_id code detail v = (case v of Some (PDict d) \<Rightarrow> Inr d | _ \<Rightarrow> Inl (Stable code (plugin_id @ detail)))"

text \<open>A required name that is a list or an object cannot be looked up.\<close>

definition declared_defaults :: "string \<Rightarrow> pyval dict \<Rightarrow> pyval dict res" where
  "declared_defaults plugin_id schema =
     (let defaults = (case dget schema ''properties'' of
            Some (PDict ps) \<Rightarrow> List.map_filter (\<lambda>(k, v). case v of
               PDict d \<Rightarrow> map_option (\<lambda>x. (k, x)) (dget d ''default'') | _ \<Rightarrow> None) ps
          | _ \<Rightarrow> []);
          required = (case dget schema ''required'' of Some (PList ks) \<Rightarrow> ks | _ \<Rightarrow> []);
          missing = filter (\<lambda>k. case k of PStr s \<Rightarrow> \<not> dhas defaults s | _ \<Rightarrow> True) required
      in if list_ex (\<lambda>k. case k of PList _ \<Rightarrow> True | PDict _ \<Rightarrow> True | _ \<Rightarrow> False) required then Inl TypeError
         else if missing \<noteq> [] then Inl (Stable ''configuration-defaults-missing'' (plugin_id @ '' requires a property and declares no default''))
         else Inr defaults)"

definition manifest_configuration_spec :: "string \<Rightarrow> pyval dict \<Rightarrow> configuration_spec res" where
  "manifest_configuration_spec plugin_id manifest =
     bind_res (manifest_object plugin_id ''configuration-undeclared'' '' declares no plugin block'' (dget manifest ''plugin'')) (\<lambda>declaration.
     bind_res (manifest_object plugin_id ''configuration-undeclared'' '' declares no schemas block'' (dget declaration ''schemas'')) (\<lambda>schemas.
     bind_res (manifest_object plugin_id ''invalid-schema'' '' configuration schema must be an object'' (dget schemas ''configuration'')) (\<lambda>schema.
     bind_res (validate_version (case dget schemas ''configurationVersion'' of Some v \<Rightarrow> v | None \<Rightarrow> PStr DEFAULT_CONFIGURATION_VERSION)
                 (plugin_id @ '' configuration version'')) (\<lambda>version.
     map_res (\<lambda>defaults. \<lparr>cs_plugin = plugin_id, cs_version = PStr version, cs_schema = PDict schema, cs_defaults = PDict defaults, cs_migrations = []\<rparr>)
       (declared_defaults plugin_id schema)))))"

section \<open>The loop follows the route\<close>

text \<open>The route from a version to the current one, in a number of steps, with what it makes of a configuration.\<close>

inductive migrates ::
    "(string \<times> (pyval \<Rightarrow> string + pyval)) dict \<Rightarrow> string \<Rightarrow> nat \<Rightarrow> string \<Rightarrow> pyval \<Rightarrow> pyval \<Rightarrow> bool" for ms target where
  arrived: "migrates ms target 0 target c c"
| further: "v \<noteq> target \<Longrightarrow> dget ms v = Some (t, f) \<Longrightarrow> f c = Inr c1 \<Longrightarrow> is_dict c1 \<Longrightarrow> migrates ms target n t c1 c' \<Longrightarrow>
     migrates ms target (Suc n) v c c'"

inductive leads :: "(string \<times> 'a) dict \<Rightarrow> string \<Rightarrow> nat \<Rightarrow> string \<Rightarrow> bool" for ms :: "(string \<times> 'a) dict" and target where
  "leads ms target 0 target"
| "v \<noteq> target \<Longrightarrow> dget ms v = Some (t, f) \<Longrightarrow> leads ms target n t \<Longrightarrow> leads ms target (Suc n) v"

inductive_cases leads_elim: "leads ms target n v"

lemma migrates_leads: "migrates ms target n v c c' \<Longrightarrow> leads ms target n v"
  by (induction rule: migrates.induct) (auto intro: leads.intros)

lemma leads_unique: "leads ms target n v \<Longrightarrow> leads ms target m v \<Longrightarrow> n = m"
proof (induction arbitrary: m rule: leads.induct)
  case 1
  then show ?case by (rule leads_elim) simp_all
next
  case (2 v t f n)
  from 2(5) show ?case by (rule leads_elim) (use 2(1,2,4) in auto)
qed

lemma migrate_loop_sound:
  "migrate_loop ms target v c visited steps = Inr c' \<Longrightarrow> \<exists>n. migrates ms target n v c c'"
proof (induction ms target v c visited steps rule: migrate_loop.induct)
  case (1 ms target v c visited steps)
  show ?case
  proof (cases "v = target")
    case True
    then have "c' = c" using 1(2) by (subst (asm) migrate_loop.simps) simp
    then show ?thesis using True migrates.arrived by blast
  next
    case False
    then obtain t f c1 where s: "\<not> (v \<in> visited \<or> 0 < steps \<and> length ms \<le> steps)" "dget ms v = Some (t, f)" "f c = Inr c1" "is_dict c1"
      "migrate_loop ms target t c1 (insert v visited) (Suc steps) = Inr c'"
      using 1(2) by (subst (asm) migrate_loop.simps) (auto split: if_splits option.splits sum.splits)
    from 1(1) [OF False s(1,2) refl s(3) _ s(5)] s(4) obtain n where "migrates ms target n t c1 c'" by blast
    with False s(2-4) show ?thesis by (blast intro: migrates.further)
  qed
qed

lemma migrate_loop_complete:
  assumes "migrates ms target n v c c'" and "finite visited" and "card visited = steps" and "visited \<subseteq> set (dkeys ms)"
    and "\<forall>u \<in> visited. \<exists>m > n. leads ms target m u"
  shows "migrate_loop ms target v c visited steps = Inr c'"
  using assms
proof (induction arbitrary: visited steps rule: migrates.induct)
  case (arrived c)
  then show ?case by (simp add: migrate_loop.simps)
next
  case (further v t f c c1 n c')
  have l: "leads ms target (Suc n) v" using further(1,2) migrates_leads [OF further(5)] by (rule leads.intros)
  have new: "v \<notin> visited" using further(10) leads_unique [OF l] by fastforce
  have k: "insert v visited \<subseteq> set (dkeys ms)" using further(2,9) dget_in_set [OF further(2)] by (force simp: dkeys_def)
  then have "card (insert v visited) \<le> length ms"
    by (metis List.finite_set card_length card_mono dkeys_def le_trans length_map)
  then have "Suc steps \<le> length ms" using new further(7,8) by simp
  moreover have "\<forall>u \<in> insert v visited. \<exists>m > n. leads ms target m u" using further(10) l by (auto intro: Suc_lessD)
  ultimately show ?case
    using further(1-4) new further.IH [of "insert v visited" "Suc steps"] further(7,8) k
    by (subst migrate_loop.simps) simp
qed

text \<open>C28. Migration always ends, and ends with the configuration the route gives: the loop, with its guard
  against cycles and its bound on steps, answers with a configuration exactly when some number of
  declared migrations leads from the stored version to the current one with every transform
  answering an object, and then it is what those transforms make of the stored configuration.\<close>

theorem settings_migration_exact:
  shows "(migrate_settings s target ms = Inr m) =
    (\<exists>n c. migrates ms target n (se_version s) (se_configuration s) c \<and>
       m = \<lparr>se_plugin = se_plugin s, se_version = target, se_revision = se_revision s + 1, se_configuration = c\<rparr>)"
proof -
  have "migrate_loop ms target (se_version s) (se_configuration s) {} 0 = Inr c \<longleftrightarrow>
      (\<exists>n. migrates ms target n (se_version s) (se_configuration s) c)" for c
    using migrate_loop_sound migrate_loop_complete [of ms target _ _ _ c "{}" 0] by auto
  then show ?thesis by (auto simp: migrate_settings_def res_simps)
qed

text \<open>A route that ends before the current version is reported as a cycle when every declared migration was on it.\<close>

lemma missing_reported_as_cycle:
  "migrate_loop [(''1.0.0'', ''1.1.0'', Inr)] ''2.0.0'' ''1.0.0'' (PDict []) {} 0 =
     Inl (Stable ''migration-cycle'' ''migration cycle at 1.1.0'')"
  by (simp add: migrate_loop.simps [of _ "''2.0.0''"] dget_Cons)

section \<open>No update is lost\<close>

definition settings_ok :: "string \<Rightarrow> settings \<Rightarrow> bool" where
  "settings_ok p s = (se_plugin s = p \<and> version_ok (se_version s) \<and> 0 \<le> se_revision s \<and> is_dict (se_configuration s))"

lemma parse_document: "settings_ok p s \<Longrightarrow> parse_settings (case settings_document s of PDict d \<Rightarrow> d | _ \<Rightarrow> []) p = Inr s"
  by (cases s) (simp add: parse_settings_def settings_document_def settings_ok_def settings_fields_def dkeys_def at_field_def dget_Cons
      same_number_def SETTINGS_DOCUMENT_VERSION_def validate_version_def validate_revision_def Let_def)

lemma parse_settings_ok: "parse_settings d p = Inr s \<Longrightarrow> settings_ok p s"
  by (auto simp: parse_settings_def Let_def settings_ok_def res_simps validate_version_def validate_revision_def
      split: if_splits pyval.splits)

lemma write_settings_cases:
  "write_settings sx w s f = (r, f1) \<Longrightarrow>
     (\<exists>e. r = Inl e) \<and> f1 = f \<or>
     r = Inr () \<and> f1 = File (ascii_size (json_text (sx_floats sx) (settings_document s))) (Some (settings_document s)) \<and>
       ascii_size (json_text (sx_floats sx) (settings_document s)) \<le> sx_max_bytes sx"
  by (auto simp: write_settings_def Let_def split: if_splits)

lemma prepare_version: "prepare_spec ck spec = Inr (version, ms) \<Longrightarrow> version_ok version"
  by (auto simp: prepare_spec_def res_simps validate_version_def split: pyval.splits if_splits)

lemma validate_persisted_dict: "validate_persisted ck sc c = Inr u \<Longrightarrow> is_dict c"
  by (simp add: validate_persisted_def split: if_splits)

text \<open>Settings of the current version that are on the file are what is loaded from it.\<close>

lemma load_written:
  assumes "prepare_spec (sx_checker sx) spec = Inr (se_version s, ms)" and "settings_ok (cs_plugin spec) s"
    and "validate_persisted (sx_checker sx) (cs_schema spec) (se_configuration s) = Inr u"
    and "write_settings sx w s f = (Inr x, f1)"
  shows "load_locked sx w' spec f1 = (Inr s, f1)"
proof -
  have f1: "f1 = File (ascii_size (json_text (sx_floats sx) (settings_document s))) (Some (settings_document s))"
    "ascii_size (json_text (sx_floats sx) (settings_document s)) \<le> sx_max_bytes sx"
    using write_settings_cases [OF assms(4)] by auto
  obtain d where d: "settings_document s = PDict d" by (simp add: settings_document_def)
  then have "parse_settings d (cs_plugin spec) = Inr s" using parse_document [OF assms(2)] by simp
  then show ?thesis using assms(1,3) f1 d by (simp add: load_locked_def read_settings_def)
qed

lemma load_locked_cases:
  assumes "load_locked sx w spec f = (r, f1)"
  obtains e where "r = Inl e" "f1 = f"
  | s version ms where "r = Inr s" "prepare_spec (sx_checker sx) spec = Inr (version, ms)" "se_version s = version"
      "0 \<le> se_revision s" "\<And>w'. load_locked sx w' spec f1 = (Inr s, f1)"
proof (cases "prepare_spec (sx_checker sx) spec")
  case (Inl e)
  then show ?thesis using assms by (intro that(1)) (auto simp: load_locked_def)
next
  case (Inr p)
  obtain version ms where p: "prepare_spec (sx_checker sx) spec = Inr (version, ms)" using Inr by (cases p) simp
  show ?thesis
  proof (cases f)
    case Absent
    then show ?thesis using assms p by (intro that(2)) (auto simp: load_locked_def)
  next
    case (File bytes body)
    show ?thesis
    proof (cases "bind_res (read_settings sx bytes body (cs_plugin spec)) (\<lambda>d. parse_settings d (cs_plugin spec))")
      case e: (Inl e)
      have "r = Inl e" "f1 = f" using assms by (simp_all add: load_locked_def p File e)
      then show ?thesis by (rule that(1))
    next
      case s: (Inr s)
      then have ok: "settings_ok (cs_plugin spec) s" using parse_settings_ok by (auto simp: res_simps)
      show ?thesis
      proof (cases "se_version s = version")
        case True
        show ?thesis
        proof (cases "validate_persisted (sx_checker sx) (cs_schema spec) (se_configuration s)")
          case e: (Inl e)
          then show ?thesis using assms p File s True by (intro that(1)) (auto simp: load_locked_def)
        next
          case u: (Inr u)
          have l: "load_locked sx w' spec f = (Inr s, f)" for w' using p File s True u by (simp add: load_locked_def)
          then have "r = Inr s" "f1 = f" using assms by simp_all
          then show ?thesis using l p True ok by (intro that(2)) (simp_all add: settings_ok_def)
        qed
      next
        case False
        show ?thesis
        proof (cases "bind_res (migrate_settings s version ms) (\<lambda>m.
            map_res (\<lambda>_. m) (validate_persisted (sx_checker sx) (cs_schema spec) (se_configuration m)))")
          case e: (Inl e)
          have "r = Inl e" "f1 = f" using assms False by (simp_all add: load_locked_def p File s e)
          then show ?thesis by (rule that(1))
        next
          case m: (Inr m)
          then obtain u where mig: "migrate_settings s version ms = Inr m"
            "validate_persisted (sx_checker sx) (cs_schema spec) (se_configuration m) = Inr u" by (auto simp: res_simps)
          have mok: "settings_ok (cs_plugin spec) m" "se_version m = version" "0 \<le> se_revision m"
            using mig(1) ok prepare_version [OF p] validate_persisted_dict [OF mig(2)]
            by (auto simp: migrate_settings_def res_simps settings_ok_def)
          obtain r1 f2 where wr: "write_settings sx w m f = (r1, f2)" by fastforce
          have rf: "r = map_res (\<lambda>_. m) r1" "f1 = f2"
            using assms p File s False m wr by (simp_all add: load_locked_def)
          show ?thesis
          proof (cases r1)
            case e: (Inl e)
            then show ?thesis using rf write_settings_cases [OF wr] by (intro that(1)) auto
          next
            case x: (Inr x)
            have "load_locked sx w' spec f1 = (Inr m, f1)" for w'
              using load_written [OF _ mok(1) mig(2) wr [unfolded x]] p mok(2) rf(2) by simp
            then show ?thesis using rf x p mok by (intro that(2)) simp_all
          qed
        qed
      qed
    qed
  qed
qed

text \<open>Settings are compared and set.  An update that succeeds was made against the settings as they
  are on the file (migrated first, if need be), advances their revision by one and is exactly what
  any later load answers; and every further update that names the revision it named is refused and
  changes nothing, so no two of them take effect on the same revision.  An update that fails leaves
  the file as it was, or with the migration of what it held, which loads the same.\<close>

theorem settings_update_compare_and_set:
  assumes "settings_update sx l w1 w2 spec expected configuration f = (r, f')"
  shows "case r of
      Inr s \<Rightarrow>
        (\<exists>current f1. load_locked sx w1 spec f = (Inr current, f1) \<and> expected = PInt (se_revision current) \<and>
           se_revision s = se_revision current + 1 \<and> se_configuration s = configuration) \<and>
        load_locked sx w spec f' = (Inr s, f') \<and>
        (\<forall>l' w1' w2' c. \<exists>e. settings_update sx l' w1' w2' spec expected c f' = (Inl e, f'))
    | Inl e \<Rightarrow> f' = f \<or> (\<exists>m. load_locked sx w1 spec f = (Inr m, f') \<and> load_locked sx w spec f' = (Inr m, f'))"
proof (cases "bind_res (validate_revision expected ''expected_revision'') (\<lambda>n.
           bind_res (prepare_spec (sx_checker sx) spec) (\<lambda>(version, ms).
           map_res (\<lambda>_. (n, version)) (validate_persisted (sx_checker sx) (cs_schema spec) configuration)))")
  case (Inl e)
  then show ?thesis using assms by (auto simp: settings_update_def)
next
  case (Inr nv)
  then obtain n version ms u where v: "nv = (n, version)" "validate_revision expected ''expected_revision'' = Inr n"
    "prepare_spec (sx_checker sx) spec = Inr (version, ms)" "validate_persisted (sx_checker sx) (cs_schema spec) configuration = Inr u"
    by (auto simp: res_simps)
  have ex: "expected = PInt n" "0 \<le> n" using v(2) by (auto simp: validate_revision_def split: pyval.splits if_splits)
  show ?thesis
  proof (cases l)
    case False
    then show ?thesis using assms Inr v(1) by (auto simp: settings_update_def)
  next
    case True
    obtain r0 f1 where ld: "load_locked sx w1 spec f = (r0, f1)" by fastforce
    note d = assms [unfolded settings_update_def Inr v(1) ld, simplified True, simplified]
    show ?thesis
      using ld
    proof (cases rule: load_locked_cases)
      case (1 e)
      then show ?thesis using d by auto
    next
      case (2 current version' ms')
      have ver: "version' = version" using 2(2) v(3) by simp
      show ?thesis
      proof (cases "se_revision current = n")
        case False
        then show ?thesis using d ld 2 by auto
      next
        case rev: True
        let ?s = "\<lparr>se_plugin = cs_plugin spec, se_version = version, se_revision = se_revision current + 1, se_configuration = configuration\<rparr>"
        obtain r2 f2 where wr: "write_settings sx w2 ?s f1 = (r2, f2)" by fastforce
        have rf: "r = map_res (\<lambda>_. ?s) r2" "f' = f2" using d 2(1) rev wr by (simp_all add: Let_def)
        show ?thesis
        proof (cases r2)
          case e: (Inl e)
          then show ?thesis using rf write_settings_cases [OF wr] ld 2 by auto
        next
          case x: (Inr x)
          have sok: "settings_ok (cs_plugin spec) ?s"
            using prepare_version [OF v(3)] validate_persisted_dict [OF v(4)] 2(4) by (simp add: settings_ok_def)
          have again: "load_locked sx w' spec f' = (Inr ?s, f')" for w'
            using load_written [OF _ sok _ wr [unfolded x]] v(3,4) rf(2) by simp
          have "\<exists>e. settings_update sx l' w1' w2' spec expected c f' = (Inl e, f')" for l' w1' w2' c
          proof (cases "validate_persisted (sx_checker sx) (cs_schema spec) c")
            case (Inl e)
            then show ?thesis by (simp add: settings_update_def v(2,3))
          next
            case (Inr u')
            then show ?thesis using again [of w1'] rev by (simp add: settings_update_def v(2,3))
          qed
          then show ?thesis using again rf x ld 2(1) ex(1) rev by auto
        qed
      qed
    qed
  qed
qed

section \<open>Witnesses\<close>

definition demo_store :: settings_store where
  "demo_store = \<lparr>sx_floats = demo_number, sx_max_bytes = 4096, sx_checker = \<lparr>ck_schema = (\<lambda>_. True), ck_violation = (\<lambda>_ _. Inr ())\<rparr>\<rparr>"

definition demo_settings_spec :: configuration_spec where
  "demo_settings_spec = \<lparr>cs_plugin = ''demo'', cs_version = PStr ''1.0.0'', cs_schema = PDict [], cs_defaults = PDict [], cs_migrations = []\<rparr>"

lemma demo_update_applied: "is_ok (fst (settings_update demo_store True True True demo_settings_spec (PInt 0) (PDict [(''k'', PInt 1)]) Absent))"
  by code_simp

theorem settings_update_compare_and_set_witness:
  "\<exists>s f e. settings_update demo_store True True True demo_settings_spec (PInt 0) (PDict [(''k'', PInt 1)]) Absent = (Inr s, f) \<and>
     se_revision s = 1 \<and> load_locked demo_store True demo_settings_spec f = (Inr s, f) \<and>
     settings_update demo_store True True True demo_settings_spec (PInt 0) (PDict []) f = (Inl e, f)"
proof -
  obtain s f where u: "settings_update demo_store True True True demo_settings_spec (PInt 0) (PDict [(''k'', PInt 1)]) Absent = (Inr s, f)"
    using demo_update_applied by (metis is_ok_iff prod.collapse)
  from settings_update_compare_and_set [OF u, of True] have
    "se_revision s = 1" "load_locked demo_store True demo_settings_spec f = (Inr s, f)"
    "\<exists>e. settings_update demo_store True True True demo_settings_spec (PInt 0) (PDict []) f = (Inl e, f)"
    by auto
  with u show ?thesis by blast
qed

end
