(* ===== verification/Pipeline_Runner.thy ===== *)
theory Pipeline_Runner
  imports Pipeline_Machine Plugin_Flow Job_Cancellation
begin

text \<open>
  \<^verbatim>\<open>src/omnitensor/plugins/runner.py\<close>: one job through its stages with policy, flow control and
  cancellation around it.  The stages themselves are arguments; what the world does between two
  steps of a job is a turn.
\<close>

section \<open>The stages of one attempt\<close>

definition STAGE_ORDER :: "stage list" where
  "STAGE_ORDER = [Collect, Preprocess, Resolve, Infer, Postprocess, Deliver]"

record job_submission =
  sb_job :: string
  sb_payload :: "pyval dict"

datatype carried = Request job_submission | Output stage_output

text \<open>
  What can be raised through the stages: the job's own cancellation, the gate's refusal, any other
  exception, and the cancellation of the task, which nothing here catches.
\<close>

datatype raised = JobCancelled string | Refusal decision | Fault fault | TaskCancelled

text \<open>
  One turn of the loop: what the gate is told, the job's token when the stage would begin and when it
  has run, what the stage does with what it is handed (\<open>None\<close>: it has not ended), and the clock.
\<close>

record turn =
  tn_view :: policy_view
  tn_before :: token
  tn_after :: token
  tn_call :: "carried \<Rightarrow> (raised + stage_output) option"
  tn_clock :: int

definition machine_fault :: "exn \<Rightarrow> fault" where
  "machine_fault e =
     (case e of
        Stable c d \<Rightarrow> (''PipelineTransitionError'', c @ '': '' @ d)
      | TypeError \<Rightarrow> (''TypeError'', ''terminal detail must be a string'')
      | _ \<Rightarrow> (''ValueError'', ''completed_at_ms must be a non-negative integer''))"

definition job_cancelled :: "exn \<Rightarrow> raised" where
  "job_cancelled e = JobCancelled (case e of Stable c d \<Rightarrow> d | _ \<Rightarrow> [])"

datatype loop_end = Completed | Stopped raised | Suspended

text \<open>The log, which the code does not keep, is the stages called and what each was handed.\<close>

fun stages_loop :: "gate \<Rightarrow> stage list \<Rightarrow> turn list \<Rightarrow> carried \<Rightarrow> machine \<Rightarrow> loop_end \<times> machine \<times> (stage \<times> carried) list" where
  "stages_loop g [] ts x m = (Completed, m, [])"
| "stages_loop g (st # sts) [] x m = (Suspended, m, [])"
| "stages_loop g (st # sts) (t # ts) x m =
     (case require_policy g (tn_view t) st of
        Inl (Inl f) \<Rightarrow> (Stopped (Fault f), m, [])
      | Inl (Inr d) \<Rightarrow> (Stopped (Refusal d), m, [])
      | Inr _ \<Rightarrow>
          (case raise_if_cancelled (tn_before t) of
             Inl e \<Rightarrow> (Stopped (job_cancelled e), m, [])
           | Inr _ \<Rightarrow>
               (case guard (tn_before t) (map_option Inr (tn_call t x)) (tn_after t) of
                  None \<Rightarrow> (Suspended, m, [(st, x)])
                | Some (Inl e) \<Rightarrow> (Stopped (job_cancelled e), m, [(st, x)])
                | Some (Inr (Inl r)) \<Rightarrow> (Stopped r, m, [(st, x)])
                | Some (Inr (Inr out)) \<Rightarrow>
                    (case machine_advance out (PInt (tn_clock t)) m of
                       (Inl e, m1) \<Rightarrow> (Stopped (Fault (machine_fault e)), m1, [(st, x)])
                     | (Inr _, m1) \<Rightarrow>
                         (case stages_loop g sts ts (Output out) m1 of
                            (e, m2, tr) \<Rightarrow> (e, m2, (st, x) # tr))))))"

text \<open>\<open>Escaped\<close>: an exception no handler of \<^verbatim>\<open>_run_stages\<close> catches.\<close>

datatype job_end = Finished "presult option" | Escaped exn | Unwound | Running

definition ended :: "unit res \<times> machine \<Rightarrow> job_end" where
  "ended p = (case p of (Inl e, m) \<Rightarrow> Escaped e | (Inr _, m) \<Rightarrow> Finished (mc_result m))"

definition conclude :: "loop_end \<Rightarrow> int \<Rightarrow> machine \<Rightarrow> job_end" where
  "conclude e clock m =
     (case e of
        Completed \<Rightarrow> Finished (mc_result m)
      | Suspended \<Rightarrow> Running
      | Stopped (JobCancelled d) \<Rightarrow> ended (machine_cancel (PStr d) (PInt clock) m)
      | Stopped (Refusal dc) \<Rightarrow> ended (machine_cancel (PStr (dc_detail dc)) (PInt clock) m)
      | Stopped (Fault (name, t)) \<Rightarrow> ended (machine_fail (PStr (name @ '': '' @ t)) (PInt clock) m)
      | Stopped TaskCancelled \<Rightarrow> Unwound)"

definition run_stages :: "gate \<Rightarrow> string \<Rightarrow> job_submission \<Rightarrow> turn list \<Rightarrow> int \<Rightarrow> job_end \<times> (stage \<times> carried) list" where
  "run_stages g job_id request ts clock =
     (case machine_init (PStr job_id) of
        Inl e \<Rightarrow> (Escaped e, [])
      | Inr m0 \<Rightarrow>
          (case stages_loop g STAGE_ORDER ts (Request request) (snd (machine_start m0)) of
             (e, m, tr) \<Rightarrow> (conclude e clock m, tr)))"

definition refused_result :: "string \<Rightarrow> string \<Rightarrow> int \<Rightarrow> job_end" where
  "refused_result job_id detail clock =
     (case machine_init (PStr job_id) of
        Inl e \<Rightarrow> Escaped e
      | Inr m \<Rightarrow> ended (machine_cancel (PStr detail) (PInt clock) m))"

definition failed_result :: "string \<Rightarrow> string \<Rightarrow> string \<Rightarrow> int \<Rightarrow> job_end" where
  "failed_result job_id code detail clock =
     (case machine_init (PStr job_id) of
        Inl e \<Rightarrow> Escaped e
      | Inr m \<Rightarrow> ended (machine_fail (PStr (code @ '': '' @ detail)) (PInt clock) m))"

section \<open>What the stages are handed\<close>

text \<open>
  A log in which each stage was called in its place with what the one before it returned, at a time
  at which the gate admitted it and the job was not cancelled.
\<close>

fun handed :: "gate \<Rightarrow> stage list \<Rightarrow> turn list \<Rightarrow> carried \<Rightarrow> (stage \<times> carried) list \<Rightarrow> bool" where
  "handed g sts ts x [] = True"
| "handed g (st # sts) (t # ts) x ((st', x') # tr) =
     (st' = st \<and> x' = x \<and> admissible g (tn_view t) st \<and> tk_cancellation (tn_before t) = None \<and>
      (tr = [] \<or> (\<exists>out. tn_call t x = Some (Inr out) \<and> handed g sts ts (Output out) tr)))"
| "handed g sts ts x tr = False"

lemma raise_if_cancelled_ok: "raise_if_cancelled t = Inr u \<longleftrightarrow> tk_cancellation t = None"
  by (auto simp: raise_if_cancelled_def split: option.splits)

lemma guard_value: "guard b (map_option Inr op) a = Some (Inr v) \<longleftrightarrow> tk_cancellation b = None \<and> op = Some v"
  by (auto simp: guard_def split: option.splits)

lemma stages_loop_handed:
  "stages_loop g sts ts x m = (e, m1, tr) \<Longrightarrow> handed g sts ts x tr"
proof (induction g sts ts x m arbitrary: e m1 tr rule: stages_loop.induct)
  case (3 g st sts t ts x m)
  show ?case
  proof (cases "require_policy g (tn_view t) st")
    case (Inr u)
    then have a: "admissible g (tn_view t) st" using require_policy_admits by blast
    show ?thesis
    proof (cases "raise_if_cancelled (tn_before t)")
      case ok: (Inr u')
      then have b: "tk_cancellation (tn_before t) = None" by (simp add: raise_if_cancelled_ok)
      show ?thesis
      proof (cases "\<exists>out m2. guard (tn_before t) (map_option Inr (tn_call t x)) (tn_after t) = Some (Inr (Inr out)) \<and>
          machine_advance out (PInt (tn_clock t)) m = (Inr (), m2)")
        case True
        then obtain out m2 where o: "guard (tn_before t) (map_option Inr (tn_call t x)) (tn_after t) = Some (Inr (Inr out))"
          "machine_advance out (PInt (tn_clock t)) m = (Inr (), m2)" by blast
        obtain e' m3 tr' where r: "stages_loop g sts ts (Output out) m2 = (e', m3, tr')" by (metis prod_cases3)
        have "handed g sts ts (Output out) tr'"
          using "3.IH" [OF Inr ok o(1) refl refl o(2) [symmetric] refl r] by blast
        moreover have "tn_call t x = Some (Inr out)" using o(1) guard_value by metis
        ultimately show ?thesis using "3.prems" Inr ok o r a b by auto
      next
        case False
        then show ?thesis using "3.prems" Inr ok a b
          by (auto split: option.splits sum.splits prod.splits)
      qed
    qed (use 3 Inr in simp)
  qed (use 3 in \<open>auto split: sum.splits\<close>)
qed simp_all

text \<open>C25. No stage runs out of turn or against policy: the stages called are a beginning of the six, in
  their order, each handed exactly what the one before it returned (the first the request), and at
  the moment each was called the runtime was not paused, the profile was enabled, every required
  permission was granted, the model was ready where that stage needs it, and the job was not
  cancelled.\<close>

theorem stages_called_in_order_under_policy:
  assumes "run_stages g job_id request ts clock = (r, tr)"
  shows "handed g STAGE_ORDER ts (Request request) tr"
  using assms by (auto simp: run_stages_def dest: stages_loop_handed split: sum.splits prod.splits)

section \<open>How a job ends\<close>

lemma advance_error: "machine_advance out ms m = (Inl e, m1) \<Longrightarrow> mc_result m1 = mc_result m \<and> mc_job m1 = mc_job m"
  by (auto simp: machine_advance_def machine_finish_def Let_def split: sum.splits option.splits if_splits stage_output.splits pyval.splits)

lemma advance_success:
  assumes "machine_advance out (PInt n) m = (Inr (), m1)" and "mc_result m = None"
  shows "mc_job m1 = mc_job m"
    and "mc_stage m \<noteq> Deliver \<Longrightarrow> mc_result m1 = None \<and> (\<exists>c. transitions (mc_stage m) = Some (c, mc_stage m1))"
    and "mc_stage m = Deliver \<Longrightarrow> \<exists>o1 d. out = DeliveredOutput o1 (PStr d) \<and>
      mc_result m1 = Some \<lparr>pr_job = mc_job m, pr_status = SUCCEEDED, pr_output = o1, pr_detail = d, pr_at = n\<rparr>"
  using assms
  by (cases "mc_stage m"; auto simp: machine_advance_def machine_finish_def validate_timestamp_def Let_def
      split: sum.splits option.splits if_splits stage_output.splits pyval.splits)+

text \<open>The stages still to come.\<close>

definition remaining :: "stage \<Rightarrow> stage list" where
  "remaining st = drop (stages_done st) STAGE_ORDER"

lemma remaining_Cons: "remaining st = s # sts \<Longrightarrow> st \<noteq> Queued \<Longrightarrow> s = st \<and> (\<exists>c st'. transitions st = Some (c, st') \<and> remaining st' = sts)"
  by (cases st) (auto simp: remaining_def STAGE_ORDER_def)

lemma remaining_Nil: "remaining st = [] \<longleftrightarrow> st = Terminal"
  by (cases st) (simp_all add: remaining_def STAGE_ORDER_def)

text \<open>Where the reason a run was stopped for is to be found.\<close>

definition caused :: "gate \<Rightarrow> turn list \<Rightarrow> raised \<Rightarrow> bool" where
  "caused g ts r =
     (\<exists>t \<in> set ts. (\<exists>x. tn_call t x = Some (Inl r)) \<or>
        (case r of
           JobCancelled d \<Rightarrow> \<exists>c. (tk_cancellation (tn_before t) = Some c \<or> tk_cancellation (tn_after t) = Some c) \<and> ca_detail c = d
         | Refusal dc \<Rightarrow> \<exists>st. evaluate g (tn_view t) st = Inr dc \<and> \<not> dc_admitted dc
         | _ \<Rightarrow> True))"

lemma caused_later: "caused g ts r \<Longrightarrow> caused g (t # ts) r"
  by (auto simp: caused_def)

text \<open>Turns in which nothing goes wrong.\<close>

fun smooth :: "gate \<Rightarrow> stage list \<Rightarrow> turn list \<Rightarrow> carried \<Rightarrow> bool" where
  "smooth g [] ts x = True"
| "smooth g (st # sts) [] x = False"
| "smooth g (st # sts) (t # ts) x =
     (admissible g (tn_view t) st \<and> tk_cancellation (tn_before t) = None \<and> 0 \<le> tn_clock t \<and>
      (case tn_call t x of
         Some (Inr out) \<Rightarrow> output_class out = map_option fst (transitions st) \<and>
           (case out of DeliveredOutput o1 d \<Rightarrow> is_str d | _ \<Rightarrow> True) \<and> smooth g sts ts (Output out)
       | _ \<Rightarrow> False))"

text \<open>One turn, by what comes of it.\<close>

lemma turn_cases:
  assumes "stages_loop g (st # sts) (t # ts) x m = (e, m1, tr)"
  obtains r where "e = Stopped r" "m1 = m" "caused g (t # ts) r"
  | "e = Suspended" "m1 = m"
  | f where "e = Stopped (Fault f)" "mc_result m1 = mc_result m" "mc_job m1 = mc_job m"
  | out m2 tr' where "tn_call t x = Some (Inr out)" "machine_advance out (PInt (tn_clock t)) m = (Inr (), m2)"
      "stages_loop g sts ts (Output out) m2 = (e, m1, tr')" "tr = (st, x) # tr'"
proof (cases "require_policy g (tn_view t) st")
  case (Inl r)
  show ?thesis
  proof (cases r)
    case f: (Inl f)
    then show ?thesis using assms Inl by (intro that(3) [of f]) auto
  next
    case d: (Inr d)
    then have "evaluate g (tn_view t) st = Inr d \<and> \<not> dc_admitted d"
      using Inl by (auto simp: require_policy_def split: sum.splits if_splits)
    then show ?thesis using assms Inl d by (intro that(1) [of "Refusal d"]) (auto simp: caused_def)
  qed
next
  case (Inr u)
  show ?thesis
  proof (cases "raise_if_cancelled (tn_before t)")
    case e: (Inl e)
    then show ?thesis using assms Inr
      by (intro that(1) [of "job_cancelled e"])
         (auto simp: caused_def job_cancelled_def raise_if_cancelled_def split: option.splits)
  next
    case ok: (Inr u')
    then have b: "tk_cancellation (tn_before t) = None" by (simp add: raise_if_cancelled_ok)
    show ?thesis
    proof (cases "tn_call t x")
      case None
      show ?thesis
      proof (cases "tk_cancellation (tn_after t)")
        case none: None
        then show ?thesis using assms Inr ok b None by (intro that(2)) (auto simp: guard_def)
      next
        case (Some c)
        then show ?thesis using assms Inr ok b None
          by (intro that(1) [of "JobCancelled (ca_detail c)"]) (auto simp: guard_def caused_def job_cancelled_def)
      qed
    next
      case (Some o1)
      then have g: "guard (tn_before t) (map_option Inr (tn_call t x)) (tn_after t) = Some (Inr o1)" using b guard_value by metis
      show ?thesis
      proof (cases o1)
        case r: (Inl r)
        then show ?thesis using assms Inr ok g Some by (intro that(1) [of r]) (auto simp: caused_def)
      next
        case out: (Inr out)
        obtain r m2 where a: "machine_advance out (PInt (tn_clock t)) m = (r, m2)" by fastforce
        show ?thesis
        proof (cases r)
          case f: (Inl f)
          then show ?thesis using assms Inr ok g out a advance_error
            by (intro that(3) [of "machine_fault f"]) auto
        next
          case a': (Inr u'')
          obtain e' m3 tr' where "stages_loop g sts ts (Output out) m2 = (e', m3, tr')" by (metis prod_cases3)
          then show ?thesis using assms Inr ok g out a a' Some
            by (intro that(4) [of out m2 tr']) auto
        qed
      qed
    qed
  qed
qed

text \<open>
  The machine has its result exactly when the loop is through, and then with what the last stage
  delivered; otherwise something stopped it.
\<close>

definition loop_ok :: "gate \<Rightarrow> stage list \<Rightarrow> turn list \<Rightarrow> string \<Rightarrow> loop_end \<Rightarrow> machine \<Rightarrow> (stage \<times> carried) list \<Rightarrow> bool" where
  "loop_ok g sts ts job e m tr =
     (mc_job m = job \<and>
      (case e of
         Completed \<Rightarrow> length tr = length sts \<and> length sts \<le> length ts \<and>
           (\<exists>r. mc_result m = Some r \<and> pr_job r = job \<and> pr_status r = SUCCEEDED \<and>
              (\<exists>x. tn_call (ts ! (length sts - 1)) x = Some (Inr (DeliveredOutput (pr_output r) (PStr (pr_detail r))))))
       | Suspended \<Rightarrow> mc_result m = None
       | Stopped r \<Rightarrow> mc_result m = None \<and> (caused g ts r \<or> (\<exists>f. r = Fault f))))"

lemma stages_loop_ok:
  "stages_loop g sts ts x m = (e, m1, tr) \<Longrightarrow> sts = remaining (mc_stage m) \<Longrightarrow> sts \<noteq> [] \<Longrightarrow> mc_stage m \<noteq> Queued \<Longrightarrow>
   mc_result m = None \<Longrightarrow> loop_ok g sts ts (mc_job m) e m1 tr"
proof (induction sts arbitrary: ts x m e m1 tr)
  case (Cons st sts)
  show ?case
  proof (cases ts)
    case Nil
    then have "e = Suspended" "m1 = m" using Cons.prems(1) by simp_all
    then show ?thesis using Cons.prems(5) by (simp add: loop_ok_def)
  next
    case (Cons t ts')
    from Cons.prems(1) have "stages_loop g (st # sts) (t # ts') x m = (e, m1, tr)" by (simp add: Cons)
    then show ?thesis
    proof (cases rule: turn_cases)
      case (1 r)
      then show ?thesis using Cons.prems(5) by (simp add: loop_ok_def Cons)
    next
      case 2
      then show ?thesis using Cons.prems(5) by (simp add: loop_ok_def)
    next
      case (3 f)
      then show ?thesis using Cons.prems(5) by (simp add: loop_ok_def)
    next
      case (4 out m2 tr')
      note adv = advance_success [OF 4(2) Cons.prems(5)]
      obtain c st' where st: "st = mc_stage m" "transitions (mc_stage m) = Some (c, st')" "remaining st' = sts"
        using remaining_Cons Cons.prems(2,4) by metis
      show ?thesis
      proof (cases "mc_stage m = Deliver")
        case True
        then have "sts = []" using Cons.prems(2) by (simp add: remaining_def STAGE_ORDER_def)
        moreover obtain o1 d where "out = DeliveredOutput o1 (PStr d)" "mc_result m2 = Some \<lparr>pr_job = mc_job m,
            pr_status = SUCCEEDED, pr_output = o1, pr_detail = d, pr_at = tn_clock t\<rparr>" using adv(3) [OF True] by blast
        ultimately show ?thesis using 4 adv(1) by (auto simp: loop_ok_def Cons)
      next
        case False
        then have m2: "mc_result m2 = None" "mc_stage m2 = st'" using adv(2) st(2) by auto
        then have "st' \<noteq> Terminal" "st' \<noteq> Queued" using st(2) False by (cases "mc_stage m"; auto)+
        then have sts: "sts = remaining (mc_stage m2)" "sts \<noteq> []" "mc_stage m2 \<noteq> Queued"
          using st(3) m2 remaining_Nil by auto
        from Cons.IH [OF 4(3) sts m2(1)] have ok: "loop_ok g sts ts' (mc_job m) e m1 tr'" using adv(1) by simp
        show ?thesis
        proof (cases e)
          case Completed
          then show ?thesis using ok 4(4) sts(2) by (auto simp: loop_ok_def Cons nth_Cons' Suc_le_eq)
        next
          case (Stopped r)
          then show ?thesis using ok caused_later by (auto simp: loop_ok_def Cons)
        next
          case Suspended
          then show ?thesis using ok by (simp add: loop_ok_def)
        qed
      qed
    qed
  qed
qed simp

lemma smooth_completes:
  "smooth g sts ts x \<Longrightarrow> sts = remaining (mc_stage m) \<Longrightarrow> mc_stage m \<noteq> Queued \<Longrightarrow> sts \<noteq> [] \<longrightarrow> mc_result m = None \<Longrightarrow>
   \<exists>m1 tr. stages_loop g sts ts x m = (Completed, m1, tr)"
proof (induction g sts ts x arbitrary: m rule: smooth.induct)
  case (3 g st sts t ts x)
  obtain c st' where st: "st = mc_stage m" "transitions (mc_stage m) = Some (c, st')" "remaining st' = sts"
    using remaining_Cons "3.prems"(2,3) by metis
  obtain out where out: "tn_call t x = Some (Inr out)" "output_class out = Some c" "smooth g sts ts (Output out)"
    and d: "case out of DeliveredOutput o1 d \<Rightarrow> is_str d | _ \<Rightarrow> True"
    using "3.prems"(1) st by (auto split: option.splits sum.splits)
  have none: "mc_result m = None" using "3.prems"(4) by simp
  have ms: "validate_timestamp (PInt (tn_clock t)) = Inr (tn_clock t)" using "3.prems"(1) by (simp add: validate_timestamp_def)
  obtain r m2 where adv: "machine_advance out (PInt (tn_clock t)) m = (r, m2)" by fastforce
  have r: "r = Inr ()"
    using adv st(2) out(2) d none ms
    by (cases out) (auto simp: machine_advance_def machine_finish_def is_str_def split: pyval.splits)
  note suc = advance_success [OF adv [unfolded r] none]
  have m2: "mc_stage m2 = st' \<and> (sts \<noteq> [] \<longrightarrow> mc_result m2 = None) \<and> st' \<noteq> Queued"
  proof (cases "mc_stage m = Deliver")
    case True
    then have "st' = Terminal" using st(2) by simp
    moreover have "mc_stage m2 = Terminal"
      using adv r True out(2) none ms d
      by (cases out) (auto simp: machine_advance_def machine_finish_def is_str_def split: pyval.splits)
    ultimately show ?thesis using st(3) remaining_Nil by auto
  next
    case False
    then show ?thesis using suc(2) st(2) by (cases "mc_stage m") auto
  qed
  have g: "guard (tn_before t) (map_option Inr (tn_call t x)) (tn_after t) = Some (Inr (Inr out))"
    using "3.prems"(1) out(1) by (simp only: guard_value smooth.simps)
  have pol: "require_policy g (tn_view t) st = Inr ()" "raise_if_cancelled (tn_before t) = Inr ()"
    using "3.prems"(1) by (simp_all add: require_policy_admits raise_if_cancelled_ok)
  have "\<exists>m3 tr'. stages_loop g sts ts (Output out) m2 = (Completed, m3, tr')"
    by (rule "3.IH" [OF out(1) refl out(3)]) (use m2 st(3) in simp_all)
  then obtain m3 tr' where "stages_loop g sts ts (Output out) m2 = (Completed, m3, tr')" by blast
  then show ?case using pol g adv r by simp
next
  case (2 g st sts x)
  from "2.prems"(1) show ?case by (simp only: smooth.simps)
qed simp

lemma ended_finish:
  assumes "mc_result m = None" and "0 \<le> clock"
  shows "ended (machine_finish s out (PStr d) (PInt clock) m) =
    Finished (Some \<lparr>pr_job = mc_job m, pr_status = s, pr_output = out, pr_detail = d, pr_at = clock\<rparr>)"
  using assms by (simp add: ended_def machine_finish_def validate_timestamp_def)

text \<open>A job ends once, for its reason.  A run that has ended, and whose task was not itself
  cancelled, has exactly one result, it names the job, and no exception escapes.  It succeeded only
  after all six stages, with what the last of them delivered; it is cancelled only when its token
  was cancelled, the gate refused it or a stage said so, with that reason's own text; and a run
  that nothing disturbs succeeds.\<close>

theorem job_ends_once_for_its_reason:
  assumes "run_stages g job request ts clock = (fin, tr)"
    and "job \<noteq> []" and "length job \<le> MAX_JOB_ID_CHARS" and "0 \<le> clock"
  shows "(case fin of
      Running \<Rightarrow> True
    | Unwound \<Rightarrow> caused g ts TaskCancelled
    | Escaped e \<Rightarrow> False
    | Finished None \<Rightarrow> False
    | Finished (Some r) \<Rightarrow>
        pr_job r = job \<and>
        (case pr_status r of
           SUCCEEDED \<Rightarrow> length tr = 6 \<and> (\<exists>x. tn_call (ts ! 5) x = Some (Inr (DeliveredOutput (pr_output r) (PStr (pr_detail r)))))
         | CANCELLED \<Rightarrow> pr_output r = PDict [] \<and>
             (caused g ts (JobCancelled (pr_detail r)) \<or> (\<exists>d. dc_detail d = pr_detail r \<and> caused g ts (Refusal d)))
         | FAILED \<Rightarrow> pr_output r = PDict [])) \<and>
    (smooth g STAGE_ORDER ts (Request request) \<longrightarrow> (\<exists>r. fin = Finished (Some r) \<and> pr_status r = SUCCEEDED))"
proof -
  obtain m0 where m0: "machine_init (PStr job) = Inr m0" "mc_job m0 = job" "mc_result m0 = None" "mc_stage m0 = Queued"
    using assms(2,3) by (simp add: machine_init_def)
  let ?m = "snd (machine_start m0)"
  have m: "mc_stage ?m = stage.Collect" "mc_result ?m = None" "mc_job ?m = job" using m0 by (simp_all add: machine_start_def)
  have rem: "STAGE_ORDER = remaining (mc_stage ?m)" "STAGE_ORDER \<noteq> []" "mc_stage ?m \<noteq> Queued" "length STAGE_ORDER = 6"
    by (simp_all add: m(1) remaining_def STAGE_ORDER_def)
  obtain e m1 where loop: "stages_loop g STAGE_ORDER ts (Request request) ?m = (e, m1, tr)" and fin: "fin = conclude e clock m1"
    using assms(1) m0(1) by (auto simp: run_stages_def split: prod.splits)
  have ok: "loop_ok g STAGE_ORDER ts job e m1 tr" using stages_loop_ok [OF loop rem(1-3) m(2)] m(3) by simp
  have sm: "e = Completed" if "smooth g STAGE_ORDER ts (Request request)"
    using smooth_completes [OF that rem(1,3)] m(2) loop by auto
  show ?thesis
  proof (cases e)
    case Completed
    then show ?thesis using ok fin rem(4) by (auto simp: loop_ok_def conclude_def)
  next
    case Suspended
    then show ?thesis using fin sm by (auto simp: conclude_def)
  next
    case (Stopped r)
    then have none: "mc_result m1 = None" "mc_job m1 = job" "caused g ts r \<or> (\<exists>f. r = Fault f)"
      using ok by (simp_all add: loop_ok_def)
    show ?thesis
      using Stopped fin sm none
      by (cases r) (auto simp: conclude_def machine_cancel_def machine_fail_def ended_finish [OF none(1) assms(4)])
  qed
qed

section \<open>Witnesses\<close>

definition demo_gate :: gate where
  "demo_gate = gate_init ''demo'' [''net:a'']"

definition demo_gate_view :: policy_view where
  "demo_gate_view = \<lparr>pw_paused = Inr False, pw_enabled = (\<lambda>_. Inr True), pw_allows = (\<lambda>_ q. Inr (q = ''net:a'')),
     pw_ready = (\<lambda>_. Inr (True, []))\<rparr>"

text \<open>A stage that answers whatever it is handed.\<close>

definition demo_turn :: "stage_output \<Rightarrow> turn" where
  "demo_turn out = \<lparr>tn_view = demo_gate_view, tn_before = token_init ''j1'', tn_after = token_init ''j1'',
     tn_call = (\<lambda>_. Some (Inr out)), tn_clock = 5\<rparr>"

definition demo_turns :: "turn list" where
  "demo_turns = map demo_turn [CollectedOutput PNone, PreprocessedOutput PNone PNone,
     ResolvedOutput (pl_reference demo_lane) ''/net'' None None,
     InferenceOutput PNone None, PostprocessedOutput PNone, DeliveredOutput (PInt 3) (PStr [])]"

definition demo_submission :: job_submission where
  "demo_submission = \<lparr>sb_job = ''j1'', sb_payload = []\<rparr>"

lemma demo_smooth: "smooth demo_gate STAGE_ORDER demo_turns (Request demo_submission)"
  by (simp add: demo_turns_def demo_turn_def demo_gate_def gate_init_def demo_gate_view_def STAGE_ORDER_def admissible_def token_init_def)

theorem job_ends_once_for_its_reason_witness:
  "\<exists>r. fst (run_stages demo_gate ''j1'' demo_submission demo_turns 5) = Finished (Some r) \<and> pr_status r = SUCCEEDED \<and> pr_job r = ''j1''"
proof -
  obtain fin tr where f: "run_stages demo_gate ''j1'' demo_submission demo_turns 5 = (fin, tr)" by fastforce
  from job_ends_once_for_its_reason [OF f] demo_smooth
  obtain r where "fin = Finished (Some r)" "pr_status r = SUCCEEDED" "pr_job r = ''j1''" by (auto simp: MAX_JOB_ID_CHARS_def)
  with f show ?thesis by simp
qed

text \<open>The runtime is paused after the second stage.\<close>

definition demo_paused :: "turn list" where
  "demo_paused = take 2 demo_turns @ [(demo_turn (Foreign ''none''))\<lparr>tn_view := demo_gate_view\<lparr>pw_paused := Inr True\<rparr>\<rparr>]"

lemma demo_paused_run:
  "\<exists>r tr. run_stages demo_gate ''j1'' demo_submission demo_paused 5 = (Finished (Some r), tr) \<and> pr_status r = CANCELLED \<and> length tr = 2"
  by (simp add: demo_paused_def demo_turns_def demo_turn_def demo_gate_def gate_init_def demo_gate_view_def STAGE_ORDER_def
      token_init_def run_stages_def machine_init_def MAX_JOB_ID_CHARS_def machine_start_def require_policy_def evaluate_def
      READINESS_STAGES_def ADMITTED_def raise_if_cancelled_def guard_def machine_advance_def validate_timestamp_def
      refusing_def conclude_def ended_def machine_cancel_def machine_finish_def)

theorem stages_called_in_order_under_policy_witness:
  "\<exists>r tr. run_stages demo_gate ''j1'' demo_submission demo_paused 5 = (Finished (Some r), tr) \<and> pr_status r = CANCELLED \<and>
     length tr = 2 \<and> handed demo_gate STAGE_ORDER demo_paused (Request demo_submission) tr"
  using demo_paused_run stages_called_in_order_under_policy by blast

end
