(* ===== verification/Runner_Jobs.thy ===== *)
theory Runner_Jobs
  imports Pipeline_Runner
begin

text \<open>
  \<^verbatim>\<open>PipelineRunner.run\<close> and \<^verbatim>\<open>cancel\<close>: the jobs of one plugin as they come, wait and end.  The
  cancellation registry is shared with other plugins, whose jobs \<open>ru_foreign\<close> keeps track of for the
  statements only.
\<close>

section \<open>A runner\<close>

text \<open>A job that has been accepted executes its key, or waits for the job that does.\<close>

datatype live = Primary string nat | Joined nat

record runner =
  ru_plugin :: string
  ru_gate :: gate
  ru_flow :: "presult option flow_state"
  ru_registry :: registry
  ru_live :: "live dict"
  ru_foreign :: "string set"

datatype run_answer = Gives job_end | Faults fault | Waits

definition leave_run :: "(pyval \<Rightarrow> string) \<Rightarrow> bool \<Rightarrow> string \<Rightarrow> runner \<Rightarrow> runner" where
  "leave_run py ok job s = s\<lparr>ru_registry := release_job py ok job (ru_registry s), ru_live := dpop job (ru_live s)\<rparr>"

text \<open>\<^verbatim>\<open>except FlowRefusedError\<close>: the only stable exceptions of the flow controller.\<close>

definition refusal_result :: "string \<Rightarrow> exn \<Rightarrow> int \<Rightarrow> job_end" where
  "refusal_result job e clock = (case e of Stable c d \<Rightarrow> failed_result job c d clock | _ \<Rightarrow> Escaped e)"

definition with_flow :: "presult option flow \<Rightarrow> runner \<Rightarrow> runner" where
  "with_flow f s = s\<lparr>ru_flow := (ru_flow s)\<lparr>fs_flow := f\<rparr>\<rparr>"

definition run_begin ::
    "(pyval \<Rightarrow> string) \<Rightarrow> bool \<Rightarrow> bool \<Rightarrow> policy_view \<Rightarrow> int \<Rightarrow> string \<Rightarrow> string \<Rightarrow> runner \<Rightarrow> run_answer \<times> runner" where
  "run_begin py ok1 ok2 v clock job idempotency_key s =
     (let key = (if idempotency_key = [] then job else idempotency_key) in
      case require_policy (ru_gate s) v Queued of
        Inl (Inl f) \<Rightarrow> (Faults f, s)
      | Inl (Inr d) \<Rightarrow> (Gives (refused_result job (dc_detail d) clock), s)
      | Inr _ \<Rightarrow>
          (case track py ok1 (PStr job) (ru_plugin s) (ru_registry s) of
             Inl e \<Rightarrow> (Gives (Escaped e), s)
           | Inr (_, reg) \<Rightarrow>
               (let s1 = s\<lparr>ru_registry := reg\<rparr> in
                case flow_submit (fs_now (ru_flow s)) (PStr key) (fs_flow (ru_flow s)) of
                  (Replay r, f) \<Rightarrow> (Gives (Finished r), leave_run py ok2 job (with_flow f s1))
                | (Refused e, f) \<Rightarrow> (Gives (refusal_result job e clock), leave_run py ok2 job (with_flow f s1))
                | (Join i, f) \<Rightarrow> (Waits, (with_flow f s1)\<lparr>ru_live := dset job (Joined i) (ru_live s)\<rparr>)
                | (Start i, f) \<Rightarrow>
                    (Waits, s1\<lparr>ru_flow := (ru_flow s)\<lparr>fs_flow := f, fs_running := (key, i) # fs_running (ru_flow s)\<rparr>,
                               ru_live := dset job (Primary key i) (ru_live s)\<rparr>))))"

text \<open>
  The attempts flow control makes at a job: \<open>None\<close> one it gave up on in silence, \<open>Some\<close> one that went
  through the given turns.
\<close>

fun flow_attempts :: "gate \<Rightarrow> string \<Rightarrow> job_submission \<Rightarrow> int \<Rightarrow> turn list option list \<Rightarrow> presult option attempt list" where
  "flow_attempts g job rq clock [] = []"
| "flow_attempts g job rq clock (None # ts) = ATimeout # flow_attempts g job rq clock ts"
| "flow_attempts g job rq clock (Some t # ts) =
     (case fst (run_stages g job rq t clock) of
        Finished r \<Rightarrow> AOutcome (Returned r) # flow_attempts g job rq clock ts
      | Escaped e \<Rightarrow> AOutcome (Raised e) # flow_attempts g job rq clock ts
      | Unwound \<Rightarrow> AOutcome Cancelled # flow_attempts g job rq clock ts
      | Running \<Rightarrow> [])"

definition outcome_end :: "string \<Rightarrow> int \<Rightarrow> presult option call_outcome \<Rightarrow> job_end" where
  "outcome_end job clock r =
     (case r of Returned x \<Rightarrow> Finished x | Raised e \<Rightarrow> refusal_result job e clock | Cancelled \<Rightarrow> Unwound)"

definition run_end ::
    "(pyval \<Rightarrow> string) \<Rightarrow> bool \<Rightarrow> string \<Rightarrow> job_submission \<Rightarrow> turn list option list \<Rightarrow> int \<Rightarrow> string \<Rightarrow> runner \<Rightarrow>
     (job_end \<times> runner) option" where
  "run_end py ok seconds rq tries clock job s =
     (case dget (ru_live s) job of
        None \<Rightarrow> None
      | Some (Primary k i) \<Rightarrow>
          (case run_with_retries seconds (flow_attempts (ru_gate s) job rq clock tries) (fs_flow (ru_flow s)) of
             None \<Rightarrow> None
           | Some (r, f) \<Rightarrow>
               Some (outcome_end job clock r,
                     leave_run py ok job (s\<lparr>ru_flow := (ru_flow s)\<lparr>fs_flow := flow_finish (fs_now (ru_flow s)) k i r f,
                                                                  fs_running := remove1 (k, i) (fs_running (ru_flow s))\<rparr>\<rparr>)))
      | Some (Joined i) \<Rightarrow>
          (case fl_fut (fs_flow (ru_flow s)) i of
             Pending \<Rightarrow> None
           | Result x \<Rightarrow> Some (Finished x, leave_run py ok job s)
           | Failed e \<Rightarrow> Some (refusal_result job e clock, leave_run py ok job s)))"

text \<open>The task of a job that waits for another is cancelled: the shielded future goes on.\<close>

definition run_abandoned :: "(pyval \<Rightarrow> string) \<Rightarrow> bool \<Rightarrow> string \<Rightarrow> runner \<Rightarrow> runner" where
  "run_abandoned py ok job s =
     (case dget (ru_live s) job of Some (Joined i) \<Rightarrow> leave_run py ok job s | _ \<Rightarrow> s)"

definition runner_cancel :: "string \<Rightarrow> string \<Rightarrow> runner \<Rightarrow> bool \<times> runner" where
  "runner_cancel job detail s =
     (case registry_cancel job Caller detail (ru_registry s) of (b, r) \<Rightarrow> (b, s\<lparr>ru_registry := r\<rparr>))"

section \<open>Interleavings\<close>

inductive runner_step :: "(pyval \<Rightarrow> string) \<Rightarrow> string \<Rightarrow> runner \<Rightarrow> runner \<Rightarrow> bool" for py seconds where
  tick: "fs_now (ru_flow s) \<le> t \<Longrightarrow> runner_step py seconds s (s\<lparr>ru_flow := (ru_flow s)\<lparr>fs_now := t\<rparr>\<rparr>)"
| begin_job: "runner_step py seconds s (snd (run_begin py ok1 ok2 v clock job key s))"
| end_job: "run_end py ok seconds rq tries clock job s = Some (r, t) \<Longrightarrow> runner_step py seconds s t"
| abandon: "runner_step py seconds s (run_abandoned py ok job s)"
| cancel_job: "runner_step py seconds s (snd (runner_cancel job detail s))"
| others_cancel: "runner_step py seconds s (s\<lparr>ru_registry := snd (registry_cancel job rs detail (ru_registry s))\<rparr>)"
| others_cancel_all: "runner_step py seconds s (s\<lparr>ru_registry := snd (cancel_all rs detail (ru_registry s))\<rparr>)"
| others_track: "track py ok (PStr job) p (ru_registry s) = Inr (tok, reg) \<Longrightarrow>
     runner_step py seconds s (s\<lparr>ru_registry := reg, ru_foreign := insert job (ru_foreign s)\<rparr>)"
| others_release: "job \<in> ru_foreign s \<Longrightarrow>
     runner_step py seconds s (s\<lparr>ru_registry := release_job py ok job (ru_registry s), ru_foreign := ru_foreign s - {job}\<rparr>)"

inductive runner_reachable :: "(pyval \<Rightarrow> string) \<Rightarrow> string \<Rightarrow> runner \<Rightarrow> bool" for py seconds where
  init: "flow_init p n d r k ttl = Inr f \<Longrightarrow> registry_init journal m jf = Inr reg \<Longrightarrow>
     runner_reachable py seconds \<lparr>ru_plugin = p, ru_gate = g, ru_flow = \<lparr>fs_flow = f, fs_running = [], fs_now = now\<rparr>,
       ru_registry = reg, ru_live = [], ru_foreign = {}\<rparr>"
| step: "runner_reachable py seconds s \<Longrightarrow> runner_step py seconds s t \<Longrightarrow> runner_reachable py seconds t"

section \<open>Nothing is left behind\<close>

definition is_tracked :: "runner \<Rightarrow> string \<Rightarrow> bool" where
  "is_tracked s j = dhas (rg_tokens (ru_registry s)) j"

text \<open>The tokens are those of the live jobs and of other plugins' jobs.\<close>

definition tokens_inv :: "runner \<Rightarrow> bool" where
  "tokens_inv s \<longleftrightarrow> (\<forall>j. is_tracked s j \<longleftrightarrow> dhas (ru_live s) j \<or> j \<in> ru_foreign s) \<and> (\<forall>j. dhas (ru_live s) j \<longrightarrow> j \<notin> ru_foreign s)"

text \<open>The executing jobs are the work of the flow controller, and who waits, waits for one of them.\<close>

definition live_ok :: "'a flow_state \<Rightarrow> live dict \<Rightarrow> bool" where
  "live_ok f d \<longleftrightarrow>
     flow_inv f \<and>
     (\<forall>k i. (k, i) \<in> set (fs_running f) \<longleftrightarrow> (\<exists>j. dget d j = Some (Primary k i))) \<and>
     (\<forall>j j' k i. dget d j = Some (Primary k i) \<and> dget d j' = Some (Primary k i) \<longrightarrow> j = j') \<and>
     (\<forall>j i. dget d j = Some (Joined i) \<longrightarrow>
        i < fl_next (fs_flow f) \<and> (fl_fut (fs_flow f) i = Pending \<longrightarrow> (\<exists>k. (k, i) \<in> set (fs_running f))))"

definition live_inv :: "runner \<Rightarrow> bool" where
  "live_inv s \<longleftrightarrow> live_ok (ru_flow s) (ru_live s)"

lemma live_invI:
  assumes "flow_inv (ru_flow s)"
    and "\<And>k i. (k, i) \<in> set (fs_running (ru_flow s)) \<longleftrightarrow> (\<exists>j. dget (ru_live s) j = Some (Primary k i))"
    and "\<And>j j' k i. dget (ru_live s) j = Some (Primary k i) \<Longrightarrow> dget (ru_live s) j' = Some (Primary k i) \<Longrightarrow> j = j'"
    and "\<And>j i. dget (ru_live s) j = Some (Joined i) \<Longrightarrow> i < fl_next (fs_flow (ru_flow s))"
    and "\<And>j i. dget (ru_live s) j = Some (Joined i) \<Longrightarrow> fl_fut (fs_flow (ru_flow s)) i = Pending \<Longrightarrow>
      \<exists>k. (k, i) \<in> set (fs_running (ru_flow s))"
  shows "live_inv s"
proof -
  have "j = j'" if "dget (ru_live s) j = Some (Primary k i) \<and> dget (ru_live s) j' = Some (Primary k i)" for j j' k i
    using that assms(3) by blast
  then show ?thesis unfolding live_inv_def live_ok_def using assms(1,2,4,5) by (intro conjI allI impI)
qed

lemma live_invD:
  assumes "live_inv s"
  shows "flow_inv (ru_flow s)"
    and "(k, i) \<in> set (fs_running (ru_flow s)) \<longleftrightarrow> (\<exists>j. dget (ru_live s) j = Some (Primary k i))"
    and "dget (ru_live s) j = Some (Primary k i) \<Longrightarrow> dget (ru_live s) j' = Some (Primary k i) \<Longrightarrow> j = j'"
    and "dget (ru_live s) j = Some (Joined i) \<Longrightarrow> i < fl_next (fs_flow (ru_flow s))"
    and "dget (ru_live s) j = Some (Joined i) \<Longrightarrow> fl_fut (fs_flow (ru_flow s)) i = Pending \<Longrightarrow>
      \<exists>k. (k, i) \<in> set (fs_running (ru_flow s))"
  using assms unfolding live_inv_def live_ok_def by blast+

lemma cancel_tokens [simp]: "dhas (rg_tokens (snd (registry_cancel j rs d r))) j' = dhas (rg_tokens r) j'"
  by (auto simp: registry_cancel_def Let_def dhas_iff split: option.splits prod.splits)

lemma cancel_all_tokens [simp]: "dhas (rg_tokens (snd (cancel_all rs d r))) j' = dhas (rg_tokens r) j'"
  by (simp add: cancel_all_def dhas_iff dget_map_snd)

lemma release_tokens [simp]: "dhas (rg_tokens (release_job py ok j r)) j' \<longleftrightarrow> dhas (rg_tokens r) j' \<and> j' \<noteq> j"
  by (auto simp: release_job_def Let_def)

lemma track_has: "track py ok (PStr j) p r = Inr (t, r1) \<Longrightarrow> \<not> dhas (rg_tokens r) j \<and> (dhas (rg_tokens r1) j' \<longleftrightarrow> j' = j \<or> dhas (rg_tokens r) j')"
  by (frule track_tokens) auto

lemma leave_run_simps [simp]:
  "ru_flow (leave_run py ok j s) = ru_flow s" "ru_foreign (leave_run py ok j s) = ru_foreign s"
  "ru_live (leave_run py ok j s) = dpop j (ru_live s)" "is_tracked (leave_run py ok j s) j' \<longleftrightarrow> is_tracked s j' \<and> j' \<noteq> j"
  by (simp_all add: leave_run_def is_tracked_def)

text \<open>A beginning, by what comes of it.\<close>

lemma run_begin_cases:
  assumes "run_begin py ok1 ok2 v clock job key s = (a, t)"
  obtains "t = s" "a \<noteq> Waits"
  | tok reg r f where "track py ok1 (PStr job) (ru_plugin s) (ru_registry s) = Inr (tok, reg)" "a \<noteq> Waits"
      "flow_submit (fs_now (ru_flow s)) (PStr (if key = [] then job else key)) (fs_flow (ru_flow s)) = (r, f)" "\<forall>i. r \<noteq> Start i"
      "t = leave_run py ok2 job (with_flow f (s\<lparr>ru_registry := reg\<rparr>))"
  | tok reg i f where "track py ok1 (PStr job) (ru_plugin s) (ru_registry s) = Inr (tok, reg)" "a = Waits"
      "flow_submit (fs_now (ru_flow s)) (PStr (if key = [] then job else key)) (fs_flow (ru_flow s)) = (Join i, f)"
      "t = (with_flow f (s\<lparr>ru_registry := reg\<rparr>))\<lparr>ru_live := dset job (Joined i) (ru_live s)\<rparr>"
  | tok reg i f k where "track py ok1 (PStr job) (ru_plugin s) (ru_registry s) = Inr (tok, reg)" "a = Waits"
      "k = (if key = [] then job else key)"
      "flow_submit (fs_now (ru_flow s)) (PStr k) (fs_flow (ru_flow s)) = (Start i, f)"
      "t = s\<lparr>ru_registry := reg, ru_flow := (ru_flow s)\<lparr>fs_flow := f, fs_running := (k, i) # fs_running (ru_flow s)\<rparr>,
             ru_live := dset job (Primary k i) (ru_live s)\<rparr>"
proof (cases "require_policy (ru_gate s) v Queued")
  case (Inl x)
  then show ?thesis using assms that(1) by (cases x) (auto simp: run_begin_def)
next
  case (Inr u)
  show ?thesis
  proof (cases "track py ok1 (PStr job) (ru_plugin s) (ru_registry s)")
    case e: (Inl e)
    then show ?thesis using assms Inr by (intro that(1)) (auto simp: run_begin_def)
  next
    case tr: (Inr p)
    obtain tok reg where p: "p = (tok, reg)" by fastforce
    obtain r f where f: "flow_submit (fs_now (ru_flow s)) (PStr (if key = [] then job else key)) (fs_flow (ru_flow s)) = (r, f)"
      by fastforce
    note d = assms [unfolded run_begin_def Let_def Inr tr p f]
    show ?thesis
    proof (cases r)
      case (Replay x)
      then show ?thesis using d by (intro that(2) [OF tr [unfolded p] _ f]) auto
    next
      case (Refused e)
      then show ?thesis using d by (intro that(2) [OF tr [unfolded p] _ f]) auto
    next
      case (Join i)
      then show ?thesis using d f by (intro that(3) [OF tr [unfolded p]]) auto
    next
      case (Start i)
      then show ?thesis using d f by (intro that(4) [OF tr [unfolded p] _ refl]) auto
    qed
  qed
qed

lemma with_flow_simps [simp]:
  "ru_flow (with_flow f s) = (ru_flow s)\<lparr>fs_flow := f\<rparr>" "ru_live (with_flow f s) = ru_live s"
  "ru_foreign (with_flow f s) = ru_foreign s" "ru_registry (with_flow f s) = ru_registry s"
  "is_tracked (with_flow f s) j = is_tracked s j"
  by (simp_all add: with_flow_def is_tracked_def)

lemma begin_tokens:
  assumes "tokens_inv s" and "run_begin py ok1 ok2 v clock job key s = (a, t)"
  shows "tokens_inv t" and "a \<noteq> Waits \<Longrightarrow> dhas (ru_live t) j = dhas (ru_live s) j \<and> is_tracked t j = is_tracked s j"
    and "a = Waits \<Longrightarrow> \<not> is_tracked s job \<and> dhas (ru_live t) job"
proof -
  from assms(2) have "tokens_inv t \<and> (a \<noteq> Waits \<longrightarrow> dhas (ru_live t) j = dhas (ru_live s) j \<and> is_tracked t j = is_tracked s j) \<and>
    (a = Waits \<longrightarrow> \<not> is_tracked s job \<and> dhas (ru_live t) job)"
  proof (cases rule: run_begin_cases)
    case 1
    then show ?thesis using assms(1) by simp
  next
    case (2 tok reg r f)
    then show ?thesis using assms(1) track_has [OF 2(1)] by (auto simp: tokens_inv_def is_tracked_def leave_run_def)
  next
    case (3 tok reg i f)
    then show ?thesis using assms(1) track_has [OF 3(1)] by (auto simp: tokens_inv_def is_tracked_def)
  next
    case (4 tok reg i f k)
    then show ?thesis using assms(1) track_has [OF 4(1)] by (auto simp: tokens_inv_def is_tracked_def)
  qed
  then show "tokens_inv t" "a \<noteq> Waits \<Longrightarrow> dhas (ru_live t) j = dhas (ru_live s) j \<and> is_tracked t j = is_tracked s j"
    "a = Waits \<Longrightarrow> \<not> is_tracked s job \<and> dhas (ru_live t) job" by blast+
qed

lemma leave_tokens: "tokens_inv s \<Longrightarrow> dhas (ru_live s) j \<Longrightarrow> tokens_inv (leave_run py ok j s)"
  by (auto simp: tokens_inv_def)

lemma tokens_inv_flow [simp]: "tokens_inv (s\<lparr>ru_flow := f\<rparr>) = tokens_inv s"
  by (simp add: tokens_inv_def is_tracked_def)

lemma run_end_cases:
  assumes "run_end py ok seconds rq tries clock job s = Some (e, t)"
  obtains k i r f where "dget (ru_live s) job = Some (Primary k i)"
      "run_with_retries seconds (flow_attempts (ru_gate s) job rq clock tries) (fs_flow (ru_flow s)) = Some (r, f)"
      "e = outcome_end job clock r"
      "t = leave_run py ok job (s\<lparr>ru_flow := (ru_flow s)\<lparr>fs_flow := flow_finish (fs_now (ru_flow s)) k i r f,
         fs_running := remove1 (k, i) (fs_running (ru_flow s))\<rparr>\<rparr>)"
  | i where "dget (ru_live s) job = Some (Joined i)" "t = leave_run py ok job s"
      "case fl_fut (fs_flow (ru_flow s)) i of Pending \<Rightarrow> False | Result x \<Rightarrow> e = Finished x | Failed x \<Rightarrow> e = refusal_result job x clock"
  using assms by (auto simp: run_end_def split: option.splits live.splits flow_future.splits prod.splits)

lemma end_tokens: "tokens_inv s \<Longrightarrow> run_end py ok seconds rq tries clock job s = Some (e, t) \<Longrightarrow>
    tokens_inv t \<and> \<not> is_tracked t job \<and> \<not> dhas (ru_live t) job"
  by (erule run_end_cases) (auto intro!: leave_tokens simp: dhas_iff)

lemma runner_step_tokens: "runner_step py seconds s t \<Longrightarrow> tokens_inv s \<Longrightarrow> tokens_inv t"
proof (induction rule: runner_step.induct)
  case (begin_job s ok1 ok2 v clock job key)
  then show ?case using begin_tokens(1) by (metis prod.collapse)
next
  case (end_job ok rq tries clock job s r t)
  then show ?case using end_tokens by blast
next
  case (abandon s ok job)
  then show ?case
    using leave_tokens [of s job] by (auto simp: run_abandoned_def dhas_iff split: option.splits live.splits)
next
  case (others_track ok job p s tok reg)
  then show ?case using track_has [OF others_track(1)] by (auto simp: tokens_inv_def is_tracked_def)
next
  case (cancel_job s job detail)
  then show ?case by (simp add: runner_cancel_def tokens_inv_def is_tracked_def case_prod_unfold)
qed (auto simp: tokens_inv_def is_tracked_def)

lemma submit_join:
  assumes "flow_submit now (PStr k) f = (Join i, f')" and "dict_ok (fl_completed f)"
  shows "dget (fl_in_flight f) k = Some i"
proof -
  have e: "existing now k f = (Some (Join i), f')"
    using assms(1) by (auto simp: flow_submit_def validate_key_def Let_def split: sum.splits prod.splits option.splits if_splits)
  obtain x u where u: "retained now k f = (x, u)" by fastforce
  have "dget (fl_in_flight u) k = Some i" using e u by (auto simp: existing_def split: option.splits if_splits)
  then show ?thesis using retained_frame(1) [OF u assms(2)] by (simp add: same_core_def)
qed

lemma submit_no_start_core:
  assumes "flow_submit now (PStr k) f = (r, f')" and "\<forall>i. r \<noteq> Start i" and "dict_ok (fl_completed f)"
  shows "same_core f f'"
  using submit_answer [OF assms(1,2)] existing_frame(1) [OF _ assms(3)] by (auto simp: same_core_def)

text \<open>Nothing but beginnings and ends of executions matters to who waits for whom.\<close>

lemma live_inv_core:
  assumes "live_inv s" and "flow_inv ((ru_flow s)\<lparr>fs_flow := f\<rparr>)" and "same_core (fs_flow (ru_flow s)) f"
    and "ru_live t = ru_live s" and "ru_flow t = (ru_flow s)\<lparr>fs_flow := f\<rparr>"
  shows "live_inv t"
proof -
  have "fl_next f = fl_next (fs_flow (ru_flow s))" "fl_fut f = fl_fut (fs_flow (ru_flow s))"
    using assms(3) by (simp_all add: same_core_def)
  then show ?thesis using assms(1,2,4,5) unfolding live_inv_def live_ok_def by simp metis
qed

lemma live_inv_leave:
  assumes "live_inv s" and "dget (ru_live s) j = Some (Joined i) \<or> \<not> dhas (ru_live s) j"
  shows "live_inv (leave_run py ok j s)"
proof -
  have p: "dget (dpop j (ru_live s)) j' = Some (Primary k n) \<longleftrightarrow> dget (ru_live s) j' = Some (Primary k n)" for j' k n
    using assms(2) by (auto simp: dhas_iff)
  have q: "dget (dpop j (ru_live s)) j' = Some (Joined n) \<Longrightarrow> dget (ru_live s) j' = Some (Joined n)" for j' n
    by (simp split: if_splits)
  show ?thesis using assms(1) q unfolding live_inv_def live_ok_def leave_run_simps p by blast
qed

lemma flow_submit_inv:
  assumes "flow_inv s" and "flow_submit (fs_now s) (PStr k) (fs_flow s) = (r, f)" and "\<forall>i. r \<noteq> Start i"
  shows "flow_inv (s\<lparr>fs_flow := f\<rparr>)"
  using flow_step_inv [OF flow_step.answer [OF assms(2,3)] assms(1)] .

lemma begin_live:
  assumes "live_inv s" and "tokens_inv s" and "run_begin py ok1 ok2 v clock job key s = (a, t)"
  shows "live_inv t"
  using assms(3)
proof (cases rule: run_begin_cases)
  case 1
  then show ?thesis using assms(1) by simp
next
  case (2 tok reg r f)
  have fi: "flow_inv (ru_flow s)" using live_invD(1) [OF assms(1)] .
  then have ok: "dict_ok (fl_completed (fs_flow (ru_flow s)))" by (simp add: flow_inv_def Let_def)
  have "\<not> dhas (ru_live s) job" using track_has [OF 2(1)] assms(2) by (auto simp: tokens_inv_def is_tracked_def)
  moreover have "live_inv (with_flow f (s\<lparr>ru_registry := reg\<rparr>))"
    by (rule live_inv_core [OF assms(1) flow_submit_inv [OF fi 2(3,4)] submit_no_start_core [OF 2(3,4) ok]]) simp_all
  ultimately show ?thesis unfolding 2(5) by (intro live_inv_leave) simp_all
next
  case (3 tok reg i f)
  let ?k = "if key = [] then job else key"
  have fi: "flow_inv (ru_flow s)" using live_invD(1) [OF assms(1)] .
  then have ok: "dict_ok (fl_completed (fs_flow (ru_flow s)))" by (simp add: flow_inv_def Let_def)
  have new: "\<not> dhas (ru_live s) job" using track_has [OF 3(1)] assms(2) by (auto simp: tokens_inv_def is_tracked_def)
  have run: "(?k, i) \<in> set (fs_running (ru_flow s))" "i < fl_next (fs_flow (ru_flow s))"
    using submit_join [OF 3(3) ok] fi by (auto simp: flow_inv_def Let_def)
  have l: "live_inv (with_flow f (s\<lparr>ru_registry := reg\<rparr>))"
    using live_inv_core [OF assms(1) flow_submit_inv [OF fi 3(3)] submit_no_start_core [OF 3(3) _ ok]] by simp
  have p: "dget (dset job (Joined i) (ru_live s)) j = Some (Primary k n) \<longleftrightarrow> dget (ru_live s) j = Some (Primary k n)" for j k n
    using new by (auto simp: dhas_iff)
  have nx: "fl_next f = fl_next (fs_flow (ru_flow s))"
    using submit_no_start_core [OF 3(3) _ ok] by (simp add: same_core_def)
  have q: "dget (dset job (Joined i) (ru_live s)) j = Some (Joined n) \<Longrightarrow> j = job \<and> n = i \<or> dget (ru_live s) j = Some (Joined n)" for j n
    by (auto split: if_splits)
  note d = live_invD [OF l, simplified]
  have t: "fs_flow (ru_flow t) = f" "fs_running (ru_flow t) = fs_running (ru_flow s)" "ru_live t = dset job (Joined i) (ru_live s)"
    by (simp_all add: 3(4))
  show ?thesis
  proof (rule live_invI, unfold t p)
    show "flow_inv (ru_flow t)" using d(1) by (simp add: 3(4))
    fix k n
    show "(k, n) \<in> set (fs_running (ru_flow s)) \<longleftrightarrow> (\<exists>j. dget (ru_live s) j = Some (Primary k n))"
      using live_invD(2) [OF assms(1)] .
  next
    fix j j' k n
    assume "dget (ru_live s) j = Some (Primary k n)" "dget (ru_live s) j' = Some (Primary k n)"
    then show "j = j'" by (rule live_invD(3) [OF assms(1)])
  next
    fix j n
    assume "dget (dset job (Joined i) (ru_live s)) j = Some (Joined n)"
    then show "n < fl_next f" using q run(2) nx live_invD(4) [OF assms(1)] by fastforce
  next
    fix j n
    assume "dget (dset job (Joined i) (ru_live s)) j = Some (Joined n)" "fl_fut f n = Pending"
    then show "\<exists>k. (k, n) \<in> set (fs_running (ru_flow s))" using q run(1) live_invD(5) [OF l] by fastforce
  qed
next
  case (4 tok reg i f k)
  have fi: "flow_inv (ru_flow s)" using live_invD(1) [OF assms(1)] .
  then have ok: "dict_ok (fl_completed (fs_flow (ru_flow s)))" by (simp add: flow_inv_def Let_def)
  have new: "\<not> dhas (ru_live s) job" using track_has [OF 4(1)] assms(2) by (auto simp: tokens_inv_def is_tracked_def)
  obtain u where u: "existing (fs_now (ru_flow s)) k (fs_flow (ru_flow s)) = (None, u)" "i = fl_next u"
    "f = u\<lparr>fl_in_flight := dset k i (fl_in_flight u), fl_accepted := Suc (fl_accepted u),
           fl_fut := (fl_fut u)(i := Pending), fl_next := Suc i\<rparr>"
    by (rule submit_start [OF 4(4)])
  have core: "same_core (fs_flow (ru_flow s)) u" using existing_frame(1) [OF u(1) ok] .
  have inv: "flow_inv ((ru_flow s)\<lparr>fs_flow := f, fs_running := (k, i) # fs_running (ru_flow s)\<rparr>)"
    using flow_start_inv [OF fi 4(4)] .
  have fut: "fl_next f = Suc i" "i = fl_next (fs_flow (ru_flow s))"
    "\<And>n. n < i \<Longrightarrow> fl_fut f n = fl_fut (fs_flow (ru_flow s)) n"
    using u core by (simp_all add: same_core_def)
  have old: "i \<noteq> n" if "(k', n) \<in> set (fs_running (ru_flow s))" for k' n
    using fi that fut(2) by (auto simp: flow_inv_def Let_def)
  have p: "dget (dset job (Primary k i) (ru_live s)) j = Some (Primary k' n) \<longleftrightarrow>
      j = job \<and> k' = k \<and> n = i \<or> dget (ru_live s) j = Some (Primary k' n)" for j k' n
    using new by (auto simp: dhas_iff)
  have q: "dget (dset job (Primary k i) (ru_live s)) j = Some (Joined n) \<Longrightarrow> dget (ru_live s) j = Some (Joined n)" for j n
    by (auto split: if_splits)
  have oldp: "n \<noteq> i" if "dget (ru_live s) j = Some (Primary k' n)" for j k' n
    using old live_invD(2) [OF assms(1)] that by blast
  note d = live_invD [OF assms(1)]
  have t: "fs_flow (ru_flow t) = f" "fs_running (ru_flow t) = (k, i) # fs_running (ru_flow s)"
    "ru_live t = dset job (Primary k i) (ru_live s)"
    by (simp_all add: 4(5))
  show ?thesis
  proof (rule live_invI, unfold t p)
    show "flow_inv (ru_flow t)" using inv by (simp add: 4(5))
  next
    fix k' n
    show "(k', n) \<in> set ((k, i) # fs_running (ru_flow s)) \<longleftrightarrow>
        (\<exists>j. j = job \<and> k' = k \<and> n = i \<or> dget (ru_live s) j = Some (Primary k' n))"
      using d(2) by auto
  next
    fix j j' k' n
    assume "j = job \<and> k' = k \<and> n = i \<or> dget (ru_live s) j = Some (Primary k' n)"
      "j' = job \<and> k' = k \<and> n = i \<or> dget (ru_live s) j' = Some (Primary k' n)"
    then show "j = j'" using oldp d(3) by blast
  next
    fix j n
    assume "dget (dset job (Primary k i) (ru_live s)) j = Some (Joined n)"
    then show "n < fl_next f" using q d(4) fut(1,2) by fastforce
  next
    fix j n
    assume j: "dget (dset job (Primary k i) (ru_live s)) j = Some (Joined n)" and "fl_fut f n = Pending"
    have "n < i" using q [OF j] d(4) fut(2) by blast
    then have "fl_fut (fs_flow (ru_flow s)) n = Pending" using fut(3) \<open>fl_fut f n = Pending\<close> by simp
    then show "\<exists>k'. (k', n) \<in> set ((k, i) # fs_running (ru_flow s))" using q [OF j] d(5) by fastforce
  qed
qed

lemma finish_fut:
  "fl_fut (flow_finish now k i r f) i \<noteq> Pending" "n \<noteq> i \<Longrightarrow> fl_fut (flow_finish now k i r f) n = fl_fut f n"
  "fl_next (flow_finish now k i r f) = fl_next f"
  by (auto simp: flow_finish_def set_fut_def retain_def Let_def split: call_outcome.splits)

lemma end_live:
  assumes "live_inv s" and "run_end py ok seconds rq tries clock job s = Some (e, t)"
  shows "live_inv t"
  using assms(2)
proof (cases rule: run_end_cases)
  case (1 k i r f)
  note d = live_invD [OF assms(1)]
  let ?g = "flow_finish (fs_now (ru_flow s)) k i r f"
  have core: "same_core (fs_flow (ru_flow s)) f" "fl_completed f = fl_completed (fs_flow (ru_flow s))"
    using run_frame [OF 1(2)] by auto
  then have c: "fl_fut f = fl_fut (fs_flow (ru_flow s))" "fl_next f = fl_next (fs_flow (ru_flow s))" by (simp_all add: same_core_def)
  have ki: "(k, i) \<in> set (fs_running (ru_flow s))" using d(2) 1(1) by blast
  have fi: "flow_inv ((ru_flow s)\<lparr>fs_flow := f\<rparr>)"
    by (rule flow_inv_core [OF d(1) core(1)]) (use d(1) core(2) in \<open>simp_all add: flow_inv_def Let_def\<close>)
  have inv: "flow_inv (ru_flow t)"
    using flow_finish_inv [OF fi, of k i "fs_now (ru_flow s)" r] ki by (simp add: 1(4))
  have dist: "distinct (map fst (fs_running (ru_flow s)))" using d(1) by (simp add: flow_inv_def Let_def)
  then have rem: "set (remove1 (k, i) (fs_running (ru_flow s))) = set (fs_running (ru_flow s)) - {(k, i)}"
    by (simp add: distinct_map)
  have p: "dget (dpop job (ru_live s)) j = Some (Primary k' n) \<longleftrightarrow> dget (ru_live s) j = Some (Primary k' n) \<and> j \<noteq> job" for j k' n
    by auto
  have q: "dget (dpop job (ru_live s)) j = Some (Joined n) \<Longrightarrow> dget (ru_live s) j = Some (Joined n)" for j n
    by (simp split: if_splits)
  have t: "fs_flow (ru_flow t) = ?g" "fs_running (ru_flow t) = remove1 (k, i) (fs_running (ru_flow s))" "ru_live t = dpop job (ru_live s)"
    by (simp_all add: 1(4))
  show ?thesis
  proof (rule live_invI, unfold t p rem)
    show "flow_inv (ru_flow t)" by (rule inv)
  next
    fix k' n
    show "(k', n) \<in> set (fs_running (ru_flow s)) - {(k, i)} \<longleftrightarrow> (\<exists>j. dget (ru_live s) j = Some (Primary k' n) \<and> j \<noteq> job)"
    proof
      assume l: "(k', n) \<in> set (fs_running (ru_flow s)) - {(k, i)}"
      then obtain j where "dget (ru_live s) j = Some (Primary k' n)" using d(2) by blast
      moreover have "j \<noteq> job" using calculation 1(1) l by auto
      ultimately show "\<exists>j. dget (ru_live s) j = Some (Primary k' n) \<and> j \<noteq> job" by blast
    next
      assume "\<exists>j. dget (ru_live s) j = Some (Primary k' n) \<and> j \<noteq> job"
      then show "(k', n) \<in> set (fs_running (ru_flow s)) - {(k, i)}" using d(2,3) 1(1) by blast
    qed
  next
    fix j j' k' n
    assume "dget (ru_live s) j = Some (Primary k' n) \<and> j \<noteq> job" "dget (ru_live s) j' = Some (Primary k' n) \<and> j' \<noteq> job"
    then show "j = j'" using d(3) by blast
  next
    fix j n
    assume "dget (dpop job (ru_live s)) j = Some (Joined n)"
    then show "n < fl_next ?g" using d(4) [OF q] by (simp only: finish_fut c)
  next
    fix j n
    assume j: "dget (dpop job (ru_live s)) j = Some (Joined n)" and "fl_fut ?g n = Pending"
    then have "n \<noteq> i" "fl_fut (fs_flow (ru_flow s)) n = Pending" using finish_fut c(1) by metis+
    then show "\<exists>k'. (k', n) \<in> set (fs_running (ru_flow s)) - {(k, i)}" using d(5) [OF q [OF j]] by auto
  qed
next
  case (2 i)
  show ?thesis unfolding 2(2) by (rule live_inv_leave [OF assms(1) disjI1 [OF 2(1)]])
qed

lemma live_inv_registry: "live_inv s \<Longrightarrow> ru_flow t = ru_flow s \<Longrightarrow> ru_live t = ru_live s \<Longrightarrow> live_inv t"
  by (simp add: live_inv_def)

lemma live_inv_tick:
  assumes "live_inv s"
  shows "live_inv (s\<lparr>ru_flow := (ru_flow s)\<lparr>fs_now := t\<rparr>\<rparr>)"
proof (rule live_invI)
  note d = live_invD [OF assms]
  show "flow_inv (ru_flow (s\<lparr>ru_flow := (ru_flow s)\<lparr>fs_now := t\<rparr>\<rparr>))" using d(1) by (simp add: flow_inv_def)
qed (use live_invD [OF assms] in simp_all, blast?)

lemma runner_step_inv: "runner_step py seconds s t \<Longrightarrow> tokens_inv s \<Longrightarrow> live_inv s \<Longrightarrow> live_inv t"
proof (induction rule: runner_step.induct)
  case (tick s now)
  then show ?case by (simp add: live_inv_tick)
next
  case (begin_job s ok1 ok2 v clock job key)
  then show ?case using begin_live by (metis prod.collapse)
next
  case (end_job ok rq tries clock job s r t)
  then show ?case using end_live by blast
next
  case (abandon s ok job)
  then show ?case using live_inv_leave [of s job] by (auto simp: run_abandoned_def split: option.splits live.splits)
next
  case (cancel_job s job detail)
  then show ?case by (auto simp: runner_cancel_def split: prod.splits intro: live_inv_registry)
qed (auto intro: live_inv_registry)

lemma runner_reachable_inv: "runner_reachable py seconds s \<Longrightarrow> tokens_inv s \<and> live_inv s"
proof (induction rule: runner_reachable.induct)
  case (init p n d r k ttl f journal m jf reg g now)
  have "flow_inv \<lparr>fs_flow = f, fs_running = [], fs_now = now\<rparr>"
    using flow_reachable_inv [OF flow_reachable.init [OF init(1)]] .
  moreover have "rg_tokens reg = []" using init(2) by (auto simp: registry_init_def split: pyval.splits if_splits)
  ultimately show ?case by (simp add: tokens_inv_def is_tracked_def live_inv_def live_ok_def dhas_iff)
qed (use runner_step_tokens runner_step_inv in blast)

text \<open>C26. A runner leaves nothing behind and nobody waiting for nothing, in every interleaving of jobs that
  come, wait, end, are cancelled or abandoned, and of other plugins' use of the same registry: a job
  can be cancelled exactly while it is live; the executing jobs are the flow controller's work,
  each key one; and a job that waits for another's future waits for one that is settled or being
  executed.  However a job ends, its token is released.\<close>

theorem runner_leaves_nothing_behind:
  assumes "runner_reachable py seconds s"
  shows "(\<forall>j. is_tracked s j \<longleftrightarrow> dhas (ru_live s) j \<or> j \<in> ru_foreign s) \<and>
    (\<forall>k i. dget (fl_in_flight (fs_flow (ru_flow s))) k = Some i \<longleftrightarrow> (\<exists>j. dget (ru_live s) j = Some (Primary k i))) \<and>
    (\<forall>j i. dget (ru_live s) j = Some (Joined i) \<longrightarrow>
       fl_fut (fs_flow (ru_flow s)) i \<noteq> Pending \<or> (\<exists>j' k. dget (ru_live s) j' = Some (Primary k i))) \<and>
    (\<forall>j e t. run_end py ok seconds rq tries clock j s = Some (e, t) \<longrightarrow> \<not> is_tracked t j \<and> \<not> dhas (ru_live t) j)"
proof -
  have inv: "tokens_inv s" "live_inv s" using runner_reachable_inv [OF assms] by blast+
  have fl: "dget (fl_in_flight (fs_flow (ru_flow s))) k = Some i \<longleftrightarrow> (k, i) \<in> set (fs_running (ru_flow s))" for k i
    using live_invD(1) [OF inv(2)] by (simp add: flow_inv_def Let_def)
  show ?thesis
  proof (intro conjI allI impI)
    show "is_tracked s j \<longleftrightarrow> dhas (ru_live s) j \<or> j \<in> ru_foreign s" for j using inv(1) by (simp add: tokens_inv_def)
    show "dget (fl_in_flight (fs_flow (ru_flow s))) k = Some i \<longleftrightarrow> (\<exists>j. dget (ru_live s) j = Some (Primary k i))" for k i
      by (simp only: fl live_invD(2) [OF inv(2)])
    show "fl_fut (fs_flow (ru_flow s)) i \<noteq> Pending \<or> (\<exists>j' k. dget (ru_live s) j' = Some (Primary k i))"
      if "dget (ru_live s) j = Some (Joined i)" for j i
      using live_invD(5) [OF inv(2) that] live_invD(2) [OF inv(2)] by blast
    show "\<not> is_tracked t j" "\<not> dhas (ru_live t) j"
      if "run_end py ok seconds rq tries clock j s = Some (e, t)" for j e t
      using end_tokens [OF inv(1) that] by blast+
  qed
qed

text \<open>
  What is retained is whatever result the first job had, a refusal or a failure included, and the
  job that asks again is given that result, with the first job's id in it.
\<close>

lemma replay_is_the_first_jobs_result:
  assumes "require_policy (ru_gate s) v Queued = Inr ()"
    and "track py ok1 (PStr job) (ru_plugin s) (ru_registry s) = Inr (tok, reg)"
    and "validate_key (PStr key) = Inr key" and "key \<noteq> []"
    and "dget (fl_completed (fs_flow (ru_flow s))) key = Some (stored_at, Some r)"
    and "fs_now (ru_flow s) - stored_at \<le> fl_ttl (fs_flow (ru_flow s))"
  shows "fst (run_begin py ok1 ok2 v clock job key s) = Gives (Finished (Some r))"
  using assms by (simp add: run_begin_def flow_submit_def existing_def retained_def)

section \<open>A job that runs and one that joins it\<close>

definition demo_runner :: runner where
  "demo_runner = \<lparr>ru_plugin = ''demo'', ru_gate = demo_gate,
     ru_flow = \<lparr>fs_flow = projr (flow_init ''demo'' (PInt 2) (PInt 30) (PInt 0) (PInt 4) 60), fs_running = [], fs_now = 0\<rparr>,
     ru_registry = demo_registry\<lparr>rg_tokens := [], rg_entries := None\<rparr>, ru_live = [], ru_foreign = {}\<rparr>"

lemma demo_runner_reachable: "runner_reachable py seconds demo_runner"
proof -
  have i: "flow_init ''demo'' (PInt 2) (PInt 30) (PInt 0) (PInt 4) 60 =
      Inr (projr (flow_init ''demo'' (PInt 2) (PInt 30) (PInt 0) (PInt 4) 60) :: presult option flow)"
    by (simp add: flow_init_def positive_integer_def positive_number_def non_negative_integer_def MAX_IN_FLIGHT_LIMIT_def)
  have "registry_init True (PInt 4) Missing = Inr (demo_registry\<lparr>rg_tokens := [], rg_entries := None\<rparr>)"
    by (simp add: registry_init_def demo_registry_def)
  from runner_reachable.init [OF i this] show ?thesis by (simp add: demo_runner_def)
qed

definition demo_pair :: runner where
  "demo_pair = snd (run_begin (\<lambda>_. []) True True demo_gate_view 5 ''j2'' ''a''
     (snd (run_begin (\<lambda>_. []) True True demo_gate_view 5 ''j1'' ''a'' demo_runner)))"

lemma demo_pair_reachable: "runner_reachable (\<lambda>_. []) ''30'' demo_pair"
  unfolding demo_pair_def
  by (intro runner_reachable.step [OF _ runner_step.begin_job] demo_runner_reachable)

lemma demo_pair_live: "ru_live demo_pair = [(''j1'', Primary ''a'' 0), (''j2'', Joined 0)] \<and> ru_foreign demo_pair = {} \<and>
    fl_fut (fs_flow (ru_flow demo_pair)) 0 = Pending"
  by code_simp

theorem runner_leaves_nothing_behind_witness:
  "is_tracked demo_pair ''j1'' \<and> is_tracked demo_pair ''j2'' \<and> \<not> is_tracked demo_pair ''j3'' \<and>
   (\<exists>j k. dget (ru_live demo_pair) j = Some (Primary k 0))"
proof -
  have l: "dget (ru_live demo_pair) ''j1'' = Some (Primary ''a'' 0)" "dget (ru_live demo_pair) ''j2'' = Some (Joined 0)"
    "\<not> dhas (ru_live demo_pair) ''j3''" "ru_foreign demo_pair = {}" "fl_fut (fs_flow (ru_flow demo_pair)) 0 = Pending"
    using demo_pair_live by (simp_all add: dget_Cons dhas_iff)
  from runner_leaves_nothing_behind [OF demo_pair_reachable] have
    t: "\<And>j. is_tracked demo_pair j \<longleftrightarrow> dhas (ru_live demo_pair) j \<or> j \<in> ru_foreign demo_pair"
    and w: "\<And>j i. dget (ru_live demo_pair) j = Some (Joined i) \<Longrightarrow>
      fl_fut (fs_flow (ru_flow demo_pair)) i \<noteq> Pending \<or> (\<exists>j' k. dget (ru_live demo_pair) j' = Some (Primary k i))"
    by blast+
  from w [OF l(2)] show ?thesis using l t by (simp add: dhas_iff)
qed

end
