(* ===== verification/Output_Reading.thy ===== *)
theory Output_Reading
  imports OT_Prelude "HOL-Library.Char_ord" "HOL-Library.List_Lexorder"
begin

text \<open>
  \<^verbatim>\<open>src/omnitensor/outputcontract.py\<close> and \<^verbatim>\<open>src/omnitensor/forecastresult.py\<close>: what a model's output
  means, as its manifest states it.  A manifest's model is a JSON object.  An integer score is the
  float of its value, of which the rounding is not modelled; with a score that is not a number
  \<^verbatim>\<open>sorted\<close> compares inconsistently, and the order it then leaves is an argument.
\<close>

section \<open>The declared output\<close>

definition CLASSIFICATION :: string where "CLASSIFICATION = ''classification''"
definition DEFAULT_TOP_K :: int where "DEFAULT_TOP_K = 5"
definition MAX_TOP_K :: int where "MAX_TOP_K = 100"
definition MAX_LABELS :: nat where "MAX_LABELS = 100000"
definition MAX_LABEL_CHARS :: nat where "MAX_LABEL_CHARS = 160"

record output_spec =
  os_kind :: pyval
  os_top_k :: int
  os_labels :: "pyval option"

definition spec_reduces :: "output_spec \<Rightarrow> bool" where
  "spec_reduces s = (os_kind s = PStr CLASSIFICATION)"

text \<open>A labels field of \<^verbatim>\<open>null\<close> is no field.\<close>

definition declared_output :: "pyval \<Rightarrow> output_spec option res" where
  "declared_output model =
     (case model of
        PDict m \<Rightarrow>
          (case dget m ''outputContract'' of
             Some (PDict c) \<Rightarrow>
               (case dget c ''kind'' of
                  None \<Rightarrow> Inr None
                | Some kind \<Rightarrow>
                    (let top_k = (case dget c ''topK'' of Some (PInt n) \<Rightarrow> n | _ \<Rightarrow> DEFAULT_TOP_K)
                     in if top_k < 1 \<or> MAX_TOP_K < top_k then Inl ValueError
                        else Inr (Some \<lparr>os_kind = kind, os_top_k = top_k,
                               os_labels = (case dget c ''labels'' of Some PNone \<Rightarrow> None | x \<Rightarrow> x)\<rparr>)))
           | _ \<Rightarrow> Inr None)
      | _ \<Rightarrow> Inr None)"

text \<open>\<^verbatim>\<open>str.splitlines\<close> and \<^verbatim>\<open>str.strip\<close> over code points below 256.\<close>

definition line_break :: "char \<Rightarrow> bool" where
  "line_break c = ((of_char c :: nat) \<in> {10, 11, 12, 13, 28, 29, 30, 133})"

definition white :: "char \<Rightarrow> bool" where
  "white c = ((of_char c :: nat) \<in> {9, 10, 11, 12, 13, 28, 29, 30, 31, 32, 133, 160})"

definition strip_text :: "string \<Rightarrow> string" where
  "strip_text s = rev (dropWhile white (rev (dropWhile white s)))"

text \<open>A carriage return and the line feed after it are one break; the last line needs none.\<close>

fun split_lines :: "string \<Rightarrow> string \<Rightarrow> string list" where
  "split_lines acc [] = (if acc = [] then [] else [rev acc])"
| "split_lines acc [c] = (if line_break c then [rev acc] else [rev (c # acc)])"
| "split_lines acc (c # d # cs) =
     (if \<not> line_break c then split_lines (c # acc) (d # cs)
      else if (of_char c :: nat) = 13 \<and> (of_char d :: nat) = 10 then rev acc # split_lines [] cs
      else rev acc # split_lines [] (d # cs))"

definition parse_labels :: "string \<Rightarrow> string list" where
  "parse_labels text =
     take MAX_LABELS (map (take MAX_LABEL_CHARS) (filter (\<lambda>l. l \<noteq> []) (map strip_text (split_lines [] text))))"

section \<open>The reduction\<close>

definition as_score :: "pyval \<Rightarrow> pyfloat option" where
  "as_score v = (case v of PInt n \<Rightarrow> Some (Fin (of_int n)) | PFloat x \<Rightarrow> Some x | _ \<Rightarrow> None)"

text \<open>The innermost row, if every level above it has one row.\<close>

fun innermost :: "pyval \<Rightarrow> pyval list option" where
  "innermost (PList (PList r # rs)) = (if rs \<noteq> [] then None else innermost (PList r))"
| "innermost (PList []) = None"
| "innermost (PList vs) = Some vs"
| "innermost v = None"

definition scores :: "pyval \<Rightarrow> pyfloat list option" where
  "scores tensor =
     (case innermost tensor of
        None \<Rightarrow> None
      | Some vs \<Rightarrow> if list_all (\<lambda>v. as_score v \<noteq> None) vs then Some (map (the \<circ> as_score) vs) else None)"

text \<open>The order of the negated scores.\<close>

fun rank_key :: "pyfloat \<Rightarrow> nat \<times> rat" where
  "rank_key PosInf = (0, 0)"
| "rank_key (Fin q) = (1, - q)"
| "rank_key NegInf = (2, 0)"
| "rank_key NaN = (3, 0)"

definition ranked :: "(pyfloat list \<Rightarrow> nat list) \<Rightarrow> pyfloat list \<Rightarrow> nat list" where
  "ranked nan_order xs =
     (if NaN \<in> set xs then nan_order xs
      else map snd (sort (map (\<lambda>i. (rank_key (xs ! i), i)) [0..<length xs])))"

definition finite_score :: "pyfloat \<Rightarrow> bool" where
  "finite_score x = (case x of Fin _ \<Rightarrow> True | _ \<Rightarrow> False)"

definition reading_entry :: "string list \<Rightarrow> pyfloat list \<Rightarrow> nat \<Rightarrow> pyval" where
  "reading_entry labels xs i =
     PDict ([(''index'', PInt (int i)), (''score'', PFloat (xs ! i))] @
            (if i < length labels then [(''label'', PStr (labels ! i))] else []))"

definition top_indices :: "(pyfloat list \<Rightarrow> nat list) \<Rightarrow> nat \<Rightarrow> pyfloat list \<Rightarrow> nat list" where
  "top_indices nan_order k xs = filter (\<lambda>i. finite_score (xs ! i)) (take k (ranked nan_order xs))"

definition reduce_output :: "(pyfloat list \<Rightarrow> nat list) \<Rightarrow> output_spec option \<Rightarrow> pyval list \<Rightarrow> string list \<Rightarrow> pyval option res" where
  "reduce_output nan_order spec tensors labels =
     (case spec of
        None \<Rightarrow> Inr None
      | Some s \<Rightarrow>
          if os_top_k s < 1 \<or> MAX_TOP_K < os_top_k s then Inl ValueError
          else if \<not> spec_reduces s then Inr None
          else (case tensors of
                  [] \<Rightarrow> Inr None
                | t # _ \<Rightarrow>
                    (case scores t of
                       None \<Rightarrow> Inr None
                     | Some xs \<Rightarrow>
                         Inr (Some (PDict [(''kind'', os_kind s),
                           (''top'', PList (map (reading_entry labels xs) (top_indices nan_order (nat (os_top_k s)) xs)))])))))"

section \<open>Forecasts\<close>

definition FORECAST_KIND :: string where "FORECAST_KIND = ''forecast''"
definition MAX_FORECAST_NESTING :: nat where "MAX_FORECAST_NESTING = 3"
definition MAX_TARGET_CHARS :: nat where "MAX_TARGET_CHARS = 64"
definition MAX_HORIZON :: int where "MAX_HORIZON = 128"

definition valid_target :: "pyval option \<Rightarrow> bool" where
  "valid_target v = (case v of Some (PStr s) \<Rightarrow> 1 \<le> length s \<and> length s \<le> MAX_TARGET_CHARS | _ \<Rightarrow> False)"

definition valid_horizon :: "pyval option \<Rightarrow> bool" where
  "valid_horizon v = (case v of Some (PInt n) \<Rightarrow> 1 \<le> n \<and> n \<le> MAX_HORIZON | _ \<Rightarrow> False)"

definition finite_number :: "pyval \<Rightarrow> pyfloat option" where
  "finite_number v = (case v of PInt n \<Rightarrow> Some (Fin (of_int n)) | PFloat (Fin q) \<Rightarrow> Some (Fin q) | _ \<Rightarrow> None)"

definition forecast_invalid :: "string \<Rightarrow> exn" where
  "forecast_invalid detail = Stable ''forecast-output-invalid'' detail"

text \<open>Down to \<open>n\<close> levels of one element each.\<close>

fun unnest :: "nat \<Rightarrow> pyval \<Rightarrow> pyval res" where
  "unnest 0 v = Inr v"
| "unnest (Suc n) (PList vs) =
     (case vs of [v] \<Rightarrow> unnest n v | _ \<Rightarrow> Inl (forecast_invalid ''forecast must produce exactly one numeric value''))"
| "unnest (Suc n) v = Inr v"

definition single_finite_value :: "pyval \<Rightarrow> pyfloat res" where
  "single_finite_value tensors =
     (case tensors of
        PList _ \<Rightarrow>
          bind_res (unnest MAX_FORECAST_NESTING tensors) (\<lambda>v.
            case v of
              PList _ \<Rightarrow> Inl (forecast_invalid ''forecast output nesting exceeds supported lanes'')
            | PInt n \<Rightarrow> Inr (Fin (of_int n))
            | PFloat (Fin q) \<Rightarrow> Inr (Fin q)
            | PFloat _ \<Rightarrow> Inl (forecast_invalid ''forecast value must be finite'')
            | _ \<Rightarrow> Inl (forecast_invalid ''forecast value must be numeric''))
      | _ \<Rightarrow> Inl (forecast_invalid ''forecast must contain exactly one output tensor''))"

definition forecast_reading :: "pyval \<Rightarrow> pyval \<Rightarrow> pyval option res" where
  "forecast_reading model tensors =
     (case (case model of PDict m \<Rightarrow> dget m ''featureContract'' | _ \<Rightarrow> None) of
        Some (PDict c) \<Rightarrow>
          if dget c ''recipe'' \<noteq> Some (PStr ''forecast-v1'') then Inr None
          else if \<not> valid_target (dget c ''targetFeature'')
          then Inl (Stable ''forecast-contract-invalid'' ''targetFeature must be 1 to 64 characters'')
          else if \<not> valid_horizon (dget c ''horizon'')
          then Inl (Stable ''forecast-contract-invalid'' ''horizon must be an integer from 1 to 128'')
          else map_res (\<lambda>x. Some (PDict [(''kind'', PStr FORECAST_KIND), (''targetFeature'', the (dget c ''targetFeature'')),
                                         (''horizon'', the (dget c ''horizon'')), (''value'', PFloat x)]))
                 (single_finite_value tensors)
      | _ \<Rightarrow> Inr None)"

definition parse_forecast_reading :: "pyval \<Rightarrow> pyval option" where
  "parse_forecast_reading document =
     (case document of
        PDict d \<Rightarrow>
          if dget d ''kind'' \<noteq> Some (PStr FORECAST_KIND) then None
          else if set (dkeys d) \<noteq> {''kind'', ''targetFeature'', ''horizon'', ''value''} then None
          else if \<not> valid_target (dget d ''targetFeature'') \<or> \<not> valid_horizon (dget d ''horizon'') then None
          else (case Option.bind (dget d ''value'') finite_number of
                  None \<Rightarrow> None
                | Some x \<Rightarrow> Some (PDict [(''kind'', PStr FORECAST_KIND), (''targetFeature'', the (dget d ''targetFeature'')),
                                       (''horizon'', the (dget d ''horizon'')), (''value'', PFloat x)]))
      | _ \<Rightarrow> None)"

section \<open>What a reading says\<close>

text \<open>The best: greater scores first, among equals the smaller index.\<close>

definition better :: "pyfloat list \<Rightarrow> nat \<Rightarrow> nat \<Rightarrow> bool" where
  "better xs i j = ((rank_key (xs ! i), i) < (rank_key (xs ! j), j))"

lemma ranked_sorted:
  assumes "NaN \<notin> set xs"
  shows "sorted_wrt (better xs) (ranked nan_order xs)" and "mset (ranked nan_order xs) = mset [0..<length xs]"
proof -
  let ?ks = "map (\<lambda>i. (rank_key (xs ! i), i)) [0..<length xs]"
  have "distinct (sort ?ks)" by (simp add: distinct_map inj_on_def)
  then have "sorted_wrt (<) (sort ?ks)" using sorted_sort strict_sorted_iff by blast
  moreover have "better xs (snd p) (snd q)" if "p \<in> set (sort ?ks)" "q \<in> set (sort ?ks)" "p < q" for p q
    using that by (auto simp: better_def)
  ultimately have "sorted_wrt (\<lambda>p q. better xs (snd p) (snd q)) (sort ?ks)"
    by (rule sorted_wrt_mono_rel [rotated])
  then show "sorted_wrt (better xs) (ranked nan_order xs)" using assms by (simp add: ranked_def sorted_wrt_map)
  have "mset (map snd (sort ?ks)) = mset (map snd ?ks)" by (simp only: mset_map mset_sort)
  also have "map snd ?ks = [0..<length xs]" by (simp add: comp_def)
  finally show "mset (ranked nan_order xs) = mset [0..<length xs]" using assms by (simp only: ranked_def if_False)
qed

lemma single_finite: "single_finite_value t = Inr x \<Longrightarrow> \<exists>q. x = Fin q"
proof -
  assume a: "single_finite_value t = Inr x"
  then obtain vs v where "t = PList vs" "unnest MAX_FORECAST_NESTING t = Inr v"
    by (cases t) (auto simp: single_finite_value_def res_simps)
  with a show ?thesis by (cases v) (auto simp: single_finite_value_def split: pyfloat.splits)
qed

text \<open>What the forecast producer writes its reader accepts: a reading is exactly the declared target and
  horizon and one finite number, and parsing it gives it back unchanged.\<close>

theorem forecast_reading_round_trip:
  assumes "forecast_reading model tensors = Inr (Some r)"
  shows "parse_forecast_reading r = Some r"
proof -
  obtain c x where c: "valid_target (dget c ''targetFeature'')" "valid_horizon (dget c ''horizon'')" "single_finite_value tensors = Inr x"
    "r = PDict [(''kind'', PStr FORECAST_KIND), (''targetFeature'', the (dget c ''targetFeature'')),
                (''horizon'', the (dget c ''horizon'')), (''value'', PFloat x)]"
    using assms by (auto simp: forecast_reading_def res_simps split: option.splits pyval.splits if_splits)
  obtain q where q: "x = Fin q" using single_finite [OF c(3)] by blast
  obtain t h where th: "dget c ''targetFeature'' = Some t" "dget c ''horizon'' = Some h"
    using c(1,2) by (auto simp: valid_target_def valid_horizon_def split: option.splits)
  show ?thesis using c(1,2) unfolding c(4) q th
    by (simp add: parse_forecast_reading_def dget_Cons dkeys_def finite_number_def insert_commute)
qed

text \<open>The reading of a classification is its best scores: as many as asked for and there are, best first
  and by index among equals, none left out that is better than one put in, each with its own score
  and its own label where there is one.\<close>

theorem classification_reading_exact:
  assumes "reduce_output nan_order (Some s) (t # ts) labels = Inr (Some r)"
    and "scores t = Some xs" and "list_all finite_score xs"
  shows "\<exists>top. r = PDict [(''kind'', os_kind s), (''top'', PList (map (reading_entry labels xs) top))] \<and>
    length top = min (nat (os_top_k s)) (length xs) \<and> distinct top \<and> set top \<subseteq> {..<length xs} \<and>
    sorted_wrt (better xs) top \<and> (\<forall>i \<in> set top. \<forall>j < length xs. j \<notin> set top \<longrightarrow> better xs i j)"
proof -
  let ?k = "nat (os_top_k s)"
  have nan: "NaN \<notin> set xs" using assms(3) by (auto simp: list_all_iff finite_score_def)
  note rk = ranked_sorted [OF nan, of nan_order]
  let ?rk = "ranked nan_order xs"
  have st: "set ?rk = {..<length xs}" using mset_eq_setD [OF rk(2)] by (simp only: set_upt atLeast0LessThan)
  have len: "length ?rk = length xs" using mset_eq_length [OF rk(2)] by simp
  have dist: "distinct ?rk" using mset_eq_imp_distinct_iff [OF rk(2)] by simp
  have top: "top_indices nan_order ?k xs = take ?k ?rk"
    unfolding top_indices_def
  proof (rule filter_True, rule ballI)
    fix i assume "i \<in> set (take ?k ?rk)"
    then have "i < length xs" using st set_take_subset [of ?k ?rk] by blast
    then show "finite_score (xs ! i)" using assms(3) by (simp add: list_all_length)
  qed
  have out: "better xs i j" if "i \<in> set (take ?k ?rk)" "j < length xs" "j \<notin> set (take ?k ?rk)" for i j
  proof -
    have "j \<in> set (drop ?k ?rk)" using that(2,3) st by (metis append_take_drop_id lessThan_iff set_append Un_iff)
    then show ?thesis using rk(1) that(1) sorted_wrt_append [of "better xs" "take ?k ?rk" "drop ?k ?rk"] by simp
  qed
  have "r = PDict [(''kind'', os_kind s), (''top'', PList (map (reading_entry labels xs) (take ?k ?rk)))]"
    using assms(1,2) top by (auto simp: reduce_output_def split: if_splits)
  moreover have "sorted_wrt (better xs) (take ?k ?rk)" by (rule sorted_wrt_take [OF rk(1)])
  moreover have "length (take ?k ?rk) = min ?k (length xs)" using len by simp
  moreover have "distinct (take ?k ?rk)" using dist by simp
  moreover have "set (take ?k ?rk) \<subseteq> {..<length xs}" using set_take_subset [of ?k ?rk] st by simp
  ultimately show ?thesis using out by blast
qed

section \<open>Witnesses\<close>

definition demo_output :: output_spec where
  "demo_output = \<lparr>os_kind = PStr ''classification'', os_top_k = 2, os_labels = None\<rparr>"

definition demo_scores :: pyval where
  "demo_scores = PList [PList [PInt 1, PFloat (Fin (7 / 2)), PInt 2]]"

lemma demo_reading: "\<exists>r. reduce_output (\<lambda>_. []) (Some demo_output) [demo_scores] [''a'', ''b''] = Inr (Some r)"
  by (simp add: reduce_output_def demo_output_def spec_reduces_def CLASSIFICATION_def MAX_TOP_K_def demo_scores_def scores_def as_score_def)

theorem classification_reading_exact_witness:
  "\<exists>r top. reduce_output (\<lambda>_. []) (Some demo_output) [demo_scores] [''a'', ''b''] = Inr (Some r) \<and>
     r = PDict [(''kind'', PStr ''classification''),
                (''top'', PList (map (reading_entry [''a'', ''b''] [Fin 1, Fin (7 / 2), Fin 2]) top))] \<and> length top = 2"
proof -
  obtain r where r: "reduce_output (\<lambda>_. []) (Some demo_output) [demo_scores] [''a'', ''b''] = Inr (Some r)" using demo_reading by blast
  have "scores demo_scores = Some [Fin 1, Fin (7 / 2), Fin 2]" by (simp add: demo_scores_def scores_def as_score_def)
  from classification_reading_exact [OF r this] r show ?thesis by (auto simp: finite_score_def demo_output_def)
qed

definition demo_forecast :: pyval where
  "demo_forecast = PDict [(''featureContract'', PDict [(''recipe'', PStr ''forecast-v1''), (''targetFeature'', PStr ''load''), (''horizon'', PInt 3)])]"

lemma demo_forecast_made: "\<exists>r. forecast_reading demo_forecast (PList [PList [PInt 4]]) = Inr (Some r)"
  by (simp add: forecast_reading_def demo_forecast_def dget_Cons valid_target_def valid_horizon_def MAX_TARGET_CHARS_def MAX_HORIZON_def
      single_finite_value_def MAX_FORECAST_NESTING_def numeral_3_eq_3)

theorem forecast_reading_round_trip_witness:
  "\<exists>r. forecast_reading demo_forecast (PList [PList [PInt 4]]) = Inr (Some r) \<and> parse_forecast_reading r = Some r"
  using demo_forecast_made forecast_reading_round_trip by blast

end
