(* ===== verification/Orchestration.thy ===== *)
theory Orchestration
  imports Runner_Jobs Output_Reading
begin

text \<open>
  \<^verbatim>\<open>src/omnitensor/plugins/orchestration.py\<close>: the six stages of an inference profile, built from the
  dispatcher, the artifact resolver and the output contract, and the runner set in front of them.  An
  exception is its class and its text; a stable refusal counts as one class.  The progress reports are
  left out: they are sent before a stage and their own refusals are suppressed.
\<close>

section \<open>What a profile is built from\<close>

text \<open>
  \<open>in_json\<close> is the manifest object a declared model was read from; \<open>in_labels\<close> reads a file next to an
  artifact, \<open>None\<close> when it cannot be read.
\<close>

record inference =
  in_profile :: string
  in_model :: pyval
  in_json :: "model \<Rightarrow> pyval"
  in_resolve :: "string \<Rightarrow> fault + resolution"
  in_labels :: "string \<Rightarrow> string \<Rightarrow> string option"
  in_round :: "rat \<Rightarrow> rat"
  in_max_elements :: "int option"
  in_nan_order :: "pyfloat list \<Rightarrow> nat list"

text \<open>
  The world a stage meets: what the gate is told, the token, the clock, and for the stages that
  dispatch, the dispatcher, the scheduler and how the executor's futures come out.
\<close>

record stage_world =
  sw_view :: policy_view
  sw_before :: token
  sw_after :: token
  sw_clock :: int
  sw_dispatcher :: dispatcher
  sw_sched :: sched
  sw_futures :: "nat \<Rightarrow> (fault + pyval list \<times> pyfloat) option"

definition exn_fault :: "exn \<Rightarrow> fault" where
  "exn_fault e = (exn_name e, case e of Stable c d \<Rightarrow> c @ '': '' @ d | RuntimeError m \<Rightarrow> m | QueueFullError m \<Rightarrow> m | _ \<Rightarrow> [])"

definition orchestration_error :: "string \<Rightarrow> string \<Rightarrow> raised" where
  "orchestration_error c d = Fault (''OrchestrationError'', c @ '': '' @ d)"

definition wrong_input :: raised where
  "wrong_input = Fault (''AttributeError'', [])"

section \<open>The stages\<close>

definition collect_stage :: "carried \<Rightarrow> raised + stage_output" where
  "collect_stage x =
     (case x of
        Request rq \<Rightarrow> Inr (CollectedOutput (PDict [(''jobId'', PStr (sb_job rq)), (''payload'', PDict (sb_payload rq))]))
      | _ \<Rightarrow> Inl (orchestration_error ''request-invalid'' ''request must be a JobSubmission''))"

definition preprocess_stage :: "inference \<Rightarrow> carried \<Rightarrow> raised + stage_output" where
  "preprocess_stage env x =
     (case x of
        Output (CollectedOutput (PDict d)) \<Rightarrow>
          (case (dget d ''payload'', dget d ''jobId'') of
             (Some (PDict p), Some j) \<Rightarrow> Inr (PreprocessedOutput (PDict p) (PDict [(''jobId'', j), (''profileId'', PStr (in_profile env))]))
           | _ \<Rightarrow> Inl (Fault (''KeyError'', [])))
      | _ \<Rightarrow> Inl wrong_input)"

text \<open>\<^verbatim>\<open>dispatcher.prepare_lane\<close>.\<close>

definition prepare_profile :: "inference \<Rightarrow> stage_world \<Rightarrow> (prepared \<times> model) res" where
  "prepare_profile env w =
     bind_res (runnable_workload (sw_dispatcher w) (in_profile env)) (\<lambda>wl. prepare_lane (sw_dispatcher w) (in_profile env) wl)"

text \<open>
  The code asks a resolution for its \<^verbatim>\<open>detail\<close>, and an \<^verbatim>\<open>ArtifactResolution\<close> has a \<^verbatim>\<open>reason\<close> instead: what
  is reported is always the default.
\<close>

definition resolve_stage :: "inference \<Rightarrow> stage_world \<Rightarrow> carried \<Rightarrow> raised + stage_output" where
  "resolve_stage env w x =
     (case prepare_profile env w of
        Inl e \<Rightarrow> Inl (Fault (exn_fault e))
      | Inr (lane, m) \<Rightarrow>
          (case in_resolve env (ar_id (pl_reference lane)) of
             Inl f \<Rightarrow> Inl (Fault f)
           | Inr r \<Rightarrow>
               if \<not> re_ready r then Inl (orchestration_error ''artifact-unavailable'' ''artifact is not ready'')
               else (case re_path r of
                       None \<Rightarrow> Inl (Fault (''TypeError'', []))
                     | Some p \<Rightarrow> Inr (ResolvedOutput (pl_reference lane) p (Some (in_json env m)) (Some lane)))))"

text \<open>The job's own payload, bound at submission, and the lane of the resolve stage; \<open>None\<close>: still computing.\<close>

definition infer_stage :: "inference \<Rightarrow> stage_world \<Rightarrow> job_submission \<Rightarrow> carried \<Rightarrow> (raised + stage_output) option" where
  "infer_stage env w rq x =
     (case x of
        Output (ResolvedOutput ref path m lane) \<Rightarrow>
          (case lane of
             None \<Rightarrow> Some (Inl (orchestration_error ''prepared-dispatch-invalid'' ''resolve stage did not carry a prepared lane''))
           | Some p \<Rightarrow>
               (case dispatch_prepared (sw_dispatcher w) (in_profile env) (PDict (sb_payload rq)) p (sw_sched w) of
                  Inl e \<Rightarrow> Some (Inl (Fault (exn_fault e)))
                | Inr (i, _) \<Rightarrow>
                    (case sw_futures w i of
                       None \<Rightarrow> None
                     | Some (Inl f) \<Rightarrow> Some (Inl (Fault f))
                     | Some (Inr (outputs, duration)) \<Rightarrow>
                         (case inference_result_payload (in_round env) (in_max_elements env) outputs duration of
                            Inl e \<Rightarrow> Some (Inl (Fault (exn_fault e)))
                          | Inr v \<Rightarrow> Some (Inr (InferenceOutput v m))))))
      | _ \<Rightarrow> Some (Inl wrong_input))"

text \<open>
  \<^verbatim>\<open>_label_reader\<close>: the labels next to the artifact of a model, with the cache that is filled once a
  file was read (or none is declared).
\<close>

definition read_labels :: "inference \<Rightarrow> output_spec option \<Rightarrow> string \<Rightarrow> string list option \<Rightarrow> fault + string list \<times> string list option" where
  "read_labels env spec artifact_id cached =
     (case cached of
        Some ls \<Rightarrow> Inr (ls, cached)
      | None \<Rightarrow>
          (case Option.bind spec os_labels of
             Some (PStr (c # cs)) \<Rightarrow>
               (case in_resolve env artifact_id of
                  Inl f \<Rightarrow> Inl f
                | Inr r \<Rightarrow>
                    (case (re_ready r, re_path r) of
                       (True, Some p) \<Rightarrow>
                         (case in_labels env p (c # cs) of
                            Some text \<Rightarrow> Inr (parse_labels text, Some (parse_labels text))
                          | None \<Rightarrow> Inr ([], None))
                     | _ \<Rightarrow> Inr ([], None)))
           | _ \<Rightarrow> Inr ([], Some [])))"

text \<open>The labels are those its reader gives for the model at hand.\<close>

definition postprocess_stage :: "inference \<Rightarrow> (pyval \<Rightarrow> fault + string list) \<Rightarrow> carried \<Rightarrow> raised + stage_output" where
  "postprocess_stage env labels_of x =
     (case x of
        Output (InferenceOutput (PDict tensors) m) \<Rightarrow>
          (let lane = (case m of Some (PDict d) \<Rightarrow> PDict d | _ \<Rightarrow> in_model env);
               output = fold (\<lambda>(k, v). dset k v) tensors [(''profileId'', PStr (in_profile env))];
               outs = (case dget output ''outputs'' of Some (PList vs) \<Rightarrow> vs | _ \<Rightarrow> [])
           in case declared_output lane of
                Inl e \<Rightarrow> Inl (Fault (exn_fault e))
              | Inr spec \<Rightarrow>
                  (case forecast_reading lane (PList outs) of
                     Inl e \<Rightarrow> Inl (Fault (exn_fault e))
                   | Inr (Some r) \<Rightarrow> Inr (PostprocessedOutput (PDict (dset ''reading'' r output)))
                   | Inr None \<Rightarrow>
                       (case labels_of lane of
                          Inl f \<Rightarrow> Inl (Fault f)
                        | Inr labels \<Rightarrow>
                            (case reduce_output (in_nan_order env) spec outs labels of
                               Inl e \<Rightarrow> Inl (Fault (exn_fault e))
                             | Inr (Some r) \<Rightarrow> Inr (PostprocessedOutput (PDict (dset ''reading'' r output)))
                             | Inr None \<Rightarrow> Inr (PostprocessedOutput (PDict output))))))
      | _ \<Rightarrow> Inl wrong_input)"

text \<open>The callback, when there is one, may raise.\<close>

definition deliver_stage :: "fault option \<Rightarrow> carried \<Rightarrow> raised + stage_output" where
  "deliver_stage refused x =
     (case x of
        Output (PostprocessedOutput (PDict d)) \<Rightarrow>
          (case refused of Some f \<Rightarrow> Inl (Fault f) | None \<Rightarrow> Inr (DeliveredOutput (PDict d) (PStr [])))
      | _ \<Rightarrow> Inl wrong_input)"

fun stage_call ::
    "inference \<Rightarrow> (pyval \<Rightarrow> fault + string list) \<Rightarrow> fault option \<Rightarrow> job_submission \<Rightarrow> stage_world \<Rightarrow> stage \<Rightarrow> carried \<Rightarrow>
     (raised + stage_output) option" where
  "stage_call env labels_of refused rq w Collect x = Some (collect_stage x)"
| "stage_call env labels_of refused rq w Preprocess x = Some (preprocess_stage env x)"
| "stage_call env labels_of refused rq w Resolve x = Some (resolve_stage env w x)"
| "stage_call env labels_of refused rq w Infer x = infer_stage env w rq x"
| "stage_call env labels_of refused rq w Postprocess x = Some (postprocess_stage env labels_of x)"
| "stage_call env labels_of refused rq w Deliver x = Some (deliver_stage refused x)"
| "stage_call env labels_of refused rq w _ x = None"

definition inference_turn ::
    "inference \<Rightarrow> (pyval \<Rightarrow> fault + string list) \<Rightarrow> fault option \<Rightarrow> job_submission \<Rightarrow> stage \<times> stage_world \<Rightarrow> turn" where
  "inference_turn env labels_of refused rq p =
     (case p of (st, w) \<Rightarrow> \<lparr>tn_view = sw_view w, tn_before = sw_before w, tn_after = sw_after w,
        tn_call = stage_call env labels_of refused rq w st, tn_clock = sw_clock w\<rparr>)"

definition run_inference ::
    "gate \<Rightarrow> inference \<Rightarrow> (pyval \<Rightarrow> fault + string list) \<Rightarrow> fault option \<Rightarrow> job_submission \<Rightarrow> stage_world list \<Rightarrow> int \<Rightarrow>
     job_end \<times> (stage \<times> carried) list" where
  "run_inference g env labels_of refused rq ws clock =
     run_stages g (sb_job rq) rq (map (inference_turn env labels_of refused rq) (zip STAGE_ORDER ws)) clock"

section \<open>The gate's readiness, and who gets a runner\<close>

definition artifact_readiness :: "inference \<Rightarrow> stage_world \<Rightarrow> fault + bool \<times> string" where
  "artifact_readiness env w =
     (case prepare_profile env w of
        Inl e \<Rightarrow> Inr (False, in_profile env @ '' has no resolvable model: '' @ exn_name e)
      | Inr (lane, _) \<Rightarrow>
          (case in_resolve env (ar_id (pl_reference lane)) of
             Inl (name, _) \<Rightarrow> Inr (False, in_profile env @ '' has no resolvable model: '' @ name)
           | Inr r \<Rightarrow> if re_ready r then Inr (True, []) else Inr (False, in_profile env @ '' has no ready artifact'')))"

definition required_permissions :: "pyval dict \<Rightarrow> string list" where
  "required_permissions manifest =
     (let declared = (case dget manifest ''plugin'' of
            Some (PDict n) \<Rightarrow> (case dget n ''permissions'' of Some (PList ps) \<Rightarrow> Some (PList ps) | _ \<Rightarrow> dget manifest ''permissions'')
          | _ \<Rightarrow> dget manifest ''permissions'')
      in case declared of
           Some (PList ps) \<Rightarrow> sort (List.map_filter (\<lambda>v. case v of PStr s \<Rightarrow> Some s | _ \<Rightarrow> None) ps)
         | _ \<Rightarrow> [])"

definition MAX_RUNNERS :: nat where "MAX_RUNNERS = 256"

record runner_set =
  rs_runners :: "runner dict"
  rs_skipped :: "string dict"
  rs_interrupted :: "cancellation list"

text \<open>A profile that declares no model is skipped for that reason; the others get their gate.\<close>

definition build_runner :: "(string \<Rightarrow> gate \<Rightarrow> runner) \<Rightarrow> string \<Rightarrow> workload \<times> pyval dict \<Rightarrow> string + runner" where
  "build_runner mk profile_id p =
     (case p of (wl, manifest) \<Rightarrow>
        (case first_model wl of
           None \<Rightarrow> Inl (wl_id wl @ '' declares no model and cannot run inference'')
         | Some _ \<Rightarrow> Inr (mk profile_id (gate_init profile_id (required_permissions manifest)))))"

definition build_plugin_runners :: "(string \<Rightarrow> gate \<Rightarrow> runner) \<Rightarrow> (workload \<times> pyval dict) dict \<Rightarrow> runner_set res" where
  "build_plugin_runners mk workloads =
     (if MAX_RUNNERS < length workloads
      then Inl (Stable ''too-many-profiles'' (''at most '' @ nat_str MAX_RUNNERS @ '' profiles are wired''))
      else (let built = map (\<lambda>(p, wl). (p, build_runner mk p wl)) (sort_key fst workloads)
            in Inr \<lparr>rs_runners = List.map_filter (\<lambda>(p, r). case r of Inr x \<Rightarrow> Some (p, x) | Inl _ \<Rightarrow> None) built,
                    rs_skipped = List.map_filter (\<lambda>(p, r). case r of Inl d \<Rightarrow> Some (p, d) | Inr _ \<Rightarrow> None) built,
                    rs_interrupted = []\<rparr>))"

section \<open>The runner set, and the dispatcher in front of it\<close>

text \<open>Which runner a job goes to and what it is handed; the run itself is \<open>run_begin\<close>.\<close>

definition set_submit :: "runner_set \<Rightarrow> string \<Rightarrow> string \<Rightarrow> pyval \<Rightarrow> raised + runner \<times> job_submission" where
  "set_submit rs profile_id job_id payload =
     (case dget (rs_runners rs) profile_id of
        None \<Rightarrow> Inl (orchestration_error ''profile-not-runnable''
                  (case dget (rs_skipped rs) profile_id of Some why \<Rightarrow> why | None \<Rightarrow> ''no runner is wired for '' @ profile_id))
      | Some r \<Rightarrow>
          (case payload of
             PDict d \<Rightarrow> Inr (r, \<lparr>sb_job = job_id, sb_payload = d\<rparr>)
           | _ \<Rightarrow> Inl (orchestration_error ''request-invalid'' ''job payload must be an object'')))"

definition set_cancel :: "runner_set \<Rightarrow> string \<Rightarrow> string \<Rightarrow> string \<Rightarrow> bool \<times> runner option" where
  "set_cancel rs profile_id job_id detail =
     (case dget (rs_runners rs) profile_id of
        None \<Rightarrow> (False, None)
      | Some r \<Rightarrow> (case runner_cancel job_id detail r of (b, r1) \<Rightarrow> (b, Some r1)))"

text \<open>\<^verbatim>\<open>with_recovery\<close>: the interrupted jobs the journal reports are attached.\<close>

definition with_recovery :: "runner_set \<Rightarrow> cancellation list \<Rightarrow> runner_set" where
  "with_recovery rs found = rs\<lparr>rs_interrupted := found\<rparr>"

text \<open>\<^verbatim>\<open>RunnerBackedDispatcher\<close>: a profile without a runner is dispatched as before.\<close>

definition routed_to_runner :: "runner_set \<Rightarrow> string \<Rightarrow> bool" where
  "routed_to_runner rs workload_id = dhas (rs_runners rs) workload_id"

definition pipeline_failed :: "string \<Rightarrow> string \<Rightarrow> fault" where
  "pipeline_failed status detail =
     (''PipelineFailedError'', if detail = [] then status else status @ '': '' @ detail)"

definition pipeline_answer :: "presult option \<Rightarrow> fault + pyval dict" where
  "pipeline_answer result =
     (case result of
        None \<Rightarrow> Inl (pipeline_failed ''unknown'' [])
      | Some r \<Rightarrow>
          if pr_status r \<noteq> SUCCEEDED then Inl (pipeline_failed (status_str (pr_status r)) (pr_detail r))
          else Inr (case pr_output r of PDict d \<Rightarrow> d | v \<Rightarrow> [(''value'', v)]))"

section \<open>A job from its request to its answer\<close>

text \<open>A loop that completes, a stage at a time.\<close>

lemma completed_step:
  assumes "stages_loop g (st # sts) (map (inference_turn env lb rf rq) (zip (st # sts) ws)) x m = (Completed, m1, tr)"
  obtains w ws' out m2 tr' where "ws = w # ws'" "stage_call env lb rf rq w st x = Some (Inr out)"
    "machine_advance out (PInt (sw_clock w)) m = (Inr (), m2)"
    "stages_loop g sts (map (inference_turn env lb rf rq) (zip sts ws')) (Output out) m2 = (Completed, m1, tr')"
proof (cases ws)
  case Nil
  then show ?thesis using assms by simp
next
  case (Cons w ws')
  have "stages_loop g (st # sts) (inference_turn env lb rf rq (st, w) # map (inference_turn env lb rf rq) (zip sts ws')) x m =
      (Completed, m1, tr)"
    using assms by (simp only: Cons zip_Cons_Cons list.map)
  then show ?thesis
    by (cases rule: turn_cases) (use that Cons in \<open>simp_all add: inference_turn_def\<close>)
qed

text \<open>The outputs of the stages one after the other; the last is the result.\<close>

definition chained ::
    "inference \<Rightarrow> (pyval \<Rightarrow> fault + string list) \<Rightarrow> fault option \<Rightarrow> job_submission \<Rightarrow> stage list \<Rightarrow> stage_world list \<Rightarrow> carried \<Rightarrow>
     stage_output list \<Rightarrow> bool" where
  "chained env lb rf rq sts ws x outs \<longleftrightarrow>
     length outs = length sts \<and> length sts \<le> length ws \<and>
     (\<forall>i < length sts. stage_call env lb rf rq (ws ! i) (sts ! i) (if i = 0 then x else Output (outs ! (i - 1))) = Some (Inr (outs ! i)))"

lemma chained_Cons:
  assumes "stage_call env lb rf rq w st x = Some (Inr out)" and "chained env lb rf rq sts ws (Output out) outs"
  shows "chained env lb rf rq (st # sts) (w # ws) x (out # outs)"
proof -
  have "stage_call env lb rf rq ((w # ws) ! i) ((st # sts) ! i) (if i = 0 then x else Output ((out # outs) ! (i - 1))) =
      Some (Inr ((out # outs) ! i))" if "i < length (st # sts)" for i
  proof (cases i)
    case (Suc j)
    then show ?thesis using assms(2) that by (cases j) (auto simp: chained_def dest: spec [of _ j])
  qed (simp add: assms(1))
  then show ?thesis using assms(2) by (simp add: chained_def)
qed

lemma completed_chain:
  "stages_loop g sts (map (inference_turn env lb rf rq) (zip sts ws)) x m = (Completed, m1, tr) \<Longrightarrow> mc_result m1 = Some r \<Longrightarrow>
   sts = remaining (mc_stage m) \<Longrightarrow> sts \<noteq> [] \<Longrightarrow> mc_stage m \<noteq> Queued \<Longrightarrow> mc_result m = None \<Longrightarrow>
   \<exists>outs d. chained env lb rf rq sts ws x outs \<and> last outs = DeliveredOutput (pr_output r) d"
proof (induction sts arbitrary: ws x m tr)
  case (Cons st sts)
  obtain w ws' out m2 tr' where w: "ws = w # ws'" "stage_call env lb rf rq w st x = Some (Inr out)"
    and adv: "machine_advance out (PInt (sw_clock w)) m = (Inr (), m2)"
    and l: "stages_loop g sts (map (inference_turn env lb rf rq) (zip sts ws')) (Output out) m2 = (Completed, m1, tr')"
    by (rule completed_step [OF Cons.prems(1)])
  note suc = advance_success [OF adv Cons.prems(6)]
  obtain c st' where st: "transitions (mc_stage m) = Some (c, st')" "remaining st' = sts"
    using remaining_Cons Cons.prems(3,5) by metis
  show ?case
  proof (cases "mc_stage m = Deliver")
    case True
    then have e: "sts = []" using Cons.prems(3) by (simp add: remaining_def STAGE_ORDER_def)
    then have "m1 = m2" using l by simp
    moreover obtain d where "out = DeliveredOutput (pr_output r) (PStr d)" using suc(3) [OF True] calculation Cons.prems(2) by auto
    ultimately show ?thesis using chained_Cons [OF w(2), of "[]" ws' "[]"] e w(1)
      by (intro exI [of _ "[out]"]) (auto simp: chained_def)
  next
    case False
    then have m2: "mc_result m2 = None" "mc_stage m2 = st'" using suc(2) st(1) by auto
    have s': "st' \<noteq> Terminal" "st' \<noteq> Queued" using st(1) False by (cases "mc_stage m"; auto)+
    then have sts: "sts = remaining (mc_stage m2)" "sts \<noteq> []" "mc_stage m2 \<noteq> Queued" using st(2) m2 remaining_Nil by auto
    obtain outs d where o: "chained env lb rf rq sts ws' (Output out) outs" "last outs = DeliveredOutput (pr_output r) d"
      using Cons.IH [OF l Cons.prems(2) sts m2(1)] by blast
    then have "outs \<noteq> []" using sts(2) by (auto simp: chained_def)
    then show ?thesis using chained_Cons [OF w(2) o(1)] o(2) w(1) by (intro exI [of _ "out # outs"]) auto
  qed
qed simp

lemma resolve_stage_ok:
  "resolve_stage env w x = Inr out \<longleftrightarrow>
     (\<exists>lane m r p. prepare_profile env w = Inr (lane, m) \<and> in_resolve env (ar_id (pl_reference lane)) = Inr r \<and> re_ready r \<and>
        re_path r = Some p \<and> out = ResolvedOutput (pl_reference lane) p (Some (in_json env m)) (Some lane))"
  by (auto simp: resolve_stage_def split: sum.splits option.splits prod.splits if_splits)

lemma infer_stage_ok:
  "infer_stage env w rq (Output (ResolvedOutput ref p m (Some lane))) = Some (Inr out) \<longleftrightarrow>
     (\<exists>i s outputs duration v.
        dispatch_prepared (sw_dispatcher w) (in_profile env) (PDict (sb_payload rq)) lane (sw_sched w) = Inr (i, s) \<and>
        sw_futures w i = Some (Inr (outputs, duration)) \<and>
        inference_result_payload (in_round env) (in_max_elements env) outputs duration = Inr v \<and> out = InferenceOutput v m)"
  by (auto simp: infer_stage_def split: sum.splits option.splits prod.splits)

lemma result_payload_fields:
  assumes "inference_result_payload rnd n outputs duration = Inr v"
  obtains xs q where "v = PDict [(''outputs'', PList xs), (''durationMs'', PFloat (Fin q))]"
proof (cases duration)
  case (Fin q)
  then show ?thesis using assms that by (auto simp: inference_result_payload_def bind_res_eq_Inr)
qed (use assms in \<open>auto simp: inference_result_payload_def bind_res_eq_Inr\<close>)

lemma postprocess_stage_ok:
  assumes "postprocess_stage env lb (Output (InferenceOutput (PDict [(''outputs'', o1), (''durationMs'', t1)]) m)) = Inr out"
  shows "\<exists>reading. out = PostprocessedOutput (PDict ([(''profileId'', PStr (in_profile env)), (''outputs'', o1), (''durationMs'', t1)] @ reading)) \<and>
    (reading = [] \<or> (\<exists>r. reading = [(''reading'', r)]))"
proof -
  let ?base = "[(''profileId'', PStr (in_profile env)), (''outputs'', o1), (''durationMs'', t1)]"
  define lane where "lane = (case m of Some (PDict d) \<Rightarrow> PDict d | _ \<Rightarrow> in_model env)"
  have base: "fold (\<lambda>(k, v). dset k v) [(''outputs'', o1), (''durationMs'', t1)] [(''profileId'', PStr (in_profile env))] = ?base"
    and reading: "dset ''reading'' r ?base = ?base @ [(''reading'', r)]" for r
    by (simp_all add: dset_def)
  define outs where "outs = (case dget ?base ''outputs'' of Some (PList vs) \<Rightarrow> vs | _ \<Rightarrow> [])"
  note d = assms [unfolded postprocess_stage_def carried.case stage_output.case pyval.case Let_def base, folded lane_def,
      unfolded reading, folded outs_def]
  have "out = PostprocessedOutput (PDict ?base) \<or> (\<exists>r. out = PostprocessedOutput (PDict (?base @ [(''reading'', r)])))"
    using d by (auto split: sum.splits option.splits)
  then show ?thesis by (metis append_Nil2)
qed

lemma ended_status:
  assumes "ended (machine_finish st (PDict []) d c m) = Finished (Some r)" and "mc_result m = None"
  shows "pr_status r = st"
  using assms by (auto simp: ended_def machine_finish_def split: sum.splits pyval.splits)

lemma succeeded_completed:
  assumes "run_stages g job rq ts clock = (Finished (Some r), tr)" and "pr_status r = SUCCEEDED"
  obtains m0 m where "stages_loop g STAGE_ORDER ts (Request rq) m0 = (Completed, m, tr)" "mc_stage m0 = stage.Collect"
    "mc_result m0 = None" "mc_result m = Some r"
proof -
  obtain i where i: "machine_init (PStr job) = Inr i" using assms(1) by (auto simp: run_stages_def split: sum.splits)
  let ?m = "snd (machine_start i)"
  have m: "mc_stage ?m = stage.Collect" "mc_result ?m = None"
    using i by (auto simp: machine_init_def machine_start_def split: if_splits)
  obtain e m1 where loop: "stages_loop g STAGE_ORDER ts (Request rq) ?m = (e, m1, tr)" and fin: "conclude e clock m1 = Finished (Some r)"
    using assms(1) i by (auto simp: run_stages_def split: prod.splits)
  have rem: "STAGE_ORDER = remaining (mc_stage ?m)" "STAGE_ORDER \<noteq> []" "mc_stage ?m \<noteq> Queued"
    by (simp_all add: m(1) remaining_def STAGE_ORDER_def)
  note ok = stages_loop_ok [OF loop rem m(2)]
  show ?thesis
  proof (cases e)
    case Completed
    then show ?thesis using that [of ?m m1] loop m fin by (simp add: conclude_def)
  next
    case (Stopped x)
    then have "mc_result m1 = None" using ok by (simp add: loop_ok_def)
    then show ?thesis
      using fin Stopped assms(2) ended_status [of CANCELLED] ended_status [of FAILED]
      by (cases x) (auto simp: conclude_def machine_cancel_def machine_fail_def)
  qed (use fin in \<open>simp add: conclude_def\<close>)
qed

text \<open>What the stages of a chain did, from the lane to the output.\<close>

lemma chained_stages:
  assumes "chained env labels_of refused rq STAGE_ORDER ws (Request rq) outs" and "last outs = DeliveredOutput fin d"
  obtains lane m res p i s outputs duration xs q reading where
    "prepare_profile env (ws ! 2) = Inr (lane, m)" "in_resolve env (ar_id (pl_reference lane)) = Inr res" "re_ready res"
    "dispatch_prepared (sw_dispatcher (ws ! 3)) (in_profile env) (PDict (sb_payload rq)) lane (sw_sched (ws ! 3)) = Inr (i, s)"
    "sw_futures (ws ! 3) i = Some (Inr (outputs, duration))"
    "inference_result_payload (in_round env) (in_max_elements env) outputs duration =
       Inr (PDict [(''outputs'', PList xs), (''durationMs'', PFloat (Fin q))])"
    "fin = PDict ([(''profileId'', PStr (in_profile env)), (''outputs'', PList xs), (''durationMs'', PFloat (Fin q))] @ reading)"
    "reading = [] \<or> (\<exists>x. reading = [(''reading'', x)])"
proof -
  have six_stages: "length STAGE_ORDER = 6" by (simp add: STAGE_ORDER_def)
  have len: "length outs = 6" using assms(1) by (simp add: chained_def STAGE_ORDER_def)
  then have "last outs = outs ! 5" by (subst last_conv_nth) auto
  then have six: "outs ! 5 = DeliveredOutput fin d" using assms(2) by simp
  have call: "stage_call env labels_of refused rq (ws ! i) (STAGE_ORDER ! i) (Output (outs ! (i - 1))) = Some (Inr (outs ! i))"
    if "0 < i" "i < 6" for i
    using assms(1) that six_stages unfolding chained_def by (metis not_gr_zero)
  have c2: "resolve_stage env (ws ! 2) (Output (outs ! 1)) = Inr (outs ! 2)" using call [of 2] by (simp add: STAGE_ORDER_def)
  have c3: "infer_stage env (ws ! 3) rq (Output (outs ! 2)) = Some (Inr (outs ! 3))" using call [of 3] by (simp add: STAGE_ORDER_def)
  have c4: "postprocess_stage env labels_of (Output (outs ! 3)) = Inr (outs ! 4)" using call [of 4] by (simp add: STAGE_ORDER_def)
  have c5: "deliver_stage refused (Output (outs ! 4)) = Inr (outs ! 5)" using call [of 5] by (simp add: STAGE_ORDER_def)
  obtain lane m res p where rs: "prepare_profile env (ws ! 2) = Inr (lane, m)" "in_resolve env (ar_id (pl_reference lane)) = Inr res"
      "re_ready res" and o2: "outs ! 2 = ResolvedOutput (pl_reference lane) p (Some (in_json env m)) (Some lane)"
    using c2 by (auto simp: resolve_stage_ok)
  obtain i s outputs duration v where inf: "dispatch_prepared (sw_dispatcher (ws ! 3)) (in_profile env) (PDict (sb_payload rq)) lane (sw_sched (ws ! 3)) = Inr (i, s)"
      "sw_futures (ws ! 3) i = Some (Inr (outputs, duration))"
    and v: "inference_result_payload (in_round env) (in_max_elements env) outputs duration = Inr v" "outs ! 3 = InferenceOutput v (Some (in_json env m))"
    using c3 unfolding o2 infer_stage_ok by blast
  obtain xs q where enc: "v = PDict [(''outputs'', PList xs), (''durationMs'', PFloat (Fin q))]" by (rule result_payload_fields [OF v(1)])
  obtain reading where rd: "outs ! 4 = PostprocessedOutput (PDict ([(''profileId'', PStr (in_profile env)), (''outputs'', PList xs),
      (''durationMs'', PFloat (Fin q))] @ reading))" "reading = [] \<or> (\<exists>x. reading = [(''reading'', x)])"
    using postprocess_stage_ok c4 unfolding v(2) enc by blast
  have "fin = PDict ([(''profileId'', PStr (in_profile env)), (''outputs'', PList xs), (''durationMs'', PFloat (Fin q))] @ reading)"
    using c5 unfolding six rd(1) by (simp add: deliver_stage_def split: option.splits)
  with that [OF rs inf v(1) [unfolded enc] _ rd(2)] show ?thesis by blast
qed


section \<open>A run on the demonstration dispatcher\<close>

definition demo_inference :: inference where
  "demo_inference = \<lparr>in_profile = ''p'', in_model = PNone, in_json = (\<lambda>_. PNone),
     in_resolve = (\<lambda>_. Inr \<lparr>re_ready = True, re_path = Some ''/net'', re_reason = []\<rparr>), in_labels = (\<lambda>_ _. None),
     in_round = (\<lambda>q. q), in_max_elements = Some 4, in_nan_order = (\<lambda>_. [])\<rparr>"

definition demo_world :: stage_world where
  "demo_world = \<lparr>sw_view = demo_gate_view, sw_before = token_init ''j1'', sw_after = token_init ''j1'', sw_clock = 5,
     sw_dispatcher = demo_dispatcher, sw_sched = demo_idle, sw_futures = (\<lambda>_. Some (Inr ([PList [PInt 3]], Fin 2)))\<rparr>"

definition demo_job :: job_submission where
  "demo_job = \<lparr>sb_job = ''j1'', sb_payload = [(''inputs'', PList [PList [PInt 1, PInt 2]])]\<rparr>"

lemma demo_queued: "map_res fst (dispatch_prepared demo_dispatcher ''p'' demo_payload demo_lane demo_idle) = Inr 0"
  by code_simp

lemma demo_inference_run:
  "\<exists>r tr. run_inference demo_gate demo_inference (\<lambda>_. Inr []) None demo_job (replicate 6 demo_world) 5 = (Finished (Some r), tr) \<and>
     pr_status r = SUCCEEDED"
proof -
  have rw: "runnable_workload demo_dispatcher ''p'' = Inr demo_workload"
    by (simp add: runnable_ok demo_dispatcher_def demo_workload_def models_def dget_def)
  have rs: "resolve_stage demo_inference demo_world x =
      Inr (ResolvedOutput (pl_reference demo_lane) ''/net'' (Some PNone) (Some demo_lane))" for x
    by (simp add: resolve_stage_def prepare_profile_def demo_inference_def demo_world_def rw demo_prepare)
  obtain s where s: "dispatch_prepared demo_dispatcher ''p'' (PDict (sb_payload demo_job)) demo_lane demo_idle = Inr (0, s)"
    using demo_queued by (auto simp: map_res_eq_Inr demo_job_def demo_payload_def)
  have pay: "inference_result_payload (\<lambda>q. q) (Some 4) [PList [PInt 3]] (Fin 2) =
      Inr (PDict [(''outputs'', PList [PList [PInt 3]]), (''durationMs'', PFloat (Fin 2))])"
    by code_simp
  have inf: "infer_stage demo_inference demo_world demo_job (Output (ResolvedOutput ref p m (Some demo_lane))) =
      Some (Inr (InferenceOutput (PDict [(''outputs'', PList [PList [PInt 3]]), (''durationMs'', PFloat (Fin 2))]) m))" for ref p m
    using s pay by (simp add: infer_stage_def demo_inference_def demo_world_def)
  have post: "postprocess_stage demo_inference (\<lambda>_. Inr []) (Output (InferenceOutput (PDict
      [(''outputs'', PList [PList [PInt 3]]), (''durationMs'', PFloat (Fin 2))]) (Some PNone))) = Inr (PostprocessedOutput (PDict
      [(''profileId'', PStr ''p''), (''outputs'', PList [PList [PInt 3]]), (''durationMs'', PFloat (Fin 2))]))"
    by code_simp
  have job: "sb_job demo_job = ''j1''"
    "collect_stage (Request demo_job) = Inr (CollectedOutput (PDict [(''jobId'', PStr ''j1''), (''payload'', PDict (sb_payload demo_job))]))"
    "preprocess_stage demo_inference (Output (CollectedOutput (PDict [(''jobId'', PStr ''j1''), (''payload'', PDict (sb_payload demo_job))]))) =
      Inr (PreprocessedOutput (PDict (sb_payload demo_job)) (PDict [(''jobId'', PStr ''j1''), (''profileId'', PStr (in_profile demo_inference))]))"
    by (simp_all add: demo_job_def collect_stage_def preprocess_stage_def dget_Cons)
  have pol: "require_policy demo_gate demo_gate_view st = Inr ()" for st
    by (simp add: require_policy_admits admissible_def demo_gate_def gate_init_def demo_gate_view_def)
  have tok: "raise_if_cancelled (token_init j) = Inr ()" for j
    by (simp add: raise_if_cancelled_def token_init_def)
  have w: "sw_view demo_world = demo_gate_view" "sw_before demo_world = token_init ''j1''" "sw_after demo_world = token_init ''j1''"
    "sw_clock demo_world = 5" by (simp_all add: demo_world_def)
  have g: "guard (token_init j) (Some (Inr x)) (token_init j) = Some (Inr x)" for j and x :: "raised + stage_output"
    by (simp add: guard_def token_init_def)
  have n: "replicate 6 demo_world = [demo_world, demo_world, demo_world, demo_world, demo_world, demo_world]"
    by (simp add: eval_nat_numeral)
  show ?thesis
    by (simp add: run_inference_def inference_turn_def n w pol tok g rs inf post STAGE_ORDER_def run_stages_def machine_init_def
        MAX_JOB_ID_CHARS_def machine_start_def machine_advance_def validate_timestamp_def machine_finish_def conclude_def
        job deliver_stage_def)
qed


end
