(* ===== verification/Control_Guard.thy ===== *)
theory Control_Guard
  imports Job_Lifecycle Json_Text
begin

text \<open>
  \<^verbatim>\<open>src/omnitensor/guard.py\<close>: quotas per caller and method at the control boundary, and
  \<^verbatim>\<open>src/omnitensor/callers.py\<close>: who a connection's caller is.  Texts are of any type with a codec, as
  in the job service.  A \<^verbatim>\<open>GuardRefusedError\<close> is a stable exception; its method is the one asked
  for.  The windows of calls are objects that a call keeps while it is open, also after the table has
  forgotten them: they live in a heap.
\<close>

section \<open>Callers\<close>

definition canonical_digits :: "nat \<Rightarrow> string \<Rightarrow> bool" where
  "canonical_digits k s =
     (s = ''0'' \<or> s \<noteq> [] \<and> length s \<le> k \<and> hd s \<noteq> CHR ''0'' \<and> list_all json_digit s)"

text \<open>\<^verbatim>\<open>^peer:(uid):(serial)$\<close> with its first group; \<^verbatim>\<open>$\<close> also matches before a final line feed.\<close>

definition match_peer :: "string \<Rightarrow> string option" where
  "match_peer s =
     (let r = drop 5 s; uid = takeWhile (\<lambda>c. c \<noteq> CHR '':'') r; rest = dropWhile (\<lambda>c. c \<noteq> CHR '':'') r;
          serial = (if rest \<noteq> [] \<and> last rest = CHR 0x0A then butlast (tl rest) else tl rest)
      in if take 5 s = ''peer:'' \<and> rest \<noteq> [] \<and> canonical_digits 10 uid \<and> canonical_digits 19 serial then Some uid else None)"

record caller_identity =
  ci_sender :: string
  ci_uid :: "nat option"

definition owner_token :: "caller_identity \<Rightarrow> string" where
  "owner_token c = (case ci_uid c of None \<Rightarrow> ANONYMOUS_OWNER | Some n \<Rightarrow> ''uid:'' @ nat_str n)"

definition ANONYMOUS :: caller_identity where "ANONYMOUS = \<lparr>ci_sender = [], ci_uid = None\<rparr>"

text \<open>\<^verbatim>\<open>bind_sender\<close>: anything that is no text clears the binding.\<close>

definition bind_sender :: "pyval \<Rightarrow> string" where
  "bind_sender v = (case v of PStr s \<Rightarrow> s | _ \<Rightarrow> [])"

definition valid_sender :: "pyval \<Rightarrow> bool" where
  "valid_sender v = (case v of PStr s \<Rightarrow> match_peer s \<noteq> None | _ \<Rightarrow> False)"

definition resolve_caller :: "string \<Rightarrow> caller_identity" where
  "resolve_caller name =
     (case match_peer name of None \<Rightarrow> ANONYMOUS | Some g \<Rightarrow> \<lparr>ci_sender = name, ci_uid = Some (digits_value g)\<rparr>)"

text \<open>The token the transport makes of the kernel's credentials: \<^verbatim>\<open>SocketControlTransport._peer_sender\<close>.\<close>

definition peer_sender :: "int option \<Rightarrow> nat \<Rightarrow> string" where
  "peer_sender uid serial =
     (case uid of None \<Rightarrow> [] | Some n \<Rightarrow> if n < 0 then [] else ''peer:'' @ nat_str (nat n) @ '':'' @ nat_str serial)"

section \<open>Quotas\<close>

definition GUARD_ERROR_VERSION :: int where "GUARD_ERROR_VERSION = 1"
definition DEFAULT_MAX_TRACKED_CALLERS :: int where "DEFAULT_MAX_TRACKED_CALLERS = 256"
definition MAX_TRACKED_CALLERS_LIMIT :: int where "MAX_TRACKED_CALLERS_LIMIT = 4096"

definition ASSERTED_IDENTITY_FIELDS :: "string list" where
  "ASSERTED_IDENTITY_FIELDS = [''owner'', ''ownerToken'', ''uid'', ''callerUid'', ''sender'', ''uniqueName'', ''identity'']"

record method_quota =
  mq_max_bytes :: pyval
  mq_max_calls :: pyval
  mq_window_seconds :: pyval
  mq_max_concurrent :: pyval

text \<open>A quota that was validated.\<close>

record quota =
  qt_max_bytes :: nat
  qt_max_calls :: nat
  qt_window_seconds :: rat
  qt_max_concurrent :: nat

definition positive_field :: "string \<Rightarrow> string \<Rightarrow> pyval \<Rightarrow> nat res" where
  "positive_field method field_name v =
     (case v of
        PInt n \<Rightarrow> if n < 1 then Inl (Stable ''quota-invalid'' (method @ ''.'' @ field_name @ '' must be a positive integer'')) else Inr (nat n)
      | _ \<Rightarrow> Inl (Stable ''quota-invalid'' (method @ ''.'' @ field_name @ '' must be a positive integer'')))"

definition window_field :: "string \<Rightarrow> pyval \<Rightarrow> rat res" where
  "window_field method v =
     (let refused = Inl (Stable ''quota-invalid'' (method @ ''.window_seconds must be in (0, 3600]'')) in
      case v of
        PInt n \<Rightarrow> if 0 < n \<and> n \<le> 3600 then Inr (of_int n) else refused
      | PFloat (Fin q) \<Rightarrow> if 0 < q \<and> q \<le> 3600 then Inr q else refused
      | _ \<Rightarrow> refused)"

definition validate_quota :: "string \<Rightarrow> method_quota \<Rightarrow> quota res" where
  "validate_quota method q =
     bind_res (positive_field method ''max_bytes'' (mq_max_bytes q)) (\<lambda>b.
     bind_res (positive_field method ''max_calls'' (mq_max_calls q)) (\<lambda>c.
     bind_res (positive_field method ''max_concurrent'' (mq_max_concurrent q)) (\<lambda>m.
     map_res (\<lambda>w. \<lparr>qt_max_bytes = b, qt_max_calls = c, qt_window_seconds = w, qt_max_concurrent = m\<rparr>)
       (window_field method (mq_window_seconds q)))))"

definition quota_of :: "int \<Rightarrow> int \<Rightarrow> int \<Rightarrow> method_quota" where
  "quota_of b c m = \<lparr>mq_max_bytes = PInt b, mq_max_calls = PInt c, mq_window_seconds = PFloat (Fin 10), mq_max_concurrent = PInt m\<rparr>"

definition DEFAULT_QUOTAS :: "method_quota dict" where
  "DEFAULT_QUOTAS =
     [(''apply-command'', quota_of (64 * 1024) 240 4), (''submit-job'', quota_of (256 * 1024) 60 8),
      (''cancel-job'', quota_of (16 * 1024) 60 8), (''get-job-result'', quota_of (16 * 1024) 240 8),
      (''describe-plugins'', quota_of 1 30 4), (''describe-contract'', quota_of 1 20 4)]"

section \<open>The guard\<close>

record call_window =
  cw_calls :: "rat list"
  cw_in_flight :: nat

record control_guard =
  cg_quotas :: "quota dict"
  cg_max_tracked :: nat
  cg_windows :: "((string \<times> string) \<times> nat) list"
  cg_heap :: "nat \<Rightarrow> call_window"
  cg_next :: nat

text \<open>An entry that is \<open>None\<close> is no \<^verbatim>\<open>MethodQuota\<close>.\<close>

fun resolved_quotas :: "(string \<times> method_quota option) list \<Rightarrow> quota dict res" where
  "resolved_quotas [] = Inr []"
| "resolved_quotas ((method, None) # qs) = Inl (Stable ''quota-invalid'' (method @ '' quota must be a MethodQuota''))"
| "resolved_quotas ((method, Some q) # qs) =
     bind_res (validate_quota method q) (\<lambda>v. map_res (\<lambda>vs. (method, v) # vs) (resolved_quotas qs))"

definition guard_init :: "method_quota option dict \<Rightarrow> pyval \<Rightarrow> control_guard res" where
  "guard_init quotas max_tracked_callers =
     (case max_tracked_callers of
        PInt n \<Rightarrow>
          if n < 1 \<or> MAX_TRACKED_CALLERS_LIMIT < n
          then Inl (Stable ''quota-invalid'' (''max_tracked_callers must be an integer in [1, '' @ int_str MAX_TRACKED_CALLERS_LIMIT @ '']''))
          else map_res (\<lambda>vs. \<lparr>cg_quotas = vs, cg_max_tracked = nat n, cg_windows = [], cg_heap = (\<lambda>_. \<lparr>cw_calls = [], cw_in_flight = 0\<rparr>),
                               cg_next = 0\<rparr>)
                 (resolved_quotas (fold (\<lambda>(m, q). dset m q) quotas (map (\<lambda>(m, q). (m, Some q)) DEFAULT_QUOTAS)))
      | _ \<Rightarrow> Inl (Stable ''quota-invalid'' (''max_tracked_callers must be an integer in [1, '' @ int_str MAX_TRACKED_CALLERS_LIMIT @ '']'')))"

definition quota_for :: "control_guard \<Rightarrow> string \<Rightarrow> quota res" where
  "quota_for g method =
     (case dget (cg_quotas g) method of
        None \<Rightarrow> Inl (Stable ''method-unknown'' (''no quota is declared for '' @ method))
      | Some q \<Rightarrow> Inr q)"

definition asserted_identity_field :: "'t codec \<Rightarrow> 't \<Rightarrow> nat \<Rightarrow> string" where
  "asserted_identity_field c text max_bytes =
     (if max_bytes < utf8_size_pass c text then []
      else (case loads c text of
              Some (PDict d) \<Rightarrow> (case sort (filter (dhas d) ASSERTED_IDENTITY_FIELDS) of [] \<Rightarrow> [] | f # _ \<Rightarrow> f)
            | _ \<Rightarrow> []))"

text \<open>\<open>None\<close> is a payload that is no text.\<close>

definition check_payload :: "'t codec \<Rightarrow> string \<Rightarrow> quota \<Rightarrow> 't option \<Rightarrow> unit res" where
  "check_payload c method q payload =
     (case payload of
        None \<Rightarrow> Inl (Stable ''payload-invalid'' (method @ '' takes a string''))
      | Some text \<Rightarrow>
          if qt_max_bytes q < utf8_size_pass c text
          then Inl (Stable ''payload-too-large'' (method @ '' accepts '' @ nat_str (qt_max_bytes q) @ '' bytes, received '' @
                      nat_str (utf8_size_pass c text)))
          else (case asserted_identity_field c text (qt_max_bytes q) of
                  [] \<Rightarrow> Inr ()
                | f \<Rightarrow> Inl (Stable ''identity-asserted'' (method @ '' must not carry a caller-asserted '' @ f))))"

text \<open>\<^verbatim>\<open>_window\<close>: the caller's own window is the last in the table, the least recently seen go first.\<close>

definition window_for :: "string \<Rightarrow> string \<Rightarrow> control_guard \<Rightarrow> nat \<times> control_guard" where
  "window_for method owner g =
     (let key = (method, owner);
          i = (case dget (cg_windows g) key of Some i \<Rightarrow> i | None \<Rightarrow> cg_next g);
          g1 = (if dhas (cg_windows g) key then g
                else g\<lparr>cg_heap := (cg_heap g)(cg_next g := \<lparr>cw_calls = [], cw_in_flight = 0\<rparr>), cg_next := Suc (cg_next g)\<rparr>);
          table = dpop key (cg_windows g) @ [(key, i)]
      in (i, g1\<lparr>cg_windows := drop (length table - cg_max_tracked g) table\<rparr>))"

definition expire_calls :: "rat \<Rightarrow> rat \<Rightarrow> call_window \<Rightarrow> call_window" where
  "expire_calls now window_seconds w = w\<lparr>cw_calls := dropWhile (\<lambda>t. t \<le> now - window_seconds) (cw_calls w)\<rparr>"

text \<open>The spelling of the window in a refusal is an argument.\<close>

definition guard_admit ::
    "'t codec \<Rightarrow> (rat \<Rightarrow> string) \<Rightarrow> string \<Rightarrow> string \<Rightarrow> 't option \<Rightarrow> rat \<Rightarrow> control_guard \<Rightarrow> nat res \<times> control_guard" where
  "guard_admit c spell method owner payload now g =
     (case bind_res (quota_for g method) (\<lambda>q. map_res (\<lambda>_. q) (check_payload c method q payload)) of
        Inl e \<Rightarrow> (Inl e, g)
      | Inr q \<Rightarrow>
          (let (i, g1) = window_for method owner g;
               w = expire_calls now (qt_window_seconds q) (cg_heap g1 i);
               g2 = g1\<lparr>cg_heap := (cg_heap g1)(i := w)\<rparr>
           in if qt_max_calls q \<le> length (cw_calls w)
              then (Inl (Stable ''rate-limit-exceeded'' (method @ '' allows '' @ nat_str (qt_max_calls q) @ '' calls per '' @
                           spell (qt_window_seconds q) @ ''s'')), g2)
              else if qt_max_concurrent q \<le> cw_in_flight w
              then (Inl (Stable ''concurrency-limit-exceeded'' (method @ '' allows '' @ nat_str (qt_max_concurrent q) @ '' concurrent calls'')), g2)
              else (Inr i, g2\<lparr>cg_heap := (cg_heap g2)(i := \<lparr>cw_calls = cw_calls w @ [now], cw_in_flight = Suc (cw_in_flight w)\<rparr>)\<rparr>)))"

definition release_admitted :: "nat \<Rightarrow> control_guard \<Rightarrow> control_guard" where
  "release_admitted i g =
     (if 0 < cw_in_flight (cg_heap g i)
      then g\<lparr>cg_heap := (cg_heap g)(i := (cg_heap g i)\<lparr>cw_in_flight := cw_in_flight (cg_heap g i) - 1\<rparr>)\<rparr>
      else g)"

definition guard_release :: "string \<Rightarrow> string \<Rightarrow> control_guard \<Rightarrow> control_guard" where
  "guard_release method owner g =
     (case dget (cg_windows g) (method, owner) of None \<Rightarrow> g | Some i \<Rightarrow> release_admitted i g)"

text \<open>The document of a refusal.\<close>

definition refusal_document :: "string \<Rightarrow> exn \<Rightarrow> pyval" where
  "refusal_document method e =
     (case e of
        Stable code detail \<Rightarrow>
          PDict [(''version'', PInt GUARD_ERROR_VERSION), (''status'', PStr ''rejected''), (''code'', PStr code),
                 (''message'', PStr detail), (''method'', PStr method)]
      | _ \<Rightarrow> PNone)"

section \<open>Every interleaving of calls\<close>

text \<open>
  Beside the guard: the windows of the calls in progress, which caller and method a window was made
  for, and the calls admitted so far with their times.
\<close>

record guard_world =
  gw_guard :: control_guard
  gw_open :: "nat list"
  gw_key :: "nat \<Rightarrow> string \<times> string"
  gw_log :: "(nat \<times> rat) list"
  gw_now :: rat

text \<open>\<^verbatim>\<open>guarded.__enter__\<close> and \<^verbatim>\<open>__exit__\<close>.\<close>

definition enter_call ::
    "'t codec \<Rightarrow> (rat \<Rightarrow> string) \<Rightarrow> string \<Rightarrow> string \<Rightarrow> 't option \<Rightarrow> rat \<Rightarrow> guard_world \<Rightarrow> nat res \<times> guard_world" where
  "enter_call c spell method owner payload now s =
     (case guard_admit c spell method owner payload now (gw_guard s) of
        (r, g) \<Rightarrow>
          (r, s\<lparr>gw_guard := g,
                gw_key := (if cg_next g = cg_next (gw_guard s) then gw_key s else (gw_key s)(cg_next (gw_guard s) := (method, owner))),
                gw_open := (case r of Inr i \<Rightarrow> i # gw_open s | Inl _ \<Rightarrow> gw_open s),
                gw_log := (case r of Inr i \<Rightarrow> gw_log s @ [(i, now)] | Inl _ \<Rightarrow> gw_log s), gw_now := now\<rparr>))"

definition leave_call :: "nat \<Rightarrow> guard_world \<Rightarrow> guard_world" where
  "leave_call i s =
     (if i \<in> set (gw_open s) then s\<lparr>gw_guard := release_admitted i (gw_guard s), gw_open := remove1 i (gw_open s)\<rparr> else s)"

inductive guard_reachable :: "'t codec \<Rightarrow> (rat \<Rightarrow> string) \<Rightarrow> guard_world \<Rightarrow> bool" for c spell where
  init: "guard_init quotas n = Inr g \<Longrightarrow>
     guard_reachable c spell \<lparr>gw_guard = g, gw_open = [], gw_key = k, gw_log = [], gw_now = now\<rparr>"
| enter: "guard_reachable c spell s \<Longrightarrow> gw_now s \<le> now \<Longrightarrow> guard_reachable c spell (snd (enter_call c spell m ow p now s))"
| leave: "guard_reachable c spell s \<Longrightarrow> guard_reachable c spell (leave_call i s)"

text \<open>The times of the calls admitted on a window.\<close>

definition call_times :: "guard_world \<Rightarrow> nat \<Rightarrow> rat list" where
  "call_times s i = map snd (filter (\<lambda>e. fst e = i) (gw_log s))"

section \<open>Pacing\<close>

text \<open>Any two calls that are \<open>n\<close> apart are at least \<open>d\<close> seconds apart.\<close>

definition paced :: "nat \<Rightarrow> rat \<Rightarrow> rat list \<Rightarrow> bool" where
  "paced n d ts \<longleftrightarrow> (\<forall>j. j + n < length ts \<longrightarrow> ts ! j + d \<le> ts ! (j + n))"

lemma paced_snoc:
  assumes "paced n d ts" and "ts = old @ calls" and "length calls < n" and "\<forall>t \<in> set old. t \<le> now - d"
  shows "paced n d (ts @ [now])"
  unfolding paced_def
proof (intro allI impI)
  fix j
  assume j: "j + n < length (ts @ [now])"
  show "(ts @ [now]) ! j + d \<le> (ts @ [now]) ! (j + n)"
  proof (cases "j + n < length ts")
    case True
    then show ?thesis using assms(1) by (simp add: paced_def nth_append)
  next
    case False
    then have e: "j + n = length ts" using j by simp
    then have "j < length old" using assms(2,3) by simp
    then have "ts ! j \<in> set old" using assms(2) by (simp add: nth_append)
    then have "ts ! j + d \<le> now" using assms(4) by (auto simp: algebra_simps)
    moreover have "j < length ts" using \<open>j < length old\<close> assms(2) by simp
    ultimately show ?thesis using e by (simp add: nth_append)
  qed
qed

lemma dropWhile_sorted: "sorted ts \<Longrightarrow> dropWhile (\<lambda>t. t \<le> a) ts = filter (\<lambda>t. a < t) (ts :: rat list)"
proof (induction ts)
  case (Cons t ts)
  show ?case
  proof (cases "t \<le> a")
    case False
    then have "filter (\<lambda>t. a < t) ts = ts" using Cons.prems by (intro filter_True) auto
    then show ?thesis using False by simp
  qed (use Cons in simp)
qed simp

lemma takeWhile_sorted: "sorted ts \<Longrightarrow> takeWhile (\<lambda>t. t \<le> b) ts = filter (\<lambda>t. t \<le> b) (ts :: rat list)"
proof (induction ts)
  case (Cons t ts)
  show ?case
  proof (cases "t \<le> b")
    case False
    then have "filter (\<lambda>t. t \<le> b) ts = []" using Cons.prems by (auto simp: filter_empty_conv)
    then show ?thesis using False by simp
  qed (use Cons in simp)
qed simp

text \<open>So no stretch of \<open>d\<close> seconds holds more than \<open>n\<close> of them.\<close>

lemma paced_stretch:
  assumes "paced n d ts" and "sorted ts"
  shows "length (filter (\<lambda>t. b - d < t \<and> t \<le> b) ts) \<le> n"
proof (rule ccontr)
  let ?d = "dropWhile (\<lambda>t. t \<le> b - d) ts" and ?k = "length (takeWhile (\<lambda>t. t \<le> b - d) ts)"
  let ?f = "takeWhile (\<lambda>t. t \<le> b) ?d"
  have ts: "ts = takeWhile (\<lambda>t. t \<le> b - d) ts @ ?d" by simp
  have sd: "sorted ?d" using assms(2) by (simp add: dropWhile_sorted sorted_wrt_filter)
  have f: "?f = filter (\<lambda>t. b - d < t \<and> t \<le> b) ts"
    using sd assms(2) by (simp add: takeWhile_sorted dropWhile_sorted conj_commute)
  assume "\<not> length (filter (\<lambda>t. b - d < t \<and> t \<le> b) ts) \<le> n"
  then have len: "n < length ?f" by (simp only: f not_le)
  have at: "?f ! i = ts ! (?k + i)" if "i < length ?f" for i
  proof -
    have "?f ! i = ?d ! i" using that by (simp add: takeWhile_nth)
    also have "?d ! i = ts ! (?k + i)"
      using nth_append_length_plus [of "takeWhile (\<lambda>t. t \<le> b - d) ts" ?d i] by (simp only: takeWhile_dropWhile_id)
    finally show ?thesis .
  qed
  have "?k + n < length ts"
    using len length_takeWhile_le [of "\<lambda>t. t \<le> b" ?d] arg_cong [OF ts, of length] unfolding length_append by linarith
  then have "ts ! ?k + d \<le> ts ! (?k + n)" using assms(1) by (simp add: paced_def)
  moreover have l0: "0 < length ?f" using len by linarith
  ultimately have "?f ! 0 + d \<le> ?f ! n" unfolding at [OF l0] at [OF len] by simp
  moreover have "b - d < ?f ! 0" "?f ! n \<le> b"
    using nth_mem [OF l0] nth_mem [OF len] unfolding f by auto
  ultimately show False by simp
qed

section \<open>What holds of the guard\<close>

definition windows_ok :: "control_guard \<Rightarrow> (nat \<Rightarrow> string \<times> string) \<Rightarrow> bool" where
  "windows_ok g key \<longleftrightarrow>
     1 \<le> cg_max_tracked g \<and> length (cg_windows g) \<le> cg_max_tracked g \<and> dict_ok (cg_windows g) \<and>
     (\<forall>k i. dget (cg_windows g) k = Some i \<longrightarrow> i < cg_next g \<and> key i = k)"

definition window_ok :: "quota \<Rightarrow> rat list \<Rightarrow> nat \<Rightarrow> rat \<Rightarrow> call_window \<Rightarrow> bool" where
  "window_ok q ts n now w \<longleftrightarrow>
     cw_in_flight w = n \<and> n \<le> qt_max_concurrent q \<and> paced (qt_max_calls q) (qt_window_seconds q) ts \<and>
     (\<exists>old. ts = old @ cw_calls w \<and> (\<forall>t \<in> set old. t \<le> now - qt_window_seconds q))"

definition guard_inv :: "guard_world \<Rightarrow> bool" where
  "guard_inv s \<longleftrightarrow>
     (let g = gw_guard s in
      windows_ok g (gw_key s) \<and> sorted (map snd (gw_log s)) \<and> (\<forall>e \<in> set (gw_log s). snd e \<le> gw_now s \<and> fst e < cg_next g) \<and>
      (\<forall>i \<in> set (gw_open s). i < cg_next g) \<and>
      (\<forall>i < cg_next g. \<exists>q. dget (cg_quotas g) (fst (gw_key s i)) = Some q \<and>
         window_ok q (call_times s i) (count_list (gw_open s) i) (gw_now s) (cg_heap g i)))"

lemma window_for_cases:
  assumes "window_for m ow g = (i, g1)"
  obtains "cg_quotas g1 = cg_quotas g" "cg_max_tracked g1 = cg_max_tracked g"
    "dget (cg_windows g) (m, ow) = Some i \<and> cg_heap g1 = cg_heap g \<and> cg_next g1 = cg_next g \<or>
     dget (cg_windows g) (m, ow) = None \<and> i = cg_next g \<and> cg_heap g1 = (cg_heap g)(i := \<lparr>cw_calls = [], cw_in_flight = 0\<rparr>) \<and>
       cg_next g1 = Suc (cg_next g)"
    "cg_windows g1 = drop (length (dpop (m, ow) (cg_windows g) @ [((m, ow), i)]) - cg_max_tracked g) (dpop (m, ow) (cg_windows g) @ [((m, ow), i)])"
  using assms that by (cases "dget (cg_windows g) (m, ow)") (auto simp: window_for_def Let_def dhas_iff)

lemma admit_cases:
  assumes "guard_admit c spell m ow p now g = (r, g2)"
  obtains e where "r = Inl e" "g2 = g" "\<nexists>q. dget (cg_quotas g) m = Some q \<and> check_payload c m q p = Inr ()"
  | q i g1 w e where "dget (cg_quotas g) m = Some q" "check_payload c m q p = Inr ()" "window_for m ow g = (i, g1)"
      "w = expire_calls now (qt_window_seconds q) (cg_heap g1 i)" "r = Inl e" "g2 = g1\<lparr>cg_heap := (cg_heap g1)(i := w)\<rparr>"
      "qt_max_calls q \<le> length (cw_calls w) \<or> qt_max_concurrent q \<le> cw_in_flight w"
  | q i g1 w where "dget (cg_quotas g) m = Some q" "check_payload c m q p = Inr ()" "window_for m ow g = (i, g1)"
      "w = expire_calls now (qt_window_seconds q) (cg_heap g1 i)" "r = Inr i"
      "g2 = g1\<lparr>cg_heap := (cg_heap g1)(i := \<lparr>cw_calls = cw_calls w @ [now], cw_in_flight = Suc (cw_in_flight w)\<rparr>)\<rparr>"
      "length (cw_calls w) < qt_max_calls q" "cw_in_flight w < qt_max_concurrent q"
proof (cases "dget (cg_quotas g) m")
  case None
  then show ?thesis using assms by (intro that(1)) (auto simp: guard_admit_def quota_for_def)
next
  case (Some q)
  obtain i g1 where w: "window_for m ow g = (i, g1)" by fastforce
  note d = assms [unfolded guard_admit_def quota_for_def Some option.case bind_res_simps w Let_def prod.case]
  show ?thesis
  proof (cases "check_payload c m q p")
    case (Inl e)
    then show ?thesis using d Some by (intro that(1)) auto
  next
    case (Inr u)
    define w0 where "w0 = expire_calls now (qt_window_seconds q) (cg_heap g1 i)"
    note d = d [unfolded Inr map_res_simps bind_res_simps sum.case, folded w0_def]
    have p: "check_payload c m q p = Inr ()" using Inr by simp
    consider "qt_max_calls q \<le> length (cw_calls w0)" | "\<not> qt_max_calls q \<le> length (cw_calls w0)" "qt_max_concurrent q \<le> cw_in_flight w0"
      | "\<not> qt_max_calls q \<le> length (cw_calls w0)" "\<not> qt_max_concurrent q \<le> cw_in_flight w0" by blast
    then show ?thesis
    proof cases
      case 1
      with d have "(\<exists>e. r = Inl e) \<and> g2 = g1\<lparr>cg_heap := (cg_heap g1)(i := w0)\<rparr>" by auto
      then show ?thesis using that(2) [OF Some p w w0_def] 1 by blast
    next
      case 2
      with d have "(\<exists>e. r = Inl e) \<and> g2 = g1\<lparr>cg_heap := (cg_heap g1)(i := w0)\<rparr>" by auto
      then show ?thesis using that(2) [OF Some p w w0_def] 2 by blast
    next
      case 3
      with d have "r = Inr i" "g2 = g1\<lparr>cg_heap := (cg_heap g1)(i := \<lparr>cw_calls = cw_calls w0 @ [now], cw_in_flight = Suc (cw_in_flight w0)\<rparr>)\<rparr>"
        by simp_all
      then show ?thesis using that(3) [OF Some p w w0_def] 3 by simp
    qed
  qed
qed

text \<open>The table after a caller was seen: bounded, the caller in it, and others only ever forgotten.\<close>

lemma touched_table:
  assumes "dict_ok d" and "1 \<le> n" and "t = drop (length (dpop k d @ [(k, i)]) - n) (dpop k d @ [(k, i)])"
  shows "dict_ok t" and "length t \<le> n" and "dget t k = Some i"
    and "k' \<noteq> k \<Longrightarrow> dget t k' = Some j \<Longrightarrow> dget d k' = Some j"
    and "k' \<noteq> k \<Longrightarrow> dget d k' = Some j \<Longrightarrow> dget t k' = None \<Longrightarrow> n \<le> length (dpop k d)"
proof -
  let ?e = "dpop k d @ [(k, i)]"
  have ok: "dict_ok ?e" using assms(1) by (rule dict_ok_put)
  show okt: "dict_ok t" unfolding assms(3) by (rule dict_ok_drop [OF ok])
  show "length t \<le> n" unfolding assms(3) by simp
  have "last t = (k, i)" "t \<noteq> []" unfolding assms(3) using assms(2) by simp_all
  then have "(k, i) \<in> set t" by (metis last_in_set)
  then show "dget t k = Some i" by (rule in_set_dget [OF okt])
  show "dget d k' = Some j" if "k' \<noteq> k" "dget t k' = Some j"
  proof -
    have "dget ?e k' = Some j" using dget_drop [OF ok] that(2) unfolding assms(3) .
    then show ?thesis using that(1) by (auto simp: dget_append dget_Cons split: option.splits)
  qed
  show "n \<le> length (dpop k d)" if "k' \<noteq> k" "dget d k' = Some j" "dget t k' = None"
  proof (rule ccontr)
    assume "\<not> n \<le> length (dpop k d)"
    then have "t = ?e" unfolding assms(3) by simp
    then show False using that by (simp add: dget_append dget_Cons)
  qed
qed

lemma window_ok_later: "window_ok q ts n now w \<Longrightarrow> now \<le> now' \<Longrightarrow> window_ok q ts n now' w"
  by (fastforce simp: window_ok_def)

lemma window_ok_expire:
  assumes "window_ok q ts n now w" and "now \<le> now'"
  shows "window_ok q ts n now' (expire_calls now' (qt_window_seconds q) w)"
proof -
  obtain old where o: "ts = old @ cw_calls w" "\<forall>t \<in> set old. t \<le> now - qt_window_seconds q" using assms(1) by (auto simp: window_ok_def)
  let ?P = "\<lambda>t. t \<le> now' - qt_window_seconds q"
  have "ts = (old @ takeWhile ?P (cw_calls w)) @ cw_calls (expire_calls now' (qt_window_seconds q) w)"
    by (simp add: o(1) expire_calls_def)
  moreover have "\<forall>t \<in> set (old @ takeWhile ?P (cw_calls w)). ?P t"
    using o(2) assms(2) by (auto dest: set_takeWhileD)
  moreover have "cw_in_flight (expire_calls now' (qt_window_seconds q) w) = cw_in_flight w" by (simp add: expire_calls_def)
  ultimately show ?thesis using assms(1) unfolding window_ok_def by metis
qed

lemma window_ok_charge:
  assumes "window_ok q ts n now w" and "length (cw_calls w) < qt_max_calls q" and "cw_in_flight w < qt_max_concurrent q"
  shows "window_ok q (ts @ [now]) (Suc n) now \<lparr>cw_calls = cw_calls w @ [now], cw_in_flight = Suc (cw_in_flight w)\<rparr>"
proof -
  obtain old where o: "ts = old @ cw_calls w" "\<forall>t \<in> set old. t \<le> now - qt_window_seconds q" using assms(1) by (auto simp: window_ok_def)
  have "paced (qt_max_calls q) (qt_window_seconds q) (ts @ [now])"
    by (rule paced_snoc [OF _ o(1) assms(2) o(2)]) (use assms(1) in \<open>simp add: window_ok_def\<close>)
  moreover have "ts @ [now] = old @ (cw_calls w @ [now])" by (simp add: o(1))
  ultimately show ?thesis using assms(1,3) o(2) unfolding window_ok_def by simp
qed

text \<open>The guard once the caller's window is found or made.\<close>

definition seen :: "string \<Rightarrow> string \<Rightarrow> guard_world \<Rightarrow> guard_world" where
  "seen m ow s =
     (case window_for m ow (gw_guard s) of
        (i, g1) \<Rightarrow> s\<lparr>gw_guard := g1, gw_key := (if cg_next g1 = cg_next (gw_guard s) then gw_key s
                                              else (gw_key s)(cg_next (gw_guard s) := (m, ow)))\<rparr>)"

lemma call_times_none: "\<forall>e \<in> set (gw_log s). fst e < n \<Longrightarrow> call_times s n = []"
  by (auto simp: call_times_def filter_empty_conv)

lemma seen_inv:
  assumes inv: "guard_inv s" and q: "dget (cg_quotas (gw_guard s)) m = Some q" and w: "window_for m ow (gw_guard s) = (i, g1)"
  shows "guard_inv (seen m ow s)" and "i < cg_next g1" and "gw_key (seen m ow s) i = (m, ow)" and "dget (cg_windows g1) (m, ow) = Some i"
proof -
  let ?g = "gw_guard s"
  note d = inv [unfolded guard_inv_def Let_def]
  have wok: "1 \<le> cg_max_tracked ?g" "dict_ok (cg_windows ?g)" using d by (simp_all add: windows_ok_def)
  obtain c: "cg_quotas g1 = cg_quotas ?g" "cg_max_tracked g1 = cg_max_tracked ?g"
    "dget (cg_windows ?g) (m, ow) = Some i \<and> cg_heap g1 = cg_heap ?g \<and> cg_next g1 = cg_next ?g \<or>
     dget (cg_windows ?g) (m, ow) = None \<and> i = cg_next ?g \<and> cg_heap g1 = (cg_heap ?g)(i := \<lparr>cw_calls = [], cw_in_flight = 0\<rparr>) \<and>
       cg_next g1 = Suc (cg_next ?g)"
    "cg_windows g1 = drop (length (dpop (m, ow) (cg_windows ?g) @ [((m, ow), i)]) - cg_max_tracked ?g) (dpop (m, ow) (cg_windows ?g) @ [((m, ow), i)])"
    by (rule window_for_cases [OF w])
  note tb = touched_table [OF wok(2,1) c(4)]
  show at: "dget (cg_windows g1) (m, ow) = Some i" by (rule tb(3))
  have key: "\<forall>k j. dget (cg_windows ?g) k = Some j \<longrightarrow> j < cg_next ?g \<and> gw_key s j = k" using d by (simp add: windows_ok_def)
  have s': "gw_guard (seen m ow s) = g1" "gw_open (seen m ow s) = gw_open s" "gw_log (seen m ow s) = gw_log s"
    "gw_now (seen m ow s) = gw_now s" "call_times (seen m ow s) = call_times s"
    "gw_key (seen m ow s) = (if cg_next g1 = cg_next ?g then gw_key s else (gw_key s)(cg_next ?g := (m, ow)))"
    by (simp_all add: seen_def w call_times_def fun_eq_iff)
  show i: "i < cg_next g1" and ki: "gw_key (seen m ow s) i = (m, ow)" using c(3) key by (auto simp: s'(6))
  have old: "j < cg_next ?g \<Longrightarrow> gw_key (seen m ow s) j = gw_key s j" for j by (simp add: s'(6))
  have le: "cg_next ?g \<le> cg_next g1" using c(3) by auto
  have "j < cg_next g1 \<and> gw_key (seen m ow s) j = k" if "dget (cg_windows g1) k = Some j" for k j
  proof (cases "k = (m, ow)")
    case True
    then show ?thesis using that at i ki by simp
  next
    case False
    then have "dget (cg_windows ?g) k = Some j" by (rule tb(4) [OF _ that])
    then show ?thesis using key old le by fastforce
  qed
  then have "windows_ok g1 (gw_key (seen m ow s))" using tb(1,2) wok(1) c(2) by (simp add: windows_ok_def)
  moreover have "\<exists>q. dget (cg_quotas g1) (fst (gw_key (seen m ow s) j)) = Some q \<and>
      window_ok q (call_times s j) (count_list (gw_open s) j) (gw_now s) (cg_heap g1 j)" if "j < cg_next g1" for j
  proof (cases "j < cg_next ?g")
    case True
    then have "cg_heap g1 j = cg_heap ?g j" using c(3) by auto
    then show ?thesis using d True old by (simp add: c(1))
  next
    case False
    then have j: "j = i" "i = cg_next ?g" "cg_heap g1 i = \<lparr>cw_calls = [], cw_in_flight = 0\<rparr>" using c(3) that by auto
    have "call_times s i = []" using d j(2) by (intro call_times_none) auto
    moreover have "count_list (gw_open s) i = 0" using d j(2) by (auto simp: count_list_0_iff)
    ultimately show ?thesis using q ki j by (simp add: c(1) window_ok_def paced_def)
  qed
  ultimately show "guard_inv (seen m ow s)"
    using d le unfolding guard_inv_def Let_def s' by (auto intro: less_le_trans)
qed

text \<open>Changes of one window.\<close>

lemma guard_inv_window:
  assumes inv: "guard_inv s" and i: "i < cg_next (gw_guard s)" and q: "dget (cg_quotas (gw_guard s)) (fst (gw_key s i)) = Some q"
    and ok: "window_ok q (call_times t i) (count_list (gw_open t) i) (gw_now t) w"
    and t: "gw_guard t = (gw_guard s)\<lparr>cg_heap := (cg_heap (gw_guard s))(i := w)\<rparr>" "gw_key t = gw_key s" "gw_now s \<le> gw_now t"
    and log: "sorted (map snd (gw_log t))" "\<forall>e \<in> set (gw_log t). snd e \<le> gw_now t \<and> fst e < cg_next (gw_guard s)"
    and op: "\<forall>j \<in> set (gw_open t). j < cg_next (gw_guard s)"
    and other: "\<And>j. j \<noteq> i \<Longrightarrow> call_times t j = call_times s j \<and> count_list (gw_open t) j = count_list (gw_open s) j"
  shows "guard_inv t"
proof -
  note d = inv [unfolded guard_inv_def Let_def]
  have "windows_ok (gw_guard t) (gw_key t)" using d by (simp add: windows_ok_def t)
  moreover have "\<exists>q. dget (cg_quotas (gw_guard t)) (fst (gw_key t j)) = Some q \<and>
      window_ok q (call_times t j) (count_list (gw_open t) j) (gw_now t) (cg_heap (gw_guard t) j)" if "j < cg_next (gw_guard t)" for j
  proof (cases "j = i")
    case True
    then show ?thesis using q ok by (simp add: t)
  next
    case False
    then have "j < cg_next (gw_guard s)" using that by (simp add: t)
    then obtain q' where "dget (cg_quotas (gw_guard s)) (fst (gw_key s j)) = Some q'"
      "window_ok q' (call_times s j) (count_list (gw_open s) j) (gw_now s) (cg_heap (gw_guard s) j)" using d by blast
    then show ?thesis using other [OF False] window_ok_later [OF _ t(3)] False by (simp add: t)
  qed
  ultimately show ?thesis using log op by (simp add: guard_inv_def Let_def t)
qed

lemma guard_inv_later: "guard_inv s \<Longrightarrow> gw_now s \<le> now \<Longrightarrow> guard_inv (s\<lparr>gw_now := now\<rparr>)"
  by (simp add: guard_inv_def Let_def call_times_def) (meson window_ok_later order_trans)

lemma enter_inv:
  assumes inv: "guard_inv s" and now: "gw_now s \<le> now" and r: "enter_call c spell m ow p now s = (r, t)"
  shows "guard_inv t"
proof -
  obtain g where g: "guard_admit c spell m ow p now (gw_guard s) = (r, g)" using r by (auto simp: enter_call_def split: prod.splits)
  have t: "t = s\<lparr>gw_guard := g,
      gw_key := (if cg_next g = cg_next (gw_guard s) then gw_key s else (gw_key s)(cg_next (gw_guard s) := (m, ow))),
      gw_open := (case r of Inr i \<Rightarrow> i # gw_open s | Inl _ \<Rightarrow> gw_open s),
      gw_log := (case r of Inr i \<Rightarrow> gw_log s @ [(i, now)] | Inl _ \<Rightarrow> gw_log s), gw_now := now\<rparr>"
    using r by (simp add: enter_call_def g)
  from g show ?thesis
  proof (cases rule: admit_cases)
    case (1 e)
    then have "t = s\<lparr>gw_now := now\<rparr>" by (simp add: t)
    then show ?thesis using guard_inv_later [OF inv now] by simp
  next
    case (2 q i g1 w e)
    note sn = seen_inv [OF inv 2(1,3)]
    note d = sn(1) [unfolded guard_inv_def Let_def]
    have s': "gw_guard (seen m ow s) = g1" "gw_now (seen m ow s) = gw_now s" "gw_open (seen m ow s) = gw_open s" "gw_log (seen m ow s) = gw_log s"
      by (simp_all add: seen_def 2(3))
    have q: "dget (cg_quotas g1) (fst (gw_key (seen m ow s) i)) = Some q"
      using 2(1) window_for_cases [OF 2(3)] sn(3) by (metis fst_conv)
    have tm: "call_times t j = call_times (seen m ow s) j" for j by (simp add: call_times_def s' t 2(5))
    have "window_ok q (call_times t i) (count_list (gw_open t) i) (gw_now t) w"
      using d sn(2) q window_ok_expire [OF _ now] unfolding 2(4) tm by (auto simp: s' t 2(5))
    then show ?thesis
      by (intro guard_inv_window [OF sn(1), where i = i and q = q])
         (use d sn(2) q now in \<open>auto simp: s' t 2(5,6) seen_def 2(3) call_times_def intro: order_trans\<close>)
  next
    case (3 q i g1 w)
    note sn = seen_inv [OF inv 3(1,3)]
    note d = sn(1) [unfolded guard_inv_def Let_def]
    have s': "gw_guard (seen m ow s) = g1" "gw_now (seen m ow s) = gw_now s" "gw_open (seen m ow s) = gw_open s" "gw_log (seen m ow s) = gw_log s"
      by (simp_all add: seen_def 3(3))
    have q: "dget (cg_quotas g1) (fst (gw_key (seen m ow s) i)) = Some q"
      using 3(1) window_for_cases [OF 3(3)] sn(3) by (metis fst_conv)
    have tm: "call_times t j = call_times (seen m ow s) j @ (if j = i then [now] else [])" for j by (simp add: call_times_def s' t 3(5))
    have "window_ok q (call_times (seen m ow s) i) (count_list (gw_open s) i) now w"
      using d sn(2) q window_ok_expire [OF _ now] unfolding 3(4) by (auto simp: s')
    note ok = window_ok_charge [OF this 3(7,8)]
    have "sorted (map snd (gw_log t))" using d now by (auto simp: s' t 3(5) sorted_append)
    moreover have "window_ok q (call_times t i) (count_list (gw_open t) i) (gw_now t) \<lparr>cw_calls = cw_calls w @ [now], cw_in_flight = Suc (cw_in_flight w)\<rparr>"
      using ok unfolding tm by (simp add: t 3(5))
    ultimately show ?thesis
      by (intro guard_inv_window [OF sn(1), where i = i and q = q])
         (use d sn(2) q now in \<open>auto simp: s' t 3(5,6) seen_def 3(3) call_times_def intro: order_trans\<close>)
  qed
qed

lemma leave_inv:
  assumes inv: "guard_inv s"
  shows "guard_inv (leave_call i s)"
proof (cases "i \<in> set (gw_open s)")
  case True
  note d = inv [unfolded guard_inv_def Let_def]
  have i: "i < cg_next (gw_guard s)" using d True by blast
  obtain q where q: "dget (cg_quotas (gw_guard s)) (fst (gw_key s i)) = Some q"
    "window_ok q (call_times s i) (count_list (gw_open s) i) (gw_now s) (cg_heap (gw_guard s) i)" using d i by blast
  have n: "0 < cw_in_flight (cg_heap (gw_guard s) i)" using q(2) True by (metis window_ok_def count_list_0_iff gr0I)
  have cnt: "count_list (remove1 i xs) j = (if j = i then count_list xs i - 1 else count_list xs j)" for xs j
    by (induction xs) (auto simp: count_list_0_iff)
  have t: "leave_call i s = s\<lparr>gw_guard := (gw_guard s)\<lparr>cg_heap := (cg_heap (gw_guard s))(i := (cg_heap (gw_guard s) i)
      \<lparr>cw_in_flight := cw_in_flight (cg_heap (gw_guard s) i) - 1\<rparr>)\<rparr>, gw_open := remove1 i (gw_open s)\<rparr>"
    using True n by (simp add: leave_call_def release_admitted_def)
  have "window_ok q (call_times s i) (count_list (gw_open s) i - 1) (gw_now s)
      ((cg_heap (gw_guard s) i)\<lparr>cw_in_flight := cw_in_flight (cg_heap (gw_guard s) i) - 1\<rparr>)"
    using q(2) by (auto simp: window_ok_def)
  then show ?thesis
    by (intro guard_inv_window [OF inv i q(1)]) (use d in \<open>auto simp: t cnt call_times_def dest: notin_set_remove1\<close>)
qed (use inv in \<open>simp add: leave_call_def\<close>)

lemma guard_reachable_inv: "guard_reachable c spell s \<Longrightarrow> guard_inv s"
proof (induction rule: guard_reachable.induct)
  case (init quotas n g k now)
  then show ?case
    by (auto simp: guard_init_def guard_inv_def windows_ok_def MAX_TRACKED_CALLERS_LIMIT_def map_res_eq_Inr dict_ok_def dkeys_def
        split: pyval.splits if_splits)
next
  case (enter s now m ow p)
  then show ?case using enter_inv by (metis prod.collapse)
qed (simp add: leave_inv)

section \<open>What a caller may do\<close>

text \<open>C30. Quotas hold per caller and method, in every interleaving of calls.  The table never tracks more
  windows than configured.  Of every window ever made, also one the table has forgotten, the calls
  in flight are exactly the calls in progress that were charged to it, never more than the method
  allows at once; and no stretch of time as long as the method's window holds more admitted calls
  than it allows.\<close>

theorem caller_quota_enforced:
  assumes "guard_reachable c spell s"
  shows "length (cg_windows (gw_guard s)) \<le> cg_max_tracked (gw_guard s) \<and>
    (\<forall>i < cg_next (gw_guard s). \<exists>q. dget (cg_quotas (gw_guard s)) (fst (gw_key s i)) = Some q \<and>
       cw_in_flight (cg_heap (gw_guard s) i) = count_list (gw_open s) i \<and>
       count_list (gw_open s) i \<le> qt_max_concurrent q \<and>
       (\<forall>b. length (filter (\<lambda>t. b - qt_window_seconds q < t \<and> t \<le> b) (call_times s i)) \<le> qt_max_calls q))"
proof -
  have inv: "guard_inv s" by (rule guard_reachable_inv [OF assms])
  note d = inv [unfolded guard_inv_def Let_def]
  have sorted: "sorted (call_times s i)" for i
    using d unfolding call_times_def by (intro sorted_filter) simp
  have "\<exists>q. dget (cg_quotas (gw_guard s)) (fst (gw_key s i)) = Some q \<and>
      cw_in_flight (cg_heap (gw_guard s) i) = count_list (gw_open s) i \<and> count_list (gw_open s) i \<le> qt_max_concurrent q \<and>
      (\<forall>b. length (filter (\<lambda>t. b - qt_window_seconds q < t \<and> t \<le> b) (call_times s i)) \<le> qt_max_calls q)"
    if i: "i < cg_next (gw_guard s)" for i
  proof -
    obtain q where q: "dget (cg_quotas (gw_guard s)) (fst (gw_key s i)) = Some q"
      "window_ok q (call_times s i) (count_list (gw_open s) i) (gw_now s) (cg_heap (gw_guard s) i)" using d i by blast
    then have "paced (qt_max_calls q) (qt_window_seconds q) (call_times s i)" by (simp add: window_ok_def)
    then show ?thesis using q paced_stretch [OF _ sorted] unfolding window_ok_def by blast
  qed
  then show ?thesis using d by (simp add: windows_ok_def)
qed

definition recent_calls :: "guard_world \<Rightarrow> string \<times> string \<Rightarrow> rat \<Rightarrow> nat" where
  "recent_calls s k horizon =
     (case dget (cg_windows (gw_guard s)) k of None \<Rightarrow> 0 | Some i \<Rightarrow> length (filter (\<lambda>t. horizon < t) (call_times s i)))"

definition in_progress :: "guard_world \<Rightarrow> string \<times> string \<Rightarrow> nat" where
  "in_progress s k = (case dget (cg_windows (gw_guard s)) k of None \<Rightarrow> 0 | Some i \<Rightarrow> count_list (gw_open s) i)"

lemma window_counts:
  assumes inv: "guard_inv s" and now: "gw_now s \<le> now" and q: "dget (cg_quotas (gw_guard s)) m = Some q"
    and w: "window_for m ow (gw_guard s) = (i, g1)"
  shows "length (cw_calls (expire_calls now (qt_window_seconds q) (cg_heap g1 i))) = recent_calls s (m, ow) (now - qt_window_seconds q)"
    and "cw_in_flight (expire_calls now (qt_window_seconds q) (cg_heap g1 i)) = in_progress s (m, ow)"
proof -
  note d = inv [unfolded guard_inv_def Let_def]
  obtain c: "dget (cg_windows (gw_guard s)) (m, ow) = Some i \<and> cg_heap g1 = cg_heap (gw_guard s) \<or>
     dget (cg_windows (gw_guard s)) (m, ow) = None \<and> cg_heap g1 i = \<lparr>cw_calls = [], cw_in_flight = 0\<rparr>"
    using window_for_cases [OF w] by (metis fun_upd_same)
  have "length (cw_calls (expire_calls now (qt_window_seconds q) (cg_heap g1 i))) = recent_calls s (m, ow) (now - qt_window_seconds q) \<and>
      cw_in_flight (expire_calls now (qt_window_seconds q) (cg_heap g1 i)) = in_progress s (m, ow)"
  proof (cases "dget (cg_windows (gw_guard s)) (m, ow)")
    case None
    then show ?thesis using c by (auto simp: recent_calls_def in_progress_def expire_calls_def)
  next
    case (Some j)
    then have j: "j = i" "cg_heap g1 = cg_heap (gw_guard s)" "i < cg_next (gw_guard s)" "gw_key s i = (m, ow)"
      using c d by (auto simp: windows_ok_def)
    then have ok: "window_ok q (call_times s i) (count_list (gw_open s) i) (gw_now s) (cg_heap (gw_guard s) i)"
      using d q by (metis fst_conv option.sel)
    then obtain old where o: "call_times s i = old @ cw_calls (cg_heap (gw_guard s) i)" "\<forall>t \<in> set old. t \<le> gw_now s - qt_window_seconds q"
      by (auto simp: window_ok_def)
    have "sorted (call_times s i)" using d unfolding call_times_def by (intro sorted_filter) simp
    then have "sorted (cw_calls (cg_heap (gw_guard s) i))" by (simp add: o(1) sorted_append)
    then have "cw_calls (expire_calls now (qt_window_seconds q) (cg_heap (gw_guard s) i)) =
        filter (\<lambda>t. now - qt_window_seconds q < t) (cw_calls (cg_heap (gw_guard s) i))"
      by (simp add: expire_calls_def dropWhile_sorted)
    moreover have "filter (\<lambda>t. now - qt_window_seconds q < t) old = []" using o(2) now by (fastforce simp: filter_empty_conv)
    ultimately show ?thesis using ok Some j by (simp add: recent_calls_def in_progress_def o(1) window_ok_def expire_calls_def)
  qed
  then show "length (cw_calls (expire_calls now (qt_window_seconds q) (cg_heap g1 i))) = recent_calls s (m, ow) (now - qt_window_seconds q)"
    and "cw_in_flight (expire_calls now (qt_window_seconds q) (cg_heap g1 i)) = in_progress s (m, ow)" by blast+
qed

text \<open>Nobody else's window is touched.\<close>

lemma others_untouched:
  assumes inv: "guard_inv s" and w: "window_for m ow (gw_guard s) = (i, g1)" and q: "dget (cg_quotas (gw_guard s)) m = Some q"
    and g: "g = g1\<lparr>cg_heap := (cg_heap g1)(i := w0)\<rparr>" and k: "k \<noteq> (m, ow)"
  shows "dget (cg_windows g) k = Some j \<Longrightarrow> dget (cg_windows (gw_guard s)) k = Some j \<and> cg_heap g j = cg_heap (gw_guard s) j"
    and "dget (cg_windows (gw_guard s)) k = Some j \<Longrightarrow> dget (cg_windows g) k = None \<Longrightarrow>
      length (cg_windows (gw_guard s)) = cg_max_tracked (gw_guard s)"
proof -
  let ?g = "gw_guard s"
  note d = inv [unfolded guard_inv_def Let_def] and sn = seen_inv [OF inv q w]
  have wok: "1 \<le> cg_max_tracked ?g" "dict_ok (cg_windows ?g)" "length (cg_windows ?g) \<le> cg_max_tracked ?g" using d by (simp_all add: windows_ok_def)
  obtain c: "cg_max_tracked g1 = cg_max_tracked ?g"
    "cg_windows g1 = drop (length (dpop (m, ow) (cg_windows ?g) @ [((m, ow), i)]) - cg_max_tracked ?g) (dpop (m, ow) (cg_windows ?g) @ [((m, ow), i)])"
    "cg_heap g1 = cg_heap ?g \<or> cg_heap g1 = (cg_heap ?g)(cg_next ?g := \<lparr>cw_calls = [], cw_in_flight = 0\<rparr>)"
    using window_for_cases [OF w] by metis
  note tb = touched_table [OF wok(2,1) c(2)]
  show "dget (cg_windows ?g) k = Some j \<and> cg_heap g j = cg_heap ?g j" if "dget (cg_windows g) k = Some j"
  proof -
    have at: "dget (cg_windows g1) k = Some j" using that by (simp add: g)
    then have o: "dget (cg_windows ?g) k = Some j" by (rule tb(4) [OF k])
    then have "j \<noteq> cg_next ?g" using d unfolding windows_ok_def by (metis less_irrefl)
    moreover have "j \<noteq> i"
    proof
      assume "j = i"
      moreover have "windows_ok (gw_guard (seen m ow s)) (gw_key (seen m ow s))" using sn(1) unfolding guard_inv_def Let_def by blast
      moreover have "gw_guard (seen m ow s) = g1" by (simp add: seen_def w)
      moreover have "gw_key (seen m ow s) j = k" using calculation(2,3) at unfolding windows_ok_def by metis
      ultimately show False using sn(3) k by simp
    qed
    ultimately show ?thesis using o c(3) by (auto simp: g)
  qed
  show "length (cg_windows ?g) = cg_max_tracked ?g"
    if "dget (cg_windows ?g) k = Some j" "dget (cg_windows g) k = None"
  proof -
    have "cg_max_tracked ?g \<le> length (dpop (m, ow) (cg_windows ?g))" using tb(5) [OF k that(1)] that(2) by (simp add: g)
    then show ?thesis using wok(3) length_dpop_le [of "(m, ow)" "cg_windows ?g"] by linarith
  qed
qed


section \<open>Callers keep their identity\<close>

lemma canonical_nat_str:
  assumes "n < 10 ^ k" and "0 < k"
  shows "canonical_digits k (nat_str n)"
proof (cases "n = 0")
  case True
  moreover have "nat_str 0 = ''0''" by code_simp
  ultimately show ?thesis by (simp add: canonical_digits_def)
next
  case False
  then show ?thesis using length_nat_str [OF assms] hd_nat_str [of n] nat_str_digits [of n] by (simp add: canonical_digits_def)
qed

text \<open>
  Every connection of a peer is given the same owner, whatever its serial; different peers are given
  different owners; and a connection whose credentials cannot be read is anonymous.
\<close>

lemma owner_of_peer:
  assumes "0 \<le> uid" and "uid < 10 ^ 10" and "serial < 10 ^ 19"
  shows "owner_token (resolve_caller (peer_sender (Some uid) serial)) = ''uid:'' @ nat_str (nat uid)"
    and "valid_sender (PStr (peer_sender (Some uid) serial))"
proof -
  let ?u = "nat_str (nat uid)" and ?s = "nat_str serial"
  have colon: "\<not> json_digit (CHR '':'')" "\<not> json_digit (CHR 0x0A)" by (simp_all add: json_digit_def)
  have u: "list_all json_digit ?u" "list_all json_digit ?s" by (rule nat_str_digits)+
  then have nc: "CHR '':'' \<notin> set ?u" "last ?s \<noteq> CHR 0x0A"
    using colon last_in_set [OF nat_str_nonempty [of serial]] unfolding list_all_iff by metis+
  have tw: "takeWhile (\<lambda>c. c \<noteq> CHR '':'') (?u @ CHR '':'' # ?s) = ?u" "dropWhile (\<lambda>c. c \<noteq> CHR '':'') (?u @ CHR '':'' # ?s) = CHR '':'' # ?s"
    using nc(1) by (simp_all add: takeWhile_append dropWhile_append)
  have can: "canonical_digits 10 ?u" "canonical_digits 19 ?s" using assms by (auto intro: canonical_nat_str)
  have p: "peer_sender (Some uid) serial = ''peer:'' @ ?u @ CHR '':'' # ?s" using assms(1) by (simp add: peer_sender_def)
  have m: "match_peer (peer_sender (Some uid) serial) = Some ?u"
    unfolding p match_peer_def Let_def using nc(2) can by (simp add: tw)
  show "owner_token (resolve_caller (peer_sender (Some uid) serial)) = ''uid:'' @ ?u"
    by (simp add: resolve_caller_def m owner_token_def)
  show "valid_sender (PStr (peer_sender (Some uid) serial))" by (simp add: valid_sender_def m)
qed

lemma nat_str_inj: "nat_str n = nat_str k \<Longrightarrow> n = k"
  by (metis digits_value_nat_str)

lemma owners_distinct:
  assumes "0 \<le> u" "u < 10 ^ 10" "0 \<le> v" "v < 10 ^ 10" "a < 10 ^ 19" "b < 10 ^ 19"
  shows "owner_token (resolve_caller (peer_sender (Some u) a)) = owner_token (resolve_caller (peer_sender (Some v) b)) \<longleftrightarrow> u = v"
  using owner_of_peer(1) [OF assms(1,2,5)] owner_of_peer(1) [OF assms(3,4,6)] nat_str_inj [of "nat u" "nat v"] assms(1,3) by auto

lemma owner_anonymous: "match_peer sender = None \<Longrightarrow> owner_token (resolve_caller sender) = ANONYMOUS_OWNER"
  by (simp add: resolve_caller_def owner_token_def ANONYMOUS_def)

section \<open>Witnesses\<close>

text \<open>One submission per window is allowed; the second is refused, and a minute later admitted.\<close>

definition demo_quotas :: "method_quota option dict" where
  "demo_quotas = [(''submit-job'', Some (quota_of 10 1 1))]"

definition demo_table :: "quota dict" where
  "demo_table =
     [(''apply-command'', \<lparr>qt_max_bytes = 65536, qt_max_calls = 240, qt_window_seconds = 10, qt_max_concurrent = 4\<rparr>),
      (''submit-job'', \<lparr>qt_max_bytes = 10, qt_max_calls = 1, qt_window_seconds = 10, qt_max_concurrent = 1\<rparr>),
      (''cancel-job'', \<lparr>qt_max_bytes = 16384, qt_max_calls = 60, qt_window_seconds = 10, qt_max_concurrent = 8\<rparr>),
      (''get-job-result'', \<lparr>qt_max_bytes = 16384, qt_max_calls = 240, qt_window_seconds = 10, qt_max_concurrent = 8\<rparr>),
      (''describe-plugins'', \<lparr>qt_max_bytes = 1, qt_max_calls = 30, qt_window_seconds = 10, qt_max_concurrent = 4\<rparr>),
      (''describe-contract'', \<lparr>qt_max_bytes = 1, qt_max_calls = 20, qt_window_seconds = 10, qt_max_concurrent = 4\<rparr>)]"

definition demo_control_guard :: control_guard where
  "demo_control_guard = \<lparr>cg_quotas = demo_table, cg_max_tracked = 2, cg_windows = [],
     cg_heap = (\<lambda>_. \<lparr>cw_calls = [], cw_in_flight = 0\<rparr>), cg_next = 0\<rparr>"

definition demo_guard :: guard_world where
  "demo_guard = \<lparr>gw_guard = demo_control_guard, gw_open = [], gw_key = (\<lambda>_. ([], [])), gw_log = [], gw_now = 0\<rparr>"

definition demo_entered :: guard_world where
  "demo_entered = snd (enter_call demo_codec (\<lambda>_. ''10'') ''submit-job'' ''uid:1'' (Some PNone) 0 demo_guard)"

lemma demo_resolved:
  "resolved_quotas (fold (\<lambda>(m, q). dset m q) demo_quotas (map (\<lambda>(m, q). (m, Some q)) DEFAULT_QUOTAS)) = Inr demo_table"
proof -
  have v: "validate_quota m (quota_of b c k) = Inr \<lparr>qt_max_bytes = nat b, qt_max_calls = nat c, qt_window_seconds = 10, qt_max_concurrent = nat k\<rparr>"
    if "1 \<le> b" "1 \<le> c" "1 \<le> k" for m b c k
    using that by (simp add: validate_quota_def quota_of_def positive_field_def window_field_def)
  show ?thesis by (simp add: demo_quotas_def DEFAULT_QUOTAS_def dset_def v demo_table_def)
qed

lemma demo_submit_quota: "dget (cg_quotas demo_control_guard) ''submit-job'' =
    Some \<lparr>qt_max_bytes = 10, qt_max_calls = 1, qt_window_seconds = 10, qt_max_concurrent = 1\<rparr>"
  by (simp add: demo_control_guard_def demo_table_def dget_Cons)

lemma demo_guard_made: "guard_init demo_quotas (PInt 2) = Inr demo_control_guard"
  unfolding guard_init_def demo_resolved by (simp add: MAX_TRACKED_CALLERS_LIMIT_def demo_control_guard_def)

lemma demo_entered_reachable: "guard_reachable demo_codec (\<lambda>_. ''10'') demo_entered"
proof -
  have "guard_reachable demo_codec (\<lambda>_. ''10'') demo_guard"
    unfolding demo_guard_def by (rule guard_reachable.init [OF demo_guard_made])
  then show ?thesis unfolding demo_entered_def by (rule guard_reachable.enter) (simp add: demo_guard_def)
qed

lemma demo_entered_eq:
  "demo_entered = \<lparr>gw_guard = demo_control_guard\<lparr>cg_windows := [((''submit-job'', ''uid:1''), 0)], cg_next := 1,
       cg_heap := (cg_heap demo_control_guard)(0 := \<lparr>cw_calls = [0], cw_in_flight = 1\<rparr>)\<rparr>,
     gw_open = [0], gw_key = (\<lambda>_. ([], []))(0 := (''submit-job'', ''uid:1'')), gw_log = [(0, 0)], gw_now = 0\<rparr>"
proof -
  have n: "cg_windows demo_control_guard = []" "cg_next demo_control_guard = 0" "cg_max_tracked demo_control_guard = 2"
    "cg_heap demo_control_guard = (\<lambda>_. \<lparr>cw_calls = [], cw_in_flight = 0\<rparr>)" by (simp_all add: demo_control_guard_def)
  let ?q = "\<lparr>qt_max_bytes = 10, qt_max_calls = 1, qt_window_seconds = 10, qt_max_concurrent = 1\<rparr> :: quota"
  have chk: "check_payload demo_codec ''submit-job'' ?q (Some PNone) = Inr ()"
    by (simp add: check_payload_def demo_codec_def asserted_identity_field_def)
  have win: "window_for ''submit-job'' ow demo_control_guard = (0, demo_control_guard\<lparr>cg_windows := [((''submit-job'', ow), 0)], cg_next := 1\<rparr>)" for ow
    by (simp add: window_for_def n dhas_iff fun_upd_idem_iff)
  have "guard_admit demo_codec (\<lambda>_. ''10'') ''submit-job'' ''uid:1'' (Some PNone) 0 demo_control_guard =
      (Inr 0, demo_control_guard\<lparr>cg_windows := [((''submit-job'', ''uid:1''), 0)], cg_next := 1,
       cg_heap := (cg_heap demo_control_guard)(0 := \<lparr>cw_calls = [0], cw_in_flight = 1\<rparr>)\<rparr>)"
    unfolding guard_admit_def quota_for_def demo_submit_quota option.case bind_res_simps chk map_res_simps sum.case win Let_def prod.case
    by (simp add: n expire_calls_def)
  then show ?thesis by (simp add: demo_entered_def enter_call_def demo_guard_def n)
qed

theorem caller_quota_enforced_witness:
  "\<exists>q. dget (cg_quotas (gw_guard demo_entered)) (fst (gw_key demo_entered 0)) = Some q \<and> 1 \<le> qt_max_concurrent q"
  using caller_quota_enforced [OF demo_entered_reachable] by (auto simp: demo_entered_eq)


end
