(* ===== verification/Control_Surface.thy ===== *)
theory Control_Surface
  imports Control_Guard Control Ipc_Frames Output_Reading
begin

text \<open>
  \<^verbatim>\<open>src/omnitensor/runtime_api.py\<close> and \<^verbatim>\<open>src/omnitensor/socket_transport.py\<close>: a request frame of the
  control socket from its bytes through the guard and the method to the reply, and the client's half.
  msgpack, the printer and the schema validator are arguments; what the schemas of the envelope and of
  a refusal require is written out from \<^verbatim>\<open>src/schemas\<close>.
\<close>

section \<open>Frames of the control socket\<close>

definition CONTROL_PROTOCOL_VERSION :: int where "CONTROL_PROTOCOL_VERSION = 1"
definition MAX_SOCKET_FRAME_BYTES :: nat where "MAX_SOCKET_FRAME_BYTES = 16 * 1024 * 1024"

record packer =
  pk_pack :: "pyval \<Rightarrow> octet list"
  pk_unpack :: "octet list \<Rightarrow> pyval option"

definition socket_encode :: "packer \<Rightarrow> pyval \<Rightarrow> octet list res" where
  "socket_encode pk document =
     (let payload = pk_pack pk document in
      if MAX_SOCKET_FRAME_BYTES < length payload
      then Inl (Stable ''frame-too-large'' (nat_str (length payload) @ '' bytes exceeds '' @ nat_str MAX_SOCKET_FRAME_BYTES))
      else map_res (\<lambda>header. header @ payload) (header_pack (length payload)))"

text \<open>The stream ends after the given octets; \<open>Inr None\<close> is its clean end.\<close>

definition socket_read :: "packer \<Rightarrow> octet list \<Rightarrow> pyval dict option res \<times> octet list" where
  "socket_read pk stream =
     (if length stream < 4
      then (if stream = [] then Inr None else Inl (Stable ''frame-truncated'' ''stream ended inside a length prefix''), [])
      else (let size = header_unpack (take 4 stream); rest = drop 4 stream
            in if size = 0 \<or> MAX_SOCKET_FRAME_BYTES < size
               then (Inl (Stable ''frame-length-invalid'' (''declared '' @ nat_str size @ '' bytes'')), rest)
               else if length rest < size then (Inl (Stable ''frame-truncated'' ''stream ended inside a frame''), [])
               else (case pk_unpack pk (take size rest) of
                       None \<Rightarrow> (Inl (Stable ''frame-undecodable'' ''frame is not valid msgpack''), drop size rest)
                     | Some (PDict d) \<Rightarrow> (Inr (Some d), drop size rest)
                     | Some _ \<Rightarrow> (Inl (Stable ''frame-undecodable'' ''frame is not a map''), drop size rest))))"

section \<open>The envelope\<close>

definition shown :: "string \<Rightarrow> string \<Rightarrow> string" where
  "shown code detail = (if strip_text detail = [] then code else strip_text detail)"

definition error_reply :: "int \<Rightarrow> string \<Rightarrow> string \<Rightarrow> pyval" where
  "error_reply request_id code detail =
     PDict [(''version'', PInt CONTROL_PROTOCOL_VERSION), (''id'', PInt request_id),
            (''error'', PDict [(''code'', PStr code), (''message'', PStr (shown code detail))])]"

definition result_envelope :: "int \<Rightarrow> pyval \<Rightarrow> pyval" where
  "result_envelope request_id result =
     PDict [(''version'', PInt CONTROL_PROTOCOL_VERSION), (''id'', PInt request_id), (''result'', result)]"

definition salvaged_id :: "pyval dict \<Rightarrow> int" where
  "salvaged_id request =
     (case dget request ''id'' of
        Some (PInt n) \<Rightarrow> if 0 \<le> n \<and> n \<le> 4294967295 then n else 0
      | _ \<Rightarrow> 0)"

definition encoded_reply :: "packer \<Rightarrow> pyval dict \<Rightarrow> octet list res" where
  "encoded_reply pk answer =
     (case socket_encode pk (PDict answer) of
        Inr bytes \<Rightarrow> Inr bytes
      | Inl (Stable code detail) \<Rightarrow>
          if code \<noteq> ''frame-too-large'' then Inl (Stable code detail)
          else (case dget answer ''id'' of
                  Some (PInt n) \<Rightarrow> socket_encode pk (error_reply n ''result-too-large'' detail)
                | _ \<Rightarrow> Inl KeyError)
      | Inl e \<Rightarrow> Inl e)"

text \<open>
  What \<^verbatim>\<open>control-request.schema.json\<close> requires of the fields that are read, what \<^verbatim>\<open>runtime-refusal.schema.json\<close>
  asks of a refusal, and \<^verbatim>\<open>control-reply.schema.json\<close> of an answer.
\<close>

definition control_request_ok :: "pyval dict \<Rightarrow> bool" where
  "control_request_ok d =
     (case (dget d ''id'', dget d ''method'', dget d ''params'') of
        (Some (PInt n), Some (PStr m), Some (PDict p)) \<Rightarrow> 0 \<le> n \<and> n \<le> 4294967295
      | _ \<Rightarrow> False)"

definition REFUSAL_CODES :: "string list" where
  "REFUSAL_CODES = [''rate-limit-exceeded'', ''concurrency-limit-exceeded'', ''payload-too-large'', ''payload-invalid'',
     ''identity-asserted'', ''method-unknown'', ''quota-invalid'']"

definition kebab :: "string \<Rightarrow> bool" where
  "kebab s \<longleftrightarrow> words_by lower_alnum (CHR ''-'') False s \<and> (case s of ch # _ \<Rightarrow> lower_alnum ch \<and> \<not> json_digit ch | [] \<Rightarrow> False)"

definition refusal_ok :: "string \<Rightarrow> string \<Rightarrow> string \<Rightarrow> bool" where
  "refusal_ok code message method \<longleftrightarrow>
     code \<in> set REFUSAL_CODES \<and> 1 \<le> length message \<and> length message \<le> 500 \<and> length method \<le> 64 \<and> kebab method"

definition control_reply_ok :: "pyval dict \<Rightarrow> bool" where
  "control_reply_ok d \<longleftrightarrow>
     set (dkeys d) \<subseteq> {''version'', ''id'', ''result'', ''error''} \<and> dget d ''version'' = Some (PInt 1) \<and>
     (case dget d ''id'' of Some (PInt n) \<Rightarrow> 0 \<le> n \<and> n \<le> 4294967295 | _ \<Rightarrow> False) \<and>
     (case (dget d ''result'', dget d ''error'') of
        (Some (PDict x), None) \<Rightarrow> True
      | (None, Some (PDict e)) \<Rightarrow>
          set (dkeys e) = {''code'', ''message''} \<and>
          (case (dget e ''code'', dget e ''message'') of
             (Some (PStr code), Some (PStr message)) \<Rightarrow> length code \<le> 64 \<and> kebab code \<and> message \<noteq> []
           | _ \<Rightarrow> False)
      | _ \<Rightarrow> False)"

section \<open>The service behind the socket\<close>

definition RUNTIME_METHODS :: "string list" where
  "RUNTIME_METHODS = [''apply-command'', ''submit-job'', ''cancel-job'', ''get-job-result'', ''describe-plugins'', ''describe-contract'']"

text \<open>
  What one request meets: codec and validator, the spelling of a float, what the job and the control
  service ask of their surroundings, the printer, the empty text, and the two descriptions.
\<close>

record 't surface =
  su_codec :: "'t codec"
  su_spell :: "rat \<Rightarrow> string"
  su_env :: env
  su_cenv :: cenv
  su_dumps :: "pyval \<Rightarrow> 't option"
  su_empty :: 't
  su_inventory :: "pyval res"
  su_contract :: "pyval res"

record api =
  ap_guard :: guard_world
  ap_jobs :: service
  ap_control :: control

definition control_reply :: "'t codec \<Rightarrow> ack \<Rightarrow> pyval res" where
  "control_reply c k =
     (let document = PDict [(''version'', PInt CONTROL_VERSION), (''commandId'', PStr (ak_command k)), (''status'', PStr (ak_status k)),
                            (''revision'', PInt (ak_revision k)), (''appliedAt'', PInt (ak_at k)), (''message'', PStr (ak_message k)),
                            (''portfolio'', ak_portfolio k)]
      in if violations c ''runtime-acknowledgement.schema.json'' document \<noteq> []
         then Inl (RuntimeError ''acknowledgement violates contract'')
         else (case wire c document of None \<Rightarrow> Inl ValueError | Some d \<Rightarrow> Inr d))"

text \<open>A cancellation may wait for the task it cancels.\<close>

datatype method_end = Answered "pyval res" | CancelWait string string nat

definition call_method :: "'t surface \<Rightarrow> string \<Rightarrow> 't \<Rightarrow> string \<Rightarrow> api \<Rightarrow> method_end \<times> api" where
  "call_method w method text owner a =
     (let c = su_codec w; e = su_env w in
      if method = ''apply-command''
      then (case apply_command (su_cenv w) (loads c text) (ap_control a) of
              (k, ct) \<Rightarrow> (Answered (control_reply c k), a\<lparr>ap_control := ct\<rparr>))
      else if method = ''submit-job''
      then (case submit_job_text c e text owner (ap_jobs a) of (r, s) \<Rightarrow> (Answered r, a\<lparr>ap_jobs := s\<rparr>))
      else if method = ''cancel-job''
      then (case cancel_begin c e text owner (ap_jobs a) of
              (CReply r, s) \<Rightarrow> (Answered r, a\<lparr>ap_jobs := s\<rparr>)
            | (CWait rid j t, s) \<Rightarrow> (CancelWait rid j t, a\<lparr>ap_jobs := s\<rparr>))
      else if method = ''get-job-result''
      then (case job_result_text c e text owner (ap_jobs a) of (r, s) \<Rightarrow> (Answered r, a\<lparr>ap_jobs := s\<rparr>))
      else if method = ''describe-plugins'' then (Answered (su_inventory w), a)
      else (Answered (su_contract w), a))"

text \<open>\<^verbatim>\<open>GuardRefusedError.text\<close> checks the refusal against its schema; what it raises then is not caught.\<close>

definition refusal_reply :: "'t codec \<Rightarrow> int \<Rightarrow> string \<Rightarrow> exn \<Rightarrow> pyval res" where
  "refusal_reply c request_id method e =
     (if violations c ''runtime-refusal.schema.json'' (refusal_document method e) \<noteq> []
      then Inl (RuntimeError ''runtime refusal violates contract'')
      else (case e of Stable code message \<Rightarrow> Inr (error_reply request_id code message) | _ \<Rightarrow> Inl KeyError))"

definition method_reply :: "int \<Rightarrow> string \<Rightarrow> pyval res \<Rightarrow> pyval" where
  "method_reply request_id method r =
     (case r of
        Inr document \<Rightarrow> result_envelope request_id document
      | Inl _ \<Rightarrow> error_reply request_id ''internal-error'' (method @ '' failed inside the service; the journal has the cause''))"

text \<open>\<open>Waiting\<close>: the guard holds the window of this call until the cancelled task is done.\<close>

datatype 't request_progress = Replied "pyval res" | Waiting int nat 't string string nat

definition guarded_text :: "'t surface \<Rightarrow> string \<Rightarrow> 't \<Rightarrow> 't" where
  "guarded_text w m text = (if m = ''describe-plugins'' \<or> m = ''describe-contract'' then su_empty w else text)"

definition answer_call :: "'t surface \<Rightarrow> int \<Rightarrow> nat \<Rightarrow> string \<Rightarrow> 't \<Rightarrow> string \<Rightarrow> api \<Rightarrow> 't request_progress \<times> api" where
  "answer_call w n i m text owner a =
     (case call_method w m text owner a of
        (Answered r, b) \<Rightarrow> (Replied (Inr (method_reply n m r)), b\<lparr>ap_guard := leave_call i (ap_guard b)\<rparr>)
      | (CancelWait rid j t, b) \<Rightarrow> (Waiting n i text rid j t, b))"

definition begin_request :: "'t surface \<Rightarrow> string \<Rightarrow> pyval dict \<Rightarrow> rat \<Rightarrow> api \<Rightarrow> 't request_progress \<times> api" where
  "begin_request w sender request now a =
     (let c = su_codec w in
      case violations c ''control-request.schema.json'' (PDict request) of
        v # _ \<Rightarrow> (Replied (Inr (error_reply (salvaged_id request) ''request-invalid'' v)), a)
      | [] \<Rightarrow>
          (case (dget request ''id'', dget request ''method'', dget request ''params'') of
             (Some (PInt n), Some (PStr m), Some params) \<Rightarrow>
               if m \<notin> set RUNTIME_METHODS
               then (Replied (Inr (error_reply n ''method-unknown'' (''this service does not export '' @ m))), a)
               else (case su_dumps w params of
                       None \<Rightarrow> (Replied (Inr (error_reply n ''request-invalid'' ''params are not a JSON document'')), a)
                     | Some text \<Rightarrow>
                         (let owner = owner_token (resolve_caller sender);
                              payload = guarded_text w m text
                          in case enter_call c (su_spell w) m owner (Some payload) now (ap_guard a) of
                               (Inl e, g) \<Rightarrow> (Replied (refusal_reply c n m e), a\<lparr>ap_guard := g\<rparr>)
                             | (Inr i, g) \<Rightarrow>
                                 answer_call w n i m text owner (a\<lparr>ap_guard := g\<rparr>)))
           | _ \<Rightarrow> (Replied (Inl KeyError), a)))"

definition finish_request :: "'t surface \<Rightarrow> 't request_progress \<Rightarrow> api \<Rightarrow> pyval res \<times> api" where
  "finish_request w p a =
     (case p of
        Replied r \<Rightarrow> (r, a)
      | Waiting n i text rid j t \<Rightarrow>
          (Inr (method_reply n ''cancel-job'' (cancel_finish (su_codec w) (su_env w) text rid j t (ap_jobs a))),
           a\<lparr>ap_guard := leave_call i (ap_guard a)\<rparr>))"

text \<open>One turn of a connection: \<open>Held\<close> until the cancelled task is done, \<open>Dropped\<close> by an exception nobody catches.\<close>

datatype 't conn_turn = Closed | Sent "octet list" | Dropped exn | Held "'t request_progress"

definition reply_turn :: "packer \<Rightarrow> pyval res \<Rightarrow> 't conn_turn" where
  "reply_turn pk r =
     (case r of
        Inr (PDict answer) \<Rightarrow>
          (case encoded_reply pk answer of Inr bytes \<Rightarrow> Sent bytes | Inl (Stable code detail) \<Rightarrow> Closed | Inl e \<Rightarrow> Dropped e)
      | Inr _ \<Rightarrow> Dropped TypeError
      | Inl e \<Rightarrow> Dropped e)"

definition serve_turn :: "packer \<Rightarrow> 't surface \<Rightarrow> string \<Rightarrow> rat \<Rightarrow> octet list \<Rightarrow> api \<Rightarrow> 't conn_turn \<times> octet list \<times> api" where
  "serve_turn pk w sender now stream a =
     (case socket_read pk stream of
        (Inr (Some request), rest) \<Rightarrow>
          (case begin_request w sender request now a of
             (Replied r, b) \<Rightarrow> (reply_turn pk r, rest, b)
           | (Waiting n i text rid j t, b) \<Rightarrow> (Held (Waiting n i text rid j t), rest, b))
      | (_, rest) \<Rightarrow> (Closed, rest, a))"

section \<open>The client's half\<close>

definition client_request :: "string \<Rightarrow> pyval dict option \<Rightarrow> pyval dict" where
  "client_request method params =
     [(''version'', PInt CONTROL_PROTOCOL_VERSION), (''id'', PInt 1), (''method'', PStr method),
      (''params'', PDict (case params of None \<Rightarrow> [] | Some p \<Rightarrow> p))]"

definition client_outcome :: "'t codec \<Rightarrow> int \<Rightarrow> pyval dict option \<Rightarrow> pyval res" where
  "client_outcome c request_id answer =
     (case answer of
        None \<Rightarrow> Inl (Stable ''connection-closed'' ''the service closed without replying'')
      | Some d \<Rightarrow>
          (case violations c ''control-reply.schema.json'' (PDict d) of
             v # _ \<Rightarrow> Inl (Stable ''reply-invalid'' v)
           | [] \<Rightarrow>
               if dget d ''id'' \<noteq> Some (PInt request_id) then Inl (Stable ''reply-mismatched'' ''reply answers a different request'')
               else (case dget d ''error'' of
                       Some (PDict e) \<Rightarrow>
                         (case (dget e ''code'', dget e ''message'') of
                            (Some (PStr code), Some (PStr message)) \<Rightarrow> Inl (Stable code message)
                          | _ \<Rightarrow> Inl KeyError)
                     | _ \<Rightarrow> (case dget d ''result'' of Some v \<Rightarrow> Inr v | None \<Rightarrow> Inl KeyError))))"

section \<open>Every request is answered\<close>

definition ERROR_CODES :: "string list" where
  "ERROR_CODES = [''request-invalid'', ''method-unknown'', ''internal-error''] @ REFUSAL_CODES"

text \<open>An answer to the request with an id: one result, or one error with a code of the protocol.\<close>

definition answers :: "int \<Rightarrow> pyval \<Rightarrow> bool" where
  "answers n v \<longleftrightarrow> (\<exists>x. v = result_envelope n x) \<or> (\<exists>code detail. v = error_reply n code detail \<and> code \<in> set ERROR_CODES)"

text \<open>The refusals of the guard are within their schema when the numbers in them are of readable length.\<close>

definition readable :: "'t surface \<Rightarrow> control_guard \<Rightarrow> bool" where
  "readable w g \<longleftrightarrow>
     (\<forall>q. length (su_spell w q) \<le> 60) \<and> (\<forall>text. length (nat_str (utf8_size_pass (su_codec w) text)) \<le> 60) \<and>
     (\<forall>m q. dget (cg_quotas g) m = Some q \<longrightarrow>
        length (nat_str (qt_max_bytes q)) \<le> 60 \<and> length (nat_str (qt_max_calls q)) \<le> 60 \<and> length (nat_str (qt_max_concurrent q)) \<le> 60)"

definition presentable :: "exn \<Rightarrow> bool" where
  "presentable e \<longleftrightarrow> (\<exists>code detail. e = Stable code detail \<and> code \<in> set REFUSAL_CODES \<and> 1 \<le> length detail \<and> length detail \<le> 500)"

lemma presentable_codes:
  "\<lbrakk>1 \<le> length d; length d \<le> 500\<rbrakk> \<Longrightarrow> presentable (Stable ''rate-limit-exceeded'' d)"
  "\<lbrakk>1 \<le> length d; length d \<le> 500\<rbrakk> \<Longrightarrow> presentable (Stable ''concurrency-limit-exceeded'' d)"
  "\<lbrakk>1 \<le> length d; length d \<le> 500\<rbrakk> \<Longrightarrow> presentable (Stable ''payload-too-large'' d)"
  "\<lbrakk>1 \<le> length d; length d \<le> 500\<rbrakk> \<Longrightarrow> presentable (Stable ''identity-asserted'' d)"
  "\<lbrakk>1 \<le> length d; length d \<le> 500\<rbrakk> \<Longrightarrow> presentable (Stable ''method-unknown'' d)"
  by (simp_all add: presentable_def REFUSAL_CODES_def)

lemma asserted_field:
  assumes "asserted_identity_field c text n = x # xs"
  shows "length (x # xs) \<le> 11"
proof -
  have size: "\<not> n < utf8_size_pass c text" using assms by (auto simp: asserted_identity_field_def)
  obtain v where v: "loads c text = Some v" using assms size by (cases "loads c text") (simp_all add: asserted_identity_field_def)
  obtain d where d0: "v = PDict d" using assms size v by (cases v) (simp_all add: asserted_identity_field_def)
  have d: "(case sort (filter (dhas d) ASSERTED_IDENTITY_FIELDS) of [] \<Rightarrow> [] | f # _ \<Rightarrow> f) = x # xs"
    using assms size v d0 by (simp add: asserted_identity_field_def)
  then have "x # xs \<in> set (sort (filter (dhas d) ASSERTED_IDENTITY_FIELDS))"
    by (cases "sort (filter (dhas d) ASSERTED_IDENTITY_FIELDS)") (simp, metis list.set_intros(1) list.simps(5))
  then have "x # xs \<in> set ASSERTED_IDENTITY_FIELDS" by (simp only: set_sort set_filter mem_Collect_eq)
  moreover have "\<forall>f \<in> set ASSERTED_IDENTITY_FIELDS. length f \<le> 11" by (simp add: ASSERTED_IDENTITY_FIELDS_def)
  ultimately show ?thesis by blast
qed

lemma check_payload_refusal:
  assumes "check_payload c m q (Some text) = Inl e" and "length m \<le> 20"
    and "length (nat_str (qt_max_bytes q)) \<le> 60" and "length (nat_str (utf8_size_pass c text)) \<le> 60"
  shows "presentable e"
proof (cases "qt_max_bytes q < utf8_size_pass c text")
  case True
  then have "e = Stable ''payload-too-large'' (m @ '' accepts '' @ nat_str (qt_max_bytes q) @ '' bytes, received '' @
      nat_str (utf8_size_pass c text))" using assms(1) by (simp add: check_payload_def)
  then show ?thesis using assms(2-4) by (auto intro: presentable_codes)
next
  case False
  then obtain x xs where x: "asserted_identity_field c text (qt_max_bytes q) = x # xs"
    "e = Stable ''identity-asserted'' (m @ '' must not carry a caller-asserted '' @ (x # xs))"
    using assms(1) by (cases "asserted_identity_field c text (qt_max_bytes q)") (simp_all add: check_payload_def)
  then show ?thesis using asserted_field [OF x(1)] assms(2) by (auto intro: presentable_codes)
qed

lemma admit_refusal:
  assumes "guard_admit (su_codec w) (su_spell w) m ow (Some text) now g = (Inl e, g2)" and "readable w g" and "length m \<le> 20"
  shows "presentable e"
proof (cases "dget (cg_quotas g) m")
  case None
  then have "e = Stable ''method-unknown'' (''no quota is declared for '' @ m)" using assms(1) by (simp add: guard_admit_def quota_for_def)
  then show ?thesis using assms(3) by (auto intro: presentable_codes)
next
  case (Some q)
  have b: "length (nat_str (qt_max_bytes q)) \<le> 60" "length (nat_str (qt_max_calls q)) \<le> 60" "length (nat_str (qt_max_concurrent q)) \<le> 60"
    "length (nat_str (utf8_size_pass (su_codec w) text)) \<le> 60" "length (su_spell w (qt_window_seconds q)) \<le> 60"
    using assms(2) Some by (auto simp: readable_def)
  show ?thesis
  proof (cases "check_payload (su_codec w) m q (Some text)")
    case (Inl x)
    then have "e = x" using assms(1) Some by (simp add: guard_admit_def quota_for_def)
    then show ?thesis using check_payload_refusal [OF Inl assms(3) b(1,4)] by simp
  next
    case (Inr u)
    have "e = Stable ''rate-limit-exceeded'' (m @ '' allows '' @ nat_str (qt_max_calls q) @ '' calls per '' @ su_spell w (qt_window_seconds q) @ ''s'') \<or>
        e = Stable ''concurrency-limit-exceeded'' (m @ '' allows '' @ nat_str (qt_max_concurrent q) @ '' concurrent calls'')"
      using assms(1) unfolding guard_admit_def quota_for_def Some option.case bind_res_simps Inr map_res_simps sum.case Let_def
      by (simp split: prod.splits if_splits)
    then show ?thesis using assms(3) b by (auto intro!: presentable_codes)
  qed
qed

lemma runtime_method_name:
  assumes "m \<in> set RUNTIME_METHODS"
  shows "length m \<le> 20" and "kebab m"
  using assms unfolding RUNTIME_METHODS_def by (auto simp: kebab_def lower_alnum_def json_digit_def)

lemma control_request_fields:
  assumes "control_request_ok d"
  shows "\<exists>n m p. dget d ''id'' = Some (PInt n) \<and> dget d ''method'' = Some (PStr m) \<and> dget d ''params'' = Some (PDict p)"
proof -
  have "\<exists>n. dget d ''id'' = Some (PInt n)"
    using assms by (cases "dget d ''id''"; cases "the (dget d ''id'')") (simp_all add: control_request_ok_def)
  then obtain n where n: "dget d ''id'' = Some (PInt n)" ..
  have "\<exists>m. dget d ''method'' = Some (PStr m)"
    using assms n by (cases "dget d ''method''"; cases "the (dget d ''method'')") (simp_all add: control_request_ok_def)
  then obtain m where m: "dget d ''method'' = Some (PStr m)" ..
  have "\<exists>p. dget d ''params'' = Some (PDict p)"
    using assms n m by (cases "dget d ''params''"; cases "the (dget d ''params'')") (simp_all add: control_request_ok_def)
  then show ?thesis using n m by blast
qed

text \<open>What a method does leaves the guard alone.\<close>

lemma call_method_guard: "call_method w m text ow a = (r, b) \<Longrightarrow> ap_guard b = ap_guard a"
  by (auto simp: call_method_def Let_def split: prod.splits cancel.splits if_splits)

lemma call_method_waits: "call_method w m text ow a = (CancelWait rid j t, b) \<Longrightarrow> m = ''cancel-job''"
  by (auto simp: call_method_def Let_def split: prod.splits cancel.splits if_splits)

lemma refusal_reply_answers:
  assumes "presentable e" and "m \<in> set RUNTIME_METHODS"
    and "\<forall>code message method. refusal_ok code message method \<longrightarrow>
      violations c ''runtime-refusal.schema.json'' (refusal_document method (Stable code message)) = []"
  shows "\<exists>v. refusal_reply c n m e = Inr v \<and> answers n v"
proof -
  obtain code detail where e: "e = Stable code detail" "code \<in> set REFUSAL_CODES" "1 \<le> length detail" "length detail \<le> 500"
    using assms(1) by (auto simp: presentable_def)
  have "refusal_ok code detail m" using e(2-4) runtime_method_name [OF assms(2)] by (simp add: refusal_ok_def)
  then have "refusal_reply c n m e = Inr (error_reply n code detail)" using assms(3) e(1) by (simp add: refusal_reply_def)
  moreover have "code \<in> set ERROR_CODES" using e(2) by (simp add: ERROR_CODES_def)
  ultimately show ?thesis by (auto simp: answers_def)
qed

lemma method_reply_answers: "answers n (method_reply n m r)"
  by (cases r) (auto simp: method_reply_def answers_def ERROR_CODES_def)

lemma leave_entered:
  assumes "enter_call c spell m ow p now s = (Inr i, t)"
  shows "gw_open t = i # gw_open s" and "gw_open (leave_call i t) = gw_open s"
  using assms by (auto simp: enter_call_def leave_call_def split: prod.splits)

lemma refused_entered: "enter_call c spell m ow p now s = (Inl e, t) \<Longrightarrow> gw_open t = gw_open s \<and> fst (guard_admit c spell m ow p now (gw_guard s)) = Inl e"
  by (auto simp: enter_call_def split: prod.splits)

text \<open>A valid request that reaches a method, by what comes of it.\<close>

lemma begin_request_cases:
  assumes "begin_request w sender d now a = (p, b)"
    and "violations (su_codec w) ''control-request.schema.json'' (PDict d) = []"
    and "dget d ''id'' = Some (PInt n)" and "dget d ''method'' = Some (PStr m)" and "dget d ''params'' = Some params"
  obtains code detail where "p = Replied (Inr (error_reply n code detail))" "code \<in> set ERROR_CODES" "b = a"
  | e payload g where "m \<in> set RUNTIME_METHODS" "p = Replied (refusal_reply (su_codec w) n m e)" "b = a\<lparr>ap_guard := g\<rparr>"
      "enter_call (su_codec w) (su_spell w) m (owner_token (resolve_caller sender)) (Some payload) now (ap_guard a) = (Inl e, g)"
  | body payload i g r b1 where "m \<in> set RUNTIME_METHODS" "su_dumps w params = Some body"
      "enter_call (su_codec w) (su_spell w) m (owner_token (resolve_caller sender)) (Some payload) now (ap_guard a) = (Inr i, g)"
      "call_method w m body (owner_token (resolve_caller sender)) (a\<lparr>ap_guard := g\<rparr>) = (Answered r, b1)"
      "p = Replied (Inr (method_reply n m r))" "b = b1\<lparr>ap_guard := leave_call i (ap_guard b1)\<rparr>"
  | body payload i g rid j t where "m \<in> set RUNTIME_METHODS" "su_dumps w params = Some body"
      "enter_call (su_codec w) (su_spell w) m (owner_token (resolve_caller sender)) (Some payload) now (ap_guard a) = (Inr i, g)"
      "call_method w m body (owner_token (resolve_caller sender)) (a\<lparr>ap_guard := g\<rparr>) = (CancelWait rid j t, b)"
      "p = Waiting n i body rid j t"
proof -
  let ?ow = "owner_token (resolve_caller sender)"
  note r = assms(1) [unfolded begin_request_def Let_def assms(2-5) list.case option.case prod.case pyval.case]
  show ?thesis
  proof (cases "m \<in> set RUNTIME_METHODS")
    case False
    then show ?thesis using r by (intro that(1) [of "''method-unknown''"]) (auto simp: ERROR_CODES_def)
  next
    case m: True
    show ?thesis
    proof (cases "su_dumps w params")
      case None
      then show ?thesis using r m by (intro that(1) [of "''request-invalid''"]) (auto simp: ERROR_CODES_def)
    next
      case (Some body)
      define payload where "payload = guarded_text w m body"
      obtain x g where en: "enter_call (su_codec w) (su_spell w) m ?ow (Some payload) now (ap_guard a) = (x, g)" by fastforce
      note r = r [unfolded Some option.case, folded payload_def, unfolded en prod.case]
      show ?thesis
      proof (cases x)
        case (Inl e)
        then show ?thesis using r m en by (intro that(2)) auto
      next
        case (Inr i)
        obtain y b1 where cm: "call_method w m body ?ow (a\<lparr>ap_guard := g\<rparr>) = (y, b1)" by fastforce
        show ?thesis
        proof (cases y)
          case (Answered res)
          then show ?thesis using r m en cm Some Inr by (intro that(3)) (auto simp: answer_call_def)
        next
          case (CancelWait rid j t)
          then show ?thesis using r m en cm Some Inr by (intro that(4)) (auto simp: answer_call_def)
        qed
      qed
    qed
  qed
qed

lemma begin_request_answers:
  assumes "\<forall>d. violations (su_codec w) ''control-request.schema.json'' (PDict d) = [] \<longrightarrow> control_request_ok d"
    and "\<forall>code message method. refusal_ok code message method \<longrightarrow>
      violations (su_codec w) ''runtime-refusal.schema.json'' (refusal_document method (Stable code message)) = []"
    and "readable w (gw_guard (ap_guard a))"
    and "begin_request w sender d now a = (p, b)"
  shows "\<exists>n. (violations (su_codec w) ''control-request.schema.json'' (PDict d) = [] \<longrightarrow> dget d ''id'' = Some (PInt n)) \<and>
    (case p of
       Replied r \<Rightarrow> (\<exists>v. r = Inr v \<and> answers n v \<and> ((\<exists>code detail. v = error_reply n code detail \<and> code \<noteq> ''internal-error'') \<longrightarrow>
                      ap_jobs b = ap_jobs a \<and> ap_control b = ap_control a)) \<and>
                    gw_open (ap_guard b) = gw_open (ap_guard a)
     | Waiting k i text rid j t \<Rightarrow> k = n \<and> gw_open (ap_guard b) = i # gw_open (ap_guard a) \<and>
         (\<forall>later. \<exists>v. fst (finish_request w p later) = Inr v \<and> answers n v \<and>
            (gw_open (ap_guard later) = i # gw_open (ap_guard a) \<longrightarrow>
               gw_open (ap_guard (snd (finish_request w p later))) = gw_open (ap_guard a))))"
proof (cases "violations (su_codec w) ''control-request.schema.json'' (PDict d)")
  case (Cons v vs)
  then have "p = Replied (Inr (error_reply (salvaged_id d) ''request-invalid'' v))" "b = a"
    using assms(4) by (simp_all add: begin_request_def)
  then show ?thesis using Cons by (intro exI [of _ "salvaged_id d"]) (auto simp: answers_def ERROR_CODES_def)
next
  case Nil
  then obtain n m ps where f: "dget d ''id'' = Some (PInt n)" "dget d ''method'' = Some (PStr m)" "dget d ''params'' = Some (PDict ps)"
    using assms(1) control_request_fields by blast
  from assms(4) Nil f show ?thesis
  proof (cases rule: begin_request_cases)
    case (1 code detail)
    then show ?thesis using f(1) by (intro exI [of _ n]) (auto simp: answers_def)
  next
    case (2 e payload g)
    note rf = refused_entered [OF 2(4)]
    have "presentable e"
      using admit_refusal [OF _ assms(3) runtime_method_name(1) [OF 2(1)]] rf by (metis fst_conv surj_pair)
    then obtain v where "refusal_reply (su_codec w) n m e = Inr v" "answers n v" using refusal_reply_answers [OF _ 2(1) assms(2)] by blast
    then show ?thesis using 2(2,3) rf f(1) by (intro exI [of _ n]) simp
  next
    case (3 body payload i g r b1)
    have g: "ap_guard b1 = g" using call_method_guard [OF 3(4)] by simp
    have "gw_open (leave_call i g) = gw_open (ap_guard a)" by (rule leave_entered(2) [OF 3(3)])
    moreover have "\<not> (\<exists>code detail. method_reply n m r = error_reply n code detail \<and> code \<noteq> ''internal-error'')"
      by (cases r) (auto simp: method_reply_def result_envelope_def error_reply_def)
    ultimately show ?thesis using 3(5,6) f(1) g method_reply_answers [of n m r] by (intro exI [of _ n]) auto
  next
    case (4 body payload i g rid j t)
    have g: "ap_guard b = g" using call_method_guard [OF 4(4)] by simp
    have "gw_open (leave_call i x) = os" if "gw_open x = i # os" for x os using that by (simp add: leave_call_def)
    then show ?thesis using 4(5) f(1) g leave_entered(1) [OF 4(3)] method_reply_answers
      by (intro exI [of _ n]) (auto simp: finish_request_def)
  qed
qed


section \<open>A call and its answer across the socket\<close>

text \<open>What msgpack does to the documents of one exchange, and to the envelope that says a result does not fit.\<close>

definition carries :: "packer \<Rightarrow> pyval \<Rightarrow> bool" where
  "carries pk v \<longleftrightarrow> pk_pack pk v \<noteq> [] \<and> pk_unpack pk (pk_pack pk v) = Some v"

definition fits :: "packer \<Rightarrow> pyval \<Rightarrow> bool" where
  "fits pk v \<longleftrightarrow> length (pk_pack pk v) \<le> MAX_SOCKET_FRAME_BYTES"

definition oversize_detail :: "packer \<Rightarrow> pyval \<Rightarrow> string" where
  "oversize_detail pk v = nat_str (length (pk_pack pk v)) @ '' bytes exceeds '' @ nat_str MAX_SOCKET_FRAME_BYTES"

definition oversize :: "packer \<Rightarrow> int \<Rightarrow> pyval \<Rightarrow> pyval" where
  "oversize pk n v = error_reply n ''result-too-large'' (oversize_detail pk v)"

lemma socket_encode_cases:
  "fits pk v \<Longrightarrow> \<exists>header. header_pack (length (pk_pack pk v)) = Inr header \<and> length header = 4 \<and>
     header_unpack header = length (pk_pack pk v) \<and> socket_encode pk v = Inr (header @ pk_pack pk v)"
  "\<not> fits pk v \<Longrightarrow> socket_encode pk v = Inl (Stable ''frame-too-large'' (oversize_detail pk v))"
  using header_round_trip [of "length (pk_pack pk v)"]
  by (auto simp: fits_def socket_encode_def oversize_detail_def MAX_SOCKET_FRAME_BYTES_def HEADER_SIZE_def Let_def)

lemma socket_frame:
  assumes "socket_encode pk (PDict d) = Inr bytes" and "carries pk (PDict d)"
  shows "socket_read pk (bytes @ rest) = (Inr (Some d), rest)"
proof -
  have f: "fits pk (PDict d)" using assms(1) socket_encode_cases(2) [of pk "PDict d"] by auto
  from socket_encode_cases(1) [OF f] obtain h where h: "length h = 4" "header_unpack h = length (pk_pack pk (PDict d))"
    "bytes = h @ pk_pack pk (PDict d)" using assms(1) by auto
  moreover have "h \<noteq> []" using h(1) by auto
  ultimately show ?thesis using f assms(2) by (simp add: socket_read_def Let_def carries_def fits_def)
qed

lemma encoded_answer:
  assumes "dget d ''id'' = Some (PInt n)" and "fits pk (oversize pk n (PDict d))"
  shows "\<exists>bytes. encoded_reply pk d = Inr bytes \<and>
    socket_encode pk (if fits pk (PDict d) then PDict d else oversize pk n (PDict d)) = Inr bytes"
  using socket_encode_cases [of pk "PDict d"] socket_encode_cases(1) [OF assms(2)] assms(1)
  by (cases "fits pk (PDict d)") (auto simp: encoded_reply_def oversize_def)

lemma error_code_ok: "code \<in> set (''result-too-large'' # ERROR_CODES) \<Longrightarrow> length code \<le> 64 \<and> kebab code"
  unfolding ERROR_CODES_def REFUSAL_CODES_def by (auto simp: kebab_def lower_alnum_def json_digit_def)

lemma client_error:
  assumes "\<forall>d. control_reply_ok d \<longrightarrow> violations c ''control-reply.schema.json'' (PDict d) = []"
    and "code \<in> set (''result-too-large'' # ERROR_CODES)" and "error_reply n code detail = PDict d" and "0 \<le> n" "n \<le> 4294967295"
  shows "client_outcome c n (Some d) = Inl (Stable code (shown code detail))"
proof -
  have "code \<noteq> []" using error_code_ok [OF assms(2)] by (auto simp: kebab_def)
  then have "control_reply_ok d" using assms(3-5) error_code_ok [OF assms(2)]
    by (auto simp: control_reply_ok_def error_reply_def dget_Cons shown_def CONTROL_PROTOCOL_VERSION_def dkeys_def)
  then show ?thesis using assms(1,3) by (auto simp: client_outcome_def error_reply_def dget_Cons)
qed

lemma client_result:
  assumes "\<forall>d. control_reply_ok d \<longrightarrow> violations c ''control-reply.schema.json'' (PDict d) = []"
    and "result_envelope n (PDict x) = PDict d" and "0 \<le> n" "n \<le> 4294967295"
  shows "client_outcome c n (Some d) = Inr (PDict x)"
proof -
  have "control_reply_ok d" using assms(2-4)
    by (auto simp: control_reply_ok_def result_envelope_def dget_Cons CONTROL_PROTOCOL_VERSION_def dkeys_def)
  then show ?thesis using assms(1,2) by (auto simp: client_outcome_def result_envelope_def dget_Cons)
qed

lemma answers_map: "answers n v \<Longrightarrow> \<exists>d. v = PDict d \<and> dget d ''id'' = Some (PInt n)"
  by (auto simp: answers_def result_envelope_def error_reply_def dget_Cons)


section \<open>Peers do not see each other\<close>

text \<open>The jobs matter to a request only through the method it reaches.\<close>

lemma begin_request_jobs:
  assumes "\<And>g body. su_dumps w params = Some body \<Longrightarrow>
      fst (call_method w m body (owner_token (resolve_caller sender)) (a\<lparr>ap_guard := g\<rparr>)) =
      fst (call_method w m body (owner_token (resolve_caller sender)) (a'\<lparr>ap_guard := g\<rparr>))"
    and "ap_guard a' = ap_guard a" and "dget d ''method'' = Some (PStr m)" and "dget d ''params'' = Some params"
  shows "fst (begin_request w sender d now a) = fst (begin_request w sender d now a')"
proof -
  have "fst (answer_call w n i m body (owner_token (resolve_caller sender)) (a\<lparr>ap_guard := g\<rparr>)) =
      fst (answer_call w n i m body (owner_token (resolve_caller sender)) (a'\<lparr>ap_guard := g\<rparr>))"
    if "su_dumps w params = Some body" for n i g body
    using assms(1) [OF that, of g] by (auto simp: answer_call_def split: prod.splits method_end.splits)
  then show ?thesis unfolding begin_request_def Let_def assms(2-4)
    by (cases "su_dumps w params") (auto split: list.split option.split pyval.split prod.split sum.split)
qed

lemma begin_request_after:
  assumes "\<And>g body. su_dumps w params = Some body \<Longrightarrow>
      P (ap_jobs (snd (call_method w m body (owner_token (resolve_caller sender)) (a\<lparr>ap_guard := g\<rparr>))))"
    and "P (ap_jobs a)" and "dget d ''method'' = Some (PStr m)" and "dget d ''params'' = Some params"
  shows "P (ap_jobs (snd (begin_request w sender d now a)))"
proof -
  have "P (ap_jobs (snd (answer_call w n i m body (owner_token (resolve_caller sender)) (a\<lparr>ap_guard := g\<rparr>))))"
    if "su_dumps w params = Some body" for n i g body
    using assms(1) [OF that, of g] by (auto simp: answer_call_def split: prod.splits method_end.splits)
  then have "\<forall>body n i g. su_dumps w params = Some body \<longrightarrow>
      P (ap_jobs (snd (answer_call w n i m body (owner_token (resolve_caller sender)) (a\<lparr>ap_guard := g\<rparr>))))" by blast
  then show ?thesis unfolding begin_request_def Let_def assms(3,4)
    by (cases "su_dumps w params") (auto simp: assms(2) split: list.split option.split pyval.split prod.split sum.split)
qed

text \<open>Asking for a result never touches the jobs that run.\<close>

lemma job_result_text_keeps:
  "sv_active (snd (job_result_text c e text ow s)) = sv_active s \<and> sv_cancels (snd (job_result_text c e text ow s)) = sv_cancels s"
proof -
  have l: "sv_active s1 = sv_active s \<and> sv_cancels s1 = sv_cancels s" if "lookup_job now j ow s = (r, s1)" for now j r s1
    using that by (auto simp: lookup_job_def Let_def split: option.splits prod.splits sum.splits if_splits)
  show ?thesis
  proof (cases "parse_request c text ''runtime-job-result-request.schema.json'' (sv_max_bytes s)")
    case (Inl x)
    then show ?thesis by (cases x) (simp add: job_result_text_def)
  next
    case (Inr d)
    show ?thesis unfolding job_result_text_def Inr sum.case
      by (auto split: option.split pyval.split prod.split sum.split dest: l)
  qed
qed


section \<open>Witnesses\<close>

text \<open>A service with one submission per window; requests are their own documents, checked as the schema asks.\<close>

definition demo_surface :: "pyval surface" where
  "demo_surface = \<lparr>
     su_codec = demo_codec\<lparr>violations := (\<lambda>name v. if name = ''control-request.schema.json'' \<and> \<not> (case v of PDict d \<Rightarrow> control_request_ok d | _ \<Rightarrow> False)
        then [''not a request''] else []), utf8_size_pass := (\<lambda>t. if t = PNone then 0 else 10)\<rparr>,
     su_spell = (\<lambda>_. ''10''), su_env = demo_env, su_cenv = demo_cenv, su_dumps = Some, su_empty = PNone,
     su_inventory = Inr (PDict []), su_contract = Inr (PDict [])\<rparr>"

definition demo_api :: api where
  "demo_api = \<lparr>ap_guard = demo_guard, ap_jobs = demo_fresh, ap_control = demo_control\<rparr>"

definition demo_call_map :: "pyval dict" where
  "demo_call_map = [(''version'', PInt 1), (''id'', PInt 7), (''method'', PStr ''describe-contract''), (''params'', PDict [])]"

lemma demo_surface_violations:
  "violations (su_codec demo_surface) ''control-request.schema.json'' (PDict d) = (if control_request_ok d then [] else [''not a request''])"
  "violations (su_codec demo_surface) ''runtime-refusal.schema.json'' v = []"
  by (simp_all add: demo_surface_def)

lemma demo_readable: "readable demo_surface demo_control_guard"
proof -
  have d: "length (nat_str n) \<le> 60" if "n < 10 ^ 60" for n using length_nat_str [OF that] by simp
  have "\<forall>(m, q) \<in> set demo_table. qt_max_bytes q < 10 ^ 60 \<and> qt_max_calls q < 10 ^ 60 \<and> qt_max_concurrent q < 10 ^ 60"
    by (simp add: demo_table_def)
  then show ?thesis
    by (auto simp: readable_def demo_control_guard_def demo_surface_def demo_codec_def dest!: dget_in_set intro!: d)
qed


definition demo_question :: "pyval dict" where
  "demo_question = client_request ''describe-contract'' None"

definition demo_packer :: packer where
  "demo_packer = \<lparr>
     pk_pack = (\<lambda>v. if v = PDict demo_question then [1] else if v = result_envelope 1 (PDict []) then [2] else [3]),
     pk_unpack = (\<lambda>bs. if bs = [1] then Some (PDict demo_question) else if bs = [2] then Some (result_envelope 1 (PDict []))
        else Some (error_reply 1 ''result-too-large'' (''1 bytes exceeds '' @ nat_str MAX_SOCKET_FRAME_BYTES)))\<rparr>"

lemma demo_entry: "\<exists>g. enter_call (su_codec demo_surface) (su_spell demo_surface) ''describe-contract'' ow (Some PNone) 0 demo_guard = (Inr 0, g)"
proof -
  let ?q = "\<lparr>qt_max_bytes = 1, qt_max_calls = 20, qt_window_seconds = 10, qt_max_concurrent = 4\<rparr> :: quota"
  have q: "dget (cg_quotas demo_control_guard) ''describe-contract'' = Some ?q"
    by (simp add: demo_control_guard_def demo_table_def dget_Cons)
  have chk: "check_payload (su_codec demo_surface) ''describe-contract'' ?q (Some PNone) = Inr ()"
    by (simp add: check_payload_def demo_surface_def demo_codec_def asserted_identity_field_def)
  have n: "cg_windows demo_control_guard = []" "cg_next demo_control_guard = 0" "cg_max_tracked demo_control_guard = 2"
    "cg_heap demo_control_guard = (\<lambda>_. \<lparr>cw_calls = [], cw_in_flight = 0\<rparr>)" by (simp_all add: demo_control_guard_def)
  have win: "window_for ''describe-contract'' ow demo_control_guard = (0, demo_control_guard\<lparr>cg_windows := [((''describe-contract'', ow), 0)], cg_next := 1\<rparr>)"
    by (simp add: window_for_def n dhas_iff fun_upd_idem_iff)
  show ?thesis
    unfolding enter_call_def guard_admit_def quota_for_def demo_guard_def guard_world.simps q option.case bind_res_simps chk map_res_simps sum.case win
      Let_def prod.case
    by (simp add: n expire_calls_def)
qed

lemma demo_question_answered:
  "fst (begin_request demo_surface sender demo_question 0 demo_api) = Replied (Inr (result_envelope 1 (PDict [])))"
proof -
  obtain g where g: "enter_call (su_codec demo_surface) (su_spell demo_surface) ''describe-contract'' (owner_token (resolve_caller sender)) (Some PNone) 0
      (ap_guard demo_api) = (Inr 0, g)" using demo_entry by (auto simp: demo_api_def)
  have s: "su_dumps demo_surface = Some" "su_empty demo_surface = PNone" "su_contract demo_surface = Inr (PDict [])"
    by (simp_all add: demo_surface_def)
  have d: "control_request_ok demo_question" "dget demo_question ''id'' = Some (PInt 1)" "dget demo_question ''method'' = Some (PStr ''describe-contract'')"
    "dget demo_question ''params'' = Some (PDict [])"
    by (simp_all add: demo_question_def client_request_def control_request_ok_def dget_Cons)
  show ?thesis
    by (simp add: begin_request_def demo_surface_violations d s RUNTIME_METHODS_def guarded_text_def g answer_call_def call_method_def method_reply_def)
qed


text \<open>The job of user 1000, asked for by user 1001.\<close>

definition demo_busy_api :: api where
  "demo_busy_api = demo_api\<lparr>ap_jobs := demo_fresh\<lparr>sv_active := [(''j1'', \<lparr>ac_workload = ''w'', ac_task = 0,
     ac_owner = owner_token (resolve_caller (peer_sender (Some 1000) 1))\<rparr>)]\<rparr>\<rparr>"

definition demo_spy :: "pyval dict" where
  "demo_spy = client_request ''cancel-job'' (Some [(''requestId'', PStr ''r1''), (''jobId'', PStr ''j1'')])"


end
