(* ===== verification/Document_Spans.thy ===== *)
theory Document_Spans
  imports Output_Reading
begin

text \<open>
  \<^verbatim>\<open>src/omnitensor/plugins/spans.py\<close> and \<^verbatim>\<open>src/omnitensor/plugins/translation.py\<close>: a document cut into
  spans on the boundaries it has, and translated span by span.  The texts are lists of characters
  below 256; the three ratios are exact rationals, with which the floats of the code agree.
\<close>

section \<open>Boundaries\<close>

definition newline :: char where "newline = CHR 0x0A"

datatype pattern = Paragraph | Sentence | Whitespace

text \<open>
  How much of the text the pattern matches here, given the character before: \<open>\n\s*\n\<close> backs up to the last
  line feed of the white space, \<open>(?<=[.!?;:])\s+\<close> looks behind, and 0 is no match.
\<close>

definition match_length :: "pattern \<Rightarrow> char option \<Rightarrow> string \<Rightarrow> nat" where
  "match_length p before text =
     (case p of
        Paragraph \<Rightarrow>
          (case text of
             [] \<Rightarrow> 0
           | ch # cs \<Rightarrow>
               (let run = dropWhile (\<lambda>c. c \<noteq> newline) (rev (takeWhile white cs))
                in if ch = newline \<and> run \<noteq> [] then Suc (length run) else 0))
      | Sentence \<Rightarrow> (case before of Some c \<Rightarrow> if c \<in> set ''.!?;:'' then length (takeWhile white text) else 0 | None \<Rightarrow> 0)
      | Whitespace \<Rightarrow> length (takeWhile white text))"

function parts_from :: "(char option \<Rightarrow> string \<Rightarrow> nat) \<Rightarrow> char option \<Rightarrow> string \<Rightarrow> string \<Rightarrow> string list" where
  "parts_from m before cur [] = (if cur = [] then [] else [cur])"
| "parts_from m before cur (ch # cs) =
     (let n = m before (ch # cs) in
      if n = 0 then parts_from m (Some ch) (cur @ [ch]) cs
      else (cur @ take n (ch # cs)) # parts_from m (Some (last (take n (ch # cs)))) [] (drop n (ch # cs)))"
  by pat_completeness auto
termination by (relation "measure (\<lambda>(m, before, cur, text). length text)") auto

definition parts :: "string \<Rightarrow> pattern \<Rightarrow> string list" where
  "parts text p = parts_from (match_length p) None [] text"

section \<open>Spans\<close>

definition CHARACTERS_PER_TOKEN :: rat where "CHARACTERS_PER_TOKEN = 26 / 10"
definition OUTPUT_HEADROOM :: rat where "OUTPUT_HEADROOM = 19 / 10"

definition estimate_tokens :: "string \<Rightarrow> nat" where
  "estimate_tokens text = nat \<lfloor>of_nat (length text) / CHARACTERS_PER_TOKEN\<rfloor> + 1"

record span =
  sp_index :: nat
  sp_start :: nat
  sp_end :: nat
  sp_text :: string

definition span_tokens :: "span \<Rightarrow> nat" where "span_tokens s = estimate_tokens (sp_text s)"

definition output_budget :: "span \<Rightarrow> nat" where
  "output_budget s = nat \<lfloor>of_nat (span_tokens s) * OUTPUT_HEADROOM\<rfloor> + 64"

fun gather_loop :: "nat \<Rightarrow> string \<Rightarrow> string list \<Rightarrow> string list" where
  "gather_loop limit cur [] = (if cur = [] then [] else [cur])"
| "gather_loop limit cur (p # ps) =
     (if cur \<noteq> [] \<and> limit < length cur + length p then cur # gather_loop limit p ps
      else gather_loop limit (cur @ p) ps)"

definition gather :: "string \<Rightarrow> pattern \<Rightarrow> nat \<Rightarrow> string list option" where
  "gather text p limit =
     (if length (parts text p) < 2 then None
      else let pieces = gather_loop limit [] (parts text p)
           in if \<exists>piece \<in> set pieces. limit < length piece then None else Some pieces)"

definition split_to_limit :: "string \<Rightarrow> nat \<Rightarrow> string list" where
  "split_to_limit text limit =
     (if length text \<le> limit then [text]
      else case gather text Paragraph limit of
             Some pieces \<Rightarrow> pieces
           | None \<Rightarrow>
               (case gather text Sentence limit of
                  Some pieces \<Rightarrow> pieces
                | None \<Rightarrow> (case gather text Whitespace limit of Some pieces \<Rightarrow> pieces | None \<Rightarrow> [text])))"

text \<open>\<^verbatim>\<open>text.index(piece, at)\<close>: the first occurrence from there on, or a ValueError.\<close>

fun text_index :: "string \<Rightarrow> string \<Rightarrow> nat \<Rightarrow> nat option" where
  "text_index piece text (Suc n) = (case text of [] \<Rightarrow> None | ch # cs \<Rightarrow> map_option Suc (text_index piece cs n))"
| "text_index piece text 0 =
     (if take (length piece) text = piece then Some 0
      else case text of [] \<Rightarrow> None | ch # cs \<Rightarrow> map_option Suc (text_index piece cs 0))"

fun place_pieces :: "string \<Rightarrow> nat \<Rightarrow> nat \<Rightarrow> string list \<Rightarrow> span list res" where
  "place_pieces text k from_char [] = Inr []"
| "place_pieces text k from_char (piece # pieces) =
     (case text_index piece text from_char of
        None \<Rightarrow> Inl ValueError
      | Some start \<Rightarrow>
          map_res (\<lambda>spans. \<lparr>sp_index = k, sp_start = start, sp_end = start + length piece, sp_text = piece\<rparr> # spans)
            (place_pieces text (Suc k) (start + length piece) pieces))"

definition span_limit :: "int \<Rightarrow> nat" where
  "span_limit budget = nat \<lfloor>of_int budget * CHARACTERS_PER_TOKEN\<rfloor>"

definition split_text :: "string \<Rightarrow> int \<Rightarrow> span list res" where
  "split_text text budget =
     (if budget < 1 then Inl ValueError
      else if text = [] then Inr []
      else place_pieces text 0 0 (split_to_limit text (span_limit budget)))"

definition reassemble :: "string list \<Rightarrow> string" where "reassemble pieces = concat pieces"

definition covers :: "string \<Rightarrow> span list \<Rightarrow> bool" where
  "covers text spans = (if spans = [] then text = [] else reassemble (map sp_text spans) = text)"

section \<open>Translation\<close>

definition SPAN_SAFETY :: rat where "SPAN_SAFETY = 125 / 100"

definition span_budget_tokens :: "nat \<Rightarrow> int res" where
  "span_budget_tokens output_tokens =
     (let budget = \<lfloor>of_nat output_tokens / (OUTPUT_HEADROOM * SPAN_SAFETY)\<rfloor>
      in if budget < 1 then Inl (Stable ''budget-too-small'' ''the task's output budget cannot hold any span'') else Inr budget)"

definition plan :: "string \<Rightarrow> nat \<Rightarrow> span list res" where
  "plan text output_tokens =
     bind_res (span_budget_tokens output_tokens) (\<lambda>budget.
     bind_res (split_text text budget) (\<lambda>spans.
       if covers text spans then Inr spans else Inl (Stable ''split-incomplete'' ''the document did not split cleanly'')))"

record translation =
  tr_text :: string
  tr_spans :: "(span \<times> string) list"

text \<open>What the caller sees: a span handed to its translator, and each progress report.\<close>

datatype translation_event = Asked span | Progressed nat nat

text \<open>
  The check for cancellation before each span and the translator are arguments; both may raise, and the
  translator acts on a state of its caller.
\<close>

type_synonym 's translator = "span \<Rightarrow> 's \<Rightarrow> pyval res \<times> 's"

definition untranslated :: "span \<Rightarrow> nat \<Rightarrow> exn" where
  "untranslated s n = Stable ''span-untranslated'' (''span '' @ nat_str (Suc (sp_index s)) @ '' of '' @ nat_str n @ '' came back empty'')"

definition usable_answer :: "pyval res \<Rightarrow> bool" where
  "usable_answer r = (case r of Inr (PStr t) \<Rightarrow> strip_text t \<noteq> [] | _ \<Rightarrow> False)"

definition answer_text :: "pyval res \<Rightarrow> string" where
  "answer_text r = (case r of Inr (PStr t) \<Rightarrow> t | _ \<Rightarrow> [])"

fun translate_loop :: "(nat \<Rightarrow> exn option) \<Rightarrow> 's translator \<Rightarrow> nat \<Rightarrow> (span \<times> string) list \<Rightarrow> span list \<Rightarrow> 's \<Rightarrow>
    (span \<times> string) list res \<times> translation_event list \<times> 's" where
  "translate_loop cancelled ask n translated [] w = (Inr translated, [], w)"
| "translate_loop cancelled ask n translated (s # rest) w =
     (case cancelled (length translated) of
        Some e \<Rightarrow> (Inl e, [], w)
      | None \<Rightarrow>
          (case ask s w of
             (Inl e, w1) \<Rightarrow> (Inl e, [Asked s], w1)
           | (Inr answer, w1) \<Rightarrow>
               if \<not> usable_answer (Inr answer) then (Inl (untranslated s n), [Asked s], w1)
               else (case translate_loop cancelled ask n (translated @ [(s, answer_text (Inr answer))]) rest w1 of
                       (r, events, w2) \<Rightarrow> (r, Asked s # Progressed (Suc (length translated)) n # events, w2))))"

definition translate_document :: "(nat \<Rightarrow> exn option) \<Rightarrow> 's translator \<Rightarrow> string \<Rightarrow> nat \<Rightarrow> 's \<Rightarrow>
    translation res \<times> translation_event list \<times> 's" where
  "translate_document cancelled ask text output_tokens w =
     (case plan text output_tokens of
        Inl e \<Rightarrow> (Inl e, [], w)
      | Inr spans \<Rightarrow>
          if spans = [] then (Inr \<lparr>tr_text = [], tr_spans = []\<rparr>, [], w)
          else case translate_loop cancelled ask (length spans) [] spans w of
                 (Inl e, events, w1) \<Rightarrow> (Inl e, events, w1)
               | (Inr translated, events, w1) \<Rightarrow> (Inr \<lparr>tr_text = reassemble (map snd translated), tr_spans = translated\<rparr>, events, w1))"

definition progress_fraction :: "int \<Rightarrow> int \<Rightarrow> rat" where
  "progress_fraction finished of_spans = (if of_spans < 1 then 1 else min 1 (max 0 (of_int finished / of_int of_spans)))"

definition estimated_seconds :: "span list \<Rightarrow> rat \<Rightarrow> rat" where
  "estimated_seconds spans seconds_per_span = max 0 (of_nat (length spans) * max 0 seconds_per_span)"

section \<open>Nothing is lost\<close>

text \<open>A boundary matches part of what is there; the cut keeps everything and leaves no part empty.\<close>

locale boundary =
  fixes m :: "char option \<Rightarrow> string \<Rightarrow> nat"
  assumes within: "m before text \<le> length text"
    and ends_white: "0 < m before text \<Longrightarrow> white (last (take (m before text) text))"
begin

lemma concat_parts: "concat (parts_from m before cur text) = cur @ text"
proof (induction m before cur "text" rule: parts_from.induct)
  case (2 m before cur ch cs)
  then show ?case by (simp add: Let_def flip: append_assoc) (simp add: append_take_drop_id)
qed simp

lemma parts_nonempty: "[] \<notin> set (parts_from m before cur text)"
  by (induction m before cur "text" rule: parts_from.induct) (auto simp: Let_def)

lemma parts_end_white: "\<forall>p \<in> set (butlast (parts_from m before cur text)). white (last p)"
proof (induction "length text" arbitrary: before cur "text" rule: less_induct)
  case less
  show ?case
  proof (cases "text")
    case (Cons ch cs)
    show ?thesis
    proof (cases "m before text = 0")
      case True
      then show ?thesis using less.hyps [of cs] Cons by (simp add: Let_def)
    next
      case False
      let ?n = "m before text"
      have rest: "\<forall>p \<in> set (butlast (parts_from m (Some (last (take ?n text))) [] (drop ?n text))). white (last p)"
        using less.hyps [of "drop ?n text"] False Cons by simp
      have "take ?n text \<noteq> []" using False Cons by simp
      then have "white (last (cur @ take ?n text))" using ends_white [of before "text"] False by simp
      then show ?thesis using rest False Cons by (auto simp: Let_def)
    qed
  qed simp
qed

end

lemma newline_white: "white newline"
  by (simp add: white_def newline_def)

lemma dropWhile_end:
  assumes "run = dropWhile P (rev xs)"
  shows "length run \<le> length xs" and "run \<noteq> [] \<Longrightarrow> \<not> P (last (take (length run) xs))"
proof -
  have r: "rev xs = takeWhile P (rev xs) @ run" using assms by simp
  then have x: "xs = rev run @ rev (takeWhile P (rev xs))" by (metis rev_append rev_rev_ident)
  then show "length run \<le> length xs" by (metis length_append length_rev le_add1)
  have "take (length run) xs = rev run" by (subst x) simp
  then show "run \<noteq> [] \<Longrightarrow> \<not> P (last (take (length run) xs))"
    using assms hd_dropWhile [of P "rev xs"] by (simp add: last_rev)
qed

lemma take_white: "take (length (takeWhile white text)) text = takeWhile white text"
  by (metis takeWhile_eq_take)

lemma paragraph_match:
  assumes "0 < match_length Paragraph before text"
  shows "match_length Paragraph before text \<le> length text" and "white (last (take (match_length Paragraph before text) text))"
proof -
  obtain ch cs where t: "text = ch # cs" using assms by (cases "text") (simp_all add: match_length_def)
  define run where "run = dropWhile (\<lambda>c. c \<noteq> newline) (rev (takeWhile white cs))"
  have m: "match_length Paragraph before text = Suc (length run)" "run \<noteq> []"
    using assms t by (auto simp: match_length_def run_def Let_def split: if_splits)
  note d = dropWhile_end [OF run_def]
  have l: "length (takeWhile white cs) \<le> length cs" by (rule length_takeWhile_le)
  then show "match_length Paragraph before text \<le> length text" using m d(1) t by simp
  have "take (length run) cs = take (length run) (takeWhile white cs)"
    using d(1) by (metis min.absorb1 take_take take_white)
  moreover have "take (length run) cs \<noteq> []" using m(2) d(1) l by auto
  ultimately show "white (last (take (match_length Paragraph before text) text))"
    using d(2) [OF m(2)] m(1) t newline_white by (simp add: last_ConsR)
qed

lemma white_run: "0 < length (takeWhile white text) \<Longrightarrow> white (last (take (length (takeWhile white text)) text))"
  unfolding take_white using set_takeWhileD [of _ white "text"] by (metis last_in_set length_greater_0_conv)

lemma match_within: "match_length p before text \<le> length text"
proof (cases p)
  case Paragraph
  then show ?thesis using paragraph_match(1) [of before "text"] by (cases "0 < match_length p before text") simp_all
qed (use length_takeWhile_le [of white "text"] in \<open>simp_all add: match_length_def split: option.split\<close>)

lemma match_white: "0 < match_length p before text \<Longrightarrow> white (last (take (match_length p before text) text))"
proof (cases p)
  case Paragraph
  then show "0 < match_length p before text \<Longrightarrow> ?thesis" using paragraph_match(2) [of before "text"] by simp
next
  case Sentence
  then have "match_length p before text = 0 \<or> match_length p before text = length (takeWhile white text)"
    by (simp add: match_length_def split: option.split)
  then show "0 < match_length p before text \<Longrightarrow> ?thesis" using white_run [of "text"] by auto
next
  case Whitespace
  then show "0 < match_length p before text \<Longrightarrow> ?thesis" using white_run [of "text"] by (simp add: match_length_def)
qed

interpretation cut: boundary "match_length p" for p
  by unfold_locales (rule match_within, rule match_white)

lemma concat_parts_text [simp]: "concat (parts text p) = text"
  by (simp add: parts_def cut.concat_parts)

section \<open>Grouping the parts\<close>

lemma concat_gather_loop: "concat (gather_loop limit cur ps) = cur @ concat ps"
  by (induction limit cur ps rule: gather_loop.induct) auto

lemma gather_loop_nonempty: "[] \<notin> set ps \<Longrightarrow> [] \<notin> set (gather_loop limit cur ps)"
  by (induction limit cur ps rule: gather_loop.induct) auto

lemma gather_loop_small:
  "\<lbrakk>\<forall>p \<in> set ps. length p \<le> limit; length cur \<le> limit\<rbrakk> \<Longrightarrow> \<forall>p \<in> set (gather_loop limit cur ps). length p \<le> limit"
  by (induction limit cur ps rule: gather_loop.induct) auto

lemma gather_loop_white:
  "\<lbrakk>\<forall>p \<in> set (butlast ps). white (last p); ps \<noteq> [] \<longrightarrow> cur = [] \<or> white (last cur); [] \<notin> set ps\<rbrakk> \<Longrightarrow>
   \<forall>p \<in> set (butlast (gather_loop limit cur ps)). white (last p)"
proof (induction limit cur ps rule: gather_loop.induct)
  case (2 limit cur p ps)
  have w: "ps \<noteq> [] \<Longrightarrow> white (last p)" using "2.prems"(1) by auto
  have tl: "\<forall>q \<in> set (butlast ps). white (last q)" "[] \<notin> set ps" "p \<noteq> []" using "2.prems"(1,3) by (auto split: if_splits)
  show ?case
  proof (cases "cur \<noteq> [] \<and> limit < length cur + length p")
    case True
    have "\<forall>q \<in> set (butlast (gather_loop limit p ps)). white (last q)" using "2.IH"(1) [OF True tl(1) _ tl(2)] w by blast
    then show ?thesis using "2.prems"(2) True by auto
  next
    case False
    have "white (last (cur @ p))" if "ps \<noteq> []" using w [OF that] tl(3) by simp
    then have "\<forall>q \<in> set (butlast (gather_loop limit (cur @ p) ps)). white (last q)" using "2.IH"(2) [OF False tl(1) _ tl(2)] by blast
    then show ?thesis using False by auto
  qed
qed simp

lemma split_pieces:
  assumes "text \<noteq> []"
  shows "concat (split_to_limit text limit) = text \<and> [] \<notin> set (split_to_limit text limit) \<and>
    (\<forall>p \<in> set (butlast (split_to_limit text limit)). white (last p)) \<and>
    ((\<forall>p \<in> set (split_to_limit text limit). length p \<le> limit) \<or>
     split_to_limit text limit = [text] \<and> gather text Whitespace limit = None)"
proof -
  have "concat ps = text \<and> [] \<notin> set ps \<and> (\<forall>p \<in> set (butlast ps). white (last p)) \<and> (\<forall>p \<in> set ps. length p \<le> limit)"
    if "gather text p limit = Some ps" for p ps
    using that cut.parts_nonempty [of p None "[]" "text"] cut.parts_end_white [of p None "[]" "text"]
      gather_loop_nonempty [of "parts text p" limit "[]"] gather_loop_white [of "parts text p" "[]" limit]
    by (auto simp: gather_def Let_def concat_gather_loop parts_def cut.concat_parts split: if_splits)
  then show ?thesis using assms by (auto simp: split_to_limit_def split: option.split)
qed

lemma gather_fails:
  assumes "gather text Whitespace limit = None" and "limit < length text"
  shows "\<exists>p \<in> set (parts text Whitespace). limit < length p"
proof (rule ccontr)
  assume c: "\<not> ?thesis"
  then have "\<forall>p \<in> set (parts text Whitespace). length p \<le> limit" by (simp add: not_less)
  then have "\<forall>p \<in> set (gather_loop limit [] (parts text Whitespace)). length p \<le> limit" by (rule gather_loop_small) simp
  then have "\<not> (\<exists>p \<in> set (gather_loop limit [] (parts text Whitespace)). limit < length p)" by (simp add: not_less)
  then have "length (parts text Whitespace) < 2" using assms(1) by (simp add: gather_def Let_def split: if_splits)
  moreover have "parts text Whitespace \<noteq> []" using concat_parts_text [of "text" Whitespace] assms(2)
    by (metis concat.simps(1) list.size(3) not_less_zero)
  ultimately obtain q where "parts text Whitespace = [q]" by (cases "parts text Whitespace") auto
  then show False using concat_parts_text [of "text" Whitespace] c assms(2) by simp
qed

text \<open>A word lies inside one piece, since the pieces before the last end in white space.\<close>

lemma word_in_piece:
  assumes "concat ps = a @ w @ c" and "w \<noteq> []" and "\<forall>ch \<in> set w. \<not> white ch"
    and "\<forall>p \<in> set (butlast ps). white (last p)" and "[] \<notin> set ps"
  shows "\<exists>p \<in> set ps. length w \<le> length p"
  using assms(1,4,5)
proof (induction ps arbitrary: a)
  case Nil
  then show ?case using assms(2) by simp
next
  case (Cons p ps)
  from Cons.prems(1) have e: "p @ concat ps = (a @ w) @ c" by simp
  show ?case
  proof (cases "length p \<le> length a")
    case True
    then have "concat ps = drop (length p) a @ w @ c" using e by (metis append.assoc append_eq_append_conv_if append_eq_conv_conj drop_append length_append)
    then show ?thesis using Cons.IH Cons.prems(2,3) by (fastforce split: if_splits)
  next
    case False
    show ?thesis
    proof (cases "length a + length w \<le> length p")
      case True
      then show ?thesis by auto
    next
      case short: False
      then have "take (length p) (a @ w @ c) = a @ take (length p - length a) w" using False by simp
      moreover have "take (length p) (a @ w @ c) = p" using Cons.prems(1) by (metis append_eq_conv_conj concat.simps(2))
      ultimately have p: "p = a @ take (length p - length a) w" by simp
      moreover have "take (length p - length a) w \<noteq> []" using False assms(2) by simp
      ultimately have "last p \<in> set w" by (metis in_set_takeD last_appendR last_in_set)
      moreover have "ps \<noteq> []" using short Cons.prems(1) by (auto dest: arg_cong [where f = length])
      ultimately show ?thesis using Cons.prems(2) assms(3) by auto
    qed
  qed
qed

section \<open>Offsets\<close>

lemma text_index_here: "\<lbrakk>n \<le> length text; take (length piece) (drop n text) = piece\<rbrakk> \<Longrightarrow> text_index piece text n = Some n"
proof (induction n arbitrary: "text")
  case (Suc n)
  then show ?case by (cases "text") simp_all
qed (cases "text"; simp)

definition spans_of :: "nat \<Rightarrow> nat \<Rightarrow> string list \<Rightarrow> span list" where
  "spans_of k n pieces =
     map (\<lambda>i. \<lparr>sp_index = k + i, sp_start = n + length (concat (take i pieces)),
       sp_end = n + length (concat (take i pieces)) + length (pieces ! i), sp_text = pieces ! i\<rparr>) [0..<length pieces]"

lemma spans_of_Cons:
  "spans_of k n (p # ps) = \<lparr>sp_index = k, sp_start = n, sp_end = n + length p, sp_text = p\<rparr> # spans_of (Suc k) (n + length p) ps"
  by (simp add: spans_of_def upt_conv_Cons map_Suc_upt [symmetric] del: upt_Suc map_Suc_upt)

lemma place_pieces_exact:
  "\<lbrakk>n \<le> length text; drop n text = concat pieces\<rbrakk> \<Longrightarrow> place_pieces text k n pieces = Inr (spans_of k n pieces)"
proof (induction pieces arbitrary: k n)
  case (Cons p ps)
  have "take (length p) (drop n text) = p" using Cons.prems(2) by simp
  then have i: "text_index p text n = Some n" using text_index_here Cons.prems(1) by blast
  have "length p \<le> length (drop n text)" using Cons.prems(2) by simp
  then have "n + length p \<le> length text" using Cons.prems(1) by simp
  moreover have "drop (n + length p) text = concat ps" using Cons.prems(2) by (metis add.commute append_eq_conv_conj concat.simps(2) drop_drop)
  ultimately show ?case using Cons.IH i by (simp add: spans_of_Cons)
qed (simp add: spans_of_def)

lemma spans_of_texts [simp]: "map sp_text (spans_of k n ps) = ps"
  by (simp add: spans_of_def comp_def map_nth)

lemma spans_of_Nil_iff [simp]: "spans_of k n ps = [] \<longleftrightarrow> ps = []"
  by (simp add: spans_of_def)

lemma length_spans_of [simp]: "length (spans_of k n ps) = length ps"
  by (simp add: spans_of_def)

lemma split_text_spans:
  assumes "1 \<le> budget"
  shows "split_text text budget = Inr (if text = [] then [] else spans_of 0 0 (split_to_limit text (span_limit budget)))"
  using assms split_pieces [of "text" "span_limit budget"] place_pieces_exact [of 0 "text" "split_to_limit text (span_limit budget)" 0]
  by (auto simp: split_text_def)

text \<open>C35. A document is cut without loss.  For every budget of at least one token the splitter succeeds, the
  spans are numbered in order and put together again are exactly the document, none is empty,
  each states its exact offsets, and a span only ever ends at the end of the document or in white
  space, never inside a word.\<close>

theorem split_lossless:
  assumes "1 \<le> budget"
  shows "\<exists>spans. split_text text budget = Inr spans \<and> covers text spans \<and> concat (map sp_text spans) = text \<and>
    (\<forall>i < length spans. sp_index (spans ! i) = i \<and> sp_text (spans ! i) \<noteq> [] \<and>
       sp_start (spans ! i) = length (concat (map sp_text (take i spans))) \<and>
       sp_text (spans ! i) = take (sp_end (spans ! i) - sp_start (spans ! i)) (drop (sp_start (spans ! i)) text) \<and>
       (Suc i < length spans \<longrightarrow> white (last (sp_text (spans ! i)))))"
proof (cases "text = []")
  case True
  then show ?thesis using split_text_spans [OF assms] by (simp add: covers_def)
next
  case False
  define ps where "ps = split_to_limit text (span_limit budget)"
  note p = split_pieces [OF False, of "span_limit budget", folded ps_def]
  have "sp_text (spans_of 0 0 ps ! i) = ps ! i \<and> sp_index (spans_of 0 0 ps ! i) = i \<and>
      sp_start (spans_of 0 0 ps ! i) = length (concat (take i ps)) \<and>
      sp_end (spans_of 0 0 ps ! i) = length (concat (take i ps)) + length (ps ! i)" if "i < length ps" for i
    using that by (simp add: spans_of_def)
  moreover have "drop (length (concat (take i ps))) text = ps ! i @ concat (drop (Suc i) ps)" if "i < length ps" for i
  proof -
    have "text = concat (take i ps) @ ps ! i @ concat (drop (Suc i) ps)"
      using p that by (metis Cons_nth_drop_Suc append_take_drop_id concat.simps(2) concat_append)
    then show ?thesis by (metis append_eq_conv_conj)
  qed
  moreover have "white (last (ps ! i))" if "Suc i < length ps" for i
    using p that by (metis Suc_lessD Suc_less_eq Suc_pred length_butlast nth_butlast nth_mem less_Suc_eq_0_disj list.size(3) not_less_zero zero_less_diff One_nat_def diff_Suc_1 lessE)
  moreover have "ps ! i \<noteq> []" if "i < length ps" for i using p that by (metis nth_mem)
  moreover have "ps \<noteq> []" using p False by auto
  moreover have "map sp_text (take i (spans_of 0 0 ps)) = take i ps" for i by (simp flip: take_map)
  ultimately show ?thesis using split_text_spans [OF assms, of "text"] False p
    by (intro exI [of _ "spans_of 0 0 ps"]) (auto simp: ps_def [symmetric] covers_def reassemble_def)
qed

section \<open>Sizes\<close>

lemma estimate_within:
  assumes "1 \<le> budget" and "length text \<le> span_limit budget"
  shows "int (estimate_tokens text) \<le> budget + 1"
proof -
  have "0 \<le> of_int budget * CHARACTERS_PER_TOKEN" using assms(1) by (simp add: CHARACTERS_PER_TOKEN_def)
  then have "int (length text) \<le> \<lfloor>of_int budget * CHARACTERS_PER_TOKEN\<rfloor>" using assms(2) by (simp add: span_limit_def le_nat_iff)
  then have "of_nat (length text) \<le> of_int budget * CHARACTERS_PER_TOKEN" by (simp add: le_floor_iff)
  then have "of_nat (length text) / CHARACTERS_PER_TOKEN \<le> of_int budget" by (simp add: CHARACTERS_PER_TOKEN_def divide_le_eq)
  then have "\<lfloor>of_nat (length text) / CHARACTERS_PER_TOKEN\<rfloor> \<le> budget" by (simp add: floor_le_iff)
  then show ?thesis using assms(1) by (simp add: estimate_tokens_def)
qed

text \<open>How large a span is.  Either every span is within the character limit of the budget, and its
  estimate is at most one token over the budget; or the document is one span, because some word with
  the white space behind it is longer than the limit.  Whenever a single word alone is longer than the
  limit, the splitter gives up on the whole document, however well the rest of it divides.\<close>

theorem split_sizes:
  assumes "1 \<le> budget" and "split_text text budget = Inr spans"
  shows "((\<forall>s \<in> set spans. length (sp_text s) \<le> span_limit budget \<and> int (span_tokens s) \<le> budget + 1) \<or>
     map sp_text spans = [text] \<and> (\<exists>part \<in> set (parts text Whitespace). span_limit budget < length part)) \<and>
    (\<forall>before word after. text = before @ word @ after \<and> (\<forall>ch \<in> set word. \<not> white ch) \<and> span_limit budget < length word \<longrightarrow>
       map sp_text spans = [text])"
proof (cases "text = []")
  case True
  then show ?thesis using assms split_text_spans [of budget "[]"] by auto
next
  case False
  let ?l = "span_limit budget" and ?ps = "split_to_limit text (span_limit budget)"
  have spans: "spans = spans_of 0 0 ?ps" using assms split_text_spans [of budget "text"] False by simp
  then have texts: "map sp_text spans = ?ps" by simp
  note p = split_pieces [OF False, of ?l]
  have small: "length (sp_text s) \<le> ?l \<and> int (span_tokens s) \<le> budget + 1" if "\<forall>p \<in> set ?ps. length p \<le> ?l" "s \<in> set spans" for s
  proof -
    have "sp_text s \<in> set ?ps" using that(2) by (metis image_eqI set_map texts)
    then show ?thesis using that(1) estimate_within [OF assms(1)] by (simp add: span_tokens_def)
  qed
  have whole: "\<exists>part \<in> set (parts text Whitespace). ?l < length part" if "?ps = [text]" "gather text Whitespace ?l = None" "\<not> length text \<le> ?l"
    using gather_fails [OF that(2)] that(3) by simp
  have "?ps = [text]" if w: "text = before @ word @ after" "\<forall>ch \<in> set word. \<not> white ch" "?l < length word" for before word after
  proof -
    have "word \<noteq> []" using w(3) by auto
    then have "\<exists>q \<in> set ?ps. length word \<le> length q" using word_in_piece [of ?ps before word after] p w by auto
    then show ?thesis using p w(3) by (meson leD le_trans)
  qed
  then show ?thesis using p small whole texts by (cases "length text \<le> ?l") (auto simp: split_to_limit_def)
qed

text \<open>The estimate of a span that fills its limit is over the budget.\<close>

lemma full_span_over_budget:
  "map span_tokens (case split_text (replicate 12 (CHR ''a'') @ '' '' @ replicate 12 (CHR ''b'')) 5 of Inr spans \<Rightarrow> spans | Inl e \<Rightarrow> []) = [6, 5]"
  by code_simp

lemma leading_blank_span:
  "map sp_text (case split_text (newline # newline # ''Aa bb cc dd.'') 5 of Inr spans \<Rightarrow> spans | Inl e \<Rightarrow> []) =
   [[newline, newline], ''Aa bb cc dd.'']"
  by code_simp

section \<open>Every span is translated, or nothing is\<close>

text \<open>What the translator answers when the spans are put to it one after the other, and what it leaves.\<close>

fun replies :: "'s translator \<Rightarrow> 's \<Rightarrow> span list \<Rightarrow> pyval res list" where
  "replies ask w [] = []"
| "replies ask w (s # ss) = fst (ask s w) # replies ask (snd (ask s w)) ss"

definition after_asking :: "'s translator \<Rightarrow> span list \<Rightarrow> 's \<Rightarrow> 's" where
  "after_asking ask spans w = fold (\<lambda>s w. snd (ask s w)) spans w"

lemma length_replies [simp]: "length (replies ask w ss) = length ss"
  by (induction ss arbitrary: w) simp_all

definition turns :: "nat \<Rightarrow> nat \<Rightarrow> span list \<Rightarrow> translation_event list" where
  "turns k n spans = concat (map (\<lambda>i. [Asked (spans ! i), Progressed (Suc (k + i)) n]) [0..<length spans])"

lemma turns_Cons: "turns k n (s # ss) = Asked s # Progressed (Suc k) n # turns (Suc k) n ss"
  by (simp add: turns_def upt_conv_Cons map_Suc_upt [symmetric] comp_def del: upt_Suc map_Suc_upt)

text \<open>Why the loop stopped at a span: it was cancelled before it, its translator raised, or the answer was blank.\<close>

definition stopped_at :: "exn option \<Rightarrow> pyval res \<Rightarrow> nat \<Rightarrow> span \<Rightarrow> exn \<Rightarrow> bool \<Rightarrow> bool" where
  "stopped_at cancellation reply n s e was_asked \<longleftrightarrow>
     cancellation = Some e \<and> \<not> was_asked \<or>
     cancellation = None \<and> was_asked \<and> (reply = Inl e \<or> (\<exists>a. reply = Inr a) \<and> \<not> usable_answer reply \<and> e = untranslated s n)"

lemma translate_loop_exact:
  "translate_loop cancelled ask n acc spans w = (r, events, w1) \<Longrightarrow>
   (case r of
      Inr pairs \<Rightarrow> pairs = acc @ zip spans (map answer_text (replies ask w spans)) \<and> list_all usable_answer (replies ask w spans) \<and>
        events = turns (length acc) n spans \<and> w1 = after_asking ask spans w
    | Inl e \<Rightarrow> (\<exists>j < length spans. \<exists>was_asked. (\<forall>i < j. usable_answer (replies ask w spans ! i) \<and> cancelled (length acc + i) = None) \<and>
        stopped_at (cancelled (length acc + j)) (replies ask w spans ! j) n (spans ! j) e was_asked \<and>
        events = turns (length acc) n (take j spans) @ (if was_asked then [Asked (spans ! j)] else []) \<and>
        w1 = after_asking ask (take (if was_asked then Suc j else j) spans) w))"
proof (induction spans arbitrary: acc r events w w1)
  case Nil
  then show ?case by (auto simp: turns_def after_asking_def)
next
  case (Cons s ss)
  obtain a wa where a: "ask s w = (a, wa)" by fastforce
  show ?case
  proof (cases "cancelled (length acc) = None \<and> usable_answer a")
    case False
    then have "\<exists>e was_asked. r = Inl e \<and> stopped_at (cancelled (length acc)) a n s e was_asked \<and> events = (if was_asked then [Asked s] else []) \<and>
        w1 = (if was_asked then wa else w)"
      using Cons.prems a by (cases a) (auto simp: stopped_at_def split: option.splits)
    then obtain e was_asked where e: "r = Inl e" "stopped_at (cancelled (length acc)) a n s e was_asked"
      "events = (if was_asked then [Asked s] else [])" "w1 = (if was_asked then wa else w)" by blast
    have "0 < length (s # ss)" "stopped_at (cancelled (length acc + 0)) (replies ask w (s # ss) ! 0) n ((s # ss) ! 0) e was_asked"
      "events = turns (length acc) n (take 0 (s # ss)) @ (if was_asked then [Asked ((s # ss) ! 0)] else [])"
      "w1 = after_asking ask (take (if was_asked then Suc 0 else 0) (s # ss)) w"
      using e(2-4) a by (simp_all add: turns_def after_asking_def)
    then show ?thesis unfolding e(1) sum.case by blast
  next
    case True
    then obtain v where v: "a = Inr v" by (cases a) (simp_all add: usable_answer_def)
    obtain r2 ev w2 where l: "translate_loop cancelled ask n (acc @ [(s, answer_text a)]) ss wa = (r2, ev, w2)" by (metis prod_cases3)
    have eq: "r = r2" "events = Asked s # Progressed (Suc (length acc)) n # ev" "w1 = w2" using Cons.prems True a v l by auto
    note IH = Cons.IH [OF l]
    show ?thesis
    proof (cases r2)
      case (Inr pairs)
      then show ?thesis using IH eq True a by (auto simp: turns_Cons after_asking_def)
    next
      case (Inl e)
      then obtain j q where j: "j < length ss" "\<forall>i < j. usable_answer (replies ask wa ss ! i) \<and> cancelled (Suc (length acc) + i) = None"
        "stopped_at (cancelled (Suc (length acc) + j)) (replies ask wa ss ! j) n (ss ! j) e q"
        "ev = turns (Suc (length acc)) n (take j ss) @ (if q then [Asked (ss ! j)] else [])"
        "w2 = after_asking ask (take (if q then Suc j else j) ss) wa"
        using IH by auto
      have "\<forall>i < Suc j. usable_answer (replies ask w (s # ss) ! i) \<and> cancelled (length acc + i) = None"
        using j(2) True a by (auto simp: less_Suc_eq_0_disj)
      moreover have "Suc j < length (s # ss)" "stopped_at (cancelled (length acc + Suc j)) (replies ask w (s # ss) ! Suc j) n ((s # ss) ! Suc j) e q"
        "events = turns (length acc) n (take (Suc j) (s # ss)) @ (if q then [Asked ((s # ss) ! Suc j)] else [])"
        "w1 = after_asking ask (take (if q then Suc (Suc j) else Suc j) (s # ss)) w"
        using j(1,3,4,5) eq(2,3) a by (auto simp: turns_Cons after_asking_def)
      ultimately show ?thesis unfolding eq(1) Inl sum.case by blast
    qed
  qed
qed

lemma translate_document_exact:
  assumes "translate_document cancelled ask text output_tokens w = (r, events, w1)"
  shows "(\<exists>e. span_budget_tokens output_tokens = Inl e \<and> r = Inl e \<and> events = [] \<and> w1 = w) \<or>
    (\<exists>spans. plan text output_tokens = Inr spans \<and> concat (map sp_text spans) = text \<and>
       (case r of
          Inr t \<Rightarrow> tr_spans t = zip spans (map answer_text (replies ask w spans)) \<and> tr_text t = concat (map answer_text (replies ask w spans)) \<and>
                   list_all usable_answer (replies ask w spans) \<and> events = turns 0 (length spans) spans \<and> w1 = after_asking ask spans w
        | Inl e \<Rightarrow> (\<exists>j < length spans. \<exists>was_asked. (\<forall>i < j. usable_answer (replies ask w spans ! i) \<and> cancelled i = None) \<and>
            stopped_at (cancelled j) (replies ask w spans ! j) (length spans) (spans ! j) e was_asked \<and>
            events = turns 0 (length spans) (take j spans) @ (if was_asked then [Asked (spans ! j)] else []) \<and>
            w1 = after_asking ask (take (if was_asked then Suc j else j) spans) w)))"
proof (cases "span_budget_tokens output_tokens")
  case (Inl e)
  then show ?thesis using assms by (simp add: translate_document_def plan_def)
next
  case (Inr budget)
  then have b: "1 \<le> budget" by (auto simp: span_budget_tokens_def Let_def split: if_splits)
  define spans where "spans = (if text = [] then [] else spans_of 0 0 (split_to_limit text (span_limit budget)))"
  have c: "concat (map sp_text spans) = text" using split_pieces [of "text" "span_limit budget"] by (simp add: spans_def)
  then have "covers text spans" by (auto simp: covers_def reassemble_def)
  then have p: "plan text output_tokens = Inr spans" by (simp add: plan_def Inr split_text_spans [OF b] spans_def)
  show ?thesis
  proof (cases "spans = []")
    case True
    then show ?thesis using assms p c by (auto simp: translate_document_def turns_def after_asking_def)
  next
    case False
    obtain r2 where l: "translate_loop cancelled ask (length spans) [] spans w = (r2, events, w1)"
      "r = map_res (\<lambda>pairs. \<lparr>tr_text = reassemble (map snd pairs), tr_spans = pairs\<rparr>) r2"
      using assms p False by (auto simp: translate_document_def split: prod.splits sum.splits)
    from translate_loop_exact [OF l(1)] show ?thesis using l(2) p c
      by (cases r2) (auto simp: reassemble_def)
  qed
qed

text \<open>C36. A document is translated whole or not at all.  The answer, when there is one, is the translations
  of all the spans of the document, each asked for once and in order, joined with nothing between
  them, and after every span the progress says how many of how many are done.  When there is none,
  it is for one of four reasons: the output budget holds no span, the work was cancelled before a span,
  the translator raised, or it answered with nothing but white space, and then the error names
  the span.  Nothing after that span was asked for, and the check of the cut is never what fails.\<close>

theorem translation_whole_or_refused:
  assumes "translate_document cancelled ask text output_tokens w = (r, events, w1)"
  shows "(\<exists>e. span_budget_tokens output_tokens = Inl e \<and> r = Inl e \<and> events = [] \<and> w1 = w) \<or>
    (\<exists>spans. plan text output_tokens = Inr spans \<and> concat (map sp_text spans) = text \<and>
       (case r of
          Inr t \<Rightarrow> tr_spans t = zip spans (map answer_text (replies ask w spans)) \<and> tr_text t = concat (map answer_text (replies ask w spans)) \<and>
                   list_all usable_answer (replies ask w spans) \<and> events = turns 0 (length spans) spans \<and> w1 = after_asking ask spans w
        | Inl e \<Rightarrow> (\<exists>j < length spans. \<exists>was_asked. (\<forall>i < j. usable_answer (replies ask w spans ! i) \<and> cancelled i = None) \<and>
            stopped_at (cancelled j) (replies ask w spans ! j) (length spans) (spans ! j) e was_asked \<and>
            events = turns 0 (length spans) (take j spans) @ (if was_asked then [Asked (spans ! j)] else []) \<and>
            w1 = after_asking ask (take (if was_asked then Suc j else j) spans) w)))"
  by (rule translate_document_exact [OF assms])

text \<open>A translator that hands back its span without the white space at the ends.\<close>

definition strip_answers :: "unit translator" where
  "strip_answers s w = (Inr (PStr (strip_text (sp_text s))), w)"

lemma stripped_spans_run_together:
  "map_res tr_text (fst (translate_document (\<lambda>_. None) strip_answers (''Aa bb cc.'' @ [newline, newline] @ ''Dd ee ff.'') 12 ())) =
   Inr ''Aa bb cc.Dd ee ff.''"
  by code_simp

section \<open>Witnesses\<close>

theorem split_lossless_witness:
  "\<exists>spans. split_text ''One. Two'' 1 = Inr spans \<and> concat (map sp_text spans) = ''One. Two''"
  using split_lossless [of 1 "''One. Two''"] by auto

theorem split_sizes_witness:
  "case split_text (''a b c d e '' @ replicate 14 (CHR ''x'') @ '' f g h'') 5 of Inr spans \<Rightarrow> length spans = 1 | Inl e \<Rightarrow> False"
proof -
  let ?t = "''a b c d e '' @ replicate 14 (CHR ''x'') @ '' f g h''"
  obtain spans where s: "split_text ?t 5 = Inr spans" using split_text_spans [of 5 ?t] by simp
  have "span_limit 5 = 13" by code_simp
  moreover have "\<forall>ch \<in> set (replicate 14 (CHR ''x'')). \<not> white ch" by (simp add: white_def)
  ultimately have "map sp_text spans = [?t]"
    by (intro split_sizes [OF _ s, THEN conjunct2, rule_format, of "''a b c d e ''" "replicate 14 (CHR ''x'')" "'' f g h''"]) simp_all
  then have "length (map sp_text spans) = 1" by simp
  then have "length spans = 1" by simp
  then show ?thesis using s by simp
qed

theorem translation_whole_or_refused_witness:
  "\<exists>t events. translate_document (\<lambda>_. None) (\<lambda>s n. (Inr (PStr (''<'' @ sp_text s @ ''>'')), Suc n)) ''Aa bb cc. Dd ee ff.'' 12 0 = (Inr t, events, 2) \<and>
     tr_text t = ''<Aa bb cc. ><Dd ee ff.>'' \<and> length events = 4"
proof -
  let ?ask = "\<lambda>s n. (Inr (PStr (''<'' @ sp_text s @ ''>'')), Suc n)" and ?t = "''Aa bb cc. Dd ee ff.''"
  obtain r events w where d: "translate_document (\<lambda>_. None) ?ask ?t 12 0 = (r, events, w)" by (metis prod_cases3)
  have s: "map_res (map sp_text) (plan ?t 12) = Inr [''Aa bb cc. '', ''Dd ee ff.'']" by code_simp
  then obtain spans where p: "plan ?t 12 = Inr spans" "map sp_text spans = [''Aa bb cc. '', ''Dd ee ff.'']" by (cases "plan ?t 12") auto
  then obtain a b where ab: "spans = [a, b]" "sp_text a = ''Aa bb cc. ''" "sp_text b = ''Dd ee ff.''" by auto
  have u: "usable_answer (Inr (PStr ''<Aa bb cc. >''))" "usable_answer (Inr (PStr ''<Dd ee ff.>''))" by code_simp+
  have "\<not> (\<exists>e. span_budget_tokens 12 = Inl e)" using p(1) by (auto simp: plan_def)
  then obtain t where t: "r = Inr t" "tr_text t = ''<Aa bb cc. ><Dd ee ff.>''" "length events = 4"
    using translation_whole_or_refused [OF d] p(1) ab u
    by (cases r) (auto simp: answer_text_def turns_def stopped_at_def less_Suc_eq)
  moreover have "w = 2" using translate_document_exact [OF d] t(1) p(1) ab by (auto simp: after_asking_def plan_def)
  ultimately show ?thesis using d by blast
qed

end
