(* ===== verification/Document_Passes.thy ===== *)
theory Document_Passes
  imports Document_Spans Json_Text "HOL-Library.Sublist"
begin

text \<open>
  What a document workload does to read a selection of any size: the private fragments of
  \<^verbatim>\<open>src/omnitensor/plugins/fragments.py\<close>, the page spans and passes of \<^verbatim>\<open>document_spans.py\<close>, and the
  passes and the merging of events of \<^verbatim>\<open>event_passes.py\<close>.  SHA-256 and case folding are arguments.
\<close>

section \<open>Private fragments\<close>

record fragment =
  fg_reference :: string
  fg_source :: string
  fg_page :: nat
  fg_text :: string
  fg_sha :: string

type_synonym fragment_store = "fragment dict dict"

definition valid_fragment_request :: "string \<Rightarrow> bool" where
  "valid_fragment_request s \<longleftrightarrow> 1 \<le> length s \<and> length s \<le> 120 \<and> list_all (\<lambda>ch. ascii_alnum ch \<or> ch \<in> set ''._-'') s"

fun publish_into :: "fragment dict \<Rightarrow> fragment list \<Rightarrow> fragment dict res" where
  "publish_into current [] = Inr current"
| "publish_into current (f # fs) =
     (if dhas current (fg_reference f) then Inl (Stable ''source-invalid'' ''private fragment reference repeats'')
      else publish_into (dset (fg_reference f) f current) fs)"

definition publish :: "string \<Rightarrow> fragment list \<Rightarrow> fragment_store \<Rightarrow> unit res \<times> fragment_store" where
  "publish request_id fragments store =
     (if \<not> valid_fragment_request request_id then (Inl (Stable ''request-invalid'' ''request id is invalid''), store)
      else if fragments = [] then (Inl (Stable ''source-empty'' ''source produced no private fragments''), store)
      else case publish_into (case dget store request_id of Some d \<Rightarrow> d | None \<Rightarrow> []) fragments of
             Inl e \<Rightarrow> (Inl e, store)
           | Inr current \<Rightarrow> (Inr (), dset request_id current store))"

definition discard_fragments :: "string \<Rightarrow> fragment_store \<Rightarrow> unit res \<times> fragment_store" where
  "discard_fragments request_id store =
     (if \<not> valid_fragment_request request_id then (Inl (Stable ''request-invalid'' ''request id is invalid''), store)
      else (Inr (), dpop request_id store))"

definition resolve_fragment :: "string \<Rightarrow> string \<Rightarrow> fragment_store \<Rightarrow> fragment res" where
  "resolve_fragment request_id reference store =
     (if \<not> valid_fragment_request request_id then Inl (Stable ''request-invalid'' ''request id is invalid'')
      else case dget store request_id of
             None \<Rightarrow> Inl (Stable ''source-unavailable'' ''private fragment is unavailable'')
           | Some d \<Rightarrow>
               (case dget d reference of
                  None \<Rightarrow> Inl (Stable ''source-unavailable'' ''private fragment is unavailable'')
                | Some f \<Rightarrow> Inr f))"

section \<open>Page spans\<close>

definition MAX_SPAN_CHARACTERS :: nat where "MAX_SPAN_CHARACTERS = 2048"
definition PROMPT_OVERHEAD_TOKENS :: int where "PROMPT_OVERHEAD_TOKENS = 2048"
definition SPAN_CHARACTERS_PER_TOKEN :: int where "SPAN_CHARACTERS_PER_TOKEN = 3"
definition MAX_CONTENT_REFERENCES :: int where "MAX_CONTENT_REFERENCES = 32"

record page =
  pg_number :: int
  pg_text :: string

record indexed_span =
  ix_reference :: string
  ix_file_id :: string
  ix_file_name :: string
  ix_source :: string
  ix_page :: int
  ix_start :: nat
  ix_end :: nat
  ix_text :: string
  ix_sha :: string

definition span_invalid :: exn where "span_invalid = Stable ''span-invalid'' ''span source identity is invalid''"

definition sha256_digest :: "string \<Rightarrow> bool" where
  "sha256_digest s \<longleftrightarrow> length s = 64 \<and> list_all (\<lambda>ch. ch \<in> set ''0123456789abcdef'') s"

definition private_reference :: "string \<Rightarrow> bool" where
  "private_reference s \<longleftrightarrow> take 8 s = ''private:'' \<and> 1 \<le> length (drop 8 s) \<and> length (drop 8 s) \<le> 220 \<and>
     list_all (\<lambda>ch. ascii_alnum ch \<or> ch \<in> set ''._:-'') (drop 8 s)"

definition span_reference :: "string \<Rightarrow> nat \<Rightarrow> int \<Rightarrow> nat \<Rightarrow> nat \<Rightarrow> string" where
  "span_reference request_id source_number page_number start stop =
     ''private:'' @ request_id @ '':source:'' @ nat_str source_number @ '':page:'' @ int_str page_number @ '':span:'' @
     nat_str start @ ''-'' @ nat_str stop"

definition span_starts :: "string \<Rightarrow> nat list" where
  "span_starts text = map (\<lambda>k. k * MAX_SPAN_CHARACTERS) [0..<(length text + MAX_SPAN_CHARACTERS - 1) div MAX_SPAN_CHARACTERS]"

definition span_at :: "(string \<Rightarrow> string) \<Rightarrow> string \<Rightarrow> nat \<Rightarrow> string \<Rightarrow> string \<Rightarrow> page \<Rightarrow> nat \<Rightarrow> indexed_span" where
  "span_at sha request_id source_number file_name source_sha p start =
     (let stop = min (start + MAX_SPAN_CHARACTERS) (length (pg_text p)); content = take (stop - start) (drop start (pg_text p))
      in \<lparr>ix_reference = span_reference request_id source_number (pg_number p) start stop,
          ix_file_id = ''selected-file-'' @ nat_str source_number, ix_file_name = file_name, ix_source = source_sha,
          ix_page = pg_number p, ix_start = start, ix_end = stop, ix_text = content, ix_sha = sha content\<rparr>)"

text \<open>The spans of one page; true when the allowance ran out and the call returns at once.\<close>

fun page_loop :: "(nat \<Rightarrow> indexed_span) \<Rightarrow> int option \<Rightarrow> indexed_span list \<Rightarrow> nat list \<Rightarrow> (bool \<times> indexed_span list) res" where
  "page_loop mk remaining indexed [] = Inr (False, indexed)"
| "page_loop mk remaining indexed (start # starts) =
     (if (case remaining of None \<Rightarrow> False | Some r \<Rightarrow> r \<le> int (length indexed)) then Inr (True, indexed)
      else if strip_text (ix_text (mk start)) = [] then page_loop mk remaining indexed starts
      else if \<not> private_reference (ix_reference (mk start)) then Inl (Stable ''span-invalid'' ''private span reference is invalid'')
      else page_loop mk remaining (indexed @ [mk start]) starts)"

fun pages_loop :: "(page \<Rightarrow> nat \<Rightarrow> indexed_span) \<Rightarrow> int option \<Rightarrow> indexed_span list \<Rightarrow> page list \<Rightarrow> indexed_span list res" where
  "pages_loop mk remaining indexed [] = Inr indexed"
| "pages_loop mk remaining indexed (p # ps) =
     (if pg_number p < 1 then Inl (Stable ''span-invalid'' ''extracted page is invalid'')
      else case page_loop (mk p) remaining indexed (span_starts (pg_text p)) of
             Inl e \<Rightarrow> Inl e
           | Inr (True, found) \<Rightarrow> Inr found
           | Inr (False, found) \<Rightarrow> pages_loop mk remaining found ps)"

definition page_spans :: "(string \<Rightarrow> string) \<Rightarrow> string \<Rightarrow> nat \<Rightarrow> string \<Rightarrow> string \<Rightarrow> page list \<Rightarrow> int option \<Rightarrow> indexed_span list res" where
  "page_spans sha request_id source_number file_name source_sha pages remaining =
     (if request_id = [] \<or> source_number < 1 \<or> file_name = [] \<or> CHR ''/'' \<in> set file_name \<or> CHR 0x5C \<in> set file_name \<or>
         \<not> sha256_digest source_sha \<or> (case remaining of None \<Rightarrow> False | Some r \<Rightarrow> r < 0)
      then Inl span_invalid
      else pages_loop (span_at sha request_id source_number file_name source_sha) remaining [] pages)"

section \<open>Passes\<close>

text \<open>The loop of \<^verbatim>\<open>answer_passes\<close> and of \<^verbatim>\<open>plan_passes\<close>: what is in the pass, and what it has spent.\<close>

fun passes_loop :: "('a \<Rightarrow> nat) \<Rightarrow> int \<Rightarrow> int \<Rightarrow> 'a list \<Rightarrow> nat \<Rightarrow> 'a list \<Rightarrow> 'a list list" where
  "passes_loop cost budget most current used [] = (if current = [] then [] else [current])"
| "passes_loop cost budget most current used (x # xs) =
     (if current \<noteq> [] \<and> (budget < int (used + cost x) \<or> most \<le> int (length current))
      then current # passes_loop cost budget most [x] (cost x) xs
      else passes_loop cost budget most (current @ [x]) (used + cost x) xs)"

definition answer_budget :: "int \<Rightarrow> int" where
  "answer_budget context_tokens = max (int MAX_SPAN_CHARACTERS) ((context_tokens - PROMPT_OVERHEAD_TOKENS) div 2 * SPAN_CHARACTERS_PER_TOKEN)"

definition references_per_pass :: "int \<Rightarrow> int" where
  "references_per_pass reserved = max 1 (MAX_CONTENT_REFERENCES - max 0 reserved)"

definition answer_passes :: "indexed_span list \<Rightarrow> int \<Rightarrow> int \<Rightarrow> indexed_span list list" where
  "answer_passes spans context_tokens reserved =
     (if spans = [] then []
      else passes_loop (\<lambda>s. length (ix_text s)) (answer_budget context_tokens) (references_per_pass reserved) [] 0 spans)"

definition SOURCE_SHARE :: rat where "SOURCE_SHARE = 4 / 10"

definition plan_passes :: "(string \<times> string) list \<Rightarrow> nat \<Rightarrow> int \<Rightarrow> string list list" where
  "plan_passes fragments context_tokens prompt_tokens =
     (let budget = max (\<lfloor>of_nat context_tokens * SOURCE_SHARE\<rfloor> - prompt_tokens) 1
      in map (map fst) (passes_loop (\<lambda>(reference, text). estimate_tokens text) budget MAX_CONTENT_REFERENCES [] 0 fragments))"

section \<open>Merging the passes of an extraction\<close>

record place =
  pl_venue :: "string option"
  pl_address :: "string option"
  pl_url :: "string option"

record 'r event =
  ev_id :: string
  ev_label :: string
  ev_date :: "string option"
  ev_time :: "string option"
  ev_where :: "place option"
  ev_rest :: 'r

record 'r event_result =
  er_request :: string
  er_outcome :: string
  er_code :: string
  er_detail :: string
  er_events :: "'r event list"
  er_dropped :: nat

type_synonym event_key = "string list \<times> string option \<times> string option \<times> string list"

fun split_words :: "string \<Rightarrow> string \<Rightarrow> string list" where
  "split_words cur [] = (if cur = [] then [] else [cur])"
| "split_words cur (ch # cs) =
     (if white ch then (if cur = [] then split_words [] cs else cur # split_words [] cs) else split_words (cur @ [ch]) cs)"

definition duplicate_key :: "(string \<Rightarrow> string) \<Rightarrow> 'r event \<Rightarrow> event_key" where
  "duplicate_key casefold e =
     (let place = (case ev_where e of
                     None \<Rightarrow> []
                   | Some w \<Rightarrow>
                       (let named = (case pl_address w of Some full \<Rightarrow> Some full | None \<Rightarrow> pl_venue w);
                            stated = (if named = None \<or> named = Some [] then pl_url w else named)
                        in case stated of None \<Rightarrow> [] | Some s \<Rightarrow> split_words [] (casefold s)))
      in (split_words [] (casefold (ev_label e)), ev_date e, ev_time e, place))"

fun free_suffix :: "string list \<Rightarrow> string \<Rightarrow> nat \<Rightarrow> nat \<Rightarrow> nat option" where
  "free_suffix taken identity k 0 = None"
| "free_suffix taken identity k (Suc fuel) =
     (if identity @ ''-'' @ nat_str k \<in> set taken then free_suffix taken identity (Suc k) fuel else Some k)"

definition with_unique_id :: "'r event \<Rightarrow> string list \<Rightarrow> ('r event \<times> string list) option" where
  "with_unique_id e taken =
     (if ev_id e \<notin> set taken then Some (e, ev_id e # taken)
      else map_option (\<lambda>n. let identity = ev_id e @ ''-'' @ nat_str n in (e\<lparr>ev_id := identity\<rparr>, identity # taken))
             (free_suffix taken (ev_id e) 2 (Suc (length taken))))"

fun merge_loop :: "(string \<Rightarrow> string) \<Rightarrow> 'r event list \<Rightarrow> event_key list \<Rightarrow> string list \<Rightarrow> nat \<Rightarrow> 'r event list \<Rightarrow> ('r event list \<times> nat) option" where
  "merge_loop casefold events seen ids dropped [] = Some (events, dropped)"
| "merge_loop casefold events seen ids dropped (e # es) =
     (if duplicate_key casefold e \<in> set seen then merge_loop casefold events seen ids (Suc dropped) es
      else case with_unique_id e ids of
             None \<Rightarrow> None
           | Some (e', ids') \<Rightarrow> merge_loop casefold (events @ [e']) (duplicate_key casefold e # seen) ids' dropped es)"

text \<open>\<open>None\<close> would be a search for an identifier that does not end.\<close>

definition merge_results :: "(string \<Rightarrow> string) \<Rightarrow> 'r event_result list \<Rightarrow> string \<Rightarrow> 'r event_result res option" where
  "merge_results casefold results request_id =
     (if results = [] then Some (Inl (Stable ''source-invalid'' ''no extraction pass was run''))
      else case merge_loop casefold [] [] [] 0 (concat (map er_events results)) of
             None \<Rightarrow> None
           | Some (events, dropped) \<Rightarrow>
               if events = []
               then Some (Inr \<lparr>er_request = request_id, er_outcome = ''refused'', er_code = ''no-event-found'',
                     er_detail = (case filter (\<lambda>d. d \<noteq> []) (map er_detail results) of [] \<Rightarrow> [] | d # _ \<Rightarrow> d), er_events = [], er_dropped = dropped\<rparr>)
               else let outcome = (if ''partial'' \<in> set (map er_outcome results) then ''partial'' else ''succeeded'')
                    in Some (Inr \<lparr>er_request = request_id, er_outcome = outcome, er_code = ''events-extracted'',
                         er_detail = (if outcome = ''succeeded'' then [] else ''some selected material could not be read''),
                         er_events = events, er_dropped = dropped\<rparr>))"

section \<open>As few passes as the window allows\<close>

definition pass_ok :: "('a \<Rightarrow> nat) \<Rightarrow> int \<Rightarrow> int \<Rightarrow> 'a list \<Rightarrow> bool" where
  "pass_ok cost budget most p \<longleftrightarrow>
     p \<noteq> [] \<and> (length p = 1 \<or> int (sum_list (map cost p)) \<le> budget \<and> int (length p) \<le> most)"

lemma pass_ok_single [simp]: "pass_ok cost budget most [x]"
  by (simp add: pass_ok_def)

lemma pass_ok_snoc:
  "p \<noteq> [] \<Longrightarrow> pass_ok cost budget most (p @ [x]) \<longleftrightarrow>
     \<not> (budget < int (sum_list (map cost p) + cost x) \<or> most \<le> int (length p))"
  by (cases p) (auto simp: pass_ok_def)

lemma pass_ok_prefix: "\<lbrakk>pass_ok cost budget most (p @ q); p \<noteq> []\<rbrakk> \<Longrightarrow> pass_ok cost budget most p"
  by (cases p; cases q) (auto simp: pass_ok_def)

lemma pass_ok_suffix: "\<lbrakk>pass_ok cost budget most (p @ q); q \<noteq> []\<rbrakk> \<Longrightarrow> pass_ok cost budget most q"
  by (cases p; cases q) (auto simp: pass_ok_def)

text \<open>The first pass is the longest start of the items that is one.\<close>

lemma first_pass:
  "\<lbrakk>cur \<noteq> []; pass_ok cost budget most cur; used = sum_list (map cost cur)\<rbrakk> \<Longrightarrow>
   \<exists>g rest. passes_loop cost budget most cur used xs = g # passes_loop cost budget most [] 0 rest \<and> cur @ xs = g @ rest \<and>
     pass_ok cost budget most g \<and> (rest \<noteq> [] \<longrightarrow> \<not> pass_ok cost budget most (g @ [hd rest]))"
proof (induction xs arbitrary: cur used)
  case Nil
  then show ?case by (intro exI [of _ cur] exI [of _ "[]"]) simp
next
  case (Cons x xs)
  show ?case
  proof (cases "pass_ok cost budget most (cur @ [x])")
    case True
    then have "passes_loop cost budget most cur used (x # xs) = passes_loop cost budget most (cur @ [x]) (used + cost x) xs"
      using pass_ok_snoc [OF Cons.prems(1), of cost budget most x] Cons.prems(3) by auto
    then show ?thesis using Cons.IH [OF _ True, of "used + cost x"] Cons.prems(3) by simp
  next
    case False
    then have "passes_loop cost budget most cur used (x # xs) = cur # passes_loop cost budget most [] 0 (x # xs)"
      using pass_ok_snoc [OF Cons.prems(1), of cost budget most x] Cons.prems(1,3) by auto
    then show ?thesis using False Cons.prems(2) by (intro exI [of _ cur] exI [of _ "x # xs"]) simp
  qed
qed

lemma passes_first:
  assumes "xs \<noteq> []"
  obtains g rest where "passes_loop cost budget most [] 0 xs = g # passes_loop cost budget most [] 0 rest" "xs = g @ rest"
    "pass_ok cost budget most g" "rest \<noteq> [] \<Longrightarrow> \<not> pass_ok cost budget most (g @ [hd rest])"
proof -
  obtain x ys where x: "xs = x # ys" using assms by (cases xs) auto
  show ?thesis using first_pass [of "[x]" cost budget most "cost x" ys] that by (auto simp: x)
qed

lemma passes_partition:
  "concat (passes_loop cost budget most [] 0 xs) = xs \<and> (\<forall>p \<in> set (passes_loop cost budget most [] 0 xs). pass_ok cost budget most p)"
proof (induction "length xs" arbitrary: xs rule: less_induct)
  case less
  show ?case
  proof (cases "xs = []")
    case False
    then obtain g rest where g: "passes_loop cost budget most [] 0 xs = g # passes_loop cost budget most [] 0 rest" "xs = g @ rest"
      "pass_ok cost budget most g" by (rule passes_first)
    have "length rest < length xs" using g(2,3) by (auto simp: pass_ok_def)
    from less [OF this] show ?thesis unfolding g(1) using g(2,3) by simp
  qed simp
qed

lemma passes_fewest:
  "\<lbrakk>\<forall>p \<in> set other. pass_ok cost budget most p; suffix xs (concat other)\<rbrakk> \<Longrightarrow>
   length (passes_loop cost budget most [] 0 xs) \<le> length other"
proof (induction other arbitrary: xs)
  case (Cons p ps)
  show ?case
  proof (cases "suffix xs (concat ps) \<or> xs = []")
    case True
    then show ?thesis using Cons by (auto intro: le_SucI)
  next
    case False
    then obtain q where q: "suffix q p" "q \<noteq> []" "xs = q @ concat ps"
      using Cons.prems(2) suffix_append [of xs p "concat ps"] by fastforce
    then have ok: "pass_ok cost budget most q" using Cons.prems(1) pass_ok_suffix by (auto simp: suffix_def)
    obtain g rest where g: "passes_loop cost budget most [] 0 xs = g # passes_loop cost budget most [] 0 rest" "xs = g @ rest"
      "pass_ok cost budget most g" "rest \<noteq> [] \<Longrightarrow> \<not> pass_ok cost budget most (g @ [hd rest])"
      using passes_first [of xs cost budget most] False by blast
    have "length q \<le> length g"
    proof (rule ccontr)
      assume "\<not> length q \<le> length g"
      then obtain r where r: "q = g @ r" "rest = r @ concat ps" "r \<noteq> []"
        using g(2) q(3) by (auto simp: append_eq_append_conv2)
      then have "pass_ok cost budget most (g @ [hd r])" using pass_ok_prefix [of cost budget most "g @ [hd r]" "tl r"] ok by simp
      then show False using g(4) r(2,3) by simp
    qed
    then have "suffix rest (concat ps)" using g(2) q(3) by (auto simp: append_eq_append_conv2 suffix_def)
    then show ?thesis using Cons.IH Cons.prems(1) g(1) by simp
  qed
qed simp

text \<open>C37. A selection is read whole, in as few passes as the window allows.  Every span is in exactly one
  pass and in the order of the ranking, a pass holds more than one span only within the character
  budget and the number of references a request may carry, and no other division into such passes,
  in this order, has fewer.\<close>

theorem passes_whole_and_fewest:
  "concat (answer_passes spans context_tokens reserved) = spans \<and>
   (\<forall>p \<in> set (answer_passes spans context_tokens reserved).
      pass_ok (\<lambda>s. length (ix_text s)) (answer_budget context_tokens) (references_per_pass reserved) p) \<and>
   \<not> (\<exists>other. concat other = spans \<and> length other < length (answer_passes spans context_tokens reserved) \<and>
        list_all (pass_ok (\<lambda>s. length (ix_text s)) (answer_budget context_tokens) (references_per_pass reserved)) other)"
proof -
  have a: "answer_passes spans context_tokens reserved =
      passes_loop (\<lambda>s. length (ix_text s)) (answer_budget context_tokens) (references_per_pass reserved) [] 0 spans"
    by (simp add: answer_passes_def)
  show ?thesis unfolding a
    using passes_partition [of "\<lambda>s. length (ix_text s)" "answer_budget context_tokens" "references_per_pass reserved" spans]
      passes_fewest [of _ "\<lambda>s. length (ix_text s)" "answer_budget context_tokens" "references_per_pass reserved" "concat other" for other]
    by (auto simp: list_all_iff not_less)
qed

section \<open>Merged events\<close>

lemma free_suffix_none:
  "free_suffix taken identity k fuel = None \<Longrightarrow> k \<le> n \<Longrightarrow> n < k + fuel \<Longrightarrow> identity @ ''-'' @ nat_str n \<in> set taken"
proof (induction taken identity k fuel rule: free_suffix.induct)
  case (2 taken identity k fuel)
  then show ?case by (cases "n = k") (auto split: if_splits)
qed simp

lemma free_suffix_found:
  shows "\<exists>n. free_suffix taken identity k (Suc (length taken)) = Some n" (is "\<exists>n. ?f = _")
proof (cases "?f")
  case None
  let ?names = "(\<lambda>n. identity @ ''-'' @ nat_str n) ` {k..<k + Suc (length taken)}"
  have "inj_on (\<lambda>n. identity @ ''-'' @ nat_str n) {k..<k + Suc (length taken)}"
    by (rule inj_onI) (metis append_same_eq digits_value_nat_str same_append_eq)
  then have "card ?names = Suc (length taken)" by (simp add: card_image)
  moreover have "?names \<subseteq> set taken" using free_suffix_none [OF None] by auto
  ultimately have "Suc (length taken) \<le> card (set taken)" by (metis List.finite_set card_mono)
  then show ?thesis using card_length [of taken] by simp
qed simp

lemma free_suffix_free: "free_suffix taken identity k fuel = Some n \<Longrightarrow> identity @ ''-'' @ nat_str n \<notin> set taken"
  by (induction taken identity k fuel rule: free_suffix.induct) (auto split: if_splits)

lemma with_unique_id_fresh:
  obtains identity where "with_unique_id e taken = Some (e\<lparr>ev_id := identity\<rparr>, identity # taken)" "identity \<notin> set taken"
    "ev_id e \<notin> set taken \<Longrightarrow> identity = ev_id e"
proof (cases "ev_id e \<in> set taken")
  case False
  then show ?thesis using that [of "ev_id e"] by (simp add: with_unique_id_def)
next
  case True
  obtain n where n: "free_suffix taken (ev_id e) 2 (Suc (length taken)) = Some n" using free_suffix_found by blast
  then show ?thesis using True that [of "ev_id e @ ''-'' @ nat_str n"] free_suffix_free [OF n] by (simp add: with_unique_id_def Let_def del: free_suffix.simps)
qed

lemma duplicate_key_id [simp]: "duplicate_key cf (e\<lparr>ev_id := i\<rparr>) = duplicate_key cf e"
  by (simp add: duplicate_key_def)

definition event_body :: "'r event \<Rightarrow> 'r event" where "event_body e = e\<lparr>ev_id := []\<rparr>"

lemma merge_loop_exact:
  "\<lbrakk>set seen = duplicate_key cf ` set events; set ids = ev_id ` set events; distinct (map ev_id events); distinct (map (duplicate_key cf) events)\<rbrakk> \<Longrightarrow>
   \<exists>out n. merge_loop cf events seen ids d es = Some (out, n) \<and> distinct (map ev_id out) \<and> distinct (map (duplicate_key cf) out) \<and>
     duplicate_key cf ` set out = duplicate_key cf ` set events \<union> duplicate_key cf ` set es \<and>
     length out + n = length events + d + length es \<and> event_body ` set out \<subseteq> event_body ` set events \<union> event_body ` set es"
proof (induction es arbitrary: events seen ids d)
  case (Cons e es)
  show ?case
  proof (cases "duplicate_key cf e \<in> set seen")
    case True
    then show ?thesis using Cons.IH [OF Cons.prems, of "Suc d"] Cons.prems(1) by (auto simp: insert_absorb) blast
  next
    case False
    obtain i where i: "with_unique_id e ids = Some (e\<lparr>ev_id := i\<rparr>, i # ids)" "i \<notin> set ids" by (rule with_unique_id_fresh)
    have b: "event_body (e\<lparr>ev_id := i\<rparr>) = event_body e" by (simp add: event_body_def)
    show ?thesis
      using Cons.IH [of "duplicate_key cf e # seen" "events @ [e\<lparr>ev_id := i\<rparr>]" "i # ids" d] Cons.prems False i
      by (auto simp: b)
  qed
qed simp

text \<open>C38. Splitting the work never multiplies the answer.  Merging the passes of an extraction always ends;
  of every event found in any pass exactly one is kept, as it was read but for its identifier, no two
  of the kept share an identifier, and what was dropped is counted.  The merger refuses only when
  no pass found anything, and calls the result partial when any pass was.\<close>

theorem merged_events_once:
  assumes "results \<noteq> []"
  shows "\<exists>m. merge_results casefold results request_id = Some (Inr m) \<and>
    distinct (map ev_id (er_events m)) \<and> distinct (map (duplicate_key casefold) (er_events m)) \<and>
    duplicate_key casefold ` set (er_events m) = duplicate_key casefold ` (\<Union>r \<in> set results. set (er_events r)) \<and>
    event_body ` set (er_events m) \<subseteq> event_body ` (\<Union>r \<in> set results. set (er_events r)) \<and>
    length (er_events m) + er_dropped m = sum_list (map (length \<circ> er_events) results) \<and>
    (er_outcome m = ''refused'' \<longleftrightarrow> (\<forall>r \<in> set results. er_events r = [])) \<and>
    (er_outcome m = ''partial'' \<longleftrightarrow> (\<exists>r \<in> set results. er_events r \<noteq> []) \<and> (\<exists>r \<in> set results. er_outcome r = ''partial''))"
proof -
  let ?es = "concat (map er_events results)"
  obtain out n where m: "merge_loop casefold [] [] [] 0 ?es = Some (out, n)" "distinct (map ev_id out)" "distinct (map (duplicate_key casefold) out)"
    "duplicate_key casefold ` set out = duplicate_key casefold ` set ?es" "length out + n = length ?es" "event_body ` set out \<subseteq> event_body ` set ?es"
    using merge_loop_exact [of "[]" casefold "[]" "[]" 0 ?es] by auto
  have empty: "out = [] \<longleftrightarrow> (\<forall>r \<in> set results. er_events r = [])"
    using arg_cong [OF m(4), of "\<lambda>x. x = {}"] by (simp add: set_empty2)
  show ?thesis
  proof (cases "out = []")
    case True
    then show ?thesis using assms m empty by (auto simp: merge_results_def length_concat comp_def)
  next
    case False
    then show ?thesis using assms m empty by (auto simp: merge_results_def Let_def length_concat comp_def image_iff)
  qed
qed

section \<open>Every page is indexed\<close>

lemma strip_text_Nil: "strip_text s = [] \<longleftrightarrow> (\<forall>c \<in> set s. white c)"
proof
  assume "strip_text s = []"
  then have "\<forall>c \<in> set (dropWhile white s). white c" by (simp add: strip_text_def)
  then show "\<forall>c \<in> set s. white c" by (metis dropWhile_eq_Nil_conv hd_dropWhile list.set_sel(1))
qed (simp add: strip_text_def dropWhile_eq_Nil_conv [THEN iffD2])

lemma page_loop_all:
  "page_loop mk None indexed starts = Inr (b, found) \<Longrightarrow>
   \<not> b \<and> found = indexed @ filter (\<lambda>s. strip_text (ix_text s) \<noteq> []) (map mk starts)"
  by (induction mk "None :: int option" indexed starts rule: page_loop.induct) (auto split: if_splits)

lemma pages_loop_all:
  "pages_loop mk None indexed pages = Inr found \<Longrightarrow>
   found = indexed @ concat (map (\<lambda>p. filter (\<lambda>s. strip_text (ix_text s) \<noteq> []) (map (mk p) (span_starts (pg_text p)))) pages)"
proof (induction mk "None :: int option" indexed pages rule: pages_loop.induct)
  case (2 mk indexed p ps)
  then show ?case by (auto split: if_splits sum.splits prod.splits bool.splits dest!: page_loop_all)
qed simp

lemma span_start_of:
  assumes "i < length text"
  shows "i div MAX_SPAN_CHARACTERS * MAX_SPAN_CHARACTERS \<in> set (span_starts text)"
proof -
  have "i div MAX_SPAN_CHARACTERS < (length text + MAX_SPAN_CHARACTERS - 1) div MAX_SPAN_CHARACTERS"
    using assms by (simp add: MAX_SPAN_CHARACTERS_def)
  then show ?thesis by (auto simp: span_starts_def)
qed

lemma chunks_concat: "0 < n \<Longrightarrow> concat (map (\<lambda>k. take n (drop (k * n) xs)) [0..<(length xs + n - 1) div n]) = xs"
proof (induction "length xs" arbitrary: xs rule: less_induct)
  case less
  show ?case
  proof (cases "xs = []")
    case True
    then show ?thesis using less.prems by simp
  next
    case False
    have l: "(length xs + n - 1) div n = Suc ((length (drop n xs) + n - 1) div n)"
    proof (cases "length xs \<le> n")
      case True
      moreover have "0 < length xs" using False by simp
      ultimately have "n \<le> length xs + n - 1" "length xs + n - 1 < 2 * n" using less.prems by linarith+
      then have "(length xs + n - 1) div n = 1" by (intro div_nat_eqI) auto
      then show ?thesis using True less.prems by simp
    next
      case False
      then have "length xs + n - 1 = (length (drop n xs) + n - 1) + n" by simp
      then show ?thesis using less.prems by (simp only: div_add_self2)
    qed
    have "concat (map (\<lambda>k. take n (drop (k * n) (drop n xs))) [0..<(length (drop n xs) + n - 1) div n]) = drop n xs"
      using False less.prems by (intro less.hyps) auto
    then show ?thesis unfolding l
      by (simp add: upt_conv_Cons map_Suc_upt [symmetric] comp_def drop_drop add.commute del: upt_Suc map_Suc_upt)
  qed
qed

lemma slice_nth:
  "\<lbrakk>a \<le> i; i < b; b \<le> length xs\<rbrakk> \<Longrightarrow> take (b - a) (drop a xs) ! (i - a) = xs ! i \<and> i - a < length (take (b - a) (drop a xs))"
  by auto

text \<open>The index of a file is exact and leaves nothing readable out.  It holds, page by page and in
  order, the pieces of 2048 characters of each page that are not blank; the pieces of a page put
  together are the page; every character that is not white space lies in an indexed span of its page,
  whose text is exactly what stands at its offsets and whose digest is the digest of that text.\<close>

theorem page_index_exact:
  assumes "page_spans sha request_id source_number file_name source_sha pages None = Inr spans"
  shows "spans = concat (map (\<lambda>p. filter (\<lambda>s. strip_text (ix_text s) \<noteq> [])
      (map (span_at sha request_id source_number file_name source_sha p) (span_starts (pg_text p)))) pages) \<and>
    (\<forall>p \<in> set pages. concat (map (\<lambda>n. ix_text (span_at sha request_id source_number file_name source_sha p n)) (span_starts (pg_text p))) = pg_text p) \<and>
    (\<forall>p \<in> set pages. \<forall>i < length (pg_text p). \<not> white (pg_text p ! i) \<longrightarrow>
       (\<exists>s \<in> set spans. ix_page s = pg_number p \<and> ix_start s \<le> i \<and> i < ix_end s \<and>
          ix_text s = take (ix_end s - ix_start s) (drop (ix_start s) (pg_text p)) \<and> ix_sha s = sha (ix_text s)))"
proof -
  let ?mk = "span_at sha request_id source_number file_name source_sha"
  have exact: "spans = concat (map (\<lambda>p. filter (\<lambda>s. strip_text (ix_text s) \<noteq> []) (map (?mk p) (span_starts (pg_text p)))) pages)"
    using assms pages_loop_all [of ?mk "[]" pages spans] by (simp add: page_spans_def split: if_splits)
  have whole: "concat (map (\<lambda>n. ix_text (?mk p n)) (span_starts (pg_text p))) = pg_text p" for p
  proof -
    have "ix_text (?mk p n) = take MAX_SPAN_CHARACTERS (drop n (pg_text p))" for n
      by (simp add: span_at_def Let_def min_def) 
    then show ?thesis using chunks_concat [of MAX_SPAN_CHARACTERS "pg_text p"]
      by (simp add: span_starts_def comp_def MAX_SPAN_CHARACTERS_def)
  qed
  have covered: "\<exists>s \<in> set spans. ix_page s = pg_number p \<and> ix_start s \<le> i \<and> i < ix_end s \<and>
          ix_text s = take (ix_end s - ix_start s) (drop (ix_start s) (pg_text p)) \<and> ix_sha s = sha (ix_text s)"
    if "p \<in> set pages" "i < length (pg_text p)" "\<not> white (pg_text p ! i)" for p i
  proof -
    let ?n = "i div MAX_SPAN_CHARACTERS * MAX_SPAN_CHARACTERS"
    have n: "?n \<le> i" "i < ?n + MAX_SPAN_CHARACTERS" by (simp_all add: MAX_SPAN_CHARACTERS_def div_mult2_eq [symmetric])
    define s where "s = ?mk p ?n"
    have s: "ix_start s = ?n" "ix_end s = min (?n + MAX_SPAN_CHARACTERS) (length (pg_text p))" "ix_page s = pg_number p"
      "ix_text s = take (ix_end s - ix_start s) (drop (ix_start s) (pg_text p))" "ix_sha s = sha (ix_text s)"
      by (simp_all add: s_def span_at_def Let_def)
    have i: "i < ix_end s" using n(2) that(2) s(2) by simp
    have "ix_text s ! (i - ?n) = pg_text p ! i" "i - ?n < length (ix_text s)"
      using slice_nth [of ?n i "ix_end s" "pg_text p"] n(1) i s(1,2,4) by simp_all
    then have "pg_text p ! i \<in> set (ix_text s)" by (metis nth_mem)
    then have "strip_text (ix_text s) \<noteq> []" using that(3) unfolding strip_text_Nil by blast
    then have "s \<in> set spans" using that(1) span_start_of [OF that(2)] unfolding exact s_def by auto
    then show ?thesis using s i n(1) by auto
  qed
  show ?thesis using exact whole covered by blast
qed

section \<open>Witnesses\<close>

definition demo_event :: "string \<Rightarrow> string \<Rightarrow> nat event" where
  "demo_event identity label = \<lparr>ev_id = identity, ev_label = label, ev_date = None, ev_time = None, ev_where = None, ev_rest = 0\<rparr>"

definition demo_extraction :: "nat event list \<Rightarrow> nat event_result" where
  "demo_extraction events = \<lparr>er_request = ''r'', er_outcome = ''succeeded'', er_code = ''events-extracted'', er_detail = [],
     er_events = events, er_dropped = 0\<rparr>"

text \<open>Two passes that number their events from one: the concert named in both is kept once, the lecture is renamed.\<close>

theorem merged_events_once_witness:
  "\<exists>m. merge_results id [demo_extraction [demo_event ''e1'' ''Jazz  night''], demo_extraction [demo_event ''e1'' ''Lecture'', demo_event ''e2'' ''Jazz night'']] ''r'' =
     Some (Inr m) \<and> length (er_events m) + er_dropped m = 3 \<and> distinct (map ev_id (er_events m)) \<and> er_outcome m \<noteq> ''refused''"
  using merged_events_once [of "[demo_extraction [demo_event ''e1'' ''Jazz  night''], demo_extraction [demo_event ''e1'' ''Lecture'', demo_event ''e2'' ''Jazz night'']]"
      id "''r''"]
  by (auto simp: demo_extraction_def)

definition demo_indexed :: "string \<Rightarrow> indexed_span" where
  "demo_indexed t = \<lparr>ix_reference = t, ix_file_id = ''selected-file-1'', ix_file_name = ''a.txt'', ix_source = [], ix_page = 1, ix_start = 0,
     ix_end = length t, ix_text = t, ix_sha = []\<rparr>"

theorem passes_whole_and_fewest_witness:
  "concat (answer_passes [demo_indexed ''one'', demo_indexed ''two''] 4096 1) = [demo_indexed ''one'', demo_indexed ''two''] \<and>
   answer_passes [demo_indexed ''one'', demo_indexed ''two''] 4096 1 \<noteq> []"
  using passes_whole_and_fewest [of "[demo_indexed ''one'', demo_indexed ''two'']" 4096 1] by auto

theorem page_index_exact_witness:
  "\<exists>spans. page_spans (\<lambda>_. ''d'') ''r1'' 1 ''a.txt'' (replicate 64 (CHR ''0'')) [\<lparr>pg_number = 1, pg_text = ''Hello''\<rparr>] None = Inr spans \<and>
     (\<exists>s \<in> set spans. ix_page s = 1 \<and> ix_start s \<le> 4 \<and> 4 < ix_end s)"
proof -
  let ?p = "\<lparr>pg_number = 1, pg_text = ''Hello''\<rparr>" and ?d = "replicate 64 (CHR ''0'')"
  have d: "sha256_digest ?d" by (simp add: sha256_digest_def list_all_iff)
  have st: "span_starts ''Hello'' = [0]" by (simp add: span_starts_def MAX_SPAN_CHARACTERS_def)
  have n: "nat_str 1 = ''1''" "nat_str 0 = ''0''" "nat_str (Suc (Suc (Suc (Suc (Suc 0))))) = ''5''" "int_str 1 = ''1''" by code_simp+
  have "span_at (\<lambda>_. ''d'') ''r1'' 1 ''a.txt'' ?d ?p 0 = \<lparr>ix_reference = ''private:r1:source:1:page:1:span:0-5'', ix_file_id = ''selected-file-1'',
      ix_file_name = ''a.txt'', ix_source = ?d, ix_page = 1, ix_start = 0, ix_end = 5, ix_text = ''Hello'', ix_sha = ''d''\<rparr>" (is "?s = _")
    using n by (simp add: span_at_def span_reference_def MAX_SPAN_CHARACTERS_def)
  moreover have "private_reference ''private:r1:source:1:page:1:span:0-5''" by code_simp
  moreover have "strip_text ''Hello'' \<noteq> []" by code_simp
  ultimately have e: "page_spans (\<lambda>_. ''d'') ''r1'' 1 ''a.txt'' ?d [?p] None = Inr [?s]"
    using d by (simp add: page_spans_def st)
  have "\<not> white (''Hello'' ! 4)" by code_simp
  then have "\<exists>s \<in> set [?s]. ix_page s = pg_number ?p \<and> ix_start s \<le> 4 \<and> 4 < ix_end s"
    using page_index_exact [OF e, THEN conjunct2, THEN conjunct2, rule_format, of ?p 4] by auto
  then show ?thesis using e by auto
qed

end
