(* ===== verification/File_Operations.thy ===== *)
theory File_Operations
  imports Document_Passes
begin

text \<open>
  \<^verbatim>\<open>src/omnitensor/plugins/file_operations.py\<close>: one operation over the files a person selected, from the
  extraction of each file through the private store and the generation router to the one result.  The
  selection itself, the readers, the router and the schema validator are arguments.
\<close>

section \<open>Requests and answers\<close>

definition SHARED_OPERATIONS :: "string list" where
  "SHARED_OPERATIONS = [''ask'', ''explain'', ''summarize'', ''rewrite'', ''translate'', ''extract-tasks'']"

definition control_text :: "string \<Rightarrow> string option \<Rightarrow> string" where
  "control_text operation language =
     [CHR 0x7B] @ json_string ''language'' @ '':'' @ (case language of None \<Rightarrow> ''null'' | Some l \<Rightarrow> json_string l) @ '','' @
     json_string ''operation'' @ '':'' @ json_string operation @ [CHR 0x7D]"

definition control_reference :: "string \<Rightarrow> string" where
  "control_reference job = ''private:'' @ job @ '':control''"

definition operation_control_fragment :: "(string \<Rightarrow> string) \<Rightarrow> string \<Rightarrow> string \<Rightarrow> string option \<Rightarrow> fragment" where
  "operation_control_fragment sha job operation language =
     \<lparr>fg_reference = control_reference job, fg_source = sha (control_text operation language), fg_page = 1,
      fg_text = control_text operation language, fg_sha = sha (control_text operation language)\<rparr>"

record cited =
  ci_reference :: string
  ci_source :: string
  ci_page :: int
  ci_start :: int
  ci_end :: int
  ci_sha :: string

record answer_document =
  ad_request :: string
  ad_operation :: "string option"
  ad_answer :: string
  ad_tasks :: "string list"
  ad_citations :: "cited list"

record generated =
  ge_document :: answer_document
  ge_provider :: string
  ge_accelerator :: string

record span_citation =
  sc_file_id :: string
  sc_file_name :: string
  sc_source :: string
  sc_page :: int
  sc_start :: nat
  sc_end :: nat
  sc_sha :: string

record translated_document =
  td_id :: string
  td_file_name :: string
  td_source :: string
  td_spans :: nat
  td_text :: string
  td_sha :: string

record file_result =
  fx_request :: string
  fx_operation :: string
  fx_answer :: string
  fx_provider :: string
  fx_accelerator :: string
  fx_citations :: "span_citation list"
  fx_tasks :: "string list option"
  fx_documents :: "translated_document list option"

record extraction =
  xt_name :: string
  xt_digest :: string
  xt_pages :: "page list"
  xt_text :: string

text \<open>
  What one request meets: SHA-256, the limits of the task, the validator of answers and of the result,
  whether it is cancelled when it looks, before a file, a pass, or a span of a document, what the
  reader makes of a file, and the router, which sees the private store.
\<close>

record operation_env =
  oe_sha :: "string \<Rightarrow> string"
  oe_context_tokens :: nat
  oe_output_tokens :: "nat option"
  oe_answer_violations :: "answer_document \<Rightarrow> string list"
  oe_result_violations :: "file_result \<Rightarrow> string list"
  oe_stop_read :: "nat \<Rightarrow> exn option"
  oe_stop_pass :: "nat \<Rightarrow> exn option"
  oe_stop_span :: "nat \<Rightarrow> nat \<Rightarrow> exn option"
  oe_route :: "string \<Rightarrow> string \<Rightarrow> fragment_store \<Rightarrow> generated res"

definition answer_invalid :: "string \<Rightarrow> exn" where "answer_invalid detail = Stable ''answer-invalid'' detail"

definition cites_fragment :: "fragment \<Rightarrow> cited \<Rightarrow> bool" where
  "cites_fragment f c \<longleftrightarrow> ci_reference c = fg_reference f \<and> ci_source c = fg_source f \<and> ci_page c = int (fg_page f) \<and>
     ci_start c = 0 \<and> ci_end c = int (length (fg_text f)) \<and> ci_sha c = fg_sha f"

definition grounded_operation_answer :: "(answer_document \<Rightarrow> string list) \<Rightarrow> answer_document \<Rightarrow> string \<Rightarrow> string \<Rightarrow> fragment \<Rightarrow>
    (string \<times> string list) res" where
  "grounded_operation_answer violations d request_id operation f =
     (case violations d of
        v # _ \<Rightarrow> Inl (answer_invalid v)
      | [] \<Rightarrow>
          if ad_request d \<noteq> request_id then Inl (answer_invalid ''answer request id does not match'')
          else if (case ad_operation d of None \<Rightarrow> False | Some stated \<Rightarrow> stated \<noteq> operation)
          then Inl (answer_invalid ''answer names another operation'')
          else if operation \<noteq> ''extract-tasks'' \<and> ad_tasks d \<noteq> [] then Inl (answer_invalid ''tasks are accepted only for task extraction'')
          else (case ad_citations d of
                  [c] \<Rightarrow> if cites_fragment f c then Inr (strip_text (ad_answer d), ad_tasks d)
                         else Inl (answer_invalid ''answer does not cite the content it was given'')
                | _ \<Rightarrow> Inl (answer_invalid ''an operation answer cites its one content fragment'')))"

definition file_operations_result :: "operation_env \<Rightarrow> string \<Rightarrow> string \<Rightarrow> string \<Rightarrow> span_citation list \<Rightarrow> string \<Rightarrow> string \<Rightarrow>
    string list \<Rightarrow> translated_document list \<Rightarrow> file_result res" where
  "file_operations_result env request_id operation answer citations provider accelerator tasks documents =
     (let result = \<lparr>fx_request = request_id, fx_operation = operation, fx_answer = answer, fx_provider = provider, fx_accelerator = accelerator,
            fx_citations = citations, fx_tasks = (if operation = ''extract-tasks'' then Some tasks else None),
            fx_documents = (if operation = ''translate'' then Some documents else None)\<rparr>
      in case oe_result_violations env result of v # _ \<Rightarrow> Inl (Stable ''result-invalid'' v) | [] \<Rightarrow> Inr result)"

text \<open>\<^verbatim>\<open>_Runner.generate\<close>.\<close>

definition generate :: "operation_env \<Rightarrow> string \<Rightarrow> fragment \<Rightarrow> fragment_store \<Rightarrow> generated res \<times> fragment_store" where
  "generate env job f store =
     (case publish job [f] store of
        (Inl e, s) \<Rightarrow> (Inl e, s)
      | (Inr _, s) \<Rightarrow> (oe_route env (control_reference job) (fg_reference f) s, s))"

section \<open>Operations over the whole content\<close>

record transformed =
  tf_answers :: "string list"
  tf_tasks :: "string list"
  tf_citations :: "span_citation list"
  tf_provider :: string
  tf_accelerator :: string

definition add_tasks :: "string list \<Rightarrow> string list \<Rightarrow> string list" where
  "add_tasks new tasks = fold (\<lambda>item ts. if item \<in> set ts then ts else ts @ [item]) new tasks"

definition cite_span :: "indexed_span \<Rightarrow> span_citation" where
  "cite_span s = \<lparr>sc_file_id = ix_file_id s, sc_file_name = ix_file_name s, sc_source = ix_source s, sc_page = ix_page s,
     sc_start = ix_start s, sc_end = ix_end s, sc_sha = ix_sha s\<rparr>"

definition pass_fragment :: "(string \<Rightarrow> string) \<Rightarrow> string \<Rightarrow> nat \<Rightarrow> indexed_span list \<Rightarrow> fragment" where
  "pass_fragment sha job number batch =
     (let content = join_with [newline, newline] (map ix_text batch)
      in \<lparr>fg_reference = ''private:'' @ job @ '':operation-content-'' @ nat_str (number + 1), fg_source = sha content, fg_page = number + 1,
          fg_text = content, fg_sha = sha content\<rparr>)"

fun transform_loop :: "operation_env \<Rightarrow> string \<Rightarrow> string \<Rightarrow> nat \<Rightarrow> indexed_span list list \<Rightarrow> transformed \<Rightarrow> fragment_store \<Rightarrow>
    transformed res \<times> fragment_store" where
  "transform_loop env job operation number [] acc store = (Inr acc, store)"
| "transform_loop env job operation number (batch # batches) acc store =
     (case oe_stop_pass env number of
        Some e \<Rightarrow> (Inl e, store)
      | None \<Rightarrow>
          (case generate env job (pass_fragment (oe_sha env) job number batch) store of
             (Inl e, s) \<Rightarrow> (Inl e, s)
           | (Inr g, s) \<Rightarrow>
               (case grounded_operation_answer (oe_answer_violations env) (ge_document g) job operation (pass_fragment (oe_sha env) job number batch) of
                  Inl e \<Rightarrow> (Inl e, s)
                | Inr (answer, tasks) \<Rightarrow>
                    transform_loop env job operation (Suc number) batches
                      \<lparr>tf_answers = (if answer = [] then tf_answers acc else tf_answers acc @ [answer]), tf_tasks = add_tasks tasks (tf_tasks acc),
                       tf_citations = tf_citations acc @ map cite_span batch, tf_provider = ge_provider g, tf_accelerator = ge_accelerator g\<rparr> s)))"

fun selection_spans :: "(string \<Rightarrow> string) \<Rightarrow> string \<Rightarrow> nat \<Rightarrow> extraction list \<Rightarrow> indexed_span list res" where
  "selection_spans sha job k [] = Inr []"
| "selection_spans sha job k (x # xs) =
     bind_res (page_spans sha job (k + 1) (xt_name x) (xt_digest x) (xt_pages x) None) (\<lambda>spans.
       map_res (\<lambda>rest. spans @ rest) (selection_spans sha job (Suc k) xs))"

definition transform_documents :: "operation_env \<Rightarrow> string \<Rightarrow> string \<Rightarrow> extraction list \<Rightarrow> fragment_store \<Rightarrow> file_result res \<times> fragment_store" where
  "transform_documents env job operation extractions store =
     (case selection_spans (oe_sha env) job 0 extractions of
        Inl e \<Rightarrow> (Inl e, store)
      | Inr spans \<Rightarrow>
          if spans = [] then (Inl (Stable ''source-empty'' ''selected files produced no text spans''), store)
          else (case transform_loop env job operation 0 (answer_passes spans (int (oe_context_tokens env)) 1)
                   \<lparr>tf_answers = [], tf_tasks = [], tf_citations = [], tf_provider = [], tf_accelerator = []\<rparr> store of
                  (Inl e, s) \<Rightarrow> (Inl e, s)
                | (Inr t, s) \<Rightarrow>
                    (file_operations_result env job operation (join_with [newline, newline] (tf_answers t)) (tf_citations t)
                       (tf_provider t) (tf_accelerator t) (tf_tasks t) [], s)))"

section \<open>Translation of the files\<close>

record translating =
  tg_store :: fragment_store
  tg_citations :: "span_citation list"
  tg_provider :: string
  tg_accelerator :: string

definition translation_fragment :: "(string \<Rightarrow> string) \<Rightarrow> string \<Rightarrow> nat \<Rightarrow> span \<Rightarrow> fragment" where
  "translation_fragment sha job k s =
     \<lparr>fg_reference = ''private:'' @ job @ '':document-'' @ nat_str (k + 1) @ ''-span-'' @ nat_str (sp_index s + 1),
      fg_source = sha (sp_text s), fg_page = sp_index s + 1, fg_text = sp_text s, fg_sha = sha (sp_text s)\<rparr>"

definition translation_citation :: "(string \<Rightarrow> string) \<Rightarrow> nat \<Rightarrow> extraction \<Rightarrow> span \<Rightarrow> span_citation" where
  "translation_citation sha k x s =
     \<lparr>sc_file_id = ''selected-file-'' @ nat_str (k + 1), sc_file_name = xt_name x, sc_source = xt_digest x, sc_page = int (sp_index s + 1),
      sc_start = sp_start s, sc_end = sp_end s, sc_sha = sha (sp_text s)\<rparr>"

definition translate_span :: "operation_env \<Rightarrow> string \<Rightarrow> nat \<Rightarrow> extraction \<Rightarrow> translating translator" where
  "translate_span env job k x s w =
     (let f = translation_fragment (oe_sha env) job k s in
      case generate env job f (tg_store w) of
        (Inl e, store) \<Rightarrow> (Inl e, w\<lparr>tg_store := store\<rparr>)
      | (Inr g, store) \<Rightarrow>
          (case grounded_operation_answer (oe_answer_violations env) (ge_document g) job ''translate'' f of
             Inl e \<Rightarrow> (Inl e, w\<lparr>tg_store := store\<rparr>)
           | Inr (answer, tasks) \<Rightarrow>
               (Inr (PStr answer),
                \<lparr>tg_store = store,
                 tg_citations = tg_citations w @ [translation_citation (oe_sha env) k x s],
                 tg_provider = ge_provider g, tg_accelerator = ge_accelerator g\<rparr>)))"

definition translation_tokens :: "operation_env \<Rightarrow> nat" where
  "translation_tokens env = (case oe_output_tokens env of Some n \<Rightarrow> n | None \<Rightarrow> max 1 (oe_context_tokens env div 2))"

fun translate_files :: "operation_env \<Rightarrow> string \<Rightarrow> nat \<Rightarrow> extraction list \<Rightarrow> translated_document list \<Rightarrow> translating \<Rightarrow>
    translated_document list res \<times> translating" where
  "translate_files env job k [] documents w = (Inr documents, w)"
| "translate_files env job k (x # xs) documents w =
     (if strip_text (xt_text x) = []
      then (Inl (Stable ''source-empty'' ''each selected document must contain extractable text''), w)
      else case translate_document (oe_stop_span env k) (translate_span env job k x) (xt_text x) (translation_tokens env) w of
             (Inl e, events, w1) \<Rightarrow> (Inl e, w1)
           | (Inr t, events, w1) \<Rightarrow>
               translate_files env job (Suc k) xs
                 (documents @ [\<lparr>td_id = ''selected-document-'' @ nat_str (k + 1), td_file_name = xt_name x, td_source = xt_digest x,
                    td_spans = length (tr_spans t), td_text = tr_text t, td_sha = oe_sha env (tr_text t)\<rparr>]) w1)"

definition translate_documents :: "operation_env \<Rightarrow> string \<Rightarrow> extraction list \<Rightarrow> fragment_store \<Rightarrow> file_result res \<times> fragment_store" where
  "translate_documents env job extractions store =
     (case translate_files env job 0 extractions [] \<lparr>tg_store = store, tg_citations = [], tg_provider = [], tg_accelerator = []\<rparr> of
        (Inl e, w) \<Rightarrow> (Inl e, tg_store w)
      | (Inr documents, w) \<Rightarrow>
          (file_operations_result env job ''translate'' (join_with [newline, newline] (map td_text documents)) (tg_citations w)
             (tg_provider w) (tg_accelerator w) [] documents, tg_store w))"

section \<open>One operation\<close>

fun read_all :: "(nat \<Rightarrow> exn option) \<Rightarrow> nat \<Rightarrow> extraction res list \<Rightarrow> extraction list res" where
  "read_all stopped n [] = Inr []"
| "read_all stopped n (r # rs) =
     (case stopped n of
        Some e \<Rightarrow> Inl e
      | None \<Rightarrow> bind_res r (\<lambda>x. map_res (\<lambda>xs. x # xs) (read_all stopped (Suc n) rs)))"

definition operate_on_selected_files :: "operation_env \<Rightarrow> string \<Rightarrow> string \<Rightarrow> string option \<Rightarrow> extraction res list \<Rightarrow> fragment_store \<Rightarrow>
    file_result res \<times> fragment_store" where
  "operate_on_selected_files env job operation language selected store =
     (case publish job [operation_control_fragment (oe_sha env) job operation language] store of
        (Inl e, s) \<Rightarrow> (Inl e, s)
      | (Inr _, s) \<Rightarrow>
          (case read_all (oe_stop_read env) 0 selected of
             Inl e \<Rightarrow> (Inl e, s)
           | Inr extractions \<Rightarrow>
               if operation = ''translate''
               then (if language = None then (Inl (RuntimeError ''AssertionError''), s) else translate_documents env job extractions s)
               else transform_documents env job operation extractions s))"

section \<open>What the router is shown\<close>

lemma publish_one:
  assumes "publish job [f] store = (Inr u, s)"
  shows "resolve_fragment job (fg_reference f) s = Inr f"
    and "resolve_fragment job r store = Inr x \<Longrightarrow> resolve_fragment job r s = Inr x"
  using assms by (auto simp: publish_def resolve_fragment_def dhas_iff split: if_splits sum.splits option.splits)

lemma generate_shown:
  assumes "generate env job f store = (Inr g, s)"
  shows "resolve_fragment job (fg_reference f) s = Inr f" and "oe_route env (control_reference job) (fg_reference f) s = Inr g"
    and "resolve_fragment job r store = Inr x \<Longrightarrow> resolve_fragment job r s = Inr x"
  using assms publish_one by (auto simp: generate_def split: prod.splits sum.splits)

lemma generate_keeps:
  assumes "generate env job f store = (a, s)" and "resolve_fragment job r store = Inr x"
  shows "resolve_fragment job r s = Inr x"
proof (cases "fst (publish job [f] store)")
  case (Inl e)
  then have "snd (publish job [f] store) = store" by (auto simp: publish_def split: if_splits sum.splits)
  then show ?thesis using assms Inl by (auto simp: generate_def split: prod.splits)
next
  case (Inr u)
  then show ?thesis using assms publish_one(2) by (auto simp: generate_def split: prod.splits)
qed

text \<open>
  One generation: the router could resolve the control and exactly this fragment, its answer was for
  this request and operation, cites this fragment and nothing else, and what is used of it is its text
  without the white space at the ends, with tasks only when they were asked for.
\<close>

definition generation_answered :: "operation_env \<Rightarrow> string \<Rightarrow> string \<Rightarrow> fragment \<Rightarrow> fragment \<Rightarrow> string \<times> string list \<Rightarrow> bool" where
  "generation_answered env job operation control f r \<longleftrightarrow>
     (\<exists>s g c. resolve_fragment job (control_reference job) s = Inr control \<and> resolve_fragment job (fg_reference f) s = Inr f \<and>
        oe_route env (control_reference job) (fg_reference f) s = Inr g \<and> oe_answer_violations env (ge_document g) = [] \<and>
        ad_request (ge_document g) = job \<and> ad_operation (ge_document g) \<in> {None, Some operation} \<and>
        ad_citations (ge_document g) = [c] \<and> cites_fragment f c \<and>
        r = (strip_text (ad_answer (ge_document g)), ad_tasks (ge_document g)) \<and> (operation \<noteq> ''extract-tasks'' \<longrightarrow> snd r = []))"

lemma grounded_sound:
  assumes "grounded_operation_answer v d job operation f = Inr r"
  shows "v d = [] \<and> ad_request d = job \<and> ad_operation d \<in> {None, Some operation} \<and> (\<exists>c. ad_citations d = [c] \<and> cites_fragment f c) \<and>
    r = (strip_text (ad_answer d), ad_tasks d) \<and> (operation \<noteq> ''extract-tasks'' \<longrightarrow> snd r = [])"
  using assms by (auto simp: grounded_operation_answer_def split: list.splits if_splits option.splits)

lemma generation_answeredI:
  assumes "generate env job f store = (Inr g, s)" and "resolve_fragment job (control_reference job) store = Inr control"
    and "grounded_operation_answer (oe_answer_violations env) (ge_document g) job operation f = Inr r"
  shows "generation_answered env job operation control f r"
  unfolding generation_answered_def
  using generate_shown [OF assms(1)] assms(2) grounded_sound [OF assms(3)] by blast

section \<open>The whole selection\<close>

lemma set_add_tasks [simp]: "set (add_tasks new tasks) = set tasks \<union> set new"
  by (induction new arbitrary: tasks) (auto simp: add_tasks_def)

lemma distinct_add_tasks: "distinct tasks \<Longrightarrow> distinct (add_tasks new tasks)"
  by (induction new arbitrary: tasks) (auto simp: add_tasks_def)

lemma transform_loop_exact:
  "\<lbrakk>transform_loop env job operation number batches acc store = (Inr t, s); resolve_fragment job (control_reference job) store = Inr control; distinct (tf_tasks acc)\<rbrakk> \<Longrightarrow>
   \<exists>rs. length rs = length batches \<and>
     (\<forall>i < length batches. generation_answered env job operation control (pass_fragment (oe_sha env) job (number + i) (batches ! i)) (rs ! i)) \<and>
     tf_answers t = tf_answers acc @ filter (\<lambda>a. a \<noteq> []) (map fst rs) \<and> distinct (tf_tasks t) \<and>
     set (tf_tasks t) = set (tf_tasks acc) \<union> (\<Union>r \<in> set rs. set (snd r)) \<and>
     tf_citations t = tf_citations acc @ map cite_span (concat batches)"
proof (induction env job operation number batches acc store rule: transform_loop.induct)
  case (1 env job operation number acc store)
  then show ?case by simp
next
  case (2 env job operation number batch batches acc store)
  let ?f = "pass_fragment (oe_sha env) job number batch"
  have n: "oe_stop_pass env number = None" using "2.prems"(1) by (cases "oe_stop_pass env number") simp_all
  obtain x s1 where g: "generate env job ?f store = (x, s1)" by fastforce
  obtain g1 where x: "x = Inr g1" using "2.prems"(1) n g by (cases x) simp_all
  obtain answer tasks where gr: "grounded_operation_answer (oe_answer_violations env) (ge_document g1) job operation ?f = Inr (answer, tasks)"
    using "2.prems"(1) n g x by (cases "grounded_operation_answer (oe_answer_violations env) (ge_document g1) job operation ?f") auto
  let ?acc = "\<lparr>tf_answers = (if answer = [] then tf_answers acc else tf_answers acc @ [answer]), tf_tasks = add_tasks tasks (tf_tasks acc),
     tf_citations = tf_citations acc @ map cite_span batch, tf_provider = ge_provider g1, tf_accelerator = ge_accelerator g1\<rparr>"
  have l: "transform_loop env job operation (Suc number) batches ?acc s1 = (Inr t, s)" using "2.prems"(1) n g x gr by simp
  have d: "distinct (tf_tasks ?acc)" using "2.prems"(3) by (simp add: distinct_add_tasks)
  have c: "resolve_fragment job (control_reference job) s1 = Inr control" using generate_keeps [OF g "2.prems"(2)] .
  have a: "generation_answered env job operation control ?f (answer, tasks)" using generation_answeredI g x "2.prems"(2) gr by blast
  from "2.IH" [OF n g [symmetric] x gr refl l c d] obtain rs where rs: "length rs = length batches"
    "\<forall>i < length batches. generation_answered env job operation control (pass_fragment (oe_sha env) job (Suc number + i) (batches ! i)) (rs ! i)"
    "tf_answers t = tf_answers ?acc @ filter (\<lambda>a. a \<noteq> []) (map fst rs)" "distinct (tf_tasks t)"
    "set (tf_tasks t) = set (tf_tasks ?acc) \<union> (\<Union>r \<in> set rs. set (snd r))"
    "tf_citations t = tf_citations ?acc @ map cite_span (concat batches)" by blast
  have "\<forall>i < length (batch # batches). generation_answered env job operation control (pass_fragment (oe_sha env) job (number + i) ((batch # batches) ! i)) (((answer, tasks) # rs) ! i)"
    using rs(2) a by (auto simp: less_Suc_eq_0_disj)
  then show ?case using rs(1,3-6) by (intro exI [of _ "(answer, tasks) # rs"]) auto
qed

lemma read_all_exact: "read_all stopped n rs = Inr xs \<Longrightarrow> rs = map Inr xs"
proof (induction rs arbitrary: n xs)
  case (Cons r rs)
  then show ?case by (cases r) (auto split: option.splits sum.splits simp: bind_res_def map_res_def)
qed simp

lemma answer_passes_concat: "concat (answer_passes spans n k) = spans"
  using passes_partition [of "\<lambda>s. length (ix_text s)" "answer_budget n" "references_per_pass k" spans]
  by (simp add: answer_passes_def)

text \<open>C39. An operation answers from the whole selection and from nothing else.  A result means that every
  file was read; every pass over the index of all files was put to the router once, as a private
  fragment the router could resolve beside the control; each answer was for this request and operation and cites
  exactly its fragment; the result is those answers in reading order, its citations are all indexed
  spans of all files, each once, and its tasks are those of all answers without repetition, none
  unless tasks were asked for.\<close>

theorem operation_reads_whole_selection:
  assumes "operate_on_selected_files env job operation language selected store = (Inr result, s)" and "operation \<noteq> ''translate''"
  shows "\<exists>xs spans rs tasks. let control = operation_control_fragment (oe_sha env) job operation language;
      passes = answer_passes spans (int (oe_context_tokens env)) 1 in
    selected = map Inr xs \<and> selection_spans (oe_sha env) job 0 xs = Inr spans \<and> spans \<noteq> [] \<and> concat passes = spans \<and> length rs = length passes \<and>
    (\<forall>i < length passes. generation_answered env job operation control (pass_fragment (oe_sha env) job i (passes ! i)) (rs ! i)) \<and>
    fx_request result = job \<and> fx_operation result = operation \<and> fx_citations result = map cite_span spans \<and>
    fx_answer result = join_with [newline, newline] (filter (\<lambda>a. a \<noteq> []) (map fst rs)) \<and>
    distinct tasks \<and> set tasks = (\<Union>r \<in> set rs. set (snd r)) \<and>
    fx_tasks result = (if operation = ''extract-tasks'' then Some tasks else None) \<and> fx_documents result = None"
proof -
  let ?control = "operation_control_fragment (oe_sha env) job operation language"
  obtain p s0 where p: "publish job [?control] store = (p, s0)" by fastforce
  obtain u where u: "p = Inr u" using assms(1) p by (cases p) (simp_all add: operate_on_selected_files_def)
  obtain xs where xs: "read_all (oe_stop_read env) 0 selected = Inr xs"
    using assms(1) p u by (cases "read_all (oe_stop_read env) 0 selected") (simp_all add: operate_on_selected_files_def)
  have t: "transform_documents env job operation xs s0 = (Inr result, s)" using assms p u xs by (simp add: operate_on_selected_files_def)
  obtain spans where spans: "selection_spans (oe_sha env) job 0 xs = Inr spans"
    using t by (cases "selection_spans (oe_sha env) job 0 xs") (simp_all add: transform_documents_def)
  have ne: "spans \<noteq> []" using t spans by (auto simp: transform_documents_def)
  let ?passes = "answer_passes spans (int (oe_context_tokens env)) 1"
  obtain y s1 where l: "transform_loop env job operation 0 ?passes \<lparr>tf_answers = [], tf_tasks = [], tf_citations = [], tf_provider = [], tf_accelerator = []\<rparr> s0 = (y, s1)"
    by fastforce
  obtain a where a: "y = Inr a" using t spans ne l by (cases y) (simp_all add: transform_documents_def)
  have r: "file_operations_result env job operation (join_with [newline, newline] (tf_answers a)) (tf_citations a) (tf_provider a) (tf_accelerator a) (tf_tasks a) [] = Inr result"
    using t spans ne l a by (simp add: transform_documents_def)
  have "fg_reference ?control = control_reference job" by (simp add: operation_control_fragment_def)
  then have c: "resolve_fragment job (control_reference job) s0 = Inr ?control" using publish_one(1) [OF p [unfolded u]] by simp
  from transform_loop_exact [OF l [unfolded a] c] obtain rs where rs: "length rs = length ?passes"
    "\<forall>i < length ?passes. generation_answered env job operation ?control (pass_fragment (oe_sha env) job i (?passes ! i)) (rs ! i)"
    "tf_answers a = filter (\<lambda>a. a \<noteq> []) (map fst rs)" "distinct (tf_tasks a)" "set (tf_tasks a) = (\<Union>r \<in> set rs. set (snd r))"
    "tf_citations a = map cite_span (concat ?passes)" by auto
  have res: "fx_request result = job" "fx_operation result = operation" "fx_citations result = tf_citations a" "fx_documents result = None"
    "fx_answer result = join_with [newline, newline] (tf_answers a)" "fx_tasks result = (if operation = ''extract-tasks'' then Some (tf_tasks a) else None)"
    using r assms(2) by (auto simp: file_operations_result_def Let_def split: list.splits)
  have whole: "concat ?passes = spans" by (rule answer_passes_concat)
  show ?thesis unfolding Let_def
    by (intro exI [of _ xs] exI [of _ spans] exI [of _ rs] exI [of _ "tf_tasks a"] conjI read_all_exact [OF xs] spans ne whole rs(1,2,4,5) res(1,2,4,6))
      (simp_all only: res rs(3,6) whole)
qed

section \<open>Every document\<close>

lemma translate_span_reply:
  assumes "translate_span env job k x s w = (r, w1)" and "resolve_fragment job (control_reference job) (tg_store w) = Inr control"
  shows "resolve_fragment job (control_reference job) (tg_store w1) = Inr control"
    and "r = Inr v \<Longrightarrow> tg_citations w1 = tg_citations w @ [translation_citation (oe_sha env) k x s] \<and>
      (\<exists>answer. v = PStr answer \<and> generation_answered env job ''translate'' control (translation_fragment (oe_sha env) job k s) (answer, []))"
proof -
  let ?f = "translation_fragment (oe_sha env) job k s"
  obtain y st where g: "generate env job ?f (tg_store w) = (y, st)" by fastforce
  note keep = generate_keeps [OF g assms(2)]
  show "resolve_fragment job (control_reference job) (tg_store w1) = Inr control"
    using assms(1) keep by (auto simp: translate_span_def g split: sum.splits prod.splits)
  assume "r = Inr v"
  then obtain g1 answer tasks where x: "y = Inr g1"
    "grounded_operation_answer (oe_answer_violations env) (ge_document g1) job ''translate'' ?f = Inr (answer, tasks)" "v = PStr answer"
    "tg_citations w1 = tg_citations w @ [translation_citation (oe_sha env) k x s]"
    using assms(1) by (auto simp: translate_span_def g split: sum.splits prod.splits)
  moreover have "tasks = []" using grounded_sound [OF x(2)] by auto
  ultimately show "tg_citations w1 = tg_citations w @ [translation_citation (oe_sha env) k x s] \<and>
      (\<exists>answer. v = PStr answer \<and> generation_answered env job ''translate'' control (translation_fragment (oe_sha env) job k s) (answer, []))"
    using generation_answeredI [OF g [unfolded x(1)] assms(2) x(2)] by simp
qed

lemma asked_spans:
  "\<lbrakk>list_all usable_answer (replies (translate_span env job k x) w spans); resolve_fragment job (control_reference job) (tg_store w) = Inr control\<rbrakk> \<Longrightarrow>
   (\<forall>j < length spans. strip_text (answer_text (replies (translate_span env job k x) w spans ! j)) \<noteq> [] \<and>
      generation_answered env job ''translate'' control (translation_fragment (oe_sha env) job k (spans ! j))
        (answer_text (replies (translate_span env job k x) w spans ! j), [])) \<and>
   tg_citations (after_asking (translate_span env job k x) spans w) = tg_citations w @ map (translation_citation (oe_sha env) k x) spans \<and>
   resolve_fragment job (control_reference job) (tg_store (after_asking (translate_span env job k x) spans w)) = Inr control"
proof (induction spans arbitrary: w)
  case (Cons s ss)
  obtain r w1 where a: "translate_span env job k x s w = (r, w1)" by fastforce
  have u: "usable_answer r" "list_all usable_answer (replies (translate_span env job k x) w1 ss)" using Cons.prems(1) a by simp_all
  then obtain v where v: "r = Inr v" by (cases r) (simp_all add: usable_answer_def)
  note s = translate_span_reply [OF a Cons.prems(2)]
  obtain answer where an: "v = PStr answer" "generation_answered env job ''translate'' control (translation_fragment (oe_sha env) job k s) (answer, [])"
    "tg_citations w1 = tg_citations w @ [translation_citation (oe_sha env) k x s]" using s(2) [OF v] by blast
  note IH = Cons.IH [OF u(2) s(1)]
  show ?case using IH an u(1) v a
    by (auto simp: less_Suc_eq_0_disj after_asking_def answer_text_def usable_answer_def)
qed (simp add: after_asking_def)

text \<open>One translated document: all of its file, span by span.\<close>

definition document_translated :: "operation_env \<Rightarrow> string \<Rightarrow> fragment \<Rightarrow> nat \<Rightarrow> extraction \<Rightarrow> translated_document \<Rightarrow> span list \<Rightarrow> bool" where
  "document_translated env job control k x d spans \<longleftrightarrow>
     plan (xt_text x) (translation_tokens env) = Inr spans \<and> concat (map sp_text spans) = xt_text x \<and>
     td_file_name d = xt_name x \<and> td_source d = xt_digest x \<and> td_spans d = length spans \<and>
     (\<exists>answers. length answers = length spans \<and> td_text d = concat answers \<and>
        (\<forall>j < length spans. strip_text (answers ! j) \<noteq> [] \<and>
           generation_answered env job ''translate'' control (translation_fragment (oe_sha env) job k (spans ! j)) (answers ! j, [])))"

lemma translate_files_exact:
  "\<lbrakk>translate_files env job k xs docs w = (Inr out, w1); resolve_fragment job (control_reference job) (tg_store w) = Inr control\<rbrakk> \<Longrightarrow>
   \<exists>more spanss. out = docs @ more \<and> length more = length xs \<and> length spanss = length xs \<and>
     (\<forall>i < length xs. document_translated env job control (k + i) (xs ! i) (more ! i) (spanss ! i)) \<and>
     tg_citations w1 = tg_citations w @ concat (map (\<lambda>i. map (translation_citation (oe_sha env) (k + i) (xs ! i)) (spanss ! i)) [0..<length xs])"
proof (induction xs arbitrary: k docs w)
  case Nil
  then show ?case by simp
next
  case (Cons x xs)
  let ?ask = "translate_span env job k x"
  have ne: "strip_text (xt_text x) \<noteq> []" using Cons.prems(1) by (auto split: if_splits)
  obtain r ev w2 where td: "translate_document (oe_stop_span env k) ?ask (xt_text x) (translation_tokens env) w = (r, ev, w2)" by (metis prod_cases3)
  obtain t where t: "r = Inr t" using Cons.prems(1) ne td by (cases r) simp_all
  let ?d = "\<lparr>td_id = ''selected-document-'' @ nat_str (k + 1), td_file_name = xt_name x, td_source = xt_digest x,
     td_spans = length (tr_spans t), td_text = tr_text t, td_sha = oe_sha env (tr_text t)\<rparr>"
  have l: "translate_files env job (Suc k) xs (docs @ [?d]) w2 = (Inr out, w1)" using Cons.prems(1) ne td t by simp
  obtain spans where sp: "plan (xt_text x) (translation_tokens env) = Inr spans" "concat (map sp_text spans) = xt_text x"
    "tr_spans t = zip spans (map answer_text (replies ?ask w spans))" "tr_text t = concat (map answer_text (replies ?ask w spans))"
    "list_all usable_answer (replies ?ask w spans)" "w2 = after_asking ?ask spans w"
    using translate_document_exact [OF td] t by auto
  note asked = asked_spans [OF sp(5) Cons.prems(2), folded sp(6)]
  have d: "document_translated env job control k x ?d spans"
    unfolding document_translated_def using sp(1-4) asked
    by (auto intro!: exI [of _ "map answer_text (replies ?ask w spans)"])
  from Cons.IH [OF l] asked obtain more spanss where m: "out = (docs @ [?d]) @ more" "length more = length xs" "length spanss = length xs"
    "\<forall>i < length xs. document_translated env job control (Suc k + i) (xs ! i) (more ! i) (spanss ! i)"
    "tg_citations w1 = tg_citations w2 @ concat (map (\<lambda>i. map (translation_citation (oe_sha env) (Suc k + i) (xs ! i)) (spanss ! i)) [0..<length xs])"
    by blast
  have "\<forall>i < length (x # xs). document_translated env job control (k + i) ((x # xs) ! i) ((?d # more) ! i) ((spans # spanss) ! i)"
    using m(4) d by (auto simp: less_Suc_eq_0_disj)
  moreover have "tg_citations w1 = tg_citations w @ concat (map (\<lambda>i. map (translation_citation (oe_sha env) (k + i) ((x # xs) ! i)) ((spans # spanss) ! i)) [0..<length (x # xs)])"
    using m(5) asked by (simp add: upt_conv_Cons map_Suc_upt [symmetric] comp_def del: upt_Suc map_Suc_upt)
  ultimately show ?case using m(1-3) by (intro exI [of _ "?d # more"] exI [of _ "spans # spanss"]) simp
qed

text \<open>C40. Every selected document is translated in full.  A result means that every file was read and has one
  document, in the order of the selection; its spans put together are the text of the file, each was
  put to the router as its own private fragment, each answer cites exactly that fragment and is not
  blank, and the document is the answers joined with nothing between them.  The citations
  are the spans of all the files with their exact offsets.\<close>

theorem every_document_translated:
  assumes "operate_on_selected_files env job ''translate'' language selected store = (Inr result, s)"
  shows "\<exists>xs documents spanss. let control = operation_control_fragment (oe_sha env) job ''translate'' language in
    selected = map Inr xs \<and> fx_documents result = Some documents \<and> length documents = length xs \<and> length spanss = length xs \<and>
    (\<forall>i < length xs. document_translated env job control i (xs ! i) (documents ! i) (spanss ! i)) \<and>
    fx_answer result = join_with [newline, newline] (map td_text documents) \<and>
    fx_citations result = concat (map (\<lambda>i. map (translation_citation (oe_sha env) i (xs ! i)) (spanss ! i)) [0..<length xs])"
proof -
  let ?control = "operation_control_fragment (oe_sha env) job ''translate'' language"
  obtain p s0 where p: "publish job [?control] store = (p, s0)" by fastforce
  obtain u where u: "p = Inr u" using assms p by (cases p) (simp_all add: operate_on_selected_files_def)
  obtain xs where xs: "read_all (oe_stop_read env) 0 selected = Inr xs"
    using assms p u by (cases "read_all (oe_stop_read env) 0 selected") (simp_all add: operate_on_selected_files_def)
  have t: "translate_documents env job xs s0 = (Inr result, s)" using assms p u xs by (simp add: operate_on_selected_files_def split: if_splits)
  let ?w = "\<lparr>tg_store = s0, tg_citations = [], tg_provider = [], tg_accelerator = []\<rparr>"
  obtain y w where l: "translate_files env job 0 xs [] ?w = (y, w)" by fastforce
  obtain documents where d: "y = Inr documents" using t l by (cases y) (simp_all add: translate_documents_def)
  have "fg_reference ?control = control_reference job" by (simp add: operation_control_fragment_def)
  then have c: "resolve_fragment job (control_reference job) (tg_store ?w) = Inr ?control" using publish_one(1) [OF p [unfolded u]] by simp
  from translate_files_exact [OF l [unfolded d] c] obtain spanss where e: "length documents = length xs" "length spanss = length xs"
    "\<forall>i < length xs. document_translated env job ?control i (xs ! i) (documents ! i) (spanss ! i)"
    "tg_citations w = concat (map (\<lambda>i. map (translation_citation (oe_sha env) i (xs ! i)) (spanss ! i)) [0..<length xs])" by auto
  have "file_operations_result env job ''translate'' (join_with [newline, newline] (map td_text documents)) (tg_citations w) (tg_provider w) (tg_accelerator w) [] documents = Inr result"
    using t l d by (simp add: translate_documents_def)
  then show ?thesis using read_all_exact [OF xs] e
    by (intro exI [of _ xs] exI [of _ documents] exI [of _ spanss]) (auto simp: Let_def file_operations_result_def split: list.splits)
qed

section \<open>Witnesses\<close>

text \<open>A router that reads the fragment and answers with its text, a blank around it, citing it.\<close>

definition demo_route :: "string \<Rightarrow> string \<Rightarrow> fragment_store \<Rightarrow> generated res" where
  "demo_route control reference store =
     map_res (\<lambda>f. \<lparr>ge_document = \<lparr>ad_request = ''r1'', ad_operation = None, ad_answer = '' '' @ fg_text f @ '' '', ad_tasks = [],
         ad_citations = [\<lparr>ci_reference = reference, ci_source = fg_source f, ci_page = int (fg_page f), ci_start = 0,
           ci_end = int (length (fg_text f)), ci_sha = fg_sha f\<rparr>]\<rparr>, ge_provider = ''p'', ge_accelerator = ''gpu''\<rparr>)
       (resolve_fragment ''r1'' reference store)"

definition demo_operation_env :: operation_env where
  "demo_operation_env = \<lparr>oe_sha = (\<lambda>s. ''d''), oe_context_tokens = 4096, oe_output_tokens = Some 12, oe_answer_violations = (\<lambda>_. []),
     oe_result_violations = (\<lambda>_. []), oe_stop_read = (\<lambda>_. None), oe_stop_pass = (\<lambda>_. None), oe_stop_span = (\<lambda>_ _. None), oe_route = demo_route\<rparr>"

definition demo_file :: extraction where
  "demo_file = \<lparr>xt_name = ''a.txt'', xt_digest = replicate 64 (CHR ''0''), xt_pages = [\<lparr>pg_number = 1, pg_text = ''Hello''\<rparr>],
     xt_text = ''Aa bb cc.'' @ [newline, newline] @ ''Dd ee ff.''\<rparr>"

lemma demo_translated:
  "map_res (map td_text \<circ> the \<circ> fx_documents) (fst (operate_on_selected_files demo_operation_env ''r1'' ''translate'' (Some ''fr'') [Inr demo_file] [])) =
   Inr [''Aa bb cc.Dd ee ff.'']"
  by code_simp

theorem every_document_translated_witness:
  "\<exists>result s. operate_on_selected_files demo_operation_env ''r1'' ''translate'' (Some ''fr'') [Inr demo_file] [] = (Inr result, s) \<and>
     length (the (fx_documents result)) = 1"
proof -
  obtain r s where o: "operate_on_selected_files demo_operation_env ''r1'' ''translate'' (Some ''fr'') [Inr demo_file] [] = (r, s)" by fastforce
  then obtain result where r: "r = Inr result" using demo_translated by (cases r) simp_all
  then have "\<exists>documents. fx_documents result = Some documents \<and> length documents = length [Inr demo_file :: extraction res]"
    using every_document_translated [OF o [unfolded r]] by (metis (no_types, lifting) length_map)
  then show ?thesis using o r by auto
qed

lemma demo_summarized:
  "is_ok (fst (operate_on_selected_files demo_operation_env ''r1'' ''summarize'' None [Inr demo_file] []))"
  by code_simp

theorem operation_reads_whole_selection_witness:
  "\<exists>result s. operate_on_selected_files demo_operation_env ''r1'' ''summarize'' None [Inr demo_file] [] = (Inr result, s) \<and>
     fx_citations result \<noteq> []"
proof -
  obtain r s where o: "operate_on_selected_files demo_operation_env ''r1'' ''summarize'' None [Inr demo_file] [] = (r, s)" by fastforce
  then obtain result where r: "r = Inr result" using demo_summarized by (cases r) (simp_all add: is_ok_def)
  show ?thesis using operation_reads_whole_selection [OF o [unfolded r]] o r by (auto simp: Let_def)
qed

end
