(* ===== verification/Spec2Isabelle.thy ===== *)
theory Spec2Isabelle
  imports Plugin_Admission Model_Cache Job_Lifecycle Control Dispatch Plugin_Flow Worker_Supervisor
    Job_Cancellation Worker_Session
    Live_Consent Trigger_Coordinator Plugin_Settings Orchestration Control_Surface File_Operations
begin

text \<open>
  A verification library for omnitensor, a local service that shares a machine's accelerators
  between workloads.  It models the part of \<^verbatim>\<open>src/omnitensor\<close> that decides: who is admitted, in
  which order and on which device work runs, what is remembered of it, how policy is changed, how
  consent is kept, how a plugin job goes through its pipeline, how plugin workers are started, watched
  and talked to, and how documents are cut, read and translated.

  \<^bold>\<open>The program.\<close>  A caller submits a job (\<^verbatim>\<open>job_lifecycle.py\<close>, decoded by \<^verbatim>\<open>job_codec.py\<close>).  Its input
  is validated (\<^verbatim>\<open>tensorref.py\<close>, \<^verbatim>\<open>tensorcontract.py\<close>), it is dispatched to a model of its manifest on a
  device the policy allows (\<^verbatim>\<open>dispatch.py\<close>, \<^verbatim>\<open>dispatch_lane.py\<close>, \<^verbatim>\<open>scheduler.py\<close>), queued there by
  weighted stride scheduling (\<^verbatim>\<open>stride.py\<close>) and run with cached models (\<^verbatim>\<open>executors/base.py\<close>).  Plugin
  jobs wait for a slot of the admission pool (\<^verbatim>\<open>plugin_admission.py\<close>), pass flow control
  (\<^verbatim>\<open>plugins/flow.py\<close>) and a call budget (\<^verbatim>\<open>plugins/budgets.py\<close>, \<^verbatim>\<open>plugins/liveness.py\<close>), and run in a
  child process which the supervisor keeps alive (\<^verbatim>\<open>plugins/supervisor*.py\<close>) and talks to in frames
  (\<^verbatim>\<open>plugins/ipc.py\<close>, \<^verbatim>\<open>plugins/worker.py\<close>).  Results are kept for their owner
  (\<^verbatim>\<open>plugins/job_results.py\<close>), running plugin jobs are journalled (\<^verbatim>\<open>plugins/cancellation.py\<close>), and the
  policy (\<^verbatim>\<open>state.py\<close>) is changed by revisioned commands (\<^verbatim>\<open>control.py\<close>).  All of this is reached over
  a socket: a frame is decoded (\<^verbatim>\<open>socket_transport.py\<close>), its caller is who the kernel says (\<^verbatim>\<open>callers.py\<close>),
  the quotas admit it (\<^verbatim>\<open>guard.py\<close>) and a method answers (\<^verbatim>\<open>runtime_api.py\<close>).  What a plugin may touch is a
  grant in a ledger several processes share (\<^verbatim>\<open>plugins/grants.py\<close>), asked again while work runs
  (\<^verbatim>\<open>plugins/revocation.py\<close>).  A plugin job is collected, prepared, resolved, inferred, read and delivered
  under a policy gate (\<^verbatim>\<open>plugins/pipeline.py\<close>, \<^verbatim>\<open>plugins/policy.py\<close>, \<^verbatim>\<open>plugins/runner.py\<close>,
  \<^verbatim>\<open>plugins/orchestration.py\<close>), on demand or on a trigger (\<^verbatim>\<open>plugins/triggers.py\<close>), with settings that
  migrate between versions (\<^verbatim>\<open>plugins/settings.py\<close>).  The document workloads cut files into spans and passes
  (\<^verbatim>\<open>plugins/spans.py\<close>, \<^verbatim>\<open>plugins/document_spans.py\<close>, \<^verbatim>\<open>plugins/event_passes.py\<close>) and put them to a model
  (\<^verbatim>\<open>plugins/translation.py\<close>, \<^verbatim>\<open>plugins/file_operations.py\<close>).

  \<^bold>\<open>Theories and sources.\<close>
  \<^item> \<open>OT_Prelude\<close>: exceptions as values, Python values, insertion-ordered dictionaries,
    \<^verbatim>\<open>min(key=...)\<close>, and the shared collections of facts.
  \<^item> \<open>Stride_Queue\<close> (\<^verbatim>\<open>stride.py\<close>): \<^verbatim>\<open>StrideQueue\<close>.  Serving the least pass first, refinement to an
    abstract queue per key, proportional share, and the starvation a rejoining key can cause.  The
    locale \<open>keyed_queue\<close> states what the pool and the scheduler need of it and is interpreted on
    these operations.
  \<^item> \<open>Plugin_Admission\<close> (\<^verbatim>\<open>plugin_admission.py\<close>): the pool as a step relation over arrivals,
    cancellations, wake-ups and completions; no slot leaks, the pump ends, nothing raises.
  \<^item> \<open>Backend_Routing\<close>, \<open>Backend_Scheduler\<close> (\<^verbatim>\<open>scheduler.py\<close>, \<^verbatim>\<open>registry.py\<close>): choice of a backend, and
    lanes with futures, retirement and rediscovery; no job is lost, stopping settles everything.
  \<^item> \<open>Model_Cache\<close> (\<^verbatim>\<open>executors/base.py\<close>): the LRU store of built models and its release discipline.
  \<^item> \<open>Job_Results\<close>, \<open>Job_Lifecycle\<close> (\<^verbatim>\<open>plugins/job_results.py\<close>, \<^verbatim>\<open>job_lifecycle.py\<close>, \<^verbatim>\<open>job_codec.py\<close>):
    retention bounded by age and count and scoped to the owner (the locale \<open>job_store\<close> is its
    contract), submission, cancellation, query and completion of jobs as a step relation.
  \<^item> \<open>Policy_State\<close>, \<open>Control\<close> (\<^verbatim>\<open>state.py\<close>, \<^verbatim>\<open>control.py\<close>): loading any file, the round trip of saving,
    atomic commands, no lost update, and agreement of what is served with what a restart loads
    (through the locale \<open>policy_storage\<close>).
  \<^item> \<open>Tensor_Input\<close>, \<open>Dispatch\<close> (\<^verbatim>\<open>tensorref.py\<close>, \<^verbatim>\<open>tensorcontract.py\<close>, \<^verbatim>\<open>dispatch.py\<close>,
    \<^verbatim>\<open>dispatch_lane.py\<close>, \<^verbatim>\<open>plugins/artifacts.py\<close>): validation of tensors, references down to the bytes
    of the file, pinned artifacts, prepared lanes.
  \<^item> \<open>Worker_Budget\<close>, \<open>Plugin_Flow\<close> (\<^verbatim>\<open>plugins/budgets.py\<close>, \<^verbatim>\<open>plugins/liveness.py\<close>, \<^verbatim>\<open>plugins/flow.py\<close>):
    concurrency and silence deadlines of a call, single execution per idempotency key.
  \<^item> \<open>Worker_Supervisor\<close> (\<^verbatim>\<open>plugins/supervisor*.py\<close>): start, crash, recovery, revocation and stop as
    steps between the sections that hold the lock.
  \<^item> \<open>Job_Cancellation\<close> (\<^verbatim>\<open>plugins/cancellation.py\<close>): tokens, registry and the journal.
  \<^item> \<open>Json_Text\<close>, \<open>Ipc_Frames\<close>, \<open>Worker_Session\<close> (\<^verbatim>\<open>plugins/ipc.py\<close>, \<^verbatim>\<open>plugins/supervisor_session.py\<close>,
    \<^verbatim>\<open>plugins/worker.py\<close>): Python's JSON text and UTF-8, length-prefixed frames, handshake and
    messages, and a call from the service's request to the worker's answer.  The locale
    \<open>frame_channel\<close> states what a session needs of the wire and is interpreted on the frames.
  \<^item> \<open>Grant_Ledger\<close>, \<open>Live_Consent\<close> (\<^verbatim>\<open>plugins/grants.py\<close>, \<^verbatim>\<open>plugins/revocation.py\<close>): any number of ledgers
    open on one file, refined to the last word of its audit; the guard that stops an operation when its
    consent is withdrawn.
  \<^item> \<open>Pipeline_Machine\<close>, \<open>Pipeline_Runner\<close>, \<open>Runner_Jobs\<close>, \<open>Orchestration\<close> (\<^verbatim>\<open>plugins/pipeline.py\<close>,
    \<^verbatim>\<open>plugins/policy.py\<close>, \<^verbatim>\<open>plugins/runner.py\<close>, \<^verbatim>\<open>plugins/orchestration.py\<close>): the machine of one job, its stages
    called in order under policy, the jobs of a plugin as a step relation, and the six stages of an
    inference from submission to delivery.
  \<^item> \<open>Trigger_Coordinator\<close>, \<open>Plugin_Settings\<close>, \<open>Output_Reading\<close> (\<^verbatim>\<open>plugins/triggers.py\<close>,
    \<^verbatim>\<open>plugins/settings.py\<close>, \<^verbatim>\<open>outputcontract.py\<close>, \<^verbatim>\<open>forecastresult.py\<close>): a bounded queue of triggers without
    duplicates, migration of settings, and what a model's output is read as.
  \<^item> \<open>Control_Guard\<close>, \<open>Control_Surface\<close> (\<^verbatim>\<open>guard.py\<close>, \<^verbatim>\<open>callers.py\<close>, \<^verbatim>\<open>runtime_api.py\<close>,
    \<^verbatim>\<open>socket_transport.py\<close>): quotas per caller over every interleaving of calls; one answer to every request,
    delivered across the socket; isolation of users from each other.
  \<^item> \<open>Document_Spans\<close>, \<open>Document_Passes\<close>, \<open>File_Operations\<close>: cutting without loss (the locale \<open>boundary\<close>
    states what a separator pattern promises and is interpreted on the three patterns), whole or
    refused translation, the fewest passes, merging of events, and operations over selected files
    whose answers are grounded in exactly what was put to the model.

  \<^bold>\<open>Conventions.\<close>  An operation that can raise returns a sum with the exception on the left; stateful
  code passes a record; what runs concurrently in the program is an inductive step relation whose
  steps are the stretches between two suspension points, and invariants are proved by rule
  induction over its reachable states.  Clocks, random numbers, file contents, digests, JSON
  schema validation and the outcome of a system call are arguments.  Finite floats are rationals:
  rounding is not modelled.  Strings are over the 256 code points of HOL's characters.  Loops are
  structural or have a termination proof, except the pump of the admission pool, whose fuel is
  proved sufficient in every reachable state, and the JSON reader, whose call depth is bounded by
  twice the length of its text, proved sufficient for every printed value.

  \<^bold>\<open>What the properties say.\<close>  Scheduling: the stride queue serves in proportion, pools and
  schedulers neither leak slots nor lose jobs.  Memory: stores stay within their bounds, results
  are private to their owners, models are released once and never while running.  Consistency:
  commands are atomic and ordered by revision, and survive a restart; prepared dispatches do what
  they announced.  Robustness: whatever a peer, a file or a plugin supplies, the answer is a valid
  value or a stable refusal.  Where the code departs from what it or its documentation intends, the
  departure is stated as such, several times as a theorem.

  \<^bold>\<open>Not modelled.\<close>  Native runtimes and device probing (\<^verbatim>\<open>executors/gpu.py\<close> and its siblings,
  \<^verbatim>\<open>discovery.py\<close>, \<^verbatim>\<open>device_lanes.py\<close>), subprocess and socket I/O, \<^verbatim>\<open>atomicio.py\<close> and \<^verbatim>\<open>storelock.py\<close>,
  sandboxing and secrets: they are calls of the operating system or of libraries outside the
  repository, and their outcome is an argument here.  Loading and activation of plugins
  (\<^verbatim>\<open>plugins/loading.py\<close>), the artifact store and its trust, and manifests: mostly files, signatures and
  JSON schemas around the stores and supervisors that are modelled.  The wiring of \<^verbatim>\<open>service.py\<close>,
  telemetry and snapshots, the search index, the event, media and imaging workloads and the SDK: not
  reached by this development.  The training, benchmark, acceptance and mutation tools: run by
  people beside the service, not part of it.
\<close>

end
